(* ===== verification/Prelude.thy ===== *)
theory Prelude
  imports Main "HOL-Library.Word"
begin

text \<open>
  Shared ground of the development: the collections of simplification rules
  the component theories fill, and generic facts on lists that several
  components use.

  \<^item> \<open>go_arith\<close> collects the facts that turn Go's wrapping integer arithmetic
    into plain integer arithmetic when the values fit.
  \<^item> \<open>cell_defs\<close> collects the unfolding equations of the impairment cells.
  \<^item> \<open>cell_meta\<close> collects what each cell keeps of the packet it processes.
\<close>

named_theorems go_arith "Go integer arithmetic without wrap-around"
named_theorems cell_defs "unfolding equations of the impairment cells"
named_theorems cell_meta "what the cells preserve of a packet"

section \<open>Names for the byte-level types\<close>

type_synonym byte = "8 word"
type_synonym bytes = "8 word list"
type_synonym uint16 = "16 word"
type_synonym uint32 = "32 word"
type_synonym uint64 = "64 word"

section \<open>Lists\<close>

lemma map_upt_Suc_conv: "map h [0..<Suc n] = h 0 # map (\<lambda>i. h (Suc i)) [0..<n]"
  by (simp add: upt_conv_Cons map_Suc_upt [symmetric] del: upt_Suc)

lemma nth_update_swap:
  assumes "i < length xs" "j < length xs"
  shows "(xs[i := xs ! j, j := xs ! i]) ! k =
    (if k = i then xs ! j else if k = j then xs ! i else xs ! k)"
  using assms by (auto simp: nth_list_update)

end
