(* ===== verification/GoInt.thy ===== *)
theory GoInt
  imports Prelude "HOL-Library.Signed_Division"
begin

text \<open>
  Go's \<^verbatim>\<open>int64\<close> (and \<^verbatim>\<open>int\<close>, which is 64 bits wide on every platform the
  program supports) as \<open>int\<close> with the wrap-around written out: \<open>i64\<close> is the
  value an arithmetic result has after it has been stored in 64 bits.
  Every addition, subtraction and multiplication of the source that can
  leave the 64-bit range is wrapped in \<open>i64\<close>; \<open>in64\<close> says that a value fits,
  and then \<open>i64\<close> is the identity. Division truncates towards zero, as in Go.
\<close>

type_synonym int64 = int

definition in64 :: "int \<Rightarrow> bool" where
  "in64 x \<longleftrightarrow> - 9223372036854775808 \<le> x \<and> x < 9223372036854775808"

definition i64 :: "int \<Rightarrow> int64" where
  "i64 x = (x + 9223372036854775808) mod 18446744073709551616 - 9223372036854775808"

lemma in64_i64 [simp, intro!]: "in64 (i64 x)"
  by (simp add: in64_def i64_def)

lemma i64_id [go_arith]: "in64 x \<Longrightarrow> i64 x = x"
  by (simp add: in64_def i64_def)

lemma i64_idem [simp]: "i64 (i64 x) = i64 x"
  by (simp add: i64_id)

lemma in64_iff_i64: "in64 x \<longleftrightarrow> i64 x = x"
  by (metis i64_id in64_i64)

lemma in64_between: "in64 a \<Longrightarrow> in64 b \<Longrightarrow> a \<le> x \<Longrightarrow> x \<le> b \<Longrightarrow> in64 x"
  by (simp add: in64_def)

lemma in64_small [simp]: "in64 0" "in64 1"
  by (simp_all add: in64_def)

lemma i64_0 [simp]: "i64 0 = 0"
  by (simp add: i64_def)

lemma i64_cong_mod: "i64 x mod 18446744073709551616 = x mod 18446744073709551616"
  by (simp add: i64_def mod_diff_left_eq)

lemma i64_add_wrap: "i64 (i64 a + b) = i64 (a + b)" "i64 (a + i64 b) = i64 (a + b)"
  by (simp_all add: i64_def mod_simps algebra_simps)

lemma i64_is_signed_take_bit: "i64 x = signed_take_bit 63 x"
  by (simp add: i64_def signed_take_bit_eq_take_bit_shift take_bit_eq_mod)

text \<open>Truncated division and its remainder (Go's \<^verbatim>\<open>/\<close> and \<^verbatim>\<open>%\<close>); the divisor is
  never zero where the source divides.\<close>

definition go_div :: "int64 \<Rightarrow> int64 \<Rightarrow> int64" where
  "go_div a b = i64 (a sdiv b)"

definition go_mod :: "int64 \<Rightarrow> int64 \<Rightarrow> int64" where
  "go_mod a b = a smod b"

lemma sdiv_nonneg: "0 \<le> a \<Longrightarrow> 0 \<le> b \<Longrightarrow> (a::int) sdiv b = a div b"
  by (auto simp: signed_divide_int_def sgn_if)

lemma smod_nonneg: "0 \<le> a \<Longrightarrow> 0 \<le> b \<Longrightarrow> (a::int) smod b = a mod b"
  by (auto simp: signed_modulo_int_def sgn_if)

lemma in64_div: "in64 a \<Longrightarrow> 0 \<le> a \<Longrightarrow> 0 \<le> b \<Longrightarrow> in64 (a div b)"
  using zdiv_mono2 [of a 1 b] pos_imp_zdiv_nonneg_iff [of b a]
  by (cases "b = 0") (auto simp: in64_def)

lemma go_div_nonneg [go_arith]:
  "in64 a \<Longrightarrow> 0 \<le> a \<Longrightarrow> 0 \<le> b \<Longrightarrow> go_div a b = a div b"
  by (simp add: go_div_def sdiv_nonneg i64_id in64_div)

lemma go_mod_nonneg [go_arith]: "0 \<le> a \<Longrightarrow> 0 \<le> b \<Longrightarrow> go_mod a b = a mod b"
  by (simp add: go_mod_def smod_nonneg)

lemma in64_len: "length xs < 2 ^ 63 \<Longrightarrow> in64 (int (length xs))"
  by (simp add: in64_def)

section \<open>Conversions between the machine types\<close>

text \<open>\<^verbatim>\<open>int64(w)\<close> and \<^verbatim>\<open>uint64(n)\<close>: the same 64 bits read the other way.\<close>

definition int64_of_uint64 :: "uint64 \<Rightarrow> int64" where
  "int64_of_uint64 w = sint w"

definition uint64_of_int64 :: "int64 \<Rightarrow> uint64" where
  "uint64_of_int64 n = word_of_int n"

lemma int64_of_uint64_of_int64: "in64 n \<Longrightarrow> int64_of_uint64 (uint64_of_int64 n) = n"
  by (simp add: int64_of_uint64_def uint64_of_int64_def sint_sbintrunc' in64_iff_i64
      i64_is_signed_take_bit)

lemma uint64_of_int64_of_uint64: "uint64_of_int64 (int64_of_uint64 w) = w"
  by (simp add: int64_of_uint64_def uint64_of_int64_def)

lemma in64_int64_of_uint64: "in64 (int64_of_uint64 w)"
  using sint_range_size [of w] by (simp add: int64_of_uint64_def in64_def word_size)

end
