(* ===== verification/Engine.thy ===== *)
theory Engine
  imports GoInt
begin

text \<open>
  \<^verbatim>\<open>engine/engine.go\<close>: packets, actions, and the engine that pushes one packet
  through the cell pipeline of its direction.

  A \<^verbatim>\<open>Cell\<close> of the source is an interface; here an engine holds cells of some
  type \<open>'c\<close> and the operations take the interface's methods as arguments:
  \<open>proc\<close> is \<^verbatim>\<open>Process\<close> (it returns the cell's next state and its outputs) and
  \<open>nm\<close> is \<^verbatim>\<open>Name\<close>. The locale \<open>cell_stage\<close> states what the engine relies on
  of a cell, \<open>timed_cell\<close> adds the time-base convention of the source's comment
  on \<^verbatim>\<open>InFlight\<close> (delivery never precedes ingress); theory \<open>Cells\<close> interprets
  both on the cells of the program. A Go panic is the result \<open>None\<close>.
\<close>

type_synonym direction = "8 word"

definition C2S :: direction where "C2S = 0"
definition S2C :: direction where "S2C = 1"
definition numDir :: direction where "numDir = 2"

definition direction_String :: "direction \<Rightarrow> string" where
  "direction_String d = (if d = C2S then ''c2s'' else if d = S2C then ''s2c'' else ''?'')"

record packet =
  pk_data :: bytes
  pk_dir :: direction

record inflight =
  if_seq :: uint64
  if_dir :: direction
  if_data :: bytes
  recv_at :: int64
  deliver_at :: int64

datatype action_kind = Forward | Drop

record action =
  act_kind :: action_kind
  act_dir :: direction
  act_seq :: uint64
  act_data :: bytes
  act_deliver_at :: int64
  act_reason :: string

record 'c engine =
  eng_c2s :: "'c list"
  eng_s2c :: "'c list"
  eng_seq :: uint64

type_synonym 'c process = "'c \<Rightarrow> inflight \<Rightarrow> 'c \<times> inflight list"

definition engine_New :: "'c list \<Rightarrow> 'c list \<Rightarrow> 'c engine" where
  "engine_New c2s s2c = \<lparr>eng_c2s = c2s, eng_s2c = s2c, eng_seq = 0\<rparr>"

definition pipeline :: "'c engine \<Rightarrow> direction \<Rightarrow> 'c list" where
  "pipeline e d = (if d = C2S then eng_c2s e else eng_s2c e)"

definition set_pipeline :: "'c engine \<Rightarrow> direction \<Rightarrow> 'c list \<Rightarrow> 'c engine" where
  "set_pipeline e d cs = (if d = C2S then e\<lparr>eng_c2s := cs\<rparr> else e\<lparr>eng_s2c := cs\<rparr>)"

definition drop_action :: "string \<Rightarrow> inflight \<Rightarrow> action" where
  "drop_action reason f = \<lparr>act_kind = Drop, act_dir = if_dir f, act_seq = if_seq f,
     act_data = [], act_deliver_at = 0, act_reason = reason\<rparr>"

definition forward_action :: "inflight \<Rightarrow> action" where
  "forward_action f = \<lparr>act_kind = Forward, act_dir = if_dir f, act_seq = if_seq f,
     act_data = if_data f, act_deliver_at = deliver_at f, act_reason = []\<rparr>"

text \<open>One cell over the packets that reached it, in order: an empty output is a
  drop recorded under the cell's name.\<close>

fun run_cell :: "'c process \<Rightarrow> ('c \<Rightarrow> string) \<Rightarrow> 'c \<Rightarrow> inflight list
    \<Rightarrow> 'c \<times> inflight list \<times> action list" where
  "run_cell proc nm c [] = (c, [], [])"
| "run_cell proc nm c (f # fs) =
     (case proc c f of (c1, outs) \<Rightarrow>
      case run_cell proc nm c1 fs of (c2, nxt, acts) \<Rightarrow>
        if outs = [] then (c2, nxt, drop_action (nm c1) f # acts)
        else (c2, outs @ nxt, acts))"

fun run_pipeline :: "'c process \<Rightarrow> ('c \<Rightarrow> string) \<Rightarrow> 'c list \<Rightarrow> inflight list
    \<Rightarrow> 'c list \<times> inflight list \<times> action list" where
  "run_pipeline proc nm [] cur = ([], cur, [])"
| "run_pipeline proc nm (c # cs) cur =
     (case run_cell proc nm c cur of (c1, nxt, a1) \<Rightarrow>
      case run_pipeline proc nm cs nxt of (cs1, out, a2) \<Rightarrow> (c1 # cs1, out, a1 @ a2))"

definition ingress :: "uint64 \<Rightarrow> packet \<Rightarrow> int64 \<Rightarrow> inflight" where
  "ingress s p recvAt = \<lparr>if_seq = s, if_dir = pk_dir p, if_data = pk_data p,
     recv_at = recvAt, deliver_at = recvAt\<rparr>"

definition engine_Handle :: "'c process \<Rightarrow> ('c \<Rightarrow> string) \<Rightarrow> 'c engine \<Rightarrow> packet \<Rightarrow> int64
    \<Rightarrow> ('c engine \<times> action list) option" where
  "engine_Handle proc nm e p recvAt =
     (if pk_dir p \<ge> numDir then None
      else let s = eng_seq e + 1 in
        case run_pipeline proc nm (pipeline e (pk_dir p)) [ingress s p recvAt] of
          (cs, out, drops) \<Rightarrow>
            Some (set_pipeline (e\<lparr>eng_seq := s\<rparr>) (pk_dir p) cs, drops @ map forward_action out))"

text \<open>A run of the engine over a sequence of arrivals (what every driver does).\<close>

fun engine_run :: "'c process \<Rightarrow> ('c \<Rightarrow> string) \<Rightarrow> 'c engine \<Rightarrow> (packet \<times> int64) list
    \<Rightarrow> ('c engine \<times> action list list) option" where
  "engine_run proc nm e [] = Some (e, [])"
| "engine_run proc nm e ((p, t) # ps) =
     (case engine_Handle proc nm e p t of None \<Rightarrow> None
      | Some (e1, acts) \<Rightarrow>
        (case engine_run proc nm e1 ps of None \<Rightarrow> None
         | Some (e2, rest) \<Rightarrow> Some (e2, acts # rest)))"

text \<open>One cell fed a sequence of packets: its outputs, packet by packet.\<close>

fun feed :: "'c process \<Rightarrow> 'c \<Rightarrow> inflight list \<Rightarrow> inflight list list" where
  "feed proc c [] = []"
| "feed proc c (f # fs) = (case proc c f of (c1, outs) \<Rightarrow> outs # feed proc c1 fs)"

fun feed_state :: "'c process \<Rightarrow> 'c \<Rightarrow> inflight list \<Rightarrow> 'c" where
  "feed_state proc c [] = c"
| "feed_state proc c (f # fs) = feed_state proc (fst (proc c f)) fs"

lemma length_feed [simp]: "length (feed proc c fs) = length fs"
  by (induction fs arbitrary: c) (auto split: prod.split)

lemma feed_append: "feed proc c (fs @ gs) = feed proc c fs @ feed proc (feed_state proc c fs) gs"
  by (induction fs arbitrary: c) (auto split: prod.split)

lemma feed_state_append: "feed_state proc c (fs @ gs) = feed_state proc (feed_state proc c fs) gs"
  by (induction fs arbitrary: c) auto

section \<open>Structure of the action list, for any cell\<close>

lemma drop_action_simps [simp]:
  "act_kind (drop_action r f) = Drop" "act_seq (drop_action r f) = if_seq f"
  "act_dir (drop_action r f) = if_dir f" "act_reason (drop_action r f) = r"
  by (simp_all add: drop_action_def)

lemma forward_action_simps [simp]:
  "act_kind (forward_action f) = Forward" "act_seq (forward_action f) = if_seq f"
  "act_dir (forward_action f) = if_dir f" "act_reason (forward_action f) = []"
  "act_deliver_at (forward_action f) = deliver_at f" "act_data (forward_action f) = if_data f"
  by (simp_all add: forward_action_def)

lemma run_cell_drops: "run_cell proc nm c fs = (c', nxt, acts) \<Longrightarrow> a \<in> set acts \<Longrightarrow> act_kind a = Drop"
  by (induction fs arbitrary: c c' nxt acts) (auto split: prod.splits if_splits)

lemma run_pipeline_drops:
  "run_pipeline proc nm cs cur = (cs', out, acts) \<Longrightarrow> a \<in> set acts \<Longrightarrow> act_kind a = Drop"
  by (induction cs arbitrary: cur cs' out acts) (auto split: prod.splits dest: run_cell_drops)

lemma run_cell_progress:
  "run_cell proc nm c fs = (c', nxt, acts) \<Longrightarrow> length fs \<le> length nxt + length acts"
proof (induction fs arbitrary: c c' nxt acts)
  case (Cons f fs)
  obtain c1 outs where p: "proc c f = (c1, outs)" by (cases "proc c f")
  obtain c2 n2 a2 where r: "run_cell proc nm c1 fs = (c2, n2, a2)" by (cases "run_cell proc nm c1 fs")
  show ?case using Cons.prems Cons.IH [OF r] p r by (cases outs) auto
qed simp

lemma run_pipeline_progress:
  "run_pipeline proc nm cs cur = (cs', out, acts) \<Longrightarrow> length cur \<le> length out + length acts"
proof (induction cs arbitrary: cur cs' out acts)
  case (Cons c cs)
  obtain c1 nxt a1 where r: "run_cell proc nm c cur = (c1, nxt, a1)" by (cases "run_cell proc nm c cur")
  obtain cs1 o1 a2 where q: "run_pipeline proc nm cs nxt = (cs1, o1, a2)"
    by (cases "run_pipeline proc nm cs nxt")
  show ?case using Cons.prems Cons.IH [OF q] run_cell_progress [OF r] r q by auto
qed simp

lemma run_pipeline_length: "run_pipeline proc nm cs cur = (cs', out, acts) \<Longrightarrow> length cs' = length cs"
  by (induction cs arbitrary: cur cs' out acts) (auto split: prod.splits)

text \<open>A pipeline composed of two parts is the second part run on what the first lets
  through; the first part's cells and drops do not depend on the second.\<close>

lemma run_pipeline_append:
  "run_pipeline proc nm (cs @ ds) cur =
     (case run_pipeline proc nm cs cur of (cs', mid, a1) \<Rightarrow>
      case run_pipeline proc nm ds mid of (ds', out, a2) \<Rightarrow> (cs' @ ds', out, a1 @ a2))"
  by (induction cs arbitrary: cur) (auto split: prod.splits)

lemma dir_cases: "(d :: direction) < numDir \<longleftrightarrow> d = C2S \<or> d = S2C"
proof
  assume "d < numDir"
  then have "unat d < 2" by (simp add: numDir_def word_less_nat_alt)
  then have "unat d = 0 \<or> unat d = 1" by auto
  then show "d = C2S \<or> d = S2C" by (auto simp: C2S_def S2C_def word_unat_eq_iff)
qed (auto simp: C2S_def S2C_def numDir_def)

lemma pipeline_set_pipeline [simp]:
  "pipeline (set_pipeline e d cs) d = cs"
  by (simp add: pipeline_def set_pipeline_def)

lemma pipeline_set_other: "d < numDir \<Longrightarrow> d' < numDir \<Longrightarrow> d \<noteq> d' \<Longrightarrow>
  pipeline (set_pipeline e d cs) d' = pipeline e d'"
  by (auto simp: pipeline_def set_pipeline_def dir_cases)

lemma eng_seq_set_pipeline [simp]: "eng_seq (set_pipeline e d cs) = eng_seq e"
  by (simp add: set_pipeline_def)

lemma pipeline_seq_update [simp]: "pipeline (e\<lparr>eng_seq := s\<rparr>) d = pipeline e d"
  by (simp add: pipeline_def)

lemma engine_Handle_Some:
  assumes "engine_Handle proc nm e p t = Some (e', acts)"
  obtains cs out drops where
    "pk_dir p < numDir"
    "run_pipeline proc nm (pipeline e (pk_dir p)) [ingress (eng_seq e + 1) p t] = (cs, out, drops)"
    "e' = set_pipeline (e\<lparr>eng_seq := eng_seq e + 1\<rparr>) (pk_dir p) cs"
    "acts = drops @ map forward_action out"
  using assms by (auto simp: engine_Handle_def Let_def split: if_splits prod.splits)

section \<open>The interface of a cell\<close>

definition same_packet :: "inflight \<Rightarrow> inflight \<Rightarrow> bool" where
  "same_packet f g \<longleftrightarrow> if_seq g = if_seq f \<and> if_dir g = if_dir f \<and> recv_at g = recv_at f \<and>
     length (if_data g) = length (if_data f)"

lemma same_packet_refl [simp]: "same_packet f f"
  by (simp add: same_packet_def)

lemma same_packet_trans: "same_packet f g \<Longrightarrow> same_packet g h \<Longrightarrow> same_packet f h"
  by (simp add: same_packet_def)

text \<open>What every cell keeps of a packet: ingress number, direction, ingress time and
  payload length; a cell never changes its name; and it emits at most two packets.\<close>

locale cell_stage =
  fixes proc :: "'c process" and nm :: "'c \<Rightarrow> string"
  assumes proc_name: "nm (fst (proc c f)) = nm c"
    and proc_meta: "g \<in> set (snd (proc c f)) \<Longrightarrow> same_packet f g"
    and proc_fanout: "length (snd (proc c f)) \<le> 2"
begin

lemma run_cell_name: "run_cell proc nm c fs = (c', nxt, acts) \<Longrightarrow> nm c' = nm c"
proof (induction fs arbitrary: c c' nxt acts)
  case (Cons f fs)
  then show ?case using proc_name [of c f]
    by (auto split: prod.splits if_splits)
qed simp

lemma run_cell_reason:
  "run_cell proc nm c fs = (c', nxt, acts) \<Longrightarrow> a \<in> set acts \<Longrightarrow> act_reason a = nm c"
proof (induction fs arbitrary: c c' nxt acts)
  case (Cons f fs)
  then show ?case using proc_name [of c f]
    by (auto split: prod.splits if_splits)
qed simp

lemma run_cell_meta:
  assumes "run_cell proc nm c fs = (c', nxt, acts)" and "\<forall>f\<in>set fs. same_packet f0 f"
  shows "(\<forall>g\<in>set nxt. same_packet f0 g) \<and>
    (\<forall>a\<in>set acts. act_seq a = if_seq f0 \<and> act_dir a = if_dir f0)"
  using assms
proof (induction fs arbitrary: c c' nxt acts)
  case (Cons f fs)
  obtain c1 outs where p: "proc c f = (c1, outs)" by (cases "proc c f")
  obtain c2 n2 a2 where r: "run_cell proc nm c1 fs = (c2, n2, a2)" by (cases "run_cell proc nm c1 fs")
  have f: "same_packet f0 f" using Cons.prems(2) by simp
  then have "\<forall>g\<in>set outs. same_packet f0 g"
    using proc_meta [of _ c f] same_packet_trans p by fastforce
  then show ?case using Cons.prems Cons.IH [OF r] p r f
    by (cases outs) (auto simp: same_packet_def)
qed simp

lemma run_pipeline_meta:
  assumes "run_pipeline proc nm cs cur = (cs', out, acts)" and "\<forall>f\<in>set cur. same_packet f0 f"
  shows "(\<forall>g\<in>set out. same_packet f0 g) \<and>
    (\<forall>a\<in>set acts. act_seq a = if_seq f0 \<and> act_dir a = if_dir f0)"
  using assms
proof (induction cs arbitrary: cur cs' out acts)
  case (Cons c cs)
  obtain c1 nxt a1 where r: "run_cell proc nm c cur = (c1, nxt, a1)" by (cases "run_cell proc nm c cur")
  obtain cs1 o1 a2 where q: "run_pipeline proc nm cs nxt = (cs1, o1, a2)"
    by (cases "run_pipeline proc nm cs nxt")
  show ?case using Cons.prems(1) Cons.IH [OF q] run_cell_meta [OF r Cons.prems(2)] r q by auto
qed auto

lemma run_pipeline_reason:
  "run_pipeline proc nm cs cur = (cs', out, acts) \<Longrightarrow> a \<in> set acts \<Longrightarrow> act_reason a \<in> nm ` set cs"
proof (induction cs arbitrary: cur cs' out acts)
  case (Cons c cs)
  obtain c1 nxt a1 where r: "run_cell proc nm c cur = (c1, nxt, a1)" by (cases "run_cell proc nm c cur")
  obtain cs1 o1 a2 where q: "run_pipeline proc nm cs nxt = (cs1, o1, a2)"
    by (cases "run_pipeline proc nm cs nxt")
  show ?case using Cons.prems Cons.IH [OF q] run_cell_reason [OF r] r q by auto
qed simp

lemma run_pipeline_names: "run_pipeline proc nm cs cur = (cs', out, acts) \<Longrightarrow> map nm cs' = map nm cs"
  by (induction cs arbitrary: cur cs' out acts) (auto split: prod.splits dest: run_cell_name)

lemma run_cell_fanout:
  "run_cell proc nm c fs = (c', nxt, acts) \<Longrightarrow> length nxt + 2 * length acts \<le> 2 * length fs"
proof (induction fs arbitrary: c c' nxt acts)
  case (Cons f fs)
  obtain c1 outs where p: "proc c f = (c1, outs)" by (cases "proc c f")
  obtain c2 n2 a2 where r: "run_cell proc nm c1 fs = (c2, n2, a2)" by (cases "run_cell proc nm c1 fs")
  show ?case using Cons.prems Cons.IH [OF r] p r proc_fanout [of c f] by (auto split: if_splits)
qed simp

lemma run_pipeline_fanout:
  "run_pipeline proc nm cs cur = (cs', out, acts) \<Longrightarrow>
    length out + length acts \<le> 2 ^ length cs * length cur"
proof (induction cs arbitrary: cur cs' out acts)
  case (Cons c cs)
  obtain c1 nxt a1 where r: "run_cell proc nm c cur = (c1, nxt, a1)" by (cases "run_cell proc nm c cur")
  obtain cs1 o1 a2 where q: "run_pipeline proc nm cs nxt = (cs1, o1, a2)"
    by (cases "run_pipeline proc nm cs nxt")
  have "length o1 + length a2 + length a1 \<le> 2 ^ length cs * length nxt + 2 ^ length cs * (2 * length a1)"
    using Cons.IH [OF q] by (intro add_mono) (auto simp: trans_le_add1)
  also have "\<dots> = 2 ^ length cs * (length nxt + 2 * length a1)" by (simp add: distrib_left)
  also have "\<dots> \<le> 2 ^ length cs * (2 * length cur)"
    using run_cell_fanout [OF r] by (intro mult_le_mono2)
  finally have "length o1 + length a2 + length a1 \<le> 2 * 2 ^ length cs * length cur"
    by (simp add: mult.assoc mult.left_commute)
  then show ?case using Cons.prems(1) r q by auto
qed simp

lemma Handle_meta:
  assumes "engine_Handle proc nm e p t = Some (e', acts)" "a \<in> set acts"
  shows "act_seq a = eng_seq e + 1" "act_dir a = pk_dir p"
    and "act_kind a = Forward \<Longrightarrow> length (act_data a) = length (pk_data p)"
    and "act_kind a = Drop \<Longrightarrow> act_reason a \<in> nm ` set (pipeline e (pk_dir p))"
proof -
  from assms(1) obtain cs out drops where
    r: "run_pipeline proc nm (pipeline e (pk_dir p)) [ingress (eng_seq e + 1) p t] = (cs, out, drops)"
    and acts: "acts = drops @ map forward_action out"
    by (rule engine_Handle_Some)
  have m: "(\<forall>g\<in>set out. same_packet (ingress (eng_seq e + 1) p t) g) \<and>
    (\<forall>a\<in>set drops. act_seq a = eng_seq e + 1 \<and> act_dir a = pk_dir p)"
    using run_pipeline_meta [OF r, of "ingress (eng_seq e + 1) p t"] by (simp add: ingress_def)
  show "act_seq a = eng_seq e + 1" "act_dir a = pk_dir p"
    using m assms(2) by (auto simp: acts same_packet_def ingress_def)
  show "act_kind a = Forward \<Longrightarrow> length (act_data a) = length (pk_data p)"
    using m assms(2) run_pipeline_drops [OF r] by (auto simp: acts same_packet_def ingress_def)
  show "act_kind a = Drop \<Longrightarrow> act_reason a \<in> nm ` set (pipeline e (pk_dir p))"
    using assms(2) run_pipeline_reason [OF r] by (auto simp: acts)
qed

lemma Handle_fanout:
  assumes "engine_Handle proc nm e p t = Some (e', acts)"
  shows "length acts \<le> 2 ^ length (pipeline e (pk_dir p))"
  using assms by (rule engine_Handle_Some) (auto dest: run_pipeline_fanout)

end

text \<open>The time-base convention. \<open>fits c f\<close> says that processing \<open>f\<close> in state \<open>c\<close>
  computes no time outside the 64-bit range; where it holds, a cell that is given a
  packet not scheduled before its ingress does not schedule it before its ingress.\<close>

fun run_cell_fits :: "'c process \<Rightarrow> ('c \<Rightarrow> inflight \<Rightarrow> bool) \<Rightarrow> 'c \<Rightarrow> inflight list \<Rightarrow> bool" where
  "run_cell_fits proc fits c [] = True"
| "run_cell_fits proc fits c (f # fs) = (fits c f \<and> run_cell_fits proc fits (fst (proc c f)) fs)"

fun run_pipeline_fits :: "'c process \<Rightarrow> ('c \<Rightarrow> string) \<Rightarrow> ('c \<Rightarrow> inflight \<Rightarrow> bool)
    \<Rightarrow> 'c list \<Rightarrow> inflight list \<Rightarrow> bool" where
  "run_pipeline_fits proc nm fits [] cur = True"
| "run_pipeline_fits proc nm fits (c # cs) cur =
     (run_cell_fits proc fits c cur \<and>
      run_pipeline_fits proc nm fits cs (fst (snd (run_cell proc nm c cur))))"

locale timed_cell = cell_stage +
  fixes fits :: "'a \<Rightarrow> inflight \<Rightarrow> bool"
  assumes proc_floor: "fits c f \<Longrightarrow> recv_at f \<le> deliver_at f \<Longrightarrow> g \<in> set (snd (proc c f)) \<Longrightarrow>
    recv_at g \<le> deliver_at g"
begin

lemma run_cell_floor:
  assumes "run_cell proc nm c fs = (c', nxt, acts)" "run_cell_fits proc fits c fs"
    and "\<forall>f\<in>set fs. recv_at f \<le> deliver_at f"
  shows "\<forall>g\<in>set nxt. recv_at g \<le> deliver_at g"
  using assms
proof (induction fs arbitrary: c c' nxt acts)
  case (Cons f fs)
  obtain c1 outs where p: "proc c f = (c1, outs)" by (cases "proc c f")
  obtain c2 n2 a2 where r: "run_cell proc nm c1 fs = (c2, n2, a2)" by (cases "run_cell proc nm c1 fs")
  have "\<forall>g\<in>set outs. recv_at g \<le> deliver_at g"
    using proc_floor [of c f] Cons.prems(2,3) p by auto
  then show ?case using Cons.prems Cons.IH [OF r] p r by (auto split: if_splits)
qed simp

lemma run_pipeline_floor:
  assumes "run_pipeline proc nm cs cur = (cs', out, acts)" "run_pipeline_fits proc nm fits cs cur"
    and "\<forall>f\<in>set cur. recv_at f \<le> deliver_at f"
  shows "\<forall>g\<in>set out. recv_at g \<le> deliver_at g"
  using assms
proof (induction cs arbitrary: cur cs' out acts)
  case (Cons c cs)
  obtain c1 nxt a1 where r: "run_cell proc nm c cur = (c1, nxt, a1)" by (cases "run_cell proc nm c cur")
  obtain cs1 o1 a2 where q: "run_pipeline proc nm cs nxt = (cs1, o1, a2)"
    by (cases "run_pipeline proc nm cs nxt")
  show ?case using Cons.prems Cons.IH [OF q] run_cell_floor [OF r] r q by auto
qed simp

lemma Handle_floor:
  assumes "engine_Handle proc nm e p t = Some (e', acts)"
    and "run_pipeline_fits proc nm fits (pipeline e (pk_dir p)) [ingress (eng_seq e + 1) p t]"
    and "a \<in> set acts" "act_kind a = Forward"
  shows "t \<le> act_deliver_at a"
proof -
  from assms(1) obtain cs out drops where
    r: "run_pipeline proc nm (pipeline e (pk_dir p)) [ingress (eng_seq e + 1) p t] = (cs, out, drops)"
    and acts: "acts = drops @ map forward_action out"
    by (rule engine_Handle_Some)
  have "\<forall>g\<in>set out. recv_at g \<le> deliver_at g"
    by (rule run_pipeline_floor [OF r assms(2)]) (simp add: ingress_def)
  moreover have "\<forall>g\<in>set out. recv_at g = t"
    using run_pipeline_meta [OF r, of "ingress (eng_seq e + 1) p t"]
    by (auto simp: same_packet_def ingress_def)
  ultimately show ?thesis
    using assms(3,4) run_pipeline_drops [OF r] by (auto simp: acts)
qed

end

end
