(* ===== verification/GoFloat.thy ===== *)
theory GoFloat
  imports Complex_Main GoInt "HOL-Library.Log_Nat"
begin

text \<open>
  Go's \<^verbatim>\<open>float64\<close>. A finite value is the rational number it denotes; the
  arithmetic operations round the exact rational result to the nearest double,
  ties to even, with the subnormal range and the overflow to infinity of
  IEEE 754. The two zeros are one value here: the program never takes a sign
  bit and never divides by a zero whose sign could matter.

  What Go leaves to the platform is a parameter, the record \<open>platform\<close>: the
  elementary functions of package \<^verbatim>\<open>math\<close> that are not correctly rounded by
  specification (\<^verbatim>\<open>Log\<close>, \<^verbatim>\<open>Cos\<close>, \<^verbatim>\<open>Pow\<close>), the result of converting a float that
  is no \<^verbatim>\<open>int64\<close> (implementation-dependent in Go's specification), and
  whether the compiler fuses \<^verbatim>\<open>x*y + z\<close> into one rounding (allowed by Go's
  specification, done on arm64, not on amd64).
\<close>

datatype f64 = Fin rat | PInf | NInf | NaN

section \<open>Rounding a rational to a double\<close>

definition ilog2 :: "rat \<Rightarrow> int" where
  "ilog2 r = (case quotient_of r of (p, q) \<Rightarrow>
     let k = int (floorlog 2 (nat p)) - int (floorlog 2 (nat q))
     in if 2 powi k \<le> r then k else k - 1)"

text \<open>Nearest integer, ties to even.\<close>

definition rne :: "rat \<Rightarrow> int" where
  "rne x = (let f = \<lfloor>x\<rfloor>; d = x - of_int f in
     if d < 1 / 2 then f else if d > 1 / 2 then f + 1
     else if even f then f else f + 1)"

text \<open>The exponent of the last place of a double near \<open>x\<close>, and the rounding.\<close>

definition fexp :: "rat \<Rightarrow> int" where
  "fexp x = max (ilog2 \<bar>x\<bar> - 52) (- 1074)"

definition f64_limit :: rat where
  "f64_limit = 2 ^ 1024"

definition fround :: "rat \<Rightarrow> f64" where
  "fround x = (if x = 0 then Fin 0
     else let u = 2 powi fexp x; y = of_int (rne (x / u)) * u in
       if y \<ge> f64_limit then PInf else if y \<le> - f64_limit then NInf else Fin y)"

section \<open>Operations\<close>

fun flt :: "f64 \<Rightarrow> f64 \<Rightarrow> bool" where
  "flt (Fin a) (Fin b) = (a < b)"
| "flt NInf (Fin b) = True"
| "flt NInf PInf = True"
| "flt (Fin a) PInf = True"
| "flt _ _ = False"

fun feq :: "f64 \<Rightarrow> f64 \<Rightarrow> bool" where
  "feq (Fin a) (Fin b) = (a = b)"
| "feq PInf PInf = True"
| "feq NInf NInf = True"
| "feq _ _ = False"

definition fle :: "f64 \<Rightarrow> f64 \<Rightarrow> bool" where
  "fle a b \<longleftrightarrow> flt a b \<or> feq a b"

fun fneg :: "f64 \<Rightarrow> f64" where
  "fneg (Fin a) = Fin (- a)"
| "fneg PInf = NInf"
| "fneg NInf = PInf"
| "fneg NaN = NaN"

fun fadd :: "f64 \<Rightarrow> f64 \<Rightarrow> f64" where
  "fadd (Fin a) (Fin b) = fround (a + b)"
| "fadd NaN _ = NaN"
| "fadd _ NaN = NaN"
| "fadd PInf NInf = NaN"
| "fadd NInf PInf = NaN"
| "fadd PInf _ = PInf"
| "fadd _ PInf = PInf"
| "fadd NInf _ = NInf"
| "fadd _ NInf = NInf"

definition fsub :: "f64 \<Rightarrow> f64 \<Rightarrow> f64" where
  "fsub a b = fadd a (fneg b)"

definition inf_of_sign :: "rat \<Rightarrow> f64" where
  "inf_of_sign a = (if a > 0 then PInf else if a < 0 then NInf else NaN)"

fun fmul :: "f64 \<Rightarrow> f64 \<Rightarrow> f64" where
  "fmul (Fin a) (Fin b) = fround (a * b)"
| "fmul NaN _ = NaN"
| "fmul _ NaN = NaN"
| "fmul (Fin a) PInf = inf_of_sign a"
| "fmul PInf (Fin a) = inf_of_sign a"
| "fmul (Fin a) NInf = inf_of_sign (- a)"
| "fmul NInf (Fin a) = inf_of_sign (- a)"
| "fmul PInf PInf = PInf"
| "fmul NInf NInf = PInf"
| "fmul PInf NInf = NInf"
| "fmul NInf PInf = NInf"

fun fdiv :: "f64 \<Rightarrow> f64 \<Rightarrow> f64" where
  "fdiv (Fin a) (Fin b) = (if b = 0 then inf_of_sign a else fround (a / b))"
| "fdiv NaN _ = NaN"
| "fdiv _ NaN = NaN"
| "fdiv (Fin a) _ = Fin 0"
| "fdiv PInf (Fin a) = (if a < 0 then NInf else PInf)"
| "fdiv NInf (Fin a) = (if a < 0 then PInf else NInf)"
| "fdiv _ _ = NaN"

text \<open>\<open>a*b + c\<close> with a single rounding.\<close>

fun ffma :: "f64 \<Rightarrow> f64 \<Rightarrow> f64 \<Rightarrow> f64" where
  "ffma (Fin a) (Fin b) (Fin c) = fround (a * b + c)"
| "ffma a b c = fadd (fmul a b) c"

text \<open>\<^verbatim>\<open>float64(n)\<close> of an integer, and \<^verbatim>\<open>math.Round\<close> (halves away from zero).\<close>

definition fof_int :: "int \<Rightarrow> f64" where
  "fof_int n = fround (of_int n)"

definition round_away :: "rat \<Rightarrow> int" where
  "round_away x = (if x \<ge> 0 then \<lfloor>x + 1 / 2\<rfloor> else - \<lfloor>- x + 1 / 2\<rfloor>)"

fun math_round :: "f64 \<Rightarrow> f64" where
  "math_round (Fin a) = Fin (of_int (round_away a))"
| "math_round x = x"

definition trunc_rat :: "rat \<Rightarrow> int" where
  "trunc_rat x = (if x \<ge> 0 then \<lfloor>x\<rfloor> else - \<lfloor>- x\<rfloor>)"

section \<open>What is left to the platform\<close>

datatype fusion = NoFuse | FuseLeft | FuseRight

record platform =
  math_log :: "f64 \<Rightarrow> f64"
  math_cos :: "f64 \<Rightarrow> f64"
  math_sqrt :: "f64 \<Rightarrow> f64"
  math_pow :: "f64 \<Rightarrow> f64 \<Rightarrow> f64"
  conv_overflow :: "f64 \<Rightarrow> int64"
  fused :: fusion

text \<open>\<^verbatim>\<open>int64(x)\<close>.\<close>

fun to_int64 :: "platform \<Rightarrow> f64 \<Rightarrow> int64" where
  "to_int64 pf (Fin a) = (if in64 (trunc_rat a) then trunc_rat a else i64 (conv_overflow pf (Fin a)))"
| "to_int64 pf x = i64 (conv_overflow pf x)"

text \<open>\<^verbatim>\<open>a*b + c*d\<close>.\<close>

definition sum_of_products :: "platform \<Rightarrow> f64 \<Rightarrow> f64 \<Rightarrow> f64 \<Rightarrow> f64 \<Rightarrow> f64" where
  "sum_of_products pf a b c d = (case fused pf of
      NoFuse \<Rightarrow> fadd (fmul a b) (fmul c d)
    | FuseLeft \<Rightarrow> ffma a b (fmul c d)
    | FuseRight \<Rightarrow> ffma c d (fmul a b))"

section \<open>The exponent\<close>

lemma ilog2_bounds:
  assumes "0 < r"
  shows "2 powi ilog2 r \<le> r" and "r < 2 powi (ilog2 r + 1)"
proof -
  obtain p q where pq: "quotient_of r = (p, q)" by (cases "quotient_of r")
  have q: "0 < q" using quotient_of_denom_pos [OF pq] .
  have r: "r = of_int p / of_int q" using quotient_of_div [OF pq] .
  have p: "0 < p" using assms q by (simp add: r zero_less_divide_iff)
  define a b where "a = floorlog 2 (nat p)" and "b = floorlog 2 (nat q)"
  have "2 ^ (a - 1) \<le> nat p \<and> nat p < 2 ^ a" "2 ^ (b - 1) \<le> nat q \<and> nat q < 2 ^ b"
    using floorlog_bounds [of "nat p" 2] floorlog_bounds [of "nat q" 2] p q
    by (auto simp: a_def b_def)
  then have "2 ^ (a - 1) \<le> p" "p < 2 ^ a" "2 ^ (b - 1) \<le> q" "q < 2 ^ b"
    using p q by (auto simp: le_nat_iff nat_less_iff)
  then have ab: "2 ^ (a - 1) \<le> (of_int p :: rat)" "of_int p < (2::rat) ^ a"
    "2 ^ (b - 1) \<le> (of_int q :: rat)" "of_int q < (2::rat) ^ b"
    by (metis of_int_le_iff of_int_less_iff of_int_numeral of_int_power)+
  have ab0: "a \<ge> 1" "b \<ge> 1" using p q by (auto simp: a_def b_def floorlog_def)
  let ?k = "int a - int b"
  have il: "ilog2 r = (if 2 powi ?k \<le> r then ?k else ?k - 1)"
    by (simp add: ilog2_def pq a_def b_def Let_def)
  have half: "(2::rat) powi (?k + 1) = 2 ^ a / 2 ^ (b - 1)"
    using ab0 by (simp add: power_int_diff power_int_add power_diff)
  have low: "(2::rat) powi (?k - 1) = 2 ^ (a - 1) / 2 ^ b"
    using ab0 by (simp add: power_int_diff power_diff)
  have up: "r < 2 powi (?k + 1)"
    unfolding half r using ab p q by (intro frac_less) auto
  have dn: "2 powi (?k - 1) \<le> r"
    unfolding low r using ab p q by (intro frac_le) auto
  show "2 powi ilog2 r \<le> r" using dn by (simp add: il)
  show "r < 2 powi (ilog2 r + 1)" using up by (auto simp: il)
qed

lemma powi2_mono: "(2::rat) powi m \<le> 2 powi n \<longleftrightarrow> m \<le> n"
  by (meson linorder_not_less one_less_numeral_iff order_less_imp_le power_int_increasing
      power_int_strict_increasing semiring_norm(76) one_le_numeral)

lemma powi2_less: "(2::rat) powi m < 2 powi n \<longleftrightarrow> m < n"
  using powi2_mono linorder_not_less by metis

lemma ilog2_eqI:
  assumes "2 powi k \<le> r" "r < 2 powi (k + 1)"
  shows "ilog2 r = k"
proof -
  have "0 < r" using assms(1) by (rule less_le_trans [rotated]) simp
  note b = ilog2_bounds [OF this]
  have "2 powi k < (2::rat) powi (ilog2 r + 1)" "2 powi ilog2 r < (2::rat) powi (k + 1)"
    using b assms by auto
  then show ?thesis by (simp add: powi2_less)
qed

section \<open>Rounding to the nearest integer\<close>

lemma rne_of_int [simp]: "rne (of_int k) = k"
  by (simp add: rne_def Let_def)

lemma rne_0 [simp]: "rne 0 = 0"
  using rne_of_int [of 0] by simp

lemma rne_near: "\<bar>of_int (rne x) - x\<bar> \<le> 1 / 2"
proof -
  have "of_int \<lfloor>x\<rfloor> \<le> x" "x < of_int \<lfloor>x\<rfloor> + 1" by linarith+
  then show ?thesis by (auto simp: rne_def Let_def)
qed

lemma rne_mono: "x \<le> y \<Longrightarrow> rne x \<le> rne y"
proof (rule ccontr)
  assume le: "x \<le> y" and "\<not> rne x \<le> rne y"
  then have gt: "rne y + 1 \<le> rne x" by simp
  have "of_int (rne y) + 1 \<le> (of_int (rne x) :: rat)"
    using gt by (metis of_int_1 of_int_add of_int_le_iff)
  with rne_near [of x] rne_near [of y] le
  have e: "of_int (rne x) = of_int (rne y) + (1::rat)" "x = of_int (rne y) + 1 / 2" "y = x"
    by linarith+
  from e(3) gt show False by simp
qed

lemma rne_nonneg: "0 \<le> x \<Longrightarrow> 0 \<le> rne x"
  using rne_mono [of 0 x] rne_of_int [of 0] by simp

section \<open>Exact results\<close>

text \<open>A number with at most 53 significant bits in the exponent range is not rounded.\<close>

definition representable :: "rat \<Rightarrow> bool" where
  "representable x \<longleftrightarrow> (\<exists>m e. x = of_int m * 2 powi e \<and> \<bar>m\<bar> < 2 ^ 53 \<and> - 1074 \<le> e \<and> e \<le> 971)"

lemma fround_representable:
  assumes "representable x"
  shows "fround x = Fin x"
proof (cases "x = 0")
  case False
  obtain m e where x: "x = of_int m * 2 powi e" and m: "\<bar>m\<bar> < 2 ^ 53" and e: "- 1074 \<le> e" "e \<le> 971"
    using assms by (auto simp: representable_def)
  have ax: "\<bar>x\<bar> = of_int \<bar>m\<bar> * 2 powi e" by (simp add: x abs_mult)
  have m53: "(of_int \<bar>m\<bar> :: rat) < 2 ^ 53" using m by (metis of_int_less_iff of_int_numeral of_int_power)
  have lt: "\<bar>x\<bar> < 2 powi (e + 53)"
    using m53 by (simp add: ax power_int_add)
  have "0 < \<bar>x\<bar>" using False by simp
  then have "2 powi ilog2 \<bar>x\<bar> < (2::rat) powi (e + 53)"
    using ilog2_bounds(1) lt le_less_trans by blast
  then have fe: "fexp x \<le> e" using e by (simp add: fexp_def powi2_less)
  have "x / 2 powi fexp x = of_int m * 2 powi (e - fexp x)"
    by (simp add: x power_int_diff)
  also have "\<dots> = of_int (m * 2 ^ nat (e - fexp x))"
    using fe by (simp add: power_int_def)
  finally have q: "x / 2 powi fexp x = of_int (m * 2 ^ nat (e - fexp x))" .
  have "of_int (rne (x / 2 powi fexp x)) * 2 powi fexp x = (x / 2 powi fexp x) * 2 powi fexp x"
    by (simp only: q rne_of_int)
  then have y: "of_int (rne (x / 2 powi fexp x)) * 2 powi fexp x = x" by simp
  have "\<bar>x\<bar> < 2 powi 1024"
    using less_le_trans [OF lt, of "2 powi 1024"] e by (simp only: powi2_mono)
  then have "\<bar>x\<bar> < f64_limit" by (simp only: f64_limit_def power_int_numeral)
  then show ?thesis using False y by (auto simp: fround_def Let_def abs_less_iff)
qed (simp add: fround_def)

section \<open>Rounding is monotone\<close>

lemma rne_minus: "rne (- x) = - rne x"
proof (cases "x = of_int \<lfloor>x\<rfloor>")
  case True
  then have "- x = of_int (- \<lfloor>x\<rfloor>)" by simp
  then show ?thesis using True by (metis rne_of_int)
next
  case False
  then have "\<lfloor>- x\<rfloor> = - \<lfloor>x\<rfloor> - 1" by (intro floor_unique) linarith+
  then show ?thesis by (auto simp: rne_def Let_def)
qed

text \<open>The rounded value before the overflow test.\<close>

definition rval :: "rat \<Rightarrow> rat" where
  "rval x = of_int (rne (x / 2 powi fexp x)) * 2 powi fexp x"

lemma rval_0 [simp]: "rval 0 = 0"
  by (simp add: rval_def)

lemma rval_minus: "rval (- x) = - rval x"
  by (simp add: rval_def fexp_def rne_minus flip: minus_divide_left)

lemma f64_limit_pos: "0 < f64_limit"
  by (simp only: f64_limit_def zero_less_power zero_less_numeral)

lemma fround_rval:
  "fround x = (if rval x \<ge> f64_limit then PInf else if rval x \<le> - f64_limit then NInf else Fin (rval x))"
  using f64_limit_pos by (cases "x = 0") (auto simp: fround_def rval_def Let_def)

lemma rval_nonneg: "0 \<le> x \<Longrightarrow> 0 \<le> rval x"
  by (simp add: rval_def rne_nonneg)

lemma powi_grid: "e \<le> k \<Longrightarrow> (2::rat) powi k = of_int (2 ^ nat (k - e)) * 2 powi e"
proof -
  assume "e \<le> k"
  then have "of_int (2 ^ nat (k - e)) = (2::rat) powi (k - e)" by (simp add: power_int_def)
  then show ?thesis by (simp add: power_int_diff)
qed

text \<open>A power of two on the grid of \<open>x\<close> bounds the rounded value like it bounds \<open>x\<close>.\<close>

lemma rval_le_power:
  assumes "x \<le> 2 powi k" "fexp x \<le> k"
  shows "rval x \<le> 2 powi k"
proof -
  let ?e = "fexp x"
  have grid: "(2::rat) powi k = of_int (2 ^ nat (k - ?e)) * 2 powi ?e"
    using assms(2) by (rule powi_grid)
  have "x / 2 powi ?e \<le> of_int (2 ^ nat (k - ?e))"
    using assms(1) by (simp add: grid pos_divide_le_eq)
  then have "rne (x / 2 powi ?e) \<le> 2 ^ nat (k - ?e)"
    using rne_mono [of "x / 2 powi ?e" "of_int (2 ^ nat (k - ?e))"] by (simp only: rne_of_int)
  then have "(of_int (rne (x / 2 powi ?e)) :: rat) \<le> of_int (2 ^ nat (k - ?e))"
    by (simp only: of_int_le_iff)
  then show ?thesis unfolding rval_def grid by (rule mult_right_mono) simp
qed

lemma power_le_rval:
  assumes "2 powi k \<le> x" "fexp x \<le> k"
  shows "2 powi k \<le> rval x"
proof -
  let ?e = "fexp x"
  have grid: "(2::rat) powi k = of_int (2 ^ nat (k - ?e)) * 2 powi ?e"
    using assms(2) by (rule powi_grid)
  have "of_int (2 ^ nat (k - ?e)) \<le> x / 2 powi ?e"
    using assms(1) by (simp add: grid pos_le_divide_eq)
  then have "2 ^ nat (k - ?e) \<le> rne (x / 2 powi ?e)"
    using rne_mono [of "of_int (2 ^ nat (k - ?e))" "x / 2 powi ?e"] by (simp only: rne_of_int)
  then have "(of_int (2 ^ nat (k - ?e)) :: rat) \<le> of_int (rne (x / 2 powi ?e))"
    by (simp only: of_int_le_iff)
  then show ?thesis unfolding rval_def grid by (rule mult_right_mono) simp
qed

lemma ilog2_mono: "0 < x \<Longrightarrow> x \<le> y \<Longrightarrow> ilog2 x \<le> ilog2 y"
proof -
  assume a: "0 < x" "x \<le> y"
  then have "2 powi ilog2 x < (2::rat) powi (ilog2 y + 1)"
    using ilog2_bounds [of x] ilog2_bounds [of y] by simp
  then show ?thesis by (simp add: powi2_less)
qed

lemma rval_mono_pos:
  assumes "0 < x" "x \<le> y"
  shows "rval x \<le> rval y"
proof (cases "fexp x = fexp y")
  case True
  have "rne (x / 2 powi fexp x) \<le> rne (y / 2 powi fexp x)"
    by (rule rne_mono) (simp add: assms divide_right_mono)
  then show ?thesis using True by (simp add: rval_def)
next
  case False
  have "ilog2 x \<le> ilog2 y" using assms by (rule ilog2_mono)
  then have lt: "fexp x < fexp y" "fexp y = ilog2 y - 52" "ilog2 x < ilog2 y"
    using False assms by (auto simp: fexp_def)
  have "x < 2 powi ilog2 y"
    using ilog2_bounds(2) [OF assms(1)] lt(3) powi2_mono [of "ilog2 x + 1" "ilog2 y"]
    by (simp add: less_le_trans)
  then have "rval x \<le> 2 powi ilog2 y" using lt by (intro rval_le_power) auto
  also have "\<dots> \<le> rval y" using lt assms ilog2_bounds(1) [of y] by (intro power_le_rval) auto
  finally show ?thesis .
qed

lemma rval_mono:
  assumes "x \<le> y"
  shows "rval x \<le> rval y"
proof -
  consider "0 < x" | "x \<le> 0" "0 \<le> y" | "y < 0" by linarith
  then show ?thesis
  proof cases
    case 1
    then show ?thesis using assms by (rule rval_mono_pos)
  next
    case 2
    then have "rval x \<le> 0" "0 \<le> rval y" using rval_nonneg [of "- x"] rval_nonneg [of y]
      by (simp_all add: rval_minus)
    then show ?thesis by simp
  next
    case 3
    then have "rval (- y) \<le> rval (- x)" using assms by (intro rval_mono_pos) auto
    then show ?thesis by (simp add: rval_minus)
  qed
qed

lemma rval_representable: "representable x \<Longrightarrow> rval x = x \<and> \<bar>x\<bar> < f64_limit"
  using fround_representable [of x] by (auto simp: fround_rval split: if_splits)

text \<open>A result between two representable numbers stays between them after rounding.\<close>

lemma fround_between:
  assumes "representable a" "representable b" "a \<le> x" "x \<le> b"
  shows "\<exists>y. fround x = Fin y \<and> a \<le> y \<and> y \<le> b"
proof -
  have "a \<le> rval x" "rval x \<le> b"
    using rval_mono [OF assms(3)] rval_mono [OF assms(4)] rval_representable assms(1,2) by metis+
  moreover have "\<bar>a\<bar> < f64_limit" "\<bar>b\<bar> < f64_limit"
    using rval_representable assms(1,2) by blast+
  ultimately have "rval x < f64_limit" "- f64_limit < rval x" "a \<le> rval x" "rval x \<le> b"
    by linarith+
  then show ?thesis by (intro exI [of _ "rval x"]) (simp add: fround_rval)
qed

lemma representable_minus: "representable x \<Longrightarrow> representable (- x)"
proof -
  assume "representable x"
  then obtain m e where "x = of_int m * 2 powi e" "\<bar>m\<bar> < 2 ^ 53" "- 1074 \<le> e" "e \<le> 971"
    by (auto simp: representable_def)
  then show ?thesis unfolding representable_def
    by (intro exI [of _ "- m"] exI [of _ e]) simp
qed

lemma representable_int: "\<bar>n\<bar> < 2 ^ 53 \<Longrightarrow> representable (of_int n)"
  unfolding representable_def by (intro exI [of _ n] exI [of _ 0]) simp

lemma representable_0 [simp]: "representable 0" and representable_1 [simp]: "representable 1"
  using representable_int [of 0] representable_int [of 1] by simp_all

lemma representable_frac53: "\<bar>k\<bar> < 2 ^ 53 \<Longrightarrow> representable (of_int k / 2 ^ 53)"
proof -
  assume ak: "\<bar>k\<bar> < 2 ^ 53"
  have "(of_int k :: rat) / 2 ^ 53 = of_int k * 2 powi (- 53)"
    by (simp only: power_int_minus power_int_numeral divide_inverse)
  then show ?thesis
    unfolding representable_def using ak
    by (intro exI [of _ k] exI [of _ "- 53"] conjI) (assumption | simp only: | simp)+
qed

lemma fof_int_exact: "\<bar>n\<bar> < 2 ^ 53 \<Longrightarrow> fof_int n = Fin (of_int n)"
  by (simp add: fof_int_def fround_representable representable_int)

text \<open>Rounding a concrete number: give the binade.\<close>

lemma fround_eqI:
  assumes "2 powi k \<le> \<bar>x\<bar>" "\<bar>x\<bar> < 2 powi (k + 1)" "- 1022 \<le> k" "k \<le> 1022"
    and "rne (x / 2 powi (k - 52)) = m"
  shows "fround x = Fin (of_int m * 2 powi (k - 52))"
proof -
  have il: "ilog2 \<bar>x\<bar> = k" using assms(1,2) by (rule ilog2_eqI)
  then have fe: "fexp x = k - 52" "fexp (- x) = k - 52" using assms(3) by (auto simp: fexp_def)
  have "rval x \<le> 2 powi (k + 1)" "rval (- x) \<le> 2 powi (k + 1)"
    using assms(2) fe by (auto intro!: rval_le_power)
  moreover have "(2::rat) powi (k + 1) < f64_limit"
    using powi2_less [of "k + 1" 1024] assms(4) by (simp only: f64_limit_def power_int_numeral)
  ultimately have "rval x < f64_limit" "- f64_limit < rval x"
    by (auto simp: rval_minus)
  then show ?thesis using fe assms(5) by (simp add: fround_rval rval_def)
qed

section \<open>Rounding to integers\<close>

lemma round_away_of_int [simp]: "round_away (of_int k) = k"
proof -
  have "\<lfloor>of_int k + (1 / 2 :: rat)\<rfloor> = k" "\<lfloor>- of_int k + (1 / 2 :: rat)\<rfloor> = - k"
    by (rule floor_unique; simp)+
  then show ?thesis by (simp add: round_away_def)
qed

lemma trunc_rat_of_int [simp]: "trunc_rat (of_int k) = k"
  using floor_of_int [of "- k", where 'a = rat] by (simp add: trunc_rat_def)

lemma round_away_bound:
  assumes "\<bar>x\<bar> \<le> of_int n"
  shows "\<bar>round_away x\<bar> \<le> n"
proof -
  have "- of_int n \<le> x" "x \<le> of_int n" using assms by linarith+
  then show ?thesis unfolding round_away_def by (auto simp: abs_le_iff) linarith+
qed

lemma round_away_0 [simp]: "round_away 0 = 0"
  using round_away_of_int [of 0] by simp

lemma trunc_rat_0 [simp]: "trunc_rat 0 = 0"
  using trunc_rat_of_int [of 0] by simp

text \<open>A finite number of magnitude at most \<open>n\<close> becomes an integer of at most \<open>n\<close>.\<close>

lemma to_int64_round:
  assumes "\<bar>x\<bar> \<le> of_int n" "in64 n"
  shows "to_int64 pf (math_round (Fin x)) = round_away x" "\<bar>round_away x\<bar> \<le> n"
proof -
  show b: "\<bar>round_away x\<bar> \<le> n" using assms(1) by (rule round_away_bound)
  then have "in64 (round_away x)" using assms(2) by (auto simp: in64_def)
  then show "to_int64 pf (math_round (Fin x)) = round_away x" by simp
qed

lemma round_away_nonneg: "0 \<le> x \<Longrightarrow> 0 \<le> round_away x"
  unfolding round_away_def by (simp add: add_nonneg_nonneg)

lemma round_away_mono: "x \<le> y \<Longrightarrow> round_away x \<le> round_away y"
proof -
  assume xy: "x \<le> y"
  consider "0 \<le> x" | "x < 0" "0 \<le> y" | "y < 0" by linarith
  then show ?thesis
  proof cases
    case 1
    then show ?thesis using xy by (simp add: round_away_def floor_mono)
  next
    case 2
    have "0 \<le> \<lfloor>- x + 1 / 2\<rfloor>" "0 \<le> \<lfloor>y + 1 / 2\<rfloor>" using 2 by simp_all
    then show ?thesis unfolding round_away_def if_not_P [OF 2(1) [unfolded not_le [symmetric]]]
        if_P [OF 2(2)] by linarith
  next
    case 3
    then show ?thesis using xy by (simp add: round_away_def floor_mono)
  qed
qed

section \<open>A concrete platform\<close>

text \<open>To evaluate the model on concrete inputs that need no transcendental function.\<close>

definition plain_platform :: platform where
  "plain_platform = \<lparr>math_log = \<lambda>x. Fin 0, math_cos = \<lambda>x. Fin 1, math_sqrt = \<lambda>x. Fin 0,
     math_pow = \<lambda>x y. Fin 1, conv_overflow = \<lambda>x. 0, fused = NoFuse\<rparr>"

end
