(* ===== verification/CorruptCell.thy ===== *)
theory CorruptCell
  imports Engine Rng
begin

text \<open>
  \<^verbatim>\<open>internal/cells/corrupt/corrupt.go\<close>: with probability \<open>pct\<close> one uniformly
  chosen bit of a copy of the payload is flipped. The lemmas show that the bit
  index is in range, that the output differs from the input in exactly that bit,
  and that the packet is never dropped, duplicated, resized or rescheduled.
\<close>

record corrupt =
  cor_pct :: f64
  cor_src :: source

definition corrupt_New :: "f64 \<Rightarrow> source \<Rightarrow> corrupt" where
  "corrupt_New pct src =
     (let p = (if flt pct (Fin 0) then Fin 0 else pct);
          p' = (if flt (Fin 1) p then Fin 1 else p)
      in \<lparr>cor_pct = p', cor_src = src\<rparr>)"

definition corrupt_Name :: string where
  "corrupt_Name = ''corrupt''"

definition flip_bit_at :: "bytes \<Rightarrow> int64 \<Rightarrow> bytes" where
  "flip_bit_at data b = (let i = nat (go_div b 8) in
     data[i := data ! i XOR push_bit (nat (go_mod b 8)) 1])"

definition corrupt_Process :: "corrupt process" where
  "corrupt_Process c f =
     (if fle (cor_pct c) (Fin 0) \<or> if_data f = [] then (c, [f])
      else case rng_float64 (cor_src c) of (u, s1) \<Rightarrow>
        if fle (cor_pct c) u then (c\<lparr>cor_src := s1\<rparr>, [f])
        else case rng_intn s1 (i64 (int (length (if_data f)) * 8)) of (b, s2) \<Rightarrow>
          (c\<lparr>cor_src := s2\<rparr>, [f\<lparr>if_data := flip_bit_at (if_data f) b\<rparr>]))"

lemma length_flip_bit_at [simp]: "length (flip_bit_at data b) = length data"
  by (simp add: flip_bit_at_def Let_def)

lemma corrupt_Process_meta [cell_meta]:
  "g \<in> set (snd (corrupt_Process c f)) \<Longrightarrow>
    same_packet f g \<and> deliver_at g = deliver_at f"
  by (auto simp: corrupt_Process_def same_packet_def split: if_splits prod.splits)

lemma corrupt_Process_single: "length (snd (corrupt_Process c f)) = 1"
  by (simp add: corrupt_Process_def split: prod.split)

text \<open>The payload as one sequence of bits, least significant bit of each byte first.\<close>

definition payload_bit :: "bytes \<Rightarrow> nat \<Rightarrow> bool" where
  "payload_bit data n = bit (data ! (n div 8)) (n mod 8)"


lemma bit_xor_single:
  "k < 8 \<Longrightarrow> j < 8 \<Longrightarrow> bit ((w :: byte) XOR 2 ^ k) j = (bit w j \<noteq> (j = k))"
  by (auto simp: bit_simps)

lemma go_div_mod_8:
  assumes "in64 (int b)"
  shows "nat (go_div (int b) 8) = b div 8" "nat (go_mod (int b) 8) = b mod 8"
  using assms by (simp_all add: go_arith nat_div_distrib nat_mod_distrib)

lemma payload_bit_flip:
  assumes "b < 8 * length data" "n < 8 * length data" "in64 (int b)"
  shows "payload_bit (flip_bit_at data (int b)) n = (payload_bit data n \<noteq> (n = b))"
proof -
  have bd: "b div 8 < length data" "n div 8 < length data" using assms by auto
  show ?thesis
  proof (cases "n div 8 = b div 8")
    case True
    then have "n = b \<longleftrightarrow> n mod 8 = b mod 8" by (metis div_mult_mod_eq)
    then show ?thesis using True bd
      by (simp add: payload_bit_def flip_bit_at_def go_div_mod_8 [OF assms(3)] bit_xor_single Let_def)
  next
    case False
    then have "n \<noteq> b" by auto
    then show ?thesis using False bd
      by (simp add: payload_bit_def flip_bit_at_def go_div_mod_8 [OF assms(3)] Let_def)
  qed
qed

text \<open>A corruption that was decided flips exactly one bit, whose number is in range.\<close>

lemma corrupt_Process_flip:
  assumes "\<not> fle (cor_pct c) (Fin 0)" "if_data f \<noteq> []" "8 * length (if_data f) < 2 ^ 63"
    and "\<not> fle (cor_pct c) (fst (rng_float64 (cor_src c)))"
  obtains b where "b < 8 * length (if_data f)" "in64 (int b)"
    "snd (corrupt_Process c f) = [f\<lparr>if_data := flip_bit_at (if_data f) (int b)\<rparr>]"
proof -
  let ?n = "int (length (if_data f)) * 8"
  let ?d = "rng_intn (snd (rng_float64 (cor_src c))) ?n"
  have n: "in64 ?n" "0 < ?n" using assms(2,3) by (auto simp: in64_def)
  have r: "0 \<le> fst ?d" "fst ?d < ?n" using rng_intn_range [OF n(2,1)] by auto
  have "snd (corrupt_Process c f) = [f\<lparr>if_data := flip_bit_at (if_data f) (fst ?d)\<rparr>]"
    using assms(1,2,4) n(1) by (simp add: corrupt_Process_def split_beta i64_id)
  moreover have "in64 (fst ?d)" by (rule in64_between [of 0 ?n]) (use n r in auto)
  moreover have "fst ?d = int (nat (fst ?d))" using r by simp
  ultimately show ?thesis using r
    by (intro that [of "nat (fst ?d)"]) (auto simp: nat_less_iff)
qed

end
