(* ===== verification/ReorderCell.thy ===== *)
theory ReorderCell
  imports Engine Rng
begin

text \<open>
  \<^verbatim>\<open>internal/cells/reorder/reorder.go\<close>: netem-style reordering (a selected packet
  keeps its time, every other one is pushed back by the gap) with a correlated
  decision, and duplication. The lemmas give the emitted times and copies on every
  branch and show that every packet advances the source by two draws, plus one
  when duplication is configured, whatever the branches taken.
\<close>

record reorder_config =
  ro_ReorderPct :: f64
  ro_Gap :: int64
  ro_Correlation :: f64
  ro_DupPct :: f64

record reorder =
  ro_cfg :: reorder_config
  ro_src :: source
  ro_hasPrev :: bool
  ro_prevReor :: bool

definition clamp01 :: "f64 \<Rightarrow> f64" where
  "clamp01 v = (if flt v (Fin 0) then Fin 0 else if flt (Fin 1) v then Fin 1 else v)"

definition reorder_New :: "reorder_config \<Rightarrow> source \<Rightarrow> reorder" where
  "reorder_New cfg src = \<lparr>ro_cfg = \<lparr>ro_ReorderPct = clamp01 (ro_ReorderPct cfg),
       ro_Gap = (if ro_Gap cfg < 0 then 0 else ro_Gap cfg),
       ro_Correlation = clamp01 (ro_Correlation cfg),
       ro_DupPct = clamp01 (ro_DupPct cfg)\<rparr>,
     ro_src = src, ro_hasPrev = False, ro_prevReor = False\<rparr>"

definition reorder_Name :: string where
  "reorder_Name = ''reorder''"

definition decideReorder :: "reorder \<Rightarrow> bool \<times> reorder" where
  "decideReorder r = (case rng_float64 (ro_src r) of (corrDraw, s1) \<Rightarrow>
     case rng_float64 s1 of (freshDraw, s2) \<Rightarrow>
     let reordered = (if ro_hasPrev r \<and> flt (Fin 0) (ro_Correlation (ro_cfg r)) \<and>
           flt corrDraw (ro_Correlation (ro_cfg r))
         then ro_prevReor r
         else flt freshDraw (ro_ReorderPct (ro_cfg r)))
     in (reordered, r\<lparr>ro_src := s2, ro_hasPrev := True, ro_prevReor := reordered\<rparr>))"

definition decideDup :: "reorder \<Rightarrow> bool \<times> reorder" where
  "decideDup r = (if flt (Fin 0) (ro_DupPct (ro_cfg r))
     then case rng_float64 (ro_src r) of (u, s) \<Rightarrow>
       (flt u (ro_DupPct (ro_cfg r)), r\<lparr>ro_src := s\<rparr>)
     else (False, r))"

definition reorder_Process :: "reorder process" where
  "reorder_Process r f = (case decideReorder r of (reordered, r1) \<Rightarrow>
     let f1 = (if reordered then f
               else f\<lparr>deliver_at := i64 (deliver_at f + ro_Gap (ro_cfg r1))\<rparr>)
     in case decideDup r1 of (dup, r2) \<Rightarrow> (r2, if dup then [f1, f1] else [f1]))"

definition reorder_fits :: "reorder \<Rightarrow> inflight \<Rightarrow> bool" where
  "reorder_fits r f \<longleftrightarrow> 0 \<le> ro_Gap (ro_cfg r) \<and> in64 (deliver_at f + ro_Gap (ro_cfg r))"

section \<open>Every branch\<close>

lemma decideReorder_cfg [simp]: "ro_cfg (snd (decideReorder r)) = ro_cfg r"
  by (simp add: decideReorder_def Let_def split: prod.split)

lemma decideDup_cfg [simp]: "ro_cfg (snd (decideDup r)) = ro_cfg r"
  by (simp add: decideDup_def split: prod.split)

lemma reorder_Process_cfg [simp]: "ro_cfg (fst (reorder_Process r f)) = ro_cfg r"
  by (simp add: reorder_Process_def Let_def split_beta)

lemma reorder_Process_outputs:
  "snd (reorder_Process r f) =
    (let f1 = f\<lparr>deliver_at := (if fst (decideReorder r) then deliver_at f
                  else i64 (deliver_at f + ro_Gap (ro_cfg r)))\<rparr>
     in if fst (decideDup (snd (decideReorder r))) then [f1, f1] else [f1])"
  by (simp add: reorder_Process_def Let_def split_beta)

lemma reorder_Process_meta [cell_meta]:
  "g \<in> set (snd (reorder_Process r f)) \<Longrightarrow> same_packet f g \<and> if_data g = if_data f"
  by (auto simp: reorder_Process_outputs same_packet_def Let_def split: if_splits)

lemma reorder_Process_fanout: "length (snd (reorder_Process r f)) \<in> {1, 2}"
  by (simp add: reorder_Process_outputs Let_def)

lemma reorder_Process_floor:
  assumes "reorder_fits r f" "recv_at f \<le> deliver_at f" "g \<in> set (snd (reorder_Process r f))"
  shows "recv_at g \<le> deliver_at g"
  using assms by (auto simp: reorder_Process_outputs reorder_fits_def i64_id Let_def split: if_splits)

lemma reorder_draws:
  "ro_src (fst (reorder_Process r f)) =
    rng_after (ro_src r) (if flt (Fin 0) (ro_DupPct (ro_cfg r)) then 3 else 2)"
  by (simp add: reorder_Process_def decideReorder_def decideDup_def Let_def split_beta
      rng_float64_state numeral_3_eq_3 numeral_2_eq_2)

lemma decideReorder_independent:
  assumes "\<not> flt (Fin 0) (ro_Correlation (ro_cfg r))"
  shows "fst (decideReorder r) =
    flt (fst (rng_float64 (rng_after (ro_src r) 1))) (ro_ReorderPct (ro_cfg r))"
  using assms by (simp add: decideReorder_def Let_def split_beta rng_float64_state)

end
