(* ===== verification/DelayCell.thy ===== *)
theory DelayCell
  imports Engine Rng
begin

text \<open>
  \<^verbatim>\<open>internal/cells/delay/delay.go\<close>: a fixed delay plus a (possibly correlated)
  random jitter, with the floor at ingress. The elementary functions behind the
  normal and the Pareto draw are those of the \<open>platform\<close>. The lemmas show that the
  floor holds whatever the arithmetic does, that without jitter the cell adds
  exactly its base delay, that uniform jitter stays within its half-range, and
  that the clamp bounds a normal draw.
\<close>

datatype distribution = DistNone | DistUniform | DistNormal | DistPareto

definition distribution_String :: "distribution \<Rightarrow> string" where
  "distribution_String d = (case d of DistNone \<Rightarrow> ''none'' | DistUniform \<Rightarrow> ''uniform''
     | DistNormal \<Rightarrow> ''normal'' | DistPareto \<Rightarrow> ''pareto'')"

definition clampSigma :: f64 where "clampSigma = Fin 4"

text \<open>The constant \<^verbatim>\<open>1/paretoShape\<close> and \<^verbatim>\<open>2*math.Pi\<close> as the doubles they round to.\<close>

definition inv_paretoShape :: f64 where
  "inv_paretoShape = Fin (6004799503160661 / 18014398509481984)"

definition two_pi :: f64 where
  "two_pi = Fin (884279719003555 / 140737488355328)"

definition paretoTailClamp :: f64 where "paretoTailClamp = Fin 50"

text \<open>\<^verbatim>\<open>math.Nextafter(1, 0)\<close>, the greatest double below 1.\<close>

definition nextafter_1_0 :: f64 where
  "nextafter_1_0 = Fin (1 - 1 / 2 ^ 53)"

record delay_config =
  de_Base :: int64
  de_Jitter :: int64
  de_Sigma :: int64
  de_Distribution :: distribution
  de_Correlation :: f64

record delay =
  de_cfg :: delay_config
  de_src :: source
  de_prevJit :: f64
  de_havePrev :: bool

definition delay_New :: "delay_config \<Rightarrow> source \<Rightarrow> delay" where
  "delay_New cfg src = \<lparr>de_cfg = \<lparr>
      de_Base = (if de_Base cfg < 0 then 0 else de_Base cfg),
      de_Jitter = (if de_Jitter cfg < 0 then i64 (- de_Jitter cfg) else de_Jitter cfg),
      de_Sigma = (if de_Sigma cfg < 0 then i64 (- de_Sigma cfg) else de_Sigma cfg),
      de_Distribution = de_Distribution cfg,
      de_Correlation =
        (let c = (if flt (de_Correlation cfg) (Fin 0) then Fin 0 else de_Correlation cfg)
         in if fle (Fin 1) c then nextafter_1_0 else c)\<rparr>,
    de_src = src, de_prevJit = Fin 0, de_havePrev = False\<rparr>"

definition delay_Name :: string where
  "delay_Name = ''delay''"

definition delay_normal :: "platform \<Rightarrow> source \<Rightarrow> f64 \<times> source" where
  "delay_normal pf s = (case rng_float64 s of (d1, s1) \<Rightarrow>
     case rng_float64 s1 of (u2, s2) \<Rightarrow>
     let u1 = fsub (Fin 1) d1;
         z = fmul (math_sqrt pf (fmul (Fin (- 2)) (math_log pf u1))) (math_cos pf (fmul two_pi u2))
     in (if flt clampSigma z then clampSigma
         else if flt z (fneg clampSigma) then fneg clampSigma else z, s2))"

definition delay_pareto :: "platform \<Rightarrow> source \<Rightarrow> f64 \<times> source" where
  "delay_pareto pf s = (case rng_float64 s of (d, s1) \<Rightarrow>
     let u = fsub (Fin 1) d;
         x = fsub (fdiv (Fin 1) (math_pow pf u inv_paretoShape)) (Fin 1)
     in (if flt paretoTailClamp x then paretoTailClamp else x, s1))"

definition drawJitter :: "platform \<Rightarrow> delay \<Rightarrow> f64 \<times> delay" where
  "drawJitter pf c = (case de_Distribution (de_cfg c) of
     DistUniform \<Rightarrow>
       if de_Jitter (de_cfg c) = 0 then (Fin 0, c)
       else (case rng_float64 (de_src c) of (u, s) \<Rightarrow>
         (fmul (fsub (fmul (Fin 2) u) (Fin 1)) (fof_int (de_Jitter (de_cfg c))), c\<lparr>de_src := s\<rparr>))
   | DistNormal \<Rightarrow>
       if de_Sigma (de_cfg c) = 0 then (Fin 0, c)
       else (case delay_normal pf (de_src c) of (z, s) \<Rightarrow>
         (fmul z (fof_int (de_Sigma (de_cfg c))), c\<lparr>de_src := s\<rparr>))
   | DistPareto \<Rightarrow>
       if de_Sigma (de_cfg c) = 0 then (Fin 0, c)
       else (case delay_pareto pf (de_src c) of (x, s) \<Rightarrow>
         (fmul x (fof_int (de_Sigma (de_cfg c))), c\<lparr>de_src := s\<rparr>))
   | DistNone \<Rightarrow> (Fin 0, c))"

definition nextJitter :: "platform \<Rightarrow> delay \<Rightarrow> f64 \<times> delay" where
  "nextJitter pf c = (case drawJitter pf c of (d, c1) \<Rightarrow>
     let corr = de_Correlation (de_cfg c1);
         draw = (if flt (Fin 0) corr \<and> de_havePrev c1
                 then sum_of_products pf corr (de_prevJit c1) (fsub (Fin 1) corr) d
                 else d)
     in (draw, c1\<lparr>de_prevJit := draw, de_havePrev := True\<rparr>))"

definition delay_Process :: "platform \<Rightarrow> delay process" where
  "delay_Process pf c f = (case nextJitter pf c of (jit, c1) \<Rightarrow>
     let add = i64 (de_Base (de_cfg c1) + to_int64 pf (math_round jit));
         t = i64 (deliver_at f + add)
     in (c1, [f\<lparr>deliver_at := (if t < recv_at f then recv_at f else t)\<rparr>]))"

section \<open>What every packet keeps, and the floor\<close>

lemma drawJitter_cfg [simp]: "de_cfg (snd (drawJitter pf c)) = de_cfg c"
  by (simp add: drawJitter_def split_beta split: distribution.split)

lemma nextJitter_cfg [simp]: "de_cfg (snd (nextJitter pf c)) = de_cfg c"
  by (simp add: nextJitter_def Let_def split_beta)

lemma delay_Process_cfg [simp]: "de_cfg (fst (delay_Process pf c f)) = de_cfg c"
  by (simp add: delay_Process_def Let_def split_beta)

lemma delay_Process_single: "length (snd (delay_Process pf c f)) = 1"
  by (simp add: delay_Process_def Let_def split_beta)

lemma delay_Process_meta [cell_meta]:
  "g \<in> set (snd (delay_Process pf c f)) \<Longrightarrow> same_packet f g \<and> if_data g = if_data f"
  by (auto simp: delay_Process_def same_packet_def Let_def split_beta)

lemma delay_Process_floor:
  "g \<in> set (snd (delay_Process pf c f)) \<Longrightarrow> recv_at g \<le> deliver_at g"
  by (auto simp: delay_Process_def Let_def split_beta)

text \<open>The delivery time in terms of the jitter drawn.\<close>

definition delay_jitter :: "platform \<Rightarrow> delay \<Rightarrow> int64" where
  "delay_jitter pf c = to_int64 pf (math_round (fst (nextJitter pf c)))"

lemma delay_Process_time:
  assumes "in64 (de_Base (de_cfg c) + delay_jitter pf c)"
    and "in64 (deliver_at f + (de_Base (de_cfg c) + delay_jitter pf c))"
  shows "snd (delay_Process pf c f) =
    [f\<lparr>deliver_at := max (recv_at f) (deliver_at f + de_Base (de_cfg c) + delay_jitter pf c)\<rparr>]"
  using assms by (auto simp: delay_Process_def delay_jitter_def Let_def split_beta i64_id max_def
      ac_simps)

lemma delay_jitter_none:
  assumes "de_Distribution (de_cfg c) = DistNone" "\<not> flt (Fin 0) (de_Correlation (de_cfg c))"
  shows "delay_jitter pf c = 0"
  using assms by (simp add: delay_jitter_def nextJitter_def drawJitter_def Let_def)

section \<open>Bounds on the jitter\<close>

lemma representable_bound: "\<bar>n\<bar> < 2 ^ 53 \<Longrightarrow> representable (- of_int n) \<and> representable (of_int n)"
  using representable_int representable_minus by blast

text \<open>A factor of at most \<open>k\<close> times an integer scale.\<close>

lemma fmul_scale_bound:
  assumes "\<bar>b\<bar> \<le> of_int k" "0 \<le> k" "0 \<le> j" "j < 2 ^ 53" "k * j < 2 ^ 53"
  shows "\<exists>x. fmul (Fin b) (fof_int j) = Fin x \<and> \<bar>x\<bar> \<le> of_int (k * j)"
proof -
  have kj: "\<bar>k * j\<bar> < 2 ^ 53" using assms by (simp add: abs_of_nonneg)
  have "\<bar>b * of_int j\<bar> \<le> of_int (k * j)"
    using mult_right_mono [OF assms(1), of "of_int j"] assms(3) by (simp add: abs_mult)
  then have "- of_int (k * j) \<le> b * of_int j" "b * of_int j \<le> of_int (k * j)" by linarith+
  then obtain x where "fround (b * of_int j) = Fin x" "- of_int (k * j) \<le> x" "x \<le> of_int (k * j)"
    using fround_between representable_bound [OF kj] by blast
  moreover have "fof_int j = Fin (of_int j)" using assms(3,4) by (intro fof_int_exact) simp
  ultimately show ?thesis by (auto simp: abs_le_iff)
qed

lemma uniform_factor:
  assumes "0 \<le> r" "r < 1"
  shows "\<exists>b. fsub (fmul (Fin 2) (Fin r)) (Fin 1) = Fin b \<and> \<bar>b\<bar> \<le> of_int 1"
proof -
  have rep2: "representable 2" using representable_int [of 2] by simp
  obtain a where a: "fround (2 * r) = Fin a" "0 \<le> a" "a \<le> 2"
    using fround_between [OF representable_0 rep2, of "2 * r"] assms by auto
  obtain b where "fround (a + - 1) = Fin b" "- 1 \<le> b" "b \<le> 1"
    using fround_between [OF representable_minus [OF representable_1] representable_1, of "a + - 1"] a
    by auto
  then show ?thesis using a by (auto simp: fsub_def abs_le_iff)
qed

lemma drawJitter_uniform_bound:
  assumes "de_Distribution (de_cfg c) = DistUniform" "0 \<le> de_Jitter (de_cfg c)"
    "de_Jitter (de_cfg c) < 2 ^ 53"
  shows "\<exists>x. fst (drawJitter pf c) = Fin x \<and> \<bar>x\<bar> \<le> of_int (de_Jitter (de_cfg c))"
proof -
  obtain r where r: "fst (rng_float64 (de_src c)) = Fin r" "0 \<le> r" "r < 1"
    by (rule rng_float64_unit)
  obtain b where b: "fsub (fmul (Fin 2) (Fin r)) (Fin 1) = Fin b" "\<bar>b\<bar> \<le> of_int 1"
    using uniform_factor r by blast
  show ?thesis using assms r b fmul_scale_bound [of b 1 "de_Jitter (de_cfg c)"]
    by (simp add: drawJitter_def split_beta)
qed

text \<open>What the documentation of package \<^verbatim>\<open>math\<close> promises of the four functions on the
  arguments the cell passes: logarithms of numbers in (0,1] are finite and not positive,
  roots of non-negative numbers and cosines are finite, and the cube root of a number
  in (0,1] is in (0,1].\<close>

definition libm_ok :: "platform \<Rightarrow> bool" where
  "libm_ok pf \<longleftrightarrow>
     (\<forall>r. 0 < r \<and> r \<le> 1 \<longrightarrow> (\<exists>l. math_log pf (Fin r) = Fin l \<and> - 1024 \<le> l \<and> l \<le> 0)) \<and>
     (\<forall>r. 0 \<le> r \<longrightarrow> (\<exists>s. math_sqrt pf (Fin r) = Fin s)) \<and>
     (\<forall>r. \<exists>s. math_cos pf (Fin r) = Fin s) \<and>
     (\<forall>r. 0 < r \<and> r \<le> 1 \<longrightarrow> (\<exists>y. math_pow pf (Fin r) inv_paretoShape = Fin y \<and> 0 < y \<and> y \<le> 1))"

lemma frac_complement:
  "(0::rat) < M \<Longrightarrow> 0 \<le> k \<Longrightarrow> k + 1 \<le> M \<Longrightarrow> 1 / M \<le> 1 + - (k / M) \<and> 1 + - (k / M) \<le> 1"
  by (simp add: field_simps)

lemma one_minus_draw: "\<exists>v. fsub (Fin 1) (fst (rng_float64 s)) = Fin v \<and> 0 < v \<and> v \<le> 1"
proof -
  define k where "k = unat (drop_bit 11 (fst (rng_uint64 s)))"
  have k: "k < 2 ^ 53" unfolding k_def by (rule draw_bound)
  have v: "fst (rng_float64 s) = Fin (of_nat k / 2 ^ 53)" unfolding k_def by (rule rng_float64_value)
  have kr: "(of_nat k :: rat) + 1 \<le> 2 ^ 53"
  proof -
    have "Suc k \<le> 2 ^ 53" using k by simp
    then have "(of_nat (Suc k) :: rat) \<le> 2 ^ 53" by (metis of_nat_le_iff of_nat_numeral of_nat_power)
    then show ?thesis by simp
  qed
  have rep: "representable (1 / 2 ^ 53)" using representable_frac53 [of 1] by simp
  have "1 / 2 ^ 53 \<le> 1 + - ((of_nat k :: rat) / 2 ^ 53)" "1 + - ((of_nat k :: rat) / 2 ^ 53) \<le> 1"
    using frac_complement [OF _ _ kr] by simp_all
  then obtain y where "fround (1 + - (of_nat k / 2 ^ 53)) = Fin y" "1 / 2 ^ 53 \<le> y" "y \<le> 1"
    using fround_between [OF rep representable_1] by blast
  moreover have "(0::rat) < 1 / 2 ^ 53" by simp
  ultimately show ?thesis unfolding v fsub_def fneg.simps fadd.simps by (intro exI [of _ y]) simp
qed

lemma clamp_not_nan:
  assumes "z \<noteq> NaN"
  shows "\<exists>x. (if flt clampSigma z then clampSigma
    else if flt z (fneg clampSigma) then fneg clampSigma else z) = Fin x \<and> \<bar>x\<bar> \<le> of_int 4"
  using assms by (cases z) (auto simp: clampSigma_def abs_le_iff)

lemma fround_not_nan: "fround x \<noteq> NaN"
  by (simp add: fround_rval)

lemma delay_normal_bound:
  assumes "libm_ok pf"
  shows "\<exists>x. fst (delay_normal pf s) = Fin x \<and> \<bar>x\<bar> \<le> of_int 4"
proof -
  obtain v where v: "fsub (Fin 1) (fst (rng_float64 s)) = Fin v" "0 < v" "v \<le> 1"
    using one_minus_draw by blast
  obtain l where l: "math_log pf (Fin v) = Fin l" "- 1024 \<le> l" "l \<le> 0"
    using assms v by (auto simp: libm_ok_def)
  have rep: "representable 2048" using representable_int [of 2048] by simp
  obtain m where m: "fmul (Fin (- 2)) (Fin l) = Fin m" "0 \<le> m"
    unfolding fmul.simps using fround_between [OF representable_0 rep, of "- 2 * l"] l by auto
  obtain q where q: "math_sqrt pf (Fin m) = Fin q" using assms m by (auto simp: libm_ok_def)
  obtain r where r: "fst (rng_float64 (snd (rng_float64 s))) = Fin r" "0 \<le> r" "r < 1"
    by (rule rng_float64_unit)
  have rep7: "representable 7" using representable_int [of 7] by simp
  have "0 \<le> 884279719003555 / 140737488355328 * r" "884279719003555 / 140737488355328 * r \<le> 7"
    using r by (simp_all add: field_simps)
  then obtain t where t: "fmul two_pi (Fin r) = Fin t"
    unfolding two_pi_def fmul.simps using fround_between [OF representable_0 rep7] by blast
  obtain w where w: "math_cos pf (Fin t) = Fin w" using assms unfolding libm_ok_def by blast
  have "fst (delay_normal pf s) = (if flt clampSigma (fmul (Fin q) (Fin w)) then clampSigma
      else if flt (fmul (Fin q) (Fin w)) (fneg clampSigma) then fneg clampSigma
      else fmul (Fin q) (Fin w))"
    by (simp only: delay_normal_def split_beta Let_def fst_conv v l m q r t w)
  then show ?thesis using clamp_not_nan [OF fround_not_nan, of "q * w"]
    by (simp only: fmul.simps)
qed

lemma drawJitter_normal_bound:
  assumes "libm_ok pf" "de_Distribution (de_cfg c) = DistNormal" "0 \<le> de_Sigma (de_cfg c)"
    "4 * de_Sigma (de_cfg c) < 2 ^ 53"
  shows "\<exists>x. fst (drawJitter pf c) = Fin x \<and> \<bar>x\<bar> \<le> of_int (4 * de_Sigma (de_cfg c))"
proof -
  obtain z where z: "fst (delay_normal pf (de_src c)) = Fin z" "\<bar>z\<bar> \<le> of_int 4"
    using delay_normal_bound [OF assms(1)] by blast
  show ?thesis using assms z fmul_scale_bound [of z 4 "de_Sigma (de_cfg c)"]
    by (simp add: drawJitter_def split_beta)
qed

lemma fround_ge:
  assumes "representable a" "a \<le> x"
  shows "fround x = PInf \<or> (\<exists>y. fround x = Fin y \<and> a \<le> y)"
proof -
  have "a \<le> rval x" "- f64_limit < a"
    using rval_mono [OF assms(2)] rval_representable [OF assms(1)] by linarith+
  then have "\<not> rval x \<le> - f64_limit" "a \<le> rval x" by linarith+
  then show ?thesis by (auto simp: fround_rval)
qed

lemma delay_pareto_bound:
  assumes "libm_ok pf"
  shows "\<exists>x. fst (delay_pareto pf s) = Fin x \<and> 0 \<le> x \<and> x \<le> 50"
proof -
  obtain v where v: "fsub (Fin 1) (fst (rng_float64 s)) = Fin v" "0 < v" "v \<le> 1"
    using one_minus_draw by blast
  obtain y where y: "math_pow pf (Fin v) inv_paretoShape = Fin y" "0 < y" "y \<le> 1"
    using assms v unfolding libm_ok_def by blast
  have "1 \<le> 1 / y" using y by simp
  then have "fround (1 / y) = PInf \<or> (\<exists>q. fround (1 / y) = Fin q \<and> 1 \<le> q)"
    by (rule fround_ge [OF representable_1])
  then have x: "fsub (fdiv (Fin 1) (Fin y)) (Fin 1) = PInf \<or>
      (\<exists>x. fsub (fdiv (Fin 1) (Fin y)) (Fin 1) = Fin x \<and> 0 \<le> x)"
  proof
    assume "fround (1 / y) = PInf"
    then show ?thesis using y(2) by (simp add: fsub_def)
  next
    assume "\<exists>q. fround (1 / y) = Fin q \<and> 1 \<le> q"
    then obtain q where "fround (1 / y) = Fin q" "0 \<le> q + - 1" by auto
    then show ?thesis using y(2) fround_ge [OF representable_0, of "q + - 1"]
      by (auto simp: fsub_def)
  qed
  have "fst (delay_pareto pf s) =
    (if flt paretoTailClamp (fsub (fdiv (Fin 1) (Fin y)) (Fin 1)) then paretoTailClamp
     else fsub (fdiv (Fin 1) (Fin y)) (Fin 1))"
    by (simp only: delay_pareto_def split_beta Let_def fst_conv v y)
  then show ?thesis using x by (auto simp: paretoTailClamp_def)
qed

lemma drawJitter_pareto_bound:
  assumes "libm_ok pf" "de_Distribution (de_cfg c) = DistPareto" "0 \<le> de_Sigma (de_cfg c)"
    "50 * de_Sigma (de_cfg c) < 2 ^ 53"
  shows "\<exists>x. fst (drawJitter pf c) = Fin x \<and> 0 \<le> x \<and> x \<le> of_int (50 * de_Sigma (de_cfg c))"
proof -
  let ?j = "de_Sigma (de_cfg c)"
  obtain z where z: "fst (delay_pareto pf (de_src c)) = Fin z" "0 \<le> z" "z \<le> 50"
    using delay_pareto_bound [OF assms(1)] by blast
  have ex: "fof_int ?j = Fin (of_int ?j)" using assms(3,4) by (intro fof_int_exact) simp
  have rep: "representable (of_int (50 * ?j))" using assms(3,4) by (intro representable_int) simp
  have "0 \<le> z * of_int ?j" "z * of_int ?j \<le> of_int (50 * ?j)"
    using z assms(3) mult_right_mono [of z 50 "of_int ?j"] by auto
  then obtain x where "fround (z * of_int ?j) = Fin x" "0 \<le> x" "x \<le> of_int (50 * ?j)"
    using fround_between [OF representable_0 rep] by blast
  then show ?thesis using assms(2) z ex by (auto simp: drawJitter_def split_beta round_away_def)
qed

text \<open>Without correlation the jitter of a packet is the raw draw.\<close>

lemma delay_jitter_uncorrelated:
  assumes "\<not> flt (Fin 0) (de_Correlation (de_cfg c))"
  shows "delay_jitter pf c = to_int64 pf (math_round (fst (drawJitter pf c)))"
  using assms by (simp add: delay_jitter_def nextJitter_def Let_def split_beta)

lemma delay_jitter_bounded:
  assumes "\<not> flt (Fin 0) (de_Correlation (de_cfg c))"
    and "fst (drawJitter pf c) = Fin x" "\<bar>x\<bar> \<le> of_int n" "in64 n"
  shows "delay_jitter pf c = round_away x" "\<bar>delay_jitter pf c\<bar> \<le> n"
  using to_int64_round [OF assms(3,4)] delay_jitter_uncorrelated [OF assms(1)] assms(2) by simp_all

end
