(* ===== verification/RateCell.thy ===== *)
theory RateCell
  imports Engine
begin

text \<open>
  \<^verbatim>\<open>internal/cells/ratelimit/ratelimit.go\<close>: a link of \<open>RateBps\<close> bytes per second
  behind a drop-tail queue of \<open>QueueBytes\<close>, kept as the virtual time at which the
  link has sent everything accepted so far. \<open>rate_spec\<close> is the same link on
  unbounded integers; where no 64-bit product overflows (\<open>ratelimit_fits\<close>) the code
  computes exactly that link. The lemmas show first-in-first-out delivery, the
  spacing the line rate forces, and the bound on the waiting time of an accepted
  packet.
\<close>

record ratelimit =
  rl_RateBps :: int64
  rl_QueueBytes :: int64
  rl_queueFreeAt :: int64

definition nsPerSec :: int64 where
  "nsPerSec = 1000000000"

definition ratelimit_New :: "int64 \<Rightarrow> int64 \<Rightarrow> ratelimit" where
  "ratelimit_New rate queue = \<lparr>rl_RateBps = rate, rl_QueueBytes = queue, rl_queueFreeAt = 0\<rparr>"

definition ratelimit_Name :: string where
  "ratelimit_Name = ''ratelimit''"

definition rl_backlog :: "ratelimit \<Rightarrow> inflight \<Rightarrow> int64" where
  "rl_backlog c f =
     go_div (i64 (i64 (rl_queueFreeAt c - deliver_at f) * rl_RateBps c)) nsPerSec"

definition rl_serialize :: "ratelimit \<Rightarrow> inflight \<Rightarrow> int64" where
  "rl_serialize c f = go_div (i64 (int (length (if_data f)) * nsPerSec)) (rl_RateBps c)"

definition ratelimit_Process :: "ratelimit process" where
  "ratelimit_Process c f =
     (if rl_RateBps c \<le> 0 then (c, [f])
      else if rl_QueueBytes c > 0 \<and> rl_queueFreeAt c > deliver_at f \<and>
          rl_backlog c f > rl_QueueBytes c then (c, [])
      else let start = (if rl_queueFreeAt c > deliver_at f then rl_queueFreeAt c else deliver_at f);
               deliverAt = i64 (start + rl_serialize c f)
        in (c\<lparr>rl_queueFreeAt := deliverAt\<rparr>, [f\<lparr>deliver_at := deliverAt\<rparr>]))"

section \<open>The ideal link\<close>

definition rate_spec :: "ratelimit \<Rightarrow> inflight \<Rightarrow> int option" where
  "rate_spec c f =
     (let wait = max 0 (rl_queueFreeAt c - deliver_at f) in
      if rl_QueueBytes c > 0 \<and> wait * rl_RateBps c div nsPerSec > rl_QueueBytes c then None
      else Some (deliver_at f + wait + int (length (if_data f)) * nsPerSec div rl_RateBps c))"

definition ratelimit_fits :: "ratelimit \<Rightarrow> inflight \<Rightarrow> bool" where
  "ratelimit_fits c f \<longleftrightarrow> rl_RateBps c \<le> 0 \<or>
     (in64 (rl_queueFreeAt c - deliver_at f) \<and>
      (rl_queueFreeAt c > deliver_at f \<longrightarrow>
        in64 ((rl_queueFreeAt c - deliver_at f) * rl_RateBps c)) \<and>
      in64 (int (length (if_data f)) * nsPerSec) \<and>
      in64 (max (rl_queueFreeAt c) (deliver_at f) +
        int (length (if_data f)) * nsPerSec div rl_RateBps c))"

lemma rl_serialize_eq:
  assumes "0 < rl_RateBps c" "in64 (int (length (if_data f)) * nsPerSec)"
  shows "rl_serialize c f = int (length (if_data f)) * nsPerSec div rl_RateBps c"
  using assms by (simp add: rl_serialize_def i64_id go_div_nonneg nsPerSec_def)

lemma rl_backlog_eq:
  assumes "0 < rl_RateBps c" "rl_queueFreeAt c > deliver_at f"
    and "in64 (rl_queueFreeAt c - deliver_at f)"
    and "in64 ((rl_queueFreeAt c - deliver_at f) * rl_RateBps c)"
  shows "rl_backlog c f = (rl_queueFreeAt c - deliver_at f) * rl_RateBps c div nsPerSec"
  using assms by (simp add: rl_backlog_def i64_id go_div_nonneg nsPerSec_def)

lemma ratelimit_Process_spec:
  assumes "0 < rl_RateBps c" "ratelimit_fits c f"
  shows "ratelimit_Process c f = (case rate_spec c f of
      None \<Rightarrow> (c, [])
    | Some t \<Rightarrow> (c\<lparr>rl_queueFreeAt := t\<rparr>, [f\<lparr>deliver_at := t\<rparr>]))"
proof (cases "rl_queueFreeAt c > deliver_at f")
  case True
  have b: "rl_backlog c f = (rl_queueFreeAt c - deliver_at f) * rl_RateBps c div nsPerSec"
    by (rule rl_backlog_eq) (use assms True in \<open>auto simp: ratelimit_fits_def\<close>)
  have s: "rl_serialize c f = int (length (if_data f)) * nsPerSec div rl_RateBps c"
    by (rule rl_serialize_eq) (use assms in \<open>auto simp: ratelimit_fits_def\<close>)
  show ?thesis using assms True b s
    by (simp add: ratelimit_Process_def rate_spec_def ratelimit_fits_def Let_def i64_id max_def)
next
  case False
  have s: "rl_serialize c f = int (length (if_data f)) * nsPerSec div rl_RateBps c"
    by (rule rl_serialize_eq) (use assms in \<open>auto simp: ratelimit_fits_def\<close>)
  show ?thesis using assms False s
    by (simp add: ratelimit_Process_def rate_spec_def ratelimit_fits_def Let_def i64_id max_def)
qed

section \<open>What every packet keeps\<close>

lemma ratelimit_Process_meta [cell_meta]:
  "g \<in> set (snd (ratelimit_Process c f)) \<Longrightarrow> same_packet f g \<and> if_data g = if_data f"
  by (auto simp: ratelimit_Process_def same_packet_def Let_def split: if_splits)

lemma ratelimit_Process_fanout: "length (snd (ratelimit_Process c f)) \<le> 1"
  by (simp add: ratelimit_Process_def Let_def)

lemma ratelimit_Process_cfg [simp]:
  "rl_RateBps (fst (ratelimit_Process c f)) = rl_RateBps c"
  "rl_QueueBytes (fst (ratelimit_Process c f)) = rl_QueueBytes c"
  by (simp_all add: ratelimit_Process_def Let_def)

lemma ratelimit_drop_keeps_clock:
  "snd (ratelimit_Process c f) = [] \<Longrightarrow> fst (ratelimit_Process c f) = c"
  by (auto simp: ratelimit_Process_def Let_def split: if_splits)

lemma serialize_nonneg: "0 < r \<Longrightarrow> 0 \<le> int n * nsPerSec div r"
  by (simp add: nsPerSec_def pos_imp_zdiv_nonneg_iff)

lemma ratelimit_Process_floor:
  assumes "ratelimit_fits c f" "recv_at f \<le> deliver_at f" "g \<in> set (snd (ratelimit_Process c f))"
  shows "recv_at g \<le> deliver_at g"
proof (cases "0 < rl_RateBps c")
  case True
  have "deliver_at f \<le> t" if "rate_spec c f = Some t" for t
    using that serialize_nonneg [OF True] by (auto simp: rate_spec_def Let_def split: if_splits)
  then show ?thesis using assms ratelimit_Process_spec [OF True assms(1)]
    by (force split: option.splits)
next
  case False
  then show ?thesis using assms by (auto simp: ratelimit_Process_def)
qed

section \<open>Order, spacing and waiting time\<close>

text \<open>An accepted packet leaves at least its serialisation time after everything
  accepted before it, and the clock then stands at its departure.\<close>

lemma ratelimit_accept:
  assumes "0 < rl_RateBps c" "ratelimit_fits c f" "snd (ratelimit_Process c f) = g # gs"
  shows "gs = []" "rl_queueFreeAt (fst (ratelimit_Process c f)) = deliver_at g"
    and "max (rl_queueFreeAt c) (deliver_at f) + int (length (if_data f)) * nsPerSec div rl_RateBps c
      = deliver_at g"
    and "rl_QueueBytes c > 0 \<Longrightarrow>
      (max (rl_queueFreeAt c) (deliver_at f) - deliver_at f) * rl_RateBps c < (rl_QueueBytes c + 1) * nsPerSec"
proof -
  obtain t where t: "rate_spec c f = Some t" "g = f\<lparr>deliver_at := t\<rparr>" "gs = []"
    using assms(3) ratelimit_Process_spec [OF assms(1,2)] by (auto split: option.splits)
  show "gs = []" "rl_queueFreeAt (fst (ratelimit_Process c f)) = deliver_at g"
    using t ratelimit_Process_spec [OF assms(1,2)] by auto
  show "max (rl_queueFreeAt c) (deliver_at f) + int (length (if_data f)) * nsPerSec div rl_RateBps c
      = deliver_at g"
    using t by (auto simp: rate_spec_def Let_def max_def split: if_splits)
  show "(max (rl_queueFreeAt c) (deliver_at f) - deliver_at f) * rl_RateBps c < (rl_QueueBytes c + 1) * nsPerSec"
    if q: "rl_QueueBytes c > 0"
  proof -
    let ?w = "max 0 (rl_queueFreeAt c - deliver_at f)"
    have "?w * rl_RateBps c div nsPerSec \<le> rl_QueueBytes c"
      using t(1) q by (auto simp: rate_spec_def Let_def split: if_splits)
    then have "?w * rl_RateBps c div nsPerSec < rl_QueueBytes c + 1" by simp
    then have "?w * rl_RateBps c < (rl_QueueBytes c + 1) * nsPerSec"
      by (simp add: div_less_iff_less_mult nsPerSec_def)
    moreover have "max (rl_queueFreeAt c) (deliver_at f) - deliver_at f = ?w" by linarith
    ultimately show ?thesis by simp
  qed
qed

section \<open>A sequence of packets\<close>

definition rl_deliveries :: "ratelimit \<Rightarrow> inflight list \<Rightarrow> int64 list" where
  "rl_deliveries c fs = map deliver_at (concat (feed ratelimit_Process c fs))"

definition rl_airtime :: "int64 \<Rightarrow> inflight list \<Rightarrow> int" where
  "rl_airtime rate outs = sum_list (map (\<lambda>g. int (length (if_data g)) * nsPerSec div rate) outs)"

lemma rl_airtime_nonneg: "0 < rate \<Longrightarrow> 0 \<le> rl_airtime rate outs"
  by (induction outs) (auto simp: rl_airtime_def serialize_nonneg)

lemma rl_deliveries_Cons:
  "rl_deliveries c (f # fs) =
    map deliver_at (snd (ratelimit_Process c f)) @ rl_deliveries (fst (ratelimit_Process c f)) fs"
  by (simp add: rl_deliveries_def split: prod.split)

lemma ratelimit_step_cases:
  assumes "0 < rl_RateBps c" "ratelimit_fits c f"
  obtains (dropped) "ratelimit_Process c f = (c, [])"
  | (accepted) g where "ratelimit_Process c f = (c\<lparr>rl_queueFreeAt := deliver_at g\<rparr>, [g])"
      "if_data g = if_data f" "same_packet f g" "deliver_at f \<le> deliver_at g"
      "rl_queueFreeAt c + int (length (if_data g)) * nsPerSec div rl_RateBps c \<le> deliver_at g"
proof (cases "rate_spec c f")
  case None
  then show ?thesis using ratelimit_Process_spec [OF assms] by (intro dropped) simp
next
  case (Some t)
  then have p: "ratelimit_Process c f = (c\<lparr>rl_queueFreeAt := t\<rparr>, [f\<lparr>deliver_at := t\<rparr>])"
    using ratelimit_Process_spec [OF assms] by simp
  have "max (rl_queueFreeAt c) (deliver_at f) + int (length (if_data f)) * nsPerSec div rl_RateBps c = t"
    using ratelimit_accept(3) [OF assms, of "f\<lparr>deliver_at := t\<rparr>" "[]"] p by simp
  then show ?thesis using p serialize_nonneg [OF assms(1), of "length (if_data f)"]
    by (intro accepted [of "f\<lparr>deliver_at := t\<rparr>"]) (auto simp: same_packet_def max_def split: if_splits)
qed

lemma rl_deliveries_after:
  assumes "0 < rl_RateBps c" "run_cell_fits ratelimit_Process ratelimit_fits c fs"
  shows "\<forall>t\<in>set (rl_deliveries c fs). rl_queueFreeAt c \<le> t"
  using assms
proof (induction fs arbitrary: c)
  case (Cons f fs)
  from Cons.prems have fits: "ratelimit_fits c f" by simp
  from Cons.prems(1) fits show ?case
  proof (cases rule: ratelimit_step_cases)
    case dropped
    then show ?thesis using Cons by (simp add: rl_deliveries_Cons)
  next
    case (accepted g)
    have "rl_queueFreeAt c \<le> deliver_at g"
      using accepted(5) serialize_nonneg [OF Cons.prems(1), of "length (if_data g)"] by linarith
    then show ?thesis using Cons.IH [of "fst (ratelimit_Process c f)"] Cons.prems accepted(1)
      by (auto simp: rl_deliveries_Cons)
  qed
qed (simp add: rl_deliveries_def)

lemma rl_deliveries_sorted:
  assumes "0 < rl_RateBps c" "run_cell_fits ratelimit_Process ratelimit_fits c fs"
  shows "sorted (rl_deliveries c fs)"
  using assms
proof (induction fs arbitrary: c)
  case (Cons f fs)
  from Cons.prems have fits: "ratelimit_fits c f" by simp
  from Cons.prems(1) fits show ?case
  proof (cases rule: ratelimit_step_cases)
    case dropped
    then show ?thesis using Cons by (simp add: rl_deliveries_Cons)
  next
    case (accepted g)
    then show ?thesis
      using Cons.IH [of "fst (ratelimit_Process c f)"] Cons.prems
        rl_deliveries_after [of "fst (ratelimit_Process c f)" fs]
      by (simp add: rl_deliveries_Cons)
  qed
qed (simp add: rl_deliveries_def)

lemma rl_clock_advance:
  assumes "0 < rl_RateBps c" "run_cell_fits ratelimit_Process ratelimit_fits c fs"
  shows "rl_queueFreeAt c + rl_airtime (rl_RateBps c) (concat (feed ratelimit_Process c fs))
    \<le> rl_queueFreeAt (feed_state ratelimit_Process c fs)"
  using assms
proof (induction fs arbitrary: c)
  case (Cons f fs)
  from Cons.prems have fits: "ratelimit_fits c f" by simp
  from Cons.prems(1) fits show ?case
  proof (cases rule: ratelimit_step_cases)
    case dropped
    then show ?thesis using Cons by simp
  next
    case (accepted g)
    then show ?thesis
      using Cons.IH [of "fst (ratelimit_Process c f)"] Cons.prems
      by (simp add: rl_airtime_def)
  qed
qed (simp add: rl_airtime_def)

lemma rl_clock_last:
  assumes "0 < rl_RateBps c" "run_cell_fits ratelimit_Process ratelimit_fits c fs"
  shows "rl_queueFreeAt (feed_state ratelimit_Process c fs) =
    (if rl_deliveries c fs = [] then rl_queueFreeAt c else last (rl_deliveries c fs))"
  using assms
proof (induction fs arbitrary: c)
  case (Cons f fs)
  from Cons.prems have fits: "ratelimit_fits c f" by simp
  from Cons.prems(1) fits show ?case
  proof (cases rule: ratelimit_step_cases)
    case dropped
    then show ?thesis using Cons by (simp add: rl_deliveries_Cons)
  next
    case (accepted g)
    then show ?thesis using Cons.IH [of "fst (ratelimit_Process c f)"] Cons.prems
      by (simp add: rl_deliveries_Cons)
  qed
qed (simp add: rl_deliveries_def)

text \<open>The line rate: from the time the link stands at to the last departure there is room
  for every byte that left.\<close>

lemma rl_line_rate:
  assumes "0 < rl_RateBps c" "run_cell_fits ratelimit_Process ratelimit_fits c fs"
    and "rl_deliveries c fs \<noteq> []"
  shows "rl_airtime (rl_RateBps c) (concat (feed ratelimit_Process c fs))
    \<le> last (rl_deliveries c fs) - rl_queueFreeAt c"
  using rl_clock_advance [OF assms(1,2)] rl_clock_last [OF assms(1,2)] assms(3) by simp

end
