(* ===== verification/TraceCells.thy ===== *)
theory TraceCells
  imports Engine
begin

text \<open>
  The data-driven cells: \<^verbatim>\<open>DropList\<close> and \<^verbatim>\<open>DeliveryTrace\<close> of
  \<^verbatim>\<open>internal/droplist/droplist.go\<close> and the timed outage of
  \<^verbatim>\<open>internal/cells/blackhole/blackhole.go\<close>. For the delivery trace the lemmas show
  that the binary search finds the first opportunity at or after an arrival, that
  opportunity times do not decrease, that no opportunity is used twice, that by any time no more
  is delivered than the opportunities up to that time carry, and that a packet is never
  delivered before its ingress.
\<close>

section \<open>Blackhole\<close>

record blackhole =
  bh_start :: int64
  bh_end :: int64

definition blackhole_New :: "int64 \<Rightarrow> int64 \<Rightarrow> blackhole" where
  "blackhole_New s e = \<lparr>bh_start = s, bh_end = e\<rparr>"

definition blackhole_Name :: string where
  "blackhole_Name = ''blackhole''"

definition blackhole_Process :: "blackhole process" where
  "blackhole_Process c f =
     (if recv_at f \<ge> bh_start c \<and> recv_at f < bh_end c then (c, []) else (c, [f]))"

lemma blackhole_Process_meta [cell_meta]: "g \<in> set (snd (blackhole_Process c f)) \<Longrightarrow> g = f"
  by (auto simp: blackhole_Process_def split: if_splits)

lemma blackhole_feed:
  "feed blackhole_Process c fs =
    map (\<lambda>f. if bh_start c \<le> recv_at f \<and> recv_at f < bh_end c then [] else [f]) fs"
  by (induction fs) (auto simp: blackhole_Process_def)

section \<open>DropList\<close>

record dropList =
  dl_drop :: "uint64 set"

definition NewDropList :: "uint64 list \<Rightarrow> dropList" where
  "NewDropList seqs = \<lparr>dl_drop = set seqs\<rparr>"

definition dropList_Name :: string where
  "dropList_Name = ''droplist''"

definition dropList_Process :: "dropList process" where
  "dropList_Process d f = (if if_seq f \<in> dl_drop d then (d, []) else (d, [f]))"

lemma dropList_Process_meta [cell_meta]: "g \<in> set (snd (dropList_Process c f)) \<Longrightarrow> g = f"
  by (auto simp: dropList_Process_def split: if_splits)

section \<open>DeliveryTrace: configuration and state\<close>

record delivery_config =
  dt_Schedule :: "int64 list"
  dt_MTU :: int64
  dt_MaxBacklog :: int64
  dt_Loop :: bool

definition defaultMTU :: int64 where
  "defaultMTU = 1500"

record deliveryTrace =
  t_sched :: "int64 list"
  t_periodMs :: int64
  t_mtu :: int64
  t_maxBacklog :: int64
  t_loop :: bool
  t_started :: bool
  t_baseNs :: int64
  t_nextOpp :: int64

definition NewDeliveryTrace :: "delivery_config \<Rightarrow> deliveryTrace" where
  "NewDeliveryTrace cfg =
     (let sched = sort (dt_Schedule cfg) in
      \<lparr>t_sched = sched,
       t_periodMs = (if sched \<noteq> [] then last sched else 0),
       t_mtu = (if dt_MTU cfg \<le> 0 then defaultMTU else dt_MTU cfg),
       t_maxBacklog = dt_MaxBacklog cfg, t_loop = dt_Loop cfg,
       t_started = False, t_baseNs = 0, t_nextOpp = 0\<rparr>)"

definition deliveryTrace_Name :: string where
  "deliveryTrace_Name = ''deliverytrace''"

definition oppTimeMs :: "deliveryTrace \<Rightarrow> int64 \<Rightarrow> int64 option" where
  "oppTimeMs t i = (let n = int (length (t_sched t)) in
     if n = 0 then None
     else if i < n then Some (t_sched t ! nat i)
     else if \<not> t_loop t then None
     else Some (i64 (i64 (go_div i n * t_periodMs t) + t_sched t ! nat (go_mod i n))))"

text \<open>\<^verbatim>\<open>sort.Search\<close>: the binary search of the standard library.\<close>

function search_between :: "(nat \<Rightarrow> bool) \<Rightarrow> nat \<Rightarrow> nat \<Rightarrow> nat" where
  "search_between p i j =
     (if i < j then let h = (i + j) div 2 in
        if \<not> p h then search_between p (h + 1) j else search_between p i h
      else i)"
  by pat_completeness auto
termination
  by (relation "measure (\<lambda>(p, i, j). j - i)") auto

declare search_between.simps [simp del]

definition sort_Search :: "nat \<Rightarrow> (nat \<Rightarrow> bool) \<Rightarrow> nat" where
  "sort_Search n p = search_between p 0 n"

definition firstOppAtOrAfter :: "deliveryTrace \<Rightarrow> int64 \<Rightarrow> int64" where
  "firstOppAtOrAfter t ms = (let n = length (t_sched t) in
     if n = 0 then - 1
     else if t_loop t then
       if t_periodMs t \<le> 0 then
         if ms \<le> 0 then int (sort_Search n (\<lambda>k. t_sched t ! k \<ge> ms)) else - 1
       else
         let cycle = go_div ms (t_periodMs t);
             rem = i64 (ms - i64 (cycle * t_periodMs t));
             i = sort_Search n (\<lambda>k. t_sched t ! k \<ge> rem)
         in i64 (i64 (cycle * int n) + int i)
     else
       let i = sort_Search n (\<lambda>k. t_sched t ! k \<ge> ms)
       in if i \<ge> n then - 1 else int i)"

definition nsToMsFloor :: "int64 \<Rightarrow> int64" where
  "nsToMsFloor ns = (if ns < 0 then 0 else go_div ns 1000000)"

definition opps_needed :: "deliveryTrace \<Rightarrow> inflight \<Rightarrow> int64" where
  "opps_needed t f = (let need = go_div (i64 (int (length (if_data f)) + t_mtu t - 1)) (t_mtu t)
     in if need < 1 then 1 else need)"

definition start_trace :: "deliveryTrace \<Rightarrow> inflight \<Rightarrow> deliveryTrace" where
  "start_trace t f = (if t_started t then t else t\<lparr>t_started := True, t_baseNs := recv_at f\<rparr>)"

definition deliveryTrace_Process :: "deliveryTrace process" where
  "deliveryTrace_Process t0 f =
     (if t_sched t0 = [] then (t0, [])
      else let t = start_trace t0 f;
        need = opps_needed t f;
        arrMs = nsToMsFloor (i64 (recv_at f - t_baseNs t));
        arrIdx = firstOppAtOrAfter t arrMs
      in if arrIdx < 0 then (t, [])
         else let startIdx = (if arrIdx > t_nextOpp t then arrIdx else t_nextOpp t);
           deliverIdx = i64 (startIdx + need - 1)
         in case oppTimeMs t deliverIdx of
              None \<Rightarrow> (t, [])
            | Some deliverTs \<Rightarrow>
                if t_maxBacklog t > 0 \<and>
                   i64 (i64 (deliverIdx - arrIdx + 1) * t_mtu t) > t_maxBacklog t
                then (t, [])
                else let ns = i64 (t_baseNs t + i64 (deliverTs * 1000000));
                         deliverNs = (if ns < recv_at f then recv_at f else ns)
                  in (t\<lparr>t_nextOpp := i64 (deliverIdx + 1)\<rparr>, [f\<lparr>deliver_at := deliverNs\<rparr>]))"

section \<open>Binary search\<close>

text \<open>On a predicate that stays true once it is true, the search returns the first index
  at which it holds, or the upper end.\<close>

lemma search_between_step:
  assumes "i < j"
  shows "\<not> p ((i + j) div 2) \<Longrightarrow> search_between p i j = search_between p ((i + j) div 2 + 1) j"
    "p ((i + j) div 2) \<Longrightarrow> search_between p i j = search_between p i ((i + j) div 2)"
  using assms by (simp_all add: search_between.simps [of p i j] Let_def)

lemma search_between_stop: "\<not> i < j \<Longrightarrow> search_between p i j = i"
  by (simp add: search_between.simps [of p i j])

lemma search_between_correct:
  assumes mono: "\<And>h k. p h \<Longrightarrow> h \<le> k \<Longrightarrow> k < n \<Longrightarrow> p k"
  shows "i \<le> j \<Longrightarrow> j \<le> n \<Longrightarrow> (\<And>h. h < i \<Longrightarrow> \<not> p h) \<Longrightarrow> (\<And>h. j \<le> h \<Longrightarrow> h < n \<Longrightarrow> p h) \<Longrightarrow>
    search_between p i j \<le> n \<and> (\<forall>h < search_between p i j. \<not> p h) \<and>
    (\<forall>h. search_between p i j \<le> h \<longrightarrow> h < n \<longrightarrow> p h)"
proof (induction "j - i" arbitrary: i j rule: less_induct)
  case less
  let ?h = "(i + j) div 2"
  show ?case
  proof (cases "i < j")
    case False
    then have "search_between p i j = i" "i = j"
      using less.prems(1) by (simp_all add: search_between_stop)
    then show ?thesis using less.prems by simp
  next
    case True
    note step = search_between_step [OF True, of p]
    have h: "i \<le> ?h" "?h < j" "?h < n" using True less.prems(2) by simp_all
    show ?thesis
    proof (cases "p ?h")
      case True
      have "\<And>k. ?h \<le> k \<Longrightarrow> k < n \<Longrightarrow> p k" using mono True by blast
      then show ?thesis
        unfolding step(2) [OF True] using h less.prems by (intro less.hyps) simp_all
    next
      case False
      have "\<And>k. k < ?h + 1 \<Longrightarrow> \<not> p k" using mono [of _ ?h] False h(3) by fastforce
      then show ?thesis
        unfolding step(1) [OF False] using h less.prems by (intro less.hyps) simp_all
    qed
  qed
qed

lemma sort_Search_correct:
  assumes "\<And>h k. p h \<Longrightarrow> h \<le> k \<Longrightarrow> k < n \<Longrightarrow> p k"
  shows "sort_Search n p \<le> n" "h < sort_Search n p \<Longrightarrow> \<not> p h"
    "sort_Search n p \<le> h \<Longrightarrow> h < n \<Longrightarrow> p h"
  using search_between_correct [of p n 0 n] assms by (auto simp: sort_Search_def)

lemma sort_Search_sorted:
  assumes "sorted xs"
  shows "sort_Search (length xs) (\<lambda>k. x \<le> xs ! k) \<le> length xs"
    "h < sort_Search (length xs) (\<lambda>k. x \<le> xs ! k) \<Longrightarrow> xs ! h < x"
    "sort_Search (length xs) (\<lambda>k. x \<le> xs ! k) \<le> h \<Longrightarrow> h < length xs \<Longrightarrow> x \<le> xs ! h"
proof -
  let ?p = "\<lambda>k. x \<le> xs ! k"
  have m: "?p k" if "?p h" "h \<le> k" "k < length xs" for h k
    using that sorted_nth_mono [OF assms] order_trans by blast
  show "sort_Search (length xs) ?p \<le> length xs"
    by (rule sort_Search_correct(1)) (rule m)
  show "xs ! h < x" if "h < sort_Search (length xs) ?p"
    using sort_Search_correct(2) [of ?p "length xs" h] m that by fastforce
  show "x \<le> xs ! h" if "sort_Search (length xs) ?p \<le> h" "h < length xs"
    using sort_Search_correct(3) [of ?p "length xs" h] m that by fastforce
qed

section \<open>Opportunities\<close>

text \<open>The trace as a function on all opportunity numbers, without the machine's width.\<close>

definition opp_time :: "deliveryTrace \<Rightarrow> int \<Rightarrow> int" where
  "opp_time t i = i div int (length (t_sched t)) * t_periodMs t
     + t_sched t ! nat (i mod int (length (t_sched t)))"

definition trace_wf :: "deliveryTrace \<Rightarrow> bool" where
  "trace_wf t \<longleftrightarrow> sorted (t_sched t) \<and> (\<forall>s\<in>set (t_sched t). 0 \<le> s) \<and>
     (t_sched t \<noteq> [] \<longrightarrow> t_periodMs t = last (t_sched t)) \<and>
     0 < t_mtu t \<and> 0 \<le> t_nextOpp t \<and> in64 (int (length (t_sched t)))"

lemma NewDeliveryTrace_wf:
  "\<forall>s\<in>set (dt_Schedule cfg). 0 \<le> s \<Longrightarrow> in64 (int (length (dt_Schedule cfg))) \<Longrightarrow>
    trace_wf (NewDeliveryTrace cfg)"
  by (auto simp: NewDeliveryTrace_def trace_wf_def Let_def defaultMTU_def)

lemma trace_wf_sched:
  assumes "trace_wf t" "k < length (t_sched t)"
  shows "0 \<le> t_sched t ! k" "t_sched t ! k \<le> t_periodMs t" "0 \<le> t_periodMs t"
proof -
  show a: "0 \<le> t_sched t ! k" using assms by (auto simp: trace_wf_def)
  have "t_sched t \<noteq> []" using assms(2) by auto
  then have "t_periodMs t = t_sched t ! (length (t_sched t) - 1)"
    using assms(1) by (simp add: trace_wf_def last_conv_nth)
  then show b: "t_sched t ! k \<le> t_periodMs t"
    using assms by (auto simp: trace_wf_def intro!: sorted_nth_mono)
  show "0 \<le> t_periodMs t" using a b by simp
qed

lemma opp_time_mono:
  assumes "trace_wf t" "t_sched t \<noteq> []" "0 \<le> i" "i \<le> j"
  shows "opp_time t i \<le> opp_time t j"
proof -
  let ?n = "int (length (t_sched t))"
  have n: "0 < ?n" using assms(2) by simp
  have r: "nat (k mod ?n) < length (t_sched t)" for k
    using n pos_mod_sign [OF n, of k] pos_mod_bound [OF n, of k] by (simp add: nat_less_iff)
  have "i div ?n \<le> j div ?n" using assms(4) n by (rule zdiv_mono1)
  then consider (same) "i div ?n = j div ?n" | (less) "i div ?n + 1 \<le> j div ?n" by linarith
  then show ?thesis
  proof cases
    case same
    then have "i mod ?n \<le> j mod ?n"
      using assms(4) by (simp add: minus_div_mult_eq_mod [symmetric])
    then have "t_sched t ! nat (i mod ?n) \<le> t_sched t ! nat (j mod ?n)"
      using assms(1) r by (intro sorted_nth_mono) (auto simp: trace_wf_def)
    then show ?thesis by (simp add: opp_time_def same)
  next
    case less
    have "opp_time t i \<le> (i div ?n + 1) * t_periodMs t"
      using trace_wf_sched(2) [OF assms(1) r, of i] by (simp add: opp_time_def distrib_right)
    also have "\<dots> \<le> j div ?n * t_periodMs t"
      using less trace_wf_sched(3) [OF assms(1) r] by (intro mult_right_mono)
    also have "\<dots> \<le> opp_time t j"
      using trace_wf_sched(1) [OF assms(1) r, of j] by (simp add: opp_time_def)
    finally show ?thesis .
  qed
qed

lemma oppTimeMs_Some:
  assumes "trace_wf t" "t_sched t \<noteq> []" "0 \<le> i" "in64 i" "in64 (opp_time t i)"
  shows "oppTimeMs t i =
    (if i < int (length (t_sched t)) \<or> t_loop t then Some (opp_time t i) else None)"
proof (cases "i < int (length (t_sched t))")
  case True
  then show ?thesis using assms by (simp add: oppTimeMs_def opp_time_def Let_def)
next
  case False
  let ?n = "int (length (t_sched t))"
  have n: "0 < ?n" using assms(2) by simp
  have r: "nat (i mod ?n) < length (t_sched t)"
    using n pos_mod_sign [OF n, of i] pos_mod_bound [OF n, of i] by (simp add: nat_less_iff)
  have "0 \<le> i div ?n * t_periodMs t"
    using n assms(3) trace_wf_sched(3) [OF assms(1) r] by (simp add: pos_imp_zdiv_nonneg_iff)
  moreover have "i div ?n * t_periodMs t \<le> opp_time t i"
    using trace_wf_sched(1) [OF assms(1) r] by (simp add: opp_time_def)
  ultimately have "in64 (i div ?n * t_periodMs t)"
    using assms(5) by (simp add: in64_def)
  then show ?thesis using False n assms(3-5)
    by (simp add: oppTimeMs_def opp_time_def Let_def go_div_nonneg go_mod_nonneg i64_id)
qed

text \<open>In a trace that does not loop the search returns the first opportunity not before
  the arrival, or none.\<close>

lemma firstOpp_once:
  fixes ms :: int64
  assumes "trace_wf t" "\<not> t_loop t" "t_sched t \<noteq> []"
  defines "i \<equiv> firstOppAtOrAfter t ms"
  shows "i = - 1 \<longleftrightarrow> (\<forall>s\<in>set (t_sched t). s < ms)"
    and "i \<noteq> - 1 \<Longrightarrow> 0 \<le> i \<and> i < int (length (t_sched t)) \<and> ms \<le> t_sched t ! nat i \<and>
      (\<forall>k < nat i. t_sched t ! k < ms)"
proof -
  let ?k = "sort_Search (length (t_sched t)) (\<lambda>k. ms \<le> t_sched t ! k)"
  have s: "sorted (t_sched t)" using assms(1) by (simp add: trace_wf_def)
  note c = sort_Search_sorted [OF s, where x = ms]
  have i: "i = (if length (t_sched t) \<le> ?k then - 1 else int ?k)"
    using assms(2,3) by (simp add: i_def firstOppAtOrAfter_def Let_def)
  show "i = - 1 \<longleftrightarrow> (\<forall>s\<in>set (t_sched t). s < ms)"
  proof (cases "length (t_sched t) \<le> ?k")
    case True
    then show ?thesis using c(2) i by (auto simp: in_set_conv_nth)
  next
    case False
    then have k: "ms \<le> t_sched t ! ?k" "?k < length (t_sched t)" using c(3) [of ?k] by auto
    then have "\<not> (\<forall>s\<in>set (t_sched t). s < ms)" using nth_mem leD by blast
    moreover have "i \<noteq> - 1" using i False by simp
    ultimately show ?thesis by blast
  qed
  show "i \<noteq> - 1 \<Longrightarrow> 0 \<le> i \<and> i < int (length (t_sched t)) \<and> ms \<le> t_sched t ! nat i \<and>
      (\<forall>k < nat i. t_sched t ! k < ms)"
    using c(2) c(3) [of ?k] i by (auto split: if_splits)
qed

section \<open>One packet through the trace\<close>

text \<open>\<open>trace_fits t f\<close>: the numbers the cell computes for this packet are in range.\<close>

definition trace_arr :: "deliveryTrace \<Rightarrow> inflight \<Rightarrow> int" where
  "trace_arr t f = firstOppAtOrAfter t (nsToMsFloor (i64 (recv_at f - t_baseNs (start_trace t f))))"

definition trace_last :: "deliveryTrace \<Rightarrow> inflight \<Rightarrow> int" where
  "trace_last t f = max (trace_arr t f) (t_nextOpp t) + opps_needed t f - 1"

definition trace_fits :: "deliveryTrace \<Rightarrow> inflight \<Rightarrow> bool" where
  "trace_fits t f \<longleftrightarrow> in64 (int (length (if_data f)) + t_mtu t - 1) \<and>
     in64 (trace_last t f + 1) \<and>
     (t_sched t \<noteq> [] \<longrightarrow> 0 \<le> trace_arr t f \<longrightarrow>
       in64 (opp_time t (trace_last t f)) \<and> in64 (opp_time t (trace_last t f) * 1000000) \<and>
       in64 (t_baseNs (start_trace t f) + opp_time t (trace_last t f) * 1000000))"

lemma start_trace_simps [simp]:
  "t_sched (start_trace t f) = t_sched t" "t_periodMs (start_trace t f) = t_periodMs t"
  "t_mtu (start_trace t f) = t_mtu t" "t_maxBacklog (start_trace t f) = t_maxBacklog t"
  "t_loop (start_trace t f) = t_loop t" "t_nextOpp (start_trace t f) = t_nextOpp t"
  "t_started (start_trace t f)" "t_started t \<Longrightarrow> start_trace t f = t"
  by (simp_all add: start_trace_def)

lemma start_trace_funs [simp]:
  "firstOppAtOrAfter (start_trace t f) ms = firstOppAtOrAfter t ms"
  "oppTimeMs (start_trace t f) i = oppTimeMs t i" "opps_needed (start_trace t f) g = opps_needed t g"
  "opp_time (start_trace t f) i = opp_time t i" "trace_wf (start_trace t f) = trace_wf t"
  by (simp_all add: firstOppAtOrAfter_def oppTimeMs_def opps_needed_def opp_time_def trace_wf_def
      Let_def cong: if_cong)

lemma nextOpp_update_funs [simp]: "opp_time (t\<lparr>t_nextOpp := k\<rparr>) i = opp_time t i"
  by (simp add: opp_time_def)

lemma opps_needed_bytes:
  assumes "trace_wf t" "in64 (int (length (if_data f)) + t_mtu t - 1)"
  shows "1 \<le> opps_needed t f" "int (length (if_data f)) \<le> opps_needed t f * t_mtu t"
    and "if_data f \<noteq> [] \<Longrightarrow> (opps_needed t f - 1) * t_mtu t < int (length (if_data f))"
proof -
  let ?l = "int (length (if_data f))" and ?m = "t_mtu t"
  let ?q = "(?l + ?m - 1) div ?m"
  have m: "0 < ?m" using assms(1) by (simp add: trace_wf_def)
  have need: "opps_needed t f = (if ?q < 1 then 1 else ?q)"
    using m assms(2) by (simp add: opps_needed_def Let_def i64_id go_div_nonneg)
  have q: "?l + ?m - 1 = ?q * ?m + (?l + ?m - 1) mod ?m" by simp
  have r: "0 \<le> (?l + ?m - 1) mod ?m" "(?l + ?m - 1) mod ?m < ?m" using m by simp_all
  show "1 \<le> opps_needed t f" using need by simp
  have lq: "?l \<le> ?q * ?m" using q r by linarith
  have "?q < 1 \<Longrightarrow> ?q * ?m \<le> 0" using m by (simp add: mult_nonpos_nonneg)
  then show "?l \<le> opps_needed t f * ?m" using need lq m by (cases "?q < 1") auto
  assume "if_data f \<noteq> []"
  then have l: "0 < ?l" by simp
  then have "?m \<le> ?l + ?m - 1" by simp
  then have "1 \<le> ?q" using m by (simp add: pos_imp_zdiv_pos_iff int_one_le_iff_zero_less)
  then have "(opps_needed t f - 1) * ?m = ?q * ?m - ?m" using need by (simp add: left_diff_distrib)
  then show "(opps_needed t f - 1) * ?m < ?l" using q r by linarith
qed

lemma deliveryTrace_Process_alt:
  "deliveryTrace_Process t f =
     (if t_sched t = [] then (t, [])
      else if trace_arr t f < 0 then (start_trace t f, [])
      else let d = i64 (trace_last t f) in
        case oppTimeMs t d of
          None \<Rightarrow> (start_trace t f, [])
        | Some ts \<Rightarrow>
            if 0 < t_maxBacklog t \<and> t_maxBacklog t < i64 (i64 (d - trace_arr t f + 1) * t_mtu t)
            then (start_trace t f, [])
            else ((start_trace t f)\<lparr>t_nextOpp := i64 (d + 1)\<rparr>,
                  [f\<lparr>deliver_at := max (recv_at f)
                    (i64 (t_baseNs (start_trace t f) + i64 (ts * 1000000)))\<rparr>]))"
proof -
  have "(if trace_arr t f > t_nextOpp t then trace_arr t f else t_nextOpp t) =
    max (trace_arr t f) (t_nextOpp t)" by auto
  moreover have "(if ns < recv_at f then recv_at f else ns) = max (recv_at f) ns" for ns by auto
  moreover have "firstOppAtOrAfter t (nsToMsFloor (i64 (recv_at f - t_baseNs (start_trace t f)))) =
    trace_arr t f" by (simp add: trace_arr_def)
  ultimately show ?thesis
    by (simp add: deliveryTrace_Process_def Let_def trace_last_def
        cong: option.case_cong if_cong split del: if_split)
qed

text \<open>Either the packet is dropped and the cursor stays, or it takes \<open>opps_needed\<close> fresh
  opportunities and leaves at the last of them, but not before it came in.\<close>

lemma deliveryTrace_step:
  assumes "trace_wf t" "trace_fits t f"
  obtains (dropped) t' where "deliveryTrace_Process t f = (t', [])"
      "t' = t \<or> t' = start_trace t f"
    | (sent) g where "t_sched t \<noteq> []" "0 \<le> trace_arr t f"
      "deliveryTrace_Process t f = ((start_trace t f)\<lparr>t_nextOpp := trace_last t f + 1\<rparr>, [g])"
      "g = f\<lparr>deliver_at := max (recv_at f)
              (t_baseNs (start_trace t f) + opp_time t (trace_last t f) * 1000000)\<rparr>"
      "t_loop t \<or> trace_last t f < int (length (t_sched t))"
      "0 < t_maxBacklog t \<longrightarrow>
         i64 (i64 (trace_last t f - trace_arr t f + 1) * t_mtu t) \<le> t_maxBacklog t"
proof (cases "t_sched t = [] \<or> trace_arr t f < 0")
  case True
  then show thesis using dropped [of "if t_sched t = [] then t else start_trace t f"]
    by (auto simp: deliveryTrace_Process_alt)
next
  case False
  then have ne: "t_sched t \<noteq> []" and arr: "0 \<le> trace_arr t f" by auto
  have need: "1 \<le> opps_needed t f"
    using assms by (intro opps_needed_bytes) (auto simp: trace_fits_def)
  have last: "trace_arr t f \<le> trace_last t f" "in64 (trace_last t f + 1)"
    using need assms(2) by (auto simp: trace_last_def trace_fits_def)
  have in1: "in64 (trace_last t f)" using last arr by (auto simp: in64_def)
  have times: "in64 (opp_time t (trace_last t f))" "in64 (opp_time t (trace_last t f) * 1000000)"
    "in64 (t_baseNs (start_trace t f) + opp_time t (trace_last t f) * 1000000)"
    using assms(2) ne arr by (auto simp: trace_fits_def)
  have opp: "oppTimeMs t (trace_last t f) =
      (if trace_last t f < int (length (t_sched t)) \<or> t_loop t
       then Some (opp_time t (trace_last t f)) else None)"
    using last arr by (intro oppTimeMs_Some assms(1) ne in1 times) simp
  show thesis
  proof (cases "(trace_last t f < int (length (t_sched t)) \<or> t_loop t) \<and>
      \<not> (0 < t_maxBacklog t \<and>
        t_maxBacklog t < i64 (i64 (trace_last t f - trace_arr t f + 1) * t_mtu t))")
    case False
    then have "deliveryTrace_Process t f = (start_trace t f, [])"
      using ne arr opp by (auto simp: deliveryTrace_Process_alt Let_def i64_id [OF in1])
    then show thesis using dropped by blast
  next
    case True
    then have "deliveryTrace_Process t f = ((start_trace t f)\<lparr>t_nextOpp := trace_last t f + 1\<rparr>,
        [f\<lparr>deliver_at := max (recv_at f)
          (t_baseNs (start_trace t f) + opp_time t (trace_last t f) * 1000000)\<rparr>])"
      using ne arr opp last(2) times
      by (auto simp: deliveryTrace_Process_alt Let_def i64_id [OF in1] i64_id)
    then show thesis using sent [OF ne arr] True by auto
  qed
qed

section \<open>Runs of packets through the trace\<close>

abbreviation trace_packets_fit :: "deliveryTrace \<Rightarrow> inflight list \<Rightarrow> bool" where
  "trace_packets_fit \<equiv> run_cell_fits deliveryTrace_Process trace_fits"

lemma deliveryTrace_step_wf:
  assumes "trace_wf t" "trace_fits t f" "deliveryTrace_Process t f = (t', outs)"
  shows "trace_wf t'" "t_sched t' = t_sched t" "t_mtu t' = t_mtu t"
    "int (length (concat (map if_data outs))) \<le> t_mtu t * (t_nextOpp t' - t_nextOpp t)"
proof -
  have "trace_wf t' \<and> t_sched t' = t_sched t \<and> t_mtu t' = t_mtu t \<and>
    int (length (concat (map if_data outs))) \<le> t_mtu t * (t_nextOpp t' - t_nextOpp t)"
  proof (rule deliveryTrace_step [OF assms(1,2)])
    fix s assume "deliveryTrace_Process t f = (s, [])" "s = t \<or> s = start_trace t f"
    then show ?thesis using assms by auto
  next
    fix g assume arr: "0 \<le> trace_arr t f" and
      e: "deliveryTrace_Process t f = ((start_trace t f)\<lparr>t_nextOpp := trace_last t f + 1\<rparr>, [g])"
      "g = f\<lparr>deliver_at := max (recv_at f)
        (t_baseNs (start_trace t f) + opp_time t (trace_last t f) * 1000000)\<rparr>"
    have n: "1 \<le> opps_needed t f" "int (length (if_data f)) \<le> opps_needed t f * t_mtu t"
      using assms by (auto intro!: opps_needed_bytes simp: trace_fits_def)
    have next0: "0 \<le> t_nextOpp t" and m: "0 < t_mtu t" using assms(1) by (simp_all add: trace_wf_def)
    have "opps_needed t f * t_mtu t \<le> (trace_last t f + 1 - t_nextOpp t) * t_mtu t"
      using m by (intro mult_right_mono) (auto simp: trace_last_def)
    then have "int (length (if_data f)) \<le> t_mtu t * (trace_last t f + 1 - t_nextOpp t)"
      using n(2) by (simp add: mult.commute)
    moreover have "trace_wf ((start_trace t f)\<lparr>t_nextOpp := trace_last t f + 1\<rparr>)"
      using assms(1) n(1) next0 by (auto simp: trace_wf_def trace_last_def)
    ultimately show ?thesis using assms(3) e by auto
  qed
  then show "trace_wf t'" "t_sched t' = t_sched t" "t_mtu t' = t_mtu t"
    "int (length (concat (map if_data outs))) \<le> t_mtu t * (t_nextOpp t' - t_nextOpp t)" by auto
qed

text \<open>What has left by a time, and the opportunities that came by then.\<close>

definition delivered_by :: "int \<Rightarrow> inflight list list \<Rightarrow> int" where
  "delivered_by T outs = (\<Sum>g\<leftarrow>filter (\<lambda>g. deliver_at g \<le> T) (concat outs). int (length (if_data g)))"

definition opps_by :: "deliveryTrace \<Rightarrow> int \<Rightarrow> int \<Rightarrow> int set" where
  "opps_by t T n = {i. t_nextOpp t \<le> i \<and> i < n \<and> t_baseNs t + opp_time t i * 1000000 \<le> T}"

lemma opps_by_finite [simp]: "finite (opps_by t T n)"
  by (rule finite_subset [of _ "{t_nextOpp t..<n}"]) (auto simp: opps_by_def)

lemma trace_cursor_grows:
  assumes "trace_wf t" "trace_packets_fit t fs"
  shows "t_nextOpp t \<le> t_nextOpp (feed_state deliveryTrace_Process t fs)"
  using assms
proof (induction fs arbitrary: t)
  case (Cons f fs)
  obtain t' outs where p: "deliveryTrace_Process t f = (t', outs)" by force
  have fit: "trace_fits t f" "trace_packets_fit t' fs" using Cons.prems(2) p by auto
  note w = deliveryTrace_step_wf [OF Cons.prems(1) fit(1) p]
  have "0 \<le> t_mtu t * (t_nextOpp t' - t_nextOpp t)" "0 < t_mtu t"
    using w(4) Cons.prems(1) by (auto simp: trace_wf_def)
  then have "t_nextOpp t \<le> t_nextOpp t'" by (simp add: zero_le_mult_iff)
  then show ?case using Cons.IH [OF w(1) fit(2)] p by simp
qed simp

text \<open>A packet that leaves by \<open>T\<close> has used up opportunities that came by \<open>T\<close>, as many as it needs.\<close>

lemma opps_by_split:
  assumes "trace_wf t" "t_sched t \<noteq> []" "t_nextOpp t \<le> l" "l < n" "t_baseNs t + opp_time t l * 1000000 \<le> T"
  shows "int (card (opps_by t T n)) = l + 1 - t_nextOpp t + int (card (opps_by (t\<lparr>t_nextOpp := l + 1\<rparr>) T n))"
proof -
  have nn: "0 \<le> t_nextOpp t" using assms(1) by (simp add: trace_wf_def)
  have "t_baseNs t + opp_time t i * 1000000 \<le> T" if "t_nextOpp t \<le> i" "i \<le> l" for i
  proof -
    have "opp_time t i \<le> opp_time t l" using nn that by (intro opp_time_mono assms(1,2)) auto
    then show ?thesis using assms(5) by linarith
  qed
  then have "opps_by t T n = {t_nextOpp t..l} \<union> opps_by (t\<lparr>t_nextOpp := l + 1\<rparr>) T n"
    using assms(3,4) by (auto simp: opps_by_def)
  moreover have "{t_nextOpp t..l} \<inter> opps_by (t\<lparr>t_nextOpp := l + 1\<rparr>) T n = {}" by (auto simp: opps_by_def)
  ultimately have "card (opps_by t T n) = card {t_nextOpp t..l} + card (opps_by (t\<lparr>t_nextOpp := l + 1\<rparr>) T n)"
    by (simp add: card_Un_disjoint)
  then show ?thesis using assms(3) by simp
qed

lemma opps_by_mono: "t_nextOpp t \<le> k \<Longrightarrow> card (opps_by (t\<lparr>t_nextOpp := k\<rparr>) T n) \<le> card (opps_by t T n)"
  by (rule card_mono [OF opps_by_finite]) (auto simp: opps_by_def)

lemma trace_capacity_by:
  assumes "trace_wf t" "t_sched t \<noteq> []" "t_started t" "trace_packets_fit t fs"
  shows "delivered_by T (feed deliveryTrace_Process t fs)
    \<le> t_mtu t * int (card (opps_by t T (t_nextOpp (feed_state deliveryTrace_Process t fs))))"
  using assms
proof (induction fs arbitrary: t)
  case Nil
  then show ?case by (simp add: delivered_by_def trace_wf_def)
next
  case (Cons f fs)
  obtain t' outs where p: "deliveryTrace_Process t f = (t', outs)" by force
  have fit: "trace_fits t f" "trace_packets_fit t' fs" using Cons.prems(4) p by auto
  note w = deliveryTrace_step_wf [OF Cons.prems(1) fit(1) p]
  let ?n = "t_nextOpp (feed_state deliveryTrace_Process t' fs)"
  have m: "0 < t_mtu t" using Cons.prems(1) by (simp add: trace_wf_def)
  show ?case
  proof (rule deliveryTrace_step [OF Cons.prems(1) fit(1)])
    fix s assume s: "deliveryTrace_Process t f = (s, [])" "s = t \<or> s = start_trace t f"
    then have "t' = t" "outs = []" using p Cons.prems(3) by auto
    then show ?thesis using Cons.IH [OF Cons.prems(1-3)] fit(2) p by (simp add: delivered_by_def)
  next
    fix g assume e: "deliveryTrace_Process t f = ((start_trace t f)\<lparr>t_nextOpp := trace_last t f + 1\<rparr>, [g])"
      "g = f\<lparr>deliver_at := max (recv_at f) (t_baseNs (start_trace t f) + opp_time t (trace_last t f) * 1000000)\<rparr>"
    have t': "t' = t\<lparr>t_nextOpp := trace_last t f + 1\<rparr>" "outs = [g]" using p e(1) Cons.prems(3) by auto
    have need: "1 \<le> opps_needed t f" "int (length (if_data f)) \<le> opps_needed t f * t_mtu t"
      using fit(1) Cons.prems(1) by (auto intro!: opps_needed_bytes simp: trace_fits_def)
    have l: "t_nextOpp t \<le> trace_last t f" "opps_needed t f \<le> trace_last t f + 1 - t_nextOpp t"
      using need(1) by (auto simp: trace_last_def)
    have grows: "trace_last t f < ?n" using trace_cursor_grows [OF w(1) fit(2)] by (simp add: t'(1))
    have ih: "delivered_by T (feed deliveryTrace_Process t' fs) \<le> t_mtu t * int (card (opps_by t' T ?n))"
      using Cons.IH [OF w(1) _ _ fit(2)] w(2,3) Cons.prems(2,3) by (simp add: t'(1))
    have split: "delivered_by T (feed deliveryTrace_Process t (f # fs)) =
        (if deliver_at g \<le> T then int (length (if_data f)) else 0) + delivered_by T (feed deliveryTrace_Process t' fs)"
      using p t'(2) e(2) by (simp add: delivered_by_def)
    have fs: "feed_state deliveryTrace_Process t (f # fs) = feed_state deliveryTrace_Process t' fs" using p by simp
    show ?thesis
    proof (cases "deliver_at g \<le> T")
      case True
      then have "t_baseNs t + opp_time t (trace_last t f) * 1000000 \<le> T" using e(2) Cons.prems(3) by simp
      from opps_by_split [OF Cons.prems(1,2) l(1) grows this]
      have c: "int (card (opps_by t T ?n)) = trace_last t f + 1 - t_nextOpp t + int (card (opps_by t' T ?n))" by (simp add: t'(1))
      have "opps_needed t f * t_mtu t \<le> (trace_last t f + 1 - t_nextOpp t) * t_mtu t"
        using l(2) m by (intro mult_right_mono) auto
      then have "int (length (if_data f)) \<le> t_mtu t * (trace_last t f + 1 - t_nextOpp t)"
        using need(2) by (simp add: mult.commute)
      then show ?thesis unfolding split fs c using True ih by (simp add: distrib_left)
    next
      case False
      have "card (opps_by t' T ?n) \<le> card (opps_by t T ?n)" unfolding t'(1) using l(1) by (intro opps_by_mono) simp
      then have "t_mtu t * int (card (opps_by t' T ?n)) \<le> t_mtu t * int (card (opps_by t T ?n))" using m by simp
      then show ?thesis unfolding split fs using False ih by simp
    qed
  qed
qed

text \<open>The first packet sets the time the schedule counts from.\<close>

lemma start_trace_first:
  assumes "t_sched t \<noteq> []"
  shows "deliveryTrace_Process (start_trace t f) f = deliveryTrace_Process t f"
    "trace_fits (start_trace t f) f = trace_fits t f"
proof -
  have a: "trace_arr (start_trace t f) f = trace_arr t f" "trace_last (start_trace t f) f = trace_last t f"
    by (simp_all add: trace_arr_def trace_last_def)
  show "deliveryTrace_Process (start_trace t f) f = deliveryTrace_Process t f"
    using assms by (simp add: deliveryTrace_Process_alt a Let_def cong: option.case_cong if_cong)
  show "trace_fits (start_trace t f) f = trace_fits t f" by (simp add: trace_fits_def a)
qed

lemma trace_capacity:
  assumes "trace_wf t" "t_sched t \<noteq> []" "trace_packets_fit t fs"
  shows "delivered_by T (feed deliveryTrace_Process t fs)
    \<le> t_mtu t * int (card (opps_by (start_trace t (hd fs)) T (t_nextOpp (feed_state deliveryTrace_Process t fs))))"
proof (cases fs)
  case Nil
  then show ?thesis using assms(1) by (simp add: delivered_by_def trace_wf_def)
next
  case (Cons f gs)
  let ?t = "start_trace t f"
  note st = start_trace_first [OF assms(2), of f]
  have "feed deliveryTrace_Process ?t fs = feed deliveryTrace_Process t fs"
    "feed_state deliveryTrace_Process ?t fs = feed_state deliveryTrace_Process t fs" "trace_packets_fit ?t fs = trace_packets_fit t fs"
    using st by (simp_all add: Cons)
  then show ?thesis using trace_capacity_by [of ?t fs T] assms by (simp add: Cons)
qed

text \<open>Packets that come in order of time leave in order of time.\<close>

lemma trace_outputs_after:
  assumes "trace_wf t" "t_sched t \<noteq> []" "t_started t" "trace_packets_fit t fs"
    and "g \<in> set (concat (feed deliveryTrace_Process t fs))"
  shows "t_baseNs t + opp_time t (t_nextOpp t) * 1000000 \<le> deliver_at g \<and>
    recv_at g \<in> recv_at ` set fs \<and> recv_at g \<le> deliver_at g"
  using assms
proof (induction fs arbitrary: t)
  case (Cons f fs)
  obtain t' outs where p: "deliveryTrace_Process t f = (t', outs)" by force
  have fit: "trace_fits t f" "trace_packets_fit t' fs" using Cons.prems(4) p by auto
  note w = deliveryTrace_step_wf [OF Cons.prems(1) fit(1) p]
  have need: "1 \<le> opps_needed t f"
    using fit(1) Cons.prems(1) by (intro opps_needed_bytes) (auto simp: trace_fits_def)
  have nn: "0 \<le> t_nextOpp t" using Cons.prems(1) by (simp add: trace_wf_def)
  have mono: "opp_time t (t_nextOpp t) \<le> opp_time t i" if "t_nextOpp t \<le> i" for i
    using opp_time_mono [OF Cons.prems(1,2) nn that] .
  have later: "t_baseNs t + opp_time t (t_nextOpp t) * 1000000 \<le> deliver_at g \<and>
      recv_at g \<in> recv_at ` set fs \<and> recv_at g \<le> deliver_at g"
    if "g \<in> set (concat (feed deliveryTrace_Process t' fs))" "t_started t'" "t_baseNs t' = t_baseNs t"
      "\<And>i. opp_time t' i = opp_time t i" "t_nextOpp t \<le> t_nextOpp t'"
    using Cons.IH [OF w(1) _ that(2) fit(2) that(1)] that Cons.prems(2) w(2) mono [OF that(5)]
    by fastforce
  show ?case
  proof (rule deliveryTrace_step [OF Cons.prems(1) fit(1)])
    fix s assume "deliveryTrace_Process t f = (s, [])" "s = t \<or> s = start_trace t f"
    then show ?thesis using later Cons.prems(3,5) p by auto
  next
    fix h assume e: "deliveryTrace_Process t f =
        ((start_trace t f)\<lparr>t_nextOpp := trace_last t f + 1\<rparr>, [h])"
      "h = f\<lparr>deliver_at := max (recv_at f)
        (t_baseNs (start_trace t f) + opp_time t (trace_last t f) * 1000000)\<rparr>"
    have l: "t_nextOpp t \<le> trace_last t f" using need by (simp add: trace_last_def)
    have "g = h \<or> g \<in> set (concat (feed deliveryTrace_Process t' fs))"
      using Cons.prems(5) p e by auto
    then show ?thesis
    proof
      assume "g = h"
      then show ?thesis using e(2) mono [OF l] Cons.prems(3) by auto
    next
      assume "g \<in> set (concat (feed deliveryTrace_Process t' fs))"
      then show ?thesis using later p e l Cons.prems(3) by auto
    qed
  qed
qed simp

lemma trace_fifo_from:
  "trace_wf t \<Longrightarrow> t_sched t \<noteq> [] \<Longrightarrow> trace_packets_fit t fs \<Longrightarrow> sorted (map recv_at fs) \<Longrightarrow>
    sorted (map deliver_at (concat (feed deliveryTrace_Process t fs)))"
proof (induction fs arbitrary: t)
  case (Cons f fs)
  obtain t' outs where p: "deliveryTrace_Process t f = (t', outs)" by force
  have fit: "trace_fits t f" "trace_packets_fit t' fs" using Cons.prems(3) p by auto
  note w = deliveryTrace_step_wf [OF Cons.prems(1) fit(1) p]
  have rest: "sorted (map deliver_at (concat (feed deliveryTrace_Process t' fs)))"
    using Cons.IH [OF w(1) _ fit(2)] w(2) Cons.prems(2,4) by auto
  show ?case
  proof (rule deliveryTrace_step [OF Cons.prems(1) fit(1)])
    fix s assume "deliveryTrace_Process t f = (s, [])" "s = t \<or> s = start_trace t f"
    then show ?thesis using rest p by auto
  next
    fix h assume arr: "0 \<le> trace_arr t f" and e: "deliveryTrace_Process t f =
        ((start_trace t f)\<lparr>t_nextOpp := trace_last t f + 1\<rparr>, [h])"
      "h = f\<lparr>deliver_at := max (recv_at f)
        (t_baseNs (start_trace t f) + opp_time t (trace_last t f) * 1000000)\<rparr>"
    have "1 \<le> opps_needed t f"
      using fit(1) Cons.prems(1) by (intro opps_needed_bytes) (auto simp: trace_fits_def)
    then have "0 \<le> trace_last t f" using arr by (simp add: trace_last_def)
    then have m: "opp_time t (trace_last t f) \<le> opp_time t (trace_last t f + 1)"
      using opp_time_mono [OF Cons.prems(1,2)] by simp
    have "deliver_at h \<le> deliver_at g"
      if g: "g \<in> set (concat (feed deliveryTrace_Process t' fs))" for g
    proof -
      have "t_baseNs t' + opp_time t' (t_nextOpp t') * 1000000 \<le> deliver_at g \<and>
          recv_at g \<in> recv_at ` set fs \<and> recv_at g \<le> deliver_at g"
        using p e w(2) Cons.prems(2) by (intro trace_outputs_after w(1) fit(2) g) auto
      moreover have "recv_at f \<le> recv_at g" using calculation Cons.prems(4) by auto
      ultimately show ?thesis using p e m by auto
    qed
    then show ?thesis using rest p e(1) by auto
  qed
qed simp

section \<open>The contract of a cell\<close>

lemma deliveryTrace_outputs:
  "g \<in> set (snd (deliveryTrace_Process t f)) \<Longrightarrow> \<exists>d. g = f\<lparr>deliver_at := d\<rparr> \<and> recv_at f \<le> d"
  by (auto simp: deliveryTrace_Process_alt Let_def split: if_splits option.splits)

lemma deliveryTrace_Process_meta [cell_meta]:
  "g \<in> set (snd (deliveryTrace_Process t f)) \<Longrightarrow> same_packet f g"
  by (auto dest!: deliveryTrace_outputs simp: same_packet_def)

lemma deliveryTrace_fanout: "length (snd (deliveryTrace_Process t f)) \<le> 1"
  by (auto simp: deliveryTrace_Process_alt Let_def split: option.split)

lemma deliveryTrace_floor:
  "g \<in> set (snd (deliveryTrace_Process t f)) \<Longrightarrow> recv_at g \<le> deliver_at g"
  by (auto dest!: deliveryTrace_outputs)

end
