(* ===== verification/Cells.thy ===== *)
theory Cells
  imports LossCell CorruptCell ReorderCell DelayCell RateCell TraceCells
begin

text \<open>
  The implementations of the \<^verbatim>\<open>engine.Cell\<close> interface as one type, with the
  interface's methods by cases: \<open>cell_Process\<close>, \<open>cell_Name\<close> and
  \<open>cell_RequiresCleartext\<close> are the dynamic dispatch of the source. Here the
  engine's interface locales are interpreted on the program's own cells, so every
  fact of \<open>cell_stage\<close> and \<open>timed_cell\<close> becomes a fact about engines built of
  them; the last section states the consequences for a whole run.
\<close>

datatype cell =
    CBernoulli bernoulli
  | CGE ge
  | CDelay delay
  | CReorder reorder
  | CCorrupt corrupt
  | CRateLimit ratelimit
  | CDropList dropList
  | CDeliveryTrace deliveryTrace
  | CBlackhole blackhole

definition lift_cell :: "('s \<Rightarrow> cell) \<Rightarrow> 's \<times> inflight list \<Rightarrow> cell \<times> inflight list" where
  "lift_cell con r = (con (fst r), snd r)"

fun cell_Process :: "platform \<Rightarrow> cell process" where
  "cell_Process pf (CBernoulli c) f = lift_cell CBernoulli (bernoulli_Process c f)"
| "cell_Process pf (CGE c) f = lift_cell CGE (ge_Process c f)"
| "cell_Process pf (CDelay c) f = lift_cell CDelay (delay_Process pf c f)"
| "cell_Process pf (CReorder c) f = lift_cell CReorder (reorder_Process c f)"
| "cell_Process pf (CCorrupt c) f = lift_cell CCorrupt (corrupt_Process c f)"
| "cell_Process pf (CRateLimit c) f = lift_cell CRateLimit (ratelimit_Process c f)"
| "cell_Process pf (CDropList c) f = lift_cell CDropList (dropList_Process c f)"
| "cell_Process pf (CDeliveryTrace c) f = lift_cell CDeliveryTrace (deliveryTrace_Process c f)"
| "cell_Process pf (CBlackhole c) f = lift_cell CBlackhole (blackhole_Process c f)"

fun cell_Name :: "cell \<Rightarrow> string" where
  "cell_Name (CBernoulli c) = bernoulli_Name"
| "cell_Name (CGE c) = ge_Name"
| "cell_Name (CDelay c) = delay_Name"
| "cell_Name (CReorder c) = reorder_Name"
| "cell_Name (CCorrupt c) = corrupt_Name"
| "cell_Name (CRateLimit c) = ratelimit_Name"
| "cell_Name (CDropList c) = dropList_Name"
| "cell_Name (CDeliveryTrace c) = deliveryTrace_Name"
| "cell_Name (CBlackhole c) = blackhole_Name"

text \<open>Every cell of the program is payload-agnostic.\<close>

fun cell_RequiresCleartext :: "cell \<Rightarrow> bool" where
  "cell_RequiresCleartext (CBernoulli c) = False"
| "cell_RequiresCleartext (CGE c) = False"
| "cell_RequiresCleartext (CDelay c) = False"
| "cell_RequiresCleartext (CReorder c) = False"
| "cell_RequiresCleartext (CCorrupt c) = False"
| "cell_RequiresCleartext (CRateLimit c) = False"
| "cell_RequiresCleartext (CDropList c) = False"
| "cell_RequiresCleartext (CDeliveryTrace c) = False"
| "cell_RequiresCleartext (CBlackhole c) = False"

text \<open>Which packets the 64-bit arithmetic of a cell can take without wrapping. Only
  the reorderer and the rate limiter add to the delivery time without a floor.\<close>

fun cell_fits :: "cell \<Rightarrow> inflight \<Rightarrow> bool" where
  "cell_fits (CReorder c) f = reorder_fits c f"
| "cell_fits (CRateLimit c) f = ratelimit_fits c f"
| "cell_fits c f = True"

lemma lift_cell_simps [simp]: "fst (lift_cell con r) = con (fst r)" "snd (lift_cell con r) = snd r"
  by (simp_all add: lift_cell_def)

section \<open>The cells satisfy the engine's interface\<close>

lemma bernoulli_fanout: "length (snd (bernoulli_Process c f)) \<le> 1"
  by (simp add: bernoulli_Process_def split_beta)

lemma ge_fanout: "length (snd (ge_Process c f)) \<le> 1"
  by (simp add: ge_Process_def split_beta)

lemma dropList_fanout: "length (snd (dropList_Process c f)) \<le> 1"
  by (simp add: dropList_Process_def)

lemma blackhole_fanout: "length (snd (blackhole_Process c f)) \<le> 1"
  by (simp add: blackhole_Process_def)

lemmas cell_fanouts = bernoulli_fanout ge_fanout dropList_fanout blackhole_fanout
  deliveryTrace_fanout ratelimit_Process_fanout delay_Process_single corrupt_Process_single

lemma cell_Process_name: "cell_Name (fst (cell_Process pf c f)) = cell_Name c"
  by (cases c) auto

lemma cell_Process_meta: "g \<in> set (snd (cell_Process pf c f)) \<Longrightarrow> same_packet f g"
  by (cases c) (auto dest: cell_meta)

lemma cell_Process_fanout:
  "length (snd (cell_Process pf c f)) \<le> (case c of CReorder _ \<Rightarrow> 2 | _ \<Rightarrow> 1)"
proof (cases c)
  case (CReorder x)
  then show ?thesis using reorder_Process_fanout [of x f] by auto
qed (simp_all add: cell_fanouts [simplified])

lemma cell_Process_floor:
  assumes "cell_fits c f" "recv_at f \<le> deliver_at f" "g \<in> set (snd (cell_Process pf c f))"
  shows "recv_at g \<le> deliver_at g"
proof (cases c)
  case (CBernoulli x1)
  then show ?thesis using assms bernoulli_Process_meta [of g x1 f] by auto
next
  case (CGE x2)
  then show ?thesis using assms ge_Process_meta [of g x2 f] by auto
next
  case (CDelay x3)
  then show ?thesis using assms delay_Process_floor [of g pf x3 f] by auto
next
  case (CReorder x4)
  then show ?thesis using assms reorder_Process_floor [of x4 f g] by auto
next
  case (CCorrupt x5)
  then show ?thesis using assms corrupt_Process_meta [of g x5 f] by (auto simp: same_packet_def)
next
  case (CRateLimit x6)
  then show ?thesis using assms ratelimit_Process_floor [of x6 f g] by auto
next
  case (CDropList x7)
  then show ?thesis using assms dropList_Process_meta [of g x7 f] by auto
next
  case (CDeliveryTrace x8)
  then show ?thesis using assms deliveryTrace_floor [of g x8 f] by auto
next
  case (CBlackhole x9)
  then show ?thesis using assms blackhole_Process_meta [of g x9 f] by auto
qed

interpretation cells: cell_stage "cell_Process pf" cell_Name for pf
proof
  show "length (snd (cell_Process pf c f)) \<le> 2" for c f
    using cell_Process_fanout [of pf c f] by (auto split: cell.splits)
qed (auto simp: cell_Process_name cell_Process_meta)

interpretation timed: timed_cell "cell_Process pf" cell_Name cell_fits for pf
  by unfold_locales (rule cell_Process_floor)

section \<open>Who touches the payload\<close>

text \<open>Only the corrupter changes bytes; every other cell forwards the payload as it is.\<close>

lemma cell_Process_data:
  assumes "g \<in> set (snd (cell_Process pf c f))" "\<And>x. c \<noteq> CCorrupt x"
  shows "if_data g = if_data f"
  using assms by (cases c)
    (auto dest: bernoulli_Process_meta ge_Process_meta delay_Process_meta reorder_Process_meta
       ratelimit_Process_meta dropList_Process_meta deliveryTrace_outputs blackhole_Process_meta)

fun is_corrupt :: "cell \<Rightarrow> bool" where
  "is_corrupt (CCorrupt c) = True"
| "is_corrupt c = False"

lemma is_corrupt_Process [simp]: "is_corrupt (fst (cell_Process pf c f)) = is_corrupt c"
  by (cases c) auto

lemma run_cell_data:
  assumes "run_cell (cell_Process pf) cell_Name c fs = (c', nxt, acts)" "\<not> is_corrupt c"
    and "\<forall>f\<in>set fs. if_data f = d"
  shows "\<forall>g\<in>set nxt. if_data g = d"
  using assms
proof (induction fs arbitrary: c c' nxt acts)
  case (Cons f fs)
  let ?p = "cell_Process pf c f"
  obtain c2 n2 a2 where r: "run_cell (cell_Process pf) cell_Name (fst ?p) fs = (c2, n2, a2)"
    by (cases "run_cell (cell_Process pf) cell_Name (fst ?p) fs")
  have "\<forall>g\<in>set (snd ?p). if_data g = d"
    using cell_Process_data [of _ pf c f] Cons.prems(2,3) by fastforce
  then show ?case using Cons.prems Cons.IH [OF r] r by (auto simp: split_beta split: if_splits)
qed simp

lemma run_pipeline_data:
  assumes "run_pipeline (cell_Process pf) cell_Name cs cur = (cs', out, acts)"
    and "\<forall>c\<in>set cs. \<not> is_corrupt c" "\<forall>f\<in>set cur. if_data f = d"
  shows "\<forall>g\<in>set out. if_data g = d"
  using assms
proof (induction cs arbitrary: cur cs' out acts)
  case (Cons c cs)
  obtain c1 nxt a1 where r: "run_cell (cell_Process pf) cell_Name c cur = (c1, nxt, a1)"
    by (cases "run_cell (cell_Process pf) cell_Name c cur")
  obtain cs1 o1 a2 where q: "run_pipeline (cell_Process pf) cell_Name cs nxt = (cs1, o1, a2)"
    by (cases "run_pipeline (cell_Process pf) cell_Name cs nxt")
  have "\<forall>g\<in>set nxt. if_data g = d"
    using Cons.prems(2) by (intro run_cell_data [OF r _ Cons.prems(3)]) simp
  then show ?case using Cons.prems(1,2) Cons.IH [OF q] r q by simp
qed simp

section \<open>Runs of the engine\<close>

abbreviation Handle :: "platform \<Rightarrow> cell engine \<Rightarrow> packet \<Rightarrow> int64
    \<Rightarrow> (cell engine \<times> action list) option" where
  "Handle pf \<equiv> engine_Handle (cell_Process pf) cell_Name"

abbreviation run_engine :: "platform \<Rightarrow> cell engine \<Rightarrow> (packet \<times> int64) list
    \<Rightarrow> (cell engine \<times> action list list) option" where
  "run_engine pf \<equiv> engine_run (cell_Process pf) cell_Name"

text \<open>Duplication is bounded by the number of reorderers.\<close>

fun is_reorder :: "cell \<Rightarrow> bool" where
  "is_reorder (CReorder c) = True"
| "is_reorder c = False"

definition pipeline_fanout :: "cell list \<Rightarrow> nat" where
  "pipeline_fanout cs = 2 ^ length (filter is_reorder cs)"

lemma is_reorder_Process [simp]: "is_reorder (fst (cell_Process pf c f)) = is_reorder c"
  by (cases c) auto

lemma run_cell_outputs:
  "run_cell (cell_Process pf) cell_Name c fs = (c', nxt, acts) \<Longrightarrow>
    length nxt + length acts \<le> (if is_reorder c then 2 else 1) * length fs"
proof (induction fs arbitrary: c c' nxt acts)
  case (Cons f fs)
  let ?p = "cell_Process pf c f"
  obtain c2 n2 a2 where r: "run_cell (cell_Process pf) cell_Name (fst ?p) fs = (c2, n2, a2)"
    by (cases "run_cell (cell_Process pf) cell_Name (fst ?p) fs")
  have "length (snd ?p) \<le> (if is_reorder c then 2 else 1)"
    using cell_Process_fanout [of pf c f] by (cases c) auto
  then show ?case using Cons.prems Cons.IH [OF r] r by (auto simp: split_beta split: if_splits)
qed simp

lemma run_pipeline_outputs:
  "run_pipeline (cell_Process pf) cell_Name cs cur = (cs', out, acts) \<Longrightarrow>
    length out + length acts \<le> pipeline_fanout cs * length cur"
proof (induction cs arbitrary: cur cs' out acts)
  case (Cons c cs)
  let ?k = "if is_reorder c then 2 else 1 :: nat"
  obtain c1 nxt a1 where r: "run_cell (cell_Process pf) cell_Name c cur = (c1, nxt, a1)"
    by (cases "run_cell (cell_Process pf) cell_Name c cur")
  obtain cs1 o1 a2 where q: "run_pipeline (cell_Process pf) cell_Name cs nxt = (cs1, o1, a2)"
    by (cases "run_pipeline (cell_Process pf) cell_Name cs nxt")
  have one: "1 \<le> pipeline_fanout cs" by (simp add: pipeline_fanout_def)
  have "length o1 + length a2 + length a1
      \<le> pipeline_fanout cs * length nxt + pipeline_fanout cs * length a1"
    using Cons.IH [OF q] one by (intro add_mono) auto
  also have "\<dots> = pipeline_fanout cs * (length nxt + length a1)" by (simp add: distrib_left)
  also have "\<dots> \<le> pipeline_fanout cs * (?k * length cur)"
    using run_cell_outputs [OF r] by (intro mult_le_mono2)
  also have "\<dots> = pipeline_fanout (c # cs) * length cur" by (simp add: pipeline_fanout_def)
  finally show ?case using Cons.prems r q by auto
qed (simp add: pipeline_fanout_def)

lemma engine_Handle_None: "engine_Handle proc nm e p t = None \<longleftrightarrow> numDir \<le> pk_dir p"
  by (simp add: engine_Handle_def Let_def split_beta)

lemma engine_run_total:
  "engine_run proc nm e ps = None \<longleftrightarrow> (\<exists>(p, t)\<in>set ps. numDir \<le> pk_dir p)"
proof (induction ps arbitrary: e)
  case (Cons pt ps)
  obtain p t where pt: "pt = (p, t)" by force
  show ?case
  proof (cases "engine_Handle proc nm e p t")
    case None
    then show ?thesis using engine_Handle_None [of proc nm e p t] by (simp add: pt)
  next
    case (Some r)
    then have "\<not> numDir \<le> pk_dir p" using engine_Handle_None [of proc nm e p t] by simp
    then show ?thesis using Some Cons.IH [of "fst r"]
      by (auto simp: pt split_beta split: option.split)
  qed
qed simp

lemma engine_run_length:
  "engine_run proc nm e ps = Some (e', acts) \<Longrightarrow> length acts = length ps"
  by (induction ps arbitrary: e e' acts) (auto split: option.splits)

text \<open>Ingress numbers: packet \<open>i\<close> of a run is number \<open>i + 1\<close> after the engine's counter,
  whatever the cells do.\<close>

lemma engine_run_seq:
  assumes "run_engine pf e ps = Some (e', acts)"
  shows "eng_seq e' = eng_seq e + of_nat (length ps) \<and>
    (\<forall>i < length ps. acts ! i \<noteq> [] \<and>
       (\<forall>a \<in> set (acts ! i). act_seq a = eng_seq e + of_nat (i + 1) \<and>
          act_dir a = pk_dir (fst (ps ! i))))"
  using assms
proof (induction ps arbitrary: e e' acts)
  case (Cons pt ps)
  obtain p t where pt: "pt = (p, t)" by force
  from Cons.prems obtain e1 a as where h: "Handle pf e p t = Some (e1, a)"
    and rest: "run_engine pf e1 ps = Some (e', as)" and acts: "acts = a # as"
    by (auto simp: pt split: option.splits)
  have s: "eng_seq e1 = eng_seq e + 1"
    using h by (rule engine_Handle_Some) simp
  note m = cells.Handle_meta [OF h]
  have ne: "a \<noteq> []"
    using h by (rule engine_Handle_Some) (auto dest!: run_pipeline_progress)
  show ?case
    using Cons.IH [OF rest] m(1,2) ne by (auto simp: s acts pt nth_Cons split: nat.splits)
qed simp

section \<open>The two directions do not interfere\<close>

text \<open>What happens to the packets of one direction is what would happen if the packets of
  the other had never come, ingress numbers apart. The exception is the drop list, which
  reads the number the two directions share.\<close>

fun reads_seq :: "cell \<Rightarrow> bool" where
  "reads_seq (CDropList c) = True"
| "reads_seq c = False"

definition set_seq :: "uint64 \<Rightarrow> inflight \<Rightarrow> inflight" where
  "set_seq s f = f\<lparr>if_seq := s\<rparr>"

definition unnumbered :: "action \<Rightarrow> action" where
  "unnumbered a = a\<lparr>act_seq := 0\<rparr>"

lemma set_seq_simps [simp]:
  "if_seq (set_seq s f) = s" "if_dir (set_seq s f) = if_dir f" "if_data (set_seq s f) = if_data f"
  "recv_at (set_seq s f) = recv_at f" "deliver_at (set_seq s f) = deliver_at f"
  by (simp_all add: set_seq_def)

lemma unnumbered_set_seq [simp]:
  "unnumbered (drop_action r (set_seq s f)) = unnumbered (drop_action r f)"
  "unnumbered (forward_action (set_seq s f)) = unnumbered (forward_action f)"
  by (simp_all add: unnumbered_def drop_action_def forward_action_def)

lemma deliveryTrace_set_seq:
  "deliveryTrace_Process t (set_seq s f) =
    (fst (deliveryTrace_Process t f), map (set_seq s) (snd (deliveryTrace_Process t f)))"
proof -
  have [simp]: "start_trace t (set_seq s f) = start_trace t f" by (simp add: start_trace_def)
  have [simp]: "opps_needed t (set_seq s f) = opps_needed t f" by (simp add: opps_needed_def)
  have [simp]: "trace_arr t (set_seq s f) = trace_arr t f" by (simp add: trace_arr_def)
  have [simp]: "trace_last t (set_seq s f) = trace_last t f" by (simp add: trace_last_def)
  show ?thesis
    by (cases "oppTimeMs t (i64 (trace_last t f))")
      (simp_all add: deliveryTrace_Process_alt Let_def)
qed

lemma cell_Process_set_seq:
  assumes "\<not> reads_seq c"
  shows "cell_Process pf c (set_seq s f) =
    (fst (cell_Process pf c f), map (set_seq s) (snd (cell_Process pf c f)))"
proof (cases c)
  case (CBernoulli x)
  then show ?thesis by (simp add: bernoulli_Process_def lift_cell_def split_beta)
next
  case (CGE x)
  then show ?thesis by (simp add: ge_Process_def lift_cell_def split_beta)
next
  case (CDelay x)
  then show ?thesis by (simp add: delay_Process_def lift_cell_def split_beta Let_def set_seq_def)
next
  case (CReorder x)
  then show ?thesis by (simp add: reorder_Process_def lift_cell_def split_beta Let_def set_seq_def)
next
  case (CCorrupt x)
  then show ?thesis by (simp add: corrupt_Process_def lift_cell_def split_beta set_seq_def)
next
  case (CRateLimit x)
  then show ?thesis by (simp add: ratelimit_Process_def rl_backlog_def rl_serialize_def lift_cell_def split_beta Let_def set_seq_def)
next
  case (CDropList x)
  then show ?thesis using assms by simp
next
  case (CDeliveryTrace x)
  then show ?thesis by (simp add: deliveryTrace_set_seq lift_cell_def)
next
  case (CBlackhole x)
  then show ?thesis by (simp add: blackhole_Process_def lift_cell_def)
qed

lemma reads_seq_Process [simp]: "reads_seq (fst (cell_Process pf c f)) = reads_seq c"
  by (cases c) auto

lemma run_cell_set_seq:
  "\<not> reads_seq c \<Longrightarrow> run_cell (cell_Process pf) cell_Name c fs = (c', nxt, acts) \<Longrightarrow>
    \<exists>acts'. run_cell (cell_Process pf) cell_Name c (map (set_seq s) fs) = (c', map (set_seq s) nxt, acts')
      \<and> map unnumbered acts' = map unnumbered acts"
proof (induction fs arbitrary: c c' nxt acts)
  case (Cons f fs)
  let ?p = "cell_Process pf c f"
  obtain c2 n2 a2 where r: "run_cell (cell_Process pf) cell_Name (fst ?p) fs = (c2, n2, a2)"
    by (cases "run_cell (cell_Process pf) cell_Name (fst ?p) fs")
  obtain a2' where r': "run_cell (cell_Process pf) cell_Name (fst ?p) (map (set_seq s) fs)
      = (c2, map (set_seq s) n2, a2')" "map unnumbered a2' = map unnumbered a2"
    using Cons.IH [OF _ r] Cons.prems(1) by auto
  show ?case using Cons.prems r r'
    by (auto simp: split_beta cell_Process_set_seq split: if_splits)
qed simp

lemma run_pipeline_set_seq:
  "\<forall>c\<in>set cs. \<not> reads_seq c \<Longrightarrow> run_pipeline (cell_Process pf) cell_Name cs cur = (cs', out, acts) \<Longrightarrow>
    \<exists>acts'. run_pipeline (cell_Process pf) cell_Name cs (map (set_seq s) cur) =
        (cs', map (set_seq s) out, acts') \<and> map unnumbered acts' = map unnumbered acts"
proof (induction cs arbitrary: cur cs' out acts)
  case (Cons c cs)
  obtain c1 nxt a1 where r: "run_cell (cell_Process pf) cell_Name c cur = (c1, nxt, a1)"
    by (cases "run_cell (cell_Process pf) cell_Name c cur")
  obtain cs1 o1 a2 where q: "run_pipeline (cell_Process pf) cell_Name cs nxt = (cs1, o1, a2)"
    by (cases "run_pipeline (cell_Process pf) cell_Name cs nxt")
  obtain a1' where r': "run_cell (cell_Process pf) cell_Name c (map (set_seq s) cur)
      = (c1, map (set_seq s) nxt, a1')" "map unnumbered a1' = map unnumbered a1"
    using run_cell_set_seq [OF _ r] Cons.prems(1) by auto
  obtain a2' where q': "run_pipeline (cell_Process pf) cell_Name cs (map (set_seq s) nxt)
      = (cs1, map (set_seq s) o1, a2')" "map unnumbered a2' = map unnumbered a2"
    using Cons.IH [OF _ q] Cons.prems(1) by auto
  show ?case using Cons.prems(2) r q r' q' by auto
qed simp

lemma run_cell_reads_seq:
  "run_cell (cell_Process pf) cell_Name c fs = (c', nxt, acts) \<Longrightarrow> reads_seq c' = reads_seq c"
proof (induction fs arbitrary: c c' nxt acts)
  case (Cons f fs)
  let ?p = "cell_Process pf c f"
  obtain c2 n2 a2 where r: "run_cell (cell_Process pf) cell_Name (fst ?p) fs = (c2, n2, a2)"
    by (cases "run_cell (cell_Process pf) cell_Name (fst ?p) fs")
  then show ?case using Cons.prems Cons.IH [OF r] by (auto simp: split_beta split: if_splits)
qed simp

lemma run_pipeline_reads_seq:
  "run_pipeline (cell_Process pf) cell_Name cs cur = (cs', out, acts) \<Longrightarrow>
    map reads_seq cs' = map reads_seq cs"
  by (induction cs arbitrary: cur cs' out acts) (auto split: prod.splits dest: run_cell_reads_seq)

lemma no_reads_seq_map: "map reads_seq cs' = map reads_seq cs \<Longrightarrow>
  (\<forall>c\<in>set cs'. \<not> reads_seq c) = (\<forall>c\<in>set cs. \<not> reads_seq c)"
  by (metis (mono_tags, opaque_lifting) in_set_conv_nth length_map nth_map)

definition of_dir :: "direction \<Rightarrow> (packet \<times> int64) list \<Rightarrow> (packet \<times> int64) list" where
  "of_dir d ps = filter (\<lambda>pt. pk_dir (fst pt) = d) ps"

definition acts_of_dir :: "direction \<Rightarrow> (packet \<times> int64) list \<Rightarrow> action list list \<Rightarrow> action list list" where
  "acts_of_dir d ps as = map snd (filter (\<lambda>x. pk_dir (fst (fst x)) = d) (zip ps as))"

lemma engine_run_direction:
  assumes "run_engine pf e ps = Some (e', as)" "d < numDir"
    and "\<forall>c\<in>set (pipeline e d). \<not> reads_seq c" "pipeline e0 d = pipeline e d"
  shows "\<exists>e0' as0. run_engine pf e0 (of_dir d ps) = Some (e0', as0) \<and>
    map (map unnumbered) as0 = map (map unnumbered) (acts_of_dir d ps as) \<and>
    pipeline e0' d = pipeline e' d"
  using assms
proof (induction ps arbitrary: e e' as e0)
  case Nil
  then show ?case by (simp add: of_dir_def acts_of_dir_def)
next
  case (Cons pt ps)
  obtain p t where pt: "pt = (p, t)" by force
  from Cons.prems(1) obtain e1 a as' where h: "Handle pf e p t = Some (e1, a)"
    and rest: "run_engine pf e1 ps = Some (e', as')" and as: "as = a # as'"
    by (auto simp: pt split: option.splits)
  obtain cs out drops where dir: "pk_dir p < numDir"
    and r: "run_pipeline (cell_Process pf) cell_Name (pipeline e (pk_dir p))
        [ingress (eng_seq e + 1) p t] = (cs, out, drops)"
    and e1: "e1 = set_pipeline (e\<lparr>eng_seq := eng_seq e + 1\<rparr>) (pk_dir p) cs"
    and a: "a = drops @ map forward_action out"
    using h by (rule engine_Handle_Some)
  show ?case
  proof (cases "pk_dir p = d")
    case False
    then have "pipeline e1 d = pipeline e d"
      using e1 dir Cons.prems(2) by (simp add: pipeline_set_other)
    then show ?thesis
      using Cons.IH [OF rest Cons.prems(2), of e0] Cons.prems(3,4) False
      by (simp add: of_dir_def acts_of_dir_def pt as)
  next
    case True
    let ?s = "eng_seq e0 + 1"
    have ing: "ingress ?s p t = set_seq ?s (ingress (eng_seq e + 1) p t)"
      by (simp add: ingress_def set_seq_def)
    obtain drops' where r': "run_pipeline (cell_Process pf) cell_Name (pipeline e0 d) [ingress ?s p t]
        = (cs, map (set_seq ?s) out, drops')" "map unnumbered drops' = map unnumbered drops"
      using run_pipeline_set_seq [OF _ r, of ?s] Cons.prems(3,4) True ing by auto
    define e01 where "e01 = set_pipeline (e0\<lparr>eng_seq := ?s\<rparr>) d cs"
    have h0: "Handle pf e0 p t = Some (e01, drops' @ map forward_action (map (set_seq ?s) out))"
      using dir r'(1) True by (simp add: engine_Handle_def Let_def e01_def not_le)
    have p1: "pipeline e1 d = cs" "pipeline e01 d = cs" by (simp_all add: e1 e01_def True)
    have nr: "\<forall>c\<in>set cs. \<not> reads_seq c"
      using no_reads_seq_map [OF run_pipeline_reads_seq [OF r]] Cons.prems(3) True by simp
    obtain e0' as0 where ih: "run_engine pf e01 (of_dir d ps) = Some (e0', as0)"
      "map (map unnumbered) as0 = map (map unnumbered) (acts_of_dir d ps as')"
      "pipeline e0' d = pipeline e' d"
      using Cons.IH [OF rest Cons.prems(2), of e01] nr p1 by auto
    have "map unnumbered (drops' @ map forward_action (map (set_seq ?s) out)) = map unnumbered a"
      using r'(2) by (simp add: a comp_def)
    then show ?thesis using h0 ih True
      by (simp add: of_dir_def acts_of_dir_def pt as comp_def)
  qed
qed

end
