(* ===== verification/EgressHeap.thy ===== *)
theory EgressHeap
  imports Prelude "HOL-Library.Multiset" "HOL-Library.Product_Lexorder"
begin

text \<open>
  The binary heap under the egress queue of \<^verbatim>\<open>relaycore/relaycore.go\<close>:
  \<^verbatim>\<open>heap.Push\<close> and \<^verbatim>\<open>heap.Pop\<close> of Go's \<^verbatim>\<open>container/heap\<close> with the
  \<^verbatim>\<open>Less\<close>, \<^verbatim>\<open>Swap\<close>, \<^verbatim>\<open>Push\<close> and \<^verbatim>\<open>Pop\<close> the core gives them, on an array
  kept as a list. The locale \<open>priority_queue\<close> is the contract the core relies on (a
  priority queue over a multiset); theory \<open>RelayCore\<close> interprets it on the heap.
\<close>

section \<open>The library's sifting loops\<close>

definition swap :: "'a list \<Rightarrow> nat \<Rightarrow> nat \<Rightarrow> 'a list" where
  "swap h i j = h[i := h ! j, j := h ! i]"

function heap_up :: "('a \<Rightarrow> 'a \<Rightarrow> bool) \<Rightarrow> 'a list \<Rightarrow> nat \<Rightarrow> 'a list" where
  "heap_up lt h j = (let i = (j - 1) div 2 in
     if i = j \<or> \<not> lt (h ! j) (h ! i) then h else heap_up lt (swap h i j) i)"
  by pat_completeness auto
termination by (relation "measure (\<lambda>(lt, h, j). j)") auto

definition smaller_child :: "('a \<Rightarrow> 'a \<Rightarrow> bool) \<Rightarrow> 'a list \<Rightarrow> nat \<Rightarrow> nat \<Rightarrow> nat" where
  "smaller_child lt h i n = (let j1 = 2 * i + 1 in
     if j1 + 1 < n \<and> lt (h ! (j1 + 1)) (h ! j1) then j1 + 1 else j1)"

function heap_down :: "('a \<Rightarrow> 'a \<Rightarrow> bool) \<Rightarrow> 'a list \<Rightarrow> nat \<Rightarrow> nat \<Rightarrow> 'a list" where
  "heap_down lt h i n = (if 2 * i + 1 \<ge> n then h
     else let j = smaller_child lt h i n in
       if \<not> lt (h ! j) (h ! i) then h else heap_down lt (swap h i j) j n)"
  by pat_completeness auto
termination
  by (relation "measure (\<lambda>(lt, h, i, n). n - i)")
    (auto simp: smaller_child_def Let_def split: if_splits)

declare heap_up.simps [simp del] heap_down.simps [simp del]

definition heap_push :: "('a \<Rightarrow> 'a \<Rightarrow> bool) \<Rightarrow> 'a list \<Rightarrow> 'a \<Rightarrow> 'a list" where
  "heap_push lt h x = heap_up lt (h @ [x]) (length h)"

definition heap_pop :: "('a \<Rightarrow> 'a \<Rightarrow> bool) \<Rightarrow> 'a list \<Rightarrow> 'a \<times> 'a list" where
  "heap_pop lt h = (let n = length h - 1; h' = heap_down lt (swap h 0 n) 0 n
     in (last h', butlast h'))"

section \<open>Nothing is lost or invented\<close>

lemma length_swap [simp]: "length (swap h i j) = length h"
  by (simp add: swap_def)

lemma nth_swap:
  "i < length h \<Longrightarrow> j < length h \<Longrightarrow>
    swap h i j ! k = (if k = i then h ! j else if k = j then h ! i else h ! k)"
  unfolding swap_def by (rule nth_update_swap)

lemma mset_swap_pos [simp]: "i < length h \<Longrightarrow> j < length h \<Longrightarrow> mset (swap h i j) = mset h"
  by (simp add: swap_def mset_swap)

definition parent :: "nat \<Rightarrow> nat" where
  "parent i = (i - 1) div 2"

lemma parent_less: "0 < i \<Longrightarrow> parent i < i"
  by (auto simp: parent_def)

lemma heap_up_stop: "j = 0 \<or> \<not> lt (h ! j) (h ! parent j) \<Longrightarrow> heap_up lt h j = h"
  by (subst heap_up.simps) (auto simp: Let_def parent_def)

lemma heap_up_step:
  "0 < j \<Longrightarrow> lt (h ! j) (h ! parent j) \<Longrightarrow> heap_up lt h j = heap_up lt (swap h (parent j) j) (parent j)"
  by (subst heap_up.simps) (auto simp: Let_def parent_def)

lemma heap_down_stop:
  "n \<le> 2 * i + 1 \<or> \<not> lt (h ! smaller_child lt h i n) (h ! i) \<Longrightarrow> heap_down lt h i n = h"
  by (subst heap_down.simps) (auto simp: Let_def)

lemma heap_down_step:
  "2 * i + 1 < n \<Longrightarrow> lt (h ! smaller_child lt h i n) (h ! i) \<Longrightarrow> heap_down lt h i n =
    heap_down lt (swap h i (smaller_child lt h i n)) (smaller_child lt h i n) n"
  by (subst heap_down.simps) (auto simp: Let_def)

lemma smaller_child_bounds:
  "2 * i + 1 < n \<Longrightarrow> i < smaller_child lt h i n \<and> smaller_child lt h i n < n \<and>
    (smaller_child lt h i n - 1) div 2 = i"
  by (auto simp: smaller_child_def Let_def)

lemma heap_up_length_mset:
  "j < length h \<Longrightarrow> length (heap_up lt h j) = length h \<and> mset (heap_up lt h j) = mset h"
proof (induction j arbitrary: h rule: less_induct)
  case (less j)
  let ?i = "parent j"
  show ?case
  proof (cases "j = 0 \<or> \<not> lt (h ! j) (h ! ?i)")
    case True
    then show ?thesis by (simp add: heap_up_stop)
  next
    case False
    then show ?thesis using less.IH [of ?i "swap h ?i j"] less.prems parent_less [of j]
      by (simp add: heap_up_step)
  qed
qed

lemma heap_down_length_mset:
  "n \<le> length h \<Longrightarrow> length (heap_down lt h i n) = length h \<and> mset (heap_down lt h i n) = mset h \<and>
    (\<forall>k. n \<le> k \<longrightarrow> heap_down lt h i n ! k = h ! k)"
proof (induction "n - i" arbitrary: h i rule: less_induct)
  case less
  let ?j = "smaller_child lt h i n"
  show ?case
  proof (cases "n \<le> 2 * i + 1 \<or> \<not> lt (h ! ?j) (h ! i)")
    case True
    then show ?thesis by (simp add: heap_down_stop)
  next
    case False
    then have j: "i < ?j" "?j < n" using smaller_child_bounds [of i n lt h] by auto
    then show ?thesis using less.hyps [of ?j "swap h i ?j"] less.prems False
      by (auto simp: heap_down_step nth_swap)
  qed
qed

section \<open>Heap order\<close>

text \<open>\<open>key\<close> orders the elements and \<open>lt\<close> compares keys. \<open>heap_except\<close> allows one
  element, at \<open>j\<close>, to be out of place: below its parent for sifting up, above its
  children for sifting down.\<close>

definition is_heap :: "('a \<Rightarrow> 'k::linorder) \<Rightarrow> 'a list \<Rightarrow> nat \<Rightarrow> bool" where
  "is_heap key h n \<longleftrightarrow> (\<forall>i. 0 < i \<longrightarrow> i < n \<longrightarrow> key (h ! parent i) \<le> key (h ! i))"

lemma is_heap_min:
  assumes "is_heap key h n" "i < n"
  shows "key (h ! 0) \<le> key (h ! i)"
  using assms(2)
proof (induction i rule: less_induct)
  case (less i)
  show ?case
  proof (cases "i = 0")
    case False
    then have "key (h ! 0) \<le> key (h ! parent i)"
      using less.IH [of "parent i"] parent_less [of i] less.prems by simp
    also have "\<dots> \<le> key (h ! i)" using assms(1) False less.prems by (simp add: is_heap_def)
    finally show ?thesis .
  qed simp
qed

lemma heap_up_order:
  assumes "\<forall>a b. lt a b \<longleftrightarrow> key a < key b"
  shows "j < length h \<Longrightarrow>
    (\<forall>i. 0 < i \<longrightarrow> i < length h \<longrightarrow> i \<noteq> j \<longrightarrow> key (h ! parent i) \<le> key (h ! i)) \<Longrightarrow>
    (\<forall>i. 0 < j \<longrightarrow> 0 < i \<longrightarrow> i < length h \<longrightarrow> parent i = j \<longrightarrow> key (h ! parent j) \<le> key (h ! i)) \<Longrightarrow>
    is_heap key (heap_up lt h j) (length h)"
proof (induction j arbitrary: h rule: less_induct)
  case (less j)
  show ?case
  proof (cases "j = 0 \<or> \<not> lt (h ! j) (h ! parent j)")
    case True
    have "key (h ! parent i) \<le> key (h ! i)" if "0 < i" "i < length h" for i
      using less.prems(2) that True assms by (cases "i = j") (auto simp: not_less)
    moreover have "heap_up lt h j = h" using True by (simp add: heap_up_stop)
    ultimately show ?thesis by (simp add: is_heap_def)
  next
    case False
    let ?i = "parent j" and ?h = "swap h (parent j) j"
    have j: "0 < j" "?i < j" "key (h ! j) < key (h ! ?i)" using False parent_less assms by auto
    have nth: "?h ! k = (if k = ?i then h ! j else if k = j then h ! ?i else h ! k)" for k
      using j less.prems(1) by (simp add: nth_swap)
    have pk: "k \<noteq> 0 \<Longrightarrow> parent k \<noteq> k" for k using parent_less [of k] by auto
    have a: "\<forall>k. 0 < k \<longrightarrow> k < length ?h \<longrightarrow> k \<noteq> ?i \<longrightarrow> key (?h ! parent k) \<le> key (?h ! k)"
    proof (intro allI impI)
      fix k assume k: "0 < k" "k < length ?h" "k \<noteq> ?i"
      consider (self) "k = j" | (child) "k \<noteq> j" "parent k = j"
        | (sibling) "k \<noteq> j" "parent k = ?i" | (far) "k \<noteq> j" "parent k \<noteq> j" "parent k \<noteq> ?i" by blast
      then show "key (?h ! parent k) \<le> key (?h ! k)"
      proof cases
        case self
        then show ?thesis using j by (simp add: nth)
      next
        case child
        then show ?thesis using less.prems(3) [rule_format, of k] k j by (simp add: nth)
      next
        case sibling
        then have "key (h ! ?i) \<le> key (h ! k)" using less.prems(2) [rule_format, of k] k by simp
        then show ?thesis using sibling k j by (simp add: nth)
      next
        case far
        then show ?thesis using less.prems(2) [rule_format, of k] k by (simp add: nth)
      qed
    qed
    have b: "\<forall>k. 0 < ?i \<longrightarrow> 0 < k \<longrightarrow> k < length ?h \<longrightarrow> parent k = ?i \<longrightarrow> key (?h ! parent ?i) \<le> key (?h ! k)"
    proof (intro allI impI)
      fix k assume k: "0 < ?i" "0 < k" "k < length ?h" "parent k = ?i"
      have up: "key (h ! parent ?i) \<le> key (h ! ?i)" using less.prems(2) [rule_format, of ?i] less.prems(1) k(1) j by simp
      have "parent ?i \<noteq> ?i" "parent ?i \<noteq> j" using parent_less [OF k(1)] j by auto
      then have g: "?h ! parent ?i = h ! parent ?i" by (simp add: nth)
      show "key (?h ! parent ?i) \<le> key (?h ! k)"
      proof (cases "k = j")
        case True
        then show ?thesis using up g nth [of j] j by simp
      next
        case False
        then have "key (h ! ?i) \<le> key (h ! k)" using less.prems(2) [rule_format, of k] k by simp
        then show ?thesis using up g nth [of k] False k pk [of k] by simp
      qed
    qed
    have "is_heap key (heap_up lt ?h ?i) (length ?h)"
      using j less.prems(1) a b by (intro less.IH) simp_all
    then show ?thesis using False by (simp add: heap_up_step)
  qed
qed

lemma heap_down_order:
  assumes "\<forall>a b. lt a b \<longleftrightarrow> key a < key b"
  shows "n \<le> length h \<Longrightarrow> i < n \<Longrightarrow>
    (\<forall>k. 0 < k \<longrightarrow> k < n \<longrightarrow> parent k \<noteq> i \<longrightarrow> key (h ! parent k) \<le> key (h ! k)) \<Longrightarrow>
    (\<forall>k. 0 < i \<longrightarrow> 0 < k \<longrightarrow> k < n \<longrightarrow> parent k = i \<longrightarrow> key (h ! parent i) \<le> key (h ! k)) \<Longrightarrow>
    is_heap key (heap_down lt h i n) n"
proof (induction "n - i" arbitrary: h i rule: less_induct)
  case less
  let ?j = "smaller_child lt h i n"
  have kids: "k = 2 * i + 1 \<or> k = 2 * i + 2" if "0 < k" "parent k = i" for k
    using that by (auto simp: parent_def)
  show ?case
  proof (cases "n \<le> 2 * i + 1 \<or> \<not> lt (h ! ?j) (h ! i)")
    case True
    have "key (h ! parent k) \<le> key (h ! k)" if k: "0 < k" "k < n" for k
    proof (cases "parent k = i")
      case parent: True
      then have "2 * i + 1 < n" using kids [OF k(1)] k(2) by auto
      then have "\<not> key (h ! ?j) < key (h ! i)" using True assms by auto
      moreover have "key (h ! ?j) \<le> key (h ! k)"
        using kids [OF k(1) parent] k(2) assms by (auto simp: smaller_child_def Let_def)
      ultimately show ?thesis using parent by simp
    qed (use less.prems(3) k in simp)
    moreover have "heap_down lt h i n = h" using True by (rule heap_down_stop)
    ultimately show ?thesis by (simp add: is_heap_def)
  next
    case False
    let ?h = "swap h i ?j"
    have j: "i < ?j" "?j < n" "parent ?j = i" "key (h ! ?j) < key (h ! i)"
      using smaller_child_bounds [of i n lt h] False assms by (auto simp: parent_def)
    have nth: "?h ! k = (if k = i then h ! ?j else if k = ?j then h ! i else h ! k)" for k
      using j less.prems(1,2) by (simp add: nth_swap)
    have a: "\<forall>k. 0 < k \<longrightarrow> k < n \<longrightarrow> parent k \<noteq> ?j \<longrightarrow> key (?h ! parent k) \<le> key (?h ! k)"
    proof (intro allI impI)
      fix k assume k: "0 < k" "k < n" "parent k \<noteq> ?j"
      consider (self) "k = ?j" | (up) "k = i" | (child) "k \<noteq> ?j" "parent k = i"
        | (far) "k \<noteq> ?j" "k \<noteq> i" "parent k \<noteq> i" by blast
      then show "key (?h ! parent k) \<le> key (?h ! k)"
      proof cases
        case self
        then show ?thesis using j nth [of i] nth [of ?j] by simp
      next
        case up
        then have "parent k \<noteq> i" using parent_less [OF k(1)] by auto
        then have "?h ! parent k = h ! parent i" using k(3) up nth [of "parent k"] by simp
        moreover have "key (h ! parent i) \<le> key (h ! ?j)"
          using less.prems(4) [rule_format, of ?j] k(1) up j by simp
        ultimately show ?thesis using up nth [of i] by simp
      next
        case child
        have "key (h ! ?j) \<le> key (h ! k)"
          using kids [OF k(1) child(2)] k(2) assms by (auto simp: smaller_child_def Let_def)
        moreover have "k \<noteq> i" using child(2) parent_less [OF k(1)] by auto
        ultimately show ?thesis using child nth [of i] nth [of k] by simp
      next
        case far
        then show ?thesis
          using less.prems(3) [rule_format, of k] k nth [of k] nth [of "parent k"] by simp
      qed
    qed
    have b: "\<forall>k. 0 < ?j \<longrightarrow> 0 < k \<longrightarrow> k < n \<longrightarrow> parent k = ?j \<longrightarrow> key (?h ! parent ?j) \<le> key (?h ! k)"
    proof (intro allI impI)
      fix k assume k: "0 < k" "k < n" "parent k = ?j"
      then have "?j < k" using parent_less [OF k(1)] by simp
      then have "?h ! k = h ! k" "?h ! parent ?j = h ! ?j" using nth [of k] nth [of i] j by simp_all
      then show "key (?h ! parent ?j) \<le> key (?h ! k)"
        using less.prems(3) [rule_format, of k] k j by simp
    qed
    have "is_heap key (heap_down lt ?h ?j n) n"
      using j less.prems(1) by (intro less.hyps a b) simp_all
    then show ?thesis using False by (simp add: heap_down_step)
  qed
qed

lemma is_heap_push:
  assumes "\<forall>a b. lt a b \<longleftrightarrow> key a < key b" "is_heap key h (length h)"
  shows "is_heap key (heap_push lt h x) (length (heap_push lt h x))"
    "mset (heap_push lt h x) = add_mset x (mset h)" "length (heap_push lt h x) = Suc (length h)"
proof -
  have l: "length (heap_push lt h x) = Suc (length h)"
    "mset (heap_push lt h x) = add_mset x (mset h)"
    using heap_up_length_mset [of "length h" "h @ [x]" lt] by (simp_all add: heap_push_def)
  then show "length (heap_push lt h x) = Suc (length h)"
    "mset (heap_push lt h x) = add_mset x (mset h)" by auto
  have p: "parent i < length h" if "0 < i" "i < Suc (length h)" for i
    using parent_less [of i] that by simp
  have "is_heap key (heap_up lt (h @ [x]) (length h)) (length (h @ [x]))"
  proof (rule heap_up_order [OF assms(1)])
    show "\<forall>i. 0 < i \<longrightarrow> i < length (h @ [x]) \<longrightarrow> i \<noteq> length h \<longrightarrow>
        key ((h @ [x]) ! parent i) \<le> key ((h @ [x]) ! i)"
      using assms(2) p by (auto simp: is_heap_def nth_append)
    show "\<forall>i. 0 < length h \<longrightarrow> 0 < i \<longrightarrow> i < length (h @ [x]) \<longrightarrow> parent i = length h \<longrightarrow>
        key ((h @ [x]) ! parent (length h)) \<le> key ((h @ [x]) ! i)"
    proof (intro allI impI)
      fix i assume "0 < i" "i < length (h @ [x])" "parent i = length h"
      then show "key ((h @ [x]) ! parent (length h)) \<le> key ((h @ [x]) ! i)" using p [of i] by simp
    qed
  qed simp
  then show "is_heap key (heap_push lt h x) (length (heap_push lt h x))"
    by (simp add: heap_push_def l(1) [unfolded heap_push_def])
qed

lemma is_heap_pop:
  assumes "\<forall>a b. lt a b \<longleftrightarrow> key a < key b" "is_heap key h (length h)" "h \<noteq> []"
  shows "fst (heap_pop lt h) = h ! 0"
    "is_heap key (snd (heap_pop lt h)) (length (snd (heap_pop lt h)))"
    "mset h = add_mset (fst (heap_pop lt h)) (mset (snd (heap_pop lt h)))"
proof -
  let ?n = "length h - 1"
  let ?s = "swap h 0 ?n"
  let ?d = "heap_down lt ?s 0 ?n"
  have n: "?n < length h" using assms(3) by simp
  have d: "length ?d = length h" "mset ?d = mset h" "?d ! ?n = ?s ! ?n"
    using heap_down_length_mset [of ?n ?s lt 0] n assms(3) by simp_all
  then have ne: "?d \<noteq> []" using assms(3) by (metis length_0_conv)
  have last: "last ?d = h ! 0"
    using d n ne assms(3) by (simp add: last_conv_nth nth_swap)
  then show "fst (heap_pop lt h) = h ! 0" by (simp add: heap_pop_def Let_def)
  have "mset h = mset (butlast ?d @ [last ?d])" using d(2) ne by simp
  then show "mset h = add_mset (fst (heap_pop lt h)) (mset (snd (heap_pop lt h)))"
    by (simp add: heap_pop_def Let_def)
  have "is_heap key ?d ?n"
  proof (cases "?n = 0")
    case False
    show ?thesis
    proof (rule heap_down_order [OF assms(1)])
      show "\<forall>k. 0 < k \<longrightarrow> k < ?n \<longrightarrow> parent k \<noteq> 0 \<longrightarrow> key (?s ! parent k) \<le> key (?s ! k)"
      proof (intro allI impI)
        fix k assume k: "0 < k" "k < ?n" "parent k \<noteq> 0"
        then have "parent k < ?n" using parent_less [OF k(1)] by simp
        then show "key (?s ! parent k) \<le> key (?s ! k)"
          using assms(2,3) k n by (simp add: nth_swap is_heap_def)
      qed
    qed (use False n in simp_all)
  qed (simp add: is_heap_def)
  moreover have "butlast ?d ! k = ?d ! k" if "k < ?n" for k
    using that d(1) by (simp add: nth_butlast)
  moreover have "parent k < ?n" if "0 < k" "k < ?n" for k using parent_less [OF that(1)] that(2) by simp
  ultimately have "is_heap key (butlast ?d) ?n" by (simp add: is_heap_def)
  then show "is_heap key (snd (heap_pop lt h)) (length (snd (heap_pop lt h)))"
    unfolding heap_pop_def Let_def snd_conv length_butlast d(1) .
qed

section \<open>The contract of the queue\<close>

locale priority_queue =
  fixes push :: "'q \<Rightarrow> 'a \<Rightarrow> 'q" and pop :: "'q \<Rightarrow> 'a \<times> 'q" and head :: "'q \<Rightarrow> 'a"
    and items :: "'q \<Rightarrow> 'a multiset" and ok :: "'q \<Rightarrow> bool" and key :: "'a \<Rightarrow> 'k::linorder"
  assumes push_ok: "ok q \<Longrightarrow> ok (push q x)"
    and push_items: "ok q \<Longrightarrow> items (push q x) = add_mset x (items q)"
    and pop_ok: "ok q \<Longrightarrow> items q \<noteq> {#} \<Longrightarrow> ok (snd (pop q))"
    and pop_items: "ok q \<Longrightarrow> items q \<noteq> {#} \<Longrightarrow> items q = add_mset (fst (pop q)) (items (snd (pop q)))"
    and pop_head: "ok q \<Longrightarrow> items q \<noteq> {#} \<Longrightarrow> fst (pop q) = head q"
    and head_least: "ok q \<Longrightarrow> y \<in># items q \<Longrightarrow> key (head q) \<le> key y"
begin

lemma head_in: "ok q \<Longrightarrow> items q \<noteq> {#} \<Longrightarrow> head q \<in># items q"
  using pop_items [of q] pop_head [of q] by (metis union_single_eq_member)

lemma push_head:
  assumes "ok q"
  shows "key (head (push q x)) \<le> key x" "y \<in># items q \<Longrightarrow> key (head (push q x)) \<le> key y"
    "head (push q x) = x \<or> head (push q x) \<in># items q"
proof -
  have i: "items (push q x) = add_mset x (items q)" using push_items [OF assms] .
  show "key (head (push q x)) \<le> key x" "y \<in># items q \<Longrightarrow> key (head (push q x)) \<le> key y"
    by (rule head_least [OF push_ok [OF assms]], simp add: i)+
  show "head (push q x) = x \<or> head (push q x) \<in># items q"
    using head_in [OF push_ok [OF assms], of x] by (simp add: i)
qed

text \<open>Popping \<open>n\<close> times.\<close>

primrec pops :: "nat \<Rightarrow> 'q \<Rightarrow> 'a list" where
  "pops 0 q = []"
| "pops (Suc n) q = fst (pop q) # pops n (snd (pop q))"

lemma pops_spec:
  "ok q \<Longrightarrow> n \<le> size (items q) \<Longrightarrow>
    sorted (map key (pops n q)) \<and> mset (pops n q) \<subseteq># items q \<and> length (pops n q) = n"
proof (induction n arbitrary: q)
  case (Suc n)
  let ?q = "snd (pop q)"
  have ne: "items q \<noteq> {#}" using Suc.prems(2) by auto
  note i = pop_items [OF Suc.prems(1) ne]
  have "size (items q) = Suc (size (items ?q))" by (subst i) simp
  then have ih: "sorted (map key (pops n ?q))" "mset (pops n ?q) \<subseteq># items ?q" "length (pops n ?q) = n"
    using Suc.IH [OF pop_ok [OF Suc.prems(1) ne]] Suc.prems(2) by auto
  have "key (fst (pop q)) \<le> key y" if "y \<in> set (pops n ?q)" for y
  proof -
    have "y \<in># items ?q" using that ih(2) by (metis mset_subset_eqD set_mset_mset)
    then have "y \<in># items q" by (subst i) simp
    then show ?thesis
      using head_least [OF Suc.prems(1)] pop_head [OF Suc.prems(1) ne] by simp
  qed
  moreover have "add_mset (fst (pop q)) (mset (pops n ?q)) \<subseteq># items q" by (subst i) (simp add: ih)
  ultimately show ?case using ih by simp
qed simp

lemma pops_all:
  assumes "ok q"
  shows "sorted (map key (pops (size (items q)) q)) \<and> mset (pops (size (items q)) q) = items q"
proof -
  let ?ps = "pops (size (items q)) q"
  note p = pops_spec [OF assms order.refl]
  then obtain rest where rest: "items q = mset ?ps + rest" by (auto simp: mset_subset_eq_exists_conv)
  have "size rest = 0" using arg_cong [OF rest, of size] p by simp
  then show ?thesis using rest p by simp
qed

end

end
