(* ===== verification/Ledger.thy ===== *)
theory Ledger
  imports Engine GoFloat
begin

text \<open>
  \<^verbatim>\<open>relaycore/ledger.go\<close>: the bounded ring of one-way-delay records and the pure
  decomposition of a snapshot.

  The ring is refined to a plain log: \<open>ledger_rel\<close> relates a ring to the list of all
  records ever started, a handle is the number of its record in disguise, and the
  snapshot is the end of the log (\<open>ledger_snapshot_log\<close>). An index the source would
  panic on is the result \<open>None\<close> of \<open>ledger_finalize\<close>.
\<close>

section \<open>The ring\<close>

record entry =
  en_seq :: uint64
  en_dir :: direction
  en_recv :: int64
  en_deliver :: int64
  en_egress :: int64

record ledger =
  lg_buf :: "entry list"
  lg_gen :: "uint64 list"
  lg_next :: int64
  lg_count :: int64

record handle =
  h_slot :: int64
  h_gen :: uint64

definition noHandle :: handle where
  "noHandle = \<lparr>h_slot = - 1, h_gen = 0\<rparr>"

definition zero_entry :: entry where
  "zero_entry = \<lparr>en_seq = 0, en_dir = 0, en_recv = 0, en_deliver = 0, en_egress = 0\<rparr>"

definition newLedger :: "int64 \<Rightarrow> ledger" where
  "newLedger capacity = (let c = nat (if capacity < 1 then 1 else capacity) in
     \<lparr>lg_buf = replicate c zero_entry, lg_gen = replicate c 0, lg_next = 0, lg_count = 0\<rparr>)"

definition ledger_start :: "ledger \<Rightarrow> uint64 \<Rightarrow> direction \<Rightarrow> int64 \<Rightarrow> int64 \<Rightarrow> handle \<times> ledger" where
  "ledger_start l sq dir recvAt deliverAt =
     (let slot = lg_next l;
          g = lg_gen l ! nat slot + 1;
          e = \<lparr>en_seq = sq, en_dir = dir, en_recv = recvAt, en_deliver = deliverAt, en_egress = 0\<rparr>
      in (\<lparr>h_slot = slot, h_gen = g\<rparr>,
          l\<lparr>lg_gen := (lg_gen l)[nat slot := g], lg_buf := (lg_buf l)[nat slot := e],
            lg_next := go_mod (i64 (slot + 1)) (int (length (lg_buf l))),
            lg_count := i64 (lg_count l + 1)\<rparr>))"

definition ledger_finalize :: "ledger \<Rightarrow> handle \<Rightarrow> int64 \<Rightarrow> ledger option" where
  "ledger_finalize l h egressAt =
     (if h_slot h < 0 then Some l
      else if int (length (lg_gen l)) \<le> h_slot h then None
      else if lg_gen l ! nat (h_slot h) = h_gen h
      then Some (l\<lparr>lg_buf := (lg_buf l)[nat (h_slot h) := (lg_buf l ! nat (h_slot h))\<lparr>en_egress := egressAt\<rparr>]\<rparr>)
      else Some l)"

definition ledger_snapshot :: "ledger \<Rightarrow> entry list" where
  "ledger_snapshot l =
     (let len = int (length (lg_buf l));
          n = (if lg_count l > len then len else lg_count l)
      in if lg_count l \<le> len then take (nat n) (lg_buf l)
         else map (\<lambda>i. lg_buf l ! nat (go_mod (i64 (lg_next l + int i)) len)) [0..<nat n])"

section \<open>Refinement to a log\<close>

text \<open>How often slot \<open>s\<close> of a ring of \<open>cap\<close> slots has been used after \<open>n\<close> records.\<close>

definition slot_uses :: "nat \<Rightarrow> nat \<Rightarrow> nat \<Rightarrow> nat" where
  "slot_uses cap n s = (n + (cap - 1 - s)) div cap"

definition handle_of :: "nat \<Rightarrow> nat \<Rightarrow> handle" where
  "handle_of cap i = \<lparr>h_slot = int (i mod cap), h_gen = of_nat (i div cap + 1)\<rparr>"

definition ledger_rel :: "nat \<Rightarrow> ledger \<Rightarrow> entry list \<Rightarrow> bool" where
  "ledger_rel cap l hist \<longleftrightarrow> 0 < cap \<and> length (lg_buf l) = cap \<and> length (lg_gen l) = cap \<and>
     cap < 2 ^ 62 \<and> length hist < 2 ^ 62 \<and>
     lg_count l = int (length hist) \<and> lg_next l = int (length hist mod cap) \<and>
     (\<forall>s<cap. lg_gen l ! s = of_nat (slot_uses cap (length hist) s)) \<and>
     (\<forall>i<length hist. length hist \<le> i + cap \<longrightarrow> lg_buf l ! (i mod cap) = hist ! i)"

lemma slot_uses_0: "s < cap \<Longrightarrow> slot_uses cap 0 s = 0"
  by (simp add: slot_uses_def)

lemma slot_uses_Suc:
  assumes "s < cap"
  shows "slot_uses cap (Suc n) s = slot_uses cap n s + (if n mod cap = s then 1 else 0)"
proof -
  obtain q r where n: "n = q * cap + r" "r < cap" "r = n mod cap"
    using assms by (metis div_mult_mod_eq mod_less_divisor gr_zeroI not_less_zero)
  have "Suc (n + (cap - 1 - s)) = q * cap + (r + (cap - s))" using assms n(1) by simp
  then have "Suc (n + (cap - 1 - s)) mod cap = (r + (cap - s)) mod cap" by simp
  moreover have "(r + (cap - s)) mod cap = 0 \<longleftrightarrow> r = s"
  proof (cases "r < s")
    case True
    then show ?thesis using assms n(2) by simp
  next
    case False
    then have "r + (cap - s) = (r - s) + cap" using assms by simp
    moreover have "(r - s + cap) mod cap = r - s" using n(2) by simp
    ultimately have "(r + (cap - s)) mod cap = r - s" by presburger
    then show ?thesis using False by simp
  qed
  ultimately show ?thesis using n(3) by (simp add: slot_uses_def div_Suc)
qed

lemma slot_uses_live:
  assumes "0 < cap" "i < n"
  shows "n \<le> i + cap \<Longrightarrow> slot_uses cap n (i mod cap) = i div cap + 1"
    and "i + cap < n \<Longrightarrow> i div cap + 1 < slot_uses cap n (i mod cap)"
proof -
  obtain q r where i: "i = q * cap + r" "r < cap" "r = i mod cap" "q = i div cap"
    using assms(1) by (metis div_mult_mod_eq mod_less_divisor)
  show "slot_uses cap n (i mod cap) = i div cap + 1" if le: "n \<le> i + cap"
  proof -
    have "(q + 1) * cap \<le> n + (cap - 1 - r)" "n + (cap - 1 - r) < (q + 1) * cap + cap"
      using i(1,2) le assms(2) by simp_all
    then show ?thesis
      unfolding slot_uses_def i(3,4) [symmetric] by (intro div_nat_eqI) (simp_all add: ac_simps)
  qed
  show "i div cap + 1 < slot_uses cap n (i mod cap)" if lt: "i + cap < n"
  proof -
    have "(q + 2) * cap \<le> n + (cap - 1 - r)" using i(1,2) lt by simp
    then have "q + 2 \<le> slot_uses cap n r"
      unfolding slot_uses_def using assms(1) by (simp add: less_eq_div_iff_mult_less_eq)
    then show ?thesis using i(3,4) by simp
  qed
qed

lemma slot_uses_bound: "0 < cap \<Longrightarrow> slot_uses cap n s \<le> n + cap"
  unfolding slot_uses_def by (meson add_left_mono diff_le_self div_le_dividend le_trans)

lemma ledger_rel_new:
  assumes "capacity < 2 ^ 62"
  shows "ledger_rel (nat (max 1 capacity)) (newLedger capacity) []"
  using assms
  by (auto simp: ledger_rel_def newLedger_def Let_def slot_uses_0 max_def nat_less_iff)

lemma ring_index:
  assumes "k < cap" "i \<le> cap" "cap < 2 ^ 62"
  shows "go_mod (i64 (int k + int i)) (int cap) = int ((k + i) mod cap)"
  using assms by (simp add: i64_id in64_def go_mod_nonneg zmod_int)

lemma ledger_rel_start:
  assumes "ledger_rel cap l hist" "length hist + 1 < 2 ^ 62"
  shows "fst (ledger_start l sq dir recvAt deliverAt) = handle_of cap (length hist)"
    and "ledger_rel cap (snd (ledger_start l sq dir recvAt deliverAt))
      (hist @ [\<lparr>en_seq = sq, en_dir = dir, en_recv = recvAt, en_deliver = deliverAt, en_egress = 0\<rparr>])"
proof -
  let ?n = "length hist" and ?s = "length hist mod cap"
  have r: "0 < cap" "length (lg_buf l) = cap" "length (lg_gen l) = cap" "cap < 2 ^ 62"
    "lg_count l = int ?n" "lg_next l = int ?s"
    "\<And>s. s < cap \<Longrightarrow> lg_gen l ! s = of_nat (slot_uses cap ?n s)"
    "\<And>i. i < ?n \<Longrightarrow> ?n \<le> i + cap \<Longrightarrow> lg_buf l ! (i mod cap) = hist ! i"
    using assms(1) by (auto simp: ledger_rel_def)
  have s: "?s < cap" using r(1) by simp
  have use: "slot_uses cap (Suc ?n) ?s = ?n div cap + 1"
    using slot_uses_live(1) [of cap ?n "Suc ?n"] r(1) by simp
  then have g: "lg_gen l ! ?s + 1 = of_nat (?n div cap + 1)"
    using r(7) [OF s] slot_uses_Suc [OF s, of ?n] by simp
  have nxt: "go_mod (i64 (int ?s + 1)) (int cap) = int (Suc ?n mod cap)"
    using ring_index [OF s, of 1] r(1,4) by (simp add: mod_simps)
  have count: "i64 (int ?n + 1) = int (Suc ?n)" using assms(2) by (simp add: i64_id in64_def)
  show "fst (ledger_start l sq dir recvAt deliverAt) = handle_of cap (length hist)"
    using g by (simp add: ledger_start_def Let_def handle_of_def r)
  have old: "lg_buf l ! (i mod cap) = hist ! i" "i mod cap \<noteq> ?s" if "i < ?n" "Suc ?n \<le> i + cap" for i
  proof -
    show "lg_buf l ! (i mod cap) = hist ! i" using r(8) that by simp
    show "i mod cap \<noteq> ?s"
    proof
      assume "i mod cap = ?s"
      from this [symmetric] have "cap dvd ?n - i" using that by (simp add: mod_eq_dvd_iff_nat)
      moreover have "0 < ?n - i" "?n - i < cap" using that by auto
      ultimately show False by (auto dest: dvd_imp_le)
    qed
  qed
  let ?e = "\<lparr>en_seq = sq, en_dir = dir, en_recv = recvAt, en_deliver = deliverAt, en_egress = 0\<rparr>"
  have buf: "(lg_buf l)[?s := ?e] ! (i mod cap) = (hist @ [?e]) ! i" if "i < Suc ?n" "Suc ?n \<le> i + cap" for i
  proof (cases "i = ?n")
    case False
    then have i: "i < ?n" using that(1) by simp
    show ?thesis using old [OF i that(2)] i by (simp add: nth_append)
  qed (use s r(2) in simp)
  have gen: "(lg_gen l)[?s := lg_gen l ! ?s + 1] ! k = of_nat (slot_uses cap (Suc ?n) k)" if "k < cap" for k
    using r(7) [OF that] slot_uses_Suc [OF that, of ?n] that r(3) by (auto simp: nth_list_update)
  show "ledger_rel cap (snd (ledger_start l sq dir recvAt deliverAt)) (hist @ [?e])"
    unfolding ledger_rel_def
    using r(1-6) nxt count assms(2) buf gen
    by (simp add: ledger_start_def Let_def)
qed

lemma handle_of_fresh:
  assumes "0 < cap" "cap < 2 ^ 62" "n < 2 ^ 62" "i < n"
  shows "(of_nat (slot_uses cap n (i mod cap)) :: uint64) = of_nat (i div cap + 1) \<longleftrightarrow> n \<le> i + cap"
proof -
  have "i div cap < 2 ^ 62" using assms(3,4) by (meson div_le_dividend le_less_trans less_trans)
  then have b: "slot_uses cap n (i mod cap) < 2 ^ 64" "i div cap + 1 < 2 ^ 64"
    using slot_uses_bound [OF assms(1), of n "i mod cap"] assms(2,3) by simp_all
  have "(of_nat (slot_uses cap n (i mod cap)) :: uint64) = of_nat (i div cap + 1) \<longleftrightarrow>
      slot_uses cap n (i mod cap) = i div cap + 1"
    unfolding word_of_nat_eq_iff using b by (simp add: take_bit_nat_eq_self del: of_nat_Suc)
  then show ?thesis using slot_uses_live [OF assms(1,4)] by (metis less_irrefl not_le)
qed

lemma ledger_rel_finalize:
  assumes "ledger_rel cap l hist" "i < length hist"
  obtains l' where "ledger_finalize l (handle_of cap i) t = Some l'"
    "ledger_rel cap l' (hist[i := (hist ! i)\<lparr>en_egress := t\<rparr>])"
proof -
  let ?n = "length hist" and ?s = "i mod cap"
  have r: "0 < cap" "length (lg_buf l) = cap" "length (lg_gen l) = cap" "cap < 2 ^ 62" "?n < 2 ^ 62"
    "\<And>s. s < cap \<Longrightarrow> lg_gen l ! s = of_nat (slot_uses cap ?n s)"
    "\<And>i. i < ?n \<Longrightarrow> ?n \<le> i + cap \<Longrightarrow> lg_buf l ! (i mod cap) = hist ! i"
    using assms(1) by (auto simp: ledger_rel_def)
  have s: "?s < cap" using r(1) by simp
  have fresh: "lg_gen l ! ?s = of_nat (i div cap + 1) \<longleftrightarrow> ?n \<le> i + cap"
    using handle_of_fresh [OF r(1,4,5) assms(2)] r(6) [OF s] by simp
  have other: "k mod cap = ?s \<longleftrightarrow> k = i" if "k < ?n" "?n \<le> k + cap" "?n \<le> i + cap" for k
  proof
    assume e: "k mod cap = ?s"
    show "k = i"
    proof (rule ccontr)
      assume "k \<noteq> i"
      then consider "k < i" | "i < k" by linarith
      then show False
      proof cases
        case 1
        then have "cap dvd i - k" using e [symmetric] by (simp add: mod_eq_dvd_iff_nat)
        then show False using 1 that assms(2) by (auto dest: dvd_imp_le)
      next
        case 2
        then have "cap dvd k - i" using e by (simp add: mod_eq_dvd_iff_nat)
        then show False using 2 that by (auto dest: dvd_imp_le)
      qed
    qed
  qed simp
  let ?l = "if ?n \<le> i + cap
    then l\<lparr>lg_buf := (lg_buf l)[?s := (lg_buf l ! ?s)\<lparr>en_egress := t\<rparr>]\<rparr> else l"
  show thesis
  proof
    show "ledger_finalize l (handle_of cap i) t = Some ?l"
      using s r(3) fresh by (simp add: ledger_finalize_def handle_of_def del: of_nat_Suc)
    show "ledger_rel cap ?l (hist[i := (hist ! i)\<lparr>en_egress := t\<rparr>])"
    proof (cases "?n \<le> i + cap")
      case True
      have "(lg_buf ?l) ! (k mod cap) = hist[i := (hist ! i)\<lparr>en_egress := t\<rparr>] ! k"
        if "k < ?n" "?n \<le> k + cap" for k
        using other [OF that True] True s r(2) r(7) [OF that] assms(2) that
        by (cases "k = i") (auto simp: nth_list_update)
      then show ?thesis using assms(1) by (simp add: ledger_rel_def True)
    next
      case False
      then show ?thesis using assms(1) by (auto simp: ledger_rel_def nth_list_update)
    qed
  qed
qed

text \<open>A snapshot is the last \<open>cap\<close> records, oldest first.\<close>

lemma ledger_snapshot_log:
  assumes "ledger_rel cap l hist"
  shows "ledger_snapshot l = drop (length hist - cap) hist"
proof -
  let ?n = "length hist"
  have r: "0 < cap" "length (lg_buf l) = cap" "cap < 2 ^ 62"
    "lg_count l = int ?n" "lg_next l = int (?n mod cap)"
    "\<And>i. i < ?n \<Longrightarrow> ?n \<le> i + cap \<Longrightarrow> lg_buf l ! (i mod cap) = hist ! i"
    using assms by (auto simp: ledger_rel_def)
  show ?thesis
  proof (cases "?n \<le> cap")
    case True
    have "take ?n (lg_buf l) ! i = hist ! i" if "i < ?n" for i
      using r(6) [OF that] that True by simp
    then have "take ?n (lg_buf l) = hist" using True r(2) by (intro nth_equalityI) simp_all
    then show ?thesis using True by (simp add: ledger_snapshot_def Let_def r)
  next
    case False
    have nth: "lg_buf l ! nat (go_mod (i64 (lg_next l + int i)) (int cap)) = hist ! (?n - cap + i)"
      if "i < cap" for i
    proof -
      have "go_mod (i64 (lg_next l + int i)) (int cap) = int ((?n mod cap + i) mod cap)"
        using that r(1,3,5) by (simp add: ring_index)
      also have "\<dots> = int ((?n + i) mod cap)" by (simp add: mod_simps)
      also have "?n + i = (?n - cap + i) + cap" using False by simp
      finally have "nat (go_mod (i64 (lg_next l + int i)) (int cap)) = (?n - cap + i) mod cap"
        by (simp only: mod_add_self2 nat_int)
      then show ?thesis using r(6) [of "?n - cap + i"] False that by simp
    qed
    have "map (\<lambda>i. lg_buf l ! nat (go_mod (i64 (lg_next l + int i)) (int cap))) [0..<cap] = drop (?n - cap) hist"
      using False nth by (intro nth_equalityI) (auto simp: add.commute)
    then show ?thesis using False by (simp add: ledger_snapshot_def Let_def r)
  qed
qed

section \<open>Sequences of operations\<close>

text \<open>What the relay does to a ledger: start records, and stamp the egress time of a record
  started before, by its handle.\<close>

datatype ledger_op =
    LStart uint64 direction int64 int64
  | LFinalize nat int64

fun ledger_run :: "ledger_op list \<Rightarrow> ledger \<times> handle list \<Rightarrow> (ledger \<times> handle list) option" where
  "ledger_run [] s = Some s"
| "ledger_run (LStart sq dir r d # ops) (l, hs) =
     (case ledger_start l sq dir r d of (h, l1) \<Rightarrow> ledger_run ops (l1, hs @ [h]))"
| "ledger_run (LFinalize i t # ops) (l, hs) =
     (case ledger_finalize l (hs ! i) t of None \<Rightarrow> None | Some l1 \<Rightarrow> ledger_run ops (l1, hs))"

fun log_run :: "ledger_op list \<Rightarrow> entry list \<Rightarrow> entry list" where
  "log_run [] hist = hist"
| "log_run (LStart sq dir r d # ops) hist = log_run ops
     (hist @ [\<lparr>en_seq = sq, en_dir = dir, en_recv = r, en_deliver = d, en_egress = 0\<rparr>])"
| "log_run (LFinalize i t # ops) hist = log_run ops (hist[i := (hist ! i)\<lparr>en_egress := t\<rparr>])"

fun ops_valid :: "nat \<Rightarrow> ledger_op list \<Rightarrow> bool" where
  "ops_valid n [] = (n < 2 ^ 62)"
| "ops_valid n (LStart sq dir r d # ops) = ops_valid (Suc n) ops"
| "ops_valid n (LFinalize i t # ops) = (i < n \<and> ops_valid n ops)"

lemma ops_valid_bound: "ops_valid n ops \<Longrightarrow> n < 2 ^ 62"
  by (induction n ops rule: ops_valid.induct) auto

lemma ledger_run_log:
  assumes "ledger_rel cap l hist" "hs = map (handle_of cap) [0..<length hist]" "ops_valid (length hist) ops"
  shows "\<exists>l' hs'. ledger_run ops (l, hs) = Some (l', hs') \<and> ledger_rel cap l' (log_run ops hist)"
  using assms
proof (induction ops "(l, hs)" arbitrary: l hs hist rule: ledger_run.induct)
  case 1
  then show ?case by auto
next
  case (2 sq dir r d ops l hs)
  have "length hist + 1 < 2 ^ 62" using 2(4) ops_valid_bound [of "Suc (length hist)"] by auto
  note st = ledger_rel_start [OF 2(2) this, of sq dir r d]
  show ?case
    using 2(1) [OF prod.collapse st(2)] 2(3,4) st(1) by (simp add: split_beta)
next
  case (3 i t ops l hs)
  have i: "i < length hist" using 3(4) by simp
  obtain l' where f: "ledger_finalize l (handle_of cap i) t = Some l'"
    "ledger_rel cap l' (hist[i := (hist ! i)\<lparr>en_egress := t\<rparr>])"
    using ledger_rel_finalize [OF 3(2) i] by blast
  have "hs ! i = handle_of cap i" using i 3(3) by simp
  then show ?case using 3(1) [OF _ f(2)] f(1) 3(3,4) by simp
qed

section \<open>Decomposition of one-way delay\<close>

record owd =
  ow_seq :: uint64
  ow_dir :: direction
  ow_queue :: int64
  ow_overhead :: int64
  ow_residence :: int64

record quantile =
  qu_N :: int64
  qu_P50 :: int64
  qu_P99 :: int64

record decomposition =
  dc_N :: int64
  dc_Queue :: quantile
  dc_Overhead :: quantile
  dc_Residence :: quantile

definition owd_of :: "entry \<Rightarrow> owd" where
  "owd_of e = \<lparr>ow_seq = en_seq e, ow_dir = en_dir e, ow_queue = i64 (en_deliver e - en_recv e),
     ow_overhead = i64 (en_egress e - en_deliver e), ow_residence = i64 (en_egress e - en_recv e)\<rparr>"

definition nearestRank :: "platform \<Rightarrow> int64 list \<Rightarrow> f64 \<Rightarrow> int64" where
  "nearestRank pf s q =
     (let idx = to_int64 pf (math_round (fmul q (fof_int (int (length s) - 1))));
          idx1 = (if idx < 0 then 0 else idx);
          idx2 = (if idx1 \<ge> int (length s) then int (length s) - 1 else idx1)
      in s ! nat idx2)"

definition quantileOf :: "platform \<Rightarrow> int64 list \<Rightarrow> quantile" where
  "quantileOf pf xs = (if xs = [] then \<lparr>qu_N = 0, qu_P50 = 0, qu_P99 = 0\<rparr>
     else \<lparr>qu_N = int (length xs), qu_P50 = nearestRank pf (sort xs) (fround (1 / 2)),
           qu_P99 = nearestRank pf (sort xs) (fround (99 / 100))\<rparr>)"

definition DecomposedOWD :: "platform \<Rightarrow> entry list \<Rightarrow> decomposition \<times> owd list" where
  "DecomposedOWD pf es =
     (let ps = map owd_of (filter (\<lambda>e. en_egress e \<noteq> 0) es)
      in (\<lparr>dc_N = int (length ps), dc_Queue = quantileOf pf (map ow_queue ps),
           dc_Overhead = quantileOf pf (map ow_overhead ps),
           dc_Residence = quantileOf pf (map ow_residence ps)\<rparr>, ps))"

lemma owd_of_sum:
  "in64 (en_deliver e - en_recv e) \<Longrightarrow> in64 (en_egress e - en_deliver e) \<Longrightarrow>
    in64 (en_egress e - en_recv e) \<Longrightarrow>
    ow_residence (owd_of e) = ow_queue (owd_of e) + ow_overhead (owd_of e)"
  by (simp add: owd_of_def i64_id)

section \<open>Quantiles\<close>

lemma representable_half: "\<bar>k\<bar> < 2 ^ 53 \<Longrightarrow> representable (of_int k / 2)"
proof -
  assume ak: "\<bar>k\<bar> < 2 ^ 53"
  have "(of_int k :: rat) / 2 = of_int k * 2 powi (- 1)" by (simp add: power_int_minus)
  then show ?thesis
    unfolding representable_def using ak
    by (intro exI [of _ k] exI [of _ "- 1"] conjI) (assumption | simp only: | simp)+
qed

text \<open>The rank a quantile picks among \<open>n\<close> sorted values.\<close>

definition rank_of :: "rat \<Rightarrow> nat \<Rightarrow> nat" where
  "rank_of q n = nat (round_away (rval (q * of_int (int n - 1))))"

lemma rank_of_less:
  assumes "0 \<le> q" "q \<le> 1" "0 < n" "int n < 2 ^ 53"
  shows "rank_of q n < n" "fmul (Fin q) (fof_int (int n - 1)) = Fin (rval (q * of_int (int n - 1)))"
    "round_away (rval (q * of_int (int n - 1))) = int (rank_of q n)"
proof -
  let ?x = "of_int (int n - 1) :: rat"
  have a: "\<bar>int n - 1\<bar> < 2 ^ 53" using assms(3,4) by (simp only: abs_less_iff) linarith
  have x: "0 \<le> ?x" using assms(3) by simp
  have "q * ?x \<le> 1 * ?x" using assms(2) x by (rule mult_right_mono)
  then have "q * ?x \<le> ?x" by simp
  moreover have "0 \<le> q * ?x" using assms(1) x by (rule mult_nonneg_nonneg)
  ultimately have b: "\<exists>y. fround (q * ?x) = Fin y \<and> 0 \<le> y \<and> y \<le> ?x"
    by (intro fround_between representable_0 representable_int a)
  then have y: "fround (q * ?x) = Fin (rval (q * ?x))" "0 \<le> rval (q * ?x)" "rval (q * ?x) \<le> ?x"
    by (auto simp: fround_rval split: if_splits)
  show "fmul (Fin q) (fof_int (int n - 1)) = Fin (rval (q * ?x))"
    using y(1) fof_int_exact [OF a] by simp
  have "round_away (rval (q * ?x)) \<le> int n - 1"
    using round_away_mono [OF y(3)] by (simp only: round_away_of_int)
  then show "rank_of q n < n" "round_away (rval (q * ?x)) = int (rank_of q n)"
    using assms(3) round_away_nonneg [OF y(2)] by (auto simp: rank_of_def)
qed

lemma nearestRank_rank:
  assumes "0 \<le> q" "q \<le> 1" "s \<noteq> []" "int (length s) < 2 ^ 53"
  shows "nearestRank pf s (Fin q) = s ! rank_of q (length s)"
proof -
  have n: "0 < length s" using assms(3) by simp
  note r = rank_of_less [OF assms(1,2) n assms(4)]
  have "in64 (int (rank_of q (length s)))" using r(1) assms(4) by (simp add: in64_def)
  then have "to_int64 pf (math_round (fmul (Fin q) (fof_int (int (length s) - 1)))) = int (rank_of q (length s))"
    by (simp only: r(2) math_round.simps r(3) to_int64.simps trunc_rat_of_int if_True)
  then show ?thesis using r(1) by (simp add: nearestRank_def Let_def)
qed

lemma rank_of_mono: "q \<le> q' \<Longrightarrow> 0 < n \<Longrightarrow> rank_of q n \<le> rank_of q' n"
  unfolding rank_of_def by (intro nat_mono round_away_mono rval_mono mult_right_mono) auto

lemma rank_of_half:
  assumes "0 < n" "int n < 2 ^ 53"
  shows "rank_of (1 / 2) n = n div 2"
proof -
  have a: "\<bar>int n - 1\<bar> < 2 ^ 53" using assms by (simp only: abs_less_iff) linarith
  have "rval (of_int (int n - 1) / 2) = of_int (int n - 1) / 2"
    using rval_representable [OF representable_half [OF a]] by simp
  moreover have "1 / 2 * of_int (int n - 1) = (of_int (int n - 1) / 2 :: rat)" by simp
  ultimately have "rank_of (1 / 2) n = nat (round_away (of_int (int n - 1) / 2))"
    by (simp only: rank_of_def)
  also have "round_away (of_int (int n - 1) / 2 :: rat) = \<lfloor>of_int (int n) / (2 :: rat)\<rfloor>"
    using assms(1) by (simp add: round_away_def diff_divide_distrib)
  also have "\<dots> = int n div 2" using floor_divide_of_int_eq [of "int n" 2, where 'a = rat] by simp
  finally show ?thesis by simp
qed

lemma p99_value: obtains c where "fround (99 / 100) = Fin c" "1 / 2 \<le> c" "c \<le> 1"
proof -
  have "representable (1 / 2)" using representable_half [of 1] by simp
  then show thesis
    using fround_between [of "1 / 2" 1 "99 / 100"] that by auto
qed

lemma fround_half: "fround (1 / 2) = Fin (1 / 2)"
  using fround_representable [OF representable_half [of 1]] by simp

lemma quantileOf_ranks:
  assumes "xs \<noteq> []" "int (length xs) < 2 ^ 53"
  shows "qu_N (quantileOf pf xs) = int (length xs)"
    "qu_P50 (quantileOf pf xs) = sort xs ! (length xs div 2)"
    "qu_P50 (quantileOf pf xs) \<in> set xs" "qu_P99 (quantileOf pf xs) \<in> set xs"
    "qu_P50 (quantileOf pf xs) \<le> qu_P99 (quantileOf pf xs)"
proof -
  obtain c where c: "fround (99 / 100) = Fin c" "1 / 2 \<le> c" "c \<le> 1" by (rule p99_value)
  have n: "0 < length xs" "sort xs \<noteq> []" "int (length (sort xs)) < 2 ^ 53"
    using assms by (auto simp: sort_key_simps simp flip: length_greater_0_conv)
  have p50: "qu_P50 (quantileOf pf xs) = sort xs ! (length xs div 2)"
    using nearestRank_rank [of "1 / 2" "sort xs" pf] n rank_of_half [OF n(1) assms(2)] assms(1)
    by (simp add: quantileOf_def fround_half)
  have p99: "qu_P99 (quantileOf pf xs) = sort xs ! rank_of c (length xs)"
    using nearestRank_rank [of c "sort xs" pf] n c assms(1) by (simp add: quantileOf_def)
  have r: "length xs div 2 < length xs" "rank_of c (length xs) < length xs"
    "length xs div 2 \<le> rank_of c (length xs)"
    using n(1) rank_of_less(1) [of c "length xs"] c assms(2) rank_of_mono [OF c(2) n(1)]
      rank_of_half [OF n(1) assms(2)] by simp_all
  show "qu_N (quantileOf pf xs) = int (length xs)" using assms(1) by (simp add: quantileOf_def)
  show "qu_P50 (quantileOf pf xs) = sort xs ! (length xs div 2)" by (rule p50)
  show "qu_P50 (quantileOf pf xs) \<in> set xs" "qu_P99 (quantileOf pf xs) \<in> set xs"
    using r nth_mem [of _ "sort xs"] by (simp_all add: p50 p99)
  show "qu_P50 (quantileOf pf xs) \<le> qu_P99 (quantileOf pf xs)"
    unfolding p50 p99 using r by (intro sorted_nth_mono) simp_all
qed

end
