(* ===== verification/RelayCore.thy ===== *)
theory RelayCore
  imports Cells EgressHeap Ledger
begin

text \<open>
  \<^verbatim>\<open>relaycore/relaycore.go\<close>: the datapath every relay driver shares. A core holds the
  engine, the counters, the egress heap and the ledger; \<open>core_Process\<close> is what a read
  loop calls for a datagram, \<open>enqueue_locked\<close> the part of \<^verbatim>\<open>enqueue\<close> that runs under
  the mutex, and \<open>egress_pop\<close>, \<open>sendItem\<close> and \<open>egress_wait\<close> are the pieces of the
  egress goroutine's loop. What an item carries is a type parameter: the bytes themselves
  here, a pooled buffer in theory \<open>BufferPool\<close>, which justifies the bytes. The socket write
  is an output; a Go panic is \<open>None\<close>.

  The goroutines interleave as the step relation \<open>core_step\<close>, one step per critical
  section, channel operation or clock tick; the invariants at the end hold in every
  state it reaches. The egress goroutine unlocks, writes and reads the clock anew between two
  forwards, and so does the step relation. What has been admitted is recorded where it is pushed;
  theory \<open>RelayProperties\<close> shows that \<open>core_Process\<close> of a datagram is a run of the steps.
\<close>

section \<open>State\<close>

record ('d, 'b) egItem =
  eg_at :: int64
  eg_ord :: uint64
  eg_data :: 'b
  eg_dst :: 'd
  eg_led :: handle

record ('d, 'b) core =
  co_eng :: "cell engine"
  co_fwd :: uint64
  co_drop :: uint64
  co_tailDrop :: uint64
  co_eg :: "('d, 'b) egItem list"
  co_egOrd :: uint64
  co_wake :: bool
  co_maxQueued :: int64
  co_ledger :: "ledger option"
  co_closed :: bool

definition defaultMaxQueued :: int64 where
  "defaultMaxQueued = 16384"

definition DefaultLedgerCap :: int64 where
  "DefaultLedgerCap = 16384"

definition core_New :: "cell engine \<Rightarrow> int64 \<Rightarrow> int64 \<Rightarrow> ('d, 'b) core" where
  "core_New eng maxQueued ledgerCap =
     \<lparr>co_eng = eng, co_fwd = 0, co_drop = 0, co_tailDrop = 0, co_eg = [], co_egOrd = 0,
      co_wake = False, co_maxQueued = (if maxQueued \<le> 0 then defaultMaxQueued else maxQueued),
      co_ledger = (if ledgerCap > 0 then Some (newLedger ledgerCap) else None), co_closed = False\<rparr>"

definition core_SetEngine :: "cell engine \<Rightarrow> ('d, 'b) core \<Rightarrow> ('d, 'b) core" where
  "core_SetEngine eng c = c\<lparr>co_eng := eng\<rparr>"

definition core_Stats :: "('d, 'b) core \<Rightarrow> uint64 \<times> uint64 \<times> uint64" where
  "core_Stats c = (co_fwd c, co_drop c, co_tailDrop c)"

definition core_EnableLedger :: "int64 \<Rightarrow> ('d, 'b) core \<Rightarrow> ('d, 'b) core" where
  "core_EnableLedger capacity c =
     c\<lparr>co_ledger := Some (newLedger (if capacity \<le> 0 then DefaultLedgerCap else capacity))\<rparr>"

definition core_Ledger :: "('d, 'b) core \<Rightarrow> entry list option" where
  "core_Ledger c = (case co_ledger c of None \<Rightarrow> None | Some l \<Rightarrow> Some (ledger_snapshot l))"

section \<open>The egress heap's order\<close>

definition egLess :: "('d, 'b) egItem \<Rightarrow> ('d, 'b) egItem \<Rightarrow> bool" where
  "egLess a b = (if eg_at a \<noteq> eg_at b then eg_at a < eg_at b else eg_ord a < eg_ord b)"

definition egKey :: "('d, 'b) egItem \<Rightarrow> int \<times> uint64" where
  "egKey it = (eg_at it, eg_ord it)"

abbreviation eg_heap :: "('d, 'b) egItem list \<Rightarrow> bool" where
  "eg_heap h \<equiv> is_heap egKey h (length h)"

lemma egLess_key: "\<forall>a b. egLess a b \<longleftrightarrow> egKey a < egKey b"
  by (auto simp: egLess_def egKey_def less_prod_def)

interpretation egq: priority_queue "heap_push egLess" "heap_pop egLess" "\<lambda>h. h ! 0" mset eg_heap egKey
proof
  fix q :: "('d, 'b) egItem list" and x y :: "('d, 'b) egItem"
  assume q: "eg_heap q"
  show "eg_heap (heap_push egLess q x)" "mset (heap_push egLess q x) = add_mset x (mset q)"
    using is_heap_push [OF egLess_key q] by auto
  show "egKey (q ! 0) \<le> egKey y" if "y \<in># mset q"
    using that is_heap_min [OF q] by (auto simp: in_set_conv_nth)
  assume "mset q \<noteq> {#}"
  then have ne: "q \<noteq> []" by simp
  show "eg_heap (snd (heap_pop egLess q))"
    "mset q = add_mset (fst (heap_pop egLess q)) (mset (snd (heap_pop egLess q)))"
    "fst (heap_pop egLess q) = q ! 0"
    using is_heap_pop [OF egLess_key q ne] by auto
qed

section \<open>Enqueue and dispatch\<close>

text \<open>The record \<^verbatim>\<open>it\<close> that \<^verbatim>\<open>enqueue\<close> builds under the mutex, with the handle of its ledger entry.\<close>

definition enqueue_ledger :: "uint64 \<Rightarrow> direction \<Rightarrow> int64 \<Rightarrow> int64 \<Rightarrow> ('d, 'b) core \<Rightarrow> handle \<times> ledger option" where
  "enqueue_ledger sq dir recvAt t c = (case co_ledger c of None \<Rightarrow> (noHandle, None)
     | Some l \<Rightarrow> (case ledger_start l sq dir recvAt t of (h, l') \<Rightarrow> (h, Some l')))"

definition new_item :: "'b \<Rightarrow> 'd \<Rightarrow> int64 \<Rightarrow> uint64 \<Rightarrow> direction \<Rightarrow> int64 \<Rightarrow> ('d, 'b) core \<Rightarrow> ('d, 'b) egItem" where
  "new_item data dst t sq dir recvAt c = \<lparr>eg_at = t, eg_ord = co_egOrd c + 1, eg_data = data, eg_dst = dst,
     eg_led = fst (enqueue_ledger sq dir recvAt t c)\<rparr>"

definition enqueue_locked :: "'b \<Rightarrow> 'd \<Rightarrow> int64 \<Rightarrow> uint64 \<Rightarrow> direction \<Rightarrow> int64 \<Rightarrow> ('d, 'b) core
    \<Rightarrow> ('d, 'b) core \<times> bool" where
  "enqueue_locked data dst t sq dir recvAt c =
     (if co_maxQueued c \<le> int (length (co_eg c)) then (c\<lparr>co_tailDrop := co_tailDrop c + 1\<rparr>, False)
      else let it = new_item data dst t sq dir recvAt c;
               h = heap_push egLess (co_eg c) it
           in (c\<lparr>co_egOrd := co_egOrd c + 1, co_ledger := snd (enqueue_ledger sq dir recvAt t c), co_eg := h\<rparr>,
               eg_ord (h ! 0) = eg_ord it))"

definition enqueue :: "'b \<Rightarrow> 'd \<Rightarrow> int64 \<Rightarrow> uint64 \<Rightarrow> direction \<Rightarrow> int64 \<Rightarrow> ('d, 'b) core \<Rightarrow> ('d, 'b) core" where
  "enqueue data dst t sq dir recvAt c =
     (case enqueue_locked data dst t sq dir recvAt c of (c1, isHead) \<Rightarrow>
        if isHead then c1\<lparr>co_wake := True\<rparr> else c1)"

definition core_action :: "direction \<Rightarrow> 'd \<Rightarrow> int64 \<Rightarrow> ('d, bytes) core \<Rightarrow> action \<Rightarrow> ('d, bytes) core" where
  "core_action dir dst recvAt c a =
     (if act_kind a = Drop then c\<lparr>co_drop := co_drop c + 1\<rparr>
      else enqueue (act_data a) dst (act_deliver_at a) (act_seq a) dir recvAt c)"

definition core_Process :: "platform \<Rightarrow> bytes \<Rightarrow> direction \<Rightarrow> 'd \<Rightarrow> int64 \<Rightarrow> ('d, bytes) core \<Rightarrow> ('d, bytes) core option" where
  "core_Process pf data dir dst recvAt c =
     (case Handle pf (co_eng c) \<lparr>pk_data = data, pk_dir = dir\<rparr> recvAt of
        None \<Rightarrow> None
      | Some (eng, acts) \<Rightarrow> Some (foldl (core_action dir dst recvAt) (c\<lparr>co_eng := eng\<rparr>) acts))"

section \<open>Egress\<close>

definition hour :: int64 where
  "hour = 3600000000000"

definition egress_due :: "int64 \<Rightarrow> ('d, 'b) core \<Rightarrow> bool" where
  "egress_due now c \<longleftrightarrow> co_eg c \<noteq> [] \<and> eg_at (co_eg c ! 0) \<le> now"

definition egress_pop :: "('d, 'b) core \<Rightarrow> ('d, 'b) egItem \<times> ('d, 'b) core" where
  "egress_pop c = (case heap_pop egLess (co_eg c) of (it, h) \<Rightarrow> (it, c\<lparr>co_eg := h\<rparr>))"

definition egress_wait :: "int64 \<Rightarrow> ('d, 'b) core \<Rightarrow> int64" where
  "egress_wait now c = (if co_eg c \<noteq> [] then
       let d = i64 (eg_at (co_eg c ! 0) - now) in if d < hour then d else hour
     else hour)"

text \<open>The output of a send is the destination and the bytes written.\<close>

definition sendItem :: "int64 \<Rightarrow> ('d, 'b) egItem \<Rightarrow> ('d, 'b) core \<Rightarrow> (('d, 'b) core \<times> ('d \<times> 'b) option) option" where
  "sendItem now it c =
     (if co_closed c then Some (c, None)
      else case (if 0 \<le> h_slot (eg_led it) then
                   (case co_ledger c of None \<Rightarrow> Some None
                    | Some l \<Rightarrow> (case ledger_finalize l (eg_led it) now of None \<Rightarrow> None | Some l' \<Rightarrow> Some (Some l')))
                 else Some (co_ledger c)) of
             None \<Rightarrow> None
           | Some lg \<Rightarrow> Some (c\<lparr>co_ledger := lg, co_fwd := co_fwd c + 1\<rparr>, Some (eg_dst it, eg_data it)))"

section \<open>What one operation does\<close>

lemma enqueue_full:
  "co_maxQueued c \<le> int (length (co_eg c)) \<Longrightarrow>
    enqueue_locked data dst t sq dir r c = (c\<lparr>co_tailDrop := co_tailDrop c + 1\<rparr>, False)"
  by (simp add: enqueue_locked_def)

lemma new_item_simps [simp]:
  "eg_at (new_item data dst t sq dir r c) = t" "eg_data (new_item data dst t sq dir r c) = data"
  "eg_dst (new_item data dst t sq dir r c) = dst" "eg_ord (new_item data dst t sq dir r c) = co_egOrd c + 1"
  by (simp_all add: new_item_def)

lemma enqueue_admit:
  assumes "int (length (co_eg c)) < co_maxQueued c" "eg_heap (co_eg c)"
  obtains c' where
    "enqueue_locked data dst t sq dir r c = (c', eg_ord (co_eg c' ! 0) = co_egOrd c + 1)"
    "co_egOrd c' = co_egOrd c + 1" "eg_heap (co_eg c')"
    "mset (co_eg c') = add_mset (new_item data dst t sq dir r c) (mset (co_eg c))"
    "length (co_eg c') = Suc (length (co_eg c))" "co_eg c' = heap_push egLess (co_eg c) (new_item data dst t sq dir r c)"
    "co_maxQueued c' = co_maxQueued c" "co_fwd c' = co_fwd c" "co_tailDrop c' = co_tailDrop c"
    "co_drop c' = co_drop c" "co_wake c' = co_wake c" "co_closed c' = co_closed c" "co_eng c' = co_eng c"
proof -
  let ?it = "new_item data dst t sq dir r c" and ?c = "fst (enqueue_locked data dst t sq dir r c)"
  have eg: "co_eg ?c = heap_push egLess (co_eg c) ?it"
    using assms(1) by (simp add: enqueue_locked_def Let_def)
  show thesis
  proof
    show "enqueue_locked data dst t sq dir r c = (?c, eg_ord (co_eg ?c ! 0) = co_egOrd c + 1)"
      using assms(1) by (simp add: enqueue_locked_def Let_def)
    show "eg_heap (co_eg ?c)" "mset (co_eg ?c) = add_mset ?it (mset (co_eg c))"
      "length (co_eg ?c) = Suc (length (co_eg c))"
      unfolding eg using is_heap_push [OF egLess_key assms(2)] by auto
  qed (use assms(1) eg in \<open>simp_all add: enqueue_locked_def Let_def\<close>)
qed

text \<open>When the new item does not become the head, the head's time has not changed.\<close>

lemma push_not_head:
  assumes "eg_heap h" "heap_push egLess h it ! 0 \<noteq> it"
  shows "h \<noteq> [] \<and> eg_at (heap_push egLess h it ! 0) = eg_at (h ! 0)"
proof -
  let ?x = "heap_push egLess h it ! 0"
  have x: "?x \<in># mset h" using egq.push_head(3) [OF assms(1), of it] assms(2) by simp
  then have ne: "mset h \<noteq> {#}" by auto
  have "egKey ?x \<le> egKey (h ! 0)"
    using egq.push_head(2) [OF assms(1) egq.head_in [OF assms(1) ne]] .
  moreover have "egKey (h ! 0) \<le> egKey ?x" using egq.head_least [OF assms(1) x] .
  ultimately show ?thesis using ne by (auto simp: egKey_def)
qed

lemma egress_pop_spec:
  assumes "eg_heap (co_eg c)" "egress_due now c"
  obtains it c' where "egress_pop c = (it, c')" "it = co_eg c ! 0" "eg_at it \<le> now"
    "eg_heap (co_eg c')" "mset (co_eg c) = add_mset it (mset (co_eg c'))" "c' = c\<lparr>co_eg := co_eg c'\<rparr>"
    "\<forall>x\<in>set (co_eg c'). egKey it \<le> egKey x"
proof -
  let ?r = "heap_pop egLess (co_eg c)"
  have ne: "mset (co_eg c) \<noteq> {#}" using assms(2) by (simp add: egress_due_def)
  note i = egq.pop_items [OF assms(1) ne]
  note p = egq.pop_ok [OF assms(1) ne] i egq.pop_head [OF assms(1) ne]
  have "\<forall>x\<in>set (snd ?r). egKey (co_eg c ! 0) \<le> egKey x"
  proof
    fix x assume "x \<in> set (snd ?r)"
    then have "x \<in># mset (co_eg c)" by (subst i) simp
    then show "egKey (co_eg c ! 0) \<le> egKey x" by (rule egq.head_least [OF assms(1)])
  qed
  then show thesis
    using p assms(2)
    by (intro that [of "fst ?r" "c\<lparr>co_eg := snd ?r\<rparr>"]) (simp_all add: egress_pop_def egress_due_def split_beta)
qed

section \<open>One datagram\<close>

definition core_ok :: "('d, 'b) core \<Rightarrow> bool" where
  "core_ok c \<longleftrightarrow> eg_heap (co_eg c) \<and> int (length (co_eg c)) \<le> co_maxQueued c"

text \<open>What a forward is, apart from its place in the queue and in the ledger.\<close>

definition eg_view :: "('d, 'b) egItem \<Rightarrow> int64 \<times> 'd \<times> 'b" where
  "eg_view it = (eg_at it, eg_dst it, eg_data it)"

lemma eg_view_new_item [simp]: "eg_view (new_item data dst t sq dir r c) = (t, dst, data)"
  by (simp add: eg_view_def)

text \<open>The queue grows by items that read as the forwards of a multiset.\<close>

definition queue_gains :: "(int64 \<times> 'd \<times> 'b) multiset \<Rightarrow> ('d, 'b) core \<Rightarrow> ('d, 'b) core \<Rightarrow> bool" where
  "queue_gains F c c' \<longleftrightarrow> (\<exists>N. mset (co_eg c') = mset (co_eg c) + N \<and> image_mset eg_view N \<subseteq># F)"

lemma queue_gains_refl [simp]: "co_eg c' = co_eg c \<Longrightarrow> queue_gains F c c'"
  by (auto simp: queue_gains_def intro: exI [of _ "{#}"])

lemma queue_gains_trans:
  assumes "queue_gains F c d" "queue_gains G d e" shows "queue_gains (F + G) c e"
proof -
  obtain M N where m: "mset (co_eg d) = mset (co_eg c) + M" "image_mset eg_view M \<subseteq># F"
    and n: "mset (co_eg e) = mset (co_eg d) + N" "image_mset eg_view N \<subseteq># G"
    using assms by (auto simp: queue_gains_def)
  have "mset (co_eg e) = mset (co_eg c) + (M + N)" "image_mset eg_view (M + N) \<subseteq># F + G"
    using m n by (simp_all add: subset_mset.add_mono)
  then show ?thesis unfolding queue_gains_def by blast
qed

lemma enqueue_spec:
  assumes "core_ok c"
  shows "core_ok (enqueue data dst t sq dir r c)"
    "queue_gains {#(t, dst, data)#} c (enqueue data dst t sq dir r c)"
    "co_tailDrop (enqueue data dst t sq dir r c) + of_nat (length (co_eg (enqueue data dst t sq dir r c)))
      = co_tailDrop c + of_nat (length (co_eg c)) + 1"
    "co_drop (enqueue data dst t sq dir r c) = co_drop c"
    "co_fwd (enqueue data dst t sq dir r c) = co_fwd c"
    "co_maxQueued (enqueue data dst t sq dir r c) = co_maxQueued c"
proof -
  let ?c = "enqueue data dst t sq dir r c"
  have "core_ok ?c \<and> queue_gains {#(t, dst, data)#} c ?c \<and>
    co_tailDrop ?c + of_nat (length (co_eg ?c)) = co_tailDrop c + of_nat (length (co_eg c)) + 1 \<and>
    co_drop ?c = co_drop c \<and> co_fwd ?c = co_fwd c \<and> co_maxQueued ?c = co_maxQueued c"
  proof (cases "int (length (co_eg c)) < co_maxQueued c")
    case False
    then show ?thesis using assms by (auto simp: enqueue_def enqueue_full core_ok_def)
  next
    case True
    have "eg_heap (co_eg c)" using assms by (simp add: core_ok_def)
    from True this obtain c' where e: "enqueue_locked data dst t sq dir r c = (c', eg_ord (co_eg c' ! 0) = co_egOrd c + 1)"
      "eg_heap (co_eg c')" "mset (co_eg c') = add_mset (new_item data dst t sq dir r c) (mset (co_eg c))"
      "length (co_eg c') = Suc (length (co_eg c))" "co_maxQueued c' = co_maxQueued c" "co_fwd c' = co_fwd c"
      "co_tailDrop c' = co_tailDrop c" "co_drop c' = co_drop c"
      by (rule enqueue_admit [where data = data and dst = dst and t = t and sq = sq and dir = dir and r = r])
    have "queue_gains {#(t, dst, data)#} c ?c"
      unfolding queue_gains_def by (rule exI [of _ "{#new_item data dst t sq dir r c#}"]) (simp add: enqueue_def e(1,3))
    then show ?thesis using True e by (auto simp: enqueue_def core_ok_def)
  qed
  then show "core_ok ?c" "queue_gains {#(t, dst, data)#} c ?c"
    "co_tailDrop ?c + of_nat (length (co_eg ?c)) = co_tailDrop c + of_nat (length (co_eg c)) + 1"
    "co_drop ?c = co_drop c" "co_fwd ?c = co_fwd c" "co_maxQueued ?c = co_maxQueued c" by auto
qed

text \<open>The forwards among an engine's actions, bound for one destination.\<close>

definition forwards_to :: "'d \<Rightarrow> action list \<Rightarrow> (int64 \<times> 'd \<times> bytes) multiset" where
  "forwards_to dst acts = {#(act_deliver_at a, dst, act_data a). a \<in># mset (filter (\<lambda>a. act_kind a = Forward) acts)#}"

lemma queue_gains_dst:
  assumes "queue_gains (forwards_to dst acts) c c'"
  shows "eg_dst ` set (co_eg c') \<subseteq> insert dst (eg_dst ` set (co_eg c))"
proof -
  obtain N where N: "mset (co_eg c') = mset (co_eg c) + N" "image_mset eg_view N \<subseteq># forwards_to dst acts"
    using assms by (auto simp: queue_gains_def)
  have "eg_view ` set_mset N \<subseteq> set_mset (forwards_to dst acts)" using set_mset_mono [OF N(2)] by simp
  then have "eg_dst ` set_mset N \<subseteq> {dst}" by (auto simp: forwards_to_def eg_view_def)
  moreover have "set (co_eg c') = set (co_eg c) \<union> set_mset N" using arg_cong [OF N(1), of set_mset] by simp
  ultimately show ?thesis by auto
qed

lemma forwards_to_Cons:
  "forwards_to dst (a # acts) =
    (if act_kind a = Forward then {#(act_deliver_at a, dst, act_data a)#} else {#}) + forwards_to dst acts"
  by (simp add: forwards_to_def)

lemma core_action_spec:
  assumes "core_ok c"
  shows "core_ok (core_action dir dst r c a)"
    "queue_gains (if act_kind a = Forward then {#(act_deliver_at a, dst, act_data a)#} else {#}) c (core_action dir dst r c a)"
    "co_drop (core_action dir dst r c a) = co_drop c + (if act_kind a = Drop then 1 else 0)"
    "co_tailDrop (core_action dir dst r c a) + of_nat (length (co_eg (core_action dir dst r c a))) =
      co_tailDrop c + of_nat (length (co_eg c)) + (if act_kind a = Forward then 1 else 0)"
    "co_fwd (core_action dir dst r c a) = co_fwd c"
  using assms enqueue_spec [OF assms, where data = "act_data a" and dst = dst and t = "act_deliver_at a" and sq = "act_seq a" and dir = dir and r = r]
  by (cases "act_kind a"; simp add: core_action_def core_ok_def)+

lemma core_actions_spec:
  assumes "core_ok c"
  shows "core_ok (foldl (core_action dir dst r) c acts) \<and>
    queue_gains (forwards_to dst acts) c (foldl (core_action dir dst r) c acts) \<and>
    co_drop (foldl (core_action dir dst r) c acts) =
      co_drop c + of_nat (length (filter (\<lambda>a. act_kind a = Drop) acts)) \<and>
    co_tailDrop (foldl (core_action dir dst r) c acts) +
      of_nat (length (co_eg (foldl (core_action dir dst r) c acts))) =
      co_tailDrop c + of_nat (length (co_eg c)) + of_nat (length (filter (\<lambda>a. act_kind a = Forward) acts)) \<and>
    co_fwd (foldl (core_action dir dst r) c acts) = co_fwd c"
  using assms
proof (induction acts arbitrary: c)
  case (Cons a acts)
  let ?c = "core_action dir dst r c a" and ?r = "foldl (core_action dir dst r) (core_action dir dst r c a) acts"
  note st = core_action_spec [OF Cons.prems, where dir = dir and dst = dst and r = r and a = a]
  have ih: "core_ok ?r" "queue_gains (forwards_to dst acts) ?c ?r"
    "co_drop ?r = co_drop ?c + of_nat (length (filter (\<lambda>a. act_kind a = Drop) acts))"
    "co_tailDrop ?r + of_nat (length (co_eg ?r)) = co_tailDrop ?c + of_nat (length (co_eg ?c)) +
      of_nat (length (filter (\<lambda>a. act_kind a = Forward) acts))" "co_fwd ?r = co_fwd ?c"
    using Cons.IH [OF st(1)] by blast+
  have "queue_gains (forwards_to dst (a # acts)) c ?r"
    unfolding forwards_to_Cons using st(2) ih(2) by (rule queue_gains_trans)
  then show ?case unfolding foldl_Cons
    using ih(1,3-5) st(3-5) by (cases "act_kind a") simp_all
qed auto

text \<open>Every action of the engine is counted once: as a drop, as a tail drop, or as an item
  of the queue; and every new item is one of the engine's forwards, with its time and
  payload, bound for the destination given.\<close>

lemma core_Process_spec:
  assumes "core_ok c" "core_Process pf data dir dst r c = Some c'"
  obtains eng acts where "Handle pf (co_eng c) \<lparr>pk_data = data, pk_dir = dir\<rparr> r = Some (eng, acts)"
    "core_ok c'" "queue_gains (forwards_to dst acts) c c'"
    "co_drop c' = co_drop c + of_nat (length (filter (\<lambda>a. act_kind a = Drop) acts))"
    "co_tailDrop c' + of_nat (length (co_eg c')) = co_tailDrop c + of_nat (length (co_eg c)) +
       of_nat (length (filter (\<lambda>a. act_kind a = Forward) acts))"
    "co_fwd c' = co_fwd c"
proof -
  obtain eng acts where h: "Handle pf (co_eng c) \<lparr>pk_data = data, pk_dir = dir\<rparr> r = Some (eng, acts)"
    and c': "c' = foldl (core_action dir dst r) (c\<lparr>co_eng := eng\<rparr>) acts"
    using assms(2) by (auto simp: core_Process_def split: option.splits)
  have "core_ok (c\<lparr>co_eng := eng\<rparr>)" using assms(1) by (simp add: core_ok_def)
  from core_actions_spec [OF this, of dir dst r acts] show thesis
    using that [OF h] by (simp add: c' queue_gains_def)
qed

section \<open>The goroutines\<close>

text \<open>Where the egress goroutine stands: about to check the heap, writing an item, holding a
  computed wait (and the time it was computed at), asleep on the timer (with its deadline
  and the time that passed between computing the wait and starting the timer), or gone.\<close>

datatype ('d, 'b) phase = Checking | Sending "('d, 'b) egItem" | Arming int64 int | Sleeping int int | Stopped

record ('d, 'b) sys =
  sy_core :: "('d, 'b) core"
  sy_phase :: "('d, 'b) phase"
  sy_now :: int
  sy_signals :: nat
  sy_admitted :: "('d, 'b) egItem multiset"
  sy_sent :: "(('d, 'b) egItem \<times> int) list"
  sy_discarded :: "('d, 'b) egItem multiset"

text \<open>\<open>sy_signals\<close> counts enqueuers between their critical section and the wake-up they
  owe; \<open>sy_admitted\<close>, \<open>sy_sent\<close> and \<open>sy_discarded\<close> record what has happened: items
  pushed, items written with the time of the write, and items popped after the close.\<close>

definition sys_start :: "cell engine \<Rightarrow> int64 \<Rightarrow> int64 \<Rightarrow> ('d, 'b) sys" where
  "sys_start eng maxQueued ledgerCap =
     \<lparr>sy_core = core_New eng maxQueued ledgerCap, sy_phase = Checking, sy_now = 0, sy_signals = 0,
      sy_admitted = {#}, sy_sent = [], sy_discarded = {#}\<rparr>"

inductive core_step :: "('d, 'b) sys \<Rightarrow> ('d, 'b) sys \<Rightarrow> bool" where
  Refuse: "co_maxQueued (sy_core s) \<le> int (length (co_eg (sy_core s))) \<Longrightarrow>
    enqueue_locked data dst t sq dir r (sy_core s) = (c, b) \<Longrightarrow>
    core_step s (s\<lparr>sy_core := c\<rparr>)"
| Admit: "in64 t \<Longrightarrow> int (length (co_eg (sy_core s))) < co_maxQueued (sy_core s) \<Longrightarrow>
    enqueue_locked data dst t sq dir r (sy_core s) = (c, isHead) \<Longrightarrow>
    core_step s (s\<lparr>sy_core := c, sy_signals := sy_signals s + (if isHead then 1 else 0),
      sy_admitted := add_mset (new_item data dst t sq dir r (sy_core s)) (sy_admitted s)\<rparr>)"
| Signal: "sy_signals s = Suc n \<Longrightarrow>
    core_step s (s\<lparr>sy_core := (sy_core s)\<lparr>co_wake := True\<rparr>, sy_signals := n\<rparr>)"
| Dropped: "core_step s (s\<lparr>sy_core := (sy_core s)\<lparr>co_drop := co_drop (sy_core s) + 1\<rparr>\<rparr>)"
| Pop: "sy_phase s = Checking \<Longrightarrow> egress_due (sy_now s) (sy_core s) \<Longrightarrow>
    egress_pop (sy_core s) = (it, c) \<Longrightarrow>
    core_step s (s\<lparr>sy_core := c, sy_phase := Sending it\<rparr>)"
| Send: "sy_phase s = Sending it \<Longrightarrow> sendItem (sy_now s) it (sy_core s) = Some (c, Some out) \<Longrightarrow>
    core_step s (s\<lparr>sy_core := c, sy_phase := Checking, sy_sent := sy_sent s @ [(it, sy_now s)]\<rparr>)"
| Discard: "sy_phase s = Sending it \<Longrightarrow> sendItem (sy_now s) it (sy_core s) = Some (c, None) \<Longrightarrow>
    core_step s (s\<lparr>sy_core := c, sy_phase := Checking, sy_discarded := add_mset it (sy_discarded s)\<rparr>)"
| Arm: "sy_phase s = Checking \<Longrightarrow> \<not> egress_due (sy_now s) (sy_core s) \<Longrightarrow>
    core_step s (s\<lparr>sy_phase := Arming (egress_wait (sy_now s) (sy_core s)) (sy_now s)\<rparr>)"
| Sleep: "sy_phase s = Arming w t \<Longrightarrow>
    core_step s (s\<lparr>sy_phase := Sleeping (sy_now s + w) (sy_now s - t)\<rparr>)"
| Woken: "sy_phase s = Sleeping d lag \<Longrightarrow> co_wake (sy_core s) \<Longrightarrow>
    core_step s (s\<lparr>sy_core := (sy_core s)\<lparr>co_wake := False\<rparr>, sy_phase := Checking\<rparr>)"
| Timer: "sy_phase s = Sleeping d lag \<Longrightarrow> d \<le> sy_now s \<Longrightarrow> core_step s (s\<lparr>sy_phase := Checking\<rparr>)"
| Stop: "sy_phase s = Sleeping d lag \<Longrightarrow> co_closed (sy_core s) \<Longrightarrow> core_step s (s\<lparr>sy_phase := Stopped\<rparr>)"
| CloseCore: "core_step s (s\<lparr>sy_core := (sy_core s)\<lparr>co_closed := True\<rparr>\<rparr>)"
| SetEngine: "core_step s (s\<lparr>sy_core := core_SetEngine eng (sy_core s)\<rparr>)"
| EnableLedger: "core_step s (s\<lparr>sy_core := core_EnableLedger capacity (sy_core s)\<rparr>)"
| Tick: "sy_now s \<le> t \<Longrightarrow> in64 t \<Longrightarrow> core_step s (s\<lparr>sy_now := t\<rparr>)"

inductive_cases core_stepE: "core_step s s'"

definition phase_items :: "('d, 'b) phase \<Rightarrow> ('d, 'b) egItem multiset" where
  "phase_items p = (case p of Sending it \<Rightarrow> {#it#} | _ \<Rightarrow> {#})"

text \<open>The heap is a heap within its bound, and every admitted item is queued, being
  written, written, or was discarded at the close.\<close>

definition core_conserves :: "('d, 'b) sys \<Rightarrow> bool" where
  "core_conserves s \<longleftrightarrow> eg_heap (co_eg (sy_core s)) \<and>
     0 < co_maxQueued (sy_core s) \<and> int (length (co_eg (sy_core s))) \<le> co_maxQueued (sy_core s) \<and>
     sy_admitted s = mset (co_eg (sy_core s)) + phase_items (sy_phase s)
       + mset (map fst (sy_sent s)) + sy_discarded s \<and>
     co_fwd (sy_core s) = of_nat (length (sy_sent s)) \<and>
     (sy_discarded s \<noteq> {#} \<longrightarrow> co_closed (sy_core s))"

text \<open>No item is written before its time.\<close>

definition core_punctual :: "('d, 'b) sys \<Rightarrow> bool" where
  "core_punctual s \<longleftrightarrow> (\<forall>(it, t) \<in> set (sy_sent s). eg_at it \<le> t \<and> t \<le> sy_now s) \<and>
     (\<forall>it. sy_phase s = Sending it \<longrightarrow> eg_at it \<le> sy_now s)"

text \<open>No lost wake-up: while the goroutine holds a wait or sleeps, either the wake-up token
  is there, or an enqueuer still owes it, or the timer fires no later than the head of
  the queue is due, but for the time between computing the wait and starting the timer.\<close>

definition core_awake :: "('d, 'b) sys \<Rightarrow> bool" where
  "core_awake s \<longleftrightarrow> in64 (sy_now s) \<and> 0 \<le> sy_now s \<and> (\<forall>it \<in> set (co_eg (sy_core s)). in64 (eg_at it)) \<and>
     (0 < sy_signals s \<or> co_wake (sy_core s) \<or> co_eg (sy_core s) = [] \<or>
      (case sy_phase s of
         Arming w t \<Rightarrow> t + w \<le> eg_at (co_eg (sy_core s) ! 0)
       | Sleeping d lag \<Rightarrow> d \<le> eg_at (co_eg (sy_core s) ! 0) + lag
       | _ \<Rightarrow> True))"

lemma core_New_simps [simp]:
  "co_eg (core_New eng m l) = []" "co_fwd (core_New eng m l) = 0" "co_wake (core_New eng m l) = False"
  "co_closed (core_New eng m l) = False"
  "co_maxQueued (core_New eng m l) = (if m \<le> 0 then defaultMaxQueued else m)"
  by (simp_all add: core_New_def)

lemma sendItem_cases:
  assumes "sendItem now it c = Some (c', out)"
  shows "(co_closed c \<and> c' = c \<and> out = None) \<or>
    (\<not> co_closed c \<and> out = Some (eg_dst it, eg_data it) \<and>
     (\<exists>lg. c' = c\<lparr>co_ledger := lg, co_fwd := co_fwd c + 1\<rparr>))"
proof (cases "co_closed c")
  case False
  define L where "L = (if 0 \<le> h_slot (eg_led it) then
    (case co_ledger c of None \<Rightarrow> Some None
     | Some l \<Rightarrow> (case ledger_finalize l (eg_led it) now of None \<Rightarrow> None | Some l' \<Rightarrow> Some (Some l')))
    else Some (co_ledger c))"
  have "sendItem now it c = (case L of None \<Rightarrow> None
      | Some lg \<Rightarrow> Some (c\<lparr>co_ledger := lg, co_fwd := co_fwd c + 1\<rparr>, Some (eg_dst it, eg_data it)))"
    using False by (simp add: sendItem_def L_def)
  then show ?thesis using assms False by (auto split: option.splits)
qed (use assms in \<open>simp add: sendItem_def\<close>)

lemma core_conserves_start: "core_conserves (sys_start eng m l)"
  by (auto simp: core_conserves_def sys_start_def is_heap_def phase_items_def defaultMaxQueued_def)

lemma core_conserves_step: "core_step s s' \<Longrightarrow> core_conserves s \<Longrightarrow> core_conserves s'"
proof (induction rule: core_step.induct)
  case (Refuse s data dst t sq dir r c b)
  then show ?case by (auto simp: core_conserves_def enqueue_full)
next
  case (Admit t s data dst sq dir r c isHead)
  have "eg_heap (co_eg (sy_core s))" using Admit.prems by (simp add: core_conserves_def)
  from Admit.hyps(2) this obtain c' where e: "enqueue_locked data dst t sq dir r (sy_core s) = (c', eg_ord (co_eg c' ! 0) = co_egOrd (sy_core s) + 1)"
    "eg_heap (co_eg c')" "mset (co_eg c') = add_mset (new_item data dst t sq dir r (sy_core s)) (mset (co_eg (sy_core s)))"
    "length (co_eg c') = Suc (length (co_eg (sy_core s)))"
    "co_maxQueued c' = co_maxQueued (sy_core s)" "co_fwd c' = co_fwd (sy_core s)" "co_closed c' = co_closed (sy_core s)"
    by (rule enqueue_admit [where data = data and dst = dst and t = t and sq = sq and dir = dir and r = r])
  then have "c = c'" using Admit.hyps(3) by simp
  then show ?case using Admit.prems Admit.hyps(2) e(2-7) by (auto simp: core_conserves_def)
next
  case (Pop s it c)
  have h: "eg_heap (co_eg (sy_core s))" using Pop.prems by (simp add: core_conserves_def)
  obtain it' c' where p: "egress_pop (sy_core s) = (it', c')" "eg_heap (co_eg c')"
    "mset (co_eg (sy_core s)) = add_mset it' (mset (co_eg c'))" "c' = (sy_core s)\<lparr>co_eg := co_eg c'\<rparr>"
    using egress_pop_spec [OF h Pop.hyps(2)] by metis
  have e: "it' = it" "c' = c" using p(1) Pop.hyps(3) by auto
  have l: "length (co_eg (sy_core s)) = Suc (length (co_eg c))"
    using arg_cong [OF p(3), of size] e by simp
  have u: "co_maxQueued c = co_maxQueued (sy_core s)" "co_fwd c = co_fwd (sy_core s)" "co_closed c = co_closed (sy_core s)"
    by (subst p(4) [unfolded e], simp)+
  show ?case using Pop.prems Pop.hyps(1) p(2,3) l u by (simp add: core_conserves_def phase_items_def e)
next
  case (Send s it c out)
  then show ?case using sendItem_cases [OF Send.hyps(2)]
    by (auto simp: core_conserves_def phase_items_def)
next
  case (Discard s it c)
  then show ?case using sendItem_cases [OF Discard.hyps(2)]
    by (auto simp: core_conserves_def phase_items_def)
qed (auto simp: core_conserves_def phase_items_def core_SetEngine_def core_EnableLedger_def)

lemma core_punctual_step: "core_step s s' \<Longrightarrow> core_conserves s \<Longrightarrow> core_punctual s \<Longrightarrow> core_punctual s'"
proof (induction rule: core_step.induct)
  case (Pop s it c)
  have h: "eg_heap (co_eg (sy_core s))" using Pop.prems(1) by (simp add: core_conserves_def)
  have "eg_at it \<le> sy_now s" using egress_pop_spec [OF h Pop.hyps(2)] Pop.hyps(3) by (metis Pair_inject)
  then show ?case using Pop.prems(2) by (simp add: core_punctual_def)
next
  case (Tick s t)
  then show ?case by (fastforce simp: core_punctual_def)
qed (auto simp: core_punctual_def)

lemma core_awake_step: "core_step s s' \<Longrightarrow> core_conserves s \<Longrightarrow> core_awake s \<Longrightarrow> core_awake s'"
proof (induction rule: core_step.induct)
  case (Refuse s data dst t sq dir r c b)
  then show ?case by (auto simp: core_awake_def enqueue_full split: phase.splits)
next
  case (Admit t s data dst sq dir r c isHead)
  have h: "eg_heap (co_eg (sy_core s))" using Admit.prems by (simp add: core_conserves_def)
  let ?it = "new_item data dst t sq dir r (sy_core s)"
  from Admit.hyps(2) h obtain c' where e: "enqueue_locked data dst t sq dir r (sy_core s) = (c', eg_ord (co_eg c' ! 0) = co_egOrd (sy_core s) + 1)"
    "mset (co_eg c') = add_mset ?it (mset (co_eg (sy_core s)))"
    "co_eg c' = heap_push egLess (co_eg (sy_core s)) ?it" "co_wake c' = co_wake (sy_core s)"
    by (rule enqueue_admit [where data = data and dst = dst and t = t and sq = sq and dir = dir and r = r])
  have c: "c = c'" "isHead = (eg_ord (co_eg c' ! 0) = eg_ord ?it)" using Admit.hyps(3) e(1) by auto
  have s: "set (co_eg c') = insert ?it (set (co_eg (sy_core s)))"
    using arg_cong [OF e(2), of set_mset] by simp
  show ?case
  proof (cases isHead)
    case True
    then show ?thesis using Admit.prems(2) Admit.hyps(1) s c(1) by (auto simp: core_awake_def)
  next
    case False
    then have "heap_push egLess (co_eg (sy_core s)) ?it ! 0 \<noteq> ?it" using c(2) e(3) by auto
    from push_not_head [OF h this] have "co_eg (sy_core s) \<noteq> []" "eg_at (co_eg c' ! 0) = eg_at (co_eg (sy_core s) ! 0)"
      by (simp_all add: e(3))
    then show ?thesis using Admit.prems(2) Admit.hyps(1) e(4) s c(1) False
      by (auto simp: core_awake_def split: phase.splits)
  qed
next
  case (Pop s it c)
  have h: "eg_heap (co_eg (sy_core s))" using Pop.prems(1) by (simp add: core_conserves_def)
  obtain c' where p: "egress_pop (sy_core s) = (it, c')" "mset (co_eg (sy_core s)) = add_mset it (mset (co_eg c'))"
    using egress_pop_spec [OF h Pop.hyps(2)] Pop.hyps(3) by (metis Pair_inject)
  have "set (co_eg c') \<subseteq> set (co_eg (sy_core s))" using arg_cong [OF p(2), of set_mset] by auto
  then show ?case using Pop.prems(2) Pop.hyps(3) p(1) by (auto simp: core_awake_def)
next
  case (Send s it c out)
  then show ?case using sendItem_cases [OF Send.hyps(2)] by (auto simp: core_awake_def)
next
  case (Discard s it c)
  then show ?case using sendItem_cases [OF Discard.hyps(2)] by (auto simp: core_awake_def)
next
  case (Arm s)
  have "sy_now s + egress_wait (sy_now s) (sy_core s) \<le> eg_at (co_eg (sy_core s) ! 0)"
    if ne: "co_eg (sy_core s) \<noteq> []"
  proof -
    have "in64 (eg_at (co_eg (sy_core s) ! 0))" "0 \<le> sy_now s" "sy_now s < eg_at (co_eg (sy_core s) ! 0)"
      using Arm.prems(2) Arm.hyps(2) ne by (auto simp: core_awake_def egress_due_def)
    then have "in64 (eg_at (co_eg (sy_core s) ! 0) - sy_now s)" by (simp add: in64_def)
    then show ?thesis using ne by (simp add: egress_wait_def Let_def i64_id)
  qed
  then show ?case using Arm.prems(2) by (auto simp: core_awake_def)
next
  case (Sleep s w t)
  then show ?case by (auto simp: core_awake_def)
qed (auto simp: core_awake_def core_SetEngine_def core_EnableLedger_def split: phase.splits)

text \<open>All three hold in every reachable state.\<close>

lemma core_reachable:
  assumes "core_step\<^sup>*\<^sup>* (sys_start eng maxQueued ledgerCap) s"
  shows "core_conserves s" "core_punctual s" "core_awake s"
proof -
  from assms have "core_conserves s \<and> core_punctual s \<and> core_awake s"
  proof (induction rule: rtranclp_induct)
    case base
    show ?case using core_conserves_start
      by (auto simp: core_punctual_def core_awake_def sys_start_def)
  next
    case (step s s')
    then show ?case using core_conserves_step core_punctual_step core_awake_step by blast
  qed
  then show "core_conserves s" "core_punctual s" "core_awake s" by auto
qed

end
