(* ===== verification/Relay.thy ===== *)
theory Relay
  imports RelayCore
begin

text \<open>
  The two real-socket drivers over the relay core: the single-port SRT relay of
  \<^verbatim>\<open>relay/relay.go\<close> and the dual-port RIST relay of \<^verbatim>\<open>ristrelay/ristrelay.go\<close>.
  A read loop is modelled as the handler of one datagram: it classifies the datagram by
  its source, learns the sender's address, taps the datagram and hands it to the core.
  The sockets, their deadlines and the goroutines are in theory \<open>Lifecycle\<close>; \<^verbatim>\<open>None\<close> is a panic.
\<close>

text \<open>The read loops read into a buffer of this size; longer datagrams are cut.\<close>

definition read_buffer :: nat where
  "read_buffer = 2048"

section \<open>The SRT relay\<close>

text \<open>\<^verbatim>\<open>netip.Addr\<close>: the zero value, which is no address, an IPv4 address, or an IPv6 address with
  its zone.\<close>

datatype ip_addr = IPNone | IP4 "32 word" | IP6 "128 word" string

record addr_port =
  ap_addr :: ip_addr
  ap_port :: uint16

fun addr_Unmap :: "ip_addr \<Rightarrow> ip_addr" where
  "addr_Unmap IPNone = IPNone"
| "addr_Unmap (IP4 a) = IP4 a"
| "addr_Unmap (IP6 a z) = (if drop_bit 32 a = 0xFFFF then IP4 (ucast a) else IP6 a z)"

definition normAddr :: "addr_port \<Rightarrow> addr_port" where
  "normAddr a = a\<lparr>ap_addr := addr_Unmap (ap_addr a)\<rparr>"

record relay =
  rl_core :: "(addr_port, bytes) core"
  rl_upstream :: addr_port
  rl_tap :: bool
  rl_sender :: "addr_port option"

definition WithLedger :: "int64 \<Rightarrow> int64" where
  "WithLedger capacity = (if capacity \<le> 0 then DefaultLedgerCap else capacity)"

definition relay_NewOn :: "cell engine \<Rightarrow> addr_port \<Rightarrow> bool \<Rightarrow> int64 option \<Rightarrow> relay" where
  "relay_NewOn eng upstream tap ledger =
     \<lparr>rl_core = core_New eng 16384 (case ledger of None \<Rightarrow> 0 | Some c \<Rightarrow> WithLedger c),
      rl_upstream = normAddr upstream, rl_tap = tap, rl_sender = None\<rparr>"

text \<open>One turn of \<^verbatim>\<open>loop\<close>: the relay's next state and what the tap saw.\<close>

definition relay_datagram :: "platform \<Rightarrow> addr_port \<Rightarrow> bytes \<Rightarrow> int64 \<Rightarrow> relay
    \<Rightarrow> (relay \<times> (direction \<times> bytes) list) option" where
  "relay_datagram pf rawSrc data recvAt r =
     (let src = normAddr rawSrc; pkt = take read_buffer data;
          route = (if src = rl_upstream r
            then (case rl_sender r of None \<Rightarrow> None | Some s \<Rightarrow> Some (S2C, s, r))
            else Some (C2S, rl_upstream r,
              if rl_sender r = None then r\<lparr>rl_sender := Some src\<rparr> else r))
      in case route of
           None \<Rightarrow> Some (r, [])
         | Some (dir, dst, r1) \<Rightarrow>
             (case core_Process pf pkt dir dst recvAt (rl_core r1) of
                None \<Rightarrow> None
              | Some c \<Rightarrow> Some (r1\<lparr>rl_core := c\<rparr>, if rl_tap r1 then [(dir, pkt)] else [])))"

definition relay_Stats :: "relay \<Rightarrow> uint64 \<times> uint64 \<times> uint64" where
  "relay_Stats r = core_Stats (rl_core r)"

fun relay_run :: "platform \<Rightarrow> (addr_port \<times> bytes \<times> int64) list \<Rightarrow> relay
    \<Rightarrow> (relay \<times> (direction \<times> bytes) list) option" where
  "relay_run pf [] r = Some (r, [])"
| "relay_run pf ((src, data, t) # ds) r =
     (case relay_datagram pf src data t r of None \<Rightarrow> None
      | Some (r1, t1) \<Rightarrow> (case relay_run pf ds r1 of None \<Rightarrow> None
        | Some (r2, t2) \<Rightarrow> Some (r2, t1 @ t2)))"

section \<open>Where datagrams go\<close>

lemma core_Process_Some:
  assumes "dir = C2S \<or> dir = S2C"
  obtains c' where "core_Process pf data dir dst r c = Some c'"
proof -
  have "Handle pf (co_eng c) \<lparr>pk_data = data, pk_dir = dir\<rparr> r \<noteq> None"
    using assms engine_Handle_None [of "cell_Process pf" cell_Name "co_eng c" "\<lparr>pk_data = data, pk_dir = dir\<rparr>" r]
      dir_cases [of dir] by auto
  then show thesis using that by (auto simp: core_Process_def)
qed

text \<open>Every queued forward goes to the upstream or to the one learned sender.\<close>

definition relay_inv :: "relay \<Rightarrow> bool" where
  "relay_inv r \<longleftrightarrow> core_ok (rl_core r) \<and>
     (\<forall>it \<in> set (co_eg (rl_core r)). eg_dst it = rl_upstream r \<or> Some (eg_dst it) = rl_sender r)"

lemma core_ok_New: "core_ok (core_New eng m l)"
  by (simp add: core_ok_def is_heap_def defaultMaxQueued_def)

lemma relay_inv_New: "relay_inv (relay_NewOn eng up tap led)"
  by (simp add: relay_inv_def relay_NewOn_def core_ok_New)

definition learns :: "relay \<Rightarrow> addr_port \<Rightarrow> addr_port option" where
  "learns r rawSrc = (if rl_sender r = None \<and> normAddr rawSrc \<noteq> rl_upstream r
     then Some (normAddr rawSrc) else rl_sender r)"

lemma relay_datagram_spec:
  assumes "relay_inv r"
  obtains r' tap where "relay_datagram pf rawSrc data t r = Some (r', tap)" "relay_inv r'"
    "rl_upstream r' = rl_upstream r" "rl_sender r' = learns r rawSrc" "rl_tap r' = rl_tap r"
    "tap = (if normAddr rawSrc = rl_upstream r
        then (if rl_sender r = None \<or> \<not> rl_tap r then [] else [(S2C, take read_buffer data)])
        else (if rl_tap r then [(C2S, take read_buffer data)] else []))"
    "normAddr rawSrc = rl_upstream r \<and> rl_sender r = None \<longrightarrow> r' = r"
    "normAddr rawSrc \<noteq> rl_upstream r \<or> rl_sender r \<noteq> None \<longrightarrow> (\<exists>eng acts.
      Handle pf (co_eng (rl_core r)) \<lparr>pk_data = take read_buffer data,
        pk_dir = (if normAddr rawSrc = rl_upstream r then S2C else C2S)\<rparr> t = Some (eng, acts) \<and>
      queue_gains (forwards_to (if normAddr rawSrc = rl_upstream r then the (rl_sender r) else rl_upstream r) acts)
        (rl_core r) (rl_core r'))"
proof -
  define route where "route = (if normAddr rawSrc = rl_upstream r
      then (case rl_sender r of None \<Rightarrow> None | Some s \<Rightarrow> Some (S2C, s, r))
      else Some (C2S, rl_upstream r,
        if rl_sender r = None then r\<lparr>rl_sender := Some (normAddr rawSrc)\<rparr> else r))"
  have d: "relay_datagram pf rawSrc data t r = (case route of None \<Rightarrow> Some (r, [])
      | Some (dir, dst, r1) \<Rightarrow> (case core_Process pf (take read_buffer data) dir dst t (rl_core r1) of
          None \<Rightarrow> None
        | Some c \<Rightarrow> Some (r1\<lparr>rl_core := c\<rparr>, if rl_tap r1 then [(dir, take read_buffer data)] else [])))"
    by (simp add: relay_datagram_def route_def Let_def)
  show thesis
  proof (cases route)
    case None
    then have "normAddr rawSrc = rl_upstream r" "rl_sender r = None"
      by (auto simp: route_def split: if_splits option.splits)
    then show thesis using d None by (intro that [of r "[]"]) (simp_all add: assms learns_def)
  next
    case (Some x)
    then obtain dir dst r1 where x: "route = Some (dir, dst, r1)" by (cases x) auto
    have r1: "dir = C2S \<or> dir = S2C" "rl_core r1 = rl_core r" "rl_upstream r1 = rl_upstream r" "rl_tap r1 = rl_tap r"
      "rl_sender r1 = learns r rawSrc" "dst = rl_upstream r \<or> Some dst = learns r rawSrc"
      "normAddr rawSrc = rl_upstream r \<longrightarrow> rl_sender r \<noteq> None \<and> dir = S2C"
      "normAddr rawSrc \<noteq> rl_upstream r \<longrightarrow> dir = C2S"
      "dir = (if normAddr rawSrc = rl_upstream r then S2C else C2S)"
      "dst = (if normAddr rawSrc = rl_upstream r then the (rl_sender r) else rl_upstream r)"
      using x by (auto simp: route_def learns_def split: if_splits option.splits)
    obtain c where c: "core_Process pf (take read_buffer data) dir dst t (rl_core r1) = Some c"
      by (rule core_Process_Some [OF r1(1)])
    have ok: "core_ok (rl_core r1)" using assms r1(2) by (simp add: relay_inv_def)
    obtain eng acts where h: "Handle pf (co_eng (rl_core r)) \<lparr>pk_data = take read_buffer data, pk_dir = dir\<rparr> t = Some (eng, acts)"
      and cs: "core_ok c" and q: "queue_gains (forwards_to dst acts) (rl_core r) c"
      using core_Process_spec [OF ok c] unfolding r1(2) by metis
    have old: "eg_dst it = rl_upstream r \<or> Some (eg_dst it) = learns r rawSrc"
      if "it \<in> set (co_eg (rl_core r))" for it
      using assms that by (auto simp: relay_inv_def learns_def)
    have "eg_dst it = rl_upstream r \<or> Some (eg_dst it) = learns r rawSrc" if it: "it \<in> set (co_eg c)" for it
    proof -
      have "eg_dst it = dst \<or> (\<exists>x\<in>set (co_eg (rl_core r)). eg_dst it = eg_dst x)" using queue_gains_dst [OF q] it by auto
      then show ?thesis using r1(6) old by metis
    qed
    then have inv: "relay_inv (r1\<lparr>rl_core := c\<rparr>)" using cs r1(3,5) by (simp add: relay_inv_def)
    have gains: "\<exists>eng acts. Handle pf (co_eng (rl_core r)) \<lparr>pk_data = take read_buffer data,
        pk_dir = (if normAddr rawSrc = rl_upstream r then S2C else C2S)\<rparr> t = Some (eng, acts) \<and>
      queue_gains (forwards_to (if normAddr rawSrc = rl_upstream r then the (rl_sender r) else rl_upstream r) acts)
        (rl_core r) (rl_core (r1\<lparr>rl_core := c\<rparr>))"
      using h q by (simp add: r1(9,10) [symmetric])
    show thesis
      by (rule that [OF _ inv _ _ _ _ _ impI [OF gains]]) (use d x c r1(1-8) in \<open>auto simp: learns_def\<close>)
  qed
qed

text \<open>A run never fails, and the sender is the first source that is not the upstream.\<close>

definition first_sender :: "addr_port \<Rightarrow> (addr_port \<times> bytes \<times> int64) list \<Rightarrow> addr_port option" where
  "first_sender up ds = List.find (\<lambda>a. a \<noteq> up) (map (\<lambda>d. normAddr (fst d)) ds)"

lemma relay_run_spec:
  assumes "relay_inv r"
  shows "\<exists>r' taps. relay_run pf ds r = Some (r', taps) \<and> relay_inv r' \<and> rl_upstream r' = rl_upstream r \<and>
    rl_sender r' = (case rl_sender r of None \<Rightarrow> first_sender (rl_upstream r) ds | Some s \<Rightarrow> Some s)"
  using assms
proof (induction ds arbitrary: r)
  case Nil
  then show ?case by (auto simp: first_sender_def split: option.split)
next
  case (Cons d ds)
  obtain src data t where e: "d = (src, data, t)" by (cases d)
  obtain r1 tap where r1: "relay_datagram pf src data t r = Some (r1, tap)" "relay_inv r1"
    "rl_upstream r1 = rl_upstream r" "rl_sender r1 = learns r src"
    by (rule relay_datagram_spec [OF Cons.prems, of pf src data t])
  obtain r2 taps where r2: "relay_run pf ds r1 = Some (r2, taps)" "relay_inv r2" "rl_upstream r2 = rl_upstream r1"
    "rl_sender r2 = (case rl_sender r1 of None \<Rightarrow> first_sender (rl_upstream r1) ds | Some s \<Rightarrow> Some s)"
    using Cons.IH [OF r1(2)] by blast
  show ?case using r1 r2 by (auto simp: e learns_def first_sender_def split: option.splits)
qed

lemma relay_run_snoc:
  assumes "relay_run pf ds r = Some (r1, taps)" "relay_datagram pf src data t r1 = Some (r2, tap)"
  shows "relay_run pf (ds @ [(src, data, t)]) r = Some (r2, taps @ tap)"
  using assms by (induction ds arbitrary: r taps) (auto split: option.splits prod.splits)

section \<open>The RIST relay\<close>

text \<open>\<^verbatim>\<open>net.UDPAddr\<close>; comparing two addresses leaves the zone aside.\<close>

record udp_addr =
  ua_ip :: bytes
  ua_port :: int64
  ua_zone :: string

definition v4InV6Prefix :: bytes where
  "v4InV6Prefix = [0, 0, 0, 0, 0, 0, 0, 0, 0, 0, 0xFF, 0xFF]"

text \<open>\<^verbatim>\<open>net.IP.Equal\<close>.\<close>

definition ip_Equal :: "bytes \<Rightarrow> bytes \<Rightarrow> bool" where
  "ip_Equal a b =
     (if length a = length b then a = b
      else if length a = 4 \<and> length b = 16 then take 12 b = v4InV6Prefix \<and> a = drop 12 b
      else if length a = 16 \<and> length b = 4 then take 12 a = v4InV6Prefix \<and> drop 12 a = b
      else False)"

definition udpEqual :: "udp_addr option \<Rightarrow> udp_addr option \<Rightarrow> bool" where
  "udpEqual a b = (case (a, b) of (Some x, Some y) \<Rightarrow> ua_port x = ua_port y \<and> ip_Equal (ua_ip x) (ua_ip y)
     | _ \<Rightarrow> False)"

record rist =
  rr_core :: "(udp_addr, bytes) core"
  rr_recvRTP :: udp_addr
  rr_recvRTCP :: udp_addr
  rr_tap :: bool
  rr_senderRTP :: "udp_addr option"
  rr_senderRTCP :: "udp_addr option"

definition rist_New :: "cell engine \<Rightarrow> udp_addr \<Rightarrow> bool \<Rightarrow> rist" where
  "rist_New eng recvMedia tap =
     \<lparr>rr_core = core_New eng 0 0, rr_recvRTP = recvMedia,
      rr_recvRTCP = \<lparr>ua_ip = ua_ip recvMedia, ua_port = i64 (ua_port recvMedia + 1), ua_zone = []\<rparr>, rr_tap = tap,
      rr_senderRTP = None, rr_senderRTCP = None\<rparr>"

definition rist_Stats :: "rist \<Rightarrow> uint64 \<times> uint64" where
  "rist_Stats r = (case core_Stats (rr_core r) of (f, d, t) \<Rightarrow> (f, d))"

definition observe :: "rist \<Rightarrow> bytes \<Rightarrow> bytes list" where
  "observe r data = (if rr_tap r then [data] else [])"

text \<open>One turn of \<^verbatim>\<open>mediaLoop\<close>.\<close>

definition rist_media :: "platform \<Rightarrow> udp_addr \<Rightarrow> bytes \<Rightarrow> int64 \<Rightarrow> rist \<Rightarrow> (rist \<times> bytes list) option" where
  "rist_media pf src data recvAt r =
     (let pkt = take read_buffer data; tapped = observe r pkt;
          route = (if udpEqual (Some src) (Some (rr_recvRTP r))
            then (case rr_senderRTP r of None \<Rightarrow> None | Some s \<Rightarrow> Some (S2C, s, r))
            else Some (C2S, rr_recvRTP r,
              if rr_senderRTP r = None then r\<lparr>rr_senderRTP := Some src\<rparr> else r))
      in case route of
           None \<Rightarrow> Some (r, tapped)
         | Some (dir, dst, r1) \<Rightarrow>
             (case core_Process pf pkt dir dst recvAt (rr_core r1) of
                None \<Rightarrow> None | Some c \<Rightarrow> Some (r1\<lparr>rr_core := c\<rparr>, tapped)))"

text \<open>One turn of \<^verbatim>\<open>rtcpLoop\<close>: what is written to the RTCP socket, at once.\<close>

definition rist_rtcp :: "udp_addr \<Rightarrow> bytes \<Rightarrow> rist \<Rightarrow> rist \<times> bytes list \<times> (udp_addr \<times> bytes) option" where
  "rist_rtcp src data r =
     (let pkt = take read_buffer data; tapped = observe r pkt
      in if udpEqual (Some src) (Some (rr_recvRTCP r))
         then (case rr_senderRTCP r of None \<Rightarrow> (r, tapped, None) | Some s \<Rightarrow> (r, tapped, Some (s, pkt)))
         else ((if rr_senderRTCP r = None then r\<lparr>rr_senderRTCP := Some src\<rparr> else r), tapped,
               Some (rr_recvRTCP r, pkt)))"

text \<open>RTCP passes whole, at once and to the right peer, whatever the engine does to the
  media, and it does not touch the media path.\<close>

lemma rist_rtcp_clean:
  assumes "length data \<le> read_buffer"
  shows "rr_core (fst (rist_rtcp src data r)) = rr_core r"
    "rr_senderRTP (fst (rist_rtcp src data r)) = rr_senderRTP r"
    "\<not> udpEqual (Some src) (Some (rr_recvRTCP r)) \<Longrightarrow>
      snd (snd (rist_rtcp src data r)) = Some (rr_recvRTCP r, data)"
    "udpEqual (Some src) (Some (rr_recvRTCP r)) \<Longrightarrow> rr_senderRTCP r = Some s \<Longrightarrow>
      snd (snd (rist_rtcp src data r)) = Some (s, data)"
  using assms by (auto simp: rist_rtcp_def Let_def split: option.split)

lemma rist_rtcp_core_free:
  "snd (rist_rtcp src data (r\<lparr>rr_core := c, rr_senderRTP := s\<rparr>)) = snd (rist_rtcp src data r)"
  by (auto simp: rist_rtcp_def Let_def observe_def split: option.split)

lemma ip_Equal_sym: "ip_Equal a b = ip_Equal b a"
  by (auto simp: ip_Equal_def)

lemma rist_media_Some:
  obtains r' tap where "rist_media pf src data t r = Some (r', tap)"
    "rr_senderRTCP r' = rr_senderRTCP r" "rr_recvRTP r' = rr_recvRTP r"
    "rr_senderRTP r \<noteq> None \<Longrightarrow> rr_senderRTP r' = rr_senderRTP r"
proof -
  define route where "route = (if udpEqual (Some src) (Some (rr_recvRTP r))
      then (case rr_senderRTP r of None \<Rightarrow> None | Some s \<Rightarrow> Some (S2C, s, r))
      else Some (C2S, rr_recvRTP r, if rr_senderRTP r = None then r\<lparr>rr_senderRTP := Some src\<rparr> else r))"
  have d: "rist_media pf src data t r = (case route of None \<Rightarrow> Some (r, observe r (take read_buffer data))
      | Some (dir, dst, r1) \<Rightarrow> (case core_Process pf (take read_buffer data) dir dst t (rr_core r1) of
          None \<Rightarrow> None | Some c \<Rightarrow> Some (r1\<lparr>rr_core := c\<rparr>, observe r (take read_buffer data))))"
    by (simp add: rist_media_def route_def Let_def)
  show thesis
  proof (cases route)
    case None
    then show thesis using that d by simp
  next
    case (Some x)
    then obtain dir dst r1 where x: "route = Some (dir, dst, r1)" by (cases x) auto
    then have r1: "dir = C2S \<or> dir = S2C" "rr_senderRTCP r1 = rr_senderRTCP r" "rr_recvRTP r1 = rr_recvRTP r"
      "rr_senderRTP r \<noteq> None \<Longrightarrow> rr_senderRTP r1 = rr_senderRTP r"
      by (auto simp: route_def split: if_splits option.splits)
    obtain c where c: "core_Process pf (take read_buffer data) dir dst t (rr_core r1) = Some c"
      by (rule core_Process_Some [OF r1(1)])
    show thesis
    proof (rule that)
      show "rist_media pf src data t r = Some (r1\<lparr>rr_core := c\<rparr>, observe r (take read_buffer data))"
        by (simp add: d x c)
    qed (use r1 in simp_all)
  qed
qed

end
