(* ===== verification/RelayProperties.thy ===== *)
theory RelayProperties
  imports Relay
begin

text \<open>
  The properties of the relay datapath: what the queue and the egress goroutine guarantee
  under every interleaving, in which order forwards leave, how a datagram is accounted for,
  what the delay ledger records, and where the two relay drivers send what they read.
\<close>

section \<open>Concrete states\<close>

definition idle_platform :: platform where
  "idle_platform = \<lparr>math_log = \<lambda>x. Fin 0, math_cos = \<lambda>x. Fin 1, math_sqrt = \<lambda>x. Fin 0,
     math_pow = \<lambda>x y. Fin 1, conv_overflow = \<lambda>x. 0, fused = NoFuse\<rparr>"

definition clean_engine :: "cell engine" where
  "clean_engine = engine_New [] []"

text \<open>The state after an admission, as \<open>core_step\<close> has it.\<close>

definition admit :: "bytes \<Rightarrow> 'd \<Rightarrow> int64 \<Rightarrow> uint64 \<Rightarrow> ('d, bytes) sys \<Rightarrow> ('d, bytes) sys" where
  "admit data dst t sq s = (case enqueue_locked data dst t sq C2S 0 (sy_core s) of (c, isHead) \<Rightarrow>
     s\<lparr>sy_core := c, sy_signals := sy_signals s + (if isHead then 1 else 0),
       sy_admitted := add_mset (new_item data dst t sq C2S 0 (sy_core s)) (sy_admitted s)\<rparr>)"

lemma admit_step:
  assumes "in64 t" "int (length (co_eg (sy_core s))) < co_maxQueued (sy_core s)"
  shows "core_step s (admit data dst t sq s)"
  using core_step.Admit [OF assms] by (simp add: admit_def split: prod.split)

text \<open>A relay with a ledger of two slots that has queued a forward for time 5, then one for
  time 3, and whose clock stands at 4.\<close>

definition quiet_sys :: "(nat, bytes) sys" where
  "quiet_sys = sys_start clean_engine 10 2"

definition busy_sys :: "(nat, bytes) sys" where
  "busy_sys = (admit [2] 7 3 2 (admit [1] 7 5 1 quiet_sys))\<lparr>sy_now := 4\<rparr>"

definition late_item :: "(nat, bytes) egItem" where
  "late_item = \<lparr>eg_at = 5, eg_ord = 1, eg_data = [1], eg_dst = 7, eg_led = \<lparr>h_slot = 0, h_gen = 1\<rparr>\<rparr>"

definition soon_item :: "(nat, bytes) egItem" where
  "soon_item = \<lparr>eg_at = 3, eg_ord = 2, eg_data = [2], eg_dst = 7, eg_led = \<lparr>h_slot = 1, h_gen = 1\<rparr>\<rparr>"

lemma heap_push_small:
  "heap_push lt [] x = [x]" "heap_push lt [a] x = (if lt x a then [x, a] else [a, x])"
  by (simp_all add: heap_push_def heap_up.simps swap_def Let_def)

lemma heap_pop_small: "heap_pop lt [a, b] = (a, [b])" "heap_pop lt [a] = (a, [])"
  by (simp_all add: heap_pop_def heap_down.simps swap_def Let_def)

lemmas queue_eval = admit_def enqueue_locked_def new_item_def enqueue_ledger_def quiet_sys_def sys_start_def core_New_def newLedger_def
  ledger_start_def heap_push_small egLess_def late_item_def soon_item_def go_mod_nonneg i64_id in64_def

lemma first_admission:
  "co_eg (sy_core (admit [1] 7 5 1 quiet_sys)) = [late_item]"
  "co_maxQueued (sy_core (admit [1] 7 5 1 quiet_sys)) = 10"
  by (simp_all add: queue_eval Let_def)

lemma busy_sys_simps:
  "co_eg (sy_core busy_sys) = [soon_item, late_item]" "co_closed (sy_core busy_sys) = False"
  "sy_phase busy_sys = Checking" "sy_now busy_sys = 4" "sy_admitted busy_sys = {#soon_item, late_item#}"
  "sy_sent busy_sys = []"
  by (simp_all add: busy_sys_def queue_eval Let_def numeral_2_eq_2)

lemma busy_sys_reachable: "core_step\<^sup>*\<^sup>* quiet_sys busy_sys"
proof -
  have "core_step quiet_sys (admit [1] 7 5 1 quiet_sys)"
    by (rule admit_step) (simp_all add: in64_def quiet_sys_def sys_start_def)
  moreover have "core_step (admit [1] 7 5 1 quiet_sys) (admit [2] 7 3 2 (admit [1] 7 5 1 quiet_sys))"
    by (rule admit_step) (simp_all add: in64_def first_admission)
  moreover have "core_step (admit [2] 7 3 2 (admit [1] 7 5 1 quiet_sys)) busy_sys"
    unfolding busy_sys_def
    by (rule core_step.Tick) (simp_all add: in64_def admit_def quiet_sys_def sys_start_def split: prod.split)
  ultimately show ?thesis by (meson rtranclp.rtrancl_into_rtrancl rtranclp.rtrancl_refl)
qed

lemma send_soon: "\<exists>c. sendItem 4 soon_item (snd (egress_pop (sy_core busy_sys))) = Some (c, Some (7, [2]))"
  by (simp add: busy_sys_def queue_eval Let_def numeral_2_eq_2 sendItem_def egress_pop_def heap_pop_small
      ledger_finalize_def)

text \<open>The earlier forward leaves first.\<close>

lemma soon_sent:
  "\<exists>s. core_step\<^sup>*\<^sup>* busy_sys s \<and> sy_sent s = [(soon_item, 4)] \<and> sy_admitted s = sy_admitted busy_sys \<and>
    \<not> co_closed (sy_core s) \<and> sy_phase s = Checking \<and> sy_now s = 4 \<and> co_eg (sy_core s) = [late_item]"
proof -
  obtain c where send: "sendItem 4 soon_item (snd (egress_pop (sy_core busy_sys))) = Some (c, Some (7, [2]))"
    using send_soon by blast
  have pop: "egress_pop (sy_core busy_sys) = (soon_item, snd (egress_pop (sy_core busy_sys)))"
    "co_eg (snd (egress_pop (sy_core busy_sys))) = [late_item]"
    by (simp_all add: egress_pop_def busy_sys_simps heap_pop_small)
  have c: "\<not> co_closed c" "co_eg c = [late_item]" using sendItem_cases [OF send] pop(2) by auto
  let ?s = "busy_sys\<lparr>sy_core := snd (egress_pop (sy_core busy_sys)), sy_phase := Sending soon_item\<rparr>"
  let ?t = "?s\<lparr>sy_core := c, sy_phase := Checking, sy_sent := sy_sent ?s @ [(soon_item, sy_now ?s)]\<rparr>"
  have "core_step busy_sys ?s"
    by (rule core_step.Pop [OF _ _ pop(1)]) (simp_all add: busy_sys_simps egress_due_def soon_item_def)
  moreover have "core_step ?s ?t"
    by (rule core_step.Send) (use send in \<open>simp_all add: busy_sys_simps\<close>)
  ultimately have "core_step\<^sup>*\<^sup>* busy_sys ?t" by simp
  then show ?thesis using c by (intro exI [of _ ?t]) (simp add: busy_sys_simps)
qed

lemma sent_reachable: "\<exists>s. core_step\<^sup>*\<^sup>* quiet_sys s \<and> sy_sent s = [(soon_item, 4)]"
  using soon_sent busy_sys_reachable by (meson rtranclp_trans)

lemma both_admitted:
  "co_eg (sy_core (admit [2] 7 3 2 (admit [1] 7 5 1 quiet_sys))) = [soon_item, late_item]"
  "sy_signals (admit [2] 7 3 2 (admit [1] 7 5 1 quiet_sys)) = 2"
  "sy_phase (admit [2] 7 3 2 (admit [1] 7 5 1 quiet_sys)) = Checking"
  "sy_now (admit [2] 7 3 2 (admit [1] 7 5 1 quiet_sys)) = 0"
  by (simp_all add: queue_eval Let_def numeral_2_eq_2)

text \<open>Computing a wait and starting the timer, at one reading of the clock.\<close>

lemma falls_asleep:
  assumes "sy_phase s = Checking" "\<not> egress_due (sy_now s) (sy_core s)"
  shows "core_step\<^sup>*\<^sup>* s (s\<lparr>sy_phase := Sleeping (sy_now s + egress_wait (sy_now s) (sy_core s)) 0\<rparr>)"
proof -
  let ?a = "s\<lparr>sy_phase := Arming (egress_wait (sy_now s) (sy_core s)) (sy_now s)\<rparr>"
  have "core_step s ?a" using assms by (rule core_step.Arm)
  moreover have "core_step ?a (?a\<lparr>sy_phase := Sleeping (sy_now ?a + egress_wait (sy_now s) (sy_core s)) (sy_now ?a - sy_now s)\<rparr>)"
    by (rule core_step.Sleep) simp
  ultimately show ?thesis by simp
qed

lemma sleeping_reachable:
  "\<exists>s. core_step\<^sup>*\<^sup>* quiet_sys s \<and> sy_phase s = Sleeping 3 0 \<and> co_eg (sy_core s) = [soon_item, late_item] \<and>
    sy_signals s = 0 \<and> \<not> co_wake (sy_core s)"
proof -
  let ?a = "admit [2] 7 3 2 (admit [1] 7 5 1 quiet_sys)"
  let ?w = "\<lambda>b. (sy_core ?a)\<lparr>co_wake := b\<rparr>"
  have a: "core_step\<^sup>*\<^sup>* quiet_sys ?a"
  proof -
    have "core_step quiet_sys (admit [1] 7 5 1 quiet_sys)"
      by (rule admit_step) (simp_all add: in64_def quiet_sys_def sys_start_def)
    moreover have "core_step (admit [1] 7 5 1 quiet_sys) ?a"
      by (rule admit_step) (simp_all add: in64_def first_admission)
    ultimately show ?thesis by simp
  qed
  let ?b = "?a\<lparr>sy_core := ?w True, sy_signals := 1\<rparr>"
  let ?c = "?b\<lparr>sy_core := (sy_core ?b)\<lparr>co_wake := True\<rparr>, sy_signals := 0\<rparr>"
  have b: "core_step ?a ?b" by (rule core_step.Signal) (simp add: both_admitted)
  have c: "core_step ?b ?c" by (rule core_step.Signal) simp
  have w: "egress_wait 0 ((sy_core ?a)\<lparr>co_wake := x\<rparr>) = 3" "\<not> egress_due 0 ((sy_core ?a)\<lparr>co_wake := x\<rparr>)" for x
    by (simp_all add: egress_wait_def egress_due_def both_admitted soon_item_def hour_def i64_id in64_def)
  have d: "core_step\<^sup>*\<^sup>* ?c (?c\<lparr>sy_phase := Sleeping 3 0\<rparr>)"
    using falls_asleep [of ?c] w [of True] by (simp add: both_admitted)
  let ?e = "?c\<lparr>sy_core := ?w False, sy_phase := Checking\<rparr>"
  have e: "core_step (?c\<lparr>sy_phase := Sleeping 3 0\<rparr>) ?e"
    using core_step.Woken [of "?c\<lparr>sy_phase := Sleeping 3 0\<rparr>" 3 0] by simp
  have f: "core_step\<^sup>*\<^sup>* ?e (?e\<lparr>sy_phase := Sleeping 3 0\<rparr>)"
    using falls_asleep [of ?e] w [of False] by (simp add: both_admitted)
  have "core_step\<^sup>*\<^sup>* quiet_sys (?e\<lparr>sy_phase := Sleeping 3 0\<rparr>)"
    using a b c d e f by (meson rtranclp.rtrancl_into_rtrancl rtranclp_trans)
  then show ?thesis
    by (intro exI [of _ "?e\<lparr>sy_phase := Sleeping 3 0\<rparr>"]) (simp add: both_admitted)
qed

section \<open>A datagram as a run of the goroutines' steps\<close>

text \<open>Processing a datagram is a run of the enqueuer's steps: one \<open>Dropped\<close> for every dropped action and,
  for every forward, \<open>Refuse\<close> or \<open>Admit\<close> with that action's payload and time, and \<open>Signal\<close> when it became
  the head. What the run admits are forwards of the engine's.\<close>

definition core_runs :: "('d, bytes) sys \<Rightarrow> ('d, bytes) core \<Rightarrow> (int64 \<times> 'd \<times> bytes) multiset \<Rightarrow> bool" where
  "core_runs s c F \<longleftrightarrow> (\<exists>N. core_step\<^sup>*\<^sup>* s (s\<lparr>sy_core := c, sy_admitted := sy_admitted s + N\<rparr>) \<and> image_mset eg_view N \<subseteq># F)"

lemma core_runs_trans:
  assumes "core_runs s c F" "\<And>A. core_runs (s\<lparr>sy_core := c, sy_admitted := A\<rparr>) d G"
  shows "core_runs s d (F + G)"
proof -
  obtain M where M: "core_step\<^sup>*\<^sup>* s (s\<lparr>sy_core := c, sy_admitted := sy_admitted s + M\<rparr>)" "image_mset eg_view M \<subseteq># F"
    using assms(1) by (auto simp: core_runs_def)
  let ?s = "s\<lparr>sy_core := c, sy_admitted := sy_admitted s + M\<rparr>"
  obtain N where N: "core_step\<^sup>*\<^sup>* ?s (?s\<lparr>sy_core := d, sy_admitted := sy_admitted ?s + N\<rparr>)" "image_mset eg_view N \<subseteq># G"
    using assms(2) unfolding core_runs_def by blast
  have "core_step\<^sup>*\<^sup>* s (s\<lparr>sy_core := d, sy_admitted := sy_admitted s + (M + N)\<rparr>)"
    using rtranclp_trans [OF M(1) N(1)] by (simp add: add.assoc)
  moreover have "image_mset eg_view (M + N) \<subseteq># F + G" using M(2) N(2) by (simp add: subset_mset.add_mono)
  ultimately show ?thesis unfolding core_runs_def by blast
qed

lemma core_runs_quiet: "core_step s (s\<lparr>sy_core := c\<rparr>) \<Longrightarrow> core_runs s c {#}"
  unfolding core_runs_def by (rule exI [of _ "{#}"]) auto

lemma enqueue_runs:
  assumes "in64 t" "sy_core s = c"
  shows "core_runs s (enqueue data dst t sq dir r c) {#(t, dst, data)#}"
proof -
  obtain c1 b where e: "enqueue_locked data dst t sq dir r c = (c1, b)" by force
  show ?thesis
  proof (cases "int (length (co_eg c)) < co_maxQueued c")
    case False
    then have "core_step s (s\<lparr>sy_core := c1\<rparr>)"
      using core_step.Refuse [of s data dst t sq dir r c1 b] e assms(2) by simp
    moreover have "enqueue data dst t sq dir r c = c1" using False e by (simp add: enqueue_def enqueue_full)
    ultimately show ?thesis unfolding core_runs_def by (intro exI [of _ "{#}"]) auto
  next
    case True
    let ?it = "new_item data dst t sq dir r c"
    let ?a = "s\<lparr>sy_core := c1, sy_signals := sy_signals s + (if b then 1 else 0), sy_admitted := add_mset ?it (sy_admitted s)\<rparr>"
    let ?e = "s\<lparr>sy_core := enqueue data dst t sq dir r c, sy_admitted := sy_admitted s + {#?it#}\<rparr>"
    have a: "core_step s ?a" using core_step.Admit [of t s data dst sq dir r c1 b] assms True e by simp
    have "core_step\<^sup>*\<^sup>* ?a ?e"
    proof (cases b)
      case False
      then show ?thesis by (simp add: enqueue_def e)
    next
      case True
      then have "core_step ?a ?e" using core_step.Signal [of ?a "sy_signals s"] by (cases s) (simp add: enqueue_def e)
      then show ?thesis by (rule r_into_rtranclp)
    qed
    with a have "core_step\<^sup>*\<^sup>* s ?e" by (rule converse_rtranclp_into_rtranclp)
    then show ?thesis unfolding core_runs_def by (intro exI [of _ "{#?it#}"]) simp
  qed
qed

lemma core_actions_run:
  assumes "\<forall>a \<in> set acts. in64 (act_deliver_at a)" "sy_core s = c"
  shows "core_runs s (foldl (core_action dir dst r) c acts) (forwards_to dst acts)"
  using assms
proof (induction acts arbitrary: c s)
  case Nil
  then show ?case by (auto simp: core_runs_def forwards_to_def intro!: exI [of _ "{#}"])
next
  case (Cons a acts)
  have "core_runs s (core_action dir dst r c a) (if act_kind a = Forward then {#(act_deliver_at a, dst, act_data a)#} else {#})"
  proof (cases "act_kind a")
    case Forward
    then show ?thesis using enqueue_runs [of "act_deliver_at a" s c] Cons.prems by (simp add: core_action_def)
  next
    case Drop
    then show ?thesis using core_step.Dropped [of s] Cons.prems(2) by (simp add: core_action_def core_runs_quiet)
  qed
  then show ?case unfolding forwards_to_Cons foldl_Cons
    by (rule core_runs_trans) (rule Cons.IH; use Cons.prems in simp)
qed

lemma datagram_is_run:
  assumes "core_Process pf data dir dst r (sy_core s) = Some c"
    and "Handle pf (co_eng (sy_core s)) \<lparr>pk_data = data, pk_dir = dir\<rparr> r = Some (eng, acts)"
    and "\<forall>a \<in> set acts. in64 (act_deliver_at a)"
  shows "core_runs s c (forwards_to dst acts)"
proof -
  have c: "c = foldl (core_action dir dst r) (core_SetEngine eng (sy_core s)) acts"
    using assms(1,2) by (simp add: core_Process_def core_SetEngine_def)
  have "core_runs s (core_SetEngine eng (sy_core s)) {#}" by (rule core_runs_quiet) (rule core_step.SetEngine)
  then have "core_runs s c ({#} + forwards_to dst acts)"
    unfolding c by (rule core_runs_trans) (rule core_actions_run; use assms(3) in simp)
  then show ?thesis by simp
qed

section \<open>The queue and the egress goroutine\<close>

text \<open>C2. Conservation: whatever the interleaving of enqueuers, the egress goroutine, clock
  ticks, engine and ledger swaps and the close, every admitted forward is in the queue, is
  being written, has been written, or was discarded after the close; the forward counter
  counts the writes, and the queue stays within its bound.\<close>

theorem relay_conserves_forwards:
  assumes "core_step\<^sup>*\<^sup>* (sys_start eng maxQueued ledgerCap) s"
  shows "sy_admitted s = mset (co_eg (sy_core s)) + phase_items (sy_phase s)
      + mset (map fst (sy_sent s)) + sy_discarded s \<and>
    co_fwd (sy_core s) = of_nat (length (sy_sent s)) \<and>
    int (length (co_eg (sy_core s))) \<le> co_maxQueued (sy_core s) \<and>
    (sy_discarded s \<noteq> {#} \<longrightarrow> co_closed (sy_core s))"
  using core_reachable(1) [OF assms] by (auto simp: core_conserves_def)

theorem relay_conserves_forwards_witness:
  "sy_admitted busy_sys = {#soon_item, late_item#} \<and>
   {#soon_item, late_item#} = mset (co_eg (sy_core busy_sys)) + phase_items (sy_phase busy_sys)
     + mset (map fst (sy_sent busy_sys)) + sy_discarded busy_sys"
  using relay_conserves_forwards [OF busy_sys_reachable [unfolded quiet_sys_def]] busy_sys_simps by simp

text \<open>C5. Never early: no forward is written to the socket before its delivery time.\<close>

theorem relay_never_sends_early:
  assumes "core_step\<^sup>*\<^sup>* (sys_start eng maxQueued ledgerCap) s"
  shows "\<forall>(it, t) \<in> set (sy_sent s). eg_at it \<le> t \<and> t \<le> sy_now s"
  using core_reachable(2) [OF assms] by (auto simp: core_punctual_def)

theorem relay_never_sends_early_witness:
  "\<exists>s :: (nat, bytes) sys. sy_sent s = [(soon_item, 4)] \<and> (\<forall>(it, t) \<in> set (sy_sent s). eg_at it \<le> t \<and> t \<le> sy_now s)"
  using sent_reachable relay_never_sends_early [of clean_engine 10 2] unfolding quiet_sys_def by blast

text \<open>C9. No lost wake-up: while the egress goroutine sleeps with forwards in the queue, a
  wake-up is pending, or an enqueuer is about to signal one, or the timer fires no later
  than the earliest delivery time, but for the time it took to start the timer.\<close>

theorem relay_no_lost_wakeup:
  assumes "core_step\<^sup>*\<^sup>* (sys_start eng maxQueued ledgerCap) s"
    and "sy_phase s = Sleeping deadline lag" "co_eg (sy_core s) \<noteq> []"
    and "sy_signals s = 0" "\<not> co_wake (sy_core s)"
  shows "\<forall>it \<in> set (co_eg (sy_core s)). deadline \<le> eg_at it + lag"
proof
  fix it assume it: "it \<in> set (co_eg (sy_core s))"
  have "eg_heap (co_eg (sy_core s))" using core_reachable(1) [OF assms(1)] by (simp add: core_conserves_def)
  then have "egKey (co_eg (sy_core s) ! 0) \<le> egKey it" using it by (intro egq.head_least) auto
  then have "eg_at (co_eg (sy_core s) ! 0) \<le> eg_at it" by (auto simp: egKey_def less_eq_prod_def)
  moreover have "deadline \<le> eg_at (co_eg (sy_core s) ! 0) + lag"
    using core_reachable(3) [OF assms(1)] assms(2-5) by (simp add: core_awake_def)
  ultimately show "deadline \<le> eg_at it + lag" by simp
qed

theorem relay_no_lost_wakeup_witness:
  "\<exists>s :: (nat, bytes) sys. sy_phase s = Sleeping 3 0 \<and> co_eg (sy_core s) = [soon_item, late_item] \<and>
    (\<forall>it \<in> set (co_eg (sy_core s)). 3 \<le> eg_at it + 0)"
  using sleeping_reachable relay_no_lost_wakeup [of clean_engine 10 2 _ 3 0]
  unfolding quiet_sys_def by fastforce

text \<open>The egress goroutine's run from a state \<open>s\<close> in which nothing is admitted and the core stays
  open: what it has written since, what it has in hand and what is still queued make up the queue
  of \<open>s\<close>, in the heap's order.\<close>

definition drained :: "('d, 'b) sys \<Rightarrow> ('d, 'b) sys \<Rightarrow> (('d, 'b) egItem \<times> int) list \<Rightarrow> bool" where
  "drained s u new \<longleftrightarrow> sy_sent u = sy_sent s @ new \<and>
     mset (co_eg (sy_core s)) = mset (map fst new) + phase_items (sy_phase u) + mset (co_eg (sy_core u)) \<and>
     sorted (map (egKey \<circ> fst) new) \<and>
     (\<forall>p \<in> set new. \<forall>x \<in># phase_items (sy_phase u) + mset (co_eg (sy_core u)). egKey (fst p) \<le> egKey x) \<and>
     (\<forall>p \<in># phase_items (sy_phase u). \<forall>x \<in> set (co_eg (sy_core u)). egKey p \<le> egKey x) \<and>
     (\<forall>w t. sy_phase u = Arming w t \<longrightarrow> (\<forall>p \<in> set new. eg_at (fst p) \<le> t) \<and> (\<forall>x \<in> set (co_eg (sy_core u)). t < eg_at x))"

lemma core_step_grows:
  "core_step s s' \<Longrightarrow> sy_admitted s \<subseteq># sy_admitted s' \<and> (co_closed (sy_core s) \<longrightarrow> co_closed (sy_core s'))"
proof (induction rule: core_step.induct)
  case (Refuse s data dst t sq dir r c b)
  then show ?case by (auto simp: enqueue_full)
next
  case (Admit t s data dst sq dir r c isHead)
  then show ?case by (auto simp: enqueue_locked_def Let_def)
next
  case (Pop s it c)
  then show ?case by (auto simp: egress_pop_def split: prod.splits)
next
  case (Send s it c out)
  then show ?case using sendItem_cases [OF Send.hyps(2)] by auto
next
  case (Discard s it c)
  then show ?case using sendItem_cases [OF Discard.hyps(2)] by auto
qed (auto simp: core_SetEngine_def core_EnableLedger_def)

lemma eg_heap_head_due:
  assumes "eg_heap (co_eg c)" "\<not> egress_due now c" "x \<in> set (co_eg c)"
  shows "now < eg_at x"
proof -
  have "egKey (co_eg c ! 0) \<le> egKey x" using egq.head_least [OF assms(1), of x] assms(3) by simp
  then have "eg_at (co_eg c ! 0) \<le> eg_at x" by (auto simp: egKey_def less_eq_prod_def)
  moreover have "now < eg_at (co_eg c ! 0)" using assms(2,3) by (auto simp: egress_due_def)
  ultimately show ?thesis by simp
qed

lemma drained_step:
  assumes "core_step u v" "core_conserves u" "core_punctual u" "drained s u new"
    "sy_admitted v = sy_admitted u" "\<not> co_closed (sy_core v)"
  shows "\<exists>new'. drained s v new'"
  using assms
proof (induction rule: core_step.induct)
  case (Refuse u data dst t sq dir r c b)
  then show ?case by (intro exI [of _ new]) (auto simp: drained_def enqueue_full)
next
  case (Pop u it c)
  have h: "eg_heap (co_eg (sy_core u))" using Pop.prems(1) by (simp add: core_conserves_def)
  obtain c' where p: "egress_pop (sy_core u) = (it, c')" "mset (co_eg (sy_core u)) = add_mset it (mset (co_eg c'))"
    "\<forall>x\<in>set (co_eg c'). egKey it \<le> egKey x"
    using egress_pop_spec [OF h Pop.hyps(2)] Pop.hyps(3) by (metis Pair_inject)
  have c: "c' = c" using p(1) Pop.hyps(3) by simp
  show ?case using Pop.prems(3) Pop.hyps(1) p(3)
    by (intro exI [of _ new]) (simp add: drained_def phase_items_def p(2) c)
next
  case (Send u it c out)
  have c: "co_eg c = co_eg (sy_core u)" using sendItem_cases [OF Send.hyps(2)] by auto
  show ?case using Send.prems(3) Send.hyps(1)
    by (intro exI [of _ "new @ [(it, sy_now u)]"]) (auto simp: drained_def phase_items_def c sorted_append)
next
  case (Discard u it c)
  then show ?case using sendItem_cases [OF Discard.hyps(2)] by auto
next
  case (Arm u)
  have h: "eg_heap (co_eg (sy_core u))" using Arm.prems(1) by (simp add: core_conserves_def)
  have "\<forall>p \<in> set (sy_sent u). eg_at (fst p) \<le> sy_now u" using Arm.prems(2) by (fastforce simp: core_punctual_def)
  then show ?case using Arm.prems(3) Arm.hyps(1) eg_heap_head_due [OF h Arm.hyps(2)]
    by (intro exI [of _ new]) (auto simp: drained_def phase_items_def)
qed (auto simp: drained_def phase_items_def core_SetEngine_def core_EnableLedger_def intro!: exI [of _ new])

lemma drained_run:
  assumes "core_step\<^sup>*\<^sup>* s u" "core_step\<^sup>*\<^sup>* (sys_start eng m l) s" "sy_phase s = Checking"
    "sy_admitted u = sy_admitted s" "\<not> co_closed (sy_core u)"
  shows "\<exists>new. drained s u new"
  using assms
proof (induction rule: rtranclp_induct)
  case base
  then show ?case by (intro exI [of _ "[]"]) (simp add: drained_def phase_items_def)
next
  case (step u v)
  have "sy_admitted s \<subseteq># sy_admitted u" using step.hyps(1)
    by (induction rule: rtranclp_induct) (auto dest: core_step_grows intro: subset_mset.order_trans)
  then have a: "sy_admitted v = sy_admitted u" "sy_admitted u = sy_admitted s" "\<not> co_closed (sy_core u)"
    using core_step_grows [OF step.hyps(2)] step.prems by (auto dest: subset_mset.antisym)
  obtain new where d: "drained s u new" using step.IH step.prems(1,2) a by blast
  have "core_step\<^sup>*\<^sup>* (sys_start eng m l) u" using step.prems(1) step.hyps(1) by (rule rtranclp_trans)
  from drained_step [OF step.hyps(2) core_reachable(1,2) [OF this] d a(1) step.prems(4)] show ?case .
qed

lemma split_mset_by:
  assumes "\<forall>x \<in># A. eg_at x \<le> t" "\<forall>x \<in># B. t < eg_at x"
  shows "filter_mset (\<lambda>x. eg_at x \<le> t) (A + B) = A \<and> filter_mset (\<lambda>x. t < eg_at x) (A + B) = B"
proof -
  have "filter_mset (\<lambda>x. eg_at x \<le> t) A = A" "filter_mset (\<lambda>x. eg_at x \<le> t) B = {#}"
    "filter_mset (\<lambda>x. t < eg_at x) A = {#}" "filter_mset (\<lambda>x. t < eg_at x) B = B"
    using assms by (auto simp: filter_mset_eq_conv multiset_eq_iff count_eq_zero_iff)
  then show ?thesis by simp
qed

lemma drain_ends:
  assumes "core_conserves s" "sy_phase s = Checking" "\<not> co_closed (sy_core s)" "co_ledger (sy_core s) = None"
  shows "\<exists>s' w. core_step\<^sup>*\<^sup>* s s' \<and> sy_admitted s' = sy_admitted s \<and> \<not> co_closed (sy_core s') \<and>
    sy_phase s' = Arming w (sy_now s)"
  using assms
proof (induction "length (co_eg (sy_core s))" arbitrary: s rule: less_induct)
  case less
  show ?case
  proof (cases "egress_due (sy_now s) (sy_core s)")
    case False
    from core_step.Arm [OF less.prems(2) False] show ?thesis using less.prems(3)
      by (intro exI [of _ "s\<lparr>sy_phase := Arming (egress_wait (sy_now s) (sy_core s)) (sy_now s)\<rparr>"]
          exI [of _ "egress_wait (sy_now s) (sy_core s)"]) auto
  next
    case True
    have h: "eg_heap (co_eg (sy_core s))" using less.prems(1) by (simp add: core_conserves_def)
    obtain it c where p: "egress_pop (sy_core s) = (it, c)" "c = (sy_core s)\<lparr>co_eg := co_eg c\<rparr>"
      "mset (co_eg (sy_core s)) = add_mset it (mset (co_eg c))"
      by (rule egress_pop_spec [OF h True]) auto
    have c: "\<not> co_closed c" "co_ledger c = None" using less.prems(3,4) by (subst p(2), simp)+
    let ?u = "s\<lparr>sy_core := c, sy_phase := Sending it\<rparr>" and ?c = "c\<lparr>co_ledger := None, co_fwd := co_fwd c + 1\<rparr>"
    let ?v = "?u\<lparr>sy_core := ?c, sy_phase := Checking, sy_sent := sy_sent ?u @ [(it, sy_now ?u)]\<rparr>"
    have su: "core_step s ?u" using core_step.Pop [OF less.prems(2) True p(1)] .
    have "sendItem (sy_now ?u) it (sy_core ?u) = Some (?c, Some (eg_dst it, eg_data it))"
      using c by (simp add: sendItem_def)
    then have sv: "core_step ?u ?v" by (intro core_step.Send) simp_all
    have "length (co_eg (sy_core ?v)) < length (co_eg (sy_core s))" using arg_cong [OF p(3), of size] by simp
    moreover have "core_conserves ?v" using core_conserves_step su sv less.prems(1) by blast
    ultimately obtain s' w where "core_step\<^sup>*\<^sup>* ?v s'" "sy_admitted s' = sy_admitted ?v" "\<not> co_closed (sy_core s')"
      "sy_phase s' = Arming w (sy_now ?v)" using less.hyps [of ?v] c by auto
    then show ?thesis using su sv by (intro exI [of _ s'] exI [of _ w]) (auto intro: converse_rtranclp_into_rtranclp)
  qed
qed

text \<open>C10. Egress order: from any reachable state in which the egress goroutine is at the top of its
  loop, and under any interleaving in which nothing is enqueued before it computes its next wait, at
  the time \<open>t\<close> it reads the clock for it, and the core stays open, it has written exactly the forwards
  due by \<open>t\<close>, in order of delivery time and, among equals, of enqueue number, and has left exactly the
  others queued, although it unlocks, sends and reads the clock anew for each. Without a ledger it does
  reach that wait, at the present time.\<close>

theorem egress_drains_in_order:
  assumes "core_step\<^sup>*\<^sup>* (sys_start eng maxQueued ledgerCap) s" "sy_phase s = Checking"
  shows "(\<forall>s' w t. core_step\<^sup>*\<^sup>* s s' \<and> sy_admitted s' = sy_admitted s \<and> \<not> co_closed (sy_core s') \<and> sy_phase s' = Arming w t \<longrightarrow>
      (\<exists>new. sy_sent s' = sy_sent s @ new \<and> sorted (map (egKey \<circ> fst) new) \<and>
        mset (map fst new) = filter_mset (\<lambda>x. eg_at x \<le> t) (mset (co_eg (sy_core s))) \<and>
        mset (co_eg (sy_core s')) = filter_mset (\<lambda>x. t < eg_at x) (mset (co_eg (sy_core s))))) \<and>
    (\<not> co_closed (sy_core s) \<and> co_ledger (sy_core s) = None \<longrightarrow>
      (\<exists>s' w. core_step\<^sup>*\<^sup>* s s' \<and> sy_admitted s' = sy_admitted s \<and> \<not> co_closed (sy_core s') \<and> sy_phase s' = Arming w (sy_now s)))"
proof (intro conjI allI impI, elim conjE)
  fix s' w t
  assume run: "core_step\<^sup>*\<^sup>* s s'" "sy_admitted s' = sy_admitted s" "\<not> co_closed (sy_core s')" and a: "sy_phase s' = Arming w t"
  obtain new where d: "drained s s' new" using drained_run [OF run(1) assms run(2,3)] by blast
  have m: "mset (co_eg (sy_core s)) = mset (map fst new) + mset (co_eg (sy_core s'))"
    and t: "\<forall>x \<in># mset (map fst new). eg_at x \<le> t" "\<forall>x \<in># mset (co_eg (sy_core s')). t < eg_at x"
    using d by (simp_all add: drained_def a phase_items_def)
  have "filter_mset (\<lambda>x. eg_at x \<le> t) (mset (co_eg (sy_core s))) = mset (map fst new)"
    "filter_mset (\<lambda>x. t < eg_at x) (mset (co_eg (sy_core s))) = mset (co_eg (sy_core s'))"
    unfolding m using split_mset_by [OF t] by auto
  then show "\<exists>new. sy_sent s' = sy_sent s @ new \<and> sorted (map (egKey \<circ> fst) new) \<and>
      mset (map fst new) = filter_mset (\<lambda>x. eg_at x \<le> t) (mset (co_eg (sy_core s))) \<and>
      mset (co_eg (sy_core s')) = filter_mset (\<lambda>x. t < eg_at x) (mset (co_eg (sy_core s)))"
    using d by (intro exI [of _ new]) (simp add: drained_def)
qed (rule drain_ends; use assms core_reachable(1) [OF assms(1)] in simp)

theorem egress_drains_in_order_witness:
  "\<exists>s' w. core_step\<^sup>*\<^sup>* busy_sys s' \<and> sy_phase s' = Arming w 4 \<and>
    (\<exists>new. sy_sent s' = new \<and> sorted (map (egKey \<circ> fst) new) \<and> mset (map fst new) = {#soon_item#}) \<and>
    mset (co_eg (sy_core s')) = {#late_item#}"
proof -
  obtain s where s: "core_step\<^sup>*\<^sup>* busy_sys s" "sy_admitted s = sy_admitted busy_sys" "\<not> co_closed (sy_core s)"
    "sy_phase s = Checking" "sy_now s = 4" "co_eg (sy_core s) = [late_item]"
    using soon_sent by blast
  define w where "w = egress_wait (sy_now s) (sy_core s)"
  let ?a = "s\<lparr>sy_phase := Arming w (sy_now s)\<rparr>"
  have "core_step s ?a" unfolding w_def by (rule core_step.Arm [OF s(4)]) (simp add: s(5,6) egress_due_def late_item_def)
  then have a: "core_step\<^sup>*\<^sup>* busy_sys ?a" "sy_phase ?a = Arming w 4" using s(1,5) by auto
  have b: "core_step\<^sup>*\<^sup>* (sys_start clean_engine 10 2) busy_sys" "sy_phase busy_sys = Checking"
    using busy_sys_reachable by (simp_all add: quiet_sys_def busy_sys_simps)
  obtain new where "sy_sent ?a = sy_sent busy_sys @ new" "sorted (map (egKey \<circ> fst) new)"
    "mset (map fst new) = filter_mset (\<lambda>x. eg_at x \<le> 4) (mset (co_eg (sy_core busy_sys)))"
    "mset (co_eg (sy_core ?a)) = filter_mset (\<lambda>x. 4 < eg_at x) (mset (co_eg (sy_core busy_sys)))"
    using conjunct1 [OF egress_drains_in_order [OF b], rule_format, of ?a w 4] a s(2,3) by auto
  then show ?thesis using a by (intro exI [of _ ?a] exI [of _ w]) (simp add: busy_sys_simps soon_item_def late_item_def)
qed

text \<open>C11. Accounting of a datagram: every dropped action is counted as an impairment drop,
  and every forwarded one is either queued or counted as a tail drop, never both and never
  as an impairment; the order of the queue and its bound are kept.\<close>

theorem core_accounts_for_datagram:
  assumes "core_ok c" "core_Process pf data dir dst t c = Some c'"
  shows "\<exists>eng acts. Handle pf (co_eng c) \<lparr>pk_data = data, pk_dir = dir\<rparr> t = Some (eng, acts) \<and>
    co_drop c' = co_drop c + of_nat (length (filter (\<lambda>a. act_kind a = Drop) acts)) \<and>
    co_tailDrop c' + of_nat (length (co_eg c')) =
      co_tailDrop c + of_nat (length (co_eg c)) + of_nat (length (filter (\<lambda>a. act_kind a = Forward) acts)) \<and>
    co_fwd c' = co_fwd c \<and> core_ok c'"
  by (rule core_Process_spec [OF assms]) blast

theorem core_accounts_for_datagram_witness:
  "\<exists>c'. core_Process idle_platform [1, 2] C2S (9 :: nat) 4 (core_New clean_engine 10 0) = Some c' \<and>
    co_tailDrop c' + of_nat (length (co_eg c')) = 1 \<and> co_drop c' = 0"
proof -
  have ok: "core_ok (core_New clean_engine 10 0 :: (nat, bytes) core)" by (rule core_ok_New)
  obtain c' where c: "core_Process idle_platform [1, 2] C2S (9 :: nat) 4 (core_New clean_engine 10 0) = Some c'"
    by (rule core_Process_Some [of C2S]) auto
  have h: "Handle idle_platform clean_engine \<lparr>pk_data = [1, 2], pk_dir = C2S\<rparr> 4 =
      Some (clean_engine\<lparr>eng_seq := 1\<rparr>, [\<lparr>act_kind = Forward, act_dir = C2S, act_seq = 1,
        act_data = [1, 2], act_deliver_at = 4, act_reason = []\<rparr>])"
    by (simp add: clean_engine_def engine_New_def engine_Handle_def pipeline_def set_pipeline_def
        ingress_def forward_action_def Let_def not_le dir_cases)
  show ?thesis using core_accounts_for_datagram [OF ok c] c h
    by (auto simp: core_New_def)
qed

section \<open>The ledger\<close>

text \<open>C12. The ring refines a log: after any sequence of starts, and of finalizations of
  earlier starts, on a fresh ring, a snapshot is the end of the log of all records, as many
  as the ring holds, in order, each with the egress time it was finalized with; a
  finalization whose record has left the ring touches nothing.\<close>

theorem ledger_refines_log:
  assumes "0 < cap" "cap < 2 ^ 62" "ops_valid 0 ops"
  shows "\<exists>l hs. ledger_run ops (newLedger (int cap), []) = Some (l, hs) \<and>
    ledger_snapshot l = drop (length (log_run ops []) - cap) (log_run ops [])"
proof -
  have rel: "ledger_rel cap (newLedger (int cap)) []" using assms(1,2) ledger_rel_new [of "int cap"] by simp
  show ?thesis
    using ledger_run_log [OF rel _ , of "[]" ops] assms(3) ledger_snapshot_log by auto
qed

theorem ledger_refines_log_witness:
  "\<exists>l hs. ledger_run [LStart 1 C2S 0 5, LStart 2 C2S 1 6, LStart 3 S2C 2 7, LFinalize 0 8, LFinalize 2 9]
      (newLedger 2, []) = Some (l, hs) \<and>
    ledger_snapshot l = [\<lparr>en_seq = 2, en_dir = C2S, en_recv = 1, en_deliver = 6, en_egress = 0\<rparr>,
      \<lparr>en_seq = 3, en_dir = S2C, en_recv = 2, en_deliver = 7, en_egress = 9\<rparr>]"
  using ledger_refines_log [of 2 "[LStart 1 C2S 0 5, LStart 2 C2S 1 6, LStart 3 S2C 2 7, LFinalize 0 8, LFinalize 2 9]"]
  by (simp add: numeral_3_eq_3)

text \<open>Quantiles: over a non-empty sample of exactly countable size, the median is the
  element of rank \<open>n div 2\<close> of the sorted sample, the 99th percentile is an element no
  smaller, and the sample count is the number of sent packets; the residence of a packet
  is its queueing delay plus the relay's own overhead.\<close>

theorem owd_decomposition:
  assumes "sent = filter (\<lambda>e. en_egress e \<noteq> 0) es" "sent \<noteq> []" "int (length sent) < 2 ^ 53"
    and "DecomposedOWD pf es = (d, ps)"
    and "\<forall>e \<in> set sent. in64 (en_deliver e - en_recv e) \<and> in64 (en_egress e - en_deliver e) \<and>
      in64 (en_egress e - en_recv e)"
  shows "dc_N d = int (length sent) \<and> map ow_seq ps = map en_seq sent \<and>
    qu_P50 (dc_Residence d) = sort (map ow_residence ps) ! (length sent div 2) \<and>
    qu_P99 (dc_Residence d) \<in> ow_residence ` set ps \<and>
    qu_P50 (dc_Residence d) \<le> qu_P99 (dc_Residence d) \<and>
    (\<forall>p \<in> set ps. ow_residence p = ow_queue p + ow_overhead p)"
proof -
  have ps: "ps = map owd_of sent" and d: "dc_N d = int (length ps)"
    "dc_Residence d = quantileOf pf (map ow_residence ps)"
    using assms(1,4) by (auto simp: DecomposedOWD_def Let_def)
  have n: "map ow_residence ps \<noteq> []" "int (length (map ow_residence ps)) < 2 ^ 53" "length ps = length sent"
    using assms(2,3) by (simp_all add: ps)
  have "map ow_seq ps = map en_seq sent" by (simp add: ps owd_of_def)
  moreover have "\<forall>p \<in> set ps. ow_residence p = ow_queue p + ow_overhead p"
    using assms(5) owd_of_sum by (auto simp: ps)
  ultimately show ?thesis using d quantileOf_ranks [OF n(1,2), of pf] n(3) by auto
qed

theorem owd_decomposition_witness:
  "\<exists>d ps. DecomposedOWD idle_platform
      [\<lparr>en_seq = 1, en_dir = C2S, en_recv = 0, en_deliver = 5, en_egress = 7\<rparr>,
       \<lparr>en_seq = 2, en_dir = C2S, en_recv = 1, en_deliver = 6, en_egress = 0\<rparr>] = (d, ps) \<and>
    dc_N d = 1 \<and> map ow_seq ps = [1]"
proof -
  let ?e = "\<lparr>en_seq = 1, en_dir = C2S, en_recv = 0, en_deliver = 5, en_egress = 7\<rparr>"
  let ?es = "[?e, \<lparr>en_seq = 2, en_dir = C2S, en_recv = 1, en_deliver = 6, en_egress = 0\<rparr>]"
  obtain d ps where r: "DecomposedOWD idle_platform ?es = (d, ps)" by fastforce
  show ?thesis using owd_decomposition [OF _ _ _ r, of "[?e]"] r by (simp add: in64_def)
qed

text \<open>The steps that leave the size of the ring as it is.\<close>

definition ring_size :: "('d, 'b) core \<Rightarrow> nat option" where
  "ring_size c = map_option (\<lambda>l. length (lg_gen l)) (co_ledger c)"

definition keeps_ring :: "('d, 'b) sys \<Rightarrow> ('d, 'b) sys \<Rightarrow> bool" where
  "keeps_ring s s' \<longleftrightarrow> core_step s s' \<and> ring_size (sy_core s') = ring_size (sy_core s)"

definition ring_ok :: "ledger \<Rightarrow> bool" where
  "ring_ok l \<longleftrightarrow> length (lg_buf l) = length (lg_gen l) \<and> int (length (lg_gen l)) < 2 ^ 63 \<and>
     0 \<le> lg_next l \<and> lg_next l < int (length (lg_gen l))"

definition handles_fit :: "('d, 'b) sys \<Rightarrow> bool" where
  "handles_fit s \<longleftrightarrow> (\<forall>l. co_ledger (sy_core s) = Some l \<longrightarrow> ring_ok l \<and>
     (\<forall>it \<in># mset (co_eg (sy_core s)) + phase_items (sy_phase s). h_slot (eg_led it) < int (length (lg_gen l))))"

lemma ring_ok_fresh: "int (length (lg_gen (newLedger capacity))) < 2 ^ 63 \<Longrightarrow> ring_ok (newLedger capacity)"
  by (simp add: ring_ok_def newLedger_def Let_def)

lemma ring_ok_new: "capacity < 2 ^ 63 \<Longrightarrow> ring_ok (newLedger capacity)"
  by (rule ring_ok_fresh) (simp add: newLedger_def Let_def)

lemma ring_ok_start:
  assumes "ring_ok l" "ledger_start l sq dir r t = (h, l')"
  shows "ring_ok l' \<and> h_slot h < int (length (lg_gen l)) \<and> length (lg_gen l') = length (lg_gen l)"
proof -
  have "in64 (lg_next l + 1)" using assms(1) by (simp add: ring_ok_def in64_def)
  then have "lg_next l' = (lg_next l + 1) mod int (length (lg_gen l))"
    using assms by (auto simp: ledger_start_def Let_def ring_ok_def i64_id go_mod_nonneg)
  moreover have "0 < int (length (lg_gen l))" using assms(1) unfolding ring_ok_def by linarith
  ultimately show ?thesis using assms by (auto simp: ledger_start_def Let_def ring_ok_def)
qed

lemma ring_ok_finalize: "ledger_finalize l h t = Some l' \<Longrightarrow> ring_ok l' = ring_ok l \<and> lg_gen l' = lg_gen l"
  by (auto simp: ledger_finalize_def ring_ok_def split: if_splits)

lemma sendItem_ledger:
  assumes "sendItem now it c = Some (c', out)" "co_ledger c' = Some l'"
  shows "\<exists>l. co_ledger c = Some l \<and> ring_ok l' = ring_ok l \<and> lg_gen l' = lg_gen l"
  using assms by (auto simp: sendItem_def ring_ok_finalize split: if_splits option.splits)

lemma handles_fit_step:
  "core_step s s' \<Longrightarrow> ring_size (sy_core s') = ring_size (sy_core s) \<Longrightarrow> core_conserves s \<Longrightarrow> handles_fit s \<Longrightarrow>
    handles_fit s'"
proof (induction rule: core_step.induct)
  case (Refuse s data dst t sq dir r c b)
  then show ?case by (auto simp: handles_fit_def enqueue_full)
next
  case (Admit t s data dst sq dir r c isHead)
  have h: "eg_heap (co_eg (sy_core s))" using Admit.prems by (simp add: core_conserves_def)
  from Admit.hyps(2) h obtain c' where e: "enqueue_locked data dst t sq dir r (sy_core s) = (c', eg_ord (co_eg c' ! 0) = co_egOrd (sy_core s) + 1)"
    "mset (co_eg c') = add_mset (new_item data dst t sq dir r (sy_core s)) (mset (co_eg (sy_core s)))"
    by (rule enqueue_admit [where data = data and dst = dst and t = t and sq = sq and dir = dir and r = r])
  have c: "c' = c" using Admit.hyps(3) e(1) by simp
  have l: "co_ledger c = snd (enqueue_ledger sq dir r t (sy_core s))"
    using Admit.hyps(2,3) by (auto simp: enqueue_locked_def Let_def)
  show ?case
  proof (cases "co_ledger (sy_core s)")
    case None
    then show ?thesis using l by (simp add: handles_fit_def enqueue_ledger_def)
  next
    case (Some k)
    obtain hd k' where st: "ledger_start k sq dir r t = (hd, k')" by force
    have ok: "ring_ok k" "\<forall>it \<in># mset (co_eg (sy_core s)) + phase_items (sy_phase s). h_slot (eg_led it) < int (length (lg_gen k))"
      using Admit.prems(3) Some by (simp_all add: handles_fit_def)
    have "co_ledger c = Some k'" "eg_led (new_item data dst t sq dir r (sy_core s)) = hd"
      using l Some st by (simp_all add: enqueue_ledger_def new_item_def)
    then show ?thesis using ring_ok_start [OF ok(1) st] ok(2) by (simp add: handles_fit_def e(2) [unfolded c])
  qed
next
  case (Pop s it c)
  have h: "eg_heap (co_eg (sy_core s))" using Pop.prems by (simp add: core_conserves_def)
  obtain c' where p: "egress_pop (sy_core s) = (it, c')" "mset (co_eg (sy_core s)) = add_mset it (mset (co_eg c'))"
    "c' = (sy_core s)\<lparr>co_eg := co_eg c'\<rparr>"
    using egress_pop_spec [OF h Pop.hyps(2)] Pop.hyps(3) by (metis Pair_inject)
  have c: "c' = c" using p(1) Pop.hyps(3) by simp
  have "co_ledger c = co_ledger (sy_core s)" by (subst p(3) [unfolded c]) simp
  then show ?case using Pop.prems(3) Pop.hyps(1) by (simp add: handles_fit_def phase_items_def p(2) c)
next
  case (Send s it c out)
  have "co_eg c = co_eg (sy_core s)" using sendItem_cases [OF Send.hyps(2)] by auto
  then show ?case using Send.prems(3) Send.hyps(1) sendItem_ledger [OF Send.hyps(2)]
    by (fastforce simp: handles_fit_def phase_items_def)
next
  case (Discard s it c)
  have "c = sy_core s" using sendItem_cases [OF Discard.hyps(2)] by auto
  then show ?case using Discard.prems(3) Discard.hyps(1) by (simp add: handles_fit_def phase_items_def)
next
  case (EnableLedger s capacity)
  define N where "N = newLedger (if capacity \<le> 0 then DefaultLedgerCap else capacity)"
  have N: "co_ledger (core_EnableLedger capacity (sy_core s)) = Some N" by (simp add: core_EnableLedger_def N_def)
  obtain k where k: "co_ledger (sy_core s) = Some k" "length (lg_gen N) = length (lg_gen k)"
    using EnableLedger.prems(1) N by (cases "co_ledger (sy_core s)") (auto simp: ring_size_def)
  have "ring_ok k" using EnableLedger.prems(3) k(1) by (simp add: handles_fit_def)
  then have "ring_ok N" unfolding N_def by (intro ring_ok_fresh) (simp add: k(2) [unfolded N_def] ring_ok_def)
  moreover have "co_eg (core_EnableLedger capacity (sy_core s)) = co_eg (sy_core s)" by (simp add: core_EnableLedger_def)
  ultimately show ?case using EnableLedger.prems(3) k by (simp add: handles_fit_def N)
qed (auto simp: handles_fit_def phase_items_def core_SetEngine_def)

lemma handles_fit_reachable:
  assumes "keeps_ring\<^sup>*\<^sup>* (sys_start eng m l) s" "l < 2 ^ 63"
  shows "handles_fit s \<and> core_step\<^sup>*\<^sup>* (sys_start eng m l) s"
  using assms(1)
proof (induction rule: rtranclp_induct)
  case base
  show ?case using ring_ok_new [OF assms(2)] by (auto simp: handles_fit_def sys_start_def core_New_def phase_items_def)
next
  case (step s s')
  have "core_step s s'" "ring_size (sy_core s') = ring_size (sy_core s)" using step.hyps(2) by (simp_all add: keeps_ring_def)
  then show ?case using handles_fit_step core_reachable(1) step.IH by (metis rtranclp.rtrancl_into_rtrancl)
qed

text \<open>C36. Swapping the ledger at run time: as long as no swap changes the size of the ring, sending
  a forward that is queued or in hand never panics; but when it is swapped, on an open core, for a ring
  of any other \<open>capacity\<close>, sending a forward that was already queued or in hand panics, at any time, if
  and only if the slot its handle names lies beyond the new ring.\<close>

theorem ledger_swap_panics:
  assumes "keeps_ring\<^sup>*\<^sup>* (sys_start eng maxQueued ledgerCap) s" "ledgerCap < 2 ^ 63"
    and "it \<in># mset (co_eg (sy_core s)) + phase_items (sy_phase s)" "0 < capacity"
  shows "sendItem now it (sy_core s) \<noteq> None \<and>
    core_step s (s\<lparr>sy_core := core_EnableLedger capacity (sy_core s)\<rparr>) \<and>
    (sendItem now it (core_EnableLedger capacity (sy_core s)) = None \<longleftrightarrow>
      \<not> co_closed (sy_core s) \<and> capacity \<le> h_slot (eg_led it))"
proof (intro conjI)
  have "handles_fit s" using handles_fit_reachable [OF assms(1,2)] by simp
  then have "h_slot (eg_led it) < int (length (lg_gen l))" if "co_ledger (sy_core s) = Some l" for l
    using that assms(3) by (simp add: handles_fit_def)
  then show "sendItem now it (sy_core s) \<noteq> None"
    by (fastforce simp: sendItem_def ledger_finalize_def split: option.splits if_splits)
  show "core_step s (s\<lparr>sy_core := core_EnableLedger capacity (sy_core s)\<rparr>)" by (rule core_step.EnableLedger)
  show "sendItem now it (core_EnableLedger capacity (sy_core s)) = None \<longleftrightarrow>
      \<not> co_closed (sy_core s) \<and> capacity \<le> h_slot (eg_led it)"
    using assms(4) by (auto simp: sendItem_def core_EnableLedger_def newLedger_def ledger_finalize_def Let_def)
qed

text \<open>A forward in the second slot of a ring of two, and a swap for a ring of one.\<close>

lemma busy_sys_keeps_ring: "keeps_ring\<^sup>*\<^sup>* quiet_sys busy_sys"
proof -
  let ?a = "admit [1] 7 5 1 quiet_sys" and ?b = "admit [2] 7 3 2 (admit [1] 7 5 1 quiet_sys)"
  have r: "ring_size (sy_core quiet_sys) = Some 2" "ring_size (sy_core ?a) = Some 2" "ring_size (sy_core ?b) = Some 2"
    "ring_size (sy_core busy_sys) = Some 2"
    by (simp_all add: ring_size_def busy_sys_def queue_eval Let_def numeral_2_eq_2)
  have "core_step quiet_sys ?a" by (rule admit_step) (simp_all add: in64_def quiet_sys_def sys_start_def)
  moreover have "core_step ?a ?b" by (rule admit_step) (simp_all add: in64_def first_admission)
  moreover have "core_step ?b busy_sys"
    unfolding busy_sys_def
    by (rule core_step.Tick) (simp_all add: in64_def admit_def quiet_sys_def sys_start_def split: prod.split)
  ultimately have "keeps_ring quiet_sys ?a" "keeps_ring ?a ?b" "keeps_ring ?b busy_sys"
    using r by (simp_all add: keeps_ring_def)
  then show ?thesis by (meson rtranclp.rtrancl_into_rtrancl rtranclp.rtrancl_refl)
qed

theorem ledger_swap_panics_witness:
  "sendItem 4 soon_item (sy_core busy_sys) \<noteq> None \<and>
   core_step busy_sys (busy_sys\<lparr>sy_core := core_EnableLedger 1 (sy_core busy_sys)\<rparr>) \<and>
   sendItem 4 soon_item (core_EnableLedger 1 (sy_core busy_sys)) = None"
proof -
  have r: "keeps_ring\<^sup>*\<^sup>* (sys_start clean_engine 10 2) busy_sys" using busy_sys_keeps_ring by (simp add: quiet_sys_def)
  have "soon_item \<in># mset (co_eg (sy_core busy_sys)) + phase_items (sy_phase busy_sys)" by (simp add: busy_sys_simps)
  then show ?thesis using ledger_swap_panics [OF r, of soon_item 1 4] by (simp add: busy_sys_simps soon_item_def)
qed

section \<open>The drivers\<close>

text \<open>C35. Routing of the single-port relay: a run over any datagrams never fails; the sender is the
  first source other than the upstream, and what is still queued is bound for the upstream or for that
  sender and no other address. The next datagram, when it comes from the upstream, is handled in the
  direction to the client and its forwards are bound for that sender (without one it is ignored); when
  it comes from anyone else, the sender or a third party, it is handled in the direction to the server
  and its forwards are bound for the upstream; what the queue gains are forwards the engine made of it.\<close>

theorem relay_routes_to_two_peers:
  "\<exists>r taps r' taps'. relay_run pf ds (relay_NewOn eng up tap led) = Some (r, taps) \<and>
    rl_sender r = first_sender (normAddr up) ds \<and>
    eg_dst ` set (co_eg (rl_core r)) \<subseteq> insert (normAddr up) (set_option (first_sender (normAddr up) ds)) \<and>
    relay_run pf (ds @ [(src, data, t)]) (relay_NewOn eng up tap led) = Some (r', taps') \<and>
    (if normAddr src = normAddr up \<and> first_sender (normAddr up) ds = None then rl_core r' = rl_core r
     else \<exists>eng' acts. Handle pf (co_eng (rl_core r)) \<lparr>pk_data = take read_buffer data,
          pk_dir = (if normAddr src = normAddr up then S2C else C2S)\<rparr> t = Some (eng', acts) \<and>
        queue_gains (forwards_to (if normAddr src = normAddr up then the (first_sender (normAddr up) ds) else normAddr up) acts)
          (rl_core r) (rl_core r'))"
proof -
  obtain r taps where r: "relay_run pf ds (relay_NewOn eng up tap led) = Some (r, taps)" "relay_inv r"
    "rl_upstream r = normAddr up" "rl_sender r = first_sender (normAddr up) ds"
    using relay_run_spec [OF relay_inv_New, of pf ds eng up tap led] by (auto simp: relay_NewOn_def)
  obtain r' tp where d: "relay_datagram pf src data t r = Some (r', tp)"
    "normAddr src = rl_upstream r \<and> rl_sender r = None \<longrightarrow> r' = r"
    "normAddr src \<noteq> rl_upstream r \<or> rl_sender r \<noteq> None \<longrightarrow> (\<exists>eng' acts.
      Handle pf (co_eng (rl_core r)) \<lparr>pk_data = take read_buffer data,
        pk_dir = (if normAddr src = rl_upstream r then S2C else C2S)\<rparr> t = Some (eng', acts) \<and>
      queue_gains (forwards_to (if normAddr src = rl_upstream r then the (rl_sender r) else rl_upstream r) acts)
        (rl_core r) (rl_core r'))"
    by (rule relay_datagram_spec [OF r(2), of pf src data t])
  have q: "eg_dst ` set (co_eg (rl_core r)) \<subseteq> insert (normAddr up) (set_option (first_sender (normAddr up) ds))"
    using r(2-4) by (auto simp: relay_inv_def)
  show ?thesis
    using r(1,4) q relay_run_snoc [OF r(1) d(1)] d(2,3) r(3)
    by (intro exI [of _ r] exI [of _ taps] exI [of _ r'] exI [of _ "taps @ tp"]) auto
qed

text \<open>The RIST control path is clean: an RTCP datagram that fits the read buffer is
  written whole and at once, to the receiver when it comes from elsewhere and to the learned
  sender when it comes from the receiver, whatever engine impairs the media, and it leaves
  the media path as it was.\<close>

theorem rist_control_path_is_clean:
  assumes "length data \<le> read_buffer"
  shows "rr_core (fst (rist_rtcp src data r)) = rr_core r \<and>
    rr_senderRTP (fst (rist_rtcp src data r)) = rr_senderRTP r \<and>
    snd (snd (rist_rtcp src data r)) =
      (if udpEqual (Some src) (Some (rr_recvRTCP r)) then map_option (\<lambda>s. (s, data)) (rr_senderRTCP r)
       else Some (rr_recvRTCP r, data))"
  using assms by (auto simp: rist_rtcp_def Let_def split: option.split)

theorem rist_control_path_is_clean_witness:
  "snd (snd (rist_rtcp \<lparr>ua_ip = [10, 0, 0, 1], ua_port = 4000, ua_zone = []\<rparr> [0x80, 200]
      (rist_New clean_engine \<lparr>ua_ip = [127, 0, 0, 1], ua_port = 5000, ua_zone = []\<rparr> True))) =
    Some (\<lparr>ua_ip = [127, 0, 0, 1], ua_port = 5001, ua_zone = []\<rparr>, [0x80, 200])"
  using rist_control_path_is_clean [of "[0x80, 200]" "\<lparr>ua_ip = [10, 0, 0, 1], ua_port = 4000, ua_zone = []\<rparr>"
      "rist_New clean_engine \<lparr>ua_ip = [127, 0, 0, 1], ua_port = 5000, ua_zone = []\<rparr> True"]
  by (simp add: rist_New_def udpEqual_def ip_Equal_def read_buffer_def i64_id in64_def)

end
