(* ===== verification/Lifecycle.thy ===== *)
theory Lifecycle
  imports Relay
begin

text \<open>
  The life of a relay: how the drivers open their sockets (\<^verbatim>\<open>New\<close>, \<^verbatim>\<open>NewOn\<close>,
  \<^verbatim>\<open>bindEvenPair\<close>), the turns of their read loops (\<^verbatim>\<open>relay/relay.go\<close>,
  \<^verbatim>\<open>ristrelay/ristrelay.go\<close>), and how \<^verbatim>\<open>Core.Close\<close> of \<^verbatim>\<open>relaycore/relaycore.go\<close> brings the
  read loops and the egress goroutine to an end. What the operating system answers is an
  argument or a choice of the step relation: a loop leaves a read for good only when its socket has
  failed or is closed. The lemmas show that the sockets are closed only when no goroutine is left,
  how little is done after the close, and that a close can always finish without help from outside:
  within one read deadline, and at once where the wake-up reaches every loop.
\<close>

section \<open>Opening the sockets\<close>

datatype open_error = ResolveUpstream | ResolveBind | Listen | NoPortPair

definition relay_NewAt :: "(string \<Rightarrow> addr_port option) \<Rightarrow> (addr_port \<Rightarrow> bool) \<Rightarrow> cell engine \<Rightarrow> string \<Rightarrow> string
    \<Rightarrow> bool \<Rightarrow> int64 list \<Rightarrow> open_error + relay" where
  "relay_NewAt resolve listen eng bindAddr upstreamAddr tap opts =
     (case resolve upstreamAddr of
        None \<Rightarrow> Inl ResolveUpstream
      | Some up \<Rightarrow> (case resolve bindAddr of
          None \<Rightarrow> Inl ResolveBind
        | Some b \<Rightarrow> if \<not> listen b then Inl Listen
            else Inr (relay_NewOn eng up tap (if opts = [] then None else Some (last opts)))))"

definition relay_New :: "(string \<Rightarrow> addr_port option) \<Rightarrow> (addr_port \<Rightarrow> bool) \<Rightarrow> cell engine \<Rightarrow> string
    \<Rightarrow> bool \<Rightarrow> int64 list \<Rightarrow> open_error + relay" where
  "relay_New resolve listen eng upstreamAddr tap opts = relay_NewAt resolve listen eng ''127.0.0.1:0'' upstreamAddr tap opts"

text \<open>The answers of the system to the two calls of \<^verbatim>\<open>ListenUDP\<close> of one try: the port of the first
  socket, if it was opened, and whether the second was. The open sockets are a multiset of ports.\<close>

type_synonym pair_answers = "nat \<Rightarrow> nat option \<times> bool"

fun bind_try :: "nat option \<times> bool \<Rightarrow> nat multiset \<Rightarrow> (nat \<times> nat) option \<times> nat multiset" where
  "bind_try (None, ok) socks = (None, socks)"
| "bind_try (Some p, ok) socks =
     (let opened = add_mset p socks
      in if p mod 2 \<noteq> 0 then (None, opened - {#p#})
         else if \<not> ok then (None, opened - {#p#})
         else (Some (p, p + 1), add_mset (p + 1) opened))"

function bind_from :: "pair_answers \<Rightarrow> nat \<Rightarrow> nat multiset \<Rightarrow> (nat \<times> nat) option \<times> nat multiset" where
  "bind_from answers tries socks =
     (if tries < 64 then
        (case bind_try (answers tries) socks of
           (Some r, socks') \<Rightarrow> (Some r, socks')
         | (None, socks') \<Rightarrow> bind_from answers (Suc tries) socks')
      else (None, socks))"
  by pat_completeness auto
termination by (relation "measure (\<lambda>(answers, tries, socks). 64 - tries)") auto

declare bind_from.simps [simp del]

definition bindEvenPair :: "pair_answers \<Rightarrow> nat multiset \<Rightarrow> (nat \<times> nat) option \<times> nat multiset" where
  "bindEvenPair answers socks = bind_from answers 0 socks"

definition rist_open :: "(string \<Rightarrow> udp_addr option) \<Rightarrow> pair_answers \<Rightarrow> cell engine \<Rightarrow> string \<Rightarrow> bool \<Rightarrow> nat multiset
    \<Rightarrow> (open_error + rist \<times> nat \<times> nat) \<times> nat multiset" where
  "rist_open resolve answers eng recvMediaAddr tap socks =
     (case resolve recvMediaAddr of
        None \<Rightarrow> (Inl ResolveUpstream, socks)
      | Some rp \<Rightarrow> (case bindEvenPair answers socks of
          (None, socks') \<Rightarrow> (Inl NoPortPair, socks')
        | (Some (p, q), socks') \<Rightarrow> (Inr (rist_New eng rp tap, p, q), socks')))"

text \<open>A try that succeeds.\<close>

definition good_answer :: "nat option \<times> bool \<Rightarrow> bool" where
  "good_answer a \<longleftrightarrow> (\<exists>p. fst a = Some p \<and> even p) \<and> snd a"

lemma bind_try_spec:
  "bind_try a socks = (if good_answer a then (Some (the (fst a), the (fst a) + 1), socks + {#the (fst a), the (fst a) + 1#})
     else (None, socks))"
  by (cases "(a, socks)" rule: bind_try.cases) (auto simp: good_answer_def Let_def)

lemma bind_from_spec:
  "bind_from answers t socks = (case find (\<lambda>t. good_answer (answers t)) [t..<64] of
     None \<Rightarrow> (None, socks)
   | Some u \<Rightarrow> (Some (the (fst (answers u)), the (fst (answers u)) + 1),
       socks + {#the (fst (answers u)), the (fst (answers u)) + 1#}))"
proof (induction answers t socks rule: bind_from.induct)
  case (1 answers t socks)
  show ?case
  proof (cases "t < 64")
    case True
    then show ?thesis using 1 [OF True]
      by (simp add: bind_from.simps [of answers t socks] bind_try_spec upt_conv_Cons)
  qed (simp add: bind_from.simps [of answers t socks])
qed

section \<open>The goroutines\<close>

text \<open>Where a read loop stands: before its look at the closed channel, before setting the read
  deadline, in the read, with a datagram in hand, or returned.\<close>

datatype 'p loop_pc = LoopCheck | LoopArm | LoopRead | LoopHandle 'p | LoopExited

text \<open>Where the egress goroutine stands: draining, past the look at the closed channel that
  precedes a write, in its select, or returned.\<close>

datatype egress_pc = EgDrain | EgWrite | EgSelect | EgExited

text \<open>Where a caller of \<^verbatim>\<open>Close\<close> stands: not yet calling, at the door of the \<^verbatim>\<open>sync.Once\<close>, and inside it
  before each of its actions; \<open>Waking k\<close> has moved the deadlines of the first \<open>k\<close> sockets.\<close>

datatype closer_pc = Outside | AtOnce | Closing | Waking nat | Waiting | ClosingSocks | Returned

datatype 'p event = Handled nat 'p | Wrote | ClosedChan | SocksClosed | CloseReturned nat

record 'p life =
  lf_now :: int
  lf_closed :: bool
  lf_deadlines :: "int option list"
  lf_loops :: "'p loop_pc list"
  lf_egress :: egress_pc
  lf_closers :: "closer_pc list"
  lf_once :: "nat option"
  lf_onceDone :: bool
  lf_socksOpen :: bool
  lf_log :: "'p event list"
  lf_broken :: "nat set"

text \<open>A driver starts one loop per socket; any number of callers may close it. \<open>lf_broken\<close> holds the sockets
  whose reads fail with an error other than the deadline's.\<close>

definition life_start :: "nat \<Rightarrow> nat \<Rightarrow> 'p life" where
  "life_start loops closers = \<lparr>lf_now = 0, lf_closed = False, lf_deadlines = replicate loops None,
     lf_loops = replicate loops LoopCheck, lf_egress = EgDrain, lf_closers = replicate closers Outside,
     lf_once = None, lf_onceDone = False, lf_socksOpen = True, lf_log = [], lf_broken = {}\<rparr>"

text \<open>The relay of \<^verbatim>\<open>relay/relay.go\<close> has one socket and one loop, that of \<^verbatim>\<open>ristrelay/ristrelay.go\<close>
  a media and an RTCP one.\<close>

definition relay_life :: "nat \<Rightarrow> 'p life" where
  "relay_life closers = life_start 1 closers"

definition rist_life :: "nat \<Rightarrow> 'p life" where
  "rist_life closers = life_start 2 closers"

definition readDeadline :: int where
  "readDeadline = 200000000"

definition expired :: "'p life \<Rightarrow> nat \<Rightarrow> bool" where
  "expired s i \<longleftrightarrow> (case lf_deadlines s ! i of None \<Rightarrow> False | Some d \<Rightarrow> d \<le> lf_now s)"

definition set_loop :: "nat \<Rightarrow> 'p loop_pc \<Rightarrow> 'p life \<Rightarrow> 'p life" where
  "set_loop i pc s = s\<lparr>lf_loops := (lf_loops s)[i := pc]\<rparr>"

definition set_closer :: "nat \<Rightarrow> closer_pc \<Rightarrow> 'p life \<Rightarrow> 'p life" where
  "set_closer j pc s = s\<lparr>lf_closers := (lf_closers s)[j := pc]\<rparr>"

definition note_event :: "'p event \<Rightarrow> 'p life \<Rightarrow> 'p life" where
  "note_event e s = s\<lparr>lf_log := lf_log s @ [e]\<rparr>"

definition all_returned :: "'p life \<Rightarrow> bool" where
  "all_returned s \<longleftrightarrow> list_all (\<lambda>pc. pc = LoopExited) (lf_loops s) \<and> lf_egress s = EgExited"

inductive life_step :: "'p life \<Rightarrow> 'p life \<Rightarrow> bool" where
  CheckClosed: "i < length (lf_loops s) \<Longrightarrow> lf_loops s ! i = LoopCheck \<Longrightarrow>
    life_step s (set_loop i (if lf_closed s then LoopExited else LoopArm) s)"
| SetDeadline: "i < length (lf_loops s) \<Longrightarrow> lf_loops s ! i = LoopArm \<Longrightarrow>
    life_step s (set_loop i LoopRead (s\<lparr>lf_deadlines := (lf_deadlines s)[i := Some (lf_now s + readDeadline)]\<rparr>))"
| ReadDatagram: "i < length (lf_loops s) \<Longrightarrow> lf_loops s ! i = LoopRead \<Longrightarrow> lf_socksOpen s \<Longrightarrow> \<not> expired s i \<Longrightarrow>
    life_step s (set_loop i (LoopHandle p) s)"
| ReadTimeout: "i < length (lf_loops s) \<Longrightarrow> lf_loops s ! i = LoopRead \<Longrightarrow> expired s i \<Longrightarrow>
    life_step s (set_loop i LoopCheck s)"
| SocketFails: "i < length (lf_loops s) \<Longrightarrow> life_step s (s\<lparr>lf_broken := insert i (lf_broken s)\<rparr>)"
| ReadError: "i < length (lf_loops s) \<Longrightarrow> lf_loops s ! i = LoopRead \<Longrightarrow> i \<in> lf_broken s \<or> \<not> lf_socksOpen s \<Longrightarrow>
    life_step s (set_loop i LoopExited s)"
| HandleDatagram: "i < length (lf_loops s) \<Longrightarrow> lf_loops s ! i = LoopHandle p \<Longrightarrow>
    life_step s (set_loop i LoopCheck (note_event (Handled i p) s))"
| SendCheck: "lf_egress s = EgDrain \<Longrightarrow>
    life_step s (s\<lparr>lf_egress := (if lf_closed s then EgDrain else EgWrite)\<rparr>)"
| WriteForward: "lf_egress s = EgWrite \<Longrightarrow> life_step s (note_event Wrote (s\<lparr>lf_egress := EgDrain\<rparr>))"
| Drained: "lf_egress s = EgDrain \<Longrightarrow> life_step s (s\<lparr>lf_egress := EgSelect\<rparr>)"
| WakeOrTimer: "lf_egress s = EgSelect \<Longrightarrow> life_step s (s\<lparr>lf_egress := EgDrain\<rparr>)"
| EgressClosed: "lf_egress s = EgSelect \<Longrightarrow> lf_closed s \<Longrightarrow> life_step s (s\<lparr>lf_egress := EgExited\<rparr>)"
| CallClose: "j < length (lf_closers s) \<Longrightarrow> lf_closers s ! j = Outside \<Longrightarrow> life_step s (set_closer j AtOnce s)"
| EnterOnce: "j < length (lf_closers s) \<Longrightarrow> lf_closers s ! j = AtOnce \<Longrightarrow> lf_once s = None \<Longrightarrow>
    life_step s (set_closer j Closing (s\<lparr>lf_once := Some j\<rparr>))"
| CloseChannel: "j < length (lf_closers s) \<Longrightarrow> lf_closers s ! j = Closing \<Longrightarrow>
    life_step s (set_closer j (Waking 0) (note_event ClosedChan (s\<lparr>lf_closed := True\<rparr>)))"
| WakeSocket: "j < length (lf_closers s) \<Longrightarrow> lf_closers s ! j = Waking k \<Longrightarrow> k < length (lf_deadlines s) \<Longrightarrow>
    life_step s (set_closer j (Waking (Suc k)) (s\<lparr>lf_deadlines := (lf_deadlines s)[k := Some (lf_now s)]\<rparr>))"
| AllWoken: "j < length (lf_closers s) \<Longrightarrow> lf_closers s ! j = Waking k \<Longrightarrow> length (lf_deadlines s) \<le> k \<Longrightarrow>
    life_step s (set_closer j Waiting s)"
| WaitDone: "j < length (lf_closers s) \<Longrightarrow> lf_closers s ! j = Waiting \<Longrightarrow> all_returned s \<Longrightarrow>
    life_step s (set_closer j ClosingSocks s)"
| CloseSockets: "j < length (lf_closers s) \<Longrightarrow> lf_closers s ! j = ClosingSocks \<Longrightarrow>
    life_step s (set_closer j Returned (note_event (CloseReturned j) (note_event SocksClosed
      (s\<lparr>lf_socksOpen := False, lf_onceDone := True\<rparr>))))"
| JoinOnce: "j < length (lf_closers s) \<Longrightarrow> lf_closers s ! j = AtOnce \<Longrightarrow> lf_onceDone s \<Longrightarrow>
    life_step s (set_closer j Returned (note_event (CloseReturned j) s))"
| Clock: "lf_now s \<le> t \<Longrightarrow> life_step s (s\<lparr>lf_now := t\<rparr>)"

inductive_cases life_stepE: "life_step s s'"

lemmas life_upd = set_loop_def set_closer_def note_event_def


section \<open>What holds at every moment\<close>

text \<open>The events behind the first occurrence of one.\<close>

definition after :: "'a \<Rightarrow> 'a list \<Rightarrow> 'a list" where
  "after e l = tl (dropWhile (\<lambda>x. x \<noteq> e) l)"

lemma after_none: "e \<notin> set l \<Longrightarrow> after e l = []"
  unfolding after_def by (subst dropWhile_eq_Nil_conv [THEN iffD2]) auto

lemma after_snoc: "after e (l @ [x]) = (if e \<in> set l then after e l @ [x] else [])"
proof (cases "e \<in> set l")
  case True
  then have "dropWhile (\<lambda>y. y \<noteq> e) l \<noteq> []" by simp
  then show ?thesis using True by (simp add: after_def dropWhile_append1 [of e])
next
  case False
  then have "dropWhile (\<lambda>y. y \<noteq> e) (l @ [x]) = dropWhile (\<lambda>y. y \<noteq> e) [x]" by (intro dropWhile_append2) auto
  then show ?thesis using False by (simp add: after_def)
qed

text \<open>The \<^verbatim>\<open>sync.Once\<close>: who is inside it, what has been done when.\<close>

definition inside :: "closer_pc \<Rightarrow> bool" where
  "inside pc \<longleftrightarrow> pc \<notin> {Outside, AtOnce, Returned}"

definition closer_ok :: "'p life \<Rightarrow> nat \<Rightarrow> closer_pc \<Rightarrow> bool" where
  "closer_ok s j pc \<longleftrightarrow> (inside pc \<longrightarrow> lf_once s = Some j \<and> \<not> lf_onceDone s \<and> lf_closed s = (pc \<noteq> Closing)) \<and>
     (pc = ClosingSocks \<longrightarrow> all_returned s) \<and> (pc = Returned \<longrightarrow> lf_onceDone s)"

definition once_ok :: "'p life \<Rightarrow> bool" where
  "once_ok s \<longleftrightarrow> (lf_once s = None \<longrightarrow> \<not> lf_closed s \<and> \<not> lf_onceDone s) \<and>
     (lf_onceDone s \<longrightarrow> all_returned s \<and> lf_closed s) \<and> lf_socksOpen s = (\<not> lf_onceDone s)"

definition life_once :: "'p life \<Rightarrow> bool" where
  "life_once s \<longleftrightarrow> (\<forall>j < length (lf_closers s). closer_ok s j (lf_closers s ! j)) \<and> once_ok s \<and>
     (\<forall>j. lf_once s = Some j \<longrightarrow> j < length (lf_closers s) \<and> (lf_onceDone s \<or> inside (lf_closers s ! j)))"

text \<open>What the log says: the close of the channel and of the sockets, and the calls that returned.\<close>

definition life_log :: "'p life \<Rightarrow> bool" where
  "life_log s \<longleftrightarrow> lf_closed s = (ClosedChan \<in> set (lf_log s)) \<and> lf_onceDone s = (SocksClosed \<in> set (lf_log s)) \<and>
     (\<forall>j. CloseReturned j \<in> set (lf_log s) \<longrightarrow> lf_onceDone s) \<and>
     set (after SocksClosed (lf_log s)) \<subseteq> range CloseReturned \<and>
     (\<forall>j. set (after (CloseReturned j) (lf_log s)) \<subseteq> range CloseReturned)"

text \<open>How much is done behind the close of the channel.\<close>

definition late_reads :: "nat \<Rightarrow> 'p event list \<Rightarrow> nat" where
  "late_reads i l = length (filter (\<lambda>e. \<exists>p. e = Handled i p) (after ClosedChan l))"

definition late_writes :: "'p event list \<Rightarrow> nat" where
  "late_writes l = length (filter (\<lambda>e. e = Wrote) (after ClosedChan l))"

definition reads_allowed :: "'p life \<Rightarrow> nat \<Rightarrow> nat" where
  "reads_allowed s i = (if i < length (lf_loops s) \<and> lf_loops s ! i \<in> {LoopCheck, LoopExited} then 1 else 0)"

definition life_late :: "'p life \<Rightarrow> bool" where
  "life_late s \<longleftrightarrow> (\<forall>i. late_reads i (lf_log s) \<le> reads_allowed s i) \<and>
     late_writes (lf_log s) \<le> (if lf_egress s = EgWrite then 0 else 1)"

text \<open>A deadline lies at most one read deadline ahead, and a loop in its read has one.\<close>

definition life_time :: "'p life \<Rightarrow> bool" where
  "life_time s \<longleftrightarrow> length (lf_deadlines s) = length (lf_loops s) \<and>
     (\<forall>i < length (lf_loops s). (lf_loops s ! i = LoopRead \<longrightarrow> lf_deadlines s ! i \<noteq> None) \<and>
        (\<forall>d. lf_deadlines s ! i = Some d \<longrightarrow> d \<le> lf_now s + readDeadline))"

lemma life_start_ok: "life_once (life_start n m)" "life_log (life_start n m)" "life_late (life_start n m)" "life_time (life_start n m)"
  by (auto simp: life_once_def closer_ok_def once_ok_def life_log_def life_late_def life_time_def life_start_def inside_def
      after_def late_reads_def late_writes_def)

lemma all_returned_blocked:
  assumes "all_returned s"
  shows "i < length (lf_loops s) \<Longrightarrow> lf_loops s ! i = LoopExited" "lf_egress s = EgExited"
  using assms by (auto simp: all_returned_def list_all_length)

text \<open>What the goroutines do by themselves does not concern the \<^verbatim>\<open>sync.Once\<close>.\<close>

lemma life_once_same:
  assumes "life_once s" "\<not> all_returned s \<or> all_returned s'" "lf_closers s' = lf_closers s" "lf_once s' = lf_once s"
    "lf_onceDone s' = lf_onceDone s" "lf_closed s' = lf_closed s" "lf_socksOpen s' = lf_socksOpen s"
  shows "life_once s'"
proof -
  have "closer_ok s' j pc" if "closer_ok s j pc" for j pc
    using that assms(2) unfolding closer_ok_def assms(4-6) by blast
  then show ?thesis using assms(1,2) unfolding life_once_def once_ok_def assms(3-7) by blast
qed

text \<open>The step of one caller leaves the others as they were.\<close>

lemma life_once_closer:
  assumes "life_once s" "j < length (lf_closers s)" "lf_closers s' = (lf_closers s)[j := pc]" "closer_ok s' j pc" "once_ok s'"
    and other: "\<And>i p. i \<noteq> j \<Longrightarrow> closer_ok s i p \<Longrightarrow> closer_ok s' i p"
    and once: "\<And>i. lf_once s' = Some i \<Longrightarrow> lf_onceDone s' \<or> (if i = j then inside pc else lf_once s = Some i \<and> \<not> lf_onceDone s)"
    and bound: "\<And>i. lf_once s' = Some i \<Longrightarrow> i < length (lf_closers s)"
  shows "life_once s'"
proof -
  have "closer_ok s' i (lf_closers s' ! i)" if "i < length (lf_closers s')" for i
    using that assms(1-4) other [of i] by (cases "i = j") (auto simp: life_once_def)
  moreover have "lf_onceDone s' \<or> inside (lf_closers s' ! i)" if "lf_once s' = Some i" for i
    using once [OF that] bound [OF that] assms(1,3) by (cases "i = j") (auto simp: life_once_def)
  ultimately show ?thesis using assms(3,5) bound unfolding life_once_def by auto
qed

lemma life_once_at: "life_once s \<Longrightarrow> j < length (lf_closers s) \<Longrightarrow> closer_ok s j (lf_closers s ! j)"
  by (simp add: life_once_def)

lemma life_once_whole:
  assumes "life_once s"
  shows "once_ok s" "\<And>i. lf_once s = Some i \<Longrightarrow> i < length (lf_closers s)"
    "\<And>i. lf_once s = Some i \<Longrightarrow> lf_onceDone s \<or> inside (lf_closers s ! i)"
  using assms by (auto simp: life_once_def)

lemmas once_defs = closer_ok_def once_ok_def inside_def all_returned_def

lemma not_all_returned:
  "i < length (lf_loops s) \<Longrightarrow> lf_loops s ! i \<noteq> LoopExited \<Longrightarrow> \<not> all_returned s"
  "lf_egress s \<noteq> EgExited \<Longrightarrow> \<not> all_returned s"
  by (auto simp: all_returned_def list_all_length)

lemma life_once_step: "life_step s s' \<Longrightarrow> life_once s \<Longrightarrow> life_once s'"
proof (induction rule: life_step.induct)
  case (CheckClosed i s)
  then show ?case by (elim life_once_same) (simp_all add: life_upd not_all_returned(1) [of i])
next
  case (SetDeadline i s)
  then show ?case by (elim life_once_same) (simp_all add: life_upd not_all_returned(1) [of i])
next
  case (ReadDatagram i s p)
  then show ?case by (elim life_once_same) (simp_all add: life_upd not_all_returned(1) [of i])
next
  case (ReadTimeout i s)
  then show ?case by (elim life_once_same) (simp_all add: life_upd not_all_returned(1) [of i])
next
  case (SocketFails i s)
  then show ?case by (elim life_once_same) (simp_all add: all_returned_def)
next
  case (ReadError i s)
  then show ?case by (elim life_once_same) (simp_all add: life_upd not_all_returned(1) [of i])
next
  case (HandleDatagram i s p)
  then show ?case by (elim life_once_same) (simp_all add: life_upd not_all_returned(1) [of i])
next
  case (SendCheck s)
  then show ?case by (elim life_once_same) (simp_all add: not_all_returned(2))
next
  case (WriteForward s)
  then show ?case by (elim life_once_same) (simp_all add: life_upd not_all_returned(2))
next
  case (Drained s)
  then show ?case by (elim life_once_same) (simp_all add: not_all_returned(2))
next
  case (WakeOrTimer s)
  then show ?case by (elim life_once_same) (simp_all add: not_all_returned(2))
next
  case (EgressClosed s)
  then show ?case by (elim life_once_same) (simp_all add: not_all_returned(2))
next
  case (Clock s t)
  then show ?case by (elim life_once_same) (simp_all add: all_returned_def)
next
  case (CallClose j s)
  note facts = CallClose.hyps life_once_at [OF CallClose.prems CallClose.hyps(1)] life_once_whole [OF CallClose.prems]
  show ?case
    by (rule life_once_closer [OF CallClose.prems CallClose.hyps(1)])
      (use facts in \<open>auto simp: life_upd once_defs split: if_splits\<close>)
next
  case (EnterOnce j s)
  note facts = EnterOnce.hyps life_once_at [OF EnterOnce.prems EnterOnce.hyps(1)] life_once_whole [OF EnterOnce.prems]
  show ?case
    by (rule life_once_closer [OF EnterOnce.prems EnterOnce.hyps(1)])
      (use facts in \<open>auto simp: life_upd once_defs split: if_splits\<close>)
next
  case (CloseChannel j s)
  note facts = CloseChannel.hyps life_once_at [OF CloseChannel.prems CloseChannel.hyps(1)] life_once_whole [OF CloseChannel.prems]
  show ?case
    by (rule life_once_closer [OF CloseChannel.prems CloseChannel.hyps(1)])
      (use facts in \<open>auto simp: life_upd once_defs split: if_splits\<close>)
next
  case (WakeSocket j s k)
  note facts = WakeSocket.hyps life_once_at [OF WakeSocket.prems WakeSocket.hyps(1)] life_once_whole [OF WakeSocket.prems]
  show ?case
    by (rule life_once_closer [OF WakeSocket.prems WakeSocket.hyps(1)])
      (use facts in \<open>auto simp: life_upd once_defs split: if_splits\<close>)
next
  case (AllWoken j s k)
  note facts = AllWoken.hyps life_once_at [OF AllWoken.prems AllWoken.hyps(1)] life_once_whole [OF AllWoken.prems]
  show ?case
    by (rule life_once_closer [OF AllWoken.prems AllWoken.hyps(1)])
      (use facts in \<open>auto simp: life_upd once_defs split: if_splits\<close>)
next
  case (WaitDone j s)
  note facts = WaitDone.hyps life_once_at [OF WaitDone.prems WaitDone.hyps(1)] life_once_whole [OF WaitDone.prems]
  show ?case
    by (rule life_once_closer [OF WaitDone.prems WaitDone.hyps(1)])
      (use facts in \<open>auto simp: life_upd once_defs split: if_splits\<close>)
next
  case (CloseSockets j s)
  note facts = CloseSockets.hyps life_once_at [OF CloseSockets.prems CloseSockets.hyps(1)] life_once_whole [OF CloseSockets.prems]
  show ?case
    by (rule life_once_closer [OF CloseSockets.prems CloseSockets.hyps(1)])
      (use facts in \<open>auto simp: life_upd once_defs split: if_splits\<close>)
next
  case (JoinOnce j s)
  note facts = JoinOnce.hyps life_once_at [OF JoinOnce.prems JoinOnce.hyps(1)] life_once_whole [OF JoinOnce.prems]
  show ?case
    by (rule life_once_closer [OF JoinOnce.prems JoinOnce.hyps(1)])
      (use facts in \<open>auto simp: life_upd once_defs split: if_splits\<close>)
qed


lemma late_snoc:
  "late_reads i (l @ [e]) = (if ClosedChan \<in> set l then late_reads i l + (if \<exists>p. e = Handled i p then 1 else 0) else 0)"
  "late_writes (l @ [e]) = (if ClosedChan \<in> set l then late_writes l + (if e = Wrote then 1 else 0) else 0)"
  by (auto simp: late_reads_def late_writes_def after_snoc)

lemma not_late: "ClosedChan \<notin> set l \<Longrightarrow> late_reads i l = 0" "ClosedChan \<notin> set l \<Longrightarrow> late_writes l = 0"
  by (simp_all add: late_reads_def late_writes_def after_none)

text \<open>An event of a goroutine that has not returned is none behind the sockets' close.\<close>

lemma life_log_event:
  assumes "life_log s" "\<not> lf_onceDone s" "e \<notin> {ClosedChan, SocksClosed}" "\<And>j. e \<noteq> CloseReturned j"
    and "lf_log s' = lf_log s @ [e]" "lf_closed s' = lf_closed s" "lf_onceDone s' = lf_onceDone s"
  shows "life_log s'"
proof -
  have "set (after SocksClosed (lf_log s @ [e])) = {}"
    using assms(1,2) by (simp add: life_log_def after_snoc)
  moreover have none: "CloseReturned j \<notin> set (lf_log s @ [e])" for j using assms(1-4) by (simp add: life_log_def) metis
  moreover have "after (CloseReturned j) (lf_log s @ [e]) = []" for j by (rule after_none [OF none])
  moreover have "lf_closed s = (ClosedChan \<in> set (lf_log s @ [e]))" "lf_onceDone s = (SocksClosed \<in> set (lf_log s @ [e]))"
    using assms(1,3) by (auto simp: life_log_def)
  ultimately show ?thesis unfolding life_log_def assms(5-7) by simp
qed

lemma life_log_same:
  "life_log s \<Longrightarrow> lf_log s' = lf_log s \<Longrightarrow> lf_closed s' = lf_closed s \<Longrightarrow> lf_onceDone s' = lf_onceDone s \<Longrightarrow> life_log s'"
  unfolding life_log_def by metis

lemma not_done:
  assumes "life_once s"
  shows "i < length (lf_loops s) \<Longrightarrow> lf_loops s ! i \<noteq> LoopExited \<Longrightarrow> \<not> lf_onceDone s"
    "lf_egress s \<noteq> EgExited \<Longrightarrow> \<not> lf_onceDone s"
    "j < length (lf_closers s) \<Longrightarrow> inside (lf_closers s ! j) \<Longrightarrow> \<not> lf_onceDone s"
proof -
  have finished: "lf_onceDone s \<Longrightarrow> all_returned s" using assms by (simp add: life_once_def once_ok_def)
  show "i < length (lf_loops s) \<Longrightarrow> lf_loops s ! i \<noteq> LoopExited \<Longrightarrow> \<not> lf_onceDone s"
    using finished not_all_returned(1) [of i s] by (metis (lifting))
  show "lf_egress s \<noteq> EgExited \<Longrightarrow> \<not> lf_onceDone s"
    using finished not_all_returned(2) [of s] by (metis (lifting))
  show "\<not> lf_onceDone s" if "j < length (lf_closers s)" "inside (lf_closers s ! j)"
  proof -
    have "closer_ok s j (lf_closers s ! j)" using assms that(1) by (simp add: life_once_def)
    then show ?thesis using that(2) by (simp add: closer_ok_def)
  qed
qed

lemma life_log_step: "life_step s s' \<Longrightarrow> life_once s \<Longrightarrow> life_log s \<Longrightarrow> life_log s'"
proof (induction rule: life_step.induct)
  case (HandleDatagram i s p)
  then have "\<not> lf_onceDone s" using not_done(1) [of s i] by simp
  with HandleDatagram.prems(2) show ?case by (rule life_log_event [where e = "Handled i p"]) (simp_all add: life_upd)
next
  case (WriteForward s)
  then have "\<not> lf_onceDone s" using not_done(2) [of s] by simp
  with WriteForward.prems(2) show ?case by (rule life_log_event [where e = Wrote]) (simp_all add: life_upd)
next
  case (CloseChannel j s)
  then have "\<not> lf_onceDone s" using not_done(3) [of s j] by (simp add: inside_def)
  moreover have "after (CloseReturned k) (lf_log s @ [ClosedChan]) = []" for k
    using calculation CloseChannel.prems(2) by (intro after_none) (auto simp: life_log_def)
  ultimately show ?case using CloseChannel.prems(2) by (simp add: life_log_def life_upd after_snoc)
next
  case (CloseSockets j s)
  then have "\<not> lf_onceDone s" using not_done(3) [of s j] by (simp add: inside_def)
  then have none: "SocksClosed \<notin> set (lf_log s)" "CloseReturned k \<notin> set (lf_log s)" for k
    using CloseSockets.prems(2) by (auto simp: life_log_def)
  then have "after SocksClosed (lf_log s @ [SocksClosed, CloseReturned j]) = [CloseReturned j]"
    "after (CloseReturned k) (lf_log s @ [SocksClosed, CloseReturned j]) = []" for k
    using after_snoc [of "SocksClosed" "lf_log s @ [SocksClosed]" "CloseReturned j"]
      after_snoc [of "CloseReturned k" "lf_log s @ [SocksClosed]" "CloseReturned j"] by (auto simp: after_snoc)
  then show ?case using CloseSockets.prems(2) by (simp add: life_log_def life_upd)
next
  case (JoinOnce j s)
  then have "set (after e (lf_log s @ [CloseReturned j])) \<subseteq> range CloseReturned"
    if "e = SocksClosed \<or> e \<in> range CloseReturned" for e using that by (auto simp: life_log_def after_snoc)
  then show ?case using JoinOnce by (simp add: life_log_def life_upd)
qed (auto elim!: life_log_same simp: life_upd)

text \<open>A loop's own step, no event in it, keeps the bound unless the loop might read again.\<close>

lemma life_late_loop:
  assumes "life_late s" "lf_loops s' = (lf_loops s)[i := pc]" "lf_log s' = lf_log s" "lf_egress s' = lf_egress s"
    and "i < length (lf_loops s)" "pc \<in> {LoopCheck, LoopExited} \<or> late_reads i (lf_log s) = 0"
  shows "life_late s'"
proof -
  have "late_reads k (lf_log s') \<le> reads_allowed s' k" for k
  proof (cases "k = i")
    case True
    have "late_reads i (lf_log s) \<le> 1"
      using assms(1) by (auto simp: life_late_def reads_allowed_def split: if_splits elim!: allE [of _ i])
    then show ?thesis using True assms(2,3,5,6) by (auto simp: reads_allowed_def)
  next
    case False
    then have "reads_allowed s' k = reads_allowed s k" by (simp add: reads_allowed_def assms(2))
    then show ?thesis using assms(1,3) by (simp add: life_late_def)
  qed
  then show ?thesis using assms(1,3,4) by (simp add: life_late_def)
qed

lemma life_late_same:
  "life_late s \<Longrightarrow> lf_loops s' = lf_loops s \<Longrightarrow> lf_log s' = lf_log s \<Longrightarrow> lf_egress s' = lf_egress s \<Longrightarrow> life_late s'"
  by (simp add: life_late_def reads_allowed_def)

lemma life_late_event:
  assumes "life_late s" "lf_loops s' = lf_loops s" "lf_log s' = lf_log s @ [e]" "lf_egress s' = lf_egress s"
    "e \<noteq> Wrote" "\<And>i p. e \<noteq> Handled i p"
  shows "life_late s'"
  using assms by (auto simp: life_late_def reads_allowed_def late_snoc)

lemma busy_not_late:
  assumes "life_late s" "i < length (lf_loops s)" "lf_loops s ! i \<notin> {LoopCheck, LoopExited}"
  shows "late_reads i (lf_log s) = 0"
  using assms by (auto simp: life_late_def reads_allowed_def elim!: allE [of _ i])

lemma life_late_step: "life_step s s' \<Longrightarrow> life_log s \<Longrightarrow> life_late s \<Longrightarrow> life_late s'"
proof (induction rule: life_step.induct)
  case (CheckClosed i s)
  then show ?case using not_late(1) [of "lf_log s" i]
    by (intro life_late_loop [OF CheckClosed.prems(2), where i = i and pc = "if lf_closed s then LoopExited else LoopArm"])
      (auto simp: life_upd life_log_def)
next
  case (SetDeadline i s)
  then show ?case using busy_not_late [of s i]
    by (intro life_late_loop [OF SetDeadline.prems(2), where i = i and pc = LoopRead]) (auto simp: life_upd)
next
  case (ReadDatagram i s p)
  then show ?case using busy_not_late [of s i]
    by (intro life_late_loop [OF ReadDatagram.prems(2), where i = i and pc = "LoopHandle p"]) (auto simp: life_upd)
next
  case (ReadTimeout i s)
  then show ?case by (intro life_late_loop [OF ReadTimeout.prems(2), where i = i and pc = LoopCheck]) (auto simp: life_upd)
next
  case (ReadError i s)
  then show ?case by (intro life_late_loop [OF ReadError.prems(2), where i = i and pc = LoopExited]) (auto simp: life_upd)
next
  case (HandleDatagram i s p)
  then have z: "late_reads i (lf_log s) = 0" using busy_not_late [of s i] by simp
  have "late_reads k (lf_log s @ [Handled i p]) \<le> reads_allowed (set_loop i LoopCheck s) k" for k
  proof -
    have "late_reads k (lf_log s) \<le> reads_allowed s k" using HandleDatagram.prems(2) by (simp add: life_late_def)
    then show ?thesis using HandleDatagram.hyps z
      by (cases "k = i") (auto simp: late_snoc reads_allowed_def life_upd)
  qed
  moreover have "late_writes (lf_log s @ [Handled i p]) \<le> (if lf_egress s = EgWrite then 0 else 1)"
    using HandleDatagram.prems(2) by (auto simp: life_late_def late_snoc)
  ultimately show ?case by (simp add: life_late_def life_upd reads_allowed_def)
next
  case (SendCheck s)
  then show ?case using not_late(2) [of "lf_log s"] by (auto simp: life_late_def life_log_def reads_allowed_def)
next
  case (WriteForward s)
  then show ?case by (auto simp: life_late_def life_upd late_snoc reads_allowed_def)
next
  case (CloseChannel j s)
  then show ?case by (intro life_late_event [OF CloseChannel.prems(2), where e = ClosedChan]) (simp_all add: life_upd)
next
  case (CloseSockets j s)
  have "life_late (s\<lparr>lf_log := lf_log s @ [SocksClosed]\<rparr>)"
    by (rule life_late_event [OF CloseSockets.prems(2), where e = SocksClosed]) simp_all
  then show ?case by (rule life_late_event [where e = "CloseReturned j"]) (simp_all add: life_upd)
next
  case (JoinOnce j s)
  then show ?case by (intro life_late_event [OF JoinOnce.prems(2), where e = "CloseReturned j"]) (simp_all add: life_upd)
qed (auto simp: life_late_def reads_allowed_def life_upd)

lemma life_time_step: "life_step s s' \<Longrightarrow> life_time s \<Longrightarrow> life_time s'"
proof (induction rule: life_step.induct)
  case (Clock s t)
  then show ?case by (fastforce simp: life_time_def)
qed (auto simp: life_time_def life_upd nth_list_update readDeadline_def split: if_splits)

lemma life_reachable:
  assumes "life_step\<^sup>*\<^sup>* (life_start loops closers) s"
  shows "life_once s" "life_log s" "life_late s" "life_time s"
    "length (lf_loops s) = loops" "length (lf_closers s) = closers"
proof -
  from assms have "life_once s \<and> life_log s \<and> life_late s \<and> life_time s \<and> length (lf_loops s) = loops \<and> length (lf_closers s) = closers"
  proof (induction rule: rtranclp_induct)
    case base
    have "length (lf_loops (life_start loops closers :: 'p life)) = loops \<and> length (lf_closers (life_start loops closers :: 'p life)) = closers"
      by (simp add: life_start_def)
    then show ?case using life_start_ok by blast
  next
    case (step s s')
    then have "length (lf_loops s') = length (lf_loops s) \<and> length (lf_closers s') = length (lf_closers s)"
      by (elim life_stepE) (simp_all add: life_upd)
    then show ?case using step life_once_step life_log_step life_late_step life_time_step by auto
  qed
  then show "life_once s" "life_log s" "life_late s" "life_time s" "length (lf_loops s) = loops" "length (lf_closers s) = closers"
    by auto
qed


section \<open>A close comes to an end\<close>

text \<open>Steps of the relay and the clock alone: nobody sends it a datagram and no socket fails.\<close>

definition unaided :: "'p life \<Rightarrow> 'p life \<Rightarrow> bool" where
  "unaided s s' \<longleftrightarrow> life_step s s' \<and> lf_broken s' = lf_broken s \<and>
     (\<forall>i < length (lf_loops s). \<forall>p. lf_loops s' ! i = LoopHandle p \<longrightarrow> lf_loops s ! i = LoopHandle p)"

lemma unaided_steps: "unaided\<^sup>*\<^sup>* s s' \<Longrightarrow> life_step\<^sup>*\<^sup>* s s'"
  by (rule rtranclp_mono [THEN predicate2D, rotated]) (auto simp: unaided_def)

lemma unaided_step: "unaided s s' \<Longrightarrow> life_step s s'"
  by (simp add: unaided_def)

lemma unaided_run: "unaided s s' \<Longrightarrow> unaided\<^sup>*\<^sup>* s s'"
  by blast

lemma unaided_same: "life_step s s' \<Longrightarrow> lf_broken s' = lf_broken s \<Longrightarrow> lf_loops s' = lf_loops s \<Longrightarrow> unaided s s'"
  by (simp add: unaided_def)

lemma unaided_loop:
  "life_step s s' \<Longrightarrow> lf_broken s' = lf_broken s \<Longrightarrow> lf_loops s' = (lf_loops s)[i := pc] \<Longrightarrow> \<nexists>p. pc = LoopHandle p \<Longrightarrow> unaided s s'"
  unfolding unaided_def by (metis nth_list_update_eq nth_list_update_neq)

text \<open>What the steps of the loops leave alone.\<close>

definition rest :: "'p life \<Rightarrow> int \<times> bool \<times> closer_pc list \<times> nat option \<times> bool \<times> egress_pc" where
  "rest s = (lf_now s, lf_closed s, lf_closers s, lf_once s, lf_onceDone s, lf_egress s)"

text \<open>What each loop can do, all can.\<close>

lemma each_loop:
  assumes one: "\<And>s i. P s \<Longrightarrow> i < length (lf_loops s) \<Longrightarrow>
      \<exists>s' pc. unaided\<^sup>*\<^sup>* s s' \<and> P s' \<and> lf_loops s' = (lf_loops s)[i := pc] \<and> Q pc"
    and "P s"
  shows "\<exists>s'. unaided\<^sup>*\<^sup>* s s' \<and> P s' \<and> (\<forall>i < length (lf_loops s'). Q (lf_loops s' ! i))"
proof -
  have "\<exists>s'. unaided\<^sup>*\<^sup>* s s' \<and> P s' \<and> length (lf_loops s') = length (lf_loops s) \<and> (\<forall>i < n. Q (lf_loops s' ! i))"
    if "n \<le> length (lf_loops s)" for n
    using that
  proof (induction n)
    case 0
    then show ?case using assms(2) by blast
  next
    case (Suc n)
    then obtain s' where s': "unaided\<^sup>*\<^sup>* s s'" "P s'" "length (lf_loops s') = length (lf_loops s)"
      "\<forall>i < n. Q (lf_loops s' ! i)" by auto
    obtain s'' pc where "unaided\<^sup>*\<^sup>* s' s''" "P s''" "lf_loops s'' = (lf_loops s')[n := pc]" "Q pc"
      using one [OF s'(2), of n] s'(3) Suc.prems by auto
    then show ?case using s' Suc.prems
      by (intro exI [of _ s'']) (auto simp: less_Suc_eq nth_list_update)
  qed
  from this [OF order_refl] show ?thesis by (metis (no_types, lifting))
qed

text \<open>Behind the close a loop that is not before its read, and in one only at its deadline, returns
  without the clock moving.\<close>

definition late_loop :: "'p life \<Rightarrow> nat \<Rightarrow> bool" where
  "late_loop s i \<longleftrightarrow> (case lf_loops s ! i of LoopArm \<Rightarrow> False | LoopRead \<Rightarrow> expired s i | _ \<Rightarrow> True)"

lemma late_loop_cong:
  "lf_loops t ! k = lf_loops s ! k \<Longrightarrow> lf_deadlines t = lf_deadlines s \<Longrightarrow> lf_now t = lf_now s \<Longrightarrow> late_loop t k = late_loop s k"
  by (cases "lf_loops s ! k"; cases "lf_deadlines s ! k") (simp_all add: late_loop_def expired_def)

lemma check_to_exit:
  assumes "lf_closed s" "i < length (lf_loops s)" "lf_loops s ! i = LoopCheck"
  shows "unaided s (set_loop i LoopExited s)"
proof (rule unaided_loop [where pc = LoopExited])
  show "life_step s (set_loop i LoopExited s)" using life_step.CheckClosed [OF assms(2,3)] assms(1) by simp
qed (simp_all add: life_upd)

lemma loop_to_exit:
  assumes "rest s = r" "lf_closed s" "\<forall>k < length (lf_loops s). late_loop s k" "i < length (lf_loops s)"
  shows "\<exists>s' pc. unaided\<^sup>*\<^sup>* s s' \<and> (rest s' = r \<and> lf_closed s' \<and> (\<forall>k < length (lf_loops s'). late_loop s' k)) \<and>
    lf_loops s' = (lf_loops s)[i := pc] \<and> pc = LoopExited"
proof -
  have check: ?thesis if u: "unaided\<^sup>*\<^sup>* s u" "lf_loops u = (lf_loops s)[i := LoopCheck]" "rest u = rest s"
    "lf_deadlines u = lf_deadlines s" for u
  proof -
    let ?t = "set_loop i LoopExited u"
    have "unaided u ?t" by (rule check_to_exit) (use assms u in \<open>auto simp: rest_def\<close>)
    with u(1) have "unaided\<^sup>*\<^sup>* s ?t" by auto
    moreover have "late_loop ?t k" if "k < length (lf_loops ?t)" for k
    proof (cases "k = i")
      case True
      then show ?thesis using assms(4) u(2) by (simp add: late_loop_def life_upd)
    next
      case False
      have "lf_now u = lf_now s" "lf_deadlines u = lf_deadlines s" using u(3,4) by (simp_all add: rest_def)
      then have "late_loop ?t k = late_loop s k" using False u(2) by (intro late_loop_cong) (simp_all add: life_upd)
      then show ?thesis using assms(3) that u(2) by (simp add: life_upd)
    qed
    ultimately show ?thesis using assms u
      by (intro exI [of _ ?t] exI [of _ LoopExited]) (auto simp: rest_def life_upd)
  qed
  have late: "late_loop s i" using assms(3,4) by simp
  show ?thesis
  proof (cases "lf_loops s ! i")
    case LoopCheck
    then show ?thesis using check [of s] by (metis list_update_id rtranclp.rtrancl_refl)
  next
    case LoopRead
    have "unaided s (set_loop i LoopCheck s)"
      by (rule unaided_loop [OF life_step.ReadTimeout, where pc = LoopCheck]) (use assms(4) LoopRead late in \<open>simp_all add: life_upd late_loop_def\<close>)
    from check [OF unaided_run [OF this]] show ?thesis by (simp add: life_upd rest_def)
  next
    case (LoopHandle p)
    have "unaided s (set_loop i LoopCheck (note_event (Handled i p) s))"
      by (rule unaided_loop [OF life_step.HandleDatagram [OF assms(4) LoopHandle], where pc = LoopCheck]) (simp_all add: life_upd)
    from check [OF unaided_run [OF this]] show ?thesis by (simp add: life_upd rest_def)
  next
    case LoopExited
    then show ?thesis using assms
      by (intro exI [of _ s] exI [of _ LoopExited]) (auto intro: list_update_same_conv [THEN iffD2, symmetric])
  qed (use late in \<open>simp add: late_loop_def\<close>)
qed

text \<open>Any loop reaches its read or a point from which it returns.\<close>

lemma loop_to_read:
  assumes "rest s = r" "lf_closed s" "life_time s" "i < length (lf_loops s)"
  shows "\<exists>s' pc. unaided\<^sup>*\<^sup>* s s' \<and> (rest s' = r \<and> lf_closed s' \<and> life_time s') \<and> lf_loops s' = (lf_loops s)[i := pc] \<and>
    pc \<noteq> LoopArm"
proof (cases "lf_loops s ! i = LoopArm")
  case True
  let ?t = "set_loop i LoopRead (s\<lparr>lf_deadlines := (lf_deadlines s)[i := Some (lf_now s + readDeadline)]\<rparr>)"
  have t: "unaided s ?t"
    by (rule unaided_loop [OF life_step.SetDeadline [OF assms(4) True], where pc = LoopRead]) (simp_all add: life_upd)
  then have "unaided\<^sup>*\<^sup>* s ?t" "life_time ?t" using life_time_step [OF unaided_step assms(3)] by auto
  then show ?thesis using assms by (intro exI [of _ ?t] exI [of _ LoopRead]) (auto simp: rest_def life_upd)
next
  case False
  then show ?thesis using assms
    by (intro exI [of _ s] exI [of _ "lf_loops s ! i"]) auto
qed

lemma egress_to_exit:
  assumes "lf_closed s"
  shows "\<exists>l. unaided\<^sup>*\<^sup>* s (s\<lparr>lf_egress := EgExited, lf_log := l\<rparr>)"
proof -
  let ?t = "\<lambda>e l. s\<lparr>lf_egress := e, lf_log := l\<rparr>"
  have drain: "unaided\<^sup>*\<^sup>* (?t EgDrain l) (?t EgExited l)" for l
  proof -
    have "life_step (?t EgDrain l) (?t EgSelect l)" using life_step.Drained [of "?t EgDrain l"] by (cases s) simp
    then have "unaided (?t EgDrain l) (?t EgSelect l)" by (rule unaided_same) simp_all
    moreover have "life_step (?t EgSelect l) (?t EgExited l)" using life_step.EgressClosed [of "?t EgSelect l"] assms by (cases s) simp
    then have "unaided (?t EgSelect l) (?t EgExited l)" by (rule unaided_same) simp_all
    ultimately show ?thesis by auto
  qed
  have self: "s = ?t (lf_egress s) (lf_log s)" by simp
  show ?thesis
  proof (cases "lf_egress s")
    case EgDrain
    then show ?thesis using drain self by metis
  next
    case EgWrite
    then have "life_step s (?t EgDrain (lf_log s @ [Wrote]))"
      using life_step.WriteForward [of s] by (cases s) (simp add: life_upd)
    then have "unaided s (?t EgDrain (lf_log s @ [Wrote]))" by (rule unaided_same) simp_all
    then show ?thesis using drain [of "lf_log s @ [Wrote]"] by (meson converse_rtranclp_into_rtranclp)
  next
    case EgSelect
    have "unaided s (s\<lparr>lf_egress := EgExited\<rparr>)"
      by (rule unaided_same [OF life_step.EgressClosed [OF EgSelect assms]]) simp_all
    then show ?thesis by (intro exI [of _ "lf_log s"]) auto
  next
    case EgExited
    then show ?thesis by (intro exI [of _ "lf_log s"]) (metis rtranclp.rtrancl_refl self)
  qed
qed

text \<open>Behind the close every goroutine can return: at once when the loops are late, and within one read
  deadline in any case.\<close>

lemma all_exit_now:
  assumes "lf_closed s" "\<forall>k < length (lf_loops s). late_loop s k"
  shows "\<exists>s'. unaided\<^sup>*\<^sup>* s s' \<and> all_returned s' \<and> lf_now s' = lf_now s \<and>
    (lf_closers s', lf_once s', lf_onceDone s') = (lf_closers s, lf_once s, lf_onceDone s)"
proof -
  have "\<exists>c. unaided\<^sup>*\<^sup>* s c \<and> (rest c = rest s \<and> lf_closed c \<and> (\<forall>k < length (lf_loops c). late_loop c k)) \<and>
      (\<forall>i < length (lf_loops c). lf_loops c ! i = LoopExited)"
    using assms by (intro each_loop loop_to_exit) auto
  then obtain c where c: "unaided\<^sup>*\<^sup>* s c" "rest c = rest s" "lf_closed c" "\<forall>i < length (lf_loops c). lf_loops c ! i = LoopExited"
    by blast
  obtain l where d: "unaided\<^sup>*\<^sup>* c (c\<lparr>lf_egress := EgExited, lf_log := l\<rparr>)" using egress_to_exit [OF c(3)] by blast
  show ?thesis using rtranclp_trans [OF c(1) d] c(2,4)
    by (intro exI [of _ "c\<lparr>lf_egress := EgExited, lf_log := l\<rparr>"]) (auto simp: rest_def all_returned_def list_all_length)
qed

lemma all_can_return:
  assumes "lf_closed s" "life_time s"
  shows "\<exists>s'. unaided\<^sup>*\<^sup>* s s' \<and> all_returned s' \<and> lf_now s' = lf_now s + readDeadline \<and>
    (lf_closers s', lf_once s', lf_onceDone s') = (lf_closers s, lf_once s, lf_onceDone s)"
proof -
  obtain a where a: "unaided\<^sup>*\<^sup>* s a" "rest a = rest s" "life_time a" "\<forall>i < length (lf_loops a). lf_loops a ! i \<noteq> LoopArm"
    using each_loop [of "\<lambda>t. rest t = rest s \<and> lf_closed t \<and> life_time t", OF loop_to_read, of s] assms by blast
  let ?b = "a\<lparr>lf_now := lf_now a + readDeadline\<rparr>"
  have b: "unaided a ?b" by (rule unaided_same [OF life_step.Clock]) (simp_all add: readDeadline_def)
  have late: "late_loop ?b i" if "i < length (lf_loops ?b)" for i
    using a(3,4) that by (auto simp: late_loop_def expired_def life_time_def split: option.splits loop_pc.splits)
  have "lf_closed ?b" using a(2) assms(1) by (simp add: rest_def)
  from all_exit_now [OF this] late obtain c where c: "unaided\<^sup>*\<^sup>* ?b c" "all_returned c" "lf_now c = lf_now ?b"
    "(lf_closers c, lf_once c, lf_onceDone c) = (lf_closers ?b, lf_once ?b, lf_onceDone ?b)" by blast
  have "unaided\<^sup>*\<^sup>* s c" using a(1) b c(1) by (meson rtranclp.rtrancl_into_rtrancl rtranclp_trans)
  then show ?thesis using a(2) c(2-4) by (intro exI [of _ c]) (auto simp: rest_def)
qed

text \<open>The caller inside the \<^verbatim>\<open>sync.Once\<close> reaches the wait, and by then the reads it has woken are over.\<close>

lemma wake_all:
  assumes "j < length (lf_closers s)" "lf_closers s ! j = Waking k"
  shows "\<exists>d. unaided\<^sup>*\<^sup>* s (s\<lparr>lf_deadlines := d, lf_closers := (lf_closers s)[j := Waiting]\<rparr>) \<and>
    length d = length (lf_deadlines s) \<and> (\<forall>i < length d. k \<le> i \<longrightarrow> d ! i = Some (lf_now s)) \<and>
    (\<forall>i < length d. i < k \<longrightarrow> d ! i = lf_deadlines s ! i)"
  using assms
proof (induction "length (lf_deadlines s) - k" arbitrary: s k)
  case 0
  have "unaided s (set_closer j Waiting s)"
    by (rule unaided_same [OF life_step.AllWoken]) (use 0 in \<open>simp_all add: life_upd\<close>)
  then show ?case using 0 by (intro exI [of _ "lf_deadlines s"]) (simp add: life_upd)
next
  case (Suc n)
  let ?t = "set_closer j (Waking (Suc k)) (s\<lparr>lf_deadlines := (lf_deadlines s)[k := Some (lf_now s)]\<rparr>)"
  have t: "unaided s ?t"
    by (rule unaided_same [OF life_step.WakeSocket]) (use Suc in \<open>auto simp: life_upd\<close>)
  have "n = length (lf_deadlines ?t) - Suc k" "j < length (lf_closers ?t)" "lf_closers ?t ! j = Waking (Suc k)"
    using Suc.hyps(2) Suc.prems by (simp_all add: life_upd)
  from Suc.hyps(1) [OF this] obtain d where d: "unaided\<^sup>*\<^sup>* ?t (?t\<lparr>lf_deadlines := d, lf_closers := (lf_closers ?t)[j := Waiting]\<rparr>)"
    "length d = length (lf_deadlines ?t)" "\<forall>i < length d. Suc k \<le> i \<longrightarrow> d ! i = Some (lf_now ?t)"
    "\<forall>i < length d. i < Suc k \<longrightarrow> d ! i = lf_deadlines ?t ! i" by blast
  have "unaided\<^sup>*\<^sup>* s (?t\<lparr>lf_deadlines := d, lf_closers := (lf_closers ?t)[j := Waiting]\<rparr>)"
    using t d(1) by (meson converse_rtranclp_into_rtranclp)
  moreover have "d ! i = Some (lf_now s)" if "i < length d" "k \<le> i" for i
    using that d(2-4) by (cases "i = k") (auto simp: life_upd nth_list_update)
  moreover have "d ! i = lf_deadlines s ! i" if "i < length d" "i < k" for i
    using that d(4) by (auto simp: life_upd nth_list_update)
  ultimately show ?case using d(2) by (intro exI [of _ d]) (simp add: life_upd)
qed

lemma steps_keep:
  assumes "unaided\<^sup>*\<^sup>* s s'" "life_once s" "life_time s"
  shows "life_once s'" "life_time s'"
proof -
  from assms have "life_once s' \<and> life_time s'"
  proof (induction rule: rtranclp_induct)
    case (step t t')
    then show ?case using life_once_step life_time_step unaided_step by blast
  qed auto
  then show "life_once s'" "life_time s'" by auto
qed

text \<open>From the wait, once every goroutine has returned, the caller closes the sockets and returns.\<close>

lemma wait_over:
  assumes "unaided\<^sup>*\<^sup>* s a" "all_returned a" "j < length (lf_closers a)" "lf_closers a ! j = Waiting"
  shows "\<exists>s'. unaided\<^sup>*\<^sup>* s s' \<and> lf_onceDone s' \<and> lf_closers s' = (lf_closers a)[j := Returned] \<and> lf_now s' = lf_now a"
proof -
  let ?b = "set_closer j ClosingSocks a"
  let ?c = "set_closer j Returned (note_event (CloseReturned j) (note_event SocksClosed (?b\<lparr>lf_socksOpen := False, lf_onceDone := True\<rparr>)))"
  have b: "unaided a ?b" by (rule unaided_same [OF life_step.WaitDone]) (use assms in \<open>simp_all add: life_upd\<close>)
  have c: "unaided ?b ?c" by (rule unaided_same [OF life_step.CloseSockets]) (use assms in \<open>simp_all add: life_upd\<close>)
  have "unaided\<^sup>*\<^sup>* s ?c" using assms(1) b c by (meson rtranclp.rtrancl_into_rtrancl)
  then show ?thesis by (intro exI [of _ ?c]) (simp add: life_upd)
qed

lemma waiting_returns:
  assumes "life_once s" "life_time s" "j < length (lf_closers s)" "lf_closers s ! j = Waiting"
  shows "\<exists>s'. unaided\<^sup>*\<^sup>* s s' \<and> lf_onceDone s' \<and> lf_closers s' = (lf_closers s)[j := Returned] \<and> lf_now s' = lf_now s + readDeadline"
proof -
  have "lf_closed s" using life_once_at [OF assms(1,3)] assms(4) by (simp add: closer_ok_def inside_def)
  then obtain a where a: "unaided\<^sup>*\<^sup>* s a" "all_returned a" "lf_now a = lf_now s + readDeadline" "lf_closers a = lf_closers s"
    using all_can_return [OF _ assms(2)] by auto
  show ?thesis using wait_over [OF a(1,2), of j] a(3,4) assms(3,4) by simp
qed

lemma inside_returns:
  assumes "life_once s" "life_time s" "j < length (lf_closers s)" "inside (lf_closers s ! j)"
  shows "\<exists>s'. unaided\<^sup>*\<^sup>* s s' \<and> lf_onceDone s' \<and> lf_closers s' = (lf_closers s)[j := Returned] \<and> lf_now s' \<le> lf_now s + readDeadline"
proof -
  have wait: ?thesis if t: "unaided\<^sup>*\<^sup>* s t" "lf_closers t = (lf_closers s)[j := Waiting]" "lf_now t = lf_now s" for t
  proof -
    have "life_once t" "life_time t" using steps_keep [OF t(1) assms(1,2)] by auto
    then obtain s' where s': "unaided\<^sup>*\<^sup>* t s'" "lf_onceDone s'" "lf_closers s' = (lf_closers t)[j := Returned]" "lf_now s' = lf_now t + readDeadline"
      using waiting_returns [of t j] t(2) assms(3) by auto
    then show ?thesis using t by (intro exI [of _ s']) auto
  qed
  have woken: ?thesis if t: "unaided\<^sup>*\<^sup>* s t" "lf_closers t = (lf_closers s)[j := Waking k]" "lf_now t = lf_now s" for t k
  proof -
    obtain d where d: "unaided\<^sup>*\<^sup>* t (t\<lparr>lf_deadlines := d, lf_closers := (lf_closers t)[j := Waiting]\<rparr>)"
      using wake_all [of j t k] t(2) assms(3) by auto
    show ?thesis by (rule wait [OF rtranclp_trans [OF t(1) d]]) (simp_all add: t)
  qed
  show ?thesis
  proof (cases "lf_closers s ! j")
    case Closing
    have "unaided s (set_closer j (Waking 0) (note_event ClosedChan (s\<lparr>lf_closed := True\<rparr>)))"
      by (rule unaided_same [OF life_step.CloseChannel [OF assms(3) Closing]]) (simp_all add: life_upd)
    from woken [OF unaided_run [OF this]] show ?thesis by (simp add: life_upd)
  next
    case (Waking k)
    then show ?thesis using woken [of s k] by (metis list_update_id rtranclp.rtrancl_refl)
  next
    case Waiting
    then show ?thesis using wait [of s] by (metis list_update_id rtranclp.rtrancl_refl)
  next
    case ClosingSocks
    let ?t = "set_closer j Returned (note_event (CloseReturned j) (note_event SocksClosed (s\<lparr>lf_socksOpen := False, lf_onceDone := True\<rparr>)))"
    have "unaided s ?t" by (rule unaided_same [OF life_step.CloseSockets [OF assms(3) ClosingSocks]]) (simp_all add: life_upd)
    then show ?thesis by (intro exI [of _ ?t]) (auto simp: life_upd readDeadline_def)
  qed (use assms(4) in \<open>auto simp: inside_def\<close>)
qed

text \<open>Thanks to the wake-up, a close that finds every loop past its deadline's setting needs no time.\<close>

lemma closing_returns_at_once:
  assumes "life_time s" "j < length (lf_closers s)" "lf_closers s ! j = Closing" "LoopArm \<notin> set (lf_loops s)"
  shows "\<exists>s'. unaided\<^sup>*\<^sup>* s s' \<and> lf_onceDone s' \<and> lf_closers s' = (lf_closers s)[j := Returned] \<and> lf_now s' = lf_now s"
proof -
  let ?t = "set_closer j (Waking 0) (note_event ClosedChan (s\<lparr>lf_closed := True\<rparr>))"
  have t: "unaided s ?t" by (rule unaided_same [OF life_step.CloseChannel [OF assms(2,3)]]) (simp_all add: life_upd)
  have "j < length (lf_closers ?t)" "lf_closers ?t ! j = Waking 0" using assms(2) by (simp_all add: life_upd)
  from wake_all [OF this] obtain d where d: "unaided\<^sup>*\<^sup>* ?t (?t\<lparr>lf_deadlines := d, lf_closers := (lf_closers ?t)[j := Waiting]\<rparr>)"
    "length d = length (lf_deadlines s)" "\<forall>i < length d. d ! i = Some (lf_now s)"
    by (auto simp: life_upd)
  let ?u = "?t\<lparr>lf_deadlines := d, lf_closers := (lf_closers ?t)[j := Waiting]\<rparr>"
  have "late_loop ?u k" if k: "k < length (lf_loops ?u)" for k
  proof -
    have "k < length (lf_loops s)" using k by (simp add: life_upd)
    then have "lf_loops s ! k \<noteq> LoopArm" "k < length d" using assms(1,4) d(2) by (auto simp: life_time_def dest: nth_mem)
    then show ?thesis using d(3) by (auto simp: late_loop_def expired_def life_upd split: loop_pc.split)
  qed
  moreover have "lf_closed ?u" by (simp add: life_upd)
  ultimately obtain a where a: "unaided\<^sup>*\<^sup>* ?u a" "all_returned a" "lf_now a = lf_now ?u" "lf_closers a = lf_closers ?u"
    using all_exit_now [of ?u] by auto
  have "unaided\<^sup>*\<^sup>* s a" using t d(1) a(1) by (meson converse_rtranclp_into_rtranclp rtranclp_trans)
  from wait_over [OF this a(2), of j] show ?thesis using a(3,4) assms(2) by (simp add: life_upd)
qed

text \<open>Whoever has called \<^verbatim>\<open>Close\<close> gets back from it when the caller inside the \<^verbatim>\<open>sync.Once\<close> does.\<close>

lemma joins_return:
  assumes "unaided\<^sup>*\<^sup>* s t" "lf_onceDone t" "j < length (lf_closers t)" "lf_closers t ! j = AtOnce"
  shows "\<exists>s'. unaided\<^sup>*\<^sup>* s s' \<and> lf_closers s' ! j = Returned \<and> lf_now s' = lf_now t"
proof -
  let ?u = "set_closer j Returned (note_event (CloseReturned j) t)"
  have "unaided t ?u" by (rule unaided_same [OF life_step.JoinOnce]) (use assms in \<open>simp_all add: life_upd\<close>)
  with assms(1) have "unaided\<^sup>*\<^sup>* s ?u" by auto
  then show ?thesis using assms(3) by (intro exI [of _ ?u]) (auto simp: life_upd)
qed

lemma enters_once:
  assumes "j < length (lf_closers s)" "lf_closers s ! j = AtOnce" "lf_once s = None"
  shows "unaided s (set_closer j Closing (s\<lparr>lf_once := Some j\<rparr>))"
  by (rule unaided_same [OF life_step.EnterOnce [OF assms]]) (simp_all add: life_upd)

lemma close_returns:
  assumes "life_once s" "life_time s" "j < length (lf_closers s)" "lf_closers s ! j \<noteq> Outside"
  shows "\<exists>s'. unaided\<^sup>*\<^sup>* s s' \<and> lf_closers s' ! j = Returned \<and> lf_now s' \<le> lf_now s + readDeadline"
proof -
  consider "lf_closers s ! j = Returned" | "inside (lf_closers s ! j)" | "lf_closers s ! j = AtOnce" "lf_once s = None"
    | "lf_closers s ! j = AtOnce" "lf_onceDone s" | k where "lf_closers s ! j = AtOnce" "lf_once s = Some k" "\<not> lf_onceDone s"
    using assms(4) by (auto simp: inside_def)
  then show ?thesis
  proof cases
    case 1
    then show ?thesis by (intro exI [of _ s]) (simp add: readDeadline_def)
  next
    case 2
    then show ?thesis using inside_returns [OF assms(1-3)] assms(3) by auto
  next
    case 3
    let ?t = "set_closer j Closing (s\<lparr>lf_once := Some j\<rparr>)"
    have t: "unaided s ?t" by (rule enters_once [OF assms(3) 3])
    then obtain s' where "unaided\<^sup>*\<^sup>* ?t s'" "lf_closers s' = (lf_closers ?t)[j := Returned]" "lf_now s' \<le> lf_now ?t + readDeadline"
      using inside_returns [of ?t j] steps_keep [OF unaided_run [OF t] assms(1,2)] assms(3)
      by (auto simp: life_upd inside_def)
    with t show ?thesis using assms(3) by (intro exI [of _ s']) (auto simp: life_upd)
  next
    case 4
    then obtain s' where "unaided\<^sup>*\<^sup>* s s'" "lf_closers s' ! j = Returned" "lf_now s' = lf_now s"
      using joins_return [OF rtranclp.rtrancl_refl _ assms(3)] by blast
    then show ?thesis by (intro exI [of _ s']) (simp add: readDeadline_def)
  next
    case (5 k)
    then have k: "k < length (lf_closers s)" "inside (lf_closers s ! k)" using life_once_whole [OF assms(1)] by auto
    then have "k \<noteq> j" using 5(1) by (auto simp: inside_def)
    obtain t where t: "unaided\<^sup>*\<^sup>* s t" "lf_onceDone t" "lf_closers t = (lf_closers s)[k := Returned]" "lf_now t \<le> lf_now s + readDeadline"
      using inside_returns [OF assms(1,2) k] by blast
    then show ?thesis using joins_return [OF t(1,2), of j] \<open>k \<noteq> j\<close> assms(3) 5(1) by auto
  qed
qed

lemma close_returns_at_once:
  assumes "life_once s" "life_time s" "j < length (lf_closers s)" "lf_closers s ! j \<noteq> Outside"
    and "\<not> lf_closed s" "LoopArm \<notin> set (lf_loops s)"
  shows "\<exists>s'. unaided\<^sup>*\<^sup>* s s' \<and> lf_closers s' ! j = Returned \<and> lf_now s' = lf_now s"
proof -
  have nd: "\<not> lf_onceDone s" using life_once_whole(1) [OF assms(1)] assms(5) by (auto simp: once_ok_def)
  have at: "closer_ok s i (lf_closers s ! i)" if "i < length (lf_closers s)" for i using life_once_at [OF assms(1) that] .
  have closing: "lf_closers s ! i = Closing" if "i < length (lf_closers s)" "inside (lf_closers s ! i)" for i
    using at [OF that(1)] that(2) assms(5) by (auto simp: closer_ok_def)
  show ?thesis
  proof (cases "lf_once s")
    case None
    have a: "lf_closers s ! j = AtOnce"
      using at [OF assms(3)] None assms(4) nd by (auto simp: closer_ok_def inside_def)
    let ?t = "set_closer j Closing (s\<lparr>lf_once := Some j\<rparr>)"
    have t: "unaided s ?t" by (rule enters_once [OF assms(3) a None])
    obtain s' where "unaided\<^sup>*\<^sup>* ?t s'" "lf_closers s' = (lf_closers ?t)[j := Returned]" "lf_now s' = lf_now ?t"
      using closing_returns_at_once [of ?t j] steps_keep(2) [OF unaided_run [OF t] assms(1,2)] assms(3,6)
      by (auto simp: life_upd)
    with t show ?thesis using assms(3) by (intro exI [of _ s']) (auto simp: life_upd)
  next
    case (Some k)
    then have k: "k < length (lf_closers s)" "inside (lf_closers s ! k)" using life_once_whole [OF assms(1)] nd by auto
    obtain t where t: "unaided\<^sup>*\<^sup>* s t" "lf_onceDone t" "lf_closers t = (lf_closers s)[k := Returned]" "lf_now t = lf_now s"
      using closing_returns_at_once [OF assms(2) k(1) closing [OF k] assms(6)] by blast
    show ?thesis
    proof (cases "k = j")
      case True
      then show ?thesis using t assms(3) by auto
    next
      case False
      have "lf_closers s ! j = AtOnce"
        using at [OF assms(3)] Some False assms(4) nd by (auto simp: closer_ok_def inside_def)
      then show ?thesis using joins_return [OF t(1,2), of j] t(3,4) False assms(3) by simp
    qed
  qed
qed


text \<open>How many of its own steps a loop has left behind the close.\<close>

fun loop_rank :: "'p loop_pc \<Rightarrow> nat" where
  "loop_rank LoopExited = 0"
| "loop_rank LoopCheck = 1"
| "loop_rank (LoopHandle p) = 2"
| "loop_rank LoopRead = 3"
| "loop_rank LoopArm = 4"

lemma sum_list_less: "i < length xs \<Longrightarrow> y < xs ! i \<Longrightarrow> sum_list (xs[i := y]) < (sum_list xs :: nat)"
proof (induction xs arbitrary: i)
  case (Cons x xs)
  then show ?case by (cases i) auto
qed simp

lemma loop_ranks_update:
  assumes "i < length pcs" "loop_rank pc < loop_rank (pcs ! i)"
  shows "sum_list (map loop_rank (pcs[i := pc])) < sum_list (map loop_rank pcs)"
  using assms by (simp add: map_update sum_list_less)

lemma loops_wind_down:
  "life_step s s' \<Longrightarrow> lf_closed s \<Longrightarrow> lf_loops s' = lf_loops s \<or>
     sum_list (map loop_rank (lf_loops s')) < sum_list (map loop_rank (lf_loops s))"
  by (induction rule: life_step.induct) (auto simp: life_upd intro!: loop_ranks_update)

lemma late_at_most_one:
  assumes "life_late s"
  shows "late_reads i (lf_log s) \<le> 1" "late_writes (lf_log s) \<le> 1"
proof -
  have "late_reads i (lf_log s) \<le> reads_allowed s i" using assms by (simp add: life_late_def)
  then show "late_reads i (lf_log s) \<le> 1" by (simp add: reads_allowed_def split: if_splits)
  have "late_writes (lf_log s) \<le> (if lf_egress s = EgWrite then 0 else 1)" using assms by (simp add: life_late_def)
  then show "late_writes (lf_log s) \<le> 1" by (simp split: if_splits)
qed


text \<open>A caller that has returned is in the log.\<close>

definition returns_logged :: "'p life \<Rightarrow> bool" where
  "returns_logged s \<longleftrightarrow> (\<forall>j < length (lf_closers s). lf_closers s ! j = Returned \<longrightarrow> CloseReturned j \<in> set (lf_log s))"

lemma returns_logged_step: "life_step s s' \<Longrightarrow> returns_logged s \<Longrightarrow> returns_logged s'"
  by (induction rule: life_step.induct) (auto simp: returns_logged_def life_upd nth_list_update split: if_splits)

lemma returns_logged_reachable: "life_step\<^sup>*\<^sup>* (life_start loops closers) s \<Longrightarrow> returns_logged s"
  by (induction rule: rtranclp_induct) (auto simp: returns_logged_def life_start_def intro: returns_logged_step [unfolded returns_logged_def, rule_format])

lemma split_at: "e \<in> set l \<Longrightarrow> l = takeWhile (\<lambda>x. x \<noteq> e) l @ e # after e l"
  unfolding after_def by (induction l) auto

lemma occurs_once:
  assumes "e \<in> set l" "e \<notin> set (after e l)"
  shows "count_list l e = 1"
proof -
  have "count_list (takeWhile (\<lambda>x. x \<noteq> e) l) e = 0" by (auto dest: set_takeWhileD simp: count_list_0_iff)
  then have "count_list (takeWhile (\<lambda>x. x \<noteq> e) l @ e # after e l) e = 1" using assms(2) by (simp add: count_list_0_iff)
  then show ?thesis using split_at [OF assms(1)] by simp
qed

text \<open>One caller closes the relay of one loop.\<close>

lemma closed_life:
  "\<exists>s :: 'p life. life_step\<^sup>*\<^sup>* (life_start 1 1) s \<and> lf_closers s ! 0 = Returned \<and> lf_now s \<le> readDeadline"
proof -
  let ?s = "life_start 1 1 :: 'p life" and ?t = "set_closer 0 AtOnce (life_start 1 1 :: 'p life)"
  have t: "life_step ?s ?t" by (rule life_step.CallClose) (simp_all add: life_start_def)
  have "\<exists>s'. unaided\<^sup>*\<^sup>* ?t s' \<and> lf_closers s' ! 0 = Returned \<and> lf_now s' \<le> lf_now ?t + readDeadline"
    by (rule close_returns) (use life_once_step [OF t life_start_ok(1)] life_time_step [OF t life_start_ok(4)] in
      \<open>simp_all add: life_upd life_start_def\<close>)
  then obtain s' where "life_step\<^sup>*\<^sup>* ?t s'" "lf_closers s' ! 0 = Returned" "lf_now s' \<le> lf_now ?t + readDeadline"
    using unaided_steps by blast
  then show ?thesis using t by (intro exI [of _ s']) (auto simp: life_upd life_start_def)
qed

end
