(* ===== verification/ReadLoops.thy ===== *)
theory ReadLoops
  imports Relay Lifecycle
begin

text \<open>
  The read loops of \<^verbatim>\<open>relay/relay.go\<close> and \<^verbatim>\<open>ristrelay/ristrelay.go\<close> as a whole, over the handlers of
  theory \<open>Relay\<close>, and the drivers' calls that go to the core or the sockets. A loop's turns are what
  it meets at the closed channel and at the socket; when they happen is theory \<open>Lifecycle\<close>. The
  lemmas say which datagrams a loop handles, and that the two loops of the RIST relay, which share
  the relay, do not disturb each other however their turns interleave.
\<close>

section \<open>Turns\<close>

text \<open>A turn ends at the closed channel, with a read timeout, with another error, or with a datagram
  that is handled.\<close>

datatype 'p turn = SawClosed | TimedOut | ReadFailed | Got 'p

fun read_loop :: "('p \<Rightarrow> 's \<Rightarrow> ('s \<times> 'o list) option) \<Rightarrow> 'p turn list \<Rightarrow> 's \<Rightarrow> ('s \<times> 'o list) option" where
  "read_loop h [] s = Some (s, [])"
| "read_loop h (SawClosed # ts) s = Some (s, [])"
| "read_loop h (TimedOut # ts) s = read_loop h ts s"
| "read_loop h (ReadFailed # ts) s = Some (s, [])"
| "read_loop h (Got p # ts) s =
     (case h p s of None \<Rightarrow> None
      | Some (s1, o1) \<Rightarrow> (case read_loop h ts s1 of None \<Rightarrow> None
        | Some (s2, o2) \<Rightarrow> Some (s2, o1 @ o2)))"

definition relay_loop :: "platform \<Rightarrow> (addr_port \<times> bytes \<times> int64) turn list \<Rightarrow> relay
    \<Rightarrow> (relay \<times> (direction \<times> bytes) list) option" where
  "relay_loop pf = read_loop (\<lambda>(src, data, t). relay_datagram pf src data t)"

definition mediaLoop :: "platform \<Rightarrow> (udp_addr \<times> bytes \<times> int64) turn list \<Rightarrow> rist \<Rightarrow> (rist \<times> bytes list) option" where
  "mediaLoop pf = read_loop (\<lambda>(src, data, t). rist_media pf src data t)"

text \<open>What the RTCP loop does to the outside: the tap, and the write to the RTCP socket.\<close>

datatype rtcp_output = Tapped bytes | RtcpWritten udp_addr bytes

definition rtcp_turn :: "udp_addr \<times> bytes \<Rightarrow> rist \<Rightarrow> rist \<times> rtcp_output list" where
  "rtcp_turn p r = (case rist_rtcp (fst p) (snd p) r of (r', taps, w) \<Rightarrow>
     (r', map Tapped taps @ (case w of None \<Rightarrow> [] | Some (dst, pkt) \<Rightarrow> [RtcpWritten dst pkt])))"

definition rtcpLoop :: "(udp_addr \<times> bytes) turn list \<Rightarrow> rist \<Rightarrow> (rist \<times> rtcp_output list) option" where
  "rtcpLoop = read_loop (\<lambda>p r. Some (rtcp_turn p r))"

text \<open>The datagrams a loop gets before it returns.\<close>

fun received :: "'p turn list \<Rightarrow> 'p list" where
  "received (TimedOut # ts) = received ts"
| "received (Got p # ts) = p # received ts"
| "received _ = []"

lemma relay_loop_received: "relay_loop pf ts r = relay_run pf (received ts) r"
  by (induction "\<lambda>(src, data, t). relay_datagram pf src data t" ts r rule: read_loop.induct)
    (auto simp: relay_loop_def split: option.split)

text \<open>No loop panics.\<close>

lemma read_loop_total: "(\<And>p s. \<exists>s' os. h p s = Some (s', os)) \<Longrightarrow> \<exists>s' os. read_loop h ts s = Some (s', os)"
proof (induction h ts s rule: read_loop.induct)
  case (5 h p ts s)
  obtain s1 o1 where h1: "h p s = Some (s1, o1)" using "5.prems" by blast
  from "5.IH" [OF h1 refl "5.prems"] show ?case using h1 by auto
qed auto

lemma mediaLoop_total: "\<exists>r' taps. mediaLoop pf ts r = Some (r', taps)"
  unfolding mediaLoop_def by (rule read_loop_total) (metis case_prod_beta rist_media_Some)

lemma rtcpLoop_total: "\<exists>r' os. rtcpLoop ts r = Some (r', os)"
  unfolding rtcpLoop_def by (rule read_loop_total) simp

section \<open>Calls that go to the core and the sockets\<close>

definition relay_SetEngine :: "cell engine \<Rightarrow> relay \<Rightarrow> relay" where
  "relay_SetEngine eng r = r\<lparr>rl_core := core_SetEngine eng (rl_core r)\<rparr>"

definition relay_EnableLedger :: "int64 \<Rightarrow> relay \<Rightarrow> relay" where
  "relay_EnableLedger capacity r = r\<lparr>rl_core := core_EnableLedger capacity (rl_core r)\<rparr>"

definition relay_Ledger :: "relay \<Rightarrow> entry list option" where
  "relay_Ledger r = core_Ledger (rl_core r)"

definition relay_DecomposedOWD :: "platform \<Rightarrow> entry list \<Rightarrow> decomposition \<times> owd list" where
  "relay_DecomposedOWD pf entries = DecomposedOWD pf entries"

definition rist_SetEngine :: "cell engine \<Rightarrow> rist \<Rightarrow> rist" where
  "rist_SetEngine eng r = r\<lparr>rr_core := core_SetEngine eng (rr_core r)\<rparr>"

text \<open>How \<^verbatim>\<open>Close\<close> wakes the loops: it sets the read deadlines of a driver's sockets, in order. In the
  life of the driver these are its steps between closing the channel and waiting.\<close>

definition relay_wake :: "int \<Rightarrow> int option list \<Rightarrow> int option list" where
  "relay_wake now ds = ds[0 := Some now]"

definition rist_wake :: "int \<Rightarrow> int option list \<Rightarrow> int option list" where
  "rist_wake now ds = ds[0 := Some now, 1 := Some now]"

lemma wake_steps:
  assumes "j < length (lf_closers s)" "lf_closers s ! j = Waking 0"
  shows "length (lf_deadlines s) = 1 \<Longrightarrow>
      life_step\<^sup>*\<^sup>* s (set_closer j Waiting (s\<lparr>lf_deadlines := relay_wake (lf_now s) (lf_deadlines s)\<rparr>))"
    "length (lf_deadlines s) = 2 \<Longrightarrow>
      life_step\<^sup>*\<^sup>* s (set_closer j Waiting (s\<lparr>lf_deadlines := rist_wake (lf_now s) (lf_deadlines s)\<rparr>))"
proof -
  let ?d1 = "(lf_deadlines s)[0 := Some (lf_now s)]"
  let ?s1 = "set_closer j (Waking 1) (s\<lparr>lf_deadlines := ?d1\<rparr>)"
  have w1: "life_step s ?s1" if "0 < length (lf_deadlines s)" using life_step.WakeSocket [OF assms that] by simp
  have j1: "j < length (lf_closers ?s1)" "lf_closers ?s1 ! j = Waking 1" using assms(1) by (simp_all add: set_closer_def)
  {
    assume d: "length (lf_deadlines s) = 1"
    have "life_step ?s1 (set_closer j Waiting ?s1)"
      by (rule life_step.AllWoken [OF j1]) (simp add: set_closer_def d)
    then show "life_step\<^sup>*\<^sup>* s (set_closer j Waiting (s\<lparr>lf_deadlines := relay_wake (lf_now s) (lf_deadlines s)\<rparr>))"
      using w1 d by (simp add: relay_wake_def set_closer_def)
  next
    assume d: "length (lf_deadlines s) = 2"
    let ?s2 = "set_closer j (Waking 2) (s\<lparr>lf_deadlines := ?d1[1 := Some (lf_now s)]\<rparr>)"
    have "life_step ?s1 ?s2"
      using life_step.WakeSocket [OF j1] d by (simp add: set_closer_def numeral_2_eq_2)
    moreover have "life_step ?s2 (set_closer j Waiting ?s2)"
      by (rule life_step.AllWoken [where k = 2]) (use assms(1) d in \<open>simp_all add: set_closer_def\<close>)
    moreover have "life_step s ?s1" by (rule w1) (simp add: d)
    ultimately have "life_step\<^sup>*\<^sup>* s (set_closer j Waiting ?s2)"
      by (blast intro: converse_rtranclp_into_rtranclp)
    then show "life_step\<^sup>*\<^sup>* s (set_closer j Waiting (s\<lparr>lf_deadlines := rist_wake (lf_now s) (lf_deadlines s)\<rparr>))"
      by (simp add: rist_wake_def set_closer_def)
  }
qed

section \<open>Two loops over one relay\<close>

text \<open>A datagram on the media socket, with the time it was read, or on the RTCP socket.\<close>

datatype rist_input = MediaIn udp_addr bytes int64 | RtcpIn udp_addr bytes

datatype rist_output = MediaTap bytes | RtcpDone rtcp_output

fun rist_handle :: "platform \<Rightarrow> rist_input \<Rightarrow> rist \<Rightarrow> (rist \<times> rist_output list) option" where
  "rist_handle pf (MediaIn src data t) r =
     map_option (\<lambda>(r', taps). (r', map MediaTap taps)) (rist_media pf src data t r)"
| "rist_handle pf (RtcpIn src data) r = (case rtcp_turn (src, data) r of (r', os) \<Rightarrow> Some (r', map RtcpDone os))"

text \<open>Any interleaving of the turns of the two loops.\<close>

definition rist_loops :: "platform \<Rightarrow> rist_input list \<Rightarrow> rist \<Rightarrow> (rist \<times> rist_output list) option" where
  "rist_loops pf is = read_loop (rist_handle pf) (map Got is)"

fun media_datagrams :: "rist_input list \<Rightarrow> (udp_addr \<times> bytes \<times> int64) list" where
  "media_datagrams [] = []"
| "media_datagrams (MediaIn src data t # is) = (src, data, t) # media_datagrams is"
| "media_datagrams (RtcpIn src data # is) = media_datagrams is"

fun rtcp_datagrams :: "rist_input list \<Rightarrow> (udp_addr \<times> bytes) list" where
  "rtcp_datagrams [] = []"
| "rtcp_datagrams (MediaIn src data t # is) = rtcp_datagrams is"
| "rtcp_datagrams (RtcpIn src data # is) = (src, data) # rtcp_datagrams is"

fun media_outputs :: "rist_output list \<Rightarrow> bytes list" where
  "media_outputs [] = []"
| "media_outputs (MediaTap b # os) = b # media_outputs os"
| "media_outputs (RtcpDone x # os) = media_outputs os"

fun rtcp_outputs :: "rist_output list \<Rightarrow> rtcp_output list" where
  "rtcp_outputs [] = []"
| "rtcp_outputs (MediaTap b # os) = rtcp_outputs os"
| "rtcp_outputs (RtcpDone x # os) = x # rtcp_outputs os"

text \<open>The media turns leave alone what the RTCP turns use, and the other way round.\<close>

lemma rist_media_rtcp_part:
  "rist_media pf src data t (r\<lparr>rr_senderRTCP := x\<rparr>) =
    map_option (\<lambda>(r', taps). (r'\<lparr>rr_senderRTCP := x\<rparr>, taps)) (rist_media pf src data t r)"
  by (auto simp: rist_media_def Let_def observe_def split: option.split)

lemma rist_media_changes:
  "rist_media pf src data t r = Some (r', taps) \<Longrightarrow> \<exists>c s. r' = r\<lparr>rr_core := c, rr_senderRTP := s\<rparr>"
  by (cases r) (auto simp: rist_media_def Let_def split: option.splits if_splits)

lemma rtcp_turn_media_part:
  "rtcp_turn p (r\<lparr>rr_core := c, rr_senderRTP := s\<rparr>) =
    (fst (rtcp_turn p r)\<lparr>rr_core := c, rr_senderRTP := s\<rparr>, snd (rtcp_turn p r))"
  by (auto simp: rtcp_turn_def rist_rtcp_def Let_def observe_def split: option.split)

lemma rtcp_turn_changes: "\<exists>x. fst (rtcp_turn p r) = r\<lparr>rr_senderRTCP := x\<rparr>"
  by (cases r) (auto simp: rtcp_turn_def rist_rtcp_def Let_def split: option.split)

lemma media_output_maps [simp]:
  "media_outputs (map MediaTap taps @ os) = taps @ media_outputs os" "media_outputs (map RtcpDone xs @ os) = media_outputs os"
  "rtcp_outputs (map MediaTap taps @ os) = rtcp_outputs os" "rtcp_outputs (map RtcpDone xs @ os) = xs @ rtcp_outputs os"
proof -
  show "media_outputs (map MediaTap taps @ os) = taps @ media_outputs os" "rtcp_outputs (map MediaTap taps @ os) = rtcp_outputs os"
    by (induction taps) simp_all
  show "media_outputs (map RtcpDone xs @ os) = media_outputs os" "rtcp_outputs (map RtcpDone xs @ os) = xs @ rtcp_outputs os"
    by (induction xs) simp_all
qed

lemma rist_loops_split:
  "\<exists>r' os. rist_loops pf is r = Some (r', os) \<and>
     mediaLoop pf (map Got (media_datagrams is)) (r\<lparr>rr_senderRTCP := y\<rparr>) = Some (r'\<lparr>rr_senderRTCP := y\<rparr>, media_outputs os) \<and>
     rtcpLoop (map Got (rtcp_datagrams is)) (r\<lparr>rr_core := d, rr_senderRTP := z\<rparr>) =
       Some (r'\<lparr>rr_core := d, rr_senderRTP := z\<rparr>, rtcp_outputs os)"
proof (induction "is" arbitrary: r)
  case Nil
  then show ?case by (simp add: rist_loops_def mediaLoop_def rtcpLoop_def)
next
  case (Cons i "is")
  show ?case
  proof (cases i)
    case (MediaIn src data t)
    obtain r1 taps where r1: "rist_media pf src data t r = Some (r1, taps)" by (rule rist_media_Some)
    obtain c s where "r1 = r\<lparr>rr_core := c, rr_senderRTP := s\<rparr>" using rist_media_changes [OF r1] by blast
    then have "r\<lparr>rr_core := d, rr_senderRTP := z\<rparr> = r1\<lparr>rr_core := d, rr_senderRTP := z\<rparr>" by simp
    then show ?thesis
      using Cons.IH [of r1] r1 by (auto simp: MediaIn rist_loops_def mediaLoop_def rtcpLoop_def rist_media_rtcp_part)
  next
    case (RtcpIn src data)
    obtain x where x: "fst (rtcp_turn (src, data) r) = r\<lparr>rr_senderRTCP := x\<rparr>" using rtcp_turn_changes by blast
    then have "r\<lparr>rr_senderRTCP := y\<rparr> = fst (rtcp_turn (src, data) r)\<lparr>rr_senderRTCP := y\<rparr>" by simp
    then show ?thesis
      using Cons.IH [of "fst (rtcp_turn (src, data) r)"]
      by (auto simp: RtcpIn rist_loops_def mediaLoop_def rtcpLoop_def rtcp_turn_media_part case_prod_beta)
  qed
qed

text \<open>However the turns of the two loops interleave, the media path ends as if the media loop had run
  alone, and the RTCP socket sees what it sees when the RTCP loop runs alone.\<close>

lemma rist_loops_independent:
  "\<exists>r' os rm rc. rist_loops pf is r = Some (r', os) \<and>
     mediaLoop pf (map Got (media_datagrams is)) r = Some (rm, media_outputs os) \<and>
     rr_core rm = rr_core r' \<and> rr_senderRTP rm = rr_senderRTP r' \<and>
     rtcpLoop (map Got (rtcp_datagrams is)) r = Some (rc, rtcp_outputs os) \<and> rr_senderRTCP rc = rr_senderRTCP r'"
proof -
  have same: "r\<lparr>rr_senderRTCP := rr_senderRTCP r\<rparr> = r" "r\<lparr>rr_core := rr_core r, rr_senderRTP := rr_senderRTP r\<rparr> = r" by simp_all
  obtain r' os where l: "rist_loops pf is r = Some (r', os)"
    "mediaLoop pf (map Got (media_datagrams is)) r = Some (r'\<lparr>rr_senderRTCP := rr_senderRTCP r\<rparr>, media_outputs os)"
    "rtcpLoop (map Got (rtcp_datagrams is)) r = Some (r'\<lparr>rr_core := rr_core r, rr_senderRTP := rr_senderRTP r\<rparr>, rtcp_outputs os)"
    using rist_loops_split [of pf "is" r, where y = "rr_senderRTCP r" and d = "rr_core r" and z = "rr_senderRTP r"] unfolding same by blast
  show ?thesis
    by (rule exI [of _ r'], rule exI [of _ os], rule exI [of _ "r'\<lparr>rr_senderRTCP := rr_senderRTCP r\<rparr>"],
        rule exI [of _ "r'\<lparr>rr_core := rr_core r, rr_senderRTP := rr_senderRTP r\<rparr>"]) (simp add: l)
qed

end
