(* ===== verification/BufferPool.thy ===== *)
theory BufferPool
  imports RelayCore
begin

text \<open>
  The buffers of \<^verbatim>\<open>relaycore/relaycore.go\<close>: \<^verbatim>\<open>getBuf\<close> and \<^verbatim>\<open>putBuf\<close> over a \<^verbatim>\<open>sync.Pool\<close>,
  the copy at the start of \<^verbatim>\<open>enqueue\<close>, and the slice \<^verbatim>\<open>sendItem\<close> writes. Buffers live in an
  explicit store, so that aliasing is visible: a queued item carries the address of its
  buffer and a length. The pooled core is the core of theory \<open>RelayCore\<close> over such items, its
  enqueuers and its egress goroutine one step at a time. The lemmas show that every buffer
  has one owner, and that the pooled core writes what the core over bytes writes when that is given
  what the callers passed: the calls that got a place in the queue are kept as a history.
\<close>

section \<open>The heap does not look at what its items carry\<close>

lemma swap_map: "i < length h \<Longrightarrow> j < length h \<Longrightarrow> swap (map f h) i j = map f (swap h i j)"
  by (simp add: swap_def map_update)

lemma heap_up_map:
  assumes "\<And>a b. lt' (f a) (f b) = lt a b"
  shows "j < length h \<Longrightarrow> heap_up lt' (map f h) j = map f (heap_up lt h j)"
proof (induction j arbitrary: h rule: less_induct)
  case (less j)
  let ?i = "parent j"
  have i: "?i < length h" using less.prems by (simp add: parent_def)
  show ?case
  proof (cases "j = 0 \<or> \<not> lt (h ! j) (h ! ?i)")
    case True
    then show ?thesis using less.prems i by (auto simp: heap_up_stop assms)
  next
    case False
    then show ?thesis using less.IH [of ?i "swap h ?i j"] less.prems i parent_less [of j]
      by (simp add: heap_up_step assms swap_map)
  qed
qed

lemma heap_down_map:
  assumes "\<And>a b. lt' (f a) (f b) = lt a b"
  shows "n \<le> length h \<Longrightarrow> i < length h \<Longrightarrow> heap_down lt' (map f h) i n = map f (heap_down lt h i n)"
proof (induction "n - i" arbitrary: h i rule: less_induct)
  case less
  let ?j = "smaller_child lt h i n"
  have c: "smaller_child lt' (map f h) i n = ?j"
    using less.prems by (auto simp: smaller_child_def Let_def assms)
  show ?case
  proof (cases "n \<le> 2 * i + 1 \<or> \<not> lt (h ! ?j) (h ! i)")
    case True
    then show ?thesis using less.prems smaller_child_bounds [of i n lt h]
      by (cases "n \<le> 2 * i + 1") (simp_all add: heap_down_stop c assms)
  next
    case False
    then have b: "i < ?j" "?j < n" using smaller_child_bounds [of i n lt h] by auto
    then show ?thesis using False less.hyps [of ?j "swap h i ?j"] less.prems
      by (simp add: heap_down_step c assms swap_map)
  qed
qed

lemma heap_push_map:
  assumes "\<And>a b. lt' (f a) (f b) = lt a b"
  shows "heap_push lt' (map f h) (f x) = map f (heap_push lt h x)"
  using heap_up_map [of lt' f lt, OF assms, of "length h" "h @ [x]"] by (simp add: heap_push_def)

lemma heap_pop_map:
  assumes "\<And>a b. lt' (f a) (f b) = lt a b" "h \<noteq> []"
  shows "heap_pop lt' (map f h) = map_prod f (map f) (heap_pop lt h)"
proof -
  let ?n = "length h - 1"
  have s: "swap (map f h) 0 ?n = map f (swap h 0 ?n)" using assms(2) by (simp add: swap_map)
  have d: "heap_down lt' (map f (swap h 0 ?n)) 0 ?n = map f (heap_down lt (swap h 0 ?n) 0 ?n)"
    using assms(2) by (intro heap_down_map [of lt' f lt, OF assms(1)]) simp_all
  have "heap_down lt (swap h 0 ?n) 0 ?n \<noteq> []"
    using heap_down_length_mset [of ?n "swap h 0 ?n" lt 0] assms(2) by auto
  then show ?thesis unfolding heap_pop_def Let_def length_map s d by (simp add: last_map map_butlast)
qed

section \<open>Buffers\<close>

definition maxDatagram :: nat where
  "maxDatagram = 2048"

text \<open>A \<^verbatim>\<open>*[]byte\<close> is an address; the cell holds the array, whose length is the capacity, and the
  length of the slice.\<close>

record buffer =
  bf_array :: bytes
  bf_len :: nat

record pool =
  pl_mem :: "nat \<Rightarrow> buffer"
  pl_next :: nat
  pl_free :: "nat multiset"

type_synonym buf_ref = "nat \<times> nat"

definition new_pool :: pool where
  "new_pool = \<lparr>pl_mem = \<lambda>_. \<lparr>bf_array = [], bf_len = 0\<rparr>, pl_next = 0, pl_free = {#}\<rparr>"

definition make_buf :: "nat \<Rightarrow> pool \<Rightarrow> nat \<times> pool" where
  "make_buf n p = (pl_next p, p\<lparr>pl_mem := (pl_mem p)(pl_next p := \<lparr>bf_array = replicate n 0, bf_len = n\<rparr>),
     pl_next := Suc (pl_next p)\<rparr>)"

text \<open>\<^verbatim>\<open>Pool.Get\<close> takes any of the pooled buffers, or makes one although there are some: the
  choice is an argument.\<close>

definition pool_Get :: "nat option \<Rightarrow> pool \<Rightarrow> nat \<times> pool" where
  "pool_Get choice p = (case choice of
     Some a \<Rightarrow> if a \<in># pl_free p then (a, p\<lparr>pl_free := pl_free p - {#a#}\<rparr>) else make_buf maxDatagram p
   | None \<Rightarrow> make_buf maxDatagram p)"

definition getBuf :: "nat option \<Rightarrow> nat \<Rightarrow> pool \<Rightarrow> nat \<times> pool" where
  "getBuf choice n p = (if n > maxDatagram then make_buf n p else pool_Get choice p)"

definition buf_cap :: "pool \<Rightarrow> nat \<Rightarrow> nat" where
  "buf_cap p a = length (bf_array (pl_mem p a))"

definition putBuf :: "nat \<Rightarrow> pool \<Rightarrow> pool" where
  "putBuf a p = (if buf_cap p a \<ge> maxDatagram
     then p\<lparr>pl_mem := (pl_mem p)(a := (pl_mem p a)\<lparr>bf_len := maxDatagram\<rparr>), pl_free := add_mset a (pl_free p)\<rparr>
     else p)"

text \<open>\<^verbatim>\<open>copy((*bp)[:len(data)], data)\<close> and \<^verbatim>\<open>(*it.buf)[:it.n]\<close>; slicing beyond the capacity panics.\<close>

definition copy_in :: "nat \<Rightarrow> bytes \<Rightarrow> pool \<Rightarrow> pool option" where
  "copy_in a data p = (if length data \<le> buf_cap p a
     then Some (p\<lparr>pl_mem := (pl_mem p)(a := (pl_mem p a)\<lparr>bf_array := data @ drop (length data) (bf_array (pl_mem p a))\<rparr>)\<rparr>)
     else None)"

definition slice_out :: "pool \<Rightarrow> buf_ref \<Rightarrow> bytes option" where
  "slice_out p r = (case r of (a, n) \<Rightarrow> if n \<le> buf_cap p a then Some (take n (bf_array (pl_mem p a))) else None)"

section \<open>The pooled core\<close>

text \<open>The arguments of a call of \<^verbatim>\<open>enqueue\<close>, and where the goroutine making it stands: not in a
  call, with a buffer, with the payload copied into it, or refused at the full queue.\<close>

record 'd call =
  cl_data :: bytes
  cl_dst :: 'd
  cl_at :: int64
  cl_seq :: uint64
  cl_dir :: direction
  cl_recvAt :: int64

datatype 'd enqueuer = Idle | Got nat "'d call" | Filled nat "'d call" | Refused nat

record 'd pooled =
  ps_sys :: "('d, buf_ref) sys"
  ps_pool :: pool
  ps_enq :: "'d enqueuer list"
  ps_done :: "nat option"
  ps_out :: "('d \<times> bytes) list"
  ps_calls :: "'d call list"

text \<open>There is one enqueuer per read loop. \<open>ps_done\<close> is the buffer of the item just written, until the egress goroutine returns it;
  \<open>ps_out\<close> is what has been written to the socket, and \<open>ps_calls\<close> the calls of \<^verbatim>\<open>enqueue\<close> that got a place in
  the queue, as their callers made them. A refusal counts the tail drop with the look at
  the full queue; the code counts it behind \<^verbatim>\<open>putBuf\<close>, one step later.\<close>

definition pooled_start :: "nat \<Rightarrow> cell engine \<Rightarrow> int64 \<Rightarrow> int64 \<Rightarrow> 'd pooled" where
  "pooled_start readers eng maxQueued ledgerCap = \<lparr>ps_sys = sys_start eng maxQueued ledgerCap, ps_pool = new_pool,
     ps_enq = replicate readers Idle, ps_done = None, ps_out = [], ps_calls = []\<rparr>"

definition lock_call :: "nat \<Rightarrow> 'd call \<Rightarrow> ('d, buf_ref) core \<Rightarrow> ('d, buf_ref) core \<times> bool" where
  "lock_call a k = enqueue_locked (a, length (cl_data k)) (cl_dst k) (cl_at k) (cl_seq k) (cl_dir k) (cl_recvAt k)"

definition call_item :: "nat \<Rightarrow> 'd call \<Rightarrow> ('d, buf_ref) core \<Rightarrow> ('d, buf_ref) egItem" where
  "call_item a k = new_item (a, length (cl_data k)) (cl_dst k) (cl_at k) (cl_seq k) (cl_dir k) (cl_recvAt k)"

text \<open>The steps of the core that touch neither the queue nor an item in flight.\<close>

definition quiet_step :: "('d, 'b) sys \<Rightarrow> ('d, 'b) sys \<Rightarrow> bool" where
  "quiet_step s s' \<longleftrightarrow> core_step s s' \<and> co_eg (sy_core s') = co_eg (sy_core s) \<and>
     phase_items (sy_phase s') = phase_items (sy_phase s) \<and> co_tailDrop (sy_core s') = co_tailDrop (sy_core s)"

inductive pooled_step :: "'d pooled \<Rightarrow> 'd pooled \<Rightarrow> bool" where
  Get: "i < length (ps_enq c) \<Longrightarrow> ps_enq c ! i = Idle \<Longrightarrow> getBuf choice (length (cl_data k)) (ps_pool c) = (a, p) \<Longrightarrow>
    pooled_step c (c\<lparr>ps_pool := p, ps_enq := (ps_enq c)[i := Got a k]\<rparr>)"
| Fill: "i < length (ps_enq c) \<Longrightarrow> ps_enq c ! i = Got a k \<Longrightarrow> copy_in a (cl_data k) (ps_pool c) = Some p \<Longrightarrow>
    pooled_step c (c\<lparr>ps_pool := p, ps_enq := (ps_enq c)[i := Filled a k]\<rparr>)"
| Refuse: "i < length (ps_enq c) \<Longrightarrow> ps_enq c ! i = Filled a k \<Longrightarrow>
    co_maxQueued (sy_core (ps_sys c)) \<le> int (length (co_eg (sy_core (ps_sys c)))) \<Longrightarrow>
    lock_call a k (sy_core (ps_sys c)) = (co, b) \<Longrightarrow>
    pooled_step c (c\<lparr>ps_sys := (ps_sys c)\<lparr>sy_core := co\<rparr>, ps_enq := (ps_enq c)[i := Refused a]\<rparr>)"
| Return: "i < length (ps_enq c) \<Longrightarrow> ps_enq c ! i = Refused a \<Longrightarrow>
    pooled_step c (c\<lparr>ps_pool := putBuf a (ps_pool c), ps_enq := (ps_enq c)[i := Idle]\<rparr>)"
| Admit: "i < length (ps_enq c) \<Longrightarrow> ps_enq c ! i = Filled a k \<Longrightarrow> in64 (cl_at k) \<Longrightarrow>
    int (length (co_eg (sy_core (ps_sys c)))) < co_maxQueued (sy_core (ps_sys c)) \<Longrightarrow>
    lock_call a k (sy_core (ps_sys c)) = (co, isHead) \<Longrightarrow>
    pooled_step c (c\<lparr>ps_sys := (ps_sys c)\<lparr>sy_core := co, sy_signals := sy_signals (ps_sys c) + (if isHead then 1 else 0),
        sy_admitted := add_mset (call_item a k (sy_core (ps_sys c))) (sy_admitted (ps_sys c))\<rparr>,
      ps_enq := (ps_enq c)[i := Idle], ps_calls := ps_calls c @ [k]\<rparr>)"
| Pop: "sy_phase (ps_sys c) = Checking \<Longrightarrow> ps_done c = None \<Longrightarrow>
    egress_due (sy_now (ps_sys c)) (sy_core (ps_sys c)) \<Longrightarrow> egress_pop (sy_core (ps_sys c)) = (it, co) \<Longrightarrow>
    pooled_step c (c\<lparr>ps_sys := (ps_sys c)\<lparr>sy_core := co, sy_phase := Sending it\<rparr>\<rparr>)"
| Send: "sy_phase (ps_sys c) = Sending it \<Longrightarrow>
    sendItem (sy_now (ps_sys c)) it (sy_core (ps_sys c)) = Some (co, Some (dst, r)) \<Longrightarrow>
    slice_out (ps_pool c) r = Some data \<Longrightarrow>
    pooled_step c (c\<lparr>ps_sys := (ps_sys c)\<lparr>sy_core := co, sy_phase := Checking,
        sy_sent := sy_sent (ps_sys c) @ [(it, sy_now (ps_sys c))]\<rparr>,
      ps_done := Some (fst r), ps_out := ps_out c @ [(dst, data)]\<rparr>)"
| Put: "ps_done c = Some a \<Longrightarrow> pooled_step c (c\<lparr>ps_pool := putBuf a (ps_pool c), ps_done := None\<rparr>)"
| Discard: "sy_phase (ps_sys c) = Sending it \<Longrightarrow>
    sendItem (sy_now (ps_sys c)) it (sy_core (ps_sys c)) = Some (co, None) \<Longrightarrow>
    pooled_step c (c\<lparr>ps_sys := (ps_sys c)\<lparr>sy_core := co, sy_phase := Checking,
      sy_discarded := add_mset it (sy_discarded (ps_sys c))\<rparr>\<rparr>)"
| Quiet: "quiet_step (ps_sys c) s \<Longrightarrow> ps_done c = None \<or> sy_phase s = sy_phase (ps_sys c) \<Longrightarrow>
    pooled_step c (c\<lparr>ps_sys := s\<rparr>)"
| Collect: "F \<subseteq># pl_free (ps_pool c) \<Longrightarrow> pooled_step c (c\<lparr>ps_pool := (ps_pool c)\<lparr>pl_free := F\<rparr>\<rparr>)"


section \<open>The core is parametric in what its items carry\<close>

definition map_item :: "('b \<Rightarrow> 'c) \<Rightarrow> ('d, 'b) egItem \<Rightarrow> ('d, 'c) egItem" where
  "map_item f it = \<lparr>eg_at = eg_at it, eg_ord = eg_ord it, eg_data = f (eg_data it), eg_dst = eg_dst it, eg_led = eg_led it\<rparr>"

definition map_core :: "('b \<Rightarrow> 'c) \<Rightarrow> ('d, 'b) core \<Rightarrow> ('d, 'c) core" where
  "map_core f c = \<lparr>co_eng = co_eng c, co_fwd = co_fwd c, co_drop = co_drop c, co_tailDrop = co_tailDrop c,
     co_eg = map (map_item f) (co_eg c), co_egOrd = co_egOrd c, co_wake = co_wake c,
     co_maxQueued = co_maxQueued c, co_ledger = co_ledger c, co_closed = co_closed c\<rparr>"

definition map_phase :: "('b \<Rightarrow> 'c) \<Rightarrow> ('d, 'b) phase \<Rightarrow> ('d, 'c) phase" where
  "map_phase f p = (case p of Checking \<Rightarrow> Checking | Sending it \<Rightarrow> Sending (map_item f it)
     | Arming w t \<Rightarrow> Arming w t | Sleeping d l \<Rightarrow> Sleeping d l | Stopped \<Rightarrow> Stopped)"

lemma map_item_simps [simp]:
  "eg_at (map_item f it) = eg_at it" "eg_ord (map_item f it) = eg_ord it" "eg_data (map_item f it) = f (eg_data it)"
  "eg_dst (map_item f it) = eg_dst it" "eg_led (map_item f it) = eg_led it"
  by (simp_all add: map_item_def)

lemma map_core_simps [simp]:
  "co_eng (map_core f c) = co_eng c" "co_fwd (map_core f c) = co_fwd c" "co_drop (map_core f c) = co_drop c"
  "co_tailDrop (map_core f c) = co_tailDrop c" "co_eg (map_core f c) = map (map_item f) (co_eg c)"
  "co_egOrd (map_core f c) = co_egOrd c" "co_wake (map_core f c) = co_wake c"
  "co_maxQueued (map_core f c) = co_maxQueued c" "co_ledger (map_core f c) = co_ledger c"
  "co_closed (map_core f c) = co_closed c"
  by (simp_all add: map_core_def)

lemma map_core_upd [simp]:
  "map_core f (c\<lparr>co_tailDrop := n\<rparr>) = (map_core f c)\<lparr>co_tailDrop := n\<rparr>"
  "map_core f (c\<lparr>co_drop := n\<rparr>) = (map_core f c)\<lparr>co_drop := n\<rparr>"
  "map_core f (c\<lparr>co_wake := b\<rparr>) = (map_core f c)\<lparr>co_wake := b\<rparr>"
  "map_core f (c\<lparr>co_closed := b\<rparr>) = (map_core f c)\<lparr>co_closed := b\<rparr>"
  "map_core f (c\<lparr>co_eng := e\<rparr>) = (map_core f c)\<lparr>co_eng := e\<rparr>"
  "map_core f (c\<lparr>co_ledger := l\<rparr>) = (map_core f c)\<lparr>co_ledger := l\<rparr>"
  "map_core f (c\<lparr>co_eg := h\<rparr>) = (map_core f c)\<lparr>co_eg := map (map_item f) h\<rparr>"
  "map_core f (c\<lparr>co_egOrd := n\<rparr>) = (map_core f c)\<lparr>co_egOrd := n\<rparr>"
  "map_core f (c\<lparr>co_fwd := n\<rparr>) = (map_core f c)\<lparr>co_fwd := n\<rparr>"
  by (simp_all add: map_core_def)

lemma egLess_map: "egLess (map_item f a) (map_item f b) = egLess a b"
  by (simp add: egLess_def)

lemma heap_push_ne: "heap_push lt h x \<noteq> []"
  using heap_up_length_mset [of "length h" "h @ [x]" lt] by (auto simp: heap_push_def)

lemma new_item_map: "new_item (f x) dst t sq dir r (map_core f c) = map_item f (new_item x dst t sq dir r c)"
  by (simp add: new_item_def map_item_def enqueue_ledger_def)

lemma enqueue_locked_map:
  "enqueue_locked (f x) dst t sq dir r (map_core f c) = map_prod (map_core f) id (enqueue_locked x dst t sq dir r c)"
proof (cases "co_maxQueued c \<le> int (length (co_eg c))")
  case False
  have push: "heap_push egLess (map (map_item f) (co_eg c)) (map_item f it) = map (map_item f) (heap_push egLess (co_eg c) it)" for it
    using heap_push_map [of egLess "map_item f" egLess, OF egLess_map, of "co_eg c" it] by simp
  show ?thesis using False
    by (simp add: enqueue_locked_def Let_def new_item_map push heap_push_ne nth_map enqueue_ledger_def)
qed (simp add: enqueue_full)

lemma egress_pop_map:
  assumes "co_eg c \<noteq> []"
  shows "egress_pop (map_core f c) = map_prod (map_item f) (map_core f) (egress_pop c)"
  using heap_pop_map [of egLess "map_item f" egLess, OF egLess_map assms]
  by (simp add: egress_pop_def split: prod.split)

lemma egress_due_map [simp]: "egress_due now (map_core f c) = egress_due now c"
  by (cases "co_eg c") (simp_all add: egress_due_def)

lemma egress_wait_map [simp]: "egress_wait now (map_core f c) = egress_wait now c"
  by (cases "co_eg c") (simp_all add: egress_wait_def)

lemma sendItem_map:
  "sendItem now (map_item f it) (map_core f c) =
     map_option (map_prod (map_core f) (map_option (map_prod id f))) (sendItem now it c)"
  by (simp add: sendItem_def split: option.split)


text \<open>A system over other data, the histories apart; and what a step writes in both.\<close>

definition same_view :: "('b \<Rightarrow> 'c) \<Rightarrow> ('d, 'b) sys \<Rightarrow> ('d, 'c) sys \<Rightarrow> bool" where
  "same_view f p s \<longleftrightarrow> sy_core s = map_core f (sy_core p) \<and> sy_phase s = map_phase f (sy_phase p) \<and>
     sy_now s = sy_now p \<and> sy_signals s = sy_signals p"

definition hist_alike :: "('b \<Rightarrow> 'c) \<Rightarrow> ('d, 'b) sys \<Rightarrow> ('d, 'b) sys \<Rightarrow> ('d, 'c) sys \<Rightarrow> ('d, 'c) sys \<Rightarrow> bool" where
  "hist_alike f p p' s s' \<longleftrightarrow>
     (\<exists>new. sy_sent p' = sy_sent p @ new \<and> sy_sent s' = sy_sent s @ map (map_prod (map_item f) id) new) \<and>
     (\<exists>adm. sy_admitted p' = sy_admitted p + adm \<and> sy_admitted s' = sy_admitted s + image_mset (map_item f) adm)"

lemma hist_alike_none:
  "sy_sent p' = sy_sent p \<Longrightarrow> sy_sent s' = sy_sent s \<Longrightarrow> sy_admitted p' = sy_admitted p \<Longrightarrow> sy_admitted s' = sy_admitted s \<Longrightarrow>
    hist_alike f p p' s s'"
  by (simp add: hist_alike_def)

lemma map_phase_simps [simp]:
  "map_phase f p = Checking \<longleftrightarrow> p = Checking" "map_phase f Checking = Checking"
  "map_phase f (Sending it) = Sending (map_item f it)" "map_phase f (Arming w t) = Arming w t"
  "map_phase f (Sleeping d l) = Sleeping d l" "map_phase f Stopped = Stopped"
  by (simp_all add: map_phase_def split: phase.split)

lemma core_step_view:
  assumes "core_step p p'" "same_view f p s"
  shows "\<exists>s'. core_step s s' \<and> same_view f p' s' \<and> hist_alike f p p' s s'"
  using assms
proof (induction rule: core_step.induct)
  case (Refuse p data dst t sq dir r c b)
  have "enqueue_locked (f data) dst t sq dir r (sy_core s) = (map_core f c, b)"
    using Refuse by (simp add: same_view_def enqueue_locked_map)
  from core_step.Refuse [OF _ this] show ?case
    using Refuse by (intro exI [of _ "s\<lparr>sy_core := map_core f c\<rparr>"]) (simp add: same_view_def hist_alike_none)
next
  case (Admit t p data dst sq dir r c isHead)
  have "enqueue_locked (f data) dst t sq dir r (sy_core s) = (map_core f c, isHead)"
    using Admit by (simp add: same_view_def enqueue_locked_map)
  moreover have "new_item (f data) dst t sq dir r (sy_core s) = map_item f (new_item data dst t sq dir r (sy_core p))"
    using Admit.prems by (simp add: same_view_def new_item_map)
  ultimately have "core_step s (s\<lparr>sy_core := map_core f c, sy_signals := sy_signals s + (if isHead then 1 else 0),
      sy_admitted := add_mset (map_item f (new_item data dst t sq dir r (sy_core p))) (sy_admitted s)\<rparr>)"
    using core_step.Admit [OF Admit.hyps(1), of s "f data" dst sq dir r "map_core f c" isHead] Admit.hyps(2) Admit.prems
    by (simp add: same_view_def)
  then show ?case using Admit.prems
    by (intro exI [of _ "s\<lparr>sy_core := map_core f c, sy_signals := sy_signals s + (if isHead then 1 else 0),
      sy_admitted := add_mset (map_item f (new_item data dst t sq dir r (sy_core p))) (sy_admitted s)\<rparr>"])
      (simp add: same_view_def hist_alike_def)
next
  case (Signal p n)
  then show ?case using core_step.Signal [of s n]
    by (intro exI [of _ "s\<lparr>sy_core := (sy_core s)\<lparr>co_wake := True\<rparr>, sy_signals := n\<rparr>"])
      (simp add: same_view_def hist_alike_none)
next
  case (Dropped p)
  then show ?case using core_step.Dropped [of s]
    by (intro exI [of _ "s\<lparr>sy_core := (sy_core s)\<lparr>co_drop := co_drop (sy_core s) + 1\<rparr>\<rparr>"])
      (simp add: same_view_def hist_alike_none)
next
  case (Pop p it c)
  have ne: "co_eg (sy_core p) \<noteq> []" using Pop.hyps by (simp add: egress_due_def)
  have "egress_pop (sy_core s) = (map_item f it, map_core f c)"
    using Pop ne by (simp add: same_view_def egress_pop_map)
  then have "core_step s (s\<lparr>sy_core := map_core f c, sy_phase := Sending (map_item f it)\<rparr>)"
    using Pop by (intro core_step.Pop) (simp_all add: same_view_def)
  then show ?case using Pop
    by (intro exI [of _ "s\<lparr>sy_core := map_core f c, sy_phase := Sending (map_item f it)\<rparr>"])
      (simp add: same_view_def hist_alike_none)
next
  case (Send p it c out)
  have "sendItem (sy_now s) (map_item f it) (sy_core s) = Some (map_core f c, Some (map_prod id f out))"
    using Send by (simp add: same_view_def sendItem_map)
  then have "core_step s (s\<lparr>sy_core := map_core f c, sy_phase := Checking, sy_sent := sy_sent s @ [(map_item f it, sy_now s)]\<rparr>)"
    using Send by (intro core_step.Send) (simp_all add: same_view_def)
  then show ?case using Send
    by (intro exI [of _ "s\<lparr>sy_core := map_core f c, sy_phase := Checking, sy_sent := sy_sent s @ [(map_item f it, sy_now s)]\<rparr>"])
      (simp add: same_view_def hist_alike_def)
next
  case (Discard p it c)
  have "sendItem (sy_now s) (map_item f it) (sy_core s) = Some (map_core f c, None)"
    using Discard by (simp add: same_view_def sendItem_map)
  then have "core_step s (s\<lparr>sy_core := map_core f c, sy_phase := Checking, sy_discarded := add_mset (map_item f it) (sy_discarded s)\<rparr>)"
    using Discard by (intro core_step.Discard) (simp_all add: same_view_def)
  then show ?case using Discard
    by (intro exI [of _ "s\<lparr>sy_core := map_core f c, sy_phase := Checking, sy_discarded := add_mset (map_item f it) (sy_discarded s)\<rparr>"])
      (simp add: same_view_def hist_alike_none)
next
  case (Arm p)
  then have "core_step s (s\<lparr>sy_phase := Arming (egress_wait (sy_now s) (sy_core s)) (sy_now s)\<rparr>)"
    by (intro core_step.Arm) (simp_all add: same_view_def)
  then show ?case using Arm
    by (intro exI [of _ "s\<lparr>sy_phase := Arming (egress_wait (sy_now s) (sy_core s)) (sy_now s)\<rparr>"])
      (simp add: same_view_def hist_alike_none)
next
  case (Sleep p w t)
  then show ?case using core_step.Sleep [of s w t]
    by (intro exI [of _ "s\<lparr>sy_phase := Sleeping (sy_now s + w) (sy_now s - t)\<rparr>"])
      (simp add: same_view_def hist_alike_none)
next
  case (Woken p d lag)
  then show ?case using core_step.Woken [of s d lag]
    by (intro exI [of _ "s\<lparr>sy_core := (sy_core s)\<lparr>co_wake := False\<rparr>, sy_phase := Checking\<rparr>"])
      (simp add: same_view_def hist_alike_none)
next
  case (Timer p d lag)
  then show ?case using core_step.Timer [of s d lag]
    by (intro exI [of _ "s\<lparr>sy_phase := Checking\<rparr>"]) (simp add: same_view_def hist_alike_none)
next
  case (Stop p d lag)
  then show ?case using core_step.Stop [of s d lag]
    by (intro exI [of _ "s\<lparr>sy_phase := Stopped\<rparr>"]) (simp add: same_view_def hist_alike_none)
next
  case (CloseCore p)
  then show ?case using core_step.CloseCore [of s]
    by (intro exI [of _ "s\<lparr>sy_core := (sy_core s)\<lparr>co_closed := True\<rparr>\<rparr>"]) (simp add: same_view_def hist_alike_none)
next
  case (SetEngine p eng)
  then show ?case using core_step.SetEngine [of s eng]
    by (intro exI [of _ "s\<lparr>sy_core := core_SetEngine eng (sy_core s)\<rparr>"])
      (simp add: same_view_def hist_alike_none core_SetEngine_def)
next
  case (EnableLedger p capacity)
  then show ?case using core_step.EnableLedger [of s capacity]
    by (intro exI [of _ "s\<lparr>sy_core := core_EnableLedger capacity (sy_core s)\<rparr>"])
      (simp add: same_view_def hist_alike_none core_EnableLedger_def)
next
  case (Tick p t)
  then show ?case using core_step.Tick [of s t]
    by (intro exI [of _ "s\<lparr>sy_now := t\<rparr>"]) (simp add: same_view_def hist_alike_none)
qed

section \<open>Every buffer has one owner\<close>

definition enq_bufs :: "'d enqueuer \<Rightarrow> nat multiset" where
  "enq_bufs e = (case e of Idle \<Rightarrow> {#} | Got a k \<Rightarrow> {#a#} | Filled a k \<Rightarrow> {#a#} | Refused a \<Rightarrow> {#a#})"

definition enq_ok :: "pool \<Rightarrow> 'd enqueuer \<Rightarrow> bool" where
  "enq_ok p e = (case e of Got a k \<Rightarrow> length (cl_data k) \<le> buf_cap p a
     | Filled a k \<Rightarrow> slice_out p (a, length (cl_data k)) = Some (cl_data k) | _ \<Rightarrow> True)"

definition owners :: "pool \<Rightarrow> 'd enqueuer list \<Rightarrow> buf_ref multiset \<Rightarrow> nat option \<Rightarrow> nat multiset" where
  "owners p es M dn = pl_free p + sum_list (map enq_bufs es) + image_mset fst M + mset (case dn of None \<Rightarrow> [] | Some a \<Rightarrow> [a])"

text \<open>The free buffers, those of the enqueuers, those of the items queued or being written, and the
  one being returned are different buffers; free ones are large enough for any datagram, the
  others for what they hold.\<close>

definition owned :: "pool \<Rightarrow> 'd enqueuer list \<Rightarrow> buf_ref multiset \<Rightarrow> nat option \<Rightarrow> bool" where
  "owned p es M dn \<longleftrightarrow> owners p es M dn \<subseteq># mset_set {..<pl_next p} \<and>
     (\<forall>a \<in># pl_free p. maxDatagram \<le> buf_cap p a) \<and> list_all (enq_ok p) es \<and>
     (\<forall>r \<in># M. snd r \<le> buf_cap p (fst r))"

definition item_refs :: "('d, buf_ref) sys \<Rightarrow> buf_ref multiset" where
  "item_refs s = image_mset eg_data (mset (co_eg (sy_core s)) + phase_items (sy_phase s))"

lemma once_notin:
  assumes "add_mset a Y \<subseteq># mset_set A"
  shows "a \<notin># Y"
proof -
  have "count (mset_set A) a \<le> 1" by (cases "finite A"; cases "a \<in> A") simp_all
  then have "Suc (count Y a) \<le> 1" using mset_subset_eq_count [OF assms, of a] by simp
  then show ?thesis by (simp add: not_in_iff)
qed

lemma enq_sum_update:
  assumes "i < length es"
  shows "sum_list (map enq_bufs (es[i := e])) + enq_bufs (es ! i) = sum_list (map enq_bufs es) + enq_bufs e"
  using assms by (induction es arbitrary: i) (auto simp: nth_Cons' split: nat.split)


lemma list_all_update: "list_all P xs \<Longrightarrow> P e \<Longrightarrow> list_all P (xs[i := e])"
  using set_update_subset_insert [of xs i e] by (auto simp: list_all_iff)

lemma owners_update:
  assumes "i < length es"
  shows "owners p (es[i := e]) M dn + enq_bufs (es ! i) = owners p es M dn + enq_bufs e"
  using enq_sum_update [OF assms, of e] by (simp add: owners_def ac_simps)

text \<open>What a buffer reference reads; and operations that leave it alone.\<close>

definition read_ref :: "pool \<Rightarrow> buf_ref \<Rightarrow> bytes" where
  "read_ref p r = take (snd r) (bf_array (pl_mem p (fst r)))"

lemma slice_out_read: "slice_out p r = (if snd r \<le> buf_cap p (fst r) then Some (read_ref p r) else None)"
  by (simp add: slice_out_def read_ref_def split: prod.split)

text \<open>Two pools that hold the same array at an address.\<close>

definition alike :: "pool \<Rightarrow> pool \<Rightarrow> nat \<Rightarrow> bool" where
  "alike p p' a \<longleftrightarrow> bf_array (pl_mem p' a) = bf_array (pl_mem p a)"

lemma alike_simps:
  "alike p p' (fst r) \<Longrightarrow> read_ref p' r = read_ref p r" "alike p p' a \<Longrightarrow> buf_cap p' a = buf_cap p a"
  "alike p p' (fst r) \<Longrightarrow> slice_out p' r = slice_out p r"
  by (auto simp: alike_def read_ref_def buf_cap_def slice_out_def split: prod.split)

lemma alike_enq_ok: "(\<And>a. a \<in># enq_bufs e \<Longrightarrow> alike p p' a) \<Longrightarrow> enq_ok p' e = enq_ok p e"
  by (auto simp: enq_ok_def enq_bufs_def alike_simps split: enqueuer.split)

text \<open>The invariant moves from one pool to another when every buffer that stays with an owner is
  alike in both.\<close>

lemma owned_alike:
  assumes o: "owned p es M dn" and l: "length es' = length es"
    and s: "owners p' es' M' dn' \<subseteq># mset_set {..<pl_next p'}"
    and free: "\<And>a. a \<in># pl_free p' \<Longrightarrow> maxDatagram \<le> buf_cap p' a"
    and e: "\<And>j. j < length es \<Longrightarrow> (es' ! j = es ! j \<and> (\<forall>a \<in># enq_bufs (es ! j). alike p p' a)) \<or> enq_ok p' (es' ! j)"
    and M: "M' \<subseteq># M" "\<And>r. r \<in># M' \<Longrightarrow> alike p p' (fst r)"
  shows "owned p' es' M' dn'"
proof -
  have "enq_ok p' (es' ! j)" if j: "j < length es" for j
  proof -
    have "enq_ok p (es ! j)" using o j by (simp add: owned_def list_all_length)
    then show ?thesis using e [OF j] alike_enq_ok [of "es ! j" p p'] by auto
  qed
  then have "list_all (enq_ok p') es'" using l by (simp add: list_all_length)
  moreover have "snd r \<le> buf_cap p' (fst r)" if r: "r \<in># M'" for r
  proof -
    have "snd r \<le> buf_cap p (fst r)" using o mset_subset_eqD [OF M(1) r] by (simp add: owned_def)
    then show ?thesis using alike_simps(2) [OF M(2) [OF r]] by simp
  qed
  ultimately show ?thesis using s free by (simp add: owned_def)
qed

lemma owned_less: "owned p es M dn \<Longrightarrow> a \<in># owners p es M dn \<Longrightarrow> a < pl_next p"
  unfolding owned_def by (metis finite_lessThan finite_set_mset_mset_set lessThan_iff mset_subset_eqD)

lemma in_owners:
  "a \<in># pl_free p \<Longrightarrow> a \<in># owners p es M dn" "r \<in># M \<Longrightarrow> fst r \<in># owners p es M dn"
  "j < length es \<Longrightarrow> a \<in># enq_bufs (es ! j) \<Longrightarrow> a \<in># owners p es M dn"
  by (auto simp: owners_def set_mset_sum_list)

lemma putBuf_simps [simp]: "alike p (putBuf a p) b" "pl_next (putBuf a p) = pl_next p" "buf_cap (putBuf a p) b = buf_cap p b"
  by (simp_all add: putBuf_def alike_def buf_cap_def)

lemma putBuf_free: "pl_free (putBuf a p) = pl_free p + (if maxDatagram \<le> buf_cap p a then {#a#} else {#})"
  by (simp add: putBuf_def)

lemma putBuf_owned:
  assumes "owned p es M dn" "length es' = length es" "M' \<subseteq># M"
    and "owners p es' M' dn' + {#a#} \<subseteq># owners p es M dn"
    and "\<And>j. j < length es \<Longrightarrow> es' ! j = es ! j \<or> es' ! j = Idle"
  shows "owned (putBuf a p) es' M' dn'"
proof (rule owned_alike [OF assms(1,2)])
  have "owners (putBuf a p) es' M' dn' \<subseteq># owners p es' M' dn' + {#a#}"
    by (simp add: owners_def putBuf_free)
  then show "owners (putBuf a p) es' M' dn' \<subseteq># mset_set {..<pl_next (putBuf a p)}"
    using assms(1,4) by (simp add: owned_def) (meson subset_mset.order_trans)
  show "maxDatagram \<le> buf_cap (putBuf a p) b" if "b \<in># pl_free (putBuf a p)" for b
    using that assms(1) by (auto simp: owned_def putBuf_free split: if_splits)
  show "(es' ! j = es ! j \<and> (\<forall>b \<in># enq_bufs (es ! j). alike p (putBuf a p) b)) \<or> enq_ok (putBuf a p) (es' ! j)"
    if "j < length es" for j
    using assms(5) [OF that] by (auto simp: enq_ok_def)
qed (use assms(3) in simp_all)

text \<open>A fresh buffer, or one of the free ones, for an idle enqueuer.\<close>

lemma getBuf_owned:
  assumes o: "owned p es M dn" and i: "i < length es" "es ! i = Idle"
    and g: "getBuf choice (length (cl_data k)) p = (a, p')"
  shows "owned p' (es[i := Got a k]) M dn \<and> (\<forall>r \<in># M. alike p p' (fst r))"
proof -
  have own: "owners q (es[i := Got a k]) M dn = add_mset a (owners q es M dn)" for q
    using owners_update [OF i(1), of q "Got a k" M dn] i(2) by (simp add: enq_bufs_def)
  have cases: "(\<exists>n. maxDatagram \<le> n \<and> length (cl_data k) \<le> n \<and> make_buf n p = (a, p')) \<or>
      (a \<in># pl_free p \<and> length (cl_data k) \<le> maxDatagram \<and> p' = p\<lparr>pl_free := pl_free p - {#a#}\<rparr>)"
  proof (cases "length (cl_data k) > maxDatagram")
    case True
    then show ?thesis using g by (intro disjI1 exI [of _ "length (cl_data k)"]) (simp add: getBuf_def)
  next
    case False
    then have "make_buf maxDatagram p = (a, p') \<or> (a \<in># pl_free p \<and> p' = p\<lparr>pl_free := pl_free p - {#a#}\<rparr>)"
      using g by (auto simp: getBuf_def pool_Get_def split: if_splits option.splits)
    then show ?thesis using False by auto
  qed
  then show ?thesis
  proof
    assume "\<exists>n. maxDatagram \<le> n \<and> length (cl_data k) \<le> n \<and> make_buf n p = (a, p')"
    then obtain n where n: "length (cl_data k) \<le> n" and m: "make_buf n p = (a, p')" by blast
    have p': "a = pl_next p" "pl_next p' = Suc (pl_next p)" "pl_free p' = pl_free p"
      "\<And>b. b \<noteq> a \<Longrightarrow> alike p p' b" "buf_cap p' a = n"
      using m by (auto simp: make_buf_def alike_def buf_cap_def)
    have al: "alike p p' b" if "b \<in># owners p es M dn" for b
      using owned_less [OF o that] p'(1,4) by simp
    have "owned p' (es[i := Got a k]) M dn"
    proof (rule owned_alike [OF o])
      have "owners p' es M dn = owners p es M dn" by (simp add: owners_def p'(3))
      then show "owners p' (es[i := Got a k]) M dn \<subseteq># mset_set {..<pl_next p'}"
        unfolding own using o p'(1,2) by (simp add: lessThan_Suc owned_def)
      show "maxDatagram \<le> buf_cap p' b" if "b \<in># pl_free p'" for b
      proof -
        have b: "b \<in># pl_free p" using that p'(3) by simp
        then show ?thesis using o alike_simps(2) [OF al [OF in_owners(1) [OF b]]] by (simp add: owned_def)
      qed
      show "(es[i := Got a k] ! j = es ! j \<and> (\<forall>b \<in># enq_bufs (es ! j). alike p p' b)) \<or> enq_ok p' (es[i := Got a k] ! j)"
        if "j < length es" for j
        using that i(1) al [OF in_owners(3) [OF that]] n p'(5) by (cases "j = i") (auto simp: enq_ok_def)
      show "alike p p' (fst r)" if "r \<in># M" for r using al [OF in_owners(2) [OF that]] .
    qed simp_all
    then show ?thesis using al in_owners(2) by blast
  next
    assume f: "a \<in># pl_free p \<and> length (cl_data k) \<le> maxDatagram \<and> p' = p\<lparr>pl_free := pl_free p - {#a#}\<rparr>"
    then have al: "alike p p' b" and cap: "buf_cap p' b = buf_cap p b" for b by (simp_all add: alike_def buf_cap_def)
    have "owned p' (es[i := Got a k]) M dn"
    proof (rule owned_alike [OF o])
      have "add_mset a (owners p' es M dn) = owners p es M dn" using f by (simp add: owners_def)
      then have "owners p' (es[i := Got a k]) M dn = owners p es M dn" unfolding own .
      then show "owners p' (es[i := Got a k]) M dn \<subseteq># mset_set {..<pl_next p'}" using o f by (simp add: owned_def)
      show "maxDatagram \<le> buf_cap p' b" if "b \<in># pl_free p'" for b
        using that o f cap by (auto simp: owned_def dest: in_diffD)
      show "(es[i := Got a k] ! j = es ! j \<and> (\<forall>b \<in># enq_bufs (es ! j). alike p p' b)) \<or> enq_ok p' (es[i := Got a k] ! j)"
        if "j < length es" for j
        using that i(1) al f o cap by (cases "j = i") (auto simp: enq_ok_def owned_def intro: order_trans)
    qed (use al in auto)
    then show ?thesis using al by blast
  qed
qed

text \<open>Filling a buffer changes that buffer only, which nobody else has.\<close>

lemma copy_in_owned:
  assumes o: "owned p es M dn" and i: "i < length es" "es ! i = Got a k" and c: "copy_in a (cl_data k) p = Some p'"
  shows "owned p' (es[i := Filled a k]) M dn \<and> (\<forall>r \<in># M. alike p p' (fst r))"
proof -
  have own: "owners q (es[i := Filled a k]) M dn = owners q es M dn" for q
    using owners_update [OF i(1), of q "Filled a k" M dn] i(2) by (simp add: enq_bufs_def)
  have p': "pl_free p' = pl_free p" "pl_next p' = pl_next p" "\<And>b. buf_cap p' b = buf_cap p b" "\<And>b. b \<noteq> a \<Longrightarrow> alike p p' b"
    "slice_out p' (a, length (cl_data k)) = Some (cl_data k)"
    using c by (auto simp: copy_in_def alike_def buf_cap_def slice_out_def split: if_splits)
  have split: "owners p es M dn = add_mset a (owners p (es[i := Idle]) M dn)"
    using owners_update [OF i(1), of p Idle M dn] i(2) by (simp add: enq_bufs_def)
  have "add_mset a (owners p (es[i := Idle]) M dn) \<subseteq># mset_set {..<pl_next p}" using o split by (simp add: owned_def)
  then have only: "a \<notin># owners p (es[i := Idle]) M dn" by (rule once_notin)
  have al: "alike p p' (fst r)" if "r \<in># M" for r
    using only in_owners(2) [OF that, of p "es[i := Idle]" dn] p'(4) by metis
  have "owned p' (es[i := Filled a k]) M dn"
  proof (rule owned_alike [OF o])
    have "owners p' es M dn = owners p es M dn" by (simp add: owners_def p'(1))
    then show "owners p' (es[i := Filled a k]) M dn \<subseteq># mset_set {..<pl_next p'}"
      using o by (simp add: own p'(2) owned_def)
    show "maxDatagram \<le> buf_cap p' b" if "b \<in># pl_free p'" for b
      using that o p'(1,3) by (simp add: owned_def)
    show "(es[i := Filled a k] ! j = es ! j \<and> (\<forall>b \<in># enq_bufs (es ! j). alike p p' b)) \<or> enq_ok p' (es[i := Filled a k] ! j)"
      if j: "j < length es" for j
    proof (cases "j = i")
      case False
      have "b \<noteq> a" if "b \<in># enq_bufs (es ! j)" for b
        using only in_owners(3) [of j "es[i := Idle]" b p M dn] that j False by auto
      then show ?thesis using False p'(4) by simp
    qed (use i p'(5) in \<open>simp add: enq_ok_def\<close>)
  qed (use al in auto)
  then show ?thesis using al by blast
qed


section \<open>The pooled core refines the core over bytes\<close>

definition pooled_ok :: "'d pooled \<Rightarrow> bool" where
  "pooled_ok c \<longleftrightarrow> core_conserves (ps_sys c) \<and>
     owned (ps_pool c) (ps_enq c) (item_refs (ps_sys c)) (ps_done c) \<and>
     (ps_done c \<noteq> None \<longrightarrow> phase_items (sy_phase (ps_sys c)) = {#})"

definition call_view :: "'d call \<Rightarrow> int64 \<times> 'd \<times> bytes" where
  "call_view k = (cl_at k, cl_dst k, cl_data k)"

definition refines :: "'d pooled \<Rightarrow> ('d, bytes) sys \<Rightarrow> bool" where
  "refines c s \<longleftrightarrow> same_view (read_ref (ps_pool c)) (ps_sys c) s \<and>
     ps_out c = map (\<lambda>(it, t). (eg_dst it, eg_data it)) (sy_sent s) \<and>
     image_mset eg_view (sy_admitted s) = mset (map call_view (ps_calls c))"

lemma same_view_alike:
  assumes "same_view (read_ref p) c s" "\<And>r. r \<in># item_refs c \<Longrightarrow> alike p p' (fst r)"
  shows "same_view (read_ref p') c s"
proof -
  have rd: "read_ref p' (eg_data it) = read_ref p (eg_data it)"
    if "it \<in> set (co_eg (sy_core c)) \<or> sy_phase c = Sending it" for it
    using that assms(2) [of "eg_data it"] by (intro alike_simps) (auto simp: item_refs_def phase_items_def)
  then have "map (map_item (read_ref p')) (co_eg (sy_core c)) = map (map_item (read_ref p)) (co_eg (sy_core c))"
    by (simp add: map_item_def)
  then have "map_core (read_ref p') (sy_core c) = map_core (read_ref p) (sy_core c)" by (simp add: map_core_def)
  moreover have "map_phase (read_ref p') (sy_phase c) = map_phase (read_ref p) (sy_phase c)"
    using rd by (simp add: map_phase_def map_item_def split: phase.split)
  ultimately show ?thesis using assms(1) by (simp add: same_view_def)
qed

lemma refines_pool:
  assumes "refines c s" "\<And>r. r \<in># item_refs (ps_sys c) \<Longrightarrow> alike (ps_pool c) p (fst r)"
    "ps_sys c' = ps_sys c" "ps_pool c' = p" "ps_out c' = ps_out c"
    "ps_calls c' = ps_calls c"
  shows "refines c' s"
  using assms same_view_alike [of "ps_pool c" "ps_sys c" s p] by (simp add: refines_def)

lemma refines_step:
  assumes "refines c s" "core_step (ps_sys c) p" "ps_sys c' = p" "ps_pool c' = ps_pool c"
    and "\<And>new. sy_sent p = sy_sent (ps_sys c) @ new \<Longrightarrow>
      ps_out c' = ps_out c @ map (\<lambda>(it, t). (eg_dst it, read_ref (ps_pool c) (eg_data it))) new"
    and "\<And>adm. sy_admitted p = sy_admitted (ps_sys c) + adm \<Longrightarrow>
      mset (map call_view (ps_calls c')) = mset (map call_view (ps_calls c)) +
        {#(eg_at it, eg_dst it, read_ref (ps_pool c) (eg_data it)). it \<in># adm#}"
  shows "\<exists>s'. core_step\<^sup>*\<^sup>* s s' \<and> refines c' s'"
proof -
  let ?f = "read_ref (ps_pool c)"
  obtain s' where s': "core_step s s'" "same_view ?f p s'" "hist_alike ?f (ps_sys c) p s s'"
    using core_step_view [OF assms(2)] assms(1) unfolding refines_def by blast
  then obtain new adm where n: "sy_sent p = sy_sent (ps_sys c) @ new" "sy_sent s' = sy_sent s @ map (map_prod (map_item ?f) id) new"
    and a: "sy_admitted p = sy_admitted (ps_sys c) + adm" "sy_admitted s' = sy_admitted s + image_mset (map_item ?f) adm"
    by (auto simp: hist_alike_def)
  have "ps_out c' = map (\<lambda>(it, t). (eg_dst it, eg_data it)) (sy_sent s')"
    using assms(1) assms(5) [OF n(1)] n(2) by (simp add: refines_def split_beta comp_def)
  moreover have "image_mset eg_view (sy_admitted s') = mset (map call_view (ps_calls c'))"
    using assms(1) assms(6) [OF a(1)] a(2) by (simp add: refines_def eg_view_def multiset.map_comp comp_def)
  ultimately have "refines c' s'" using s'(2) assms(3,4) by (simp add: refines_def)
  then show ?thesis using s'(1) by blast
qed

lemma item_refs_lock:
  assumes "core_conserves s" "int (length (co_eg (sy_core s))) < co_maxQueued (sy_core s)"
    and "lock_call a k (sy_core s) = (co, h)"
  shows "image_mset eg_data (mset (co_eg co)) = add_mset (a, length (cl_data k)) (image_mset eg_data (mset (co_eg (sy_core s))))"
proof -
  have "eg_heap (co_eg (sy_core s))" using assms(1) by (simp add: core_conserves_def)
  from assms(2) this obtain c' where
    "enqueue_locked (a, length (cl_data k)) (cl_dst k) (cl_at k) (cl_seq k) (cl_dir k) (cl_recvAt k) (sy_core s) = (c', eg_ord (co_eg c' ! 0) = co_egOrd (sy_core s) + 1)"
    "mset (co_eg c') = add_mset (new_item (a, length (cl_data k)) (cl_dst k) (cl_at k) (cl_seq k) (cl_dir k) (cl_recvAt k) (sy_core s)) (mset (co_eg (sy_core s)))"
    by (rule enqueue_admit [where data = "(a, length (cl_data k))" and dst = "cl_dst k" and t = "cl_at k"
          and sq = "cl_seq k" and dir = "cl_dir k" and r = "cl_recvAt k"])
  then show ?thesis using assms(3) by (auto simp: lock_call_def)
qed

lemma no_bufs: "sum_list (replicate n {#}) = {#}"
  by (induction n) simp_all

lemma pooled_start_ok: "pooled_ok (pooled_start n eng m l) \<and> refines (pooled_start n eng m l) (sys_start eng m l)"
proof
  have "core_conserves (sys_start eng m l)" by (rule core_conserves_start)
  then show "pooled_ok (pooled_start n eng m l)"
    by (simp add: pooled_ok_def pooled_start_def owned_def owners_def item_refs_def new_pool_def
        enq_bufs_def enq_ok_def no_bufs list_all_iff) (simp add: sys_start_def phase_items_def)
  show "refines (pooled_start n eng m l) (sys_start eng m l)"
    by (simp add: refines_def pooled_start_def same_view_def sys_start_def map_core_def core_New_def)
qed

lemma quiet_sent: "quiet_step s s' \<Longrightarrow> sy_sent s' = sy_sent s"
  unfolding quiet_step_def by (auto elim!: core_stepE simp: phase_items_def)

lemma heap_push_longer: "length (heap_push lt h x) = Suc (length h)"
  using heap_up_length_mset [of "length h" "h @ [x]" lt] by (simp add: heap_push_def)

lemma admitted_longer:
  assumes "int (length (co_eg c)) < co_maxQueued c" "enqueue_locked data dst t sq dir r c = (c', b)"
  shows "co_eg c' \<noteq> co_eg c"
proof -
  have "length (co_eg c') = Suc (length (co_eg c))"
    using assms by (auto simp: enqueue_locked_def Let_def heap_push_longer)
  then show ?thesis by auto
qed

lemma quiet_admitted: "quiet_step s s' \<Longrightarrow> sy_admitted s' = sy_admitted s"
  unfolding quiet_step_def by (auto elim!: core_stepE dest: admitted_longer)

lemma owned_refs: "owned p es M dn \<Longrightarrow> r \<in># M \<Longrightarrow> slice_out p r = Some (read_ref p r)"
  by (simp add: owned_def slice_out_read)

lemma sends_item: "sendItem now it c = Some (co, Some (dst, r)) \<Longrightarrow> dst = eg_dst it \<and> r = eg_data it \<and> co_eg co = co_eg c"
  using sendItem_cases [of now it c co "Some (dst, r)"] by auto

text \<open>One step of the pooled core is none or one of the core over bytes.\<close>

definition simulated :: "'d pooled \<Rightarrow> ('d, bytes) sys \<Rightarrow> bool" where
  "simulated c s \<longleftrightarrow> pooled_ok c \<and> (\<exists>s'. core_step\<^sup>*\<^sup>* s s' \<and> refines c s')"

lemma simulated_Get:
  assumes prems: "pooled_ok c" "refines c s"
    and hyps: "i < length (ps_enq c)" "ps_enq c ! i = Idle" "getBuf choice (length (cl_data k)) (ps_pool c) = (a, p)"
  shows "simulated (c\<lparr>ps_pool := p, ps_enq := (ps_enq c)[i := Got a k]\<rparr>) s"
proof -
  have o: "owned p ((ps_enq c)[i := Got a k]) (item_refs (ps_sys c)) (ps_done c)"
    "\<forall>r \<in># item_refs (ps_sys c). alike (ps_pool c) p (fst r)"
    using getBuf_owned [OF _ hyps] prems(1) by (auto simp: pooled_ok_def)
  have "refines (c\<lparr>ps_pool := p, ps_enq := (ps_enq c)[i := Got a k]\<rparr>) s"
    by (rule refines_pool [OF prems(2)]) (use o(2) in simp_all)
  then show ?thesis using o(1) prems(1) by (auto simp: pooled_ok_def simulated_def)
qed

lemma simulated_Fill:
  assumes prems: "pooled_ok c" "refines c s"
    and hyps: "i < length (ps_enq c)" "ps_enq c ! i = Got a k" "copy_in a (cl_data k) (ps_pool c) = Some p"
  shows "simulated (c\<lparr>ps_pool := p, ps_enq := (ps_enq c)[i := Filled a k]\<rparr>) s"
proof -
  have o: "owned p ((ps_enq c)[i := Filled a k]) (item_refs (ps_sys c)) (ps_done c)"
    "\<forall>r \<in># item_refs (ps_sys c). alike (ps_pool c) p (fst r)"
    using copy_in_owned [OF _ hyps] prems(1) by (auto simp: pooled_ok_def)
  have "refines (c\<lparr>ps_pool := p, ps_enq := (ps_enq c)[i := Filled a k]\<rparr>) s"
    by (rule refines_pool [OF prems(2)]) (use o(2) in simp_all)
  then show ?thesis using o(1) prems(1) by (auto simp: pooled_ok_def simulated_def)
qed

lemma simulated_Return:
  assumes prems: "pooled_ok c" "refines c s"
    and hyps: "i < length (ps_enq c)" "ps_enq c ! i = Refused a"
  shows "simulated (c\<lparr>ps_pool := putBuf a (ps_pool c), ps_enq := (ps_enq c)[i := Idle]\<rparr>) s"
proof -
  have "owners (ps_pool c) ((ps_enq c)[i := Idle]) (item_refs (ps_sys c)) (ps_done c) + {#a#} \<subseteq>#
      owners (ps_pool c) (ps_enq c) (item_refs (ps_sys c)) (ps_done c)"
    using owners_update [OF hyps(1), of "ps_pool c" Idle] hyps(2) by (simp add: enq_bufs_def)
  moreover have "owned (ps_pool c) (ps_enq c) (item_refs (ps_sys c)) (ps_done c)" using prems(1) by (simp add: pooled_ok_def)
  ultimately have "owned (putBuf a (ps_pool c)) ((ps_enq c)[i := Idle]) (item_refs (ps_sys c)) (ps_done c)"
    using hyps(1) by (intro putBuf_owned) (auto simp: nth_list_update)
  moreover have "refines (c\<lparr>ps_pool := putBuf a (ps_pool c), ps_enq := (ps_enq c)[i := Idle]\<rparr>) s"
    by (rule refines_pool [OF prems(2)]) simp_all
  ultimately show ?thesis using prems(1) by (auto simp: pooled_ok_def simulated_def)
qed

lemma simulated_Put:
  assumes prems: "pooled_ok c" "refines c s"
    and hyps: "ps_done c = Some a"
  shows "simulated (c\<lparr>ps_pool := putBuf a (ps_pool c), ps_done := None\<rparr>) s"
proof -
  have "owners (ps_pool c) (ps_enq c) (item_refs (ps_sys c)) None + {#a#} =
      owners (ps_pool c) (ps_enq c) (item_refs (ps_sys c)) (ps_done c)"
    using hyps by (simp add: owners_def)
  then have "owned (putBuf a (ps_pool c)) (ps_enq c) (item_refs (ps_sys c)) None"
    using prems(1) by (intro putBuf_owned [of "ps_pool c" "ps_enq c" "item_refs (ps_sys c)" "ps_done c"])
      (auto simp: pooled_ok_def)
  moreover have "refines (c\<lparr>ps_pool := putBuf a (ps_pool c), ps_done := None\<rparr>) s"
    by (rule refines_pool [OF prems(2)]) simp_all
  ultimately show ?thesis using prems(1) by (auto simp: pooled_ok_def simulated_def)
qed

lemma simulated_Collect:
  assumes prems: "pooled_ok c" "refines c s"
    and hyps: "F \<subseteq># pl_free (ps_pool c)"
  shows "simulated (c\<lparr>ps_pool := (ps_pool c)\<lparr>pl_free := F\<rparr>\<rparr>) s"
proof -
  let ?p = "(ps_pool c)\<lparr>pl_free := F\<rparr>"
  have "owners ?p (ps_enq c) (item_refs (ps_sys c)) (ps_done c) \<subseteq># owners (ps_pool c) (ps_enq c) (item_refs (ps_sys c)) (ps_done c)"
    using hyps by (simp add: owners_def)
  moreover have o: "owned (ps_pool c) (ps_enq c) (item_refs (ps_sys c)) (ps_done c)" using prems(1) by (simp add: pooled_ok_def)
  ultimately have s: "owners ?p (ps_enq c) (item_refs (ps_sys c)) (ps_done c) \<subseteq># mset_set {..<pl_next ?p}"
    by (simp add: owned_def) (meson subset_mset.order_trans)
  have cap: "buf_cap ?p a = buf_cap (ps_pool c) a" for a by (simp add: buf_cap_def)
  have "owned ?p (ps_enq c) (item_refs (ps_sys c)) (ps_done c)"
    by (rule owned_alike [OF o refl s])
      (use o hyps cap in \<open>auto simp: alike_def owned_def dest: mset_subset_eqD\<close>)
  moreover have "refines (c\<lparr>ps_pool := ?p\<rparr>) s"
    by (rule refines_pool [OF prems(2)]) (simp_all add: alike_def)
  ultimately show ?thesis using prems(1) by (auto simp: pooled_ok_def simulated_def)
qed

lemma simulated_Refuse:
  assumes prems: "pooled_ok c" "refines c s"
    and hyps: "i < length (ps_enq c)" "ps_enq c ! i = Filled a k" "co_maxQueued (sy_core (ps_sys c)) \<le> int (length (co_eg (sy_core (ps_sys c))))" "lock_call a k (sy_core (ps_sys c)) = (co, b)"
  shows "simulated (c\<lparr>ps_sys := (ps_sys c)\<lparr>sy_core := co\<rparr>, ps_enq := (ps_enq c)[i := Refused a]\<rparr>) s"
proof -
  let ?s = "(ps_sys c)\<lparr>sy_core := co\<rparr>" and ?c = "c\<lparr>ps_sys := (ps_sys c)\<lparr>sy_core := co\<rparr>, ps_enq := (ps_enq c)[i := Refused a]\<rparr>"
  have st: "core_step (ps_sys c) ?s"
    using core_step.Refuse [OF hyps(3) hyps(4) [unfolded lock_call_def]] .
  have co: "co = (sy_core (ps_sys c))\<lparr>co_tailDrop := co_tailDrop (sy_core (ps_sys c)) + 1\<rparr>"
    using hyps(3,4) by (simp add: lock_call_def enqueue_full)
  have refs: "item_refs ?s = item_refs (ps_sys c)" by (simp add: item_refs_def co)
  have "owned (ps_pool c) ((ps_enq c)[i := Refused a]) (item_refs (ps_sys c)) (ps_done c)"
  proof (rule owned_alike)
    show "owned (ps_pool c) (ps_enq c) (item_refs (ps_sys c)) (ps_done c)" using prems(1) by (simp add: pooled_ok_def)
    then show "owners (ps_pool c) ((ps_enq c)[i := Refused a]) (item_refs (ps_sys c)) (ps_done c) \<subseteq># mset_set {..<pl_next (ps_pool c)}"
      using owners_update [OF hyps(1), of "ps_pool c" "Refused a"] hyps(2) by (simp add: enq_bufs_def owned_def)
    show "maxDatagram \<le> buf_cap (ps_pool c) b" if "b \<in># pl_free (ps_pool c)" for b
      using that prems(1) by (simp add: pooled_ok_def owned_def)
  qed (use hyps(1) in \<open>auto simp: nth_list_update alike_def enq_ok_def\<close>)
  moreover have "core_conserves ?s" using core_conserves_step [OF st] prems(1) by (simp add: pooled_ok_def)
  moreover have "\<exists>s'. core_step\<^sup>*\<^sup>* s s' \<and> refines ?c s'"
    by (rule refines_step [OF prems(2) st]) simp_all
  ultimately show ?thesis using prems(1) by (simp add: pooled_ok_def simulated_def refs)
qed

lemma simulated_Quiet:
  assumes prems: "pooled_ok c" "refines c s"
    and hyps: "quiet_step (ps_sys c) q" "ps_done c = None \<or> sy_phase q = sy_phase (ps_sys c)"
  shows "simulated (c\<lparr>ps_sys := q\<rparr>) s"
proof -
  have st: "core_step (ps_sys c) q" "item_refs q = item_refs (ps_sys c)" "phase_items (sy_phase q) = phase_items (sy_phase (ps_sys c))"
    using hyps(1) by (simp_all add: quiet_step_def item_refs_def)
  have sent: "sy_sent q = sy_sent (ps_sys c)" using hyps(1) by (rule quiet_sent)
  have "\<exists>s'. core_step\<^sup>*\<^sup>* s s' \<and> refines (c\<lparr>ps_sys := q\<rparr>) s'"
    by (rule refines_step [OF prems(2) st(1)]) (simp_all add: sent quiet_admitted [OF hyps(1)])
  then show ?thesis using core_conserves_step [OF st(1)] prems(1) st(2,3) by (simp add: pooled_ok_def simulated_def)
qed

lemma simulated_Admit:
  assumes prems: "pooled_ok c" "refines c s"
    and hyps: "i < length (ps_enq c)" "ps_enq c ! i = Filled a k" "in64 (cl_at k)" "int (length (co_eg (sy_core (ps_sys c)))) < co_maxQueued (sy_core (ps_sys c))" "lock_call a k (sy_core (ps_sys c)) = (co, isHead)"
  shows "simulated (c\<lparr>ps_sys := (ps_sys c)\<lparr>sy_core := co, sy_signals := sy_signals (ps_sys c) + (if isHead then 1 else 0), sy_admitted := add_mset (call_item a k (sy_core (ps_sys c))) (sy_admitted (ps_sys c))\<rparr>, ps_enq := (ps_enq c)[i := Idle], ps_calls := ps_calls c @ [k]\<rparr>) s"
proof -
  let ?s = "(ps_sys c)\<lparr>sy_core := co, sy_signals := sy_signals (ps_sys c) + (if isHead then 1 else 0),
    sy_admitted := add_mset (call_item a k (sy_core (ps_sys c))) (sy_admitted (ps_sys c))\<rparr>"
  let ?c = "c\<lparr>ps_sys := ?s, ps_enq := (ps_enq c)[i := Idle], ps_calls := ps_calls c @ [k]\<rparr>"
  have st: "core_step (ps_sys c) ?s"
    using core_step.Admit [OF hyps(3,4) hyps(5) [unfolded lock_call_def]] by (simp add: call_item_def)
  have cons: "core_conserves (ps_sys c)" and o: "owned (ps_pool c) (ps_enq c) (item_refs (ps_sys c)) (ps_done c)"
    using prems(1) by (simp_all add: pooled_ok_def)
  have refs: "item_refs ?s = add_mset (a, length (cl_data k)) (item_refs (ps_sys c))"
    using item_refs_lock [OF cons hyps(4,5)] by (simp add: item_refs_def)
  have "owners (ps_pool c) ((ps_enq c)[i := Idle]) (item_refs ?s) (ps_done c) = owners (ps_pool c) (ps_enq c) (item_refs (ps_sys c)) (ps_done c)"
    using owners_update [OF hyps(1), of "ps_pool c" Idle "item_refs (ps_sys c)" "ps_done c"] hyps(2)
    unfolding refs by (simp add: enq_bufs_def owners_def)
  moreover have "enq_ok (ps_pool c) (Filled a k)"
    using o hyps(1,2) unfolding owned_def list_all_length by metis
  then have ref: "read_ref (ps_pool c) (a, length (cl_data k)) = cl_data k" and "length (cl_data k) \<le> buf_cap (ps_pool c) a"
    by (simp_all add: enq_ok_def slice_out_read split: if_splits)
  moreover have "list_all (enq_ok (ps_pool c)) ((ps_enq c)[i := Idle])"
    using o by (intro list_all_update) (simp_all add: owned_def enq_ok_def)
  ultimately have "owned (ps_pool c) ((ps_enq c)[i := Idle]) (item_refs ?s) (ps_done c)"
    using o by (simp add: owned_def refs)
  moreover have "core_conserves ?s" using core_conserves_step [OF st cons] .
  moreover have "\<exists>s'. core_step\<^sup>*\<^sup>* s s' \<and> refines ?c s'"
    by (rule refines_step [OF prems(2) st]) (simp_all add: call_item_def call_view_def ref)
  ultimately show ?thesis using prems(1) by (simp add: pooled_ok_def simulated_def)
qed

lemma simulated_Pop:
  assumes prems: "pooled_ok c" "refines c s"
    and hyps: "sy_phase (ps_sys c) = Checking" "ps_done c = None" "egress_due (sy_now (ps_sys c)) (sy_core (ps_sys c))" "egress_pop (sy_core (ps_sys c)) = (it, co)"
  shows "simulated (c\<lparr>ps_sys := (ps_sys c)\<lparr>sy_core := co, sy_phase := Sending it\<rparr>\<rparr>) s"
proof -
  let ?s = "(ps_sys c)\<lparr>sy_core := co, sy_phase := Sending it\<rparr>"
  have st: "core_step (ps_sys c) ?s" using core_step.Pop [OF hyps(1,3,4)] .
  have cons: "core_conserves (ps_sys c)" using prems(1) by (simp add: pooled_ok_def)
  then have h: "eg_heap (co_eg (sy_core (ps_sys c)))" by (simp add: core_conserves_def)
  have "mset (co_eg (sy_core (ps_sys c))) = add_mset it (mset (co_eg co))"
    using egress_pop_spec [OF h hyps(3)] hyps(4) by (metis Pair_inject)
  then have refs: "item_refs ?s = item_refs (ps_sys c)" using hyps(1) by (simp add: item_refs_def phase_items_def)
  have "\<exists>s'. core_step\<^sup>*\<^sup>* s s' \<and> refines (c\<lparr>ps_sys := ?s\<rparr>) s'"
    by (rule refines_step [OF prems(2) st]) simp_all
  then show ?thesis using core_conserves_step [OF st cons] prems(1) hyps(2) refs by (simp add: pooled_ok_def simulated_def)
qed

lemma simulated_Send:
  assumes prems: "pooled_ok c" "refines c s"
    and hyps: "sy_phase (ps_sys c) = Sending it" "sendItem (sy_now (ps_sys c)) it (sy_core (ps_sys c)) = Some (co, Some (dst, r))" "slice_out (ps_pool c) r = Some data"
  shows "simulated (c\<lparr>ps_sys := (ps_sys c)\<lparr>sy_core := co, sy_phase := Checking, sy_sent := sy_sent (ps_sys c) @ [(it, sy_now (ps_sys c))]\<rparr>, ps_done := Some (fst r), ps_out := ps_out c @ [(dst, data)]\<rparr>) s"
proof -
  let ?s = "(ps_sys c)\<lparr>sy_core := co, sy_phase := Checking, sy_sent := sy_sent (ps_sys c) @ [(it, sy_now (ps_sys c))]\<rparr>"
  let ?c = "c\<lparr>ps_sys := ?s, ps_done := Some (fst r), ps_out := ps_out c @ [(dst, data)]\<rparr>"
  have st: "core_step (ps_sys c) ?s" using core_step.Send [OF hyps(1,2)] .
  have i: "dst = eg_dst it" "r = eg_data it" "co_eg co = co_eg (sy_core (ps_sys c))" using sends_item [OF hyps(2)] by auto
  have dn: "ps_done c = None" using prems(1) hyps(1) by (auto simp: pooled_ok_def phase_items_def)
  have refs: "item_refs (ps_sys c) = add_mset r (item_refs ?s)"
    using hyps(1) by (simp add: item_refs_def phase_items_def i)
  have o: "owned (ps_pool c) (ps_enq c) (item_refs (ps_sys c)) (ps_done c)" using prems(1) by (simp add: pooled_ok_def)
  have "owners (ps_pool c) (ps_enq c) (item_refs ?s) (Some (fst r)) = owners (ps_pool c) (ps_enq c) (item_refs (ps_sys c)) (ps_done c)"
    unfolding refs dn by (simp add: owners_def)
  then have "owned (ps_pool c) (ps_enq c) (item_refs ?s) (Some (fst r))" using o refs by (simp add: owned_def)
  moreover have "data = read_ref (ps_pool c) r" using hyps(3) by (simp add: slice_out_read split: if_splits)
  then have "\<exists>s'. core_step\<^sup>*\<^sup>* s s' \<and> refines ?c s'"
    by (intro refines_step [OF prems(2) st]) (auto simp: i)
  ultimately show ?thesis using core_conserves_step [OF st] prems(1)
    by (simp add: pooled_ok_def simulated_def phase_items_def)
qed

lemma simulated_Discard:
  assumes prems: "pooled_ok c" "refines c s"
    and hyps: "sy_phase (ps_sys c) = Sending it" "sendItem (sy_now (ps_sys c)) it (sy_core (ps_sys c)) = Some (co, None)"
  shows "simulated (c\<lparr>ps_sys := (ps_sys c)\<lparr>sy_core := co, sy_phase := Checking, sy_discarded := add_mset it (sy_discarded (ps_sys c))\<rparr>\<rparr>) s"
proof -
  let ?s = "(ps_sys c)\<lparr>sy_core := co, sy_phase := Checking, sy_discarded := add_mset it (sy_discarded (ps_sys c))\<rparr>"
  have st: "core_step (ps_sys c) ?s" using core_step.Discard [OF hyps] .
  have co: "co_eg co = co_eg (sy_core (ps_sys c))" using sendItem_cases [OF hyps(2)] by auto
  have refs: "item_refs (ps_sys c) = add_mset (eg_data it) (item_refs ?s)"
    using hyps(1) by (simp add: item_refs_def phase_items_def co)
  have o: "owned (ps_pool c) (ps_enq c) (item_refs (ps_sys c)) (ps_done c)" using prems(1) by (simp add: pooled_ok_def)
  have "owners (ps_pool c) (ps_enq c) (item_refs ?s) (ps_done c) \<subseteq># owners (ps_pool c) (ps_enq c) (item_refs (ps_sys c)) (ps_done c)"
    unfolding refs by (simp add: owners_def)
  then have "owned (ps_pool c) (ps_enq c) (item_refs ?s) (ps_done c)"
    using o refs by (simp add: owned_def) (meson subset_mset.order_trans)
  moreover have "\<exists>s'. core_step\<^sup>*\<^sup>* s s' \<and> refines (c\<lparr>ps_sys := ?s\<rparr>) s'"
    by (rule refines_step [OF prems(2) st]) simp_all
  ultimately show ?thesis using core_conserves_step [OF st] prems(1)
    by (simp add: pooled_ok_def simulated_def phase_items_def)
qed

lemmas pooled_cases = simulated_Get simulated_Fill simulated_Return simulated_Put simulated_Collect simulated_Refuse simulated_Quiet simulated_Admit simulated_Pop simulated_Send simulated_Discard

lemma pooled_simulates: "pooled_step c c' \<Longrightarrow> pooled_ok c \<Longrightarrow> refines c s \<Longrightarrow> simulated c' s"
  by (induction rule: pooled_step.induct) (rule pooled_cases; assumption)+

lemma pooled_reachable:
  assumes "pooled_step\<^sup>*\<^sup>* (pooled_start n eng m l) c"
  shows "pooled_ok c \<and> (\<exists>s. core_step\<^sup>*\<^sup>* (sys_start eng m l) s \<and> refines c s)"
  using assms
proof (induction rule: rtranclp_induct)
  case base
  then show ?case using pooled_start_ok by blast
next
  case (step c c')
  then obtain s where "pooled_ok c" "core_step\<^sup>*\<^sup>* (sys_start eng m l) s" "refines c s" by blast
  then show ?case using pooled_simulates [OF step.hyps(2)] unfolding simulated_def by (meson rtranclp_trans)
qed

end
