(* ===== verification/RelayRunProperties.thy ===== *)
theory RelayRunProperties
  imports ReadLoops RelayProperties BufferPool Lifecycle
begin

text \<open>
  The properties of the relay's memory and life: the pooled buffers against the core over plain
  bytes, and what a close guarantees, when it returns, and how the sockets are opened.
\<close>

section \<open>Pooled buffers\<close>

text \<open>C13. Refinement: whatever the interleaving of the read loops, the egress goroutine and the
  garbage collector, and whichever buffer the pool hands out, the core with its reused buffers behaves
  as the core over plain bytes that is given the callers' own payloads: that core has admitted exactly
  the calls that got a place in the queue, each with the time, destination and bytes its caller passed;
  it has written the same datagrams in the same order and its queue reads the same. So what has been
  written to the socket and what the queued buffers hold are payloads of callers, each used once.\<close>

theorem pooled_core_refines_bytes:
  assumes "pooled_step\<^sup>*\<^sup>* (pooled_start readers eng maxQueued ledgerCap) c"
  shows "(\<exists>s. core_step\<^sup>*\<^sup>* (sys_start eng maxQueued ledgerCap) s \<and>
      {#(eg_at it, eg_dst it, eg_data it). it \<in># sy_admitted s#} = {#(cl_at k, cl_dst k, cl_data k). k \<in># mset (ps_calls c)#} \<and>
      ps_out c = map (\<lambda>(it, t). (eg_dst it, eg_data it)) (sy_sent s) \<and>
      map eg_data (co_eg (sy_core s)) = map (read_ref (ps_pool c) \<circ> eg_data) (co_eg (sy_core (ps_sys c)))) \<and>
    mset (ps_out c) + {#(eg_dst it, read_ref (ps_pool c) (eg_data it)). it \<in># mset (co_eg (sy_core (ps_sys c)))#}
      \<subseteq># {#(cl_dst k, cl_data k). k \<in># mset (ps_calls c)#}"
proof -
  obtain s where s: "core_step\<^sup>*\<^sup>* (sys_start eng maxQueued ledgerCap) s" "refines c s"
    using pooled_reachable [OF assms] by blast
  have q: "co_eg (sy_core s) = map (map_item (read_ref (ps_pool c))) (co_eg (sy_core (ps_sys c)))"
    and out: "ps_out c = map (\<lambda>(it, t). (eg_dst it, eg_data it)) (sy_sent s)"
    and adm: "image_mset eg_view (sy_admitted s) = image_mset call_view (mset (ps_calls c))"
    using s(2) by (simp_all add: refines_def same_view_def)
  let ?v = "\<lambda>it. (eg_dst it, eg_data it)"
  have "image_mset ?v (sy_admitted s) = image_mset snd (image_mset eg_view (sy_admitted s))"
    by (simp add: multiset.map_comp comp_def eg_view_def)
  also have "\<dots> = {#(cl_dst k, cl_data k). k \<in># mset (ps_calls c)#}"
    unfolding adm by (simp add: multiset.map_comp comp_def call_view_def)
  finally have calls: "image_mset ?v (sy_admitted s) = {#(cl_dst k, cl_data k). k \<in># mset (ps_calls c)#}" .
  have "sy_admitted s = mset (co_eg (sy_core s)) + phase_items (sy_phase s) + mset (map fst (sy_sent s)) + sy_discarded s"
    using core_reachable(1) [OF s(1)] by (simp add: core_conserves_def)
  then have "mset (map fst (sy_sent s)) + mset (co_eg (sy_core s)) \<subseteq># sy_admitted s" by simp
  then have "image_mset ?v (mset (map fst (sy_sent s)) + mset (co_eg (sy_core s))) \<subseteq># image_mset ?v (sy_admitted s)"
    by (rule image_mset_subseteq_mono)
  moreover have "image_mset ?v (mset (map fst (sy_sent s))) = mset (ps_out c)"
    by (simp add: out multiset.map_comp comp_def case_prod_unfold)
  moreover have "image_mset ?v (mset (co_eg (sy_core s))) =
      {#(eg_dst it, read_ref (ps_pool c) (eg_data it)). it \<in># mset (co_eg (sy_core (ps_sys c)))#}"
    by (simp add: q multiset.map_comp comp_def)
  ultimately have "mset (ps_out c) + {#(eg_dst it, read_ref (ps_pool c) (eg_data it)). it \<in># mset (co_eg (sy_core (ps_sys c)))#}
      \<subseteq># {#(cl_dst k, cl_data k). k \<in># mset (ps_calls c)#}" unfolding calls by simp
  moreover have "{#(eg_at it, eg_dst it, eg_data it). it \<in># sy_admitted s#} = {#(cl_at k, cl_dst k, cl_data k). k \<in># mset (ps_calls c)#}"
    using adm by (simp add: eg_view_def [abs_def] call_view_def [abs_def])
  ultimately show ?thesis using s(1) q out by (auto simp: comp_def)
qed

text \<open>A datagram through an idle pooled core: buffer, copy, queue, write, return.\<close>

definition idle_pooled :: "'d pooled \<Rightarrow> bool" where
  "idle_pooled c \<longleftrightarrow> ps_enq c = [Idle] \<and> ps_done c = None \<and> sy_phase (ps_sys c) = Checking \<and>
     co_eg (sy_core (ps_sys c)) = [] \<and> \<not> co_closed (sy_core (ps_sys c)) \<and> co_ledger (sy_core (ps_sys c)) = None \<and>
     0 < co_maxQueued (sy_core (ps_sys c)) \<and> sy_now (ps_sys c) = 0"

lemma pooled_pass:
  assumes c: "idle_pooled c" and g: "getBuf choice (length data) (ps_pool c) = (a, p)" and f: "copy_in a data p = Some p1"
    and cap: "length data \<le> buf_cap p a"
  shows "\<exists>c'. pooled_step\<^sup>*\<^sup>* c c' \<and> idle_pooled c' \<and> ps_out c' = ps_out c @ [(dst, data)] \<and> ps_pool c' = putBuf a p1 \<and>
    map (\<lambda>k. (cl_dst k, cl_data k)) (ps_calls c') = map (\<lambda>k. (cl_dst k, cl_data k)) (ps_calls c) @ [(dst, data)]"
proof -
  define k where "k = \<lparr>cl_data = data, cl_dst = dst, cl_at = 0, cl_seq = 1, cl_dir = C2S, cl_recvAt = 0\<rparr>"
  define it where "it = \<lparr>eg_at = 0, eg_ord = co_egOrd (sy_core (ps_sys c)) + 1, eg_data = (a, length data), eg_dst = dst, eg_led = noHandle\<rparr>"
  define co where "co = (sy_core (ps_sys c))\<lparr>co_egOrd := co_egOrd (sy_core (ps_sys c)) + 1, co_ledger := None, co_eg := [it]\<rparr>"
  note c = c [unfolded idle_pooled_def]
  let ?c1 = "c\<lparr>ps_pool := p, ps_enq := [Got a k]\<rparr>"
  let ?c2 = "?c1\<lparr>ps_pool := p1, ps_enq := [Filled a k]\<rparr>"
  let ?c3 = "?c2\<lparr>ps_sys := (ps_sys c)\<lparr>sy_core := co, sy_signals := sy_signals (ps_sys c) + 1,
      sy_admitted := add_mset it (sy_admitted (ps_sys c))\<rparr>, ps_enq := [Idle], ps_calls := ps_calls c @ [k]\<rparr>"
  let ?c4 = "?c3\<lparr>ps_sys := (ps_sys ?c3)\<lparr>sy_core := co\<lparr>co_eg := []\<rparr>, sy_phase := Sending it\<rparr>\<rparr>"
  let ?co = "(co\<lparr>co_eg := []\<rparr>)\<lparr>co_ledger := None, co_fwd := co_fwd co + 1\<rparr>"
  let ?c5 = "?c4\<lparr>ps_sys := (ps_sys ?c4)\<lparr>sy_core := ?co, sy_phase := Checking, sy_sent := sy_sent (ps_sys ?c4) @ [(it, 0)]\<rparr>,
    ps_done := Some a, ps_out := ps_out c @ [(dst, data)]\<rparr>"
  let ?c6 = "?c5\<lparr>ps_pool := putBuf a p1, ps_done := None\<rparr>"
  have it: "call_item a k (sy_core (ps_sys c)) = it"
    using c by (simp add: call_item_def new_item_def enqueue_ledger_def it_def k_def)
  have "pooled_step c ?c1" using pooled_step.Get [of 0 c choice k a p] g c by (simp add: k_def)
  moreover have "pooled_step ?c1 ?c2" using pooled_step.Fill [of 0 ?c1 a k p1] f by (simp add: k_def)
  moreover have "lock_call a k (sy_core (ps_sys ?c2)) = (co, True)"
    using c by (simp add: lock_call_def enqueue_locked_def new_item_def enqueue_ledger_def k_def co_def it_def heap_push_small Let_def)
  then have "pooled_step ?c2 ?c3" using pooled_step.Admit [of 0 ?c2 a k co True] c it by (simp add: k_def in64_def)
  moreover have "egress_pop (sy_core (ps_sys ?c3)) = (it, co\<lparr>co_eg := []\<rparr>)"
    by (simp add: egress_pop_def co_def heap_pop_small)
  then have "pooled_step ?c3 ?c4" using pooled_step.Pop [of ?c3 it "co\<lparr>co_eg := []\<rparr>"] c
    by (simp add: egress_due_def co_def it_def)
  moreover have "slice_out p1 (a, length data) = Some data"
    using f by (auto simp: copy_in_def slice_out_def buf_cap_def split: if_splits)
  moreover have "sendItem 0 it (sy_core (ps_sys ?c4)) = Some (?co, Some (dst, (a, length data)))"
    using c by (simp add: sendItem_def co_def it_def noHandle_def)
  then have "pooled_step ?c4 ?c5"
    using pooled_step.Send [of ?c4 it ?co dst "(a, length data)" data] \<open>slice_out p1 (a, length data) = Some data\<close> c by simp
  moreover have "pooled_step ?c5 ?c6" using pooled_step.Put [of ?c5 a] by simp
  ultimately have "pooled_step\<^sup>*\<^sup>* c ?c6" by (meson rtranclp.rtrancl_into_rtrancl rtranclp.rtrancl_refl)
  moreover have "idle_pooled ?c6" using c by (simp add: idle_pooled_def co_def)
  ultimately show ?thesis by (intro exI [of _ ?c6]) (simp add: k_def)
qed


text \<open>Two datagrams, the second in the buffer of the first.\<close>

lemma two_passes:
  "\<exists>c. pooled_step\<^sup>*\<^sup>* (pooled_start 1 clean_engine 10 0 :: nat pooled) c \<and> ps_out c = [(7, [1, 2]), (8, [3])] \<and>
    pl_next (ps_pool c) = 1 \<and> map (\<lambda>k. (cl_dst k, cl_data k)) (ps_calls c) = [(7, [1, 2]), (8, [3])]"
proof -
  define c0 :: "nat pooled" where "c0 = pooled_start 1 clean_engine 10 0"
  define p0 where "p0 = snd (make_buf maxDatagram new_pool)"
  have c0: "idle_pooled c0" "ps_pool c0 = new_pool" "ps_out c0 = []" "ps_calls c0 = []"
    by (simp_all add: c0_def idle_pooled_def pooled_start_def sys_start_def core_New_def)
  have g0: "getBuf None (length ([1, 2] :: bytes)) new_pool = (0, p0)"
    by (simp add: getBuf_def pool_Get_def maxDatagram_def p0_def make_buf_def new_pool_def)
  have cap0: "buf_cap p0 0 = maxDatagram" "pl_next p0 = 1" "pl_free p0 = {#}"
    by (simp_all add: p0_def make_buf_def new_pool_def buf_cap_def)
  define p1 where "p1 = the (copy_in 0 [1, 2] p0)"
  have f1: "copy_in 0 [1, 2] p0 = Some p1" "buf_cap p1 0 = maxDatagram" "pl_next p1 = 1" "pl_free p1 = {#}"
    using cap0 by (auto simp: p1_def copy_in_def maxDatagram_def buf_cap_def)
  obtain c1 where c1: "pooled_step\<^sup>*\<^sup>* c0 c1" "idle_pooled c1" "ps_out c1 = [(7, [1, 2])]" "ps_pool c1 = putBuf 0 p1"
    "map (\<lambda>k. (cl_dst k, cl_data k)) (ps_calls c1) = [(7, [1, 2])]"
    using pooled_pass [OF c0(1), of None "[1, 2]" 0 p0 p1 7] c0(2-4) g0 f1(1) cap0(1) by (auto simp: maxDatagram_def)
  define q where "q = (putBuf 0 p1)\<lparr>pl_free := {#}\<rparr>"
  have g1: "getBuf (Some 0) (length ([3] :: bytes)) (putBuf 0 p1) = (0, q)" "buf_cap q 0 = maxDatagram" "pl_next q = 1"
    using f1 by (simp_all add: getBuf_def pool_Get_def putBuf_def maxDatagram_def q_def buf_cap_def)
  define q1 where "q1 = the (copy_in 0 [3] q)"
  have f2: "copy_in 0 [3] q = Some q1" "pl_next q1 = 1"
    using g1(2,3) by (auto simp: q1_def copy_in_def maxDatagram_def)
  obtain c2 where "pooled_step\<^sup>*\<^sup>* c1 c2" "ps_out c2 = [(7, [1, 2]), (8, [3])]" "ps_pool c2 = putBuf 0 q1"
    "map (\<lambda>k. (cl_dst k, cl_data k)) (ps_calls c2) = [(7, [1, 2]), (8, [3])]"
    using pooled_pass [OF c1(2), of "Some 0" "[3]" 0 q q1 8] c1(3-5) g1 f2(1) by (auto simp: maxDatagram_def)
  moreover have "pl_next (putBuf 0 q1) = 1" using f2(2) by simp
  moreover have "pooled_step\<^sup>*\<^sup>* c0 c2" using c1(1) calculation(1) by (rule rtranclp_trans)
  ultimately show ?thesis unfolding c0_def by (intro exI [of _ c2]) simp
qed

theorem pooled_core_refines_bytes_witness:
  "\<exists>c :: nat pooled. pooled_step\<^sup>*\<^sup>* (pooled_start 1 clean_engine 10 0) c \<and> ps_out c = [(7, [1, 2]), (8, [3])] \<and>
    mset (ps_out c) \<subseteq># {#(7, [1, 2]), (8, [3])#} \<and>
    (\<exists>s :: (nat, bytes) sys. core_step\<^sup>*\<^sup>* (sys_start clean_engine 10 0) s \<and>
      map (\<lambda>(it, t). (eg_dst it, eg_data it)) (sy_sent s) = [(7, [1, 2]), (8, [3])])"
proof -
  obtain c :: "nat pooled" where c: "pooled_step\<^sup>*\<^sup>* (pooled_start 1 clean_engine 10 0) c" "ps_out c = [(7, [1, 2]), (8, [3])]"
    "map (\<lambda>k. (cl_dst k, cl_data k)) (ps_calls c) = [(7, [1, 2]), (8, [3])]"
    using two_passes by (elim exE conjE)
  note p = pooled_core_refines_bytes [OF c(1)]
  have calls: "{#(cl_dst k, cl_data k). k \<in># mset (ps_calls c)#} = {#(7, [1, 2]), (8, [3])#}"
    using arg_cong [OF c(3), of mset] by simp
  have out: "mset (ps_out c) \<subseteq># {#(7, [1, 2]), (8, [3])#}"
    by (rule subset_mset.order_trans [OF mset_subset_eq_add_left conjunct2 [OF p, unfolded calls]])
  obtain s :: "(nat, bytes) sys" where s: "core_step\<^sup>*\<^sup>* (sys_start clean_engine 10 0) s"
    "ps_out c = map (\<lambda>(it, t). (eg_dst it, eg_data it)) (sy_sent s)" using conjunct1 [OF p] by blast
  show ?thesis
    by (rule exI [of _ c], intro conjI c(1,2) out exI [of _ s] s(1)) (simp add: s(2) [symmetric] c(2))
qed

text \<open>C14. Exclusive buffers: no buffer is ever both free and in use, or used twice, so that copying
  a payload overwrites no queued forward; and no slice of a buffer is out of its bounds.\<close>

theorem pooled_buffers_exclusive:
  assumes "pooled_step\<^sup>*\<^sup>* (pooled_start readers eng maxQueued ledgerCap) c"
  shows "(\<forall>a. count (owners (ps_pool c) (ps_enq c) (item_refs (ps_sys c)) (ps_done c)) a \<le> 1) \<and>
    list_all (\<lambda>e. case e of Got a k \<Rightarrow> copy_in a (cl_data k) (ps_pool c) \<noteq> None | _ \<Rightarrow> True) (ps_enq c) \<and>
    (\<forall>r \<in># item_refs (ps_sys c). slice_out (ps_pool c) r \<noteq> None)"
proof -
  have o: "owned (ps_pool c) (ps_enq c) (item_refs (ps_sys c)) (ps_done c)"
    using pooled_reachable [OF assms] by (simp add: pooled_ok_def)
  have "count (owners (ps_pool c) (ps_enq c) (item_refs (ps_sys c)) (ps_done c)) a \<le> 1" for a
  proof -
    have "count (owners (ps_pool c) (ps_enq c) (item_refs (ps_sys c)) (ps_done c)) a \<le> count (mset_set {..<pl_next (ps_pool c)}) a"
      using o by (intro mset_subset_eq_count) (simp add: owned_def)
    also have "\<dots> \<le> 1" by (simp add: count_mset_set')
    finally show ?thesis .
  qed
  moreover have "list_all (\<lambda>e. case e of Got a k \<Rightarrow> copy_in a (cl_data k) (ps_pool c) \<noteq> None | _ \<Rightarrow> True) (ps_enq c)"
    using o by (auto simp: owned_def list_all_iff enq_ok_def copy_in_def split: enqueuer.splits)
  ultimately show ?thesis using owned_refs [OF o] by simp
qed

theorem pooled_buffers_exclusive_witness:
  "\<exists>c :: nat pooled. pooled_step\<^sup>*\<^sup>* (pooled_start 1 clean_engine 10 0) c \<and> ps_out c \<noteq> [] \<and>
    (\<forall>a. count (owners (ps_pool c) (ps_enq c) (item_refs (ps_sys c)) (ps_done c)) a \<le> 1)"
proof -
  obtain c :: "nat pooled" where c: "pooled_step\<^sup>*\<^sup>* (pooled_start 1 clean_engine 10 0) c" "ps_out c = [(7, [1, 2]), (8, [3])]"
    using two_passes by blast
  show ?thesis using pooled_buffers_exclusive [OF c(1)] c by auto
qed


section \<open>Opening and closing\<close>

text \<open>C15. Close is final: once a call of Close has returned, every goroutine has, the sockets were
  closed exactly once, and nothing happens any more but other calls of Close returning: no
  datagram is handled and none is written.\<close>

theorem close_is_final:
  assumes "life_step\<^sup>*\<^sup>* (life_start loops closers) s" "j < closers" "lf_closers s ! j = Returned"
  shows "all_returned s \<and> \<not> lf_socksOpen s \<and> count_list (lf_log s) SocksClosed = 1 \<and>
    CloseReturned j \<in> set (lf_log s) \<and>
    set (after SocksClosed (lf_log s)) \<union> set (after (CloseReturned j) (lf_log s)) \<subseteq> range CloseReturned"
proof -
  note r = life_reachable [OF assms(1)]
  have logged: "CloseReturned j \<in> set (lf_log s)"
    using returns_logged_reachable [OF assms(1)] r(6) assms(2,3) by (simp add: returns_logged_def)
  then have "lf_onceDone s" and l: "SocksClosed \<in> set (lf_log s)" and a: "set (after SocksClosed (lf_log s)) \<subseteq> range CloseReturned"
    "set (after (CloseReturned j) (lf_log s)) \<subseteq> range CloseReturned" using r(2) by (auto simp: life_log_def)
  moreover have "once_ok s" using r(1) by (simp add: life_once_def)
  moreover have "count_list (lf_log s) SocksClosed = 1" using l a(1) by (intro occurs_once) auto
  ultimately show ?thesis using logged by (simp add: once_ok_def)
qed

theorem close_is_final_witness:
  "\<exists>s :: nat life. life_step\<^sup>*\<^sup>* (life_start 1 1) s \<and> CloseReturned 0 \<in> set (lf_log s) \<and> all_returned s"
proof -
  obtain s :: "nat life" where s: "life_step\<^sup>*\<^sup>* (life_start 1 1) s" "lf_closers s ! 0 = Returned"
    using closed_life by blast
  show ?thesis using close_is_final [OF s(1) _ s(2)] s(1) by auto
qed

text \<open>C16. Close returns. From every reachable state, whatever the loops, the egress goroutine and
  other callers are doing, a call of Close can return by steps of the relay and the clock alone, with
  no datagram arriving and no socket failing, and with the clock advancing by no more than one read
  deadline. When the channel is still open and no loop stands between its look at the channel and the
  setting of its deadline, the wake-up of the sockets spares it the wait: it can return with the clock
  standing still. A loop in its read has a deadline no more than that far ahead; and behind the close
  of the channel every step of a loop lowers the sum of the steps the loops have left.\<close>

theorem close_can_return:
  assumes "life_step\<^sup>*\<^sup>* (life_start loops closers) s" "j < closers" "lf_closers s ! j \<noteq> Outside"
  shows "(\<exists>s'. unaided\<^sup>*\<^sup>* s s' \<and> lf_closers s' ! j = Returned \<and> lf_now s' \<le> lf_now s + readDeadline) \<and>
    (\<not> lf_closed s \<and> LoopArm \<notin> set (lf_loops s) \<longrightarrow>
      (\<exists>s'. unaided\<^sup>*\<^sup>* s s' \<and> lf_closers s' ! j = Returned \<and> lf_now s' = lf_now s)) \<and>
    (\<forall>i < loops. lf_loops s ! i = LoopRead \<longrightarrow> (\<exists>d. lf_deadlines s ! i = Some d \<and> d \<le> lf_now s + readDeadline)) \<and>
    (\<forall>s'. life_step s s' \<and> lf_closed s \<and> lf_loops s' \<noteq> lf_loops s \<longrightarrow>
      sum_list (map loop_rank (lf_loops s')) < sum_list (map loop_rank (lf_loops s)))"
proof -
  note r = life_reachable [OF assms(1)]
  have j: "j < length (lf_closers s)" using r(6) assms(2) by simp
  have "\<exists>d. lf_deadlines s ! i = Some d \<and> d \<le> lf_now s + readDeadline" if "i < loops" "lf_loops s ! i = LoopRead" for i
    using r(4,5) that unfolding life_time_def by fastforce
  then show ?thesis
    using close_returns [OF r(1,4) j assms(3)] close_returns_at_once [OF r(1,4) j assms(3)] loops_wind_down [of s]
    by blast
qed

theorem close_can_return_witness:
  "\<exists>s :: nat life. unaided\<^sup>*\<^sup>* (set_closer 0 AtOnce (life_start 2 1)) s \<and> lf_closers s ! 0 = Returned \<and> lf_now s = 0"
proof -
  let ?s = "life_start 2 1 :: nat life" and ?t = "set_closer 0 AtOnce (life_start 2 1 :: nat life)"
  have t: "life_step\<^sup>*\<^sup>* ?s ?t" using life_step.CallClose [of 0 ?s] by (simp add: life_start_def r_into_rtranclp)
  have "lf_closers ?t ! 0 \<noteq> Outside" "\<not> lf_closed ?t" "LoopArm \<notin> set (lf_loops ?t)" "lf_now ?t = 0"
    by (simp_all add: life_upd life_start_def)
  then show ?thesis using close_can_return [OF t, of 0] by auto
qed

text \<open>Little happens behind the close: a loop handles at most the one datagram it had in hand or
  was about to read, the egress goroutine writes at most the one forward whose check had passed,
  and every step of a loop brings the loops nearer to their end.\<close>

theorem little_after_close:
  assumes "life_step\<^sup>*\<^sup>* (life_start loops closers) s"
  shows "late_reads i (lf_log s) \<le> 1 \<and> late_writes (lf_log s) \<le> 1 \<and>
    (\<forall>s'. life_step s s' \<and> lf_closed s \<longrightarrow> lf_loops s' = lf_loops s \<or>
      sum_list (map loop_rank (lf_loops s')) < sum_list (map loop_rank (lf_loops s)))"
  using late_at_most_one [OF life_reachable(3) [OF assms]] loops_wind_down by blast

theorem little_after_close_witness:
  "\<exists>s :: nat life. life_step\<^sup>*\<^sup>* (life_start 1 1) s \<and> ClosedChan \<in> set (lf_log s) \<and> late_reads 0 (lf_log s) \<le> 1"
proof -
  obtain s :: "nat life" where s: "life_step\<^sup>*\<^sup>* (life_start 1 1) s" "lf_closers s ! 0 = Returned"
    using closed_life by blast
  have "lf_closed s" "lf_closed s = (ClosedChan \<in> set (lf_log s))"
    using life_reachable(1,2,6) [OF s(1)] s(2) by (auto simp: life_once_def closer_ok_def once_ok_def life_log_def)
  then show ?thesis using s(1) little_after_close [OF s(1), of 0] by blast
qed

text \<open>Binding a port pair: of the 64 tries the first whose two sockets open on an even port and
  the next gives the pair, and then just these two sockets are open; when no try does, none is
  left open.\<close>

theorem bind_even_pair:
  "bindEvenPair answers socks =
     (case find (\<lambda>t. good_answer (answers t)) [0..<64] of
        None \<Rightarrow> (None, socks)
      | Some t \<Rightarrow> (let p = the (fst (answers t)) in (Some (p, p + 1), socks + {#p, p + 1#})))"
  by (simp add: bindEvenPair_def bind_from_spec Let_def split: option.split)

section \<open>The loops of the RIST relay\<close>

text \<open>C23. The media and the RTCP loop share the relay and do not disturb each other: however their
  datagrams interleave, no loop panics, the core, the learned media sender and what the tap sees
  of the media are as if only the media loop had run, and what is written to the RTCP socket is as
  if only the RTCP loop had.\<close>

theorem rist_loops_do_not_interfere:
  "\<exists>r' os rm rc. rist_loops pf inputs r = Some (r', os) \<and>
    mediaLoop pf (map turn.Got (media_datagrams inputs)) r = Some (rm, media_outputs os) \<and>
    rr_core rm = rr_core r' \<and> rr_senderRTP rm = rr_senderRTP r' \<and>
    rtcpLoop (map turn.Got (rtcp_datagrams inputs)) r = Some (rc, rtcp_outputs os) \<and> rr_senderRTCP rc = rr_senderRTCP r'"
  by (rule rist_loops_independent)

end
