(* ===== verification/GoText.thy ===== *)
theory GoText
  imports Prelude "HOL-Library.Char_ord" "HOL-Library.List_Lexorder"
begin

text \<open>
  Go strings as byte lists, and the part of \<^verbatim>\<open>fmt.Sprintf\<close> the program uses: the
  verbs \<^verbatim>\<open>%d\<close>, \<^verbatim>\<open>%s\<close> and \<^verbatim>\<open>%v\<close> on integers, strings and integer slices. Every call
  in the program passes as many arguments as its format has verbs. The lemmas show that
  decimal numerals can be read back, so that keys built from numbers are injective.
\<close>

section \<open>Decimal numerals\<close>

definition digit :: "nat \<Rightarrow> char" where
  "digit d = char_of (48 + d)"

fun digits :: "nat \<Rightarrow> string" where
  "digits n = (if n < 10 then [digit n] else digits (n div 10) @ [digit (n mod 10)])"

declare digits.simps [simp del]

definition itoa :: "int \<Rightarrow> string" where
  "itoa n = (if n < 0 then ''-'' @ digits (nat (- n)) else digits (nat n))"

definition digit_value :: "char \<Rightarrow> nat" where
  "digit_value c = of_char c - 48"

definition is_digit :: "char \<Rightarrow> bool" where
  "is_digit c \<longleftrightarrow> 48 \<le> (of_char c :: nat) \<and> (of_char c :: nat) \<le> 57"

definition number :: "string \<Rightarrow> nat" where
  "number s = foldl (\<lambda>n c. n * 10 + digit_value c) 0 s"

lemma of_char_digit: "d < 10 \<Longrightarrow> of_char (digit d) = 48 + d"
  by (simp add: digit_def take_bit_nat_eq_self)

lemma digit_value_digit: "d < 10 \<Longrightarrow> digit_value (digit d) = d"
  by (simp add: digit_value_def of_char_digit)

lemma is_digit_digit: "d < 10 \<Longrightarrow> is_digit (digit d)"
  by (simp add: is_digit_def of_char_digit)

lemma digits_all: "list_all is_digit (digits n)"
  by (induction n rule: digits.induct) (subst digits.simps, simp add: is_digit_digit)

lemma digits_nonempty [simp]: "digits n \<noteq> []"
  by (subst digits.simps) simp

lemma number_snoc: "number (s @ [c]) = number s * 10 + digit_value c"
  by (simp add: number_def)

lemma number_digits: "number (digits n) = n"
proof (induction n rule: digits.induct)
  case (1 n)
  show ?case
  proof (cases "n < 10")
    case True
    then show ?thesis by (subst digits.simps) (simp add: number_def digit_value_digit)
  next
    case False
    then show ?thesis using 1 by (subst digits.simps) (simp add: number_snoc digit_value_digit)
  qed
qed

lemma digits_inj: "digits m = digits n \<longleftrightarrow> m = n"
  by (metis number_digits)

lemma digits_no_minus: "digits n \<noteq> ''-'' @ s"
proof
  assume "digits n = ''-'' @ s"
  then have "is_digit CHR ''-''" using digits_all [of n] by simp
  then show False by (simp add: is_digit_def)
qed

lemma itoa_inj: "itoa a = itoa b \<longleftrightarrow> a = b"
proof (cases "a < 0"; cases "b < 0")
  assume "a < 0" "\<not> b < 0"
  then show ?thesis using digits_no_minus [of "nat b"] by (auto simp: itoa_def dest: sym)
next
  assume "\<not> a < 0" "b < 0"
  then show ?thesis using digits_no_minus [of "nat a"] by (auto simp: itoa_def)
qed (auto simp: itoa_def digits_inj)

section \<open>Formatting\<close>

datatype fmt_arg = Num int | Str string | Nums "int list"

fun join :: "string \<Rightarrow> string list \<Rightarrow> string" where
  "join sep [] = []"
| "join sep [x] = x"
| "join sep (x # y # xs) = x @ sep @ join sep (y # xs)"

fun show_arg :: "fmt_arg \<Rightarrow> string" where
  "show_arg (Num n) = itoa n"
| "show_arg (Str s) = s"
| "show_arg (Nums ns) = ''['' @ join '' '' (map itoa ns) @ '']''"

fun sprintf :: "string \<Rightarrow> fmt_arg list \<Rightarrow> string" where
  "sprintf [] as = []"
| "sprintf [c] as = (if c = CHR ''%'' then ''%!(NOVERB)'' else [c])"
| "sprintf (c # d # fmt) as =
     (if c \<noteq> CHR ''%'' then c # sprintf (d # fmt) as
      else if d = CHR ''%'' then d # sprintf fmt as
      else case as of [] \<Rightarrow> ''%!'' @ [d] @ ''(MISSING)'' @ sprintf fmt []
        | a # as' \<Rightarrow> show_arg a @ sprintf fmt as')"

text \<open>The em dash of the messages, as the three bytes of its UTF-8 form.\<close>

definition dash :: string where
  "dash = [CHR 0xE2, CHR 0x80, CHR 0x94]"

end
