(* ===== verification/Result.thy ===== *)
theory Result
  imports GoText GoFloat
begin

text \<open>
  \<^verbatim>\<open>result/result.go\<close>: verdicts ordered by severity, the checks of a run and their
  roll-up, and the matrix of all runs. The verdicts form a linear order, so the lemmas
  state the roll-up as a maximum; the axes of a matrix are the sorted, duplicate-free
  names of its results, and looking a cell up finds its first result.
\<close>

section \<open>Verdicts\<close>

datatype verdict = Pass | Warn | Fail | Unsupported | Error

fun severity :: "verdict \<Rightarrow> nat" where
  "severity Pass = 0"
| "severity Warn = 1"
| "severity Fail = 2"
| "severity Unsupported = 3"
| "severity Error = 4"

lemma severity_inj: "severity a = severity b \<longleftrightarrow> a = b"
  by (cases a; cases b) auto

instantiation verdict :: linorder
begin

definition less_eq_verdict :: "verdict \<Rightarrow> verdict \<Rightarrow> bool" where
  "less_eq_verdict a b \<longleftrightarrow> severity a \<le> severity b"

definition less_verdict :: "verdict \<Rightarrow> verdict \<Rightarrow> bool" where
  "less_verdict a b \<longleftrightarrow> severity a < severity b"

instance
  by standard (auto simp: less_eq_verdict_def less_verdict_def severity_inj)

end

fun verdict_String :: "verdict \<Rightarrow> string" where
  "verdict_String Pass = ''PASS''"
| "verdict_String Warn = ''WARN''"
| "verdict_String Fail = ''FAIL''"
| "verdict_String Unsupported = ''UNSUPPORTED''"
| "verdict_String Error = ''ERROR''"

lemma Pass_least [simp]: "Pass \<le> v"
  by (simp add: less_eq_verdict_def)

section \<open>Checks and results\<close>

record check =
  ck_Name :: string
  ck_Verdict :: verdict
  ck_Detail :: string

type_synonym metrics = "string \<rightharpoonup> f64"

record run_result =
  rs_Lib :: string
  rs_Scenario :: string
  rs_Checks :: "check list"
  rs_Metrics :: metrics
  rs_Err :: string

definition worst_of :: "verdict \<Rightarrow> check list \<Rightarrow> verdict" where
  "worst_of = foldl (\<lambda>worst c. if ck_Verdict c > worst then ck_Verdict c else worst)"

definition result_Verdict :: "run_result \<Rightarrow> verdict" where
  "result_Verdict r = (if rs_Err r \<noteq> [] then Error else worst_of Pass (rs_Checks r))"

section \<open>The matrix\<close>

record matrix =
  mx_Title :: string
  mx_Generated :: string
  mx_Libs :: "string list"
  mx_Scenarios :: "string list"
  mx_Results :: "run_result list"

definition matrix_Get :: "matrix \<Rightarrow> string \<Rightarrow> string \<Rightarrow> run_result option" where
  "matrix_Get m lib scn = find (\<lambda>r. rs_Lib r = lib \<and> rs_Scenario r = scn) (mx_Results m)"

text \<open>The keys of a Go map, whose iteration order does not matter once they are sorted.\<close>

definition sortedKeys :: "string list \<Rightarrow> string list" where
  "sortedKeys ks = sort (remdups ks)"

definition NewMatrix :: "string \<Rightarrow> string \<Rightarrow> run_result list \<Rightarrow> matrix" where
  "NewMatrix title generated results =
     \<lparr>mx_Title = title, mx_Generated = generated, mx_Libs = sortedKeys (map rs_Lib results),
      mx_Scenarios = sortedKeys (map rs_Scenario results), mx_Results = results\<rparr>"

lemma worst_of_fold: "worst_of v cs = fold max (map ck_Verdict cs) v"
  unfolding worst_of_def by (induction cs arbitrary: v) (auto simp: max_def not_less)

lemma worst_of_Max: "worst_of v cs = Max (insert v (ck_Verdict ` set cs))"
proof -
  have "worst_of v cs = fold max (map ck_Verdict cs) v" by (rule worst_of_fold)
  also have "\<dots> = Max (set (v # map ck_Verdict cs))" by (rule Max.set_eq_fold [symmetric])
  finally show ?thesis by simp
qed

text \<open>The roll-up of a run that did not fail to run, and how it depends on single checks.\<close>

lemma result_Verdict_Max:
  "result_Verdict r = (if rs_Err r \<noteq> [] then Error else Max (insert Pass (ck_Verdict ` set (rs_Checks r))))"
  by (simp add: result_Verdict_def worst_of_Max)

lemma worst_of_Pass_iff: "worst_of Pass cs = Pass \<longleftrightarrow> list_all (\<lambda>c. ck_Verdict c = Pass) cs"
proof -
  have "worst_of Pass cs \<le> Pass \<longleftrightarrow> (\<forall>c\<in>set cs. ck_Verdict c \<le> Pass)" by (simp add: worst_of_Max)
  then show ?thesis by (simp add: list_all_iff antisym_conv)
qed

lemma worst_of_mono:
  assumes "list_all2 (\<lambda>a b. ck_Verdict a \<le> ck_Verdict b) as bs" "v \<le> v'"
  shows "worst_of v as \<le> worst_of v' bs"
  using assms unfolding worst_of_fold
  by (induction arbitrary: v v' rule: list_all2_induct) (auto intro: max.mono)

lemma sortedKeys_props:
  "sorted (sortedKeys ks)" "distinct (sortedKeys ks)" "set (sortedKeys ks) = set ks"
  by (simp_all add: sortedKeys_def)

end
