(* ===== verification/Grade.thy ===== *)
theory Grade
  imports Result
begin

text \<open>
  \<^verbatim>\<open>grade/grade.go\<close>: the run accounting every protocol oracle embeds and the graders
  they share. A record extends \<open>grade_input\<close> where the source embeds \<^verbatim>\<open>grade.Input\<close>.
\<close>

record grade_input =
  gi_Lib :: string
  gi_Scenario :: string
  gi_LossInjected :: bool
  gi_SentMsgs :: int64
  gi_DeliveredMsgs :: int64
  gi_CorruptMsgs :: int64
  gi_RelayDropped :: uint64
  gi_Opaque :: bool
  gi_Metrics :: metrics

definition Checkf :: "string \<Rightarrow> verdict \<Rightarrow> string \<Rightarrow> fmt_arg list \<Rightarrow> check" where
  "Checkf name v format a = \<lparr>ck_Name = name, ck_Verdict = v, ck_Detail = sprintf format a\<rparr>"

definition grade_Result :: "'a grade_input_scheme \<Rightarrow> check list \<Rightarrow> run_result" where
  "grade_Result inp checks = \<lparr>rs_Lib = gi_Lib inp, rs_Scenario = gi_Scenario inp,
     rs_Checks = checks, rs_Metrics = gi_Metrics inp, rs_Err = []\<rparr>"

definition opaque_detail :: string where
  "opaque_detail = ''n/a (opaque SUT '' @ dash @ '' application delivery not measured)''"

definition DeliveryIntegrity :: "'a grade_input_scheme \<Rightarrow> check" where
  "DeliveryIntegrity inp =
     (let name = ''delivery-integrity'' in
      if gi_Opaque inp then Checkf name Pass opaque_detail []
      else if gi_CorruptMsgs inp = 0 then Checkf name Pass ''no corrupt messages delivered'' []
      else Checkf name Fail ''%d corrupt message(s) delivered'' [Num (gi_CorruptMsgs inp)])"

definition DeliveryComplete :: "'a grade_input_scheme \<Rightarrow> check" where
  "DeliveryComplete inp =
     (let name = ''delivery-complete'' in
      if gi_Opaque inp then Checkf name Pass opaque_detail []
      else if gi_LossInjected inp then
        Checkf name Pass ''delivered %d/%d (loss injected; completeness not asserted under loss)''
          [Num (gi_DeliveredMsgs inp), Num (gi_SentMsgs inp)]
      else if gi_DeliveredMsgs inp \<ge> gi_SentMsgs inp then
        Checkf name Pass ''delivered %d/%d'' [Num (gi_DeliveredMsgs inp), Num (gi_SentMsgs inp)]
      else Checkf name Fail ''delivered %d/%d (incomplete with no loss injected)''
          [Num (gi_DeliveredMsgs inp), Num (gi_SentMsgs inp)])"

definition Presence :: "string \<Rightarrow> int64 \<Rightarrow> bool \<Rightarrow> string \<Rightarrow> string \<Rightarrow> string \<Rightarrow> check" where
  "Presence name observed attempted presentFmt absent noEvidence =
     (if observed > 0 then Checkf name Pass presentFmt [Num observed]
      else if attempted then Checkf name Fail ''%s'' [Str absent]
      else Checkf name Error ''%s'' [Str noEvidence])"

definition Feedback :: "string \<Rightarrow> int64 \<Rightarrow> string \<Rightarrow> string \<Rightarrow> check" where
  "Feedback name observed presentFmt absent =
     (if observed > 0 then Checkf name Pass presentFmt [Num observed]
      else Checkf name Warn ''%s'' [Str absent])"

lemma Checkf_simps [simp]: "ck_Verdict (Checkf n v f a) = v" "ck_Name (Checkf n v f a) = n"
  by (simp_all add: Checkf_def)

lemmas grader_defs = DeliveryIntegrity_def DeliveryComplete_def Presence_def Feedback_def

text \<open>The verdicts of the shared graders, every branch.\<close>

lemma DeliveryIntegrity_verdict:
  "ck_Verdict (DeliveryIntegrity inp) = (if gi_Opaque inp \<or> gi_CorruptMsgs inp = 0 then Pass else Fail)"
  by (simp add: DeliveryIntegrity_def Let_def)

lemma DeliveryComplete_verdict:
  "ck_Verdict (DeliveryComplete inp) =
    (if gi_Opaque inp \<or> gi_LossInjected inp \<or> gi_DeliveredMsgs inp \<ge> gi_SentMsgs inp then Pass else Fail)"
  by (simp add: DeliveryComplete_def Let_def)

lemma Presence_verdict:
  "ck_Verdict (Presence n k att f a e) = (if k > 0 then Pass else if att then Fail else Error)"
  by (simp add: Presence_def)

lemma Feedback_verdict: "ck_Verdict (Feedback n k f a) = (if k > 0 then Pass else Warn)"
  by (simp add: Feedback_def)

lemmas grader_verdicts = DeliveryIntegrity_verdict DeliveryComplete_verdict Presence_verdict
  Feedback_verdict

end
