(* ===== verification/WireObs.thy ===== *)
theory WireObs
  imports GoInt
begin

text \<open>
  \<^verbatim>\<open>wireobs/wireobs.go\<close>, the counters every wire observer embeds, and the
  header sniff of \<^verbatim>\<open>quicwire/detect.go\<close>. A Go map used as a set is a set; the counters
  are Go \<^verbatim>\<open>int\<close>s. The locale \<open>wire_observer\<close> states what a passive observer promises; the SRT and the RIST
  observer are its interpretations.
\<close>

unbundle bit_operations_syntax

record 's counters =
  ct_DataPackets :: int64
  ct_ControlPackets :: int64
  ct_RetransReqs :: int64
  ct_Retransmitted :: int64
  ct_ReqSeqs :: "'s set"
  ct_RetransSeqs :: "'s set"

definition NewCounters :: "'s counters" where
  "NewCounters = \<lparr>ct_DataPackets = 0, ct_ControlPackets = 0, ct_RetransReqs = 0,
     ct_Retransmitted = 0, ct_ReqSeqs = {}, ct_RetransSeqs = {}\<rparr>"

definition ct_Data :: "'s counters \<Rightarrow> 's counters" where
  "ct_Data c = c\<lparr>ct_DataPackets := i64 (ct_DataPackets c + 1)\<rparr>"

definition ct_Control :: "'s counters \<Rightarrow> 's counters" where
  "ct_Control c = c\<lparr>ct_ControlPackets := i64 (ct_ControlPackets c + 1)\<rparr>"

definition ct_Request :: "'s list \<Rightarrow> 's counters \<Rightarrow> 's counters" where
  "ct_Request seqs c = c\<lparr>ct_RetransReqs := i64 (ct_RetransReqs c + 1),
     ct_ReqSeqs := ct_ReqSeqs c \<union> set seqs\<rparr>"

definition ct_Retransmit :: "'s \<Rightarrow> 's counters \<Rightarrow> 's counters" where
  "ct_Retransmit s c = c\<lparr>ct_Retransmitted := i64 (ct_Retransmitted c + 1),
     ct_RetransSeqs := insert s (ct_RetransSeqs c)\<rparr>"

lemmas ct_defs = ct_Data_def ct_Control_def ct_Request_def ct_Retransmit_def

text \<open>How often a condition held in a history, as a Go \<^verbatim>\<open>int\<close>.\<close>

definition count_of :: "('a \<Rightarrow> bool) \<Rightarrow> 'a list \<Rightarrow> int64" where
  "count_of P h = i64 (int (length (filter P h)))"

lemma count_of_Nil [simp]: "count_of P [] = 0"
  by (simp add: count_of_def)

lemma count_of_snoc: "count_of P (h @ [x]) = (if P x then i64 (count_of P h + 1) else count_of P h)"
  by (simp add: count_of_def i64_def mod_simps algebra_simps)

section \<open>Passive observers\<close>

text \<open>The contract the relays put on an observer, which \<^verbatim>\<open>wire.Observer\<close> and
  \<^verbatim>\<open>ristwire.Observer\<close> keep: a datagram its decoder does not know leaves it as it was, and
  after every valid datagram it has tallied one more event, if the datagram carried one.\<close>

fun observe_run :: "('i \<Rightarrow> 'v \<Rightarrow> 'v option) \<Rightarrow> 'i list \<Rightarrow> 'v \<Rightarrow> 'v option" where
  "observe_run f [] v = Some v"
| "observe_run f (i # is) v = (case f i v of None \<Rightarrow> None | Some v1 \<Rightarrow> observe_run f is v1)"

locale wire_observer =
  fixes observe :: "'i \<Rightarrow> 'v \<Rightarrow> 'v option" and known :: "'i \<Rightarrow> bool" and valid :: "'i \<Rightarrow> bool"
    and event :: "'i \<Rightarrow> 'e option" and tally :: "'e list \<Rightarrow> 'v \<Rightarrow> bool"
  assumes foreign: "\<not> known i \<Longrightarrow> observe i v = Some v"
    and tallies: "tally h v \<Longrightarrow> valid i \<Longrightarrow>
      \<exists>v'. observe i v = Some v' \<and> tally (h @ (case event i of None \<Rightarrow> [] | Some e \<Rightarrow> [e])) v'"
begin

lemma run_tallies:
  "tally h v \<Longrightarrow> list_all valid is \<Longrightarrow>
   \<exists>v'. observe_run observe is v = Some v' \<and> tally (h @ List.map_filter event is) v'"
proof (induction "is" arbitrary: h v)
  case (Cons i "is")
  then obtain v1 where v1: "observe i v = Some v1"
    "tally (h @ (case event i of None \<Rightarrow> [] | Some e \<Rightarrow> [e])) v1"
    using tallies [of h v i] by auto
  then show ?case using Cons.IH [OF v1(2)] Cons.prems(2)
    by (cases "event i") (simp_all add: List.map_filter_simps)
qed (simp add: List.map_filter_simps)

lemma run_skips_foreign: "observe_run observe (filter known is) v = observe_run observe is v"
  by (induction "is" arbitrary: v) (auto simp: foreign split: option.split)

end

section \<open>QUIC\<close>

definition quic_LooksEncrypted :: "bytes \<Rightarrow> bool" where
  "quic_LooksEncrypted data = (case data of [] \<Rightarrow> False
     | b # _ \<Rightarrow> if b AND 0x80 \<noteq> 0 then True else b AND 0x40 \<noteq> 0)"

text \<open>The sniff accepts exactly the datagrams whose first byte is at least \<open>0x40\<close>.\<close>

lemma byte_top_bits: "((b :: byte) AND 0x80 \<noteq> 0 \<or> b AND 0x40 \<noteq> 0) \<longleftrightarrow> 64 \<le> unat b"
proof -
  have "b AND 0x80 \<noteq> 0 \<longleftrightarrow> bit b 7" "b AND 0x40 \<noteq> 0 \<longleftrightarrow> bit b 6"
    using and_exp_eq_0_iff_not_bit [of b 7] and_exp_eq_0_iff_not_bit [of b 6] by simp_all
  moreover have "bit b 7 \<longleftrightarrow> odd (unat b div 2 ^ 7)" "bit b 6 \<longleftrightarrow> odd (unat b div 2 ^ 6)"
    unfolding bit_iff_odd [symmetric] by (simp_all add: bit_unsigned_iff)
  moreover have "unat b < 256" using unsigned_less [of b, where 'a = nat] by simp
  then have "unat b div 128 = 0 \<or> unat b div 128 = 1"
    "unat b div 64 = 0 \<or> unat b div 64 = 1 \<or> unat b div 64 = 2 \<or> unat b div 64 = 3"
    "unat b div 128 = unat b div 64 div 2" "64 \<le> unat b \<longleftrightarrow> unat b div 64 \<noteq> 0"
    by (auto simp: div_mult2_eq [symmetric])
  ultimately show ?thesis by auto
qed

lemma quic_LooksEncrypted_iff:
  "quic_LooksEncrypted data \<longleftrightarrow> data \<noteq> [] \<and> 64 \<le> unat (hd data)"
  using byte_top_bits [of "hd data"] by (cases data) (auto simp: quic_LooksEncrypted_def)

end
