(* ===== verification/GoBytes.thy ===== *)
theory GoBytes
  imports Prelude
begin

text \<open>
  Big-endian fields, as \<^verbatim>\<open>encoding/binary\<close> reads them, the inverse encoders the
  round-trip lemmas use, and the facts about single bits of machine words that the wire
  decoders share.
\<close>

unbundle bit_operations_syntax

definition be16 :: "byte \<Rightarrow> byte \<Rightarrow> uint16" where
  "be16 a b = push_bit 8 (ucast a) OR ucast b"

definition be32 :: "byte \<Rightarrow> byte \<Rightarrow> byte \<Rightarrow> byte \<Rightarrow> uint32" where
  "be32 a b c d = push_bit 24 (ucast a) OR push_bit 16 (ucast b) OR push_bit 8 (ucast c) OR ucast d"

definition uint16_at :: "bytes \<Rightarrow> nat \<Rightarrow> uint16" where
  "uint16_at data i = be16 (data ! i) (data ! (i + 1))"

definition uint32_at :: "bytes \<Rightarrow> nat \<Rightarrow> uint32" where
  "uint32_at data i = be32 (data ! i) (data ! (i + 1)) (data ! (i + 2)) (data ! (i + 3))"

definition put16 :: "uint16 \<Rightarrow> bytes" where
  "put16 w = [ucast (drop_bit 8 w), ucast w]"

definition put32 :: "uint32 \<Rightarrow> bytes" where
  "put32 w = [ucast (drop_bit 24 w), ucast (drop_bit 16 w), ucast (drop_bit 8 w), ucast w]"

lemma length_put16 [simp]: "length (put16 w) = 2" and length_put32 [simp]: "length (put32 v) = 4"
  by (simp_all add: put16_def put32_def)

lemma be16_put: "be16 (ucast (drop_bit 8 w)) (ucast w) = w"
  by (rule bit_word_eqI) (auto simp: be16_def bit_simps)

lemma be32_put:
  "be32 (ucast (drop_bit 24 w)) (ucast (drop_bit 16 w)) (ucast (drop_bit 8 w)) (ucast w) = w"
proof (rule bit_word_eqI)
  fix n assume "n < LENGTH(32)"
  then have "n < 32" by simp
  then consider "n < 8" | "8 \<le> n" "n < 16" | "16 \<le> n" "n < 24" | "24 \<le> n" "n < 32" by linarith
  then show "bit (be32 (ucast (drop_bit 24 w)) (ucast (drop_bit 16 w)) (ucast (drop_bit 8 w)) (ucast w)) n
      = bit w n"
    by cases (auto simp: be32_def bit_simps)
qed

lemma uint32_at_put:
  "uint32_at (put32 w @ rest) 0 = w"
  "uint32_at (put32 v @ put32 w @ rest) 4 = w"
  by (simp_all add: uint32_at_def put32_def be32_put)

text \<open>The top bit of a 32-bit word and the remaining 31.\<close>

lemma top_bit_clear: "w AND 0x80000000 = 0 \<longleftrightarrow> (w :: uint32) < 0x80000000"
proof -
  have "w AND 0x80000000 = 0 \<longleftrightarrow> \<not> bit w 31"
    using and_exp_eq_0_iff_not_bit [of w 31] by simp
  also have "\<dots> \<longleftrightarrow> unat w < 2 ^ 31"
  proof
    assume n: "\<not> bit w 31"
    have "\<not> bit (unat w) 31" using n by (simp add: bit_unsigned_iff)
    then have "even (unat w div 2 ^ 31)" by (simp only: bit_iff_odd not_not)
    moreover have "unat w div 2 ^ 31 < 2"
      by (rule less_mult_imp_div_less) (use unsigned_less [of w, where 'a = nat] in simp)
    ultimately have "unat w div 2 ^ 31 = 0" by (auto simp: less_2_cases_iff)
    then show "unat w < 2 ^ 31" by (simp add: div_eq_0_iff)
  next
    assume "unat w < 2 ^ 31"
    then have "\<not> odd (unat w div 2 ^ 31)" by simp
    then have "\<not> bit (unat w) 31" unfolding bit_iff_odd .
    then show "\<not> bit w 31" by (simp add: bit_unsigned_iff)
  qed
  also have "\<dots> \<longleftrightarrow> w < 0x80000000" by (simp add: word_less_nat_alt)
  finally show ?thesis .
qed

end
