(* ===== verification/SrtWire.thy ===== *)
theory SrtWire
  imports WireObs GoBytes Engine
begin

text \<open>
  \<^verbatim>\<open>wire/\<close>: the passive SRT decoder (\<^verbatim>\<open>decode.go\<close>) and observer (\<^verbatim>\<open>observer.go\<close>).
  The lemmas show that the decoder inverts an encoder of headers and of loss reports,
  how many sequence numbers a loss report names, and what the observer's tally is in
  terms of the packets seen, the acknowledgement order included.
\<close>

section \<open>Packets\<close>

definition CtrlHandshake :: uint16 where "CtrlHandshake = 0x0000"
definition CtrlKeepalive :: uint16 where "CtrlKeepalive = 0x0001"
definition CtrlACK :: uint16 where "CtrlACK = 0x0002"
definition CtrlNAK :: uint16 where "CtrlNAK = 0x0003"
definition CtrlShutdown :: uint16 where "CtrlShutdown = 0x0005"
definition CtrlACKACK :: uint16 where "CtrlACKACK = 0x0006"

lemmas ctrl_defs = CtrlHandshake_def CtrlKeepalive_def CtrlACK_def CtrlNAK_def CtrlShutdown_def
  CtrlACKACK_def

record pkt =
  p_IsControl :: bool
  p_Seq :: uint32
  p_Retrans :: bool
  p_KK :: "8 word"
  p_ControlType :: uint16
  p_AckSeq :: uint32
  p_NakSeqs :: "uint32 list"

definition zero_pkt :: pkt where
  "zero_pkt = \<lparr>p_IsControl = False, p_Seq = 0, p_Retrans = False, p_KK = 0, p_ControlType = 0,
     p_AckSeq = 0, p_NakSeqs = []\<rparr>"

definition pkt_Encrypted :: "pkt \<Rightarrow> bool" where
  "pkt_Encrypted p \<longleftrightarrow> \<not> p_IsControl p \<and> p_KK p \<noteq> 0"

section \<open>Decoding\<close>

definition headerLen :: nat where
  "headerLen = 16"

definition retransMask :: uint32 where
  "retransMask = push_bit 26 1"

definition kkMask :: uint32 where
  "kkMask = push_bit 27 3"

text \<open>\<^verbatim>\<open>for s := start; ; s++\<close>, inclusive.\<close>

function nak_range :: "uint32 \<Rightarrow> uint32 \<Rightarrow> uint32 list" where
  "nak_range s e = (if s = e then [s] else s # nak_range (s + 1) e)"
  by pat_completeness auto
termination
proof (relation "measure (\<lambda>(s, e). unat (e - s))")
  fix s e :: uint32 assume "s \<noteq> e"
  then have ne: "e - s \<noteq> 0" by simp
  have "unat (e - (s + 1)) = unat (e - s - 1)" by (simp add: algebra_simps)
  also have "\<dots> = unat (e - s) - 1" using ne by (rule unat_minus_one)
  finally show "((s + 1, e), (s, e)) \<in> measure (\<lambda>(s, e). unat (e - s))"
    using ne by (simp add: unat_gt_0)
qed simp

declare nak_range.simps [simp del]

fun decodeNak :: "bytes \<Rightarrow> uint32 list" where
  "decodeNak (a # b # c # d # rest) =
     (let w = be32 a b c d in
      if w AND 0x80000000 = 0 then w # decodeNak rest
      else let start = w AND 0x7FFFFFFF in
        (case rest of
           a' # b' # c' # d' # rest' \<Rightarrow>
             let end1 = be32 a' b' c' d' AND 0x7FFFFFFF in
             if end1 < start then start # decodeNak rest'
             else nak_range start end1 @ decodeNak rest'
         | _ \<Rightarrow> [start]))"
| "decodeNak _ = []"

definition srt_Decode :: "bytes \<Rightarrow> pkt option" where
  "srt_Decode data =
     (if length data < headerLen then None
      else let word0 = uint32_at data 0; word1 = uint32_at data 4 in
        if word0 AND 0x80000000 = 0 then
          Some (zero_pkt\<lparr>p_Seq := word0 AND 0x7FFFFFFF, p_Retrans := (word1 AND retransMask \<noteq> 0),
            p_KK := ucast (drop_bit 27 (word1 AND kkMask))\<rparr>)
        else let ct = ucast (drop_bit 16 word0 AND 0x7FFF);
                 p = zero_pkt\<lparr>p_IsControl := True, p_ControlType := ct\<rparr>
          in Some (if ct = CtrlACK then
                     (if length data \<ge> headerLen + 4 then p\<lparr>p_AckSeq := uint32_at data headerLen\<rparr> else p)
                   else if ct = CtrlNAK then p\<lparr>p_NakSeqs := decodeNak (drop headerLen data)\<rparr>
                   else p))"

definition srt_LooksEncrypted :: "bytes \<Rightarrow> bool" where
  "srt_LooksEncrypted data = (case srt_Decode data of None \<Rightarrow> False | Some p \<Rightarrow> pkt_Encrypted p)"

section \<open>The observer\<close>

record srt_observation =
  so_Counters :: "uint32 counters"
  so_Handshakes :: int64
  so_ACKs :: int64
  so_KeepAlives :: int64
  so_Shutdowns :: int64
  so_AckAcks :: int64
  so_MaxAckSeq :: uint32
  so_AckMonotonic :: bool

record srt_observer =
  sv_obs :: srt_observation
  sv_ackSeen :: "bool list"
  sv_lastAck :: "uint32 list"

definition srt_NewObserver :: srt_observer where
  "srt_NewObserver =
     \<lparr>sv_obs = \<lparr>so_Counters = NewCounters, so_Handshakes = 0, so_ACKs = 0, so_KeepAlives = 0,
        so_Shutdowns = 0, so_AckAcks = 0, so_MaxAckSeq = 0, so_AckMonotonic = True\<rparr>,
      sv_ackSeen = [False, False], sv_lastAck = [0, 0]\<rparr>"

text \<open>\<open>None\<close> is the panic on a direction outside the two arrays.\<close>

definition recordAck :: "direction \<Rightarrow> uint32 \<Rightarrow> srt_observer \<Rightarrow> srt_observer option" where
  "recordAck dir sq v =
     (let d = unat dir in
      if length (sv_ackSeen v) \<le> d then None
      else let ob = sv_obs v;
               ob1 = (if sv_ackSeen v ! d \<and> sq < sv_lastAck v ! d then ob\<lparr>so_AckMonotonic := False\<rparr> else ob);
               ob2 = (if sq > so_MaxAckSeq ob1 then ob1\<lparr>so_MaxAckSeq := sq\<rparr> else ob1)
        in Some (v\<lparr>sv_obs := ob2, sv_lastAck := (sv_lastAck v)[d := sq], sv_ackSeen := (sv_ackSeen v)[d := True]\<rparr>))"

definition srt_Observe :: "direction \<Rightarrow> bytes \<Rightarrow> srt_observer \<Rightarrow> srt_observer option" where
  "srt_Observe dir data v =
     (case srt_Decode data of None \<Rightarrow> Some v
      | Some p \<Rightarrow>
         let ob = sv_obs v in
         if \<not> p_IsControl p then
           let c = ct_Data (so_Counters ob);
               c1 = (if p_Retrans p then ct_Retransmit (p_Seq p) c else c)
           in Some (v\<lparr>sv_obs := ob\<lparr>so_Counters := c1\<rparr>\<rparr>)
         else
           let ob1 = ob\<lparr>so_Counters := ct_Control (so_Counters ob)\<rparr>;
               ct = p_ControlType p
           in if ct = CtrlHandshake then Some (v\<lparr>sv_obs := ob1\<lparr>so_Handshakes := i64 (so_Handshakes ob1 + 1)\<rparr>\<rparr>)
              else if ct = CtrlKeepalive then Some (v\<lparr>sv_obs := ob1\<lparr>so_KeepAlives := i64 (so_KeepAlives ob1 + 1)\<rparr>\<rparr>)
              else if ct = CtrlShutdown then Some (v\<lparr>sv_obs := ob1\<lparr>so_Shutdowns := i64 (so_Shutdowns ob1 + 1)\<rparr>\<rparr>)
              else if ct = CtrlACKACK then Some (v\<lparr>sv_obs := ob1\<lparr>so_AckAcks := i64 (so_AckAcks ob1 + 1)\<rparr>\<rparr>)
              else if ct = CtrlACK then
                recordAck dir (p_AckSeq p) (v\<lparr>sv_obs := ob1\<lparr>so_ACKs := i64 (so_ACKs ob1 + 1)\<rparr>\<rparr>)
              else if ct = CtrlNAK then
                Some (v\<lparr>sv_obs := ob1\<lparr>so_Counters := ct_Request (p_NakSeqs p) (so_Counters ob1)\<rparr>\<rparr>)
              else Some (v\<lparr>sv_obs := ob1\<rparr>))"

abbreviation srt_observe_all :: "(direction \<times> bytes) list \<Rightarrow> srt_observer \<Rightarrow> srt_observer option" where
  "srt_observe_all \<equiv> observe_run (\<lambda>(d, data). srt_Observe d data)"

section \<open>Loss reports\<close>

lemma nak_range_list:
  "s \<le> e \<Longrightarrow> nak_range s e = map of_nat [unat s..<Suc (unat e)]"
proof (induction s e rule: nak_range.induct)
  case (1 s e)
  show ?case
  proof (cases "s = e")
    case True
    then show ?thesis by (simp add: nak_range.simps)
  next
    case False
    then have lt: "s < e" using 1(2) by simp
    have le: "s + 1 \<le> e" using lt by (rule inc_le)
    have "1 + s \<noteq> 0"
    proof
      assume "1 + s = 0"
      then have "s = - 1" by (simp add: add_eq_0_iff)
      then show False using lt word_n1_ge [of e] by simp
    qed
    then have u: "unat (s + 1) = Suc (unat s)" using unatSuc [of s] by (simp add: add.commute)
    have lu: "unat s < unat e" using lt by (simp add: word_less_nat_alt)
    have "nak_range s e = s # map of_nat [Suc (unat s)..<Suc (unat e)]"
      using 1(1) [OF False le] False u by (simp add: nak_range.simps [of s e])
    also have "\<dots> = map of_nat (unat s # [Suc (unat s)..<Suc (unat e)])" by simp
    also have "unat s # [Suc (unat s)..<Suc (unat e)] = [unat s..<Suc (unat e)]"
      using lu by (simp add: upt_conv_Cons del: upt_Suc)
    finally show ?thesis .
  qed
qed

lemma length_nak_range: "s \<le> e \<Longrightarrow> length (nak_range s e) = Suc (unat e) - unat s"
  by (simp add: nak_range_list del: upt_Suc)

text \<open>The loss report a receiver would write.\<close>

datatype nak_entry = Lost uint32 | LostRange uint32 uint32

fun nak_encode :: "nak_entry \<Rightarrow> bytes" where
  "nak_encode (Lost s) = put32 s"
| "nak_encode (LostRange a b) = put32 (a OR 0x80000000) @ put32 b"

fun nak_valid :: "nak_entry \<Rightarrow> bool" where
  "nak_valid (Lost s) \<longleftrightarrow> s < 0x80000000"
| "nak_valid (LostRange a b) \<longleftrightarrow> a \<le> b \<and> b < 0x80000000"

fun nak_expand :: "nak_entry \<Rightarrow> uint32 list" where
  "nak_expand (Lost s) = [s]"
| "nak_expand (LostRange a b) = map of_nat [unat a..<Suc (unat b)]"

lemma low31: "a < 0x80000000 \<Longrightarrow> (a :: uint32) AND 0x7FFFFFFF = a"
proof -
  assume "a < 0x80000000"
  then have "unat a < 2 ^ 31" by (simp add: word_less_nat_alt)
  then have "take_bit 31 (unat a) = unat a" by (simp add: take_bit_nat_eq_self)
  then have "take_bit 31 a = a" by (simp add: word_unat_eq_iff unsigned_take_bit_eq)
  moreover have "(0x7FFFFFFF :: uint32) = mask 31" by (simp add: mask_eq_exp_minus_1)
  ultimately show ?thesis by (simp add: take_bit_eq_mask)
qed

lemma range_word:
  "a < 0x80000000 \<Longrightarrow> ((a :: uint32) OR 0x80000000) AND 0x80000000 \<noteq> 0"
  "a < 0x80000000 \<Longrightarrow> (a OR 0x80000000) AND 0x7FFFFFFF = a"
  using top_bit_clear [of a] by (simp_all add: bit.conj_disj_distrib2 low31)

lemma decodeNak_single:
  "w AND 0x80000000 = 0 \<Longrightarrow> decodeNak (put32 w @ rest) = w # decodeNak rest"
  by (simp add: put32_def be32_put)

lemma decodeNak_pair:
  "w AND 0x80000000 \<noteq> 0 \<Longrightarrow> decodeNak (put32 w @ put32 v @ rest) =
    (let start = w AND 0x7FFFFFFF; end1 = v AND 0x7FFFFFFF
     in if end1 < start then start # decodeNak rest else nak_range start end1 @ decodeNak rest)"
  by (simp add: put32_def be32_put Let_def)

lemma decodeNak_encode:
  "list_all nak_valid es \<Longrightarrow> decodeNak (concat (map nak_encode es)) = concat (map nak_expand es)"
proof (induction es)
  case (Cons x es)
  show ?case
  proof (cases x)
    case (Lost s)
    then have "s AND 0x80000000 = 0" using Cons.prems by (simp add: top_bit_clear)
    then show ?thesis using Lost Cons by (simp add: decodeNak_single)
  next
    case (LostRange a b)
    then have v: "a \<le> b" "b < 0x80000000" "a < 0x80000000" using Cons.prems by auto
    show ?thesis
      using LostRange Cons v low31 [OF v(2)] decodeNak_pair [OF range_word(1) [OF v(3)], of b]
      by (simp add: range_word(2) [OF v(3)] Let_def nak_range_list not_less del: upt_Suc)
  qed
qed simp

text \<open>A report of eight bytes can name every sequence number there is.\<close>

lemma decodeNak_amplification:
  "length (decodeNak (nak_encode (LostRange 0 0x7FFFFFFF))) = 2147483648"
proof -
  have "decodeNak (nak_encode (LostRange 0 0x7FFFFFFF)) = map of_nat [unat (0 :: uint32)..<Suc (unat (0x7FFFFFFF :: uint32))]"
    using decodeNak_encode [of "[LostRange 0 0x7FFFFFFF]"] by (simp del: upt_Suc)
  then have "length (decodeNak (nak_encode (LostRange 0 0x7FFFFFFF))) = Suc (unat (0x7FFFFFFF :: uint32)) - 0"
    by (simp del: upt_Suc)
  then show ?thesis by simp
qed

section \<open>Headers\<close>

text \<open>The header of a data packet as a sender writes it: position, order, key and retransmit
  flags beside the 26-bit message number.\<close>

definition data_word1 :: "uint32 \<Rightarrow> uint32 \<Rightarrow> uint32 \<Rightarrow> uint32 \<Rightarrow> uint32 \<Rightarrow> uint32" where
  "data_word1 pp ord kk r msg = push_bit 30 pp OR push_bit 29 ord OR push_bit 27 kk OR push_bit 26 r OR msg"

definition data_packet :: "uint32 \<Rightarrow> uint32 \<Rightarrow> uint32 \<Rightarrow> uint32 \<Rightarrow> bytes \<Rightarrow> bytes" where
  "data_packet sq word1 ts sock payload = put32 sq @ put32 word1 @ put32 ts @ put32 sock @ payload"

definition control_packet :: "uint16 \<Rightarrow> uint16 \<Rightarrow> uint32 \<Rightarrow> uint32 \<Rightarrow> uint32 \<Rightarrow> bytes \<Rightarrow> bytes" where
  "control_packet ct subtype word1 ts sock cif =
     put32 (0x80000000 OR push_bit 16 (ucast ct) OR ucast subtype) @ put32 word1 @ put32 ts @ put32 sock @ cif"

lemma small_word_bit: "(w :: uint32) < 2 ^ k \<Longrightarrow> k \<le> n \<Longrightarrow> \<not> bit w n"
proof
  assume a: "w < 2 ^ k" "k \<le> n" "bit w n"
  then have n: "n < 32" by (auto dest: bit_imp_le_length)
  have k: "k < 32" using a(2) n by simp
  then have "unat (of_nat (2 ^ k) :: uint32) = 2 ^ k"
    by (simp only: unsigned_of_nat len_num1 len_bit0) (simp add: take_bit_nat_eq_self)
  then have "unat w < 2 ^ k" using a(1) by (simp add: word_less_nat_alt)
  then have "unat w < 2 ^ n" using a(2) by (meson less_le_trans one_le_numeral power_increasing)
  then have "\<not> bit (unat w) n" by (simp add: bit_iff_odd)
  then show False using a(3) by (simp add: bit_unsigned_iff)
qed

lemma kkMask_mask: "drop_bit 27 (w AND kkMask) = take_bit 2 (drop_bit 27 w)"
proof -
  have m: "kkMask = push_bit 27 (mask 2)" by (simp add: kkMask_def mask_eq_exp_minus_1)
  show ?thesis unfolding m
    by (rule bit_word_eqI) (subst bit_drop_bit_eq, simp, subst bit_and_iff, auto simp: bit_simps)
qed

lemma data_word1_fields:
  assumes "ord < 2" "kk < 4" "r < 2" "msg < 2 ^ 26"
  shows "(data_word1 pp ord kk r msg AND retransMask \<noteq> 0) = (r \<noteq> 0)"
    "drop_bit 27 (data_word1 pp ord kk r msg AND kkMask) = kk"
proof -
  have o: "\<not> bit ord n" if "1 \<le> n" for n using small_word_bit [of ord 1 n] assms(1) that by simp
  have k: "\<not> bit kk n" if "2 \<le> n" for n using small_word_bit [of kk 2 n] assms(2) that by simp
  have rb: "\<not> bit r n" if "1 \<le> n" for n using small_word_bit [of r 1 n] assms(3) that by simp
  have m: "\<not> bit msg n" if "26 \<le> n" for n using small_word_bit [of msg 26 n] assms(4) that by simp
  have "r \<noteq> 0 \<longleftrightarrow> bit r 0"
    using rb by (metis bit_0_eq bit_word_eqI bot_apply bot_bool_def gr0_conv_Suc le_add1 not_gr_zero plus_1_eq_Suc)
  moreover have "bit (data_word1 pp ord kk r msg) 26 = bit r 0"
    using m [of 26] by (simp add: data_word1_def bit_simps)
  ultimately show "(data_word1 pp ord kk r msg AND retransMask \<noteq> 0) = (r \<noteq> 0)"
    using and_exp_eq_0_iff_not_bit [of "data_word1 pp ord kk r msg" 26]
    by (simp add: retransMask_def push_bit_eq_mult)
  show "drop_bit 27 (data_word1 pp ord kk r msg AND kkMask) = kk"
    unfolding kkMask_mask
  proof (rule bit_word_eqI)
    fix n assume n: "n < LENGTH(32)"
    show "bit (take_bit 2 (drop_bit 27 (data_word1 pp ord kk r msg))) n = bit kk n"
    proof (cases "n < 2")
      case True
      have "\<not> bit msg (27 + n)" "\<not> bit r (Suc n)" using m rb by simp_all
      then show ?thesis using True n by (auto simp: data_word1_def bit_simps)
    next
      case False
      then show ?thesis using k by (simp add: bit_simps)
    qed
  qed
qed

text \<open>Decoding inverts encoding: a data packet gives back its number, its retransmit flag and
  its key field, whatever the payload.\<close>

lemma srt_Decode_data:
  assumes "sq < 0x80000000" "ord < 2" "kk < 4" "r < 2" "msg < 2 ^ 26"
  shows "srt_Decode (data_packet sq (data_word1 pp ord kk r msg) ts sock payload) =
    Some (zero_pkt\<lparr>p_Seq := sq, p_Retrans := (r \<noteq> 0), p_KK := ucast kk\<rparr>)"
proof -
  let ?b = "data_packet sq (data_word1 pp ord kk r msg) ts sock payload"
  have c: "sq AND 0x80000000 = 0" using assms(1) by (simp add: top_bit_clear)
  have l: "\<not> length ?b < headerLen" by (simp add: data_packet_def headerLen_def)
  have u: "uint32_at ?b 0 = sq" "uint32_at ?b 4 = data_word1 pp ord kk r msg"
    unfolding data_packet_def by (simp_all add: uint32_at_put)
  have s: "sq AND 0x7FFFFFFF = sq" using low31 [OF assms(1)] .
  show ?thesis
    unfolding srt_Decode_def if_not_P [OF l] Let_def u if_P [OF c]
      data_word1_fields [OF assms(2-5)] s by simp
qed

lemma control_word0:
  assumes "ct < 0x8000"
  shows "(0x80000000 OR push_bit 16 (ucast (ct :: uint16)) OR ucast (st :: uint16) :: uint32) AND 0x80000000 \<noteq> 0"
    "ucast (drop_bit 16 (0x80000000 OR push_bit 16 (ucast ct) OR ucast st :: uint32) AND 0x7FFF) = ct"
proof -
  let ?w = "0x80000000 OR push_bit 16 (ucast ct) OR ucast st :: uint32"
  have top: "bit (0x80000000 :: uint32) n \<longleftrightarrow> n = 31" for n
    using bit_exp_iff [of 31 n, where 'a = uint32] by auto
  have top16: "bit (0x8000 :: uint32) n \<longleftrightarrow> n = 15" for n
    using bit_exp_iff [of 15 n, where 'a = uint32] by auto
  have top16': "bit (0x8000 :: int) n \<longleftrightarrow> n = 15" for n
    using bit_exp_iff [of 15 n, where 'a = int] by auto
  have "bit ?w 31" by (simp add: bit_simps top)
  then show "?w AND 0x80000000 \<noteq> 0" using and_exp_eq_0_iff_not_bit [of ?w 31] by simp
  have "unat ct < 2 ^ 15" using assms by (simp add: word_less_nat_alt)
  then have "unat ct div 2 ^ 15 = 0" by simp
  then have "\<not> bit (unat ct) 15" unfolding bit_iff_odd by simp
  then have ct15: "\<not> bit ct 15" by (simp add: bit_unsigned_iff)
  have m: "(0x7FFF :: uint32) = mask 15" by (simp add: mask_eq_exp_minus_1)
  show "ucast (drop_bit 16 ?w AND 0x7FFF) = ct"
  proof (rule bit_word_eqI)
    fix n assume "n < LENGTH(16)"
    then have n: "n < 16" by simp
    show "bit (ucast (drop_bit 16 ?w AND 0x7FFF) :: uint16) n = bit ct n"
    proof (cases "n = 15")
      case True
      then show ?thesis using ct15 unfolding m by (simp add: bit_simps)
    next
      case False
      then have "\<not> bit st (16 + n)" using bit_imp_le_length [of st "16 + n"] by auto
      then show ?thesis using n False unfolding m by (auto simp: bit_simps top top16 top16')
    qed
  qed
qed

lemma srt_Decode_nak:
  assumes "list_all nak_valid es"
  shows "srt_Decode (control_packet CtrlNAK st w1 ts sock (concat (map nak_encode es))) =
    Some (zero_pkt\<lparr>p_IsControl := True, p_ControlType := CtrlNAK, p_NakSeqs := concat (map nak_expand es)\<rparr>)"
proof -
  let ?w = "0x80000000 OR push_bit 16 (ucast CtrlNAK) OR ucast st :: uint32"
  let ?p = "control_packet CtrlNAK st w1 ts sock (concat (map nak_encode es))"
  have c: "?w AND 0x80000000 \<noteq> 0" "ucast (drop_bit 16 ?w AND 0x7FFF) = CtrlNAK"
    using control_word0 [of CtrlNAK st] by (auto simp: CtrlNAK_def)
  have u: "uint32_at ?p 0 = ?w" unfolding control_packet_def by (rule uint32_at_put(1))
  have d: "drop headerLen ?p = concat (map nak_encode es)"
    by (simp add: control_packet_def headerLen_def)
  have l: "\<not> length ?p < headerLen" by (simp add: control_packet_def headerLen_def)
  have n: "CtrlNAK \<noteq> CtrlACK" by (simp add: ctrl_defs)
  show ?thesis unfolding srt_Decode_def if_not_P [OF l] Let_def u if_not_P [OF c(1)] c(2) d
    using n by (simp add: decodeNak_encode [OF assms])
qed

section \<open>What the observer has tallied\<close>

definition decoded :: "(direction \<times> bytes) list \<Rightarrow> (direction \<times> pkt) list" where
  "decoded ps = List.map_filter (\<lambda>(d, b). map_option (Pair d) (srt_Decode b)) ps"

definition is_ack :: "pkt \<Rightarrow> bool" where
  "is_ack p \<longleftrightarrow> p_IsControl p \<and> p_ControlType p = CtrlACK"

definition is_nak :: "pkt \<Rightarrow> bool" where
  "is_nak p \<longleftrightarrow> p_IsControl p \<and> p_ControlType p = CtrlNAK"

definition is_resend :: "pkt \<Rightarrow> bool" where
  "is_resend p \<longleftrightarrow> \<not> p_IsControl p \<and> p_Retrans p"

text \<open>The acknowledgements of one direction, in the order they passed.\<close>

definition acks :: "direction \<Rightarrow> (direction \<times> pkt) list \<Rightarrow> uint32 list" where
  "acks d h = map (p_AckSeq \<circ> snd) (filter (\<lambda>(d', p). d' = d \<and> is_ack p) h)"

definition all_acks :: "(direction \<times> pkt) list \<Rightarrow> uint32 list" where
  "all_acks h = map (p_AckSeq \<circ> snd) (filter (is_ack \<circ> snd) h)"

definition ack_tally :: "(direction \<times> pkt) list \<Rightarrow> srt_observer \<Rightarrow> bool" where
  "ack_tally h v \<longleftrightarrow>
     sv_ackSeen v = [acks 0 h \<noteq> [], acks 1 h \<noteq> []] \<and>
     length (sv_lastAck v) = 2 \<and>
     (acks 0 h \<noteq> [] \<longrightarrow> sv_lastAck v ! 0 = last (acks 0 h)) \<and>
     (acks 1 h \<noteq> [] \<longrightarrow> sv_lastAck v ! 1 = last (acks 1 h)) \<and>
     so_AckMonotonic (sv_obs v) = (sorted (acks 0 h) \<and> sorted (acks 1 h)) \<and>
     so_MaxAckSeq (sv_obs v) = fold max (all_acks h) 0"

definition counters_tally :: "(direction \<times> pkt) list \<Rightarrow> uint32 counters \<Rightarrow> bool" where
  "counters_tally h c \<longleftrightarrow>
     ct_DataPackets c = count_of (Not \<circ> p_IsControl \<circ> snd) h \<and>
     ct_ControlPackets c = count_of (p_IsControl \<circ> snd) h \<and>
     ct_RetransReqs c = count_of (is_nak \<circ> snd) h \<and>
     ct_Retransmitted c = count_of (is_resend \<circ> snd) h \<and>
     ct_ReqSeqs c = \<Union> ((set \<circ> p_NakSeqs \<circ> snd) ` set (filter (is_nak \<circ> snd) h)) \<and>
     ct_RetransSeqs c = (p_Seq \<circ> snd) ` set (filter (is_resend \<circ> snd) h)"

definition srt_tally :: "(direction \<times> pkt) list \<Rightarrow> srt_observer \<Rightarrow> bool" where
  "srt_tally h v \<longleftrightarrow> ack_tally h v \<and> counters_tally h (so_Counters (sv_obs v))"

lemma acks_snoc: "acks d (h @ [(d', p)]) = (if d' = d \<and> is_ack p then acks d h @ [p_AckSeq p] else acks d h)"
  by (simp add: acks_def)

lemma all_acks_snoc: "all_acks (h @ [(d', p)]) = (if is_ack p then all_acks h @ [p_AckSeq p] else all_acks h)"
  by (simp add: all_acks_def)

lemma sorted_snoc: "sorted (xs @ [x]) \<longleftrightarrow> sorted xs \<and> (xs \<noteq> [] \<longrightarrow> last xs \<le> x)"
  by (cases xs rule: rev_cases) (auto simp: sorted_append intro: order_trans)

text \<open>The counters after one decoded packet, which is all a step does to them.\<close>

definition count_packet :: "pkt \<Rightarrow> uint32 counters \<Rightarrow> uint32 counters" where
  "count_packet p c =
     (if p_IsControl p then (if is_nak p then ct_Request (p_NakSeqs p) (ct_Control c) else ct_Control c)
      else if p_Retrans p then ct_Retransmit (p_Seq p) (ct_Data c) else ct_Data c)"

lemma counters_tally_snoc:
  "counters_tally h c \<Longrightarrow> counters_tally (h @ [(d, p)]) (count_packet p c)"
  by (auto simp: counters_tally_def count_packet_def ct_defs count_of_snoc is_nak_def is_resend_def)

lemma recordAck_counters:
  "recordAck d sq v = Some v' \<Longrightarrow> so_Counters (sv_obs v') = so_Counters (sv_obs v)"
  by (auto simp: recordAck_def Let_def split: if_splits)

lemma srt_Observe_counters:
  assumes "srt_Decode data = Some p" "srt_Observe d data v = Some v'"
  shows "so_Counters (sv_obs v') = count_packet p (so_Counters (sv_obs v))"
  using assms recordAck_counters
  by (auto simp: srt_Observe_def Let_def count_packet_def is_nak_def ctrl_defs split: if_splits)

lemma srt_Observe_no_ack:
  assumes "srt_Decode data = Some p" "\<not> is_ack p" "ack_tally h v"
  shows "\<exists>v'. srt_Observe d data v = Some v' \<and> ack_tally (h @ [(d, p)]) v'"
  using assms
  by (auto simp: srt_Observe_def Let_def is_ack_def ack_tally_def acks_snoc all_acks_snoc)

lemma recordAck_tally:
  assumes "is_ack p" "d = 0 \<or> d = 1" "ack_tally h v"
  shows "\<exists>v'. recordAck d (p_AckSeq p) v = Some v' \<and> ack_tally (h @ [(d, p)]) v'"
  using assms(2)
proof
  assume "d = 0"
  then show ?thesis using assms(1,3)
    by (auto simp: recordAck_def Let_def ack_tally_def acks_snoc all_acks_snoc sorted_snoc not_less max_def)
next
  assume "d = 1"
  then show ?thesis using assms(1,3)
    by (auto simp: recordAck_def Let_def ack_tally_def acks_snoc all_acks_snoc sorted_snoc not_less max_def)
qed

lemma srt_tally_new: "srt_tally [] srt_NewObserver"
  by (simp add: srt_tally_def ack_tally_def counters_tally_def count_of_def srt_NewObserver_def
      NewCounters_def acks_def all_acks_def)

lemma srt_Observe_tally:
  assumes v: "srt_tally h v" and p: "srt_Decode data = Some p" and d: "d = 0 \<or> d = 1"
  shows "\<exists>v'. srt_Observe d data v = Some v' \<and> srt_tally (h @ [(d, p)]) v'"
proof -
  have a: "ack_tally h v" and c: "counters_tally h (so_Counters (sv_obs v))"
    using v by (simp_all add: srt_tally_def)
  obtain v' where v': "srt_Observe d data v = Some v'" "ack_tally (h @ [(d, p)]) v'"
  proof (cases "is_ack p")
    case True
    define v1 where "v1 = (let ob1 = (sv_obs v)\<lparr>so_Counters := ct_Control (so_Counters (sv_obs v))\<rparr>
      in v\<lparr>sv_obs := ob1\<lparr>so_ACKs := i64 (so_ACKs ob1 + 1)\<rparr>\<rparr>)"
    have "ack_tally h v1" using a by (simp add: v1_def ack_tally_def Let_def)
    moreover have "srt_Observe d data v = recordAck d (p_AckSeq p) v1"
      using p True by (simp add: srt_Observe_def is_ack_def v1_def Let_def ctrl_defs)
    ultimately show ?thesis using recordAck_tally [OF True d] that by metis
  next
    case False
    then show ?thesis using srt_Observe_no_ack [OF p False a] that by blast
  qed
  then show ?thesis
    using counters_tally_snoc [OF c] srt_Observe_counters [OF p v'(1)] by (simp add: srt_tally_def)
qed

lemma srt_Observe_foreign: "srt_Decode data = None \<Longrightarrow> srt_Observe d data v = Some v"
  by (simp add: srt_Observe_def)

interpretation srt_obs: wire_observer "\<lambda>(d, data). srt_Observe d data" "\<lambda>(d, data). srt_Decode data \<noteq> None"
  "\<lambda>(d, data). d = 0 \<or> d = 1" "\<lambda>(d, data). map_option (Pair d) (srt_Decode data)" srt_tally
proof (unfold_locales, goal_cases)
  case (1 i v)
  then show ?case by (cases i) (simp add: srt_Observe_foreign)
next
  case (2 h v i)
  obtain d data where i: "i = (d, data)" by force
  show ?case using 2 srt_Observe_tally [OF 2(1), of data _ d]
    by (cases "srt_Decode data") (simp_all add: i srt_Observe_foreign)
qed

lemma srt_observe_all_tally:
  "srt_tally h v \<Longrightarrow> list_all (\<lambda>(d, b). d = 0 \<or> d = 1) ps \<Longrightarrow>
   \<exists>v'. srt_observe_all ps v = Some v' \<and> srt_tally (h @ decoded ps) v'"
  unfolding decoded_def by (rule srt_obs.run_tallies)

end
