(* ===== verification/SrtOracle.thy ===== *)
theory SrtOracle
  imports Grade SrtWire
begin

text \<open>
  \<^verbatim>\<open>oracle/oracle.go\<close>, the SRT oracle: six checks over the run accounting and the wire
  observation. The lemmas give the verdict of every check, when a run passes, and that
  delivering more messages never makes the verdict worse.
\<close>

record srt_input = grade_input +
  si_Obs :: srt_observation

definition arqEngagedUnderLoss :: "platform \<Rightarrow> srt_input \<Rightarrow> check" where
  "arqEngagedUnderLoss pf inp =
     (let name = ''arq-engaged-under-loss'';
          reqs = ct_RetransReqs (so_Counters (si_Obs inp));
          resent = ct_Retransmitted (so_Counters (si_Obs inp));
          dropped = uint (gi_RelayDropped inp);
          delivered = gi_DeliveredMsgs inp; sent = gi_SentMsgs inp
      in if \<not> gi_LossInjected inp then Checkf name Pass ''n/a (no loss injected)'' []
      else if gi_Opaque inp then
        (if reqs > 0 \<and> resent > 0 then
           Checkf name Pass ''ARQ active: %d NAK(s), %d retransmit(s) (opaque SUT; delivery not measured)''
             [Num reqs, Num resent]
         else if gi_RelayDropped inp = 0 then
           Checkf name Pass ''no packets dropped on the wire (loss profile did not bite this run)'' []
         else
           Checkf name Warn ''no ARQ activity under wire loss (%d dropped): %d NAK(s), %d retransmit(s)''
             [Num dropped, Num reqs, Num resent])
      else if sent = 0 then Checkf name Pass ''n/a (no messages sent)'' []
      else
        let arq = reqs > 0 \<and> resent > 0;
            incomplete = delivered < to_int64 pf (fmul (fof_int sent) (Fin (1 / 2)));
            noActivity = reqs = 0 \<and> resent = 0
        in if arq \<and> delivered > 0 then
             Checkf name Pass ''ARQ recovered: %d NAK(s), %d retransmit(s), delivered %d/%d''
               [Num reqs, Num resent, Num delivered, Num sent]
           else if noActivity \<and> incomplete then
             Checkf name Fail ''no ARQ activity and delivery incomplete (%d/%d) under loss''
               [Num delivered, Num sent]
           else if noActivity then
             Checkf name Warn ''no ARQ activity observed under loss (no NAKs, no retransmits)'' []
           else
             Checkf name Warn ''partial ARQ activity under loss: %d NAK(s), %d retransmit(s), delivered %d/%d''
               [Num reqs, Num resent, Num delivered, Num sent])"

definition ackMonotonic :: "srt_input \<Rightarrow> check" where
  "ackMonotonic inp =
     (if so_AckMonotonic (si_Obs inp)
      then Checkf ''ack-monotonic'' Pass ''ACK sequence non-decreasing (max ack %d)''
        [Num (uint (so_MaxAckSeq (si_Obs inp)))]
      else Checkf ''ack-monotonic'' Fail ''ACK sequence went backwards'' [])"

definition srt_Evaluate :: "platform \<Rightarrow> srt_input \<Rightarrow> check list" where
  "srt_Evaluate pf inp =
     [Presence ''handshake-completed'' (so_Handshakes (si_Obs inp)) (gi_SentMsgs inp > 0 \<or> gi_Opaque inp)
        ''%d handshake packet(s) observed''
        ''connection never established (no handshake observed despite a connection attempt)''
        (''no handshake and no messages sent '' @ dash @ '' run produced no evidence''),
      DeliveryIntegrity inp,
      DeliveryComplete inp,
      arqEngagedUnderLoss pf inp,
      ackMonotonic inp,
      Feedback ''ack-activity'' (so_ACKs (si_Obs inp))
        ''%d ACK(s) observed''
        (''no ACKs observed '' @ dash @ '' connection may not have carried data'')]"

definition srt_ResultFor :: "platform \<Rightarrow> srt_input \<Rightarrow> run_result" where
  "srt_ResultFor pf inp = grade_Result inp (srt_Evaluate pf inp)"

section \<open>Verdicts\<close>

text \<open>Half of a message count, the floating-point way, is integer division.\<close>

lemma to_int64_half:
  assumes "0 \<le> n" "n < 2 ^ 53"
  shows "to_int64 pf (fmul (fof_int n) (Fin (1 / 2))) = n div 2"
proof -
  have r: "representable (of_int n / 2)" unfolding representable_def
    using assms by (intro exI [of _ n] exI [of _ "- 1"]) (simp add: power_int_minus)
  have f: "\<lfloor>(of_int n :: rat) / 2\<rfloor> = n div 2"
    using floor_divide_of_int_eq [of n 2, where 'a = rat] by simp
  have t: "trunc_rat (of_int n / 2) = n div 2" using assms f by (simp add: trunc_rat_def)
  have "0 \<le> n div 2" "n div 2 \<le> n" using assms by auto
  then have i: "in64 (n div 2)" using assms by (simp add: in64_def)
  show ?thesis using assms r by (simp add: fof_int_exact fround_representable t i)
qed

lemma arq_verdict:
  assumes "0 \<le> gi_SentMsgs inp" "gi_SentMsgs inp < 2 ^ 53"
  shows "ck_Verdict (arqEngagedUnderLoss pf inp) =
    (let reqs = ct_RetransReqs (so_Counters (si_Obs inp)); resent = ct_Retransmitted (so_Counters (si_Obs inp));
         arq = reqs > 0 \<and> resent > 0
     in if \<not> gi_LossInjected inp then Pass
        else if gi_Opaque inp then (if arq \<or> gi_RelayDropped inp = 0 then Pass else Warn)
        else if gi_SentMsgs inp = 0 \<or> arq \<and> gi_DeliveredMsgs inp > 0 then Pass
        else if reqs = 0 \<and> resent = 0 \<and> gi_DeliveredMsgs inp < gi_SentMsgs inp div 2 then Fail
        else Warn)"
  using assms to_int64_half by (simp add: arqEngagedUnderLoss_def Let_def)

lemma ackMonotonic_verdict:
  "ck_Verdict (ackMonotonic inp) = (if so_AckMonotonic (si_Obs inp) then Pass else Fail)"
  by (simp add: ackMonotonic_def)

lemma srt_ResultFor_Verdict:
  "result_Verdict (srt_ResultFor pf inp) = worst_of Pass (srt_Evaluate pf inp)"
  by (simp add: result_Verdict_def srt_ResultFor_def grade_Result_def)

lemma srt_passes_without_loss:
  assumes "\<not> gi_LossInjected inp" "\<not> gi_Opaque inp"
  shows "result_Verdict (srt_ResultFor pf inp) = Pass \<longleftrightarrow>
    so_Handshakes (si_Obs inp) > 0 \<and> gi_CorruptMsgs inp = 0 \<and> gi_DeliveredMsgs inp \<ge> gi_SentMsgs inp \<and>
    so_AckMonotonic (si_Obs inp) \<and> so_ACKs (si_Obs inp) > 0"
proof -
  have a: "ck_Verdict (arqEngagedUnderLoss pf inp) = Pass"
    using assms(1) by (simp add: arqEngagedUnderLoss_def Let_def)
  show ?thesis
    unfolding srt_ResultFor_Verdict worst_of_Pass_iff
    using assms a by (auto simp: srt_Evaluate_def grader_verdicts ackMonotonic_verdict)
qed

lemma srt_verdict_mono:
  assumes "d \<le> d'" "0 \<le> gi_SentMsgs inp" "gi_SentMsgs inp < 2 ^ 53"
  shows "result_Verdict (srt_ResultFor pf (inp\<lparr>gi_DeliveredMsgs := d'\<rparr>)) \<le>
    result_Verdict (srt_ResultFor pf (inp\<lparr>gi_DeliveredMsgs := d\<rparr>))"
proof -
  have arq: "ck_Verdict (arqEngagedUnderLoss pf (inp\<lparr>gi_DeliveredMsgs := d'\<rparr>)) \<le>
      ck_Verdict (arqEngagedUnderLoss pf (inp\<lparr>gi_DeliveredMsgs := d\<rparr>))"
    using assms by (subst (1 2) arq_verdict) (auto simp: Let_def less_eq_verdict_def)
  show ?thesis
    unfolding srt_ResultFor_Verdict
    by (rule worst_of_mono [OF _ order_refl])
       (use assms(1) arq in \<open>auto simp: srt_Evaluate_def grader_verdicts ackMonotonic_verdict less_eq_verdict_def\<close>)
qed

end
