(* ===== verification/RistWire.thy ===== *)
theory RistWire
  imports WireObs GoBytes
begin

text \<open>
  \<^verbatim>\<open>ristwire/\<close>: the passive RTP/RTCP decoder (\<^verbatim>\<open>decode.go\<close>), its DTLS sniff, and the
  observer (\<^verbatim>\<open>observer.go\<close>). The lemmas show which sequence numbers a generic NACK
  names, that headers round-trip, what the observer's retransmission count means
  (packets minus distinct sequence numbers), and that its gap count is the number of
  missing sequence numbers of a stream that wraps round.
\<close>

section \<open>Packets\<close>

definition RTCPSenderReport :: byte where "RTCPSenderReport = 200"
definition RTCPReceiverReport :: byte where "RTCPReceiverReport = 201"
definition RTCPRTPFB :: byte where "RTCPRTPFB = 205"

record rist_pkt =
  rp_IsRTCP :: bool
  rp_Seq :: uint16
  rp_Timestamp :: uint32
  rp_SSRC :: uint32
  rp_PayloadType :: byte
  rp_NackSeqs :: "uint16 list"

definition zero_rist_pkt :: rist_pkt where
  "zero_rist_pkt = \<lparr>rp_IsRTCP = False, rp_Seq = 0, rp_Timestamp = 0, rp_SSRC = 0,
     rp_PayloadType = 0, rp_NackSeqs = []\<rparr>"

section \<open>Decoding\<close>

definition rtpHeaderLen :: nat where "rtpHeaderLen = 12"
definition rtcpHeaderLen :: nat where "rtcpHeaderLen = 8"
definition rtcpPTLow :: byte where "rtcpPTLow = 192"
definition rtcpPTHigh :: byte where "rtcpPTHigh = 223"
definition fmtGenericNACK :: byte where "fmtGenericNACK = 1"

definition dtlsHandshake :: byte where "dtlsHandshake = 0x16"
definition dtlsAppData :: byte where "dtlsAppData = 0x17"
definition dtlsChangeCS :: byte where "dtlsChangeCS = 0x14"
definition dtlsAlert :: byte where "dtlsAlert = 0x15"
definition dtlsVersionMajor :: byte where "dtlsVersionMajor = 0xFE"

lemmas rist_const_defs = RTCPSenderReport_def RTCPReceiverReport_def RTCPRTPFB_def
  rtpHeaderLen_def rtcpHeaderLen_def rtcpPTLow_def rtcpPTHigh_def fmtGenericNACK_def
lemmas dtls_defs = dtlsHandshake_def dtlsAppData_def dtlsChangeCS_def dtlsAlert_def
  dtlsVersionMajor_def

definition rist_LooksEncrypted :: "bytes \<Rightarrow> bool" where
  "rist_LooksEncrypted data =
     (if length data < 3 then False
      else if data ! 0 \<in> {dtlsHandshake, dtlsAppData, dtlsChangeCS, dtlsAlert}
        then data ! 1 = dtlsVersionMajor
      else False)"

text \<open>One entry: the packet id, and the ids its mask flags.\<close>

definition fci_seqs :: "uint16 \<Rightarrow> uint16 \<Rightarrow> uint16 list" where
  "fci_seqs pid blp =
     pid # map (\<lambda>i. pid + of_nat i + 1) (filter (\<lambda>i. blp AND push_bit i 1 \<noteq> 0) [0..<16])"

fun fci_list :: "bytes \<Rightarrow> uint16 list" where
  "fci_list (a # b # c # d # rest) = fci_seqs (be16 a b) (be16 c d) @ fci_list rest"
| "fci_list _ = []"

definition parseGenericNACK :: "bytes \<Rightarrow> uint16 list" where
  "parseGenericNACK data = (if length data < 12 + 4 then [] else fci_list (drop 12 data))"

definition decodeRTCP :: "bytes \<Rightarrow> rist_pkt option" where
  "decodeRTCP data =
     (if length data < rtcpHeaderLen then None
      else let pt = data ! 1;
               p = zero_rist_pkt\<lparr>rp_IsRTCP := True, rp_PayloadType := pt, rp_SSRC := uint32_at data 4\<rparr>
        in Some (if pt = RTCPRTPFB \<and> (data ! 0) AND 0x1f = fmtGenericNACK
             then p\<lparr>rp_NackSeqs := parseGenericNACK data\<rparr> else p))"

definition rist_Decode :: "bytes \<Rightarrow> rist_pkt option" where
  "rist_Decode data =
     (if length data < 2 then None
      else let pt = data ! 1 in
        if rtcpPTLow \<le> pt \<and> pt \<le> rtcpPTHigh then decodeRTCP data
        else if length data < rtpHeaderLen then None
        else Some (zero_rist_pkt\<lparr>rp_PayloadType := pt AND 0x7f, rp_Seq := uint16_at data 2,
               rp_Timestamp := uint32_at data 4, rp_SSRC := uint32_at data 8\<rparr>))"

section \<open>The observer\<close>

record rist_observation =
  ro_Counters :: "uint16 counters"
  ro_SenderReports :: int64
  ro_ReceiverReports :: int64
  ro_SeqGaps :: int64
  ro_SSRCs :: "uint32 set"
  ro_MaxSeq :: uint16
  ro_SeqSeen :: bool

record rist_observer =
  rv_obs :: rist_observation
  rv_seen :: "uint16 set"

definition rist_NewObserver :: rist_observer where
  "rist_NewObserver =
     \<lparr>rv_obs = \<lparr>ro_Counters = NewCounters, ro_SenderReports = 0, ro_ReceiverReports = 0,
        ro_SeqGaps = 0, ro_SSRCs = {}, ro_MaxSeq = 0, ro_SeqSeen = False\<rparr>,
      rv_seen = {}\<rparr>"

definition recordSeq :: "uint16 \<Rightarrow> rist_observer \<Rightarrow> rist_observer" where
  "recordSeq sq v =
     (let ob = rv_obs v in
      if sq \<in> rv_seen v then v\<lparr>rv_obs := ob\<lparr>ro_Counters := ct_Retransmit sq (ro_Counters ob)\<rparr>\<rparr>
      else let v1 = v\<lparr>rv_seen := insert sq (rv_seen v)\<rparr> in
        if \<not> ro_SeqSeen ob then v1\<lparr>rv_obs := ob\<lparr>ro_SeqSeen := True, ro_MaxSeq := sq\<rparr>\<rparr>
        else let delta = sq - ro_MaxSeq ob in
          if delta \<noteq> 0 \<and> delta \<le> 0x8000
          then v1\<lparr>rv_obs := ob\<lparr>ro_SeqGaps := i64 (ro_SeqGaps ob + (int (unat delta) - 1)), ro_MaxSeq := sq\<rparr>\<rparr>
          else v1)"

definition rist_Observe :: "bytes \<Rightarrow> rist_observer \<Rightarrow> rist_observer" where
  "rist_Observe data v =
     (case rist_Decode data of None \<Rightarrow> v
      | Some p \<Rightarrow>
         let ob = (rv_obs v)\<lparr>ro_SSRCs := insert (rp_SSRC p) (ro_SSRCs (rv_obs v))\<rparr> in
         if rp_IsRTCP p then
           let ob1 = ob\<lparr>ro_Counters := ct_Control (ro_Counters ob)\<rparr>; pt = rp_PayloadType p
           in v\<lparr>rv_obs :=
                (if pt = RTCPSenderReport then ob1\<lparr>ro_SenderReports := i64 (ro_SenderReports ob1 + 1)\<rparr>
                 else if pt = RTCPReceiverReport then ob1\<lparr>ro_ReceiverReports := i64 (ro_ReceiverReports ob1 + 1)\<rparr>
                 else if pt = RTCPRTPFB then ob1\<lparr>ro_Counters := ct_Request (rp_NackSeqs p) (ro_Counters ob1)\<rparr>
                 else ob1)\<rparr>
         else recordSeq (rp_Seq p) (v\<lparr>rv_obs := ob\<lparr>ro_Counters := ct_Data (ro_Counters ob)\<rparr>\<rparr>))"

definition rist_observe_all :: "bytes list \<Rightarrow> rist_observer \<Rightarrow> rist_observer" where
  "rist_observe_all = fold rist_Observe"

section \<open>Retransmission requests\<close>

definition nack_packet :: "byte \<Rightarrow> uint16 \<Rightarrow> uint32 \<Rightarrow> uint32 \<Rightarrow> (uint16 \<times> uint16) list \<Rightarrow> bytes" where
  "nack_packet b0 len16 ssrc media fcis =
     [b0, RTCPRTPFB] @ put16 len16 @ put32 ssrc @ put32 media @
     concat (map (\<lambda>(pid, blp). put16 pid @ put16 blp) fcis)"

lemma set_fci_seqs:
  "set (fci_seqs pid blp) = insert pid {pid + of_nat i + 1 |i. i < 16 \<and> bit blp i}"
proof -
  have "blp AND push_bit i 1 \<noteq> 0 \<longleftrightarrow> bit blp i" for i
    using and_exp_eq_0_iff_not_bit [of blp i] by (simp add: push_bit_eq_mult)
  then show ?thesis by (auto simp: fci_seqs_def)
qed

lemma fci_list_encode:
  "fci_list (concat (map (\<lambda>(pid, blp). put16 pid @ put16 blp) fcis)) =
   concat (map (\<lambda>(pid, blp). fci_seqs pid blp) fcis)"
  by (induction fcis) (auto simp: put16_def be16_put)

lemma rist_Decode_nack:
  assumes "b0 AND 0x1f = 1"
  shows "rist_Decode (nack_packet b0 len16 ssrc media fcis) =
    Some (zero_rist_pkt\<lparr>rp_IsRTCP := True, rp_PayloadType := RTCPRTPFB, rp_SSRC := ssrc,
      rp_NackSeqs := concat (map (\<lambda>(pid, blp). fci_seqs pid blp) fcis)\<rparr>)"
proof -
  let ?p = "nack_packet b0 len16 ssrc media fcis"
  have l: "\<not> length ?p < 2" "\<not> length ?p < rtcpHeaderLen" "\<not> length ?p < rtpHeaderLen"
    by (simp_all add: nack_packet_def rist_const_defs)
  have h: "?p ! 0 = b0" "?p ! 1 = RTCPRTPFB" by (simp_all add: nack_packet_def)
  have s: "uint32_at ?p 4 = ssrc"
    by (simp add: nack_packet_def uint32_at_def put16_def put32_def be32_put)
  have d: "drop 12 ?p = concat (map (\<lambda>(pid, blp). put16 pid @ put16 blp) fcis)"
    by (simp add: nack_packet_def put16_def put32_def)
  have "length ?p < 12 + 4 \<longleftrightarrow> fcis = []"
    by (cases fcis) (auto simp: nack_packet_def)
  then have n: "parseGenericNACK ?p = concat (map (\<lambda>(pid, blp). fci_seqs pid blp) fcis)"
    unfolding parseGenericNACK_def d by (auto simp: fci_list_encode)
  have r: "rtcpPTLow \<le> RTCPRTPFB \<and> RTCPRTPFB \<le> rtcpPTHigh" by (simp add: rist_const_defs)
  have f: "RTCPRTPFB = RTCPRTPFB \<and> b0 AND 0x1f = fmtGenericNACK"
    using assms by (simp add: rist_const_defs)
  show ?thesis
    unfolding rist_Decode_def decodeRTCP_def if_not_P [OF l(1)] if_not_P [OF l(2)] Let_def h s n
      if_P [OF r] if_P [OF f] by simp
qed

section \<open>Headers\<close>

definition rtp_packet :: "byte \<Rightarrow> byte \<Rightarrow> uint16 \<Rightarrow> uint32 \<Rightarrow> uint32 \<Rightarrow> bytes \<Rightarrow> bytes" where
  "rtp_packet b0 b1 sq ts ssrc payload = [b0, b1] @ put16 sq @ put32 ts @ put32 ssrc @ payload"

lemma rist_Decode_rtp:
  assumes "b1 < 192 \<or> 223 < b1"
  shows "rist_Decode (rtp_packet b0 b1 sq ts ssrc payload) =
    Some (zero_rist_pkt\<lparr>rp_PayloadType := b1 AND 0x7f, rp_Seq := sq, rp_Timestamp := ts, rp_SSRC := ssrc\<rparr>)"
proof -
  let ?p = "rtp_packet b0 b1 sq ts ssrc payload"
  have f: "uint16_at ?p 2 = sq" "uint32_at ?p 4 = ts" "uint32_at ?p 8 = ssrc" "?p ! 1 = b1"
    by (simp_all add: rtp_packet_def uint16_at_def uint32_at_def put16_def put32_def be16_put be32_put)
  have l: "\<not> length ?p < 2" "\<not> length ?p < rtpHeaderLen" by (simp_all add: rtp_packet_def rist_const_defs)
  have r: "\<not> (rtcpPTLow \<le> b1 \<and> b1 \<le> rtcpPTHigh)" using assms by (auto simp: rist_const_defs)
  show ?thesis unfolding rist_Decode_def if_not_P [OF l(1)] if_not_P [OF l(2)] Let_def f if_not_P [OF r] ..
qed

text \<open>An RTP or RTCP packet, whose first byte carries the version bits, never looks encrypted.\<close>

lemma rist_LooksEncrypted_version:
  assumes "rist_LooksEncrypted data"
  shows "3 \<le> length data \<and> 20 \<le> data ! 0 \<and> data ! 0 \<le> 23 \<and> data ! 1 = 0xFE"
  using assms by (auto simp: rist_LooksEncrypted_def dtls_defs not_less split: if_splits)

section \<open>What the observer has tallied\<close>

text \<open>The media sequence numbers of a stream of datagrams, in the order they passed.\<close>

definition rtp_seq :: "bytes \<Rightarrow> uint16 option" where
  "rtp_seq data = (case rist_Decode data of None \<Rightarrow> None
     | Some p \<Rightarrow> if rp_IsRTCP p then None else Some (rp_Seq p))"

definition rtp_seqs :: "bytes list \<Rightarrow> uint16 list" where
  "rtp_seqs = List.map_filter rtp_seq"

text \<open>A stream that only moves forward, by less than half the sequence space a step and less
  than the whole of it altogether; the numbers are the unwrapped ones.\<close>

definition forward :: "int list \<Rightarrow> bool" where
  "forward es \<longleftrightarrow> successively (\<lambda>a b. a < b \<and> b \<le> a + 32768) es \<and> last es - hd es < 65536"

definition gap_tally :: "uint16 list \<Rightarrow> bool \<Rightarrow> uint16 \<Rightarrow> int64 \<Rightarrow> bool" where
  "gap_tally h seen mx gaps \<longleftrightarrow> (if h = [] then \<not> seen \<and> gaps = 0 else seen) \<and>
     (\<forall>e es. h = map of_int (e # es) \<longrightarrow> forward (e # es) \<longrightarrow>
        mx = of_int (last (e # es)) \<and> gaps = last (e # es) - e - int (length es))"

definition rist_tally :: "uint16 list \<Rightarrow> rist_observer \<Rightarrow> bool" where
  "rist_tally h v \<longleftrightarrow> rv_seen v = set h \<and>
     ct_DataPackets (ro_Counters (rv_obs v)) = i64 (int (length h)) \<and>
     ct_Retransmitted (ro_Counters (rv_obs v)) = i64 (int (length h) - int (card (set h))) \<and>
     ct_RetransSeqs (ro_Counters (rv_obs v)) = {s. 2 \<le> count_list h s} \<and>
     gap_tally h (ro_SeqSeen (rv_obs v)) (ro_MaxSeq (rv_obs v)) (ro_SeqGaps (rv_obs v))"

lemma forward_sorted: "forward es \<Longrightarrow> sorted_wrt (<) es"
proof -
  assume "forward es"
  then have "successively (<) es" unfolding forward_def by (auto elim: successively_mono)
  then show ?thesis by (simp add: successively_conv_sorted_wrt)
qed

lemma forward_snoc: "forward (es @ [x]) \<Longrightarrow> es \<noteq> [] \<Longrightarrow> forward es \<and> last es < x \<and> x \<le> last es + 32768"
  by (auto simp: forward_def successively_append_iff)

lemma forward_window:
  assumes "forward (es @ [x])" "e \<in> set es"
  shows "e < x \<and> x - e < 65536"
proof -
  have s: "sorted_wrt (<) (es @ [x])" using assms(1) by (rule forward_sorted)
  have lt: "e < x" using s assms(2) by (auto simp: sorted_wrt_append)
  obtain a as where es: "es = a # as" using assms(2) by (cases es) auto
  have "a \<le> e" using s es assms(2) by auto
  moreover have "x - a < 65536" using assms(1) es by (simp add: forward_def)
  ultimately show ?thesis using lt by simp
qed

lemma word16_of_int_inj: "(of_int x :: uint16) = of_int e \<Longrightarrow> e \<le> x \<Longrightarrow> x - e < 65536 \<Longrightarrow> x = e"
proof -
  assume a: "(of_int x :: uint16) = of_int e" "e \<le> x" "x - e < 65536"
  then have "x mod 65536 = e mod 65536" by (simp add: word_of_int_eq_iff take_bit_eq_mod)
  then have "65536 dvd x - e" by (simp add: mod_eq_dvd_iff)
  then show ?thesis using a zdvd_imp_le [of 65536 "x - e"] by (cases "x = e") auto
qed

lemma unat_forward: "0 \<le> d \<Longrightarrow> d < 65536 \<Longrightarrow> int (unat (of_int d :: uint16)) = d"
  by (simp add: uint_nat [symmetric] take_bit_int_eq_self uint_word_of_int_eq)

lemma card_insert_seq: "int (card (insert s (set h))) = int (card (set h)) + (if s \<in> set h then 0 else 1)"
  by (simp add: card_insert_if)

lemma gap_tally_again:
  assumes a: "sq \<in> set h" "gap_tally h seen mx gaps"
  shows "gap_tally (h @ [sq]) seen mx gaps"
proof -
  have "\<not> forward (e # es)" if "h @ [sq] = map of_int (e # es)" for e es
  proof
    assume f: "forward (e # es)"
    obtain es' x where es: "e # es = es' @ [x]" by (metis append_butlast_last_id list.distinct(1))
    then have "h = map of_int es'" "sq = of_int x" using that by auto
    then obtain y where y: "y \<in> set es'" "sq = of_int y" using a(1) by auto
    then have "y < x \<and> x - y < 65536" using forward_window f es by metis
    then show False using word16_of_int_inj [of x y] y \<open>sq = of_int x\<close> by auto
  qed
  moreover have "h \<noteq> []" using a(1) by auto
  ultimately show ?thesis using a by (auto simp: gap_tally_def)
qed

lemma gap_tally_first: "gap_tally [sq] True sq 0"
  by (auto simp: gap_tally_def)

lemma gap_tally_next:
  assumes "gap_tally h seen mx gaps" "h \<noteq> []" "h @ [sq] = map of_int (e # es)" "forward (e # es)"
  shows "\<exists>m. es \<noteq> [] \<and> mx = of_int m \<and> gaps = m - e - int (length es - 1) \<and>
    sq = of_int (last es) \<and> m < last es \<and> last es \<le> m + 32768"
proof -
  obtain es' x where es: "es = es' @ [x]"
    using assms(2,3) by (cases es rule: rev_cases) auto
  have h: "h = map of_int (e # es')" "sq = of_int x" using assms(3) es by auto
  have f: "forward (e # es') \<and> last (e # es') < x \<and> x \<le> last (e # es') + 32768"
    using forward_snoc [of "e # es'" x] assms(4) es by simp
  then have "mx = of_int (last (e # es')) \<and> gaps = last (e # es') - e - int (length es')"
    using assms(1) h(1) by (simp add: gap_tally_def)
  then show ?thesis using es h(2) f by (intro exI [of _ "last (e # es')"]) simp
qed

lemma forward_length:
  "successively (\<lambda>a b. a < b \<and> b \<le> a + 32768) (e # es) \<Longrightarrow> int (length es) \<le> last (e # es) - e"
proof (induction es arbitrary: e)
  case (Cons x es)
  then have "int (length es) \<le> last (x # es) - x" "e < x" by (simp_all add: successively_Cons)
  then show ?case by simp
qed simp

text \<open>A fresh sequence number opens the gap between the newest one and itself.\<close>

lemma gap_tally_fresh:
  assumes g: "gap_tally h True mx gaps"
  shows "if sq - mx \<noteq> 0 \<and> sq - mx \<le> 0x8000
    then gap_tally (h @ [sq]) True sq (i64 (gaps + (int (unat (sq - mx)) - 1)))
    else gap_tally (h @ [sq]) True mx gaps"
proof -
  have h: "h \<noteq> []" using g by (auto simp: gap_tally_def)
  have "sq - mx \<noteq> 0 \<and> sq - mx \<le> 0x8000 \<and> sq = of_int (last (e # es)) \<and>
    i64 (gaps + (int (unat (sq - mx)) - 1)) = last (e # es) - e - int (length es)"
    if es: "h @ [sq] = map of_int (e # es)" "forward (e # es)" for e es
  proof -
    obtain m where m: "es \<noteq> []" "mx = of_int m" "gaps = m - e - int (length es - 1)"
      "sq = of_int (last es)" "m < last es" "last es \<le> m + 32768"
      using gap_tally_next [OF g h es] by blast
    define d where "d = last es - m"
    have d: "0 < d" "d \<le> 32768" using m d_def by auto
    have delta: "sq - mx = of_int d" using m by (simp add: d_def)
    have u: "int (unat (of_int d :: uint16)) = d" by (rule unat_forward) (use d in auto)
    have nz: "of_int d \<noteq> (0 :: uint16)"
    proof
      assume "of_int d = (0 :: uint16)"
      then have "int (unat (of_int d :: uint16)) = 0" by (simp only: unat_0 of_nat_0)
      then show False using u d by linarith
    qed
    have "unat (of_int d :: uint16) \<le> 32768" using u d by linarith
    then have le: "of_int d \<le> (0x8000 :: uint16)" by (simp only: word_le_nat_alt unat_numeral) simp
    have sum: "gaps + (d - 1) = last es - e - int (length es)"
      using m(1,3) by (cases es) (simp_all add: d_def)
    have w: "last es - e < 65536" using es(2) m(1) by (simp add: forward_def)
    have "int (length es) \<le> last es - e" using forward_length [of e es] es(2) m(1) by (simp add: forward_def)
    then have "i64 (gaps + (d - 1)) = last es - e - int (length es)"
      unfolding sum using w by (intro i64_id) (simp add: in64_def)
    then show ?thesis unfolding delta u using nz le m by simp
  qed
  then show ?thesis using h unfolding gap_tally_def by auto
qed

lemma rist_tally_new: "rist_tally [] rist_NewObserver"
  by (simp add: rist_tally_def rist_NewObserver_def NewCounters_def gap_tally_def)

lemma recordSeq_tally:
  assumes v: "rist_tally h v" and ob: "ob = (rv_obs v)\<lparr>ro_SSRCs := S\<rparr>"
  shows "rist_tally (h @ [sq])
    (recordSeq sq (v\<lparr>rv_obs := ob\<lparr>ro_Counters := ct_Data (ro_Counters ob)\<rparr>\<rparr>))"
proof (cases "sq \<in> set h")
  case True
  have "{s. 2 \<le> count_list (h @ [sq]) s} = insert sq {s. 2 \<le> count_list h s}"
    using True count_list_0_iff [of h sq] by (auto simp: Suc_le_eq)
  then show ?thesis using v True gap_tally_again
    by (auto simp: rist_tally_def recordSeq_def ct_defs ob i64_add_wrap insert_absorb algebra_simps)
next
  case new: False
  have counts: "{s. 2 \<le> count_list (h @ [sq]) s} = {s. 2 \<le> count_list h s}"
    using new count_list_0_iff [of h sq] by auto
  have g: "gap_tally h (ro_SeqSeen (rv_obs v)) (ro_MaxSeq (rv_obs v)) (ro_SeqGaps (rv_obs v))"
    using v by (simp add: rist_tally_def)
  show ?thesis
  proof (cases "ro_SeqSeen (rv_obs v)")
    case True
    then have "gap_tally h True (ro_MaxSeq (rv_obs v)) (ro_SeqGaps (rv_obs v))" using g by simp
    then show ?thesis using True v new counts gap_tally_fresh [of h "ro_MaxSeq (rv_obs v)" "ro_SeqGaps (rv_obs v)" sq]
      by (auto simp add: rist_tally_def recordSeq_def ct_defs ob i64_add_wrap Let_def algebra_simps split: if_splits)
  next
    case False
    then have "h = [] \<and> ro_SeqGaps (rv_obs v) = 0" using g by (auto simp: gap_tally_def split: if_splits)
    then show ?thesis using v counts False gap_tally_first
      by (simp add: rist_tally_def recordSeq_def ct_defs ob)
  qed
qed

lemma rist_Observe_tally:
  assumes v: "rist_tally h v"
  shows "rist_tally (h @ (case rtp_seq data of None \<Rightarrow> [] | Some sq \<Rightarrow> [sq])) (rist_Observe data v)"
proof (cases "rist_Decode data")
  case None
  then show ?thesis using v by (simp add: rtp_seq_def rist_Observe_def)
next
  case (Some p)
  show ?thesis
  proof (cases "rp_IsRTCP p")
    case True
    then show ?thesis using v Some
      by (simp add: rtp_seq_def rist_Observe_def Let_def rist_tally_def ct_Control_def ct_Request_def)
  next
    case False
    then show ?thesis using recordSeq_tally [OF v refl] Some
      by (simp add: rtp_seq_def rist_Observe_def Let_def)
  qed
qed

lemma rist_Observe_foreign: "rist_Decode data = None \<Longrightarrow> rist_Observe data v = v"
  by (simp add: rist_Observe_def)

interpretation rist_obs: wire_observer "\<lambda>data v. Some (rist_Observe data v)" "\<lambda>data. rist_Decode data \<noteq> None"
  "\<lambda>_. True" rtp_seq rist_tally
  by unfold_locales (simp_all add: rist_Observe_tally rist_Observe_foreign)

lemma rist_observe_all_run: "observe_run (\<lambda>data v. Some (rist_Observe data v)) ps v = Some (rist_observe_all ps v)"
  by (induction ps arbitrary: v) (simp_all add: rist_observe_all_def)

lemma rist_observe_all_tally:
  "rist_tally h v \<Longrightarrow> rist_tally (h @ rtp_seqs ps) (rist_observe_all ps v)"
  using rist_obs.run_tallies [of h v ps] by (simp add: rist_observe_all_run rtp_seqs_def list_all_iff)

text \<open>The gaps of a forward stream are exactly the sequence numbers that never passed.\<close>

lemma forward_missing:
  assumes "forward (e # es)"
  shows "int (card ({e..last (e # es)} - set (e # es))) = last (e # es) - e - int (length es)"
proof -
  have s: "sorted_wrt (<) (e # es)" using assms by (rule forward_sorted)
  have d: "card (set (e # es)) = Suc (length es)"
    using s strict_sorted_iff distinct_card by fastforce
  have sub: "set (e # es) \<subseteq> {e..last (e # es)}"
  proof
    fix x assume x: "x \<in> set (e # es)"
    have "x \<le> last (e # es)" using s x
      by (induction es arbitrary: e) (auto simp: last_ConsR dest: order.strict_trans2)
    then show "x \<in> {e..last (e # es)}" using s x by auto
  qed
  have "e \<le> last (e # es)" using sub by auto
  then show ?thesis using card_Diff_subset [OF finite_set sub] card_mono [OF _ sub] d by simp
qed

text \<open>A loss-free stream of consecutive numbers repeats itself after \<open>2 ^ 16\<close> of them.\<close>

lemma consecutive_distinct:
  "card (set (map (\<lambda>i. of_nat i :: uint16) [0..<n])) = min n 65536"
proof -
  have "set (map (\<lambda>i. of_nat i :: uint16) [0..<n]) = (of_nat :: nat \<Rightarrow> uint16) ` {..<min n 65536}"
  proof
    show "set (map (\<lambda>i. of_nat i :: uint16) [0..<n]) \<subseteq> of_nat ` {..<min n 65536}"
    proof
      fix x :: uint16 assume "x \<in> set (map of_nat [0..<n])"
      then obtain i where i: "i < n" "x = of_nat i" by auto
      have "(of_nat i :: uint16) = of_nat (i mod 65536)"
        by (simp add: word_of_nat_eq_iff take_bit_eq_mod)
      then show "x \<in> of_nat ` {..<min n 65536}"
        using i by (intro image_eqI [of _ _ "i mod 65536"]) (auto intro: le_less_trans [OF mod_less_eq_dividend])
    qed
  qed auto
  moreover have "inj_on (of_nat :: nat \<Rightarrow> uint16) {..<min n 65536}"
    by (rule inj_onI) (simp add: word_of_nat_eq_iff take_bit_eq_mod)
  ultimately show ?thesis by (simp add: card_image)
qed

end
