(* ===== verification/RistOracle.thy ===== *)
theory RistOracle
  imports Grade RistWire
begin

text \<open>
  \<^verbatim>\<open>ristoracle/ristoracle.go\<close>, the RIST oracle: five checks over the run accounting and
  the wire observation, with the verdict of every check, when a run passes, and that
  delivering more messages never makes the verdict worse.
\<close>

record rist_input = grade_input +
  ri_Obs :: rist_observation

definition retransmitUnderLoss :: "rist_input \<Rightarrow> check" where
  "retransmitUnderLoss inp =
     (let name = ''retransmit-under-loss'';
          reqs = ct_RetransReqs (ro_Counters (ri_Obs inp));
          resent = ct_Retransmitted (ro_Counters (ri_Obs inp));
          dropped = uint (gi_RelayDropped inp);
          delivered = gi_DeliveredMsgs inp; sent = gi_SentMsgs inp
      in if \<not> gi_LossInjected inp then Checkf name Pass ''n/a (no loss)'' []
      else
        let arq = resent > 0; noActivity = resent = 0
        in if arq then
             Checkf name Pass ''RIST ARQ engaged: %d retransmit(s) observed (%d RFC-4585 NACK(s))''
               [Num resent, Num reqs]
           else if gi_RelayDropped inp = 0 then
             Checkf name Pass ''loss profile did not bite (no packets dropped on the wire)'' []
           else if noActivity \<and> \<not> gi_Opaque inp \<and> delivered < go_div sent 2 then
             Checkf name Fail ''no ARQ activity and delivery incomplete (%d/%d) under loss (%d dropped)''
               [Num delivered, Num sent, Num dropped]
           else
             Checkf name Warn ''partial/no ARQ activity under loss (%d dropped): %d NACK(s), %d retransmit(s)''
               [Num dropped, Num reqs, Num resent])"

definition rist_Evaluate :: "rist_input \<Rightarrow> check list" where
  "rist_Evaluate inp =
     [Presence ''rtp-flow'' (ct_DataPackets (ro_Counters (ri_Obs inp))) (gi_SentMsgs inp > 0 \<or> gi_Opaque inp)
        ''%d RTP packet(s) observed (media flowed)''
        ''no RTP observed despite a connection attempt''
        (''no RTP and no messages sent '' @ dash @ '' run produced no evidence''),
      DeliveryIntegrity inp,
      DeliveryComplete inp,
      retransmitUnderLoss inp,
      Feedback ''rtcp-activity'' (ct_ControlPackets (ro_Counters (ri_Obs inp)))
        ''%d RTCP packet(s) observed''
        ''no RTCP feedback observed'']"

definition rist_ResultFor :: "rist_input \<Rightarrow> run_result" where
  "rist_ResultFor inp = grade_Result inp (rist_Evaluate inp)"

section \<open>Verdicts\<close>

lemma retransmit_verdict:
  "ck_Verdict (retransmitUnderLoss inp) =
    (let resent = ct_Retransmitted (ro_Counters (ri_Obs inp))
     in if \<not> gi_LossInjected inp \<or> resent > 0 \<or> gi_RelayDropped inp = 0 then Pass
        else if resent = 0 \<and> \<not> gi_Opaque inp \<and> gi_DeliveredMsgs inp < go_div (gi_SentMsgs inp) 2 then Fail
        else Warn)"
  by (simp add: retransmitUnderLoss_def Let_def)

lemma rist_ResultFor_Verdict:
  "result_Verdict (rist_ResultFor inp) = worst_of Pass (rist_Evaluate inp)"
  by (simp add: result_Verdict_def rist_ResultFor_def grade_Result_def)

text \<open>Under loss, a run passes only if its media flowed, it delivered nothing corrupt, and,
  where the relay dropped anything, retransmissions were seen.\<close>

lemma rist_passes_under_loss:
  assumes "gi_LossInjected inp"
  shows "result_Verdict (rist_ResultFor inp) = Pass \<longleftrightarrow>
    ct_DataPackets (ro_Counters (ri_Obs inp)) > 0 \<and> ct_ControlPackets (ro_Counters (ri_Obs inp)) > 0 \<and>
    (gi_Opaque inp \<or> gi_CorruptMsgs inp = 0) \<and>
    (gi_RelayDropped inp \<noteq> 0 \<longrightarrow> ct_Retransmitted (ro_Counters (ri_Obs inp)) > 0)"
  unfolding rist_ResultFor_Verdict worst_of_Pass_iff
  using assms by (auto simp: rist_Evaluate_def grader_verdicts retransmit_verdict Let_def)

lemma rist_verdict_mono:
  assumes "d \<le> d'"
  shows "result_Verdict (rist_ResultFor (inp\<lparr>gi_DeliveredMsgs := d'\<rparr>)) \<le>
    result_Verdict (rist_ResultFor (inp\<lparr>gi_DeliveredMsgs := d\<rparr>))"
proof -
  have arq: "ck_Verdict (retransmitUnderLoss (inp\<lparr>gi_DeliveredMsgs := d'\<rparr>)) \<le>
      ck_Verdict (retransmitUnderLoss (inp\<lparr>gi_DeliveredMsgs := d\<rparr>))"
    using assms by (auto simp: retransmit_verdict Let_def less_eq_verdict_def)
  show ?thesis
    unfolding rist_ResultFor_Verdict
    by (rule worst_of_mono [OF _ order_refl])
       (use assms arq in \<open>auto simp: rist_Evaluate_def grader_verdicts less_eq_verdict_def\<close>)
qed

end
