(* ===== verification/Fec.thy ===== *)
theory Fec
  imports Result
begin

text \<open>
  \<^verbatim>\<open>fec/fec.go\<close>: the ST 2022-1 recoverability model and its oracle. The lemmas show that
  the decoder partitions the losses of the block, that what it leaves is the largest
  stopping set (so the decode order does not matter), that a burst no longer than a row is
  recovered, and what the oracle's verdicts mean.
\<close>

section \<open>The matrix\<close>

record fec_matrix =
  fm_L :: int64
  fm_D :: int64
  fm_TwoD :: bool

definition fec_Block :: "fec_matrix \<Rightarrow> int64" where
  "fec_Block m = i64 (fm_L m * fm_D m)"

definition fec_col :: "fec_matrix \<Rightarrow> int64 \<Rightarrow> int64" where
  "fec_col m i = go_mod i (fm_L m)"

definition fec_row :: "fec_matrix \<Rightarrow> int64 \<Rightarrow> int64" where
  "fec_row m i = go_div i (fm_L m)"

definition fec_Valid :: "fec_matrix \<Rightarrow> bool" where
  "fec_Valid m \<longleftrightarrow> fm_L m > 0 \<and> fm_D m > 0"

section \<open>Recover\<close>

text \<open>The map \<^verbatim>\<open>out\<close> used as a set is its ascending list of keys: the source takes the
  smallest candidate whatever order the map iterates in. The two count maps are
  functions that are 0 where the map has no entry; a count is at most the number of
  losses, so it cannot wrap. Where \<open>fm_L m = 0\<close> no index is in the block and nothing is
  divided.\<close>

record recover_state =
  rc_out :: "int64 list"
  rc_col :: "int64 \<Rightarrow> int"
  rc_row :: "int64 \<Rightarrow> int"
  rc_recovered :: "int64 list"

definition in_block :: "fec_matrix \<Rightarrow> int64 \<Rightarrow> bool" where
  "in_block m i \<longleftrightarrow> i \<ge> 0 \<and> i < fec_Block m"

definition count_line :: "(int64 \<Rightarrow> int64) \<Rightarrow> int64 list \<Rightarrow> int64 \<Rightarrow> int" where
  "count_line line is = fold (\<lambda>i f. f(line i := f (line i) + 1)) is (\<lambda>_. 0)"

definition recover_init :: "fec_matrix \<Rightarrow> int64 list \<Rightarrow> recover_state" where
  "recover_init m lost =
     (let out = sort (remdups (filter (in_block m) lost))
      in \<lparr>rc_out = out, rc_col = count_line (fec_col m) out, rc_row = count_line (fec_row m) out,
          rc_recovered = []\<rparr>)"

definition recover_next :: "fec_matrix \<Rightarrow> recover_state \<Rightarrow> int64 option" where
  "recover_next m s =
     find (\<lambda>i. rc_col s (fec_col m i) = 1 \<or> fm_TwoD m \<and> rc_row s (fec_row m i) = 1) (rc_out s)"

definition recover_one :: "fec_matrix \<Rightarrow> int64 \<Rightarrow> recover_state \<Rightarrow> recover_state" where
  "recover_one m i s = s\<lparr>rc_out := remove1 i (rc_out s),
     rc_col := (rc_col s)(fec_col m i := rc_col s (fec_col m i) - 1),
     rc_row := (rc_row s)(fec_row m i := rc_row s (fec_row m i) - 1),
     rc_recovered := rc_recovered s @ [i]\<rparr>"

lemma find_Some_in: "find P xs = Some x \<Longrightarrow> x \<in> set xs \<and> P x"
  by (induction xs) (auto split: if_splits)

function recover_loop :: "fec_matrix \<Rightarrow> recover_state \<Rightarrow> recover_state" where
  "recover_loop m s = (case recover_next m s of None \<Rightarrow> s | Some i \<Rightarrow> recover_loop m (recover_one m i s))"
  by pat_completeness auto
termination
proof (relation "measure (\<lambda>(m, s). length (rc_out s))")
  fix m s i assume "recover_next m s = Some i"
  then have i: "i \<in> set (rc_out s)" unfolding recover_next_def by (auto dest: find_Some_in)
  then have "0 < length (rc_out s)" by (rule length_pos_if_in_set)
  then have "length (remove1 i (rc_out s)) < length (rc_out s)"
    using i by (simp add: length_remove1)
  then show "((m, recover_one m i s), (m, s)) \<in> measure (\<lambda>(m, s). length (rc_out s))"
    by (simp add: recover_one_def)
qed simp

declare recover_loop.simps [simp del]

definition Recover :: "fec_matrix \<Rightarrow> int64 list \<Rightarrow> int64 list \<times> int64 list" where
  "Recover m lost =
     (let s = recover_loop m (recover_init m lost) in (sort (rc_recovered s), sort (rc_out s)))"

section \<open>What Recover computes\<close>

text \<open>A set of losses none of which is alone in a line that is protected.\<close>

definition stopping :: "fec_matrix \<Rightarrow> int64 set \<Rightarrow> bool" where
  "stopping m S \<longleftrightarrow> (\<forall>i\<in>S. (\<exists>j\<in>S. j \<noteq> i \<and> fec_col m j = fec_col m i) \<and>
     (fm_TwoD m \<longrightarrow> (\<exists>j\<in>S. j \<noteq> i \<and> fec_row m j = fec_row m i)))"

definition counts_line :: "(int64 \<Rightarrow> int64) \<Rightarrow> int64 set \<Rightarrow> (int64 \<Rightarrow> int) \<Rightarrow> bool" where
  "counts_line line S f \<longleftrightarrow> (\<forall>c. f c = int (card {i \<in> S. line i = c}))"

definition recover_inv :: "fec_matrix \<Rightarrow> recover_state \<Rightarrow> bool" where
  "recover_inv m s \<longleftrightarrow> distinct (rc_out s) \<and> sorted (rc_out s) \<and>
     counts_line (fec_col m) (set (rc_out s)) (rc_col s) \<and>
     counts_line (fec_row m) (set (rc_out s)) (rc_row s)"

lemma counts_line_insert:
  assumes "counts_line line S f" "i \<notin> S" "finite S"
  shows "counts_line line (insert i S) (f(line i := f (line i) + 1))"
proof -
  have e: "{j \<in> insert i S. line j = line i} = insert i {j \<in> S. line j = line i}" by auto
  have n: "{j \<in> insert i S. line j = c} = {j \<in> S. line j = c}" if "c \<noteq> line i" for c using that by auto
  show ?thesis using assms e n by (simp add: counts_line_def)
qed

lemma counts_line_remove:
  assumes "counts_line line S f" "i \<in> S" "finite S"
  shows "counts_line line (S - {i}) (f(line i := f (line i) - 1))"
proof -
  have e: "{j \<in> S. line j = line i} = insert i {j \<in> S - {i}. line j = line i}" using assms(2) by auto
  have n: "{j \<in> S - {i}. line j = c} = {j \<in> S. line j = c}" if "c \<noteq> line i" for c using that by auto
  have "card {j \<in> S. line j = line i} = Suc (card {j \<in> S - {i}. line j = line i})"
    unfolding e using assms(3) by simp
  then show ?thesis using assms n by (simp add: counts_line_def)
qed

lemma count_line_counts:
  "distinct is \<Longrightarrow> finite S \<Longrightarrow> S \<inter> set is = {} \<Longrightarrow> counts_line line S f \<Longrightarrow>
   counts_line line (S \<union> set is) (fold (\<lambda>i f. f(line i := f (line i) + 1)) is f)"
proof (induction "is" arbitrary: S f)
  case (Cons i "is")
  then have "counts_line line (insert i S) (f(line i := f (line i) + 1))"
    by (intro counts_line_insert) auto
  then have "counts_line line (insert i S \<union> set is)
    (fold (\<lambda>i f. f(line i := f (line i) + 1)) is (f(line i := f (line i) + 1)))"
    using Cons.prems by (intro Cons.IH) (auto simp del: fun_upd_apply)
  then show ?case by (simp del: fun_upd_apply)
qed simp

lemma recover_inv_init: "recover_inv m (recover_init m lost)"
proof -
  have "counts_line line {} (\<lambda>_. 0)" for line by (simp add: counts_line_def)
  then show ?thesis
    using count_line_counts [of "sort (remdups (filter (in_block m) lost))" "{}" _ "\<lambda>_. 0"]
    by (simp add: recover_inv_def recover_init_def count_line_def Let_def)
qed

lemma recover_inv_one:
  assumes "recover_inv m s" "i \<in> set (rc_out s)"
  shows "recover_inv m (recover_one m i s)"
  using assms counts_line_remove
  by (auto simp: recover_inv_def recover_one_def set_remove1_eq sorted_remove1)

lemma alone_in_line:
  assumes "counts_line line S f" "finite S" "i \<in> S"
  shows "f (line i) = 1 \<longleftrightarrow> \<not> (\<exists>j\<in>S. j \<noteq> i \<and> line j = line i)"
proof -
  let ?L = "{j \<in> S. line j = line i}"
  have "i \<in> ?L" using assms(3) by simp
  then have "card ?L = 1 \<longleftrightarrow> ?L = {i}"
  proof (intro iffI)
    assume "card ?L = 1"
    then obtain x where x: "?L = {x}" by (rule card_1_singletonE)
    then have "i = x" using \<open>i \<in> ?L\<close> by (simp only: singleton_iff)
    then show "?L = {i}" using x by simp
  next
    assume "?L = {i}"
    then show "card ?L = 1" by (simp only: card.insert finite.emptyI empty_iff card.empty if_False not_False_eq_True)
  qed
  also have "\<dots> \<longleftrightarrow> \<not> (\<exists>j\<in>S. j \<noteq> i \<and> line j = line i)" using assms(3) by auto
  finally show ?thesis using assms(1) by (simp add: counts_line_def)
qed

lemma recover_next_Some:
  assumes "recover_inv m s" "recover_next m s = Some i"
  shows "i \<in> set (rc_out s)"
    "\<not> (\<exists>j\<in>set (rc_out s). j \<noteq> i \<and> fec_col m j = fec_col m i) \<or>
     fm_TwoD m \<and> \<not> (\<exists>j\<in>set (rc_out s). j \<noteq> i \<and> fec_row m j = fec_row m i)"
proof -
  have f: "i \<in> set (rc_out s) \<and> (rc_col s (fec_col m i) = 1 \<or> fm_TwoD m \<and> rc_row s (fec_row m i) = 1)"
    using assms(2) unfolding recover_next_def by (rule find_Some_in)
  then show i: "i \<in> set (rc_out s)" by simp
  show "\<not> (\<exists>j\<in>set (rc_out s). j \<noteq> i \<and> fec_col m j = fec_col m i) \<or>
     fm_TwoD m \<and> \<not> (\<exists>j\<in>set (rc_out s). j \<noteq> i \<and> fec_row m j = fec_row m i)"
    using f assms(1) alone_in_line [OF _ _ i, of "fec_col m"] alone_in_line [OF _ _ i, of "fec_row m"]
    by (auto simp: recover_inv_def)
qed

lemma recover_next_None:
  assumes "recover_inv m s" "recover_next m s = None"
  shows "stopping m (set (rc_out s))"
proof -
  have n: "rc_col s (fec_col m i) \<noteq> 1" "fm_TwoD m \<Longrightarrow> rc_row s (fec_row m i) \<noteq> 1"
    if "i \<in> set (rc_out s)" for i
    using assms(2) that by (auto simp: recover_next_def find_None_iff)
  show ?thesis unfolding stopping_def
    using n assms(1) alone_in_line [of "fec_col m"] alone_in_line [of "fec_row m"]
    unfolding recover_inv_def by blast
qed

text \<open>The loop keeps the losses it started from, ends at a stopping set, and never takes a
  loss out of a stopping set.\<close>

lemma recover_loop_spec:
  "recover_inv m s \<Longrightarrow> distinct (rc_recovered s) \<Longrightarrow> set (rc_recovered s) \<inter> set (rc_out s) = {} \<Longrightarrow>
   let s' = recover_loop m s in
     recover_inv m s' \<and> stopping m (set (rc_out s')) \<and> distinct (rc_recovered s') \<and>
     set (rc_recovered s') \<inter> set (rc_out s') = {} \<and>
     set (rc_recovered s') \<union> set (rc_out s') = set (rc_recovered s) \<union> set (rc_out s) \<and>
     (\<forall>T. stopping m T \<longrightarrow> T \<subseteq> set (rc_out s) \<longrightarrow> T \<subseteq> set (rc_out s'))"
proof (induction m s rule: recover_loop.induct)
  case (1 m s)
  show ?case
  proof (cases "recover_next m s")
    case None
    then show ?thesis using 1 recover_next_None
      by (subst recover_loop.simps) (auto simp: Let_def)
  next
    case (Some i)
    note i = recover_next_Some [OF 1(2) Some]
    have inv: "recover_inv m (recover_one m i s)" using recover_inv_one [OF 1(2) i(1)] .
    have d: "distinct (rc_out s)" using 1(2) by (simp add: recover_inv_def)
    have out: "set (rc_out (recover_one m i s)) = set (rc_out s) - {i}"
      "rc_recovered (recover_one m i s) = rc_recovered s @ [i]"
      using d by (simp_all add: recover_one_def set_remove1_eq)
    have keep: "T \<subseteq> set (rc_out s) - {i}" if "stopping m T" "T \<subseteq> set (rc_out s)" for T
    proof -
      have "i \<notin> T" using that i(2) unfolding stopping_def by blast
      then show ?thesis using that(2) by blast
    qed
    have rec: "distinct (rc_recovered (recover_one m i s))"
      "set (rc_recovered (recover_one m i s)) \<inter> set (rc_out (recover_one m i s)) = {}"
      using 1(3,4) i(1) by (auto simp: out)
    have loop: "recover_loop m s = recover_loop m (recover_one m i s)"
      using Some by (simp add: recover_loop.simps [of m s])
    show ?thesis
      using 1(1) [OF Some inv rec] keep i(1) unfolding loop Let_def out by auto
  qed
qed

lemma Recover_spec:
  assumes "Recover m lost = (rec, res)"
  shows "sorted rec" "sorted res" "distinct rec" "distinct res"
    "set rec \<inter> set res = {}" "set rec \<union> set res = {i \<in> set lost. in_block m i}"
    "stopping m (set res)"
    "stopping m T \<Longrightarrow> T \<subseteq> {i \<in> set lost. in_block m i} \<Longrightarrow> T \<subseteq> set res"
proof -
  let ?s = "recover_loop m (recover_init m lost)"
  have out: "set (rc_out (recover_init m lost)) = {i \<in> set lost. in_block m i}"
    "rc_recovered (recover_init m lost) = []"
    by (auto simp: recover_init_def Let_def)
  have r: "rec = sort (rc_recovered ?s)" "res = sort (rc_out ?s)"
    using assms by (auto simp: Recover_def Let_def)
  note spec = recover_loop_spec [OF recover_inv_init [of m lost], unfolded Let_def out, simplified]
  show "sorted rec" "sorted res" by (simp_all add: r)
  show "distinct rec" "distinct res" using spec by (simp_all add: r recover_inv_def)
  show "set rec \<inter> set res = {}" "set rec \<union> set res = {i \<in> set lost. in_block m i}"
    "stopping m (set res)" using spec by (auto simp: r)
  show "T \<subseteq> set res" if "stopping m T" "T \<subseteq> {i \<in> set lost. in_block m i}"
    using spec that by (auto simp: r)
qed

text \<open>The result is determined by the losses as a set, whatever order they are listed in.\<close>

lemma Recover_unique:
  assumes "Recover m lost = (rec, res)" "S = {i \<in> set lost. in_block m i}"
    and "stopping m R" "R \<subseteq> S" "\<And>T. stopping m T \<Longrightarrow> T \<subseteq> S \<Longrightarrow> T \<subseteq> R"
  shows "res = sorted_list_of_set R" "rec = sorted_list_of_set (S - R)"
proof -
  note spec = Recover_spec [OF assms(1)]
  have "set res \<subseteq> S" using spec(6) assms(2) by blast
  then have eq: "set res = R" using assms(3-5) spec(7,8) assms(2) by (metis subset_antisym)
  then show "res = sorted_list_of_set R" using spec(2,4) by (metis sorted_list_of_set.idem_if_sorted_distinct)
  have "set rec = S - R" using spec(5,6) eq assms(2) by blast
  then show "rec = sorted_list_of_set (S - R)"
    using spec(1,3) by (metis sorted_list_of_set.idem_if_sorted_distinct)
qed

text \<open>A loss alone in its column is recovered; so is a burst no longer than a row.\<close>

lemma Recover_all:
  assumes "Recover m lost = (rec, res)"
    and "\<And>i j. i \<in> set lost \<Longrightarrow> j \<in> set lost \<Longrightarrow> in_block m i \<Longrightarrow> in_block m j \<Longrightarrow>
      fec_col m i = fec_col m j \<Longrightarrow> i = j"
  shows "res = []"
proof -
  note spec = Recover_spec [OF assms(1)]
  have "set res = {}"
  proof (rule ccontr)
    assume "set res \<noteq> {}"
    then obtain i where i: "i \<in> set res" by (cases res) auto
    then obtain j where "j \<in> set res" "j \<noteq> i" "fec_col m j = fec_col m i"
      using spec(7) unfolding stopping_def by blast
    then show False using assms(2) [of j i] i spec(6) by blast
  qed
  then show ?thesis by simp
qed

lemma fec_col_burst:
  assumes "fm_L m > 0" "a \<ge> 0" "i \<in> {a..<a + fm_L m}" "j \<in> {a..<a + fm_L m}" "fec_col m i = fec_col m j"
  shows "i = j"
proof -
  have "i mod fm_L m = j mod fm_L m"
    using assms by (simp add: fec_col_def go_mod_nonneg)
  then have "fm_L m dvd i - j" by (simp add: mod_eq_dvd_iff)
  moreover have "\<bar>i - j\<bar> < fm_L m" using assms(3,4) by auto
  ultimately show ?thesis using dvd_imp_le_int [of "i - j" "fm_L m"] assms(1) by (cases "i = j") auto
qed

section \<open>The oracle\<close>

record fec_input =
  fe_Lib :: string
  fe_Scenario :: string
  fe_Matrix :: fec_matrix
  fe_Total :: int64
  fe_Lost :: "int64 list"
  fe_Delivered :: int64
  fe_ClaimedFEC :: int64
  fe_ARQIsolated :: bool
  fe_Metrics :: metrics

definition fec_dim :: "bool \<Rightarrow> string" where
  "fec_dim twoD = (if twoD then ''2-D'' else ''1-D'')"

definition fec_claim :: "int64 \<Rightarrow> string" where
  "fec_claim c = (if c < 0 then ''n/a'' else sprintf ''%d'' [Num c])"

definition countInBlock :: "fec_matrix \<Rightarrow> int64 list \<Rightarrow> int64" where
  "countInBlock m lost = i64 (int (length (filter (in_block m) lost)))"

definition mk_check :: "string \<Rightarrow> verdict \<Rightarrow> string \<Rightarrow> check" where
  "mk_check name v detail = \<lparr>ck_Name = name, ck_Verdict = v, ck_Detail = detail\<rparr>"

definition fecProtected :: "fec_input \<Rightarrow> check" where
  "fecProtected inp =
     (let m = fe_Matrix inp; c = mk_check ''fec-protected'' in
      if \<not> fec_Valid m then c Fail (sprintf ''invalid FEC matrix L=%d D=%d'' [Num (fm_L m), Num (fm_D m)])
      else if fe_Total inp > 0 then
        c Pass (sprintf ''%dx%d %s FEC over %d media packet(s)''
          [Num (fm_L m), Num (fm_D m), Str (fec_dim (fm_TwoD m)), Num (fe_Total inp)])
      else c Error (''no media '' @ dash @ '' run produced no evidence''))"

definition fecRecoverySound :: "fec_input \<Rightarrow> int64 \<Rightarrow> int64 \<Rightarrow> check" where
  "fecRecoverySound inp recoverable residual =
     (let c = mk_check ''fec-recovery-sound'' in
      if fe_ClaimedFEC inp \<ge> 0 \<and> fe_ClaimedFEC inp > recoverable then
        c Fail (sprintf ''implementation claims %d FEC recoveries but the matrix allows at most %d for this droplist (over-reported)''
          [Num (fe_ClaimedFEC inp), Num recoverable])
      else let ceiling = i64 (fe_Total inp - residual) in
        if fe_ARQIsolated inp \<and> fe_Delivered inp > ceiling then
          c Fail (sprintf (''delivered %d/%d with ARQ isolated, but FEC can recover at most to %d (%d residual unrecoverable) ''
              @ dash @ '' recovered %d packet(s) FEC cannot explain'')
            [Num (fe_Delivered inp), Num (fe_Total inp), Num ceiling, Num residual,
             Num (i64 (fe_Delivered inp - ceiling))])
        else
          c Pass (sprintf ''no over-recovery: %d recoverable, %d residual; delivered %d/%d, claimed %s''
            [Num recoverable, Num residual, Num (fe_Delivered inp), Num (fe_Total inp),
             Str (fec_claim (fe_ClaimedFEC inp))]))"

definition fecRecoveryEffective :: "fec_input \<Rightarrow> int64 \<Rightarrow> int64 \<Rightarrow> check" where
  "fecRecoveryEffective inp recoverable residual =
     (let c = mk_check ''fec-recovery-effective'' in
      if recoverable = 0 then c Pass ''n/a (no recoverable loss to recover)''
      else let ceiling = i64 (fe_Total inp - residual) in
        if fe_Delivered inp \<ge> ceiling then
          c Pass (sprintf ''FEC recovered the full recoverable set: delivered %d/%d (%d recovered, %d residual)''
            [Num (fe_Delivered inp), Num (fe_Total inp), Num recoverable, Num residual])
        else
          c Warn (sprintf (''FEC under-recovered: delivered %d/%d, FEC ceiling %d ''
              @ dash @ '' %d recoverable loss(es) not delivered'')
            [Num (fe_Delivered inp), Num (fe_Total inp), Num ceiling, Num (i64 (ceiling - fe_Delivered inp))]))"

definition fecActive :: "fec_input \<Rightarrow> int64 \<Rightarrow> check" where
  "fecActive inp recoverable =
     (let n = countInBlock (fe_Matrix inp) (fe_Lost inp) in
      mk_check ''fec-active'' Pass
        (if n > 0 then sprintf ''%d loss(es) in the FEC block; %d recoverable'' [Num n, Num recoverable]
         else ''no loss in the FEC block (recovery not exercised)''))"

definition fec_Evaluate :: "fec_input \<Rightarrow> check list" where
  "fec_Evaluate inp =
     (case Recover (fe_Matrix inp) (fe_Lost inp) of (recovered, residual) \<Rightarrow>
        [fecProtected inp,
         fecRecoverySound inp (int (length recovered)) (int (length residual)),
         fecRecoveryEffective inp (int (length recovered)) (int (length residual)),
         fecActive inp (int (length recovered))])"

definition fec_ResultFor :: "fec_input \<Rightarrow> run_result" where
  "fec_ResultFor inp = \<lparr>rs_Lib = fe_Lib inp, rs_Scenario = fe_Scenario inp,
     rs_Checks = fec_Evaluate inp, rs_Metrics = fe_Metrics inp, rs_Err = []\<rparr>"

lemma mk_check_verdict [simp]: "ck_Verdict (mk_check n v d) = v"
  by (simp add: mk_check_def)

lemmas fec_grader_defs = fecProtected_def fecRecoverySound_def fecRecoveryEffective_def fecActive_def

text \<open>Which runs the oracle fails, for a stream whose size fits its counters: those over an
  unusable matrix, those that claim more recoveries than the losses allow, and, with
  retransmission isolated, those that deliver more than the stopping set leaves possible.\<close>

lemma fec_fails_iff:
  assumes "Recover (fe_Matrix inp) (fe_Lost inp) = (rec, res)"
    and "0 < fe_Total inp" "in64 (fe_Total inp)" "int (length res) \<le> fe_Total inp"
  shows "result_Verdict (fec_ResultFor inp) = Fail \<longleftrightarrow>
    \<not> fec_Valid (fe_Matrix inp) \<or> fe_ClaimedFEC inp > int (length rec) \<or>
    (fe_ARQIsolated inp \<and> fe_Delivered inp > fe_Total inp - int (length res))"
proof -
  have i: "i64 (fe_Total inp - int (length res)) = fe_Total inp - int (length res)"
    using assms(2-4) by (intro i64_id) (simp add: in64_def)
  show ?thesis using assms(1,2)
    by (auto simp: result_Verdict_def fec_ResultFor_def fec_Evaluate_def fec_grader_defs worst_of_def
        i Let_def less_verdict_def)
qed

lemma fec_passes_iff:
  assumes "Recover (fe_Matrix inp) (fe_Lost inp) = (rec, res)"
    and "0 < fe_Total inp" "in64 (fe_Total inp)" "int (length res) \<le> fe_Total inp"
  shows "result_Verdict (fec_ResultFor inp) = Pass \<longleftrightarrow>
    fec_Valid (fe_Matrix inp) \<and> fe_ClaimedFEC inp \<le> int (length rec) \<and>
    (fe_ARQIsolated inp \<longrightarrow> fe_Delivered inp \<le> fe_Total inp - int (length res)) \<and>
    (rec \<noteq> [] \<longrightarrow> fe_Total inp - int (length res) \<le> fe_Delivered inp)"
proof -
  have i: "i64 (fe_Total inp - int (length res)) = fe_Total inp - int (length res)"
    using assms(2-4) by (intro i64_id) (simp add: in64_def)
  show ?thesis using assms(1,2)
    by (auto simp: result_Verdict_def fec_ResultFor_def fec_Evaluate_def fec_grader_defs worst_of_def
        i Let_def less_verdict_def)
qed

end
