(* ===== verification/WireProperties.thy ===== *)
theory WireProperties
  imports SrtOracle RistOracle Fec
begin

text \<open>
  The properties of the wire decoders and observers, of the oracles that judge what they
  saw, of the verdict roll-up, and of the FEC model.
\<close>

section \<open>SRT on the wire\<close>

text \<open>Data packets round-trip: for every 31-bit sequence number, message number, position,
  order, key and retransmit field, timestamp, socket id and payload, decoding the packet a
  sender would write gives back its number, its retransmit flag and its key field.\<close>

theorem srt_data_roundtrip:
  assumes "sq < 0x80000000" "ord < 2" "kk < 4" "r < 2" "msg < 2 ^ 26"
  shows "srt_Decode (data_packet sq (data_word1 pp ord kk r msg) ts sock payload) =
    Some (zero_pkt\<lparr>p_Seq := sq, p_Retrans := (r \<noteq> 0), p_KK := ucast kk\<rparr>)"
  using assms by (rule srt_Decode_data)

theorem srt_data_roundtrip_witness:
  "srt_Decode (data_packet 77 (data_word1 3 0 2 1 5) 9 1 [1, 2, 3]) =
    Some (zero_pkt\<lparr>p_Seq := 77, p_Retrans := True, p_KK := 2\<rparr>)"
  using srt_data_roundtrip [of 77 0 2 1 5 3 9 1 "[1, 2, 3]"] by simp

text \<open>Loss reports round-trip: decoding a NAK that lists single losses and inclusive
  ranges, in any number and order, expands to exactly the numbers they name.\<close>

theorem srt_nak_roundtrip:
  assumes "list_all nak_valid es"
  shows "srt_Decode (control_packet CtrlNAK st w1 ts sock (concat (map nak_encode es))) =
    Some (zero_pkt\<lparr>p_IsControl := True, p_ControlType := CtrlNAK, p_NakSeqs := concat (map nak_expand es)\<rparr>)"
  using assms by (rule srt_Decode_nak)

theorem srt_nak_roundtrip_witness:
  "srt_Decode (control_packet CtrlNAK 0 0 0 0 (concat (map nak_encode [Lost 4, LostRange 7 9]))) =
    Some (zero_pkt\<lparr>p_IsControl := True, p_ControlType := CtrlNAK, p_NakSeqs := [4, 7, 8, 9]\<rparr>)"
  using srt_nak_roundtrip [of "[Lost 4, LostRange 7 9]" 0 0 0 0] by (simp add: upt_rec)

text \<open>C33. The acknowledgement check: over any datagrams of the two directions the observer
  never fails, its highest acknowledgement is the largest seen, and the oracle's check
  passes exactly when the acknowledgements of each direction were non-decreasing.\<close>

theorem ack_check_judges_order:
  assumes "list_all (\<lambda>(d, b). d = 0 \<or> d = 1) ps"
  shows "\<exists>v. srt_observe_all ps srt_NewObserver = Some v \<and>
    so_MaxAckSeq (sv_obs v) = fold max (all_acks (decoded ps)) 0 \<and>
    (\<forall>inp. si_Obs inp = sv_obs v \<longrightarrow>
      (ck_Verdict (ackMonotonic inp) = Pass \<longleftrightarrow> sorted (acks 0 (decoded ps)) \<and> sorted (acks 1 (decoded ps))))"
  using srt_observe_all_tally [OF srt_tally_new assms]
  by (auto simp: srt_tally_def ack_tally_def ackMonotonic_verdict)

text \<open>An acknowledgement datagram of a given number.\<close>

definition ack_packet :: "uint32 \<Rightarrow> bytes" where
  "ack_packet sq = control_packet CtrlACK 0 0 0 0 (put32 sq)"

lemma srt_Decode_ack:
  "srt_Decode (ack_packet sq) = Some (zero_pkt\<lparr>p_IsControl := True, p_ControlType := CtrlACK, p_AckSeq := sq\<rparr>)"
proof -
  let ?w = "0x80000000 OR push_bit 16 (ucast CtrlACK) OR ucast (0 :: uint16) :: uint32"
  have c: "?w AND 0x80000000 \<noteq> 0" "ucast (drop_bit 16 ?w AND 0x7FFF) = CtrlACK"
    using control_word0 [of CtrlACK 0] by (auto simp: CtrlACK_def)
  have u: "uint32_at (ack_packet sq) 0 = ?w" unfolding ack_packet_def control_packet_def by (rule uint32_at_put(1))
  have l: "length (ack_packet sq) = 20" by (simp add: ack_packet_def control_packet_def)
  have a: "uint32_at (ack_packet sq) headerLen = sq"
    by (simp add: ack_packet_def control_packet_def uint32_at_def headerLen_def put32_def be32_put)
  have h: "\<not> (20 :: nat) < headerLen" "headerLen + 4 \<le> 20" by (simp_all add: headerLen_def)
  show ?thesis unfolding srt_Decode_def l if_not_P [OF h(1)] Let_def u if_not_P [OF c(1)] c(2) a
    using h by simp
qed

theorem ack_check_judges_order_witness:
  "\<exists>v. srt_observe_all [(0, ack_packet 5), (1, ack_packet 2), (0, ack_packet 4)] srt_NewObserver = Some v \<and>
    so_MaxAckSeq (sv_obs v) = 5 \<and> (\<forall>inp. si_Obs inp = sv_obs v \<longrightarrow> ck_Verdict (ackMonotonic inp) \<noteq> Pass)"
proof -
  let ?ps = "[(0, ack_packet 5), (1, ack_packet 2), (0, ack_packet 4)] :: (direction \<times> bytes) list"
  have "decoded ?ps = [(0, zero_pkt\<lparr>p_IsControl := True, p_ControlType := CtrlACK, p_AckSeq := 5\<rparr>),
      (1, zero_pkt\<lparr>p_IsControl := True, p_ControlType := CtrlACK, p_AckSeq := 2\<rparr>),
      (0, zero_pkt\<lparr>p_IsControl := True, p_ControlType := CtrlACK, p_AckSeq := 4\<rparr>)]"
    by (simp add: decoded_def List.map_filter_simps srt_Decode_ack)
  then show ?thesis using ack_check_judges_order [of ?ps]
    by (auto simp: acks_def all_acks_def is_ack_def)
qed

section \<open>RIST on the wire\<close>

text \<open>Generic NACKs round-trip: an entry names its packet id and, for each bit set in its
  mask, the id that many places further on, modulo \<open>2 ^ 16\<close>; decoding a feedback packet with
  any entries yields the entries' numbers and the sender's source id.\<close>

theorem rist_nack_roundtrip:
  assumes "b0 AND 0x1f = 1"
  shows "\<exists>p. rist_Decode (nack_packet b0 len16 ssrc media fcis) = Some p \<and>
    rp_IsRTCP p \<and> rp_SSRC p = ssrc \<and>
    set (rp_NackSeqs p) = (\<Union>(pid, blp) \<in> set fcis. insert pid {pid + of_nat i + 1 |i. i < 16 \<and> bit blp i})"
  using rist_Decode_nack [OF assms] by (auto simp: set_fci_seqs)

theorem rist_nack_roundtrip_witness:
  "\<exists>p. rist_Decode (nack_packet 0x81 3 1 2 [(0xFFFF, 0), (7, 0)]) = Some p \<and>
    rp_SSRC p = 1 \<and> set (rp_NackSeqs p) = {0xFFFF, 7}"
  using rist_nack_roundtrip [of "0x81" 3 1 2 "[(0xFFFF, 0), (7, 0)]"] by auto

text \<open>C32. The gap count: when the sequence numbers of a stream only move forward, by less than
  half the sequence space at a time and less than the whole of it in all, wrapping round
  included, the observer's gap count is the number of sequence numbers that never passed.\<close>

theorem rist_gaps_are_missing_numbers:
  assumes "rtp_seqs ps = map of_int (e # es)" "forward (e # es)"
  shows "ro_SeqGaps (rv_obs (rist_observe_all ps rist_NewObserver)) =
    int (card ({e..last (e # es)} - set (e # es)))"
  using rist_observe_all_tally [OF rist_tally_new, of ps] assms forward_missing [OF assms(2)]
  by (simp add: rist_tally_def gap_tally_def)

definition media_packet :: "uint16 \<Rightarrow> bytes" where
  "media_packet sq = rtp_packet 0x80 33 sq 0 1 []"

lemma rtp_seq_media: "rtp_seq (media_packet sq) = Some sq"
  using rist_Decode_rtp [of 33 "0x80" sq 0 1 "[]"] by (simp add: rtp_seq_def media_packet_def zero_rist_pkt_def)

lemma rtp_seqs_media: "rtp_seqs (map media_packet sqs) = sqs"
  by (induction sqs) (simp_all add: rtp_seqs_def List.map_filter_simps rtp_seq_media)

theorem rist_gaps_are_missing_numbers_witness:
  "ro_SeqGaps (rv_obs (rist_observe_all (map media_packet [65534, 65535, 2]) rist_NewObserver)) = 2"
proof -
  have a: "rtp_seqs (map media_packet [65534, 65535, 2]) = map of_int (65534 # [65535, 65538])"
    unfolding rtp_seqs_media by simp
  have f: "forward (65534 # [65535, 65538])" by (simp add: forward_def)
  have m: "{65534..65538} - {65534, 65535, 65538} = {65536, 65537 :: int}" by auto
  have "int (card ({65534 :: int..last (65534 # [65535, 65538])} - set (65534 # [65535, 65538]))) = 2"
    unfolding last.simps list.set if_False list.distinct m by simp
  then show ?thesis using rist_gaps_are_missing_numbers [OF a f] by (simp only:)
qed

text \<open>The retransmission count is the number of media packets less the number of distinct
  sequence numbers among them, and the retransmitted numbers are those seen twice.\<close>

theorem rist_retransmissions_are_repeats:
  "ct_Retransmitted (ro_Counters (rv_obs (rist_observe_all ps rist_NewObserver))) =
     i64 (int (length (rtp_seqs ps)) - int (card (set (rtp_seqs ps)))) \<and>
   ct_RetransSeqs (ro_Counters (rv_obs (rist_observe_all ps rist_NewObserver))) =
     {s. 2 \<le> count_list (rtp_seqs ps) s}"
  using rist_observe_all_tally [OF rist_tally_new, of ps] by (simp add: rist_tally_def)

text \<open>Long streams: a stream in order without any loss or repetition is tallied as
  having retransmitted every packet after the first \<open>2 ^ 16\<close>.\<close>

theorem rist_long_stream_counts_retransmissions:
  "ct_Retransmitted (ro_Counters (rv_obs
     (rist_observe_all (map (media_packet \<circ> of_nat) [0..<65536 + k]) rist_NewObserver))) = i64 (int k)"
proof -
  have s: "rtp_seqs (map (media_packet \<circ> of_nat) [0..<65536 + k]) = map of_nat [0..<65536 + k]"
    using rtp_seqs_media [of "map of_nat [0..<65536 + k]"] by simp
  have c: "card (set (map (\<lambda>i. of_nat i :: uint16) [0..<65536 + k])) = 65536"
    unfolding consecutive_distinct by simp
  show ?thesis using rist_observe_all_tally [OF rist_tally_new, of "map (media_packet \<circ> of_nat) [0..<65536 + k]"]
    unfolding rist_tally_def append_Nil s c by simp
qed

section \<open>The oracles\<close>

text \<open>Without loss, a run of a measurable implementation passes the SRT oracle exactly
  when a handshake and an acknowledgement were seen, nothing was delivered corrupt or is
  missing, and the acknowledgements never went backwards.\<close>

theorem srt_oracle_without_loss:
  assumes "\<not> gi_LossInjected inp" "\<not> gi_Opaque inp"
  shows "result_Verdict (srt_ResultFor pf inp) = Pass \<longleftrightarrow>
    so_Handshakes (si_Obs inp) > 0 \<and> gi_CorruptMsgs inp = 0 \<and> gi_DeliveredMsgs inp \<ge> gi_SentMsgs inp \<and>
    so_AckMonotonic (si_Obs inp) \<and> so_ACKs (si_Obs inp) > 0"
  using assms by (rule srt_passes_without_loss)

definition demo_input :: srt_input where
  "demo_input = \<lparr>gi_Lib = ''srt'', gi_Scenario = ''clean'', gi_LossInjected = False, gi_SentMsgs = 10,
     gi_DeliveredMsgs = 9, gi_CorruptMsgs = 0, gi_RelayDropped = 0, gi_Opaque = False,
     gi_Metrics = \<lambda>_. None,
     si_Obs = (sv_obs srt_NewObserver)\<lparr>so_Handshakes := 2, so_ACKs := 4\<rparr>\<rparr>"

theorem srt_oracle_without_loss_witness:
  "result_Verdict (srt_ResultFor plain_platform demo_input) \<noteq> Pass \<and>
   result_Verdict (srt_ResultFor plain_platform (demo_input\<lparr>gi_DeliveredMsgs := 10\<rparr>)) = Pass"
  using srt_oracle_without_loss [of demo_input] srt_oracle_without_loss [of "demo_input\<lparr>gi_DeliveredMsgs := 10\<rparr>"]
  by (simp add: demo_input_def srt_NewObserver_def)

text \<open>Delivering more messages never makes the verdict of a run worse, whatever was
  observed and whatever loss was injected.\<close>

theorem srt_oracle_monotone:
  assumes "d \<le> d'" "0 \<le> gi_SentMsgs inp" "gi_SentMsgs inp < 2 ^ 53"
  shows "result_Verdict (srt_ResultFor pf (inp\<lparr>gi_DeliveredMsgs := d'\<rparr>)) \<le>
    result_Verdict (srt_ResultFor pf (inp\<lparr>gi_DeliveredMsgs := d\<rparr>))"
  using assms by (rule srt_verdict_mono)

theorem srt_oracle_monotone_witness:
  "result_Verdict (srt_ResultFor plain_platform (demo_input\<lparr>gi_DeliveredMsgs := 10\<rparr>)) \<le>
    result_Verdict (srt_ResultFor plain_platform (demo_input\<lparr>gi_DeliveredMsgs := 3\<rparr>))"
  using srt_oracle_monotone [of 3 10 demo_input] by (simp add: demo_input_def)

text \<open>Under injected loss, a run passes the RIST oracle exactly when media and feedback
  were seen, nothing was delivered corrupt (for a measurable implementation), and
  retransmissions were seen if the relay dropped anything.\<close>

theorem rist_oracle_under_loss:
  assumes "gi_LossInjected inp"
  shows "result_Verdict (rist_ResultFor inp) = Pass \<longleftrightarrow>
    ct_DataPackets (ro_Counters (ri_Obs inp)) > 0 \<and> ct_ControlPackets (ro_Counters (ri_Obs inp)) > 0 \<and>
    (gi_Opaque inp \<or> gi_CorruptMsgs inp = 0) \<and>
    (gi_RelayDropped inp \<noteq> 0 \<longrightarrow> ct_Retransmitted (ro_Counters (ri_Obs inp)) > 0)"
  using assms by (rule rist_passes_under_loss)

definition demo_rist_input :: rist_input where
  "demo_rist_input = \<lparr>gi_Lib = ''rist'', gi_Scenario = ''burst'', gi_LossInjected = True, gi_SentMsgs = 10,
     gi_DeliveredMsgs = 3, gi_CorruptMsgs = 0, gi_RelayDropped = 7, gi_Opaque = False,
     gi_Metrics = \<lambda>_. None,
     ri_Obs = (rv_obs rist_NewObserver)\<lparr>ro_Counters := \<lparr>ct_DataPackets = 3, ct_ControlPackets = 1,
       ct_RetransReqs = 0, ct_Retransmitted = 0, ct_ReqSeqs = {}, ct_RetransSeqs = {}\<rparr>\<rparr>\<rparr>"

theorem rist_oracle_under_loss_witness:
  "result_Verdict (rist_ResultFor demo_rist_input) \<noteq> Pass"
  using rist_oracle_under_loss [of demo_rist_input]
  by (simp add: demo_rist_input_def rist_NewObserver_def)

text \<open>The roll-up of a run is \<open>Error\<close> if the run failed to run, and otherwise the most
  severe of its checks, \<open>Pass\<close> where it has none.\<close>

theorem verdict_is_the_worst_check:
  "result_Verdict r = (if rs_Err r \<noteq> [] then Error else Max (insert Pass (ck_Verdict ` set (rs_Checks r))))"
  by (rule result_Verdict_Max)

section \<open>FEC\<close>

text \<open>C4. The decoder partitions the losses of the block into recovered and residual ones,
  both sorted; the residual is the largest stopping set among the losses, one in which no
  loss is alone in a protected line, so the result is a function of the set of losses and
  not of the order they are decoded or listed in.\<close>

theorem fec_residual_is_largest_stopping_set:
  assumes "Recover m lost = (rec, res)"
  shows "sorted rec \<and> sorted res \<and> distinct (rec @ res) \<and>
    set rec \<union> set res = {i \<in> set lost. 0 \<le> i \<and> i < fec_Block m} \<and>
    stopping m (set res) \<and>
    (\<forall>T \<subseteq> {i \<in> set lost. 0 \<le> i \<and> i < fec_Block m}. stopping m T \<longrightarrow> T \<subseteq> set res)"
  using Recover_spec [OF assms] by (simp add: in_block_def)

definition demo_matrix :: fec_matrix where
  "demo_matrix = \<lparr>fm_L = 3, fm_D = 3, fm_TwoD = True\<rparr>"

theorem fec_residual_is_largest_stopping_set_witness:
  "Recover demo_matrix [4, 0, 1, 3, 8, 12] = ([8], [0, 1, 3, 4]) \<and> stopping demo_matrix {0, 1, 3, 4}"
proof -
  have r: "Recover demo_matrix [4, 0, 1, 3, 8, 12] = ([8], [0, 1, 3, 4])"
    by code_simp
  then show ?thesis using fec_residual_is_largest_stopping_set [OF r] by simp
qed

text \<open>Bursts: over a matrix with \<open>L\<close> columns, losing any stretch of at most \<open>L\<close> consecutive
  packets leaves no residual, with or without row parity.\<close>

theorem fec_recovers_bursts:
  assumes "Recover m lost = (rec, res)" "0 < fm_L m" "0 \<le> a" "set lost \<subseteq> {a..<a + fm_L m}"
  shows "res = []"
proof (rule Recover_all [OF assms(1)])
  fix i j assume "i \<in> set lost" "j \<in> set lost" "fec_col m i = fec_col m j"
  then show "i = j" using fec_col_burst [OF assms(2,3)] assms(4) by blast
qed

theorem fec_recovers_bursts_witness: "snd (Recover demo_matrix [4, 2, 3]) = []"
proof -
  obtain rec res where r: "Recover demo_matrix [4, 2, 3] = (rec, res)" by fastforce
  show ?thesis using fec_recovers_bursts [OF r, of 2] r by (simp add: demo_matrix_def)
qed

text \<open>C34. The FEC oracle fails a run over media exactly when its matrix is unusable, when it
  claims more recoveries than the losses allow, or when, with retransmission isolated, it
  delivers more than the residual leaves possible; so no over-reporting run passes.\<close>

theorem fec_oracle_fails_impossible_runs:
  assumes "Recover (fe_Matrix inp) (fe_Lost inp) = (rec, res)"
    and "0 < fe_Total inp" "in64 (fe_Total inp)" "int (length res) \<le> fe_Total inp"
  shows "result_Verdict (fec_ResultFor inp) = Fail \<longleftrightarrow>
    \<not> fec_Valid (fe_Matrix inp) \<or> fe_ClaimedFEC inp > int (length rec) \<or>
    (fe_ARQIsolated inp \<and> fe_Delivered inp > fe_Total inp - int (length res))"
  using assms by (rule fec_fails_iff)

theorem fec_oracle_fails_impossible_runs_witness:
  "result_Verdict (fec_ResultFor \<lparr>fe_Lib = [], fe_Scenario = [], fe_Matrix = demo_matrix, fe_Total = 9,
     fe_Lost = [0, 1, 3, 4, 8], fe_Delivered = 5, fe_ClaimedFEC = 2, fe_ARQIsolated = True,
     fe_Metrics = \<lambda>_. None\<rparr>) = Fail"
proof -
  have r: "Recover demo_matrix [0, 1, 3, 4, 8] = ([8], [0, 1, 3, 4])" by code_simp
  show ?thesis
    by (rule iffD2 [OF fec_oracle_fails_impossible_runs [of _ "[8]" "[0, 1, 3, 4]"]])
       (simp_all add: r in64_def)
qed

end
