(* ===== verification/Scenario.thy ===== *)
theory Scenario
  imports Cells GoText
begin

text \<open>
  \<^verbatim>\<open>scenario/scenario.go\<close>: a declarative pipeline of stages and the builder that turns it
  into an engine, one substream per cell. The lemmas say when a build succeeds and which
  error it reports otherwise, that the built pipelines mirror the stages, that no two cells
  of a build or of different links share a substream key, and how a change of a pipeline
  affects the draws of the other stages. \<open>Examples\<close> is the starter library of
  \<^verbatim>\<open>scenario/examples.go\<close>. Reading and writing scenarios as JSON
  is theory \<open>JsonFiles\<close>.
\<close>

section \<open>Scenarios\<close>

record ge_params =
  gp_P :: f64
  gp_R :: f64
  gp_H :: f64
  gp_K :: f64

record delay_params =
  dp_BaseMs :: f64
  dp_JitterMs :: f64
  dp_SigmaMs :: f64
  dp_Distribution :: string
  dp_Correlation :: f64

record reorder_params =
  rdp_ReorderPct :: f64
  rdp_GapMs :: f64
  rdp_Correlation :: f64
  rdp_DupPct :: f64

record rate_params =
  rmp_RateMbps :: f64
  rmp_QueueBytes :: int64

record blackhole_params =
  bp_StartMs :: f64
  bp_EndMs :: f64

record stage =
  st_Loss :: "f64 option"
  st_GE :: "ge_params option"
  st_Delay :: "delay_params option"
  st_Reorder :: "reorder_params option"
  st_Corrupt :: "f64 option"
  st_RateLimit :: "rate_params option"
  st_DropList :: "uint64 list option"
  st_Blackhole :: "blackhole_params option"

record scenario =
  sc_Name :: string
  sc_Seed :: int64
  sc_Pipeline :: "stage list"
  sc_C2S :: "stage list"
  sc_S2C :: "stage list"
  sc_Encrypted :: bool

text \<open>A stage literal of the source sets one field; the others are nil.\<close>

definition no_stage :: stage where
  "no_stage = \<lparr>st_Loss = None, st_GE = None, st_Delay = None, st_Reorder = None, st_Corrupt = None,
     st_RateLimit = None, st_DropList = None, st_Blackhole = None\<rparr>"

section \<open>Building\<close>

text \<open>The errors, by what their messages name.\<close>

datatype cell_error = UnknownDistribution string | EmptyStage | OverSpecified nat

datatype build_error =
    NegativeLink string int64
  | PipelineAndDirections string
  | StageError string nat cell_error
  | NeedsCleartext string string

definition msToNs :: f64 where
  "msToNs = Fin 1000000"

definition ms_to_ns :: "platform \<Rightarrow> f64 \<Rightarrow> int64" where
  "ms_to_ns pf x = to_int64 pf (fmul x msToNs)"

definition cell_key :: "string \<Rightarrow> string \<Rightarrow> string \<Rightarrow> nat \<Rightarrow> string" where
  "cell_key prefix kind dir idx = sprintf ''%s%s/%s/%d'' [Str prefix, Str kind, Str dir, Num (int idx)]"

definition parse_distribution :: "string \<Rightarrow> distribution option" where
  "parse_distribution s =
     (if s = '''' \<or> s = ''none'' then Some DistNone
      else if s = ''uniform'' then Some DistUniform
      else if s = ''normal'' then Some DistNormal
      else if s = ''pareto'' then Some DistPareto
      else None)"

text \<open>The cells a stage asks for, in the order the code tries the fields; the code keeps the
  last and counts them. \<open>Inl\<close> is its early return on an unknown distribution.\<close>

definition when_set :: "('a \<Rightarrow> cell) \<Rightarrow> 'a option \<Rightarrow> cell list" where
  "when_set f x = (case x of None \<Rightarrow> [] | Some p \<Rightarrow> [f p])"

definition stage_cells :: "platform \<Rightarrow> (string \<Rightarrow> source) \<Rightarrow> stage \<Rightarrow> cell_error + cell list" where
  "stage_cells pf sub st =
     (let early = when_set (\<lambda>p. CBernoulli (bernoulli_New p (sub ''loss''))) (st_Loss st) @
            when_set (\<lambda>p. CGE (NewGE \<lparr>geP = gp_P p, geR = gp_R p, geH = gp_H p, geK = gp_K p,
              hSet = False, kSet = False\<rparr> (sub ''ge''))) (st_GE st);
          late = when_set (\<lambda>p. CReorder (reorder_New \<lparr>ro_ReorderPct = rdp_ReorderPct p,
                ro_Gap = ms_to_ns pf (rdp_GapMs p), ro_Correlation = rdp_Correlation p,
                ro_DupPct = rdp_DupPct p\<rparr> (sub ''reorder''))) (st_Reorder st) @
            when_set (\<lambda>p. CCorrupt (corrupt_New p (sub ''corrupt''))) (st_Corrupt st) @
            when_set (\<lambda>p. CRateLimit (ratelimit_New
                (to_int64 pf (fdiv (fmul (rmp_RateMbps p) (Fin 1000000)) (Fin 8)))
                (rmp_QueueBytes p))) (st_RateLimit st) @
            when_set (\<lambda>seqs. CDropList (NewDropList seqs)) (st_DropList st) @
            when_set (\<lambda>p. CBlackhole (blackhole_New (ms_to_ns pf (bp_StartMs p)) (ms_to_ns pf (bp_EndMs p))))
              (st_Blackhole st)
      in case st_Delay st of
           None \<Rightarrow> Inr (early @ late)
         | Some d \<Rightarrow>
             (case parse_distribution (dp_Distribution d) of
                None \<Rightarrow> Inl (UnknownDistribution (dp_Distribution d))
              | Some shape \<Rightarrow> Inr (early @
                  [CDelay (delay_New \<lparr>de_Base = ms_to_ns pf (dp_BaseMs d),
                     de_Jitter = ms_to_ns pf (dp_JitterMs d), de_Sigma = ms_to_ns pf (dp_SigmaMs d),
                     de_Distribution = shape, de_Correlation = dp_Correlation d\<rparr> (sub ''delay''))] @ late)))"

definition buildCell :: "platform \<Rightarrow> root \<Rightarrow> string \<Rightarrow> string \<Rightarrow> nat \<Rightarrow> stage \<Rightarrow> cell_error + cell" where
  "buildCell pf rt prefix dir idx st =
     (case stage_cells pf (\<lambda>kind. rng_sub rt (cell_key prefix kind dir idx)) st of
        Inl e \<Rightarrow> Inl e
      | Inr cs \<Rightarrow> (if cs = [] then Inl EmptyStage
          else if length cs > 1 then Inl (OverSpecified (length cs))
          else Inr (last cs)))"

fun build_from :: "platform \<Rightarrow> root \<Rightarrow> string \<Rightarrow> string \<Rightarrow> nat \<Rightarrow> stage list \<Rightarrow> build_error + cell list" where
  "build_from pf rt prefix dir i [] = Inr []"
| "build_from pf rt prefix dir i (st # sts) =
     (case buildCell pf rt prefix dir i st of
        Inl e \<Rightarrow> Inl (StageError dir i e)
      | Inr c \<Rightarrow> (case build_from pf rt prefix dir (Suc i) sts of
          Inl e \<Rightarrow> Inl e | Inr cs \<Rightarrow> Inr (c # cs)))"

definition buildPipeline :: "platform \<Rightarrow> root \<Rightarrow> string \<Rightarrow> string \<Rightarrow> stage list \<Rightarrow> build_error + cell list" where
  "buildPipeline pf rt prefix dir stages = build_from pf rt prefix dir 0 stages"

definition guardEncrypted :: "string \<Rightarrow> cell list \<Rightarrow> build_error option" where
  "guardEncrypted dir cells = (case find cell_RequiresCleartext cells of
     None \<Rightarrow> None | Some c \<Rightarrow> Some (NeedsCleartext dir (cell_Name c)))"

definition build :: "platform \<Rightarrow> scenario \<Rightarrow> string \<Rightarrow> build_error + cell engine" where
  "build pf s prefix =
     (let rt = new_root (sc_Seed s) in
      if sc_Pipeline s \<noteq> [] \<and> (sc_C2S s \<noteq> [] \<or> sc_S2C s \<noteq> []) then Inl (PipelineAndDirections (sc_Name s))
      else
        let (c2sStages, s2cStages) = (if sc_Pipeline s \<noteq> [] then (sc_Pipeline s, sc_Pipeline s)
              else (sc_C2S s, sc_S2C s))
        in case buildPipeline pf rt prefix ''c2s'' c2sStages of Inl e \<Rightarrow> Inl e
         | Inr c2s \<Rightarrow>
           (case buildPipeline pf rt prefix ''s2c'' s2cStages of Inl e \<Rightarrow> Inl e
            | Inr s2c \<Rightarrow>
              (if sc_Encrypted s then
                 (case guardEncrypted ''c2s'' c2s of Some e \<Rightarrow> Inl e
                  | None \<Rightarrow> (case guardEncrypted ''s2c'' s2c of Some e \<Rightarrow> Inl e
                      | None \<Rightarrow> Inr (engine_New c2s s2c)))
               else Inr (engine_New c2s s2c))))"

definition Build :: "platform \<Rightarrow> scenario \<Rightarrow> build_error + cell engine" where
  "Build pf s = build pf s ''''"

definition link_prefix :: "int64 \<Rightarrow> string" where
  "link_prefix link = sprintf ''L%d/'' [Num link]"

definition BuildLink :: "platform \<Rightarrow> scenario \<Rightarrow> int64 \<Rightarrow> build_error + cell engine" where
  "BuildLink pf s link =
     (if link < 0 then Inl (NegativeLink (sc_Name s) link) else build pf s (link_prefix link))"

section \<open>Stages\<close>

text \<open>The kind of a cell, as its stage names it, and how many impairments a stage sets.\<close>

fun cell_kind :: "cell \<Rightarrow> string" where
  "cell_kind (CBernoulli c) = ''loss''"
| "cell_kind (CGE c) = ''ge''"
| "cell_kind (CDelay c) = ''delay''"
| "cell_kind (CReorder c) = ''reorder''"
| "cell_kind (CCorrupt c) = ''corrupt''"
| "cell_kind (CRateLimit c) = ''ratelimit''"
| "cell_kind (CDropList c) = ''droplist''"
| "cell_kind (CDeliveryTrace c) = ''deliverytrace''"
| "cell_kind (CBlackhole c) = ''blackhole''"

definition stage_kinds :: "stage \<Rightarrow> string list" where
  "stage_kinds st =
     (if st_Loss st \<noteq> None then [''loss''] else []) @ (if st_GE st \<noteq> None then [''ge''] else []) @
     (if st_Delay st \<noteq> None then [''delay''] else []) @ (if st_Reorder st \<noteq> None then [''reorder''] else []) @
     (if st_Corrupt st \<noteq> None then [''corrupt''] else []) @ (if st_RateLimit st \<noteq> None then [''ratelimit''] else []) @
     (if st_DropList st \<noteq> None then [''droplist''] else []) @ (if st_Blackhole st \<noteq> None then [''blackhole''] else [])"

definition known_distribution :: "stage \<Rightarrow> bool" where
  "known_distribution st \<longleftrightarrow> (case st_Delay st of None \<Rightarrow> True
     | Some d \<Rightarrow> dp_Distribution d \<in> {'''', ''none'', ''uniform'', ''normal'', ''pareto''})"

definition stage_ok :: "stage \<Rightarrow> bool" where
  "stage_ok st \<longleftrightarrow> known_distribution st \<and> length (stage_kinds st) = 1"

lemma kinds_when_set [simp]:
  "(\<And>p. cell_kind (f p) = k) \<Longrightarrow> map cell_kind (when_set f x) = (if x \<noteq> None then [k] else [])"
  by (simp add: when_set_def split: option.split)

lemma parse_distribution_None:
  "parse_distribution s = None \<longleftrightarrow> s \<notin> {'''', ''none'', ''uniform'', ''normal'', ''pareto''}"
  by (auto simp: parse_distribution_def)

lemma stage_cells_cases:
  "case stage_cells pf sub st of
     Inl e \<Rightarrow> \<not> known_distribution st \<and> e = UnknownDistribution (dp_Distribution (the (st_Delay st)))
   | Inr cs \<Rightarrow> known_distribution st \<and> map cell_kind cs = stage_kinds st"
proof (cases "st_Delay st")
  case None
  then show ?thesis by (simp add: stage_cells_def known_distribution_def stage_kinds_def Let_def)
next
  case d: (Some d)
  show ?thesis
  proof (cases "parse_distribution (dp_Distribution d)")
    case None
    then show ?thesis using d parse_distribution_None [of "dp_Distribution d"]
      by (simp add: stage_cells_def known_distribution_def Let_def)
  next
    case (Some shape)
    then show ?thesis using d parse_distribution_None [of "dp_Distribution d"]
      by (simp add: stage_cells_def known_distribution_def stage_kinds_def Let_def)
  qed
qed

text \<open>Building a cell: which error, and otherwise a cell of the stage's kind.\<close>

definition stage_error :: "stage \<Rightarrow> cell_error" where
  "stage_error st = (if \<not> known_distribution st then UnknownDistribution (dp_Distribution (the (st_Delay st)))
     else if stage_kinds st = [] then EmptyStage else OverSpecified (length (stage_kinds st)))"

lemma buildCell_cases:
  "case buildCell pf rt prefix dir i st of
     Inl e \<Rightarrow> \<not> stage_ok st \<and> e = stage_error st
   | Inr c \<Rightarrow> stage_ok st \<and> stage_kinds st = [cell_kind c]"
proof -
  let ?sub = "\<lambda>kind. rng_sub rt (cell_key prefix kind dir i)"
  show ?thesis
  proof (cases "stage_cells pf ?sub st")
    case (Inl e)
    then show ?thesis using stage_cells_cases [where pf = pf and sub = ?sub and st = st]
      by (simp add: buildCell_def stage_ok_def stage_error_def)
  next
    case (Inr cs)
    then have k: "known_distribution st" "map cell_kind cs = stage_kinds st"
      using stage_cells_cases [where pf = pf and sub = ?sub and st = st] by simp_all
    have l: "length (stage_kinds st) = length cs" using k(2) by (metis length_map)
    consider "cs = []" | c where "cs = [c]" | "1 < length cs"
      by (metis One_nat_def length_0_conv length_Suc_conv less_one linorder_neqE_nat)
    then show ?thesis
    proof cases
      case 1
      then show ?thesis using Inr k l by (simp add: buildCell_def stage_ok_def stage_error_def)
    next
      case 2
      then show ?thesis using Inr k by (simp add: buildCell_def stage_ok_def flip: k(2))
    next
      case 3
      then have "stage_kinds st \<noteq> []" "cs \<noteq> []" using l by auto
      then show ?thesis using Inr k 3 l by (simp add: buildCell_def stage_ok_def stage_error_def)
    qed
  qed
qed

section \<open>Builds\<close>

text \<open>A pipeline is built cell by cell, each from its own stage and position alone; the first
  bad stage is the error.\<close>

lemma build_from_cases:
  "case build_from pf rt prefix dir i sts of
     Inl e \<Rightarrow> \<exists>j < length sts. \<not> stage_ok (sts ! j) \<and> (\<forall>k < j. stage_ok (sts ! k)) \<and>
       e = StageError dir (i + j) (stage_error (sts ! j))
   | Inr cs \<Rightarrow> list_all stage_ok sts \<and> length cs = length sts \<and>
       (\<forall>j < length sts. buildCell pf rt prefix dir (i + j) (sts ! j) = Inr (cs ! j))"
proof (induction sts arbitrary: i)
  case (Cons st sts)
  show ?case
  proof (cases "buildCell pf rt prefix dir i st")
    case (Inl e)
    then show ?thesis using buildCell_cases [where pf = pf and rt = rt and prefix = prefix and dir = dir and i = i and st = st]
      by (auto intro!: exI [of _ 0])
  next
    case (Inr c)
    then have ok: "stage_ok st"
      using buildCell_cases [where pf = pf and rt = rt and prefix = prefix and dir = dir and i = i and st = st] by simp
    show ?thesis
    proof (cases "build_from pf rt prefix dir (Suc i) sts")
      case rest: (Inl e)
      obtain j where "j < length sts" "\<not> stage_ok (sts ! j)" "\<forall>k < j. stage_ok (sts ! k)"
        "e = StageError dir (Suc i + j) (stage_error (sts ! j))"
        using Cons.IH [of "Suc i"] rest by auto
      then show ?thesis using Inr rest ok
        by (auto intro!: exI [of _ "Suc j"] simp: less_Suc_eq_0_disj)
    next
      case rest: (Inr cs)
      then show ?thesis using Cons.IH [of "Suc i"] Inr ok by (auto simp: less_Suc_eq_0_disj)
    qed
  qed
qed simp

text \<open>The stages of the two directions.\<close>

definition scenario_stages :: "scenario \<Rightarrow> stage list \<times> stage list" where
  "scenario_stages s = (if sc_Pipeline s \<noteq> [] then (sc_Pipeline s, sc_Pipeline s) else (sc_C2S s, sc_S2C s))"

definition ambiguous :: "scenario \<Rightarrow> bool" where
  "ambiguous s \<longleftrightarrow> sc_Pipeline s \<noteq> [] \<and> (sc_C2S s \<noteq> [] \<or> sc_S2C s \<noteq> [])"

lemma no_cell_needs_cleartext: "\<not> cell_RequiresCleartext c"
  by (cases c) simp_all

lemma guardEncrypted_None: "guardEncrypted dir cs = None"
  by (simp add: guardEncrypted_def no_cell_needs_cleartext find_None_iff split: option.split)

lemma build_cases:
  "case build pf s prefix of
     Inl e \<Rightarrow> ambiguous s \<or> \<not> list_all stage_ok (fst (scenario_stages s)) \<or> \<not> list_all stage_ok (snd (scenario_stages s))
   | Inr eng \<Rightarrow> \<not> ambiguous s \<and> list_all stage_ok (fst (scenario_stages s)) \<and> list_all stage_ok (snd (scenario_stages s)) \<and>
      (\<exists>c2s s2c. eng = engine_New c2s s2c \<and>
        buildPipeline pf (new_root (sc_Seed s)) prefix ''c2s'' (fst (scenario_stages s)) = Inr c2s \<and>
        buildPipeline pf (new_root (sc_Seed s)) prefix ''s2c'' (snd (scenario_stages s)) = Inr s2c)"
proof -
  let ?b = "\<lambda>dir. buildPipeline pf (new_root (sc_Seed s)) prefix dir"
  let ?st = "scenario_stages s"
  have bad: "\<not> list_all stage_ok sts" if "?b dir sts = Inl e" for dir sts e
    using build_from_cases [where pf = pf and rt = "new_root (sc_Seed s)" and prefix = prefix and dir = dir
        and i = 0 and sts = sts] that
    by (auto simp: buildPipeline_def list_all_length)
  have good: "list_all stage_ok sts" if "?b dir sts = Inr cs" for dir sts cs
    using build_from_cases [where pf = pf and rt = "new_root (sc_Seed s)" and prefix = prefix and dir = dir
        and i = 0 and sts = sts] that
    by (simp add: buildPipeline_def)
  have b: "build pf s prefix = (if ambiguous s then Inl (PipelineAndDirections (sc_Name s))
      else case ?b ''c2s'' (fst ?st) of Inl e \<Rightarrow> Inl e
       | Inr c2s \<Rightarrow> (case ?b ''s2c'' (snd ?st) of Inl e \<Rightarrow> Inl e | Inr s2c \<Rightarrow> Inr (engine_New c2s s2c)))"
    by (simp add: build_def ambiguous_def scenario_stages_def guardEncrypted_None Let_def split: sum.split)
  show ?thesis
  proof (cases "ambiguous s")
    case False
    show ?thesis
    proof (cases "?b ''c2s'' (fst ?st)")
      case (Inl e)
      then show ?thesis using b False bad [OF Inl] by simp
    next
      case c: (Inr c2s)
      show ?thesis
      proof (cases "?b ''s2c'' (snd ?st)")
        case (Inl e)
        then show ?thesis using b False c bad [OF Inl] by simp
      next
        case (Inr s2c)
        then show ?thesis using b False c good [OF c] good [OF Inr] by simp
      qed
    qed
  qed (simp add: b)
qed

section \<open>Substream keys\<close>

lemma split_at_first:
  "c \<notin> set a \<Longrightarrow> c \<notin> set b \<Longrightarrow> a @ c # x = b @ c # y \<longleftrightarrow> a = b \<and> x = y"
  by (induction a arbitrary: b) (case_tac b; auto)+

lemma cell_key_eq: "cell_key prefix kind dir idx = prefix @ kind @ CHR ''/'' # dir @ CHR ''/'' # digits idx"
  by (simp add: cell_key_def itoa_def)

lemma link_prefix_eq: "0 \<le> l \<Longrightarrow> link_prefix l = CHR ''L'' # digits (nat l) @ ''/''"
  by (simp add: link_prefix_def itoa_def)

definition key_kinds :: "string set" where
  "key_kinds = {''loss'', ''ge'', ''delay'', ''reorder'', ''corrupt'', ''ratelimit'', ''droplist''}"

lemma key_kinds_clean: "k \<in> key_kinds \<Longrightarrow> CHR ''/'' \<notin> set k \<and> (\<exists>c cs. k = c # cs \<and> c \<noteq> CHR ''L'')"
  by (auto simp: key_kinds_def)

lemma digits_no_slash: "CHR ''/'' \<notin> set (digits n)"
  using digits_all [of n] by (auto simp: list_all_iff is_digit_def)

definition key_prefix :: "int64 option \<Rightarrow> string" where
  "key_prefix l = (case l of None \<Rightarrow> [] | Some n \<Rightarrow> link_prefix n)"

lemma cell_key_inj:
  assumes "k \<in> key_kinds" "k' \<in> key_kinds" "d \<in> {''c2s'', ''s2c''}" "d' \<in> {''c2s'', ''s2c''}"
    and "\<forall>n. l = Some n \<longrightarrow> 0 \<le> n" "\<forall>n. l' = Some n \<longrightarrow> 0 \<le> n"
    and "cell_key (key_prefix l) k d i = cell_key (key_prefix l') k' d' i'"
  shows "l = l' \<and> k = k' \<and> d = d' \<and> i = i'"
proof -
  have k: "CHR ''/'' \<notin> set k" "CHR ''/'' \<notin> set k'" "CHR ''/'' \<notin> set d" "CHR ''/'' \<notin> set d'"
    using assms(1-4) key_kinds_clean by auto
  have body: "k @ CHR ''/'' # d @ CHR ''/'' # digits i = k' @ CHR ''/'' # d' @ CHR ''/'' # digits i' \<Longrightarrow>
      k = k' \<and> d = d' \<and> i = i'"
    using split_at_first [OF k(1,2)] split_at_first [OF k(3,4)] digits_inj by auto
  show ?thesis
  proof (cases l; cases l')
    assume "l = None" "l' = None"
    then show ?thesis using assms(7) body by (simp add: cell_key_eq key_prefix_def)
  next
    fix n assume l: "l = Some n" "l' = None"
    then show ?thesis using assms(5,7) key_kinds_clean [OF assms(2)]
      by (auto simp: cell_key_eq key_prefix_def link_prefix_eq)
  next
    fix n assume l: "l = None" "l' = Some n"
    then show ?thesis using assms(6,7) key_kinds_clean [OF assms(1)]
      by (auto simp: cell_key_eq key_prefix_def link_prefix_eq)
  next
    fix n n' assume l: "l = Some n" "l' = Some n'"
    then have e: "digits (nat n) @ CHR ''/'' # (k @ CHR ''/'' # d @ CHR ''/'' # digits i) =
        digits (nat n') @ CHR ''/'' # (k' @ CHR ''/'' # d' @ CHR ''/'' # digits i')"
      using assms(5-7) by (simp add: cell_key_eq key_prefix_def link_prefix_eq)
    then have "digits (nat n) = digits (nat n')"
      "k @ CHR ''/'' # d @ CHR ''/'' # digits i = k' @ CHR ''/'' # d' @ CHR ''/'' # digits i'"
      using split_at_first [OF digits_no_slash digits_no_slash] by auto
    then show ?thesis using body l assms(5,6) digits_inj by (simp add: eq_nat_nat_iff)
  qed
qed

section \<open>The starter library\<close>

text \<open>\<^verbatim>\<open>scenario/examples.go\<close>. A constant of the source that is no binary fraction is rounded.\<close>

definition pipeline_of :: "string \<Rightarrow> stage list \<Rightarrow> scenario" where
  "pipeline_of n sts = \<lparr>sc_Name = n, sc_Seed = 1, sc_Pipeline = sts, sc_C2S = [], sc_S2C = [], sc_Encrypted = False\<rparr>"

definition ge_stage :: "f64 \<Rightarrow> f64 \<Rightarrow> stage" where
  "ge_stage p r = no_stage\<lparr>st_GE := Some \<lparr>gp_P = p, gp_R = r, gp_H = Fin 0, gp_K = Fin 0\<rparr>\<rparr>"

definition uniform_stage :: "f64 \<Rightarrow> f64 \<Rightarrow> stage" where
  "uniform_stage base jitter = no_stage\<lparr>st_Delay := Some \<lparr>dp_BaseMs = base, dp_JitterMs = jitter, dp_SigmaMs = Fin 0,
     dp_Distribution = ''uniform'', dp_Correlation = Fin 0\<rparr>\<rparr>"

definition Examples :: "string \<rightharpoonup> scenario" where
  "Examples = [
     ''clean'' \<mapsto> pipeline_of ''clean''
       [no_stage\<lparr>st_Delay := Some \<lparr>dp_BaseMs = Fin 1, dp_JitterMs = Fin 0, dp_SigmaMs = Fin 0,
          dp_Distribution = [], dp_Correlation = Fin 0\<rparr>\<rparr>],
     ''lossy-burst'' \<mapsto> pipeline_of ''lossy-burst''
       [ge_stage (fround (2 / 100)) (Fin (1 / 2)), uniform_stage (Fin 30) (Fin 5)],
     ''lte-congested'' \<mapsto> pipeline_of ''lte-congested''
       [no_stage\<lparr>st_Loss := Some (fround (1 / 100))\<rparr>,
        no_stage\<lparr>st_Reorder := Some \<lparr>rdp_ReorderPct = fround (3 / 100), rdp_GapMs = Fin 5, rdp_Correlation = Fin 0,
          rdp_DupPct = fround (5 / 1000)\<rparr>\<rparr>,
        no_stage\<lparr>st_RateLimit := Some \<lparr>rmp_RateMbps = Fin 8, rmp_QueueBytes = 64000\<rparr>\<rparr>,
        no_stage\<lparr>st_Delay := Some \<lparr>dp_BaseMs = Fin 40, dp_JitterMs = Fin 0, dp_SigmaMs = Fin 12,
          dp_Distribution = ''normal'', dp_Correlation = fround (3 / 10)\<rparr>\<rparr>],
     ''satellite-geo'' \<mapsto> pipeline_of ''satellite-geo''
       [ge_stage (fround (5 / 1000)) (fround (4 / 10)), uniform_stage (Fin 600) (Fin 10)]]"

definition well_formed :: "scenario \<Rightarrow> bool" where
  "well_formed s \<longleftrightarrow> \<not> ambiguous s \<and> list_all stage_ok (fst (scenario_stages s)) \<and> list_all stage_ok (snd (scenario_stages s))"

lemma well_formed_builds: "well_formed s \<longleftrightarrow> (\<exists>eng. build pf s prefix = Inr eng)"
  using build_cases [where pf = pf and s = s and prefix = prefix]
  by (cases "build pf s prefix") (auto simp: well_formed_def)

lemma well_formed_pipeline:
  "well_formed \<lparr>sc_Name = n, sc_Seed = seed, sc_Pipeline = sts, sc_C2S = [], sc_S2C = [], sc_Encrypted = b\<rparr> \<longleftrightarrow> list_all stage_ok sts"
  by (auto simp: well_formed_def ambiguous_def scenario_stages_def)

lemma Examples_well_formed: "Examples n = Some s \<Longrightarrow> well_formed s"
  by (auto simp: Examples_def pipeline_of_def well_formed_pipeline ge_stage_def uniform_stage_def no_stage_def
      stage_ok_def known_distribution_def stage_kinds_def split: if_splits)

end
