(* ===== verification/Bond.thy ===== *)
theory Bond
  imports Cells Grade
begin

text \<open>
  \<^verbatim>\<open>bond/bond.go\<close>: the SMPTE 2022-7 merge of per-link drop ledgers, the drive of one
  stream through every link's engine, and the bonding oracle. The engines are values here,
  so no two links share one. The lemmas show that the merge returns for every stream the
  program can have, what it counts, that each link meets the fate its engine would give it
  alone, that a link which does not duplicate either drops or forwards a packet, and what the
  oracle's verdicts mean.
\<close>

section \<open>Ledgers and the merge\<close>

record link_ledger =
  ll_Dropped :: "uint64 set option"
  ll_DropCount :: int64

definition ledger_Drops :: "link_ledger \<Rightarrow> int64" where
  "ledger_Drops l = (case ll_Dropped l of Some D \<Rightarrow> i64 (int (card D)) | None \<Rightarrow> ll_DropCount l)"

record merge_result =
  mr_Total :: int64
  mr_Links :: int64
  mr_Gaps :: "uint64 list"
  mr_Masked :: int64

definition mr_Delivered :: "merge_result \<Rightarrow> int64" where
  "mr_Delivered m = i64 (mr_Total m - int (length (mr_Gaps m)))"

text \<open>Looking a number up in a nil map yields false.\<close>

definition ledger_dropped :: "uint64 \<Rightarrow> link_ledger \<Rightarrow> bool" where
  "ledger_dropped sq l = (case ll_Dropped l of None \<Rightarrow> False | Some D \<Rightarrow> sq \<in> D)"

definition merge_step :: "link_ledger list \<Rightarrow> uint64 \<Rightarrow> merge_result \<Rightarrow> merge_result" where
  "merge_step links sq res =
     (let dropped = length (filter (ledger_dropped sq) links) in
      if dropped = length links then res\<lparr>mr_Gaps := mr_Gaps res @ [sq]\<rparr>
      else if dropped > 0 then res\<lparr>mr_Masked := i64 (mr_Masked res + 1)\<rparr>
      else res)"

text \<open>\<^verbatim>\<open>for seq := uint64(1); seq <= uint64(total); seq++\<close>; a loop that never ends is \<open>None\<close>.\<close>

partial_function (option) merge_loop :: "link_ledger list \<Rightarrow> uint64 \<Rightarrow> uint64 \<Rightarrow> merge_result \<Rightarrow> merge_result option" where
  "merge_loop links bound sq res =
     (if sq \<le> bound then merge_loop links bound (sq + 1) (merge_step links sq res) else Some res)"

definition Merge :: "link_ledger list \<Rightarrow> int64 \<Rightarrow> merge_result option" where
  "Merge links tot =
     (let res = \<lparr>mr_Total = tot, mr_Links = int (length links), mr_Gaps = [], mr_Masked = 0\<rparr>
      in if links = [] then Some res else merge_loop links (uint64_of_int64 tot) 1 res)"

section \<open>Driving the links\<close>

definition bond_packet :: "nat \<Rightarrow> packet" where
  "bond_packet n = \<lparr>pk_data = [word_of_nat n, word_of_nat (n div 256)], pk_dir = C2S\<rparr>"

definition bond_stream :: "int64 \<Rightarrow> nat list \<Rightarrow> (packet \<times> int64) list" where
  "bond_stream interval ns = map (\<lambda>n. (bond_packet n, i64 (int n * interval))) ns"

definition dropped_seqs :: "action list \<Rightarrow> uint64 set" where
  "dropped_seqs acts = act_seq ` set (filter (\<lambda>a. act_kind a = Drop) acts)"

definition link_packet :: "platform \<Rightarrow> packet \<Rightarrow> int64 \<Rightarrow> cell engine \<times> uint64 set
    \<Rightarrow> (cell engine \<times> uint64 set) option" where
  "link_packet pf p t l = (case Handle pf (fst l) p t of None \<Rightarrow> None
     | Some (e, acts) \<Rightarrow> Some (e, snd l \<union> dropped_seqs acts))"

fun drive_links :: "platform \<Rightarrow> (packet \<times> int64) list \<Rightarrow> (cell engine \<times> uint64 set) list
    \<Rightarrow> (cell engine \<times> uint64 set) list option" where
  "drive_links pf [] ls = Some ls"
| "drive_links pf ((p, t) # ps) ls = (case those (map (link_packet pf p t) ls) of None \<Rightarrow> None
     | Some ls1 \<Rightarrow> drive_links pf ps ls1)"

definition RunLinks :: "platform \<Rightarrow> cell engine list \<Rightarrow> int64 \<Rightarrow> int64 \<Rightarrow> link_ledger list option" where
  "RunLinks pf engines tot interval =
     map_option (map (\<lambda>l. \<lparr>ll_Dropped = Some (snd l), ll_DropCount = 0\<rparr>))
       (drive_links pf (bond_stream interval [0..<nat tot]) (map (\<lambda>e. (e, {})) engines))"

section \<open>What the merge counts\<close>

lemma unat_of_nat64: "s < 2 ^ 64 \<Longrightarrow> unat (of_nat s :: uint64) = s"
  by (simp add: unsigned_of_nat take_bit_nat_eq_self)

lemma merge_loop_fold:
  assumes "n + 1 < 2 ^ 64" "s \<le> n + 1"
  shows "merge_loop links (of_nat n) (of_nat s) res =
    Some (foldl (\<lambda>r sq. merge_step links sq r) res (map of_nat [s..<n + 1]))"
  using assms(2)
proof (induction "n + 1 - s" arbitrary: s res)
  case 0
  then have s: "s = n + 1" by simp
  have "\<not> (of_nat s :: uint64) \<le> of_nat n"
    using assms(1) s by (simp add: word_le_nat_alt unat_of_nat64 del: of_nat_Suc of_nat_add)
  then show ?case by (subst merge_loop.simps) (simp add: s)
next
  case (Suc k)
  then have s: "s \<le> n" by simp
  then have le: "(of_nat s :: uint64) \<le> of_nat n"
    using assms(1) by (simp add: word_le_nat_alt unat_of_nat64)
  have u: "[s..<n + 1] = s # [Suc s..<n + 1]" using s by (simp add: upt_rec)
  have "merge_loop links (of_nat n) (of_nat (Suc s)) (merge_step links (of_nat s) res) =
      Some (foldl (\<lambda>r sq. merge_step links sq r) (merge_step links (of_nat s) res) (map of_nat [Suc s..<n + 1]))"
    using Suc by (intro Suc.hyps(1)) auto
  moreover have "(of_nat s + 1 :: uint64) = of_nat (Suc s)" by simp
  ultimately show ?case using le unfolding u by (subst merge_loop.simps) (simp del: of_nat_Suc upt_Suc)
qed

text \<open>A negative total makes the loop bound huge; for -1 it is the largest number there is
  and the loop never ends.\<close>

lemma merge_loop_diverges: "merge_loop links (- 1) sq res = None"
proof -
  have "n \<noteq> - 1" if "merge_loop links n s r = Some y" for n s r y
    using that
    by (rule merge_loop.raw_induct [where P = "\<lambda>links n s r y. n \<noteq> - 1", rotated])
       (auto split: if_splits)
  then show ?thesis by (metis not_Some_eq)
qed

lemma merge_fold_gaps:
  "mr_Gaps (foldl (\<lambda>r sq. merge_step links sq r) res sqs) =
     mr_Gaps res @ filter (\<lambda>sq. \<forall>l\<in>set links. ledger_dropped sq l) sqs"
proof (induction sqs arbitrary: res)
  case (Cons sq sqs)
  have all: "length (filter (ledger_dropped sq) links) = length links \<longleftrightarrow> (\<forall>l\<in>set links. ledger_dropped sq l)"
    by (metis filter_True length_filter_less less_irrefl_nat)
  show ?case unfolding foldl.simps Cons.IH by (simp add: merge_step_def Let_def all)
qed simp

lemma merge_fold_total:
  "mr_Total (foldl (\<lambda>r sq. merge_step links sq r) res sqs) = mr_Total res"
  by (induction sqs arbitrary: res) (simp_all add: merge_step_def Let_def)

definition masked_seq :: "link_ledger list \<Rightarrow> uint64 \<Rightarrow> bool" where
  "masked_seq links sq \<longleftrightarrow> (\<exists>l\<in>set links. ledger_dropped sq l) \<and> \<not> (\<forall>l\<in>set links. ledger_dropped sq l)"

lemma merge_fold_masked:
  assumes "in64 (mr_Masked res)"
  shows "mr_Masked (foldl (\<lambda>r sq. merge_step links sq r) res sqs) =
     i64 (mr_Masked res + int (length (filter (masked_seq links) sqs)))"
  using assms
proof (induction sqs arbitrary: res)
  case Nil
  then show ?case by (simp add: i64_id)
next
  case (Cons sq sqs)
  have all: "length (filter (ledger_dropped sq) links) = length links \<longleftrightarrow> (\<forall>l\<in>set links. ledger_dropped sq l)"
    by (metis filter_True length_filter_less less_irrefl_nat)
  have some: "0 < length (filter (ledger_dropped sq) links) \<longleftrightarrow> (\<exists>l\<in>set links. ledger_dropped sq l)"
    by (simp add: filter_empty_conv)
  have m: "mr_Masked (merge_step links sq res) =
      (if masked_seq links sq then i64 (mr_Masked res + 1) else mr_Masked res)"
    unfolding merge_step_def Let_def all some by (auto simp: masked_seq_def)
  then have "in64 (mr_Masked (merge_step links sq res))" using Cons.prems by simp
  then have "mr_Masked (foldl (\<lambda>r sq. merge_step links sq r) (merge_step links sq res) sqs) =
      i64 (mr_Masked (merge_step links sq res) + int (length (filter (masked_seq links) sqs)))"
    by (rule Cons.IH)
  then show ?case by (simp add: m i64_def mod_simps algebra_simps)
qed

lemma Merge_spec:
  assumes "links \<noteq> []" "0 \<le> tot" "in64 tot"
  obtains m where "Merge links tot = Some m" "mr_Total m = tot"
    "mr_Gaps m = filter (\<lambda>sq. \<forall>l\<in>set links. ledger_dropped sq l) (map of_nat [1..<nat tot + 1])"
    "mr_Masked m = int (length (filter (masked_seq links) (map of_nat [1..<nat tot + 1])))"
proof -
  let ?n = "nat tot" and ?sqs = "map of_nat [1..<nat tot + 1] :: uint64 list"
  let ?r = "\<lparr>mr_Total = tot, mr_Links = int (length links), mr_Gaps = [], mr_Masked = 0\<rparr>"
  let ?m = "foldl (\<lambda>r sq. merge_step links sq r) ?r ?sqs"
  have n: "?n + 1 < 2 ^ 64" using assms(2,3) by (simp add: in64_def)
  have b: "uint64_of_int64 tot = of_nat ?n" using assms(2) by (simp add: uint64_of_int64_def)
  have "merge_loop links (of_nat ?n) (of_nat 1) ?r = Some ?m" by (rule merge_loop_fold [OF n]) simp
  then have m: "Merge links tot = Some ?m" using assms(1) by (simp add: Merge_def Let_def b del: upt_Suc)
  have "length (filter (masked_seq links) ?sqs) \<le> ?n"
    by (rule order_trans [OF length_filter_le]) simp
  then have "in64 (int (length (filter (masked_seq links) ?sqs)))"
    using assms(2,3) by (simp add: in64_def)
  then have "mr_Masked ?m = int (length (filter (masked_seq links) ?sqs))"
    using merge_fold_masked [of ?r links ?sqs] by (simp add: i64_id del: upt_Suc)
  then show thesis using that [OF m] merge_fold_gaps [of links ?r ?sqs] by (simp add: merge_fold_total del: upt_Suc)
qed

section \<open>What the links do\<close>

text \<open>The numbers of the packets of which a link's engine drops any copy when it runs the stream alone.\<close>

definition own_drops :: "platform \<Rightarrow> cell engine \<Rightarrow> (packet \<times> int64) list \<Rightarrow> uint64 set" where
  "own_drops pf e ps = (case run_engine pf e ps of None \<Rightarrow> {} | Some (e', acts) \<Rightarrow> dropped_seqs (concat acts))"

lemma dropped_seqs_append: "dropped_seqs (as @ bs) = dropped_seqs as \<union> dropped_seqs bs"
  by (auto simp: dropped_seqs_def)

lemma those_map_Some: "(\<And>x. x \<in> set xs \<Longrightarrow> f x = Some (g x)) \<Longrightarrow> those (map f xs) = Some (map g xs)"
  by (induction xs) simp_all

lemma Handle_C2S:
  assumes "pk_dir p = C2S"
  obtains e' acts where "Handle pf e p t = Some (e', acts)"
  using engine_Handle_None [of "cell_Process pf" cell_Name e p t] assms dir_cases [of C2S] by fastforce

lemma own_drops_Cons:
  assumes "\<forall>(q, u)\<in>set ps. pk_dir q = C2S" "Handle pf e p t = Some (e1, acts)"
  shows "own_drops pf e ((p, t) # ps) = dropped_seqs acts \<union> own_drops pf e1 ps"
proof -
  have "run_engine pf e1 ps \<noteq> None"
    using assms(1) dir_cases [of C2S] by (auto simp: engine_run_total not_le)
  then show ?thesis using assms(2) by (auto simp: own_drops_def dropped_seqs_append)
qed

text \<open>Driving the links side by side gives every link the drops of its own run.\<close>

lemma drive_links_own:
  assumes "\<forall>(p, t)\<in>set ps. pk_dir p = C2S"
  shows "\<exists>ls'. drive_links pf ps ls = Some ls' \<and> map snd ls' = map (\<lambda>l. snd l \<union> own_drops pf (fst l) ps) ls"
  using assms
proof (induction ps arbitrary: ls)
  case Nil
  then show ?case by (simp add: own_drops_def dropped_seqs_def)
next
  case (Cons pt ps)
  obtain p t where pt: "pt = (p, t)" by force
  have c2s: "pk_dir p = C2S" and rest: "\<forall>(p, t)\<in>set ps. pk_dir p = C2S" using Cons.prems pt by auto
  define g where "g l = the (link_packet pf p t l)" for l
  have g: "link_packet pf p t l = Some (g l) \<and>
      snd (g l) \<union> own_drops pf (fst (g l)) ps = snd l \<union> own_drops pf (fst l) ((p, t) # ps)" for l
  proof -
    obtain e' acts where h: "Handle pf (fst l) p t = Some (e', acts)" by (rule Handle_C2S [OF c2s])
    then have "g l = (e', snd l \<union> dropped_seqs acts)" by (simp add: g_def link_packet_def)
    then show ?thesis using h own_drops_Cons [OF rest h] by (auto simp: link_packet_def)
  qed
  have "those (map (link_packet pf p t) ls) = Some (map g ls)" using g by (intro those_map_Some) simp
  then show ?case using Cons.IH [OF rest, of "map g ls"] g by (simp add: pt comp_def)
qed

lemma RunLinks_own:
  "RunLinks pf engines n interval = Some (map (\<lambda>e. \<lparr>ll_Dropped =
      Some (own_drops pf e (bond_stream interval [0..<nat n])), ll_DropCount = 0\<rparr>) engines)"
proof -
  have "\<forall>(p, t)\<in>set (bond_stream interval [0..<nat n]). pk_dir p = C2S"
    by (auto simp: bond_stream_def bond_packet_def)
  then obtain ls where run: "drive_links pf (bond_stream interval [0..<nat n]) (map (\<lambda>e. (e, {})) engines) = Some ls"
    and snds: "map snd ls = map (\<lambda>e. own_drops pf e (bond_stream interval [0..<nat n])) engines"
    using drive_links_own [of _ pf "map (\<lambda>e. (e, {})) engines"] by (fastforce simp: comp_def)
  show ?thesis
    using arg_cong [OF snds, of "map (\<lambda>D. \<lparr>ll_Dropped = Some D, ll_DropCount = 0\<rparr>)"] run
    by (simp add: RunLinks_def comp_def del: map_eq_conv)
qed

section \<open>Links that do not duplicate\<close>

text \<open>A reorderer with a duplication chance may emit two copies of a packet; no other cell does.\<close>

fun duplicator :: "cell \<Rightarrow> bool" where
  "duplicator (CReorder r) = flt (Fin 0) (ro_DupPct (ro_cfg r))"
| "duplicator c = False"

lemma duplicator_Process [simp]: "duplicator (fst (cell_Process pf c f)) = duplicator c"
  by (cases c) auto

lemma single_Process: "\<not> duplicator c \<Longrightarrow> length (snd (cell_Process pf c f)) \<le> 1"
  using cell_Process_fanout [of pf c f]
  by (cases c) (auto simp: reorder_Process_outputs decideDup_def Let_def)

lemma run_cell_single:
  "run_cell (cell_Process pf) cell_Name c fs = (c', nxt, acts) \<Longrightarrow> \<not> duplicator c \<Longrightarrow>
    length nxt + length acts = length fs \<and> \<not> duplicator c'"
proof (induction fs arbitrary: c c' nxt acts)
  case (Cons f fs)
  let ?p = "cell_Process pf c f"
  obtain c2 n2 a2 where r: "run_cell (cell_Process pf) cell_Name (fst ?p) fs = (c2, n2, a2)"
    by (cases "run_cell (cell_Process pf) cell_Name (fst ?p) fs")
  have l: "snd ?p = [] \<or> length (snd ?p) = 1" using single_Process [OF Cons.prems(2), of pf f] by (cases "snd ?p") auto
  have "length n2 + length a2 = length fs \<and> \<not> duplicator c2" using Cons.IH [OF r] Cons.prems(2) by simp
  then show ?case using Cons.prems(1) r l by (auto simp: split_beta split: if_splits)
qed simp

lemma run_pipeline_single:
  "run_pipeline (cell_Process pf) cell_Name cs cur = (cs', out, acts) \<Longrightarrow> \<forall>c \<in> set cs. \<not> duplicator c \<Longrightarrow>
    length out + length acts = length cur \<and> (\<forall>c \<in> set cs'. \<not> duplicator c)"
proof (induction cs arbitrary: cur cs' out acts)
  case (Cons c cs)
  obtain c1 nxt a1 where r: "run_cell (cell_Process pf) cell_Name c cur = (c1, nxt, a1)"
    by (cases "run_cell (cell_Process pf) cell_Name c cur")
  obtain cs1 o1 a2 where q: "run_pipeline (cell_Process pf) cell_Name cs nxt = (cs1, o1, a2)"
    by (cases "run_pipeline (cell_Process pf) cell_Name cs nxt")
  show ?case using Cons.prems Cons.IH [OF q] run_cell_single [OF r] r q by auto
qed simp

text \<open>A link driven by a stream has one action for each packet of it, numbered from one.\<close>

lemma Handle_single:
  assumes "Handle pf e p t = Some (e', acts)" "pk_dir p = C2S" "\<forall>c \<in> set (eng_c2s e). \<not> duplicator c"
  shows "\<exists>a. acts = [a] \<and> act_seq a = eng_seq e + 1" "eng_seq e' = eng_seq e + 1" "\<forall>c \<in> set (eng_c2s e'). \<not> duplicator c"
proof -
  obtain cs out drops where
    r: "run_pipeline (cell_Process pf) cell_Name (pipeline e (pk_dir p)) [ingress (eng_seq e + 1) p t] = (cs, out, drops)"
    and e': "e' = set_pipeline (e\<lparr>eng_seq := eng_seq e + 1\<rparr>) (pk_dir p) cs" and acts: "acts = drops @ map forward_action out"
    using engine_Handle_Some [OF assms(1)] by metis
  have pl: "pipeline e (pk_dir p) = eng_c2s e" using assms(2) by (simp add: pipeline_def)
  have one: "length out + length drops = 1" "\<forall>c \<in> set cs. \<not> duplicator c"
    using run_pipeline_single [OF r] assms(3) pl by auto
  then have "length acts = 1" by (simp add: acts)
  then obtain a where a: "acts = [a]" by (cases acts) auto
  then have "act_seq a = eng_seq e + 1" using cells.Handle_meta(1) [OF assms(1), of a] by simp
  with a show "\<exists>a. acts = [a] \<and> act_seq a = eng_seq e + 1" by blast
  show "eng_seq e' = eng_seq e + 1" "\<forall>c \<in> set (eng_c2s e'). \<not> duplicator c"
    using e' one(2) assms(2) by (simp_all add: set_pipeline_def)
qed

definition forwarded_seqs :: "action list \<Rightarrow> uint64 set" where
  "forwarded_seqs acts = act_seq ` set (filter (\<lambda>a. act_kind a = Forward) acts)"

text \<open>The numbers of the packets of which a link forwards a copy when it runs the stream alone.\<close>

definition own_forwards :: "platform \<Rightarrow> cell engine \<Rightarrow> (packet \<times> int64) list \<Rightarrow> uint64 set" where
  "own_forwards pf e ps = (case run_engine pf e ps of None \<Rightarrow> {} | Some (e', acts) \<Rightarrow> forwarded_seqs (concat acts))"

lemma run_single_seqs:
  assumes "\<forall>(p, t) \<in> set ps. pk_dir p = C2S" "\<forall>c \<in> set (eng_c2s e). \<not> duplicator c"
  shows "\<exists>e' acts. run_engine pf e ps = Some (e', acts) \<and>
    map act_seq (concat acts) = map (\<lambda>i. eng_seq e + of_nat i) [1..<length ps + 1]"
  using assms
proof (induction ps arbitrary: e)
  case (Cons pt ps)
  obtain p t where pt: "pt = (p, t)" by force
  have c2s: "pk_dir p = C2S" using Cons.prems(1) pt by simp
  obtain e1 as where h: "Handle pf e p t = Some (e1, as)" by (rule Handle_C2S [OF c2s])
  note s = Handle_single [OF h c2s Cons.prems(2)]
  obtain a where a: "as = [a]" "act_seq a = eng_seq e + 1" using s(1) by blast
  obtain e' acts where ih: "run_engine pf e1 ps = Some (e', acts)"
    "map act_seq (concat acts) = map (\<lambda>i. eng_seq e1 + of_nat i) [1..<length ps + 1]"
    using Cons.IH [OF _ s(3)] Cons.prems(1) by auto
  have "map (\<lambda>i. eng_seq e1 + of_nat i) [1..<length ps + 1] = map (\<lambda>i. eng_seq e + of_nat i) (map Suc [1..<length ps + 1])"
    by (simp add: s(2) algebra_simps)
  also have "map Suc [1..<length ps + 1] = [2..<length ps + 2]" by (simp add: map_Suc_upt numeral_2_eq_2)
  finally have "map act_seq (concat acts) = map (\<lambda>i. eng_seq e + of_nat i) [2..<length ps + 2]" using ih(2) by simp
  moreover have "[1..<length (pt # ps) + 1] = 1 # [Suc 1..<length (pt # ps) + 1]" by (rule upt_conv_Cons) simp
  then have "[1..<length (pt # ps) + 1] = 1 # [2..<length ps + 2]" by (simp add: numeral_2_eq_2 del: upt_Suc)
  ultimately show ?case using h ih(1) a by (simp add: pt del: upt_Suc)
qed simp

lemma distinct_seqs:
  assumes "n < 2 ^ 64" shows "distinct (map of_nat [1..<n + 1] :: uint64 list)"
proof -
  have "inj_on (of_nat :: nat \<Rightarrow> uint64) {1..<n + 1}"
  proof
    fix x y :: nat assume "x \<in> {1..<n + 1}" "y \<in> {1..<n + 1}" "(of_nat x :: uint64) = of_nat y"
    then have "unat (of_nat x :: uint64) = unat (of_nat y :: uint64)" "x < 2 ^ 64" "y < 2 ^ 64" using assms by auto
    then show "x = y" by (simp add: unat_of_nat64)
  qed
  then show ?thesis by (simp add: distinct_map del: upt_Suc)
qed

text \<open>On a link without duplication a packet is dropped exactly when no copy of it is forwarded.\<close>

lemma own_drops_forwards:
  assumes "\<forall>(p, t) \<in> set ps. pk_dir p = C2S" "\<forall>c \<in> set (eng_c2s e). \<not> duplicator c" "eng_seq e = 0"
    and "length ps < 2 ^ 64" "sq \<in> set (map of_nat [1..<length ps + 1])"
  shows "sq \<in> own_drops pf e ps \<longleftrightarrow> sq \<notin> own_forwards pf e ps"
proof -
  obtain e' acts where r: "run_engine pf e ps = Some (e', acts)"
    and s: "map act_seq (concat acts) = map of_nat [1..<length ps + 1]"
    using run_single_seqs [OF assms(1,2), of pf] assms(3) by auto
  have d: "distinct (map act_seq (concat acts))" unfolding s by (rule distinct_seqs [OF assms(4)])
  have "sq \<in> act_seq ` set (concat acts)" using assms(5) unfolding s [symmetric] set_map .
  then obtain a where a: "a \<in> set (concat acts)" "sq = act_seq a" by (elim imageE)
  have "inj_on act_seq (set (concat acts))" using d unfolding distinct_map by (rule conjunct2)
  then have only: "b = a" if "b \<in> set (concat acts)" "act_seq b = sq" for b
    by (rule inj_onD) (use that a in simp_all)
  have "sq \<in> dropped_seqs (concat acts) \<longleftrightarrow> act_kind a = Drop"
    unfolding dropped_seqs_def set_filter using a only by blast
  moreover have "sq \<in> forwarded_seqs (concat acts) \<longleftrightarrow> act_kind a = Forward"
    unfolding forwarded_seqs_def set_filter using a only by blast
  ultimately show ?thesis using r by (cases "act_kind a") (simp_all add: own_drops_def own_forwards_def)
qed

section \<open>The oracle\<close>

record bond_input =
  bi_Lib :: string
  bi_Scenario :: string
  bi_Links :: int64
  bi_Total :: int64
  bi_Delivered :: int64
  bi_PerLinkDrops :: "int64 list"
  bi_Gaps :: int64
  bi_Metrics :: metrics

definition totalDrops :: "bond_input \<Rightarrow> int64" where
  "totalDrops inp = foldl (\<lambda>s d. i64 (s + d)) 0 (bi_PerLinkDrops inp)"

definition bond_check :: "string \<Rightarrow> verdict \<Rightarrow> string \<Rightarrow> check" where
  "bond_check name v detail = \<lparr>ck_Name = name, ck_Verdict = v, ck_Detail = detail\<rparr>"

definition bondedFlow :: "bond_input \<Rightarrow> check" where
  "bondedFlow inp =
     (let c = bond_check ''bonded-flow'' in
      if bi_Links inp < 2 then c Fail (sprintf ''bonding needs >= 2 paths, got %d'' [Num (bi_Links inp)])
      else if bi_Total inp > 0 \<and> bi_Delivered inp > 0 then
        c Pass (sprintf ''%d paths; delivered %d/%d''
          [Num (bi_Links inp), Num (bi_Delivered inp), Num (bi_Total inp)])
      else if bi_Total inp > 0 then
        c Fail (sprintf ''%d packets offered but none delivered over %d paths''
          [Num (bi_Total inp), Num (bi_Links inp)])
      else c Error (''no packets offered '' @ dash @ '' run produced no evidence''))"

definition seamlessCoverage :: "bond_input \<Rightarrow> check" where
  "seamlessCoverage inp =
     (let c = bond_check ''seamless-coverage''; td = totalDrops inp;
          delivered = bi_Delivered inp; tot = bi_Total inp in
      if bi_Gaps inp \<ge> 0 then
        let expected = i64 (tot - bi_Gaps inp) in
        if delivered < expected then
          c Fail (sprintf (''seamless merge FAILED: delivered %d/%d but %d survived on >= 1 link ''
              @ dash @ '' dropped %d packet(s) a redundant path carried'')
            [Num delivered, Num tot, Num expected, Num (i64 (expected - delivered))])
        else if td = 0 then
          c Pass (sprintf ''no per-link loss; clean merge delivered %d/%d'' [Num delivered, Num tot])
        else if bi_Gaps inp = 0 then
          c Pass (sprintf ''seamless: %d per-link drop(s) across %v ALL masked by redundancy, 0 gap (delivered %d/%d)''
            [Num td, Nums (bi_PerLinkDrops inp), Num delivered, Num tot])
        else
          c Pass (sprintf ''seamless merge intact: delivered %d/%d; %d seq(s) lost on ALL %d links (unrecoverable, not a bonding fault)''
            [Num delivered, Num tot, Num (bi_Gaps inp), Num (bi_Links inp)])
      else if delivered \<ge> tot \<and> td = 0 then
        c Pass (sprintf ''no per-link loss recorded; delivered %d/%d'' [Num delivered, Num tot])
      else if delivered \<ge> tot then
        c Pass (sprintf (''delivered %d/%d despite per-link drops %v '' @ dash @ '' redundancy masked all single-link loss'')
          [Num delivered, Num tot, Nums (bi_PerLinkDrops inp)])
      else
        c Warn (sprintf (''delivered %d/%d (%d short) under per-link drops %v ''
            @ dash @ '' gap vs merge-failure indistinguishable without exact ledgers'')
          [Num delivered, Num tot, Num (i64 (tot - delivered)), Nums (bi_PerLinkDrops inp)]))"

definition redundancyActive :: "bond_input \<Rightarrow> check" where
  "redundancyActive inp =
     (let td = totalDrops inp in
      bond_check ''redundancy-active'' Pass
        (if td > 0 then sprintf ''redundancy exercised: per-link drops %v (%d single-link losses available to mask)''
           [Nums (bi_PerLinkDrops inp), Num td]
         else ''no per-link loss this run (clean paths '' @ dash @ '' redundancy not exercised)''))"

definition bond_Evaluate :: "bond_input \<Rightarrow> check list" where
  "bond_Evaluate inp = [bondedFlow inp, seamlessCoverage inp, redundancyActive inp]"

definition bond_ResultFor :: "bond_input \<Rightarrow> run_result" where
  "bond_ResultFor inp = \<lparr>rs_Lib = bi_Lib inp, rs_Scenario = bi_Scenario inp,
     rs_Checks = bond_Evaluate inp, rs_Metrics = bi_Metrics inp, rs_Err = []\<rparr>"

lemma bond_check_verdict [simp]: "ck_Verdict (bond_check n v d) = v"
  by (simp add: bond_check_def)

lemmas bond_grader_defs = bondedFlow_def seamlessCoverage_def redundancyActive_def

text \<open>With exact ledgers the verdict is a pass exactly when there are two paths, something was
  delivered, and every packet that survived on some path was.\<close>

lemma bond_passes_iff:
  assumes "0 \<le> bi_Gaps inp" "bi_Gaps inp \<le> bi_Total inp" "in64 (bi_Total inp)" "0 < bi_Total inp"
  shows "result_Verdict (bond_ResultFor inp) = Pass \<longleftrightarrow>
    2 \<le> bi_Links inp \<and> 0 < bi_Delivered inp \<and> bi_Total inp - bi_Gaps inp \<le> bi_Delivered inp"
proof -
  have i: "i64 (bi_Total inp - bi_Gaps inp) = bi_Total inp - bi_Gaps inp"
    using assms by (intro i64_id) (simp add: in64_def)
  show ?thesis using assms
    by (auto simp: result_Verdict_def bond_ResultFor_def bond_Evaluate_def bond_grader_defs worst_of_def
        i Let_def less_verdict_def)
qed

end
