(* ===== verification/LinkProperties.thy ===== *)
theory LinkProperties
  imports Scenario Bond
begin

text \<open>
  The properties of scenario builds (\<^verbatim>\<open>scenario/scenario.go\<close>) and of bonded links
  (\<^verbatim>\<open>bond/bond.go\<close>): which scenarios build and what error the others report, which
  substream each built cell draws from and how an edit of the pipeline moves it, what the
  SMPTE 2022-7 merge of links driven by their own engines leaves of the stream, and that a link
  which duplicates packets may count one as dropped that it has also forwarded.
\<close>

section \<open>The source of a built cell\<close>

text \<open>Only the random cells keep the substream their stage allocates.\<close>

fun cell_source :: "cell \<Rightarrow> source option" where
  "cell_source (CBernoulli c) = Some (bern_src c)"
| "cell_source (CGE c) = Some (ge_src c)"
| "cell_source (CDelay c) = Some (de_src c)"
| "cell_source (CReorder c) = Some (ro_src c)"
| "cell_source (CCorrupt c) = Some (cor_src c)"
| "cell_source (CRateLimit c) = None"
| "cell_source (CDropList c) = None"
| "cell_source (CDeliveryTrace c) = None"
| "cell_source (CBlackhole c) = None"

lemma when_set_source:
  "c \<in> set (when_set f x) \<Longrightarrow> (\<And>p. cell_source (f p) = None \<or> cell_source (f p) = Some (sub (cell_kind (f p)))) \<Longrightarrow>
     cell_source c = None \<or> cell_source c = Some (sub (cell_kind c))"
  by (auto simp: when_set_def split: option.splits)

lemmas new_source = bernoulli_New_def NewGE_def reorder_New_def corrupt_New_def delay_New_def Let_def

lemma stage_cells_source:
  assumes "stage_cells pf sub st = Inr cs" "c \<in> set cs" "cell_source c = Some src"
  shows "src = sub (cell_kind c)"
proof -
  have "cell_source c = None \<or> cell_source c = Some (sub (cell_kind c))"
    using assms(1,2)
    by (auto simp: stage_cells_def Let_def new_source split: option.splits dest!: when_set_source [where sub = sub])
  then show ?thesis using assms(3) by simp
qed

lemma buildCell_source:
  assumes "buildCell pf rt prefix dir i st = Inr c" "cell_source c = Some src"
  shows "src = rng_sub rt (cell_key prefix (cell_kind c) dir i)"
proof -
  obtain cs where "stage_cells pf (\<lambda>kind. rng_sub rt (cell_key prefix kind dir i)) st = Inr cs" "c \<in> set cs"
    using assms(1) by (auto simp: buildCell_def split: sum.splits if_splits)
  then show ?thesis using stage_cells_source assms(2) by fastforce
qed

section \<open>Which scenarios build\<close>

text \<open>The fault of a pipeline is its first bad stage; of a scenario, the ambiguous use of both
  forms, then the client's direction, then the server's.\<close>

definition stage_fault :: "string \<Rightarrow> nat \<Rightarrow> stage list \<Rightarrow> build_error option" where
  "stage_fault dir n sts = map_option (\<lambda>(i, st). StageError dir i (stage_error st))
     (find (\<lambda>(i, st). \<not> stage_ok st) (enumerate n sts))"

definition build_fault :: "scenario \<Rightarrow> build_error option" where
  "build_fault s =
     (if ambiguous s then Some (PipelineAndDirections (sc_Name s))
      else case stage_fault ''c2s'' 0 (fst (scenario_stages s)) of
             Some e \<Rightarrow> Some e
           | None \<Rightarrow> stage_fault ''s2c'' 0 (snd (scenario_stages s)))"

lemma buildCell_ok:
  "stage_ok st \<Longrightarrow> \<exists>c. buildCell pf rt prefix dir i st = Inr c"
  "\<not> stage_ok st \<Longrightarrow> buildCell pf rt prefix dir i st = Inl (stage_error st)"
  using buildCell_cases [where pf = pf and rt = rt and prefix = prefix and dir = dir and i = i and st = st]
  by (auto split: sum.splits)

lemma build_from_fault:
  "(case build_from pf rt prefix dir n sts of Inl e \<Rightarrow> Some e | Inr cs \<Rightarrow> None) = stage_fault dir n sts"
proof (induction sts arbitrary: n)
  case Nil
  then show ?case by (simp add: stage_fault_def)
next
  case (Cons st sts)
  show ?case
  proof (cases "stage_ok st")
    case True
    then obtain c where c: "buildCell pf rt prefix dir n st = Inr c" using buildCell_ok(1) by blast
    have "stage_fault dir n (st # sts) = stage_fault dir (Suc n) sts" using True by (simp add: stage_fault_def)
    then show ?thesis using Cons.IH [of "Suc n"] c by (simp split: sum.splits)
  qed (simp add: buildCell_ok(2) stage_fault_def)
qed

lemma build_fault: "(case build pf s prefix of Inl e \<Rightarrow> Some e | Inr eng \<Rightarrow> None) = build_fault s"
proof -
  have f: "stage_fault dir 0 sts = (case buildPipeline pf rt prefix dir sts of Inl e \<Rightarrow> Some e | Inr cs \<Rightarrow> None)"
    for dir sts rt
    using build_from_fault [where n = 0] by (simp add: buildPipeline_def)
  show ?thesis
    by (simp add: build_fault_def f [where rt = "new_root (sc_Seed s)"] build_def ambiguous_def scenario_stages_def
        guardEncrypted_None Let_def split: sum.split)
qed

text \<open>C30. Building fails exactly on a scenario that sets both forms or has a stage that does not
  set exactly one impairment or names an unknown distribution, with the first such fault, client
  direction first; the encrypted flag refuses nothing that can be written today.\<close>

theorem build_fails_on_first_fault: "Build pf s = Inl e \<longleftrightarrow> build_fault s = Some e"
  using build_fault [of pf s "[]"] by (auto simp: Build_def split: sum.splits)

text \<open>The two built pipelines.\<close>

lemma build_pipelines:
  assumes "build pf s prefix = Inr eng"
  shows "buildPipeline pf (new_root (sc_Seed s)) prefix ''c2s'' (fst (scenario_stages s)) = Inr (eng_c2s eng) \<and>
    buildPipeline pf (new_root (sc_Seed s)) prefix ''s2c'' (snd (scenario_stages s)) = Inr (eng_s2c eng)"
  using build_cases [where pf = pf and s = s and prefix = prefix] assms by (auto simp: engine_New_def)

lemma buildPipeline_nth:
  assumes "buildPipeline pf rt prefix dir sts = Inr cs"
  shows "length cs = length sts \<and>
    (\<forall>j < length sts. buildCell pf rt prefix dir j (sts ! j) = Inr (cs ! j) \<and> stage_kinds (sts ! j) = [cell_kind (cs ! j)])"
proof -
  have b: "length cs = length sts" "\<forall>j < length sts. buildCell pf rt prefix dir j (sts ! j) = Inr (cs ! j)"
    using build_from_cases [where pf = pf and rt = rt and prefix = prefix and dir = dir and i = 0 and sts = sts] assms
    by (simp_all add: buildPipeline_def)
  have "stage_kinds (sts ! j) = [cell_kind (cs ! j)]" if "j < length sts" for j
    using buildCell_cases [where pf = pf and rt = rt and prefix = prefix and dir = dir and i = j and st = "sts ! j"]
      b(2) that by simp
  then show ?thesis using b by blast
qed

lemma buildPipeline_kinds:
  assumes "buildPipeline pf rt prefix dir sts = Inr cs"
  shows "map (\<lambda>c. [cell_kind c]) cs = map stage_kinds sts"
  using buildPipeline_nth [OF assms] by (intro nth_equalityI) auto

definition dir_stages :: "scenario \<Rightarrow> direction \<Rightarrow> stage list" where
  "dir_stages s d = (if d = C2S then fst (scenario_stages s) else snd (scenario_stages s))"

definition dir_name :: "direction \<Rightarrow> string" where
  "dir_name d = (if d = C2S then ''c2s'' else ''s2c'')"

lemma build_pipeline:
  assumes "build pf s prefix = Inr eng"
  shows "buildPipeline pf (new_root (sc_Seed s)) prefix (dir_name d) (dir_stages s d) = Inr (pipeline eng d)"
  using build_pipelines [OF assms] by (simp add: dir_name_def dir_stages_def pipeline_def)

text \<open>C39. A built engine mirrors its scenario: each direction has one cell per stage, in order,
  of the kind the stage sets.\<close>

theorem built_cells_mirror_stages:
  assumes "Build pf s = Inr eng"
  shows "map (\<lambda>c. [cell_kind c]) (pipeline eng d) = map stage_kinds (dir_stages s d)"
  using buildPipeline_kinds [OF build_pipeline [OF assms [unfolded Build_def]]] .

text \<open>A scenario for the instances below: loss, then a drop list.\<close>

definition lossy_scenario :: scenario where
  "lossy_scenario = \<lparr>sc_Name = ''lossy'', sc_Seed = 7,
     sc_Pipeline = [no_stage\<lparr>st_Loss := Some (Fin (1 / 2))\<rparr>, no_stage\<lparr>st_DropList := Some [2]\<rparr>],
     sc_C2S = [], sc_S2C = [], sc_Encrypted = True\<rparr>"

lemma lossy_scenario_builds:
  "\<exists>eng. Build plain_platform lossy_scenario = Inr eng"
  by (simp add: Build_def build_def lossy_scenario_def buildPipeline_def buildCell_def stage_cells_def
      when_set_def no_stage_def guardEncrypted_None Let_def)

theorem built_cells_mirror_stages_witness:
  "\<exists>eng. Build plain_platform lossy_scenario = Inr eng \<and>
    map (\<lambda>c. [cell_kind c]) (pipeline eng S2C) = [[''loss''], [''droplist'']]"
proof -
  obtain eng where e: "Build plain_platform lossy_scenario = Inr eng" using lossy_scenario_builds by blast
  have "map stage_kinds (dir_stages lossy_scenario S2C) = [[''loss''], [''droplist'']]"
    by (simp add: dir_stages_def scenario_stages_def lossy_scenario_def stage_kinds_def no_stage_def)
  then show ?thesis using built_cells_mirror_stages [OF e, of S2C] e by auto
qed

section \<open>Substreams\<close>

text \<open>C29. Whatever the links, directions, positions and kinds, no two random cells of the links
  of a bonded scenario are given the same substream key, and each draws from the substream of
  its own key under the scenario's seed.\<close>

theorem link_cells_draw_apart:
  assumes "BuildLink pf s l = Inr eng" "i < length (pipeline eng d)" "cell_source (pipeline eng d ! i) = Some src"
    and "BuildLink pf s l' = Inr eng'" "i' < length (pipeline eng' d')" "cell_source (pipeline eng' d' ! i') = Some src'"
  defines "key \<equiv> cell_key (link_prefix l) (cell_kind (pipeline eng d ! i)) (dir_name d) i"
    and "key' \<equiv> cell_key (link_prefix l') (cell_kind (pipeline eng' d' ! i')) (dir_name d') i'"
  shows "src = rng_sub (new_root (sc_Seed s)) key \<and> src' = rng_sub (new_root (sc_Seed s)) key' \<and>
    (key = key' \<longrightarrow> l = l' \<and> dir_name d = dir_name d' \<and> i = i')"
proof -
  have built: "0 \<le> l \<and> src = rng_sub (new_root (sc_Seed s)) (cell_key (link_prefix l) (cell_kind (pipeline eng d ! i)) (dir_name d) i)
      \<and> cell_kind (pipeline eng d ! i) \<in> key_kinds"
    if "BuildLink pf s l = Inr eng" "i < length (pipeline eng d)" "cell_source (pipeline eng d ! i) = Some src"
    for l eng d i src
  proof -
    have b: "0 \<le> l" "build pf s (link_prefix l) = Inr eng"
      using that(1) by (auto simp: BuildLink_def split: if_splits)
    note nth = buildPipeline_nth [OF build_pipeline [OF b(2), of d]]
    then have c: "buildCell pf (new_root (sc_Seed s)) (link_prefix l) (dir_name d) i (dir_stages s d ! i) =
        Inr (pipeline eng d ! i)" using that(2) by simp
    have "cell_kind (pipeline eng d ! i) \<in> key_kinds"
      using that(3) by (cases "pipeline eng d ! i") (simp_all add: key_kinds_def)
    then show ?thesis using b(1) buildCell_source [OF c that(3)] by simp
  qed
  note b = built [OF assms(1-3)] and b' = built [OF assms(4-6)]
  have "key = key' \<longrightarrow> l = l' \<and> dir_name d = dir_name d' \<and> i = i'"
    using b b' cell_key_inj [of "cell_kind (pipeline eng d ! i)" "cell_kind (pipeline eng' d' ! i')" "dir_name d"
        "dir_name d'" "Some l" "Some l'" i i']
    by (auto simp: key_def key'_def key_prefix_def dir_name_def)
  then show ?thesis using b b' by (simp add: key_def key'_def)
qed

lemma lossy_link_source:
  assumes "0 \<le> l"
  shows "\<exists>eng src. BuildLink plain_platform lossy_scenario l = Inr eng \<and>
    length (pipeline eng d) = 2 \<and> cell_source (pipeline eng d ! 0) = Some src \<and> cell_kind (pipeline eng d ! 0) = ''loss''"
  using assms by (auto simp: BuildLink_def build_def lossy_scenario_def buildPipeline_def buildCell_def stage_cells_def
      when_set_def no_stage_def guardEncrypted_None Let_def engine_New_def pipeline_def)

theorem link_cells_draw_apart_witness:
  "\<exists>eng0 eng1 src0 src1. BuildLink plain_platform lossy_scenario 0 = Inr eng0 \<and>
    BuildLink plain_platform lossy_scenario 1 = Inr eng1 \<and>
    cell_source (pipeline eng0 C2S ! 0) = Some src0 \<and> cell_source (pipeline eng1 C2S ! 0) = Some src1 \<and>
    src0 = rng_sub (new_root 7) (cell_key (link_prefix 0) ''loss'' ''c2s'' 0) \<and>
    cell_key (link_prefix 0) ''loss'' ''c2s'' 0 \<noteq> cell_key (link_prefix 1) ''loss'' ''c2s'' 0"
proof -
  obtain e0 s0 where 0: "BuildLink plain_platform lossy_scenario 0 = Inr e0" "length (pipeline e0 C2S) = 2"
      "cell_source (pipeline e0 C2S ! 0) = Some s0" "cell_kind (pipeline e0 C2S ! 0) = ''loss''"
    using lossy_link_source [of 0 C2S] by auto
  obtain e1 s1 where 1: "BuildLink plain_platform lossy_scenario 1 = Inr e1" "length (pipeline e1 C2S) = 2"
      "cell_source (pipeline e1 C2S ! 0) = Some s1" "cell_kind (pipeline e1 C2S ! 0) = ''loss''"
    using lossy_link_source [of 1 C2S] by auto
  have n: "0 < length (pipeline e0 C2S)" "0 < length (pipeline e1 C2S)" using 0(2) 1(2) by simp_all
  have seed: "sc_Seed lossy_scenario = 7" by (simp add: lossy_scenario_def)
  show ?thesis
    using link_cells_draw_apart [OF 0(1) n(1) 0(3) 1(1) n(2) 1(3)] 0 1 by (auto simp: seed dir_name_def)
qed

lemma build_from_append:
  "build_from pf rt prefix dir n (sts @ sts2) =
     (case build_from pf rt prefix dir n sts of Inl e \<Rightarrow> Inl e
      | Inr cs \<Rightarrow> map_sum id ((@) cs) (build_from pf rt prefix dir (n + length sts) sts2))"
proof (induction sts arbitrary: n)
  case Nil
  have "map_sum id ((@) []) x = x" for x :: "build_error + cell list" by (cases x) simp_all
  then show ?case by simp
next
  case (Cons st sts)
  show ?case
    by (cases "buildCell pf rt prefix dir n st"; cases "build_from pf rt prefix dir (Suc n) sts";
        cases "build_from pf rt prefix dir (n + Suc (length sts)) sts2") (simp_all add: Cons.IH [of "Suc n"])
qed

lemma build_pipeline_stages:
  assumes "sc_Pipeline s \<noteq> []"
  shows "dir_stages s d = sc_Pipeline s"
  using assms by (simp add: dir_stages_def scenario_stages_def)

text \<open>Stages appended to a pipeline leave the cells built before them, and so all their
  draws, as they were.\<close>

theorem appended_stages_keep_draws:
  assumes "Build pf s = Inr eng" "Build pf (s\<lparr>sc_Pipeline := sc_Pipeline s @ sts\<rparr>) = Inr eng'" "sc_Pipeline s \<noteq> []"
  shows "take (length (sc_Pipeline s)) (pipeline eng' d) = pipeline eng d"
proof -
  have old: "buildPipeline pf (new_root (sc_Seed s)) [] (dir_name d) (sc_Pipeline s) = Inr (pipeline eng d)"
    using build_pipeline [OF assms(1) [unfolded Build_def], of d] assms(3) by (simp add: build_pipeline_stages)
  have new: "buildPipeline pf (new_root (sc_Seed s)) [] (dir_name d) (sc_Pipeline s @ sts) = Inr (pipeline eng' d)"
    using build_pipeline [OF assms(2) [unfolded Build_def], of d] assms(3) by (simp add: build_pipeline_stages)
  have l: "length (pipeline eng d) = length (sc_Pipeline s)" using buildPipeline_nth [OF old] by simp
  obtain cs where "pipeline eng d @ cs = pipeline eng' d"
    using old new by (auto simp: buildPipeline_def build_from_append map_sum_def split: sum.splits)
  then show ?thesis using l by (metis append_eq_conv_conj)
qed

theorem appended_stages_keep_draws_witness:
  "\<exists>eng eng'. Build plain_platform lossy_scenario = Inr eng \<and>
    Build plain_platform (lossy_scenario\<lparr>sc_Pipeline := sc_Pipeline lossy_scenario @ [no_stage\<lparr>st_Corrupt := Some (Fin 1)\<rparr>]\<rparr>)
      = Inr eng' \<and> length (pipeline eng' C2S) = 3 \<and> take 2 (pipeline eng' C2S) = pipeline eng C2S"
proof -
  let ?st = "no_stage\<lparr>st_Corrupt := Some (Fin 1)\<rparr>"
  let ?s = "lossy_scenario\<lparr>sc_Pipeline := sc_Pipeline lossy_scenario @ [?st]\<rparr>"
  obtain eng where e: "Build plain_platform lossy_scenario = Inr eng" using lossy_scenario_builds by blast
  obtain eng' where e': "Build plain_platform ?s = Inr eng'" "length (pipeline eng' C2S) = 3"
    by (atomize_elim, simp add: Build_def build_def lossy_scenario_def buildPipeline_def buildCell_def stage_cells_def
        when_set_def no_stage_def guardEncrypted_None Let_def engine_New_def pipeline_def)
  have "sc_Pipeline lossy_scenario \<noteq> []" "length (sc_Pipeline lossy_scenario) = 2" by (simp_all add: lossy_scenario_def)
  then show ?thesis using appended_stages_keep_draws [OF e e'(1), of C2S] e e' by (intro exI conjI) simp_all
qed

text \<open>A stage put in front of a pipeline moves every later stage to the substream of the next
  position: its draws are no longer the ones it had.\<close>

theorem inserted_stage_moves_draws:
  assumes "Build pf s = Inr eng" "Build pf (s\<lparr>sc_Pipeline := st # sc_Pipeline s\<rparr>) = Inr eng'" "sc_Pipeline s \<noteq> []"
    and "i < length (sc_Pipeline s)" "cell_source (pipeline eng d ! i) = Some src"
    and "cell_source (pipeline eng' d ! Suc i) = Some src'"
  shows "\<exists>kind. src = rng_sub (new_root (sc_Seed s)) (cell_key [] kind (dir_name d) i) \<and>
    src' = rng_sub (new_root (sc_Seed s)) (cell_key [] kind (dir_name d) (Suc i)) \<and>
    cell_key [] kind (dir_name d) i \<noteq> cell_key [] kind (dir_name d) (Suc i)"
proof -
  let ?rt = "new_root (sc_Seed s)"
  have old: "buildPipeline pf ?rt [] (dir_name d) (sc_Pipeline s) = Inr (pipeline eng d)"
    using build_pipeline [OF assms(1) [unfolded Build_def], of d] assms(3) by (simp add: build_pipeline_stages)
  have new: "buildPipeline pf ?rt [] (dir_name d) (st # sc_Pipeline s) = Inr (pipeline eng' d)"
    using build_pipeline [OF assms(2) [unfolded Build_def], of d] by (simp add: build_pipeline_stages)
  let ?k = "cell_kind (pipeline eng d ! i)"
  have o: "buildCell pf ?rt [] (dir_name d) i (sc_Pipeline s ! i) = Inr (pipeline eng d ! i)"
    "stage_kinds (sc_Pipeline s ! i) = [?k]"
    using buildPipeline_nth [OF old] assms(4) by simp_all
  have n: "buildCell pf ?rt [] (dir_name d) (Suc i) (sc_Pipeline s ! i) = Inr (pipeline eng' d ! Suc i)"
    "stage_kinds (sc_Pipeline s ! i) = [cell_kind (pipeline eng' d ! Suc i)]"
    using buildPipeline_nth [OF new] assms(4) by auto
  have "digits i \<noteq> digits (Suc i)" using digits_inj by auto
  then have "cell_key [] ?k (dir_name d) i \<noteq> cell_key [] ?k (dir_name d) (Suc i)" by (simp add: cell_key_eq)
  then show ?thesis using buildCell_source [OF o(1) assms(5)] buildCell_source [OF n(1) assms(6)] o(2) n(2) by auto
qed

theorem inserted_stage_moves_draws_witness:
  "\<exists>eng eng' src src'. Build plain_platform lossy_scenario = Inr eng \<and>
    Build plain_platform (lossy_scenario\<lparr>sc_Pipeline := no_stage\<lparr>st_Corrupt := Some (Fin 1)\<rparr> # sc_Pipeline lossy_scenario\<rparr>)
      = Inr eng' \<and> cell_source (pipeline eng C2S ! 0) = Some src \<and> cell_source (pipeline eng' C2S ! 1) = Some src' \<and>
    (\<exists>kind. src = rng_sub (new_root 7) (cell_key [] kind ''c2s'' 0) \<and> src' = rng_sub (new_root 7) (cell_key [] kind ''c2s'' 1))"
proof -
  let ?st = "no_stage\<lparr>st_Corrupt := Some (Fin 1)\<rparr>"
  let ?s = "lossy_scenario\<lparr>sc_Pipeline := ?st # sc_Pipeline lossy_scenario\<rparr>"
  note builds = Build_def build_def lossy_scenario_def buildPipeline_def buildCell_def stage_cells_def
    when_set_def no_stage_def guardEncrypted_None Let_def engine_New_def pipeline_def
  obtain eng src where e: "Build plain_platform lossy_scenario = Inr eng" "cell_source (pipeline eng C2S ! 0) = Some src"
    by (atomize_elim, simp add: builds)
  obtain eng' src' where e': "Build plain_platform ?s = Inr eng'" "cell_source (pipeline eng' C2S ! Suc 0) = Some src'"
    by (atomize_elim, simp add: builds)
  have s: "sc_Pipeline lossy_scenario \<noteq> []" "0 < length (sc_Pipeline lossy_scenario)" "sc_Seed lossy_scenario = 7"
    by (simp_all add: lossy_scenario_def)
  show ?thesis
    using inserted_stage_moves_draws [OF e(1) e'(1) s(1,2) e(2) e'(2)] e e' s(3)
    by (auto simp: dir_name_def)
qed

section \<open>Bonded links\<close>

text \<open>C40. The merge of per-link ledgers returns for every total but one: -1 makes the loop bound
  the largest number there is, which the counter never passes.\<close>

theorem merge_returns_unless_minus_one:
  assumes "in64 tot"
  shows "(\<exists>m. Merge links tot = Some m) \<longleftrightarrow> links = [] \<or> tot \<noteq> - 1"
proof -
  let ?r = "\<lparr>mr_Total = tot, mr_Links = int (length links), mr_Gaps = [], mr_Masked = 0\<rparr>"
  let ?b = "uint64_of_int64 tot"
  show ?thesis
  proof (cases "links = [] \<or> tot = - 1")
    case True
    then show ?thesis by (auto simp: Merge_def Let_def uint64_of_int64_def merge_loop_diverges)
  next
    case False
    have "unat ?b + 1 < 2 ^ 64"
    proof (rule ccontr)
      assume "\<not> unat ?b + 1 < 2 ^ 64"
      then have "unat ?b = unat (- 1 :: uint64)" using unsigned_less [of ?b, where ?'a = nat] by (simp add: unsigned_minus_1_eq_mask mask_eq_exp_minus_1)
      then have "?b = - 1" by (simp only: word_unat_eq_iff)
      then have "(word_of_int tot :: uint64) = word_of_int (- 1)" by (simp add: uint64_of_int64_def)
      then have "tot mod 2 ^ 64 = (- 1) mod 2 ^ 64" unfolding word_of_int_eq_iff take_bit_eq_mod by simp
      moreover have "tot < 2 ^ 63" "- (2 ^ 63) \<le> tot" "tot \<noteq> - 1" using assms False by (auto simp: in64_def)
      moreover have "tot mod 2 ^ 64 = (if 0 \<le> tot then tot else tot + 2 ^ 64)"
        using calculation(2,3) mod_pos_pos_trivial [of "tot + 2 ^ 64" "2 ^ 64"] mod_pos_pos_trivial [of tot "2 ^ 64"]
        by auto
      ultimately show False by (auto split: if_splits)
    qed
    from merge_loop_fold [OF this, of 1 links ?r] show ?thesis using False by (simp add: Merge_def Let_def)
  qed
qed

theorem merge_returns_unless_minus_one_witness:
  "(\<exists>m. Merge [\<lparr>ll_Dropped = None, ll_DropCount = 3\<rparr>] (- 5) = Some m) \<and>
   Merge [\<lparr>ll_Dropped = None, ll_DropCount = 3\<rparr>] (- 1) = None"
  using merge_returns_unless_minus_one [of "- 5" "[\<lparr>ll_Dropped = None, ll_DropCount = 3\<rparr>]"]
    merge_returns_unless_minus_one [of "- 1" "[\<lparr>ll_Dropped = None, ll_DropCount = 3\<rparr>]"]
  by (simp add: in64_def)

lemma bond_stream_simps [simp]:
  "length (bond_stream interval ns) = length ns" "\<forall>(p, t) \<in> set (bond_stream interval ns). pk_dir p = C2S"
  by (auto simp: bond_stream_def bond_packet_def)

text \<open>For any links, the gaps of the merge are the packets of which every link dropped a copy.\<close>

lemma gaps_are_common_drops:
  assumes "engines \<noteq> []" "0 \<le> n" "in64 n"
  obtains ledgers m where "RunLinks pf engines n interval = Some ledgers" "Merge ledgers n = Some m" "mr_Total m = n"
    "mr_Gaps m = filter (\<lambda>sq. \<forall>e\<in>set engines. sq \<in> own_drops pf e (bond_stream interval [0..<nat n]))
      (map of_nat [1..<nat n + 1])"
    "mr_Masked m = int (length (filter (\<lambda>sq. (\<exists>e\<in>set engines. sq \<in> own_drops pf e (bond_stream interval [0..<nat n])) \<and>
      (\<exists>e\<in>set engines. sq \<notin> own_drops pf e (bond_stream interval [0..<nat n]))) (map of_nat [1..<nat n + 1])))"
proof -
  let ?D = "\<lambda>e. own_drops pf e (bond_stream interval [0..<nat n])"
  let ?ls = "map (\<lambda>e. \<lparr>ll_Dropped = Some (?D e), ll_DropCount = 0\<rparr>) engines"
  obtain m where m: "Merge ?ls n = Some m" "mr_Total m = n"
    "mr_Gaps m = filter (\<lambda>sq. \<forall>l\<in>set ?ls. ledger_dropped sq l) (map of_nat [1..<nat n + 1])"
    "mr_Masked m = int (length (filter (masked_seq ?ls) (map of_nat [1..<nat n + 1])))"
    using Merge_spec [of ?ls n] assms by auto
  have masked: "masked_seq ?ls = (\<lambda>sq. (\<exists>e\<in>set engines. sq \<in> ?D e) \<and> (\<exists>e\<in>set engines. sq \<notin> ?D e))"
    by (auto simp: masked_seq_def ledger_dropped_def fun_eq_iff)
  show thesis
    by (rule that [OF RunLinks_own m(1,2)]) (simp_all add: m(3,4) [unfolded masked] ledger_dropped_def del: upt_Suc)
qed

text \<open>C31. Seamless redundancy: one stream is driven through fresh engines, one per link, none of which
  duplicates packets. Merging their ledgers, the gaps are in order the packets of which no link
  forwards a copy when it runs the stream on its own; the packets counted as delivered are those
  that some link forwards, and the masked ones those that some link forwards and another does not.
  (With a duplicating reorderer a packet may be both dropped and forwarded by one link.)\<close>

theorem bonded_gaps_are_common_losses:
  assumes "engines \<noteq> []" "0 \<le> n" "in64 n"
    and "\<forall>e \<in> set engines. eng_seq e = 0 \<and> (\<forall>c \<in> set (eng_c2s e). \<not> duplicator c)"
  shows "\<exists>ledgers m. RunLinks pf engines n interval = Some ledgers \<and> Merge ledgers n = Some m \<and>
    (let packets = map of_nat [1..<nat n + 1]; carried = (\<lambda>e. own_forwards pf e (bond_stream interval [0..<nat n])) in
      mr_Gaps m = filter (\<lambda>sq. \<forall>e \<in> set engines. sq \<notin> carried e) packets \<and>
      mr_Delivered m = int (length (filter (\<lambda>sq. \<exists>e \<in> set engines. sq \<in> carried e) packets)) \<and>
      mr_Masked m = int (length (filter (\<lambda>sq. (\<exists>e \<in> set engines. sq \<in> carried e) \<and> (\<exists>e \<in> set engines. sq \<notin> carried e)) packets)))"
proof -
  let ?ps = "bond_stream interval [0..<nat n]" and ?sqs = "map of_nat [1..<nat n + 1] :: uint64 list"
  let ?C = "\<lambda>sq. \<exists>e \<in> set engines. sq \<in> own_forwards pf e ?ps"
  obtain ledgers m where r: "RunLinks pf engines n interval = Some ledgers" "Merge ledgers n = Some m" "mr_Total m = n"
    "mr_Gaps m = filter (\<lambda>sq. \<forall>e\<in>set engines. sq \<in> own_drops pf e ?ps) ?sqs"
    "mr_Masked m = int (length (filter (\<lambda>sq. (\<exists>e\<in>set engines. sq \<in> own_drops pf e ?ps) \<and>
      (\<exists>e\<in>set engines. sq \<notin> own_drops pf e ?ps)) ?sqs))"
    by (rule gaps_are_common_drops [OF assms(1-3)])
  have n: "nat n < 2 ^ 64" using assms(2,3) by (simp add: in64_def nat_less_iff)
  have d: "sq \<in> own_drops pf e ?ps \<longleftrightarrow> sq \<notin> own_forwards pf e ?ps" if "e \<in> set engines" "sq \<in> set ?sqs" for e sq
    using that n assms(4) by (intro own_drops_forwards) simp_all
  have g: "mr_Gaps m = filter (\<lambda>sq. \<not> ?C sq) ?sqs" unfolding r(4) by (rule filter_cong) (use d in auto)
  have gaps: "mr_Gaps m = filter (\<lambda>sq. \<forall>e \<in> set engines. sq \<notin> own_forwards pf e ?ps) ?sqs"
    unfolding r(4) by (rule filter_cong) (use d in auto)
  have "filter (\<lambda>sq. (\<exists>e\<in>set engines. sq \<in> own_drops pf e ?ps) \<and> (\<exists>e\<in>set engines. sq \<notin> own_drops pf e ?ps)) ?sqs =
      filter (\<lambda>sq. ?C sq \<and> (\<exists>e\<in>set engines. sq \<notin> own_forwards pf e ?ps)) ?sqs"
    by (rule filter_cong) (use d in auto)
  then have masked: "mr_Masked m = int (length (filter (\<lambda>sq. ?C sq \<and> (\<exists>e\<in>set engines. sq \<notin> own_forwards pf e ?ps)) ?sqs))"
    unfolding r(5) by (rule arg_cong)
  have "length (filter ?C ?sqs) + length (filter (\<lambda>sq. \<not> ?C sq) ?sqs) = nat n"
    using sum_length_filter_compl [of ?C ?sqs] by (simp del: upt_Suc)
  then have len: "n - int (length (mr_Gaps m)) = int (length (filter ?C ?sqs))" unfolding g using assms(2) by linarith
  moreover have "length (filter ?C ?sqs) \<le> nat n" by (rule order_trans [OF length_filter_le]) simp
  then have "in64 (int (length (filter ?C ?sqs)))" using assms(2,3) by (simp add: in64_def)
  ultimately have delivered: "mr_Delivered m = int (length (filter ?C ?sqs))" by (simp add: mr_Delivered_def r(3) i64_id)
  show ?thesis unfolding Let_def by (intro exI conjI) (rule r(1) r(2) gaps delivered masked)+
qed

text \<open>Two links of four packets, one dropping the second and third, the other the third.\<close>

definition two_links :: "cell engine list" where
  "two_links = [engine_New [CDropList (NewDropList [2, 3])] [], engine_New [CDropList (NewDropList [3])] []]"

lemma two_links_forwards:
  "own_forwards plain_platform (two_links ! 0) (bond_stream 0 [0..<nat 4]) = {1, 4}"
  "own_forwards plain_platform (two_links ! 1) (bond_stream 0 [0..<nat 4]) = {1, 2, 4}"
  by (code_simp, code_simp)

theorem bonded_gaps_are_common_losses_witness:
  "\<exists>ledgers m. RunLinks plain_platform two_links 4 0 = Some ledgers \<and> Merge ledgers 4 = Some m \<and> mr_Gaps m = [3] \<and>
    mr_Delivered m = 3 \<and> mr_Masked m = 1"
proof -
  let ?C = "\<lambda>e. own_forwards plain_platform e (bond_stream 0 [0..<nat 4])"
  have ok: "two_links \<noteq> []" "\<forall>e \<in> set two_links. eng_seq e = 0 \<and> (\<forall>c \<in> set (eng_c2s e). \<not> duplicator c)"
    by (simp_all add: two_links_def engine_New_def)
  have s: "set two_links = {two_links ! 0, two_links ! 1}" by (simp add: two_links_def)
  have c: "(\<forall>e\<in>set two_links. sq \<notin> ?C e) \<longleftrightarrow> sq \<notin> {1, 2, 4}" "(\<exists>e\<in>set two_links. sq \<in> ?C e) \<longleftrightarrow> sq \<in> {1, 2, 4}"
    "(\<exists>e\<in>set two_links. sq \<notin> ?C e) \<longleftrightarrow> sq \<notin> {1, 4}" for sq
    unfolding s by (simp_all only: two_links_forwards ball_simps bex_simps ball_empty bex_empty insert_iff empty_iff) auto
  have p: "map of_nat [1..<nat 4 + 1] = [1, 2, 3, 4 :: uint64]" by (simp add: upt_rec)
  show ?thesis using bonded_gaps_are_common_losses [OF ok(1) _ _ ok(2), of 4 plain_platform 0]
    unfolding Let_def c p by (simp add: in64_def)
qed

text \<open>A link that duplicates every packet and then loses every second one: its ledger has the packet as
  dropped, although a copy of it was forwarded, so that the merge of this one link reports a gap.\<close>

definition doubling_link :: "cell engine" where
  "doubling_link = engine_New
     [CReorder (reorder_New \<lparr>ro_ReorderPct = Fin 0, ro_Gap = 0, ro_Correlation = Fin 0, ro_DupPct = Fin 1\<rparr>
        (rng_sub (new_root 42) ''reorder/c2s/0'')),
      CGE (NewGE \<lparr>geP = Fin 1, geR = Fin 1, geH = Fin 0, geK = Fin 0, hSet = False, kSet = False\<rparr>
        (rng_sub (new_root 42) ''ge/c2s/1''))] []"

lemma duplicates_all:
  assumes "ro_DupPct (ro_cfg r) = Fin 1"
  obtains r' g where "reorder_Process r f = (r', [g, g])" "if_seq g = if_seq f"
proof -
  obtain u where u: "fst (rng_float64 (ro_src (snd (decideReorder r)))) = Fin u" "u < 1" by (rule rng_float64_unit)
  have "fst (decideDup (snd (decideReorder r)))" using u assms by (simp add: decideDup_def split_beta)
  then have "\<exists>g. snd (reorder_Process r f) = [g, g] \<and> if_seq g = if_seq f"
    by (simp add: reorder_Process_outputs Let_def)
  then show thesis using that by (metis prod.collapse)
qed

lemma duplicate_counts_as_dropped:
  "own_drops pf doubling_link (bond_stream 0 [0..<1]) = {1} \<and> own_forwards pf doubling_link (bond_stream 0 [0..<1]) = {1}"
proof -
  let ?p = "bond_packet 0" and ?f = "ingress 1 (bond_packet 0) 0"
  define r where "r = reorder_New \<lparr>ro_ReorderPct = Fin 0, ro_Gap = 0, ro_Correlation = Fin 0, ro_DupPct = Fin 1\<rparr>
    (rng_sub (new_root 42) ''reorder/c2s/0'')"
  define g where "g = NewGE \<lparr>geP = Fin 1, geR = Fin 1, geH = Fin 0, geK = Fin 0, hSet = False, kSet = False\<rparr>
    (rng_sub (new_root 42) ''ge/c2s/1'')"
  have link: "doubling_link = engine_New [CReorder r, CGE g] []" by (simp add: doubling_link_def r_def g_def)
  obtain r' h where rp: "reorder_Process r ?f = (r', [h, h])" "if_seq h = 1"
    by (rule duplicates_all [of r ?f]) (auto simp: r_def reorder_New_def clamp01_def ingress_def)
  have g1: "ge_Process g f = (ge_advance g, [f])" and g2: "ge_Process (ge_advance g) f = (ge_advance (ge_advance g), [])" for f
    by (simp_all add: ge_Process_defaults netem_defaults_def g_def NewGE_def ge_advance_def fle_def)
  have "run_pipeline (cell_Process pf) cell_Name [CReorder r, CGE g] [?f] =
      ([CReorder r', CGE (ge_advance (ge_advance g))], [h], [drop_action ge_Name h])"
    by (simp add: lift_cell_def rp(1) g1 g2)
  then have "\<exists>e'. run_engine pf doubling_link (bond_stream 0 [0..<1]) = Some (e', [[drop_action ge_Name h, forward_action h]])"
    by (simp add: link bond_stream_def engine_Handle_def engine_New_def pipeline_def bond_packet_def i64_id in64_def dir_cases not_le)
  then obtain e' where "run_engine pf doubling_link (bond_stream 0 [0..<1]) = Some (e', [[drop_action ge_Name h, forward_action h]])" ..
  then have "own_drops pf doubling_link (bond_stream 0 [0..<1]) = dropped_seqs [drop_action ge_Name h, forward_action h]"
    "own_forwards pf doubling_link (bond_stream 0 [0..<1]) = forwarded_seqs [drop_action ge_Name h, forward_action h]"
    by (simp_all add: own_drops_def own_forwards_def)
  then show ?thesis using rp(2) by (simp add: dropped_seqs_def forwarded_seqs_def drop_action_def forward_action_def conj_disj_distribR Collect_disj_eq)
qed

text \<open>With exact ledgers, the bonding oracle passes a run exactly when it had two paths,
  delivered something, and delivered every packet that survived on some path.\<close>

theorem bonding_oracle_passes:
  assumes "0 \<le> bi_Gaps inp" "bi_Gaps inp \<le> bi_Total inp" "in64 (bi_Total inp)" "0 < bi_Total inp"
  shows "result_Verdict (bond_ResultFor inp) = Pass \<longleftrightarrow>
    2 \<le> bi_Links inp \<and> 0 < bi_Delivered inp \<and> bi_Total inp - bi_Gaps inp \<le> bi_Delivered inp"
  using assms by (rule bond_passes_iff)

definition bonded_run :: bond_input where
  "bonded_run = \<lparr>bi_Lib = ''srt'', bi_Scenario = ''bond'', bi_Links = 2, bi_Total = 4, bi_Delivered = 3,
     bi_PerLinkDrops = [2, 1], bi_Gaps = 1, bi_Metrics = \<lambda>_. None\<rparr>"

theorem bonding_oracle_passes_witness:
  "result_Verdict (bond_ResultFor bonded_run) = Pass \<and>
   result_Verdict (bond_ResultFor (bonded_run\<lparr>bi_Delivered := 2\<rparr>)) \<noteq> Pass"
  using bonding_oracle_passes [of bonded_run] bonding_oracle_passes [of "bonded_run\<lparr>bi_Delivered := 2\<rparr>"]
  by (simp add: bonded_run_def in64_def)

end
