(* ===== verification/GoParse.thy ===== *)
theory GoParse
  imports GoText GoInt
begin

text \<open>
  The text-reading part of the standard library the program's parsers use:
  \<^verbatim>\<open>strings.Fields\<close>, \<^verbatim>\<open>TrimSpace\<close>, \<^verbatim>\<open>CutPrefix\<close> and \<^verbatim>\<open>Split\<close>, \<^verbatim>\<open>strconv.ParseUint\<close>,
  \<^verbatim>\<open>ParseInt\<close> and \<^verbatim>\<open>Atoi\<close>, and \<^verbatim>\<open>bufio.Scanner\<close> with its line splitter. A string is its
  bytes; white space is what \<^verbatim>\<open>unicode.IsSpace\<close> accepts, by its UTF-8 form. The lemmas show
  that each reader inverts the matching writer, and the locale \<open>text_codec\<close> is what the
  program's own formats promise of theirs.
\<close>

section \<open>Text formats\<close>

text \<open>The contract of a text format: reading what was written of a valid value yields the value
  in its normal form. So equal texts come of equal values, up to that form.\<close>

locale text_codec =
  fixes write_text :: "'a \<Rightarrow> string" and read_text :: "string \<Rightarrow> 'e + 'b"
    and valid :: "'a \<Rightarrow> bool" and normal :: "'a \<Rightarrow> 'b"
  assumes reads: "valid x \<Longrightarrow> read_text (write_text x) = Inr (normal x)"
begin

lemma same_text: "valid x \<Longrightarrow> valid y \<Longrightarrow> write_text x = write_text y \<Longrightarrow> normal x = normal y"
  using reads [of x] reads [of y] by simp

lemma inj_text: "inj_on normal {x. valid x} \<Longrightarrow> inj_on write_text {x. valid x}"
  by (intro inj_onI) (blast dest: same_text inj_onD)

lemma read_same: "valid x \<Longrightarrow> valid y \<Longrightarrow>
    read_text (write_text x) = read_text (write_text y) \<longleftrightarrow> normal x = normal y"
  by (simp add: reads)

end

section \<open>White space\<close>

definition ascii_space :: "char \<Rightarrow> bool" where
  "ascii_space c \<longleftrightarrow> c = CHR '' '' \<or> (9 \<le> (of_char c :: nat) \<and> (of_char c :: nat) \<le> 13)"

text \<open>U+0085, U+00A0, U+1680, U+2000 to U+200A, U+2028, U+2029, U+202F, U+205F, U+3000. A lead
  byte never occurs inside another character, so reading byte by byte finds the same spaces as
  reading character by character.\<close>

definition wide_spaces :: "string list" where
  "wide_spaces = [[CHR 0xC2, CHR 0x85], [CHR 0xC2, CHR 0xA0], [CHR 0xE1, CHR 0x9A, CHR 0x80],
     [CHR 0xE2, CHR 0x80, CHR 0x80], [CHR 0xE2, CHR 0x80, CHR 0x81], [CHR 0xE2, CHR 0x80, CHR 0x82],
     [CHR 0xE2, CHR 0x80, CHR 0x83], [CHR 0xE2, CHR 0x80, CHR 0x84], [CHR 0xE2, CHR 0x80, CHR 0x85],
     [CHR 0xE2, CHR 0x80, CHR 0x86], [CHR 0xE2, CHR 0x80, CHR 0x87], [CHR 0xE2, CHR 0x80, CHR 0x88],
     [CHR 0xE2, CHR 0x80, CHR 0x89], [CHR 0xE2, CHR 0x80, CHR 0x8A], [CHR 0xE2, CHR 0x80, CHR 0xA8],
     [CHR 0xE2, CHR 0x80, CHR 0xA9], [CHR 0xE2, CHR 0x80, CHR 0xAF], [CHR 0xE2, CHR 0x81, CHR 0x9F],
     [CHR 0xE3, CHR 0x80, CHR 0x80]]"

text \<open>The length of the space a string starts with, or 0; the same at its end.\<close>

definition space_len :: "string \<Rightarrow> nat" where
  "space_len s = (case s of [] \<Rightarrow> 0 | c # _ \<Rightarrow>
     if ascii_space c then 1
     else (case find (\<lambda>w. take (length w) s = w) wide_spaces of None \<Rightarrow> 0 | Some w \<Rightarrow> length w))"

definition space_end :: "string \<Rightarrow> nat" where
  "space_end s =
     (if s = [] then 0 else if ascii_space (last s) then 1
      else (case find (\<lambda>w. length w \<le> length s \<and> drop (length s - length w) s = w) wide_spaces of
              None \<Rightarrow> 0 | Some w \<Rightarrow> length w))"

function trim_left :: "string \<Rightarrow> string" where
  "trim_left s = (if s = [] \<or> space_len s = 0 then s else trim_left (drop (space_len s) s))"
  by auto
termination by (relation "measure length") auto

function trim_right :: "string \<Rightarrow> string" where
  "trim_right s = (if s = [] \<or> space_end s = 0 then s else trim_right (take (length s - space_end s) s))"
  by auto
termination by (relation "measure length") auto

declare trim_left.simps [simp del] trim_right.simps [simp del]

definition TrimSpace :: "string \<Rightarrow> string" where
  "TrimSpace s = trim_right (trim_left s)"

definition add_field :: "string \<Rightarrow> string list \<Rightarrow> string list" where
  "add_field cur fs = (if cur = [] then fs else cur # fs)"

function fields_from :: "string \<Rightarrow> string \<Rightarrow> string list" where
  "fields_from cur [] = add_field cur []"
| "fields_from cur (c # cs) =
     (if space_len (c # cs) = 0 then fields_from (cur @ [c]) cs
      else add_field cur (fields_from [] (drop (space_len (c # cs)) (c # cs))))"
  by pat_completeness auto
termination by (relation "measure (\<lambda>(cur, s). length s)") auto

definition Fields :: "string \<Rightarrow> string list" where
  "Fields s = fields_from [] s"

text \<open>\<^verbatim>\<open>FieldsFunc\<close> with a test of ASCII characters.\<close>

fun fields_func :: "(char \<Rightarrow> bool) \<Rightarrow> string \<Rightarrow> string \<Rightarrow> string list" where
  "fields_func sep cur [] = add_field cur []"
| "fields_func sep cur (c # cs) =
     (if sep c then add_field cur (fields_func sep [] cs) else fields_func sep (cur @ [c]) cs)"

section \<open>Prefixes and lines\<close>

definition HasPrefix :: "string \<Rightarrow> string \<Rightarrow> bool" where
  "HasPrefix s p \<longleftrightarrow> take (length p) s = p"

definition CutPrefix :: "string \<Rightarrow> string \<Rightarrow> string option" where
  "CutPrefix s p = (if HasPrefix s p then Some (drop (length p) s) else None)"

definition TrimPrefix :: "string \<Rightarrow> string \<Rightarrow> string" where
  "TrimPrefix s p = (if HasPrefix s p then drop (length p) s else s)"

definition newline :: char where
  "newline = CHR 0x0A"

definition TrimSuffixNewline :: "string \<Rightarrow> string" where
  "TrimSuffixNewline s = (if s \<noteq> [] \<and> last s = newline then butlast s else s)"

text \<open>\<^verbatim>\<open>strings.Split\<close> at newlines.\<close>

fun split_lines_from :: "string \<Rightarrow> string \<Rightarrow> string list" where
  "split_lines_from cur [] = [cur]"
| "split_lines_from cur (c # cs) =
     (if c = newline then cur # split_lines_from [] cs else split_lines_from (cur @ [c]) cs)"

definition SplitNewline :: "string \<Rightarrow> string list" where
  "SplitNewline s = split_lines_from [] s"

section \<open>Numbers\<close>

datatype num_error = ErrSyntax | ErrRange

fun uint_from :: "nat \<Rightarrow> string \<Rightarrow> num_error + nat" where
  "uint_from n [] = Inr n"
| "uint_from n (c # cs) =
     (if \<not> is_digit c then Inl ErrSyntax
      else if n * 10 + digit_value c \<ge> 2 ^ 64 then Inl ErrRange
      else uint_from (n * 10 + digit_value c) cs)"

definition ParseUint :: "string \<Rightarrow> num_error + nat" where
  "ParseUint s = (if s = [] then Inl ErrSyntax else uint_from 0 s)"

definition ParseInt :: "string \<Rightarrow> num_error + int64" where
  "ParseInt s =
     (let neg = (s \<noteq> [] \<and> hd s = CHR ''-'');
          body = (if s \<noteq> [] \<and> (hd s = CHR ''+'' \<or> hd s = CHR ''-'') then tl s else s)
      in case ParseUint body of
           Inl e \<Rightarrow> Inl e
         | Inr un \<Rightarrow>
             (if \<not> neg \<and> un \<ge> 2 ^ 63 then Inl ErrRange
              else if neg \<and> un > 2 ^ 63 then Inl ErrRange
              else Inr (if neg then - int un else int un)))"

section \<open>Scanning lines\<close>

text \<open>A reader is its contents and whether it then fails; the scanner gives up at a line that
  fills its buffer.\<close>

record reader =
  rd_data :: string
  rd_fails :: bool

definition dropCR :: "string \<Rightarrow> string" where
  "dropCR l = (if l \<noteq> [] \<and> last l = CHR 0x0D then butlast l else l)"

definition max_token :: nat where
  "max_token = 16 * 1024 * 1024"

function scan_lines :: "string \<Rightarrow> string list \<times> bool" where
  "scan_lines s =
     (if s = [] then ([], False)
      else let l = takeWhile (\<lambda>c. c \<noteq> newline) s; rest = dropWhile (\<lambda>c. c \<noteq> newline) s in
        if max_token \<le> length l then ([], True)
        else if rest = [] then ([dropCR l], False)
        else let (ls, tooLong) = scan_lines (tl rest) in (dropCR l # ls, tooLong))"
  by auto
termination
proof (relation "measure length")
  fix s l rest :: string
  assume "s \<noteq> []" "rest = dropWhile (\<lambda>c. c \<noteq> newline) s"
  then have "0 < length s" "length rest \<le> length s" by (simp_all add: length_dropWhile_le)
  then have "length rest - 1 < length s" by linarith
  then show "(tl rest, s) \<in> measure length" by simp
qed simp

declare scan_lines.simps [simp del]

section \<open>Reading numbers back\<close>

lemma foldl_number_ge: "n \<le> foldl (\<lambda>n c. n * 10 + digit_value c) n s"
proof (induction s arbitrary: n)
  case (Cons c s)
  show ?case using Cons.IH [of "n * 10 + digit_value c"] by simp
qed simp

lemma uint_from_digits:
  "list_all is_digit s \<Longrightarrow> foldl (\<lambda>n c. n * 10 + digit_value c) n s < 2 ^ 64 \<Longrightarrow>
     uint_from n s = Inr (foldl (\<lambda>n c. n * 10 + digit_value c) n s)"
proof (induction s arbitrary: n)
  case (Cons c s)
  have "n * 10 + digit_value c < 2 ^ 64"
    using Cons.prems(2) foldl_number_ge [of "n * 10 + digit_value c" s] by simp
  then show ?case using Cons by simp
qed simp

lemma uint_from_bound: "uint_from n s = Inr m \<Longrightarrow> n < 2 ^ 64 \<Longrightarrow> m < 2 ^ 64"
  by (induction s arbitrary: n) (auto split: if_splits)

lemma ParseUint_bound: "ParseUint s = Inr m \<Longrightarrow> m < 2 ^ 64"
  by (auto simp: ParseUint_def split: if_splits dest: uint_from_bound)

lemma ParseUint_digits: "n < 2 ^ 64 \<Longrightarrow> ParseUint (digits n) = Inr n"
  using uint_from_digits [OF digits_all, of 0 n] number_digits [of n]
  by (simp add: ParseUint_def number_def)

lemma digits_hd: "hd (digits n) \<noteq> CHR ''-'' \<and> hd (digits n) \<noteq> CHR ''+''"
proof -
  have "is_digit (hd (digits n))" using digits_all [of n] by (cases "digits n") auto
  then show ?thesis by (auto simp: is_digit_def)
qed

lemma ParseInt_itoa: "in64 n \<Longrightarrow> ParseInt (itoa n) = Inr n"
proof (cases "n < 0")
  case True
  assume n: "in64 n"
  then have "ParseUint (digits (nat (- n))) = Inr (nat (- n))" using True by (intro ParseUint_digits) (simp add: in64_def nat_less_iff)
  then show ?thesis using True n by (simp add: itoa_def ParseInt_def in64_def)
next
  case False
  assume n: "in64 n"
  then have "ParseUint (digits (nat n)) = Inr (nat n)" using False by (intro ParseUint_digits) (simp add: in64_def nat_less_iff)
  then show ?thesis using False n digits_hd [of "nat n"] by (simp add: itoa_def ParseInt_def in64_def)
qed

lemma ParseInt_in64: "ParseInt s = Inr n \<Longrightarrow> in64 n"
  by (auto simp: ParseInt_def Let_def in64_def split: sum.splits if_splits)

text \<open>How long a numeral can be.\<close>

lemma digits_length: "n < 10 ^ k \<Longrightarrow> 0 < k \<Longrightarrow> length (digits n) \<le> k"
proof (induction n arbitrary: k rule: digits.induct)
  case (1 n)
  show ?case
  proof (cases "n < 10")
    case True
    then show ?thesis using 1 by (subst digits.simps) simp
  next
    case False
    have "k \<noteq> 1" using 1 False by auto
    then obtain j where k: "k = Suc j" "0 < j" using 1 by (cases k) auto
    then have "n div 10 < 10 ^ j" using 1 by (simp add: less_mult_imp_div_less)
    then show ?thesis using 1 False k by (subst digits.simps) simp
  qed
qed

lemma itoa_length: "in64 n \<Longrightarrow> length (itoa n) \<le> 21"
proof -
  assume n: "in64 n"
  then have "nat n < 10 ^ 20" "nat (- n) < 10 ^ 20" by (auto simp: in64_def)
  then show ?thesis using digits_length [of "nat n" 20] digits_length [of "nat (- n)" 20] by (simp add: itoa_def)
qed

lemma uint_from_less: "uint_from n s = Inr m \<Longrightarrow> m < (n + 1) * 10 ^ length s"
proof (induction s arbitrary: n)
  case (Cons c s)
  have d: "digit_value c \<le> 9" "uint_from (n * 10 + digit_value c) s = Inr m"
    using Cons.prems by (auto simp: is_digit_def digit_value_def split: if_splits)
  have "m < (n * 10 + digit_value c + 1) * 10 ^ length s" by (rule Cons.IH [OF d(2)])
  also have "\<dots> \<le> ((n + 1) * 10) * 10 ^ length s" using d(1) by (intro mult_right_mono) simp_all
  finally show ?case by (simp add: algebra_simps)
qed simp

text \<open>A number is written no longer than it was read.\<close>

lemma ParseUint_length: "ParseUint s = Inr n \<Longrightarrow> length (digits n) \<le> length s"
  using uint_from_less [of 0 s n] digits_length [of n "length s"] by (auto simp: ParseUint_def split: if_splits)

section \<open>Reading words back\<close>

definition no_space :: "string \<Rightarrow> bool" where
  "no_space w \<longleftrightarrow> (\<forall>i < length w. space_len (drop i w) = 0)"

text \<open>The visible ASCII characters.\<close>

definition graphic :: "char \<Rightarrow> bool" where
  "graphic c \<longleftrightarrow> 33 \<le> (of_char c :: nat) \<and> (of_char c :: nat) < 127"

lemma wide_spaces_bytes: "list_all (\<lambda>w. w \<noteq> [] \<and> list_all (\<lambda>c. 127 \<le> (of_char c :: nat)) w) wide_spaces"
  by code_simp

lemma wide_spaces_hd: "w \<in> set wide_spaces \<Longrightarrow> \<exists>c cs. w = c # cs \<and> 127 \<le> (of_char c :: nat)"
  using wide_spaces_bytes by (cases w) (auto simp: list_all_iff)

lemma wide_spaces_no_blank: "w \<in> set wide_spaces \<Longrightarrow> c \<in> set w \<Longrightarrow> 127 \<le> (of_char c :: nat)"
  using wide_spaces_bytes by (auto simp: list_all_iff)

lemma space_len_graphic: "graphic c \<Longrightarrow> space_len (c # cs) = 0"
proof -
  assume g: "graphic c"
  have "find (\<lambda>w. take (length w) (c # cs) = w) wide_spaces = None"
    using g wide_spaces_hd by (fastforce simp: find_None_iff graphic_def)
  then show ?thesis using g by (auto simp: space_len_def graphic_def ascii_space_def)
qed

lemma no_space_Nil [simp]: "no_space []"
  by (simp add: no_space_def)

lemma no_space_Cons: "no_space (c # w) \<longleftrightarrow> space_len (c # w) = 0 \<and> no_space w"
  unfolding no_space_def by (auto simp: less_Suc_eq_0_disj)

lemma no_space_graphic: "list_all graphic p \<Longrightarrow> no_space w \<Longrightarrow> no_space (p @ w)"
  by (induction p) (simp_all add: no_space_Cons space_len_graphic)

lemma graphic_digits: "list_all graphic (digits n)"
  using digits_all [of n] by (auto simp: list_all_iff is_digit_def graphic_def)

lemma graphic_itoa: "list_all graphic (itoa n)"
  using graphic_digits by (simp add: itoa_def graphic_def)

text \<open>A word ends where a blank follows it.\<close>

lemma space_len_before_blank:
  assumes "c # w \<noteq> []"
  shows "space_len ((c # w) @ CHR '' '' # r) = space_len (c # w)"
proof -
  have "take (length v) ((c # w) @ CHR '' '' # r) = v \<longleftrightarrow> take (length v) (c # w) = v" if v: "v \<in> set wide_spaces" for v
  proof
    assume t: "take (length v) ((c # w) @ CHR '' '' # r) = v"
    have "CHR '' '' \<notin> set v" using wide_spaces_no_blank [OF v, of "CHR '' ''"] by auto
    then have "length v \<le> length (c # w)"
      using t [symmetric] by (cases "length v - length (c # w)") (auto simp del: append_Cons)
    then show "take (length v) (c # w) = v" using t by (simp del: append_Cons)
  next
    assume "take (length v) (c # w) = v"
    then show "take (length v) ((c # w) @ CHR '' '' # r) = v"
      by (metis append_take_drop_id length_take min.absorb_iff2 append.assoc append_eq_conv_conj)
  qed
  then have "find (\<lambda>v. take (length v) ((c # w) @ CHR '' '' # r) = v) wide_spaces =
      find (\<lambda>v. take (length v) (c # w) = v) wide_spaces"
    by (intro find_cong) auto
  then show ?thesis by (simp add: space_len_def)
qed

lemma space_len_blank: "space_len (CHR '' '' # r) = 1"
  by (simp add: space_len_def ascii_space_def)

lemma fields_from_word:
  "no_space w \<Longrightarrow> fields_from cur (w @ CHR '' '' # r) = add_field (cur @ w) (fields_from [] r)"
proof (induction w arbitrary: cur)
  case Nil
  then show ?case by (simp add: space_len_blank)
next
  case (Cons c w)
  have "space_len ((c # w) @ CHR '' '' # r) = 0"
    using Cons.prems space_len_before_blank [of c w r] by (simp add: no_space_Cons)
  then show ?case using Cons by (simp add: no_space_Cons)
qed

lemma fields_from_last: "no_space w \<Longrightarrow> fields_from cur w = add_field (cur @ w) []"
  by (induction w arbitrary: cur) (simp_all add: no_space_Cons)

text \<open>The fields of a line are the words it was joined from.\<close>

lemma Fields_join:
  "list_all (\<lambda>w. w \<noteq> [] \<and> no_space w) ws \<Longrightarrow> Fields (join '' '' ws) = ws"
  unfolding Fields_def
proof (induction "'' ''" ws rule: join.induct)
  case 1
  then show ?case by (simp add: add_field_def)
next
  case (2 x)
  then show ?case by (simp add: fields_from_last add_field_def)
next
  case (3 x y xs)
  then show ?case using fields_from_word [of x "[]" "join '' '' (y # xs)"] by (simp add: add_field_def)
qed

text \<open>What \<^verbatim>\<open>Fields\<close> returns has no space left in it.\<close>

lemma space_len_le: "space_len s \<le> length s"
proof (cases s)
  case (Cons c cs)
  have "length w \<le> length s" if "take (length w) s = w" for w
    using that by (metis length_take min.cobounded1 take_all_iff nat_le_linear)
  then show ?thesis using Cons by (auto simp: space_len_def find_Some_iff split: option.split)
qed (simp add: space_len_def)

lemma space_len_prefix: "space_len (u @ v) = 0 \<Longrightarrow> space_len u = 0"
proof (cases u)
  case (Cons c cs)
  assume z: "space_len (u @ v) = 0"
  have a: "\<not> ascii_space c" using z Cons by (auto simp: space_len_def split: if_splits)
  have "take (length w) (u @ v) \<noteq> w" if w: "w \<in> set wide_spaces" for w
  proof
    assume "take (length w) (u @ v) = w"
    then obtain w' where "find (\<lambda>w. take (length w) (u @ v) = w) wide_spaces = Some w'" "w' \<in> set wide_spaces"
      using w by (cases "find (\<lambda>w. take (length w) (u @ v) = w) wide_spaces")
        (auto simp: find_None_iff find_Some_iff in_set_conv_nth)
    then show False using z Cons a wide_spaces_hd by (fastforce simp: space_len_def)
  qed
  then have "find (\<lambda>w. take (length w) u = w) wide_spaces = None"
    by (fastforce simp: find_None_iff take_append)
  then show ?thesis using a Cons by (simp add: space_len_def)
qed (simp add: space_len_def)

lemma fields_from_words:
  assumes "\<forall>i < length cur. space_len (drop i cur @ s) = 0" "f \<in> set (fields_from cur s)"
  shows "f \<noteq> [] \<and> no_space f \<and> length f \<le> length cur + length s"
  using assms
proof (induction cur s rule: fields_from.induct)
  case (1 cur)
  then show ?case by (auto simp: add_field_def no_space_def split: if_splits)
next
  case (2 cur c cs)
  let ?n = "space_len (c # cs)"
  have no: "no_space cur" unfolding no_space_def
  proof (intro allI impI)
    fix i assume "i < length cur"
    then have "space_len (drop i cur @ c # cs) = 0" using "2.prems"(1) by simp
    then show "space_len (drop i cur) = 0" by (rule space_len_prefix)
  qed
  show ?case
  proof (cases "?n = 0")
    case True
    have "\<forall>i < length (cur @ [c]). space_len (drop i (cur @ [c]) @ cs) = 0"
    proof (intro allI impI)
      fix i assume "i < length (cur @ [c])"
      then show "space_len (drop i (cur @ [c]) @ cs) = 0"
        using "2.prems"(1) True by (cases "i < length cur") (auto simp: not_less)
    qed
    then show ?thesis using "2.IH"(1) [OF True] "2.prems"(2) True by simp
  next
    case False
    then consider "cur \<noteq> []" "f = cur" | "f \<in> set (fields_from [] (drop ?n (c # cs)))"
      using "2.prems"(2) by (auto simp: add_field_def split: if_splits)
    then show ?thesis
    proof cases
      case 1
      then show ?thesis using no by simp
    next
      case 2
      then show ?thesis using "2.IH"(2) [OF False] by auto
    qed
  qed
qed

lemma Fields_words: "f \<in> set (Fields s) \<Longrightarrow> f \<noteq> [] \<and> no_space f \<and> length f \<le> length s"
  using fields_from_words [of "[]" s f] by (simp add: Fields_def)

lemma Fields_all_words: "list_all (\<lambda>w. w \<noteq> [] \<and> no_space w) (Fields s)"
  using Fields_words by (auto simp: list_all_iff)

text \<open>Nor is there more to a line than its fields and what separates them.\<close>

lemma fields_from_total:
  "sum_list (map length (fields_from cur s)) + length (fields_from cur s) \<le> length cur + length s + 1"
proof (induction cur s rule: fields_from.induct)
  case (2 cur c cs)
  show ?case
  proof (cases "space_len (c # cs) = 0")
    case True
    then show ?thesis using "2.IH"(1) by simp
  next
    case False
    have "length (drop (space_len (c # cs)) (c # cs)) + 1 \<le> length (c # cs)" using False space_len_le [of "c # cs"] by simp
    then show ?thesis using "2.IH"(2) [OF False] by (auto simp: add_field_def False)
  qed
qed (simp add: add_field_def)

lemma Fields_total: "sum_list (map (\<lambda>w. 1 + length w) (Fields s)) \<le> length s + 1"
  using fields_from_total [of "[]" s] by (simp add: Fields_def sum_list_Suc)

section \<open>Scanning written lines\<close>

definition plain_line :: "string \<Rightarrow> bool" where
  "plain_line l \<longleftrightarrow> newline \<notin> set l \<and> (l = [] \<or> last l \<noteq> CHR 0x0D) \<and> length l < max_token"

definition unlines :: "string list \<Rightarrow> string" where
  "unlines ls = concat (map (\<lambda>l. l @ [newline]) ls)"

lemma scan_lines_step:
  "plain_line l \<Longrightarrow> scan_lines (l @ newline # rest) = (let (ls, b) = scan_lines rest in (l # ls, b))"
  by (subst scan_lines.simps)
     (auto simp: plain_line_def Let_def dropCR_def takeWhile_append dropWhile_append split: prod.splits)

lemma scan_lines_unlines: "list_all plain_line ls \<Longrightarrow> scan_lines (unlines ls) = (ls, False)"
proof (induction ls)
  case Nil
  then show ?case by (subst scan_lines.simps) (simp add: unlines_def)
next
  case (Cons l ls)
  then show ?case using scan_lines_step [of l "unlines ls"] by (simp add: unlines_def)
qed

text \<open>A line that the scanner returns was short enough for its buffer.\<close>

lemma scan_lines_length: "l \<in> set (fst (scan_lines s)) \<Longrightarrow> length l < max_token"
proof (induction s rule: scan_lines.induct)
  case (1 s)
  let ?l = "takeWhile (\<lambda>c. c \<noteq> newline) s" and ?r = "dropWhile (\<lambda>c. c \<noteq> newline) s"
  have cr: "length (dropCR ?l) \<le> length ?l" by (simp add: dropCR_def)
  consider "s = []" | "s \<noteq> []" "max_token \<le> length ?l" | "s \<noteq> []" "\<not> max_token \<le> length ?l" "?r = []"
    | "s \<noteq> []" "\<not> max_token \<le> length ?l" "?r \<noteq> []" by blast
  then show ?case
  proof cases
    case 4
    then have "l = dropCR ?l \<or> l \<in> set (fst (scan_lines (tl ?r)))"
      using "1.prems" by (subst (asm) scan_lines.simps) (auto simp: Let_def split: prod.splits if_splits)
    then show ?thesis using "1.IH" [OF 4(1) refl refl 4(2,3)] cr 4(2) by auto
  qed (use "1.prems" cr in \<open>subst (asm) scan_lines.simps, simp add: Let_def\<close>)+
qed

end
