(* ===== verification/Pattern.thy ===== *)
theory Pattern
  imports Engine GoParse
begin

text \<open>
  \<^verbatim>\<open>internal/pattern/pattern.go\<close>: the record/replay artifact. A recorder collects one record
  per action and renders a header line and one line per record; a strict parser reads the
  artifact back; \<^verbatim>\<open>Compare\<close> finds the first line at which two artifacts differ. The lemmas
  show the round trip, that the parser's results are stable under re-serialisation, and that
  the comparison of two recorded runs is blind to nothing. \<^verbatim>\<open>WriteTo\<close> is
  theory \<^verbatim>\<open>ArtifactWriter\<close>.
\<close>

section \<open>Records\<close>

definition pat_Version :: int where "pat_Version = 1"

definition headerTag :: string where "headerTag = ''impair-pattern''"

type_synonym disposition = "8 word"

definition pat_Forward :: disposition where "pat_Forward = 0"
definition pat_Drop :: disposition where "pat_Drop = 1"

definition disposition_String :: "disposition \<Rightarrow> string" where
  "disposition_String d = (if d = pat_Forward then ''FWD'' else if d = pat_Drop then ''DROP'' else ''?'')"

record pat_record =
  pr_Seq :: uint64
  pr_Dir :: direction
  pr_Disp :: disposition
  pr_Offset :: int64
  pr_Reason :: string

record pattern =
  pt_Version :: int64
  pt_Seed :: int64
  pt_Records :: "pat_record list"

record recorder =
  rc_seed :: int64
  rc_records :: "pat_record list"

definition NewRecorder :: "int64 \<Rightarrow> recorder" where
  "NewRecorder seed = \<lparr>rc_seed = seed, rc_records = []\<rparr>"

definition recorder_Add :: "recorder \<Rightarrow> int64 \<Rightarrow> action \<Rightarrow> recorder" where
  "recorder_Add r recvAt a =
     (let rc = \<lparr>pr_Seq = act_seq a, pr_Dir = act_dir a, pr_Disp = pat_Forward, pr_Offset = 0, pr_Reason = []\<rparr>;
          rc = (case act_kind a of
                  Drop \<Rightarrow> rc\<lparr>pr_Disp := pat_Drop, pr_Reason := act_reason a\<rparr>
                | Forward \<Rightarrow>
                    let off = i64 (act_deliver_at a - recvAt);
                        off = (if off < 0 then 0 else off)
                    in rc\<lparr>pr_Disp := pat_Forward, pr_Offset := off\<rparr>)
      in r\<lparr>rc_records := rc_records r @ [rc]\<rparr>)"

definition recorder_Len :: "recorder \<Rightarrow> int64" where
  "recorder_Len r = int (length (rc_records r))"

section \<open>Writing\<close>

definition writeHeader :: "int64 \<Rightarrow> string" where
  "writeHeader seed = headerTag @ '' v'' @ itoa pat_Version @ '' seed='' @ itoa seed @ [newline]"

definition writeRecord :: "pat_record \<Rightarrow> string" where
  "writeRecord r =
     ''seq='' @ digits (unat (pr_Seq r)) @ '' dir='' @ direction_String (pr_Dir r) @ '' '' @
     disposition_String (pr_Disp r) @
     (if pr_Disp r = pat_Drop then '' reason='' @ pr_Reason r else '' off='' @ itoa (pr_Offset r)) @ [newline]"

definition recorder_String :: "recorder \<Rightarrow> string" where
  "recorder_String r = writeHeader (rc_seed r) @ concat (map writeRecord (rc_records r))"

section \<open>Parsing\<close>

text \<open>The errors, by what their messages name.\<close>

datatype line_error =
    BadHeader string | BadVersionField string | BadVersion string num_error
  | MissingSeed string | BadSeed string num_error
  | FieldCount nat string | MissingSeq string | BadSeq string num_error | MissingDir string | BadDir string
  | MissingOff string | BadOff string num_error | NegativeOff int64 | MissingReason string
  | BadDisposition string

datatype pattern_error = LineError nat line_error | ReadError | MissingHeader

definition parseHeader :: "string \<Rightarrow> line_error + int64 \<times> int64" where
  "parseHeader line =
     (let fs = Fields line in
      if length fs \<noteq> 3 \<or> fs ! 0 \<noteq> headerTag then Inl (BadHeader line)
      else if \<not> HasPrefix (fs ! 1) ''v'' then Inl (BadVersionField (fs ! 1))
      else case ParseInt (drop 1 (fs ! 1)) of
             Inl e \<Rightarrow> Inl (BadVersion (fs ! 1) e)
           | Inr version \<Rightarrow>
               (case CutPrefix (fs ! 2) ''seed='' of
                  None \<Rightarrow> Inl (MissingSeed (fs ! 2))
                | Some sv \<Rightarrow> (case ParseInt sv of
                    Inl e \<Rightarrow> Inl (BadSeed sv e)
                  | Inr seed \<Rightarrow> Inr (version, seed))))"

definition parseDir :: "string \<Rightarrow> direction option" where
  "parseDir s = (if s = ''c2s'' then Some C2S else if s = ''s2c'' then Some S2C else None)"

definition parseFate :: "pat_record \<Rightarrow> string \<Rightarrow> string \<Rightarrow> line_error + pat_record" where
  "parseFate r disp arg =
     (if disp = ''FWD'' then
        (case CutPrefix arg ''off='' of
           None \<Rightarrow> Inl (MissingOff arg)
         | Some ov \<Rightarrow> (case ParseInt ov of
             Inl e \<Rightarrow> Inl (BadOff ov e)
           | Inr off \<Rightarrow> (if off < 0 then Inl (NegativeOff off)
               else Inr (r\<lparr>pr_Disp := pat_Forward, pr_Offset := off\<rparr>))))
      else if disp = ''DROP'' then
        (case CutPrefix arg ''reason='' of
           None \<Rightarrow> Inl (MissingReason arg)
         | Some rv \<Rightarrow> Inr (r\<lparr>pr_Disp := pat_Drop, pr_Reason := rv\<rparr>))
      else Inl (BadDisposition disp))"

definition parseRecord :: "string \<Rightarrow> line_error + pat_record" where
  "parseRecord line =
     (let fs = Fields line in
      if length fs \<noteq> 4 then Inl (FieldCount (length fs) line)
      else case CutPrefix (fs ! 0) ''seq='' of
             None \<Rightarrow> Inl (MissingSeq (fs ! 0))
           | Some sv \<Rightarrow> (case ParseUint sv of
               Inl e \<Rightarrow> Inl (BadSeq sv e)
             | Inr sq \<Rightarrow>
                 (case CutPrefix (fs ! 1) ''dir='' of
                    None \<Rightarrow> Inl (MissingDir (fs ! 1))
                  | Some dv \<Rightarrow> (case parseDir dv of
                      None \<Rightarrow> Inl (BadDir dv)
                    | Some dir \<Rightarrow> parseFate \<lparr>pr_Seq = of_nat sq, pr_Dir = dir, pr_Disp = 0,
                        pr_Offset = 0, pr_Reason = []\<rparr> (fs ! 2) (fs ! 3)))))"

fun parse_records :: "nat \<Rightarrow> pattern \<Rightarrow> string list \<Rightarrow> pattern_error + pattern" where
  "parse_records n p [] = Inr p"
| "parse_records n p (line # ls) =
     (if line = [] then parse_records (Suc n) p ls
      else case parseRecord line of
             Inl e \<Rightarrow> Inl (LineError n e)
           | Inr r \<Rightarrow> parse_records (Suc n) (p\<lparr>pt_Records := pt_Records p @ [r]\<rparr>) ls)"

definition pattern_Parse :: "reader \<Rightarrow> pattern_error + pattern" where
  "pattern_Parse rd =
     (let (ls, tooLong) = scan_lines (rd_data rd); readErr = (tooLong \<or> rd_fails rd)
      in case ls of
           [] \<Rightarrow> Inl (if readErr then ReadError else MissingHeader)
         | line # rest \<Rightarrow>
             (case parseHeader line of
                Inl e \<Rightarrow> Inl (LineError 1 e)
              | Inr (v, seed) \<Rightarrow>
                  (case parse_records 2 \<lparr>pt_Version = v, pt_Seed = seed, pt_Records = []\<rparr> rest of
                     Inl e \<Rightarrow> Inl e
                   | Inr p \<Rightarrow> (if readErr then Inl ReadError else Inr p))))"

section \<open>Comparing\<close>

record diff =
  df_Line :: int64
  df_A :: string
  df_B :: string

definition splitLines :: "string \<Rightarrow> string list" where
  "splitLines s = (let s = TrimSuffixNewline s in if s = [] then [] else SplitNewline s)"

definition line_at :: "string list \<Rightarrow> nat \<Rightarrow> string" where
  "line_at ls i = (if i < length ls then ls ! i else [])"

fun compare_from :: "string list \<Rightarrow> string list \<Rightarrow> nat list \<Rightarrow> diff option" where
  "compare_from la lb [] = None"
| "compare_from la lb (i # is) =
     (if line_at la i \<noteq> line_at lb i
      then Some \<lparr>df_Line = int (i + 1), df_A = line_at la i, df_B = line_at lb i\<rparr>
      else compare_from la lb is)"

definition Compare :: "string \<Rightarrow> string \<Rightarrow> diff option" where
  "Compare a b =
     (let la = splitLines a; lb = splitLines b;
          n = (if length lb > length la then length lb else length la)
      in compare_from la lb [0..<n])"

section \<open>Round trip\<close>

definition record_words :: "pat_record \<Rightarrow> string list" where
  "record_words r = [''seq='' @ digits (unat (pr_Seq r)), ''dir='' @ direction_String (pr_Dir r),
     disposition_String (pr_Disp r),
     if pr_Disp r = pat_Drop then ''reason='' @ pr_Reason r else ''off='' @ itoa (pr_Offset r)]"

text \<open>The records an engine's run produces: a known direction, and either a forward with a
  non-negative offset or a drop with a reason that has no white space and fits in the scanner's
  buffer with the rest of its line.\<close>

definition rec_ok :: "pat_record \<Rightarrow> bool" where
  "rec_ok r \<longleftrightarrow> pr_Dir r \<in> {C2S, S2C} \<and>
     (pr_Disp r = pat_Forward \<and> 0 \<le> pr_Offset r \<and> in64 (pr_Offset r) \<and> pr_Reason r = [] \<or>
      pr_Disp r = pat_Drop \<and> pr_Offset r = 0 \<and> no_space (pr_Reason r) \<and> length (join '' '' (record_words r)) < max_token)"

lemma writeRecord_words: "writeRecord r = join '' '' (record_words r) @ [newline]"
  by (simp add: writeRecord_def record_words_def)

definition header_words :: "int64 \<Rightarrow> string list" where
  "header_words seed = [headerTag, ''v'' @ itoa pat_Version, ''seed='' @ itoa seed]"

lemma writeHeader_words: "writeHeader seed = join '' '' (header_words seed) @ [newline]"
  by (simp add: writeHeader_def header_words_def)

lemma recorder_String_unlines:
  "recorder_String r = unlines (map (join '' '') (header_words (rc_seed r) # map record_words (rc_records r)))"
  by (simp add: recorder_String_def unlines_def comp_def flip: writeRecord_words writeHeader_words)

lemma graphic_no_space: "list_all graphic w \<Longrightarrow> no_space w"
  using no_space_graphic [of w "[]"] by simp

lemma CutPrefix_append [simp]: "CutPrefix (p @ s) p = Some s"
  by (simp add: CutPrefix_def HasPrefix_def)

lemma CutPrefix_Some: "CutPrefix s p = Some r \<Longrightarrow> s = p @ r"
  by (auto simp: CutPrefix_def HasPrefix_def split: if_splits) (metis append_take_drop_id)

lemma header_words_ok: "list_all (\<lambda>w. w \<noteq> [] \<and> no_space w) (header_words seed)"
  by (auto simp: header_words_def headerTag_def graphic_itoa intro!: graphic_no_space)
    (simp_all add: graphic_def)

lemma record_words_ok: "rec_ok r \<Longrightarrow> list_all (\<lambda>w. w \<noteq> [] \<and> no_space w) (record_words r)"
proof -
  assume r: "rec_ok r"
  have "no_space (''seq='' @ digits (unat (pr_Seq r)))" "no_space (''off='' @ itoa (pr_Offset r))"
    by (rule graphic_no_space; simp add: graphic_digits graphic_itoa graphic_def)+
  moreover have "no_space (''dir='' @ direction_String (pr_Dir r))" "no_space (disposition_String (pr_Disp r))"
    by (rule graphic_no_space; simp add: direction_String_def disposition_String_def graphic_def)+
  moreover have "no_space (''reason='' @ pr_Reason r)" if "no_space (pr_Reason r)"
    by (rule no_space_graphic [OF _ that]) (simp add: graphic_def)
  moreover have "disposition_String (pr_Disp r) \<noteq> []" by (simp add: disposition_String_def)
  ultimately show ?thesis using r by (auto simp: record_words_def rec_ok_def pat_Forward_def pat_Drop_def)
qed

lemma parseHeader_write:
  "in64 seed \<Longrightarrow> parseHeader (join '' '' (header_words seed)) = Inr (1, seed)"
proof -
  assume s: "in64 seed"
  have "HasPrefix (''v'' @ itoa pat_Version) ''v''" by (simp add: HasPrefix_def)
  moreover have "ParseInt (itoa pat_Version) = Inr 1" using ParseInt_itoa [of 1] by (simp add: pat_Version_def in64_def)
  moreover have "CutPrefix (''seed='' @ itoa seed) ''seed='' = Some (itoa seed)" by (rule CutPrefix_append)
  ultimately show ?thesis using s ParseInt_itoa [of seed]
    by (simp only: parseHeader_def Fields_join [OF header_words_ok] Let_def)
      (simp add: header_words_def)
qed

lemma parseRecord_write: "rec_ok r \<Longrightarrow> parseRecord (join '' '' (record_words r)) = Inr r"
proof -
  assume r: "rec_ok r"
  have "CutPrefix (''seq='' @ digits (unat (pr_Seq r))) ''seq='' = Some (digits (unat (pr_Seq r)))"
    "CutPrefix (''dir='' @ direction_String (pr_Dir r)) ''dir='' = Some (direction_String (pr_Dir r))"
    "CutPrefix (''off='' @ itoa (pr_Offset r)) ''off='' = Some (itoa (pr_Offset r))"
    "CutPrefix (''reason='' @ pr_Reason r) ''reason='' = Some (pr_Reason r)"
    by (rule CutPrefix_append)+
  moreover have "ParseUint (digits (unat (pr_Seq r))) = Inr (unat (pr_Seq r))"
    using unsigned_less [of "pr_Seq r", where ?'a = nat] by (intro ParseUint_digits) simp
  moreover have "parseDir (direction_String (pr_Dir r)) = Some (pr_Dir r)"
    using r by (auto simp: rec_ok_def parseDir_def direction_String_def C2S_def S2C_def)
  moreover have "(of_nat (unat (pr_Seq r)) :: uint64) = pr_Seq r" by simp
  ultimately show ?thesis using r ParseInt_itoa [of "pr_Offset r"]
    by (simp only: parseRecord_def Fields_join [OF record_words_ok [OF r]] Let_def)
      (auto simp: record_words_def parseFate_def rec_ok_def disposition_String_def pat_Forward_def pat_Drop_def not_less)
qed

text \<open>The written lines are short and hold no line end.\<close>

lemma no_space_set: "no_space w \<Longrightarrow> c \<in> set w \<Longrightarrow> \<not> ascii_space c"
proof (induction w)
  case (Cons a w)
  then show ?case by (auto simp: no_space_Cons space_len_def split: if_splits)
qed simp

lemma set_join: "set (join sep ws) \<subseteq> set sep \<union> \<Union> (set ` set ws)"
  by (induction sep ws rule: join.induct) auto

lemma last_join: "ws \<noteq> [] \<Longrightarrow> last ws \<noteq> [] \<Longrightarrow> join sep ws \<noteq> [] \<and> last (join sep ws) = last (last ws)"
  by (induction sep ws rule: join.induct) auto

lemma length_join: "ws \<noteq> [] \<Longrightarrow> length (join sep ws) + length sep = sum_list (map (\<lambda>w. length sep + length w) ws)"
  by (induction sep ws rule: join.induct) auto

lemma join_words_less: "ws \<noteq> [] \<Longrightarrow> length (join '' '' ws) < n \<longleftrightarrow> sum_list (map (\<lambda>w. Suc (length w)) ws) < Suc n"
  using length_join [of ws "'' ''", simplified] by (metis Suc_less_eq)

lemma plain_join:
  assumes "ws \<noteq> []" "list_all (\<lambda>w. w \<noteq> [] \<and> no_space w) ws" "length (join '' '' ws) < max_token"
  shows "plain_line (join '' '' ws) \<and> join '' '' ws \<noteq> []"
proof -
  have last: "last ws \<in> set ws" "last ws \<noteq> []" using assms(1,2) by (auto simp: list_all_iff)
  have j: "join '' '' ws \<noteq> []" "last (join '' '' ws) = last (last ws)" using last_join assms(1) last(2) by auto
  have "last (last ws) \<in> set (last ws)" "no_space (last ws)" using last assms(2) by (auto simp: list_all_iff)
  then have "\<not> ascii_space (last (last ws))" using no_space_set by blast
  then have cr: "last (join '' '' ws) \<noteq> CHR 0x0D" using j(2) by (auto simp: ascii_space_def)
  have "newline \<notin> set (join '' '' ws)"
  proof
    assume "newline \<in> set (join '' '' ws)"
    then obtain w where "w \<in> set ws" "newline \<in> set w" using set_join [of "'' ''" ws] by (auto simp: newline_def)
    then have "\<not> ascii_space newline" using assms(2) no_space_set by (auto simp: list_all_iff)
    then show False by (simp add: ascii_space_def newline_def)
  qed
  then show ?thesis using cr j(1) assms(3) by (simp add: plain_line_def)
qed

lemma header_plain: "in64 seed \<Longrightarrow> plain_line (join '' '' (header_words seed)) \<and> join '' '' (header_words seed) \<noteq> []"
  using itoa_length [of seed] itoa_length [of 1]
  by (intro plain_join header_words_ok) (simp_all add: join_words_less header_words_def headerTag_def pat_Version_def max_token_def in64_def del: join.simps)

lemma record_plain: "rec_ok r \<Longrightarrow> plain_line (join '' '' (record_words r)) \<and> join '' '' (record_words r) \<noteq> []"
proof -
  assume r: "rec_ok r"
  have n: "unat (pr_Seq r) < 10 ^ 20" using unsigned_less [of "pr_Seq r", where ?'a = nat] by simp
  have "length (join '' '' (record_words r)) < max_token"
  proof (cases "pr_Disp r = pat_Drop")
    case True
    then show ?thesis using r by (simp add: rec_ok_def pat_Forward_def pat_Drop_def)
  next
    case False
    then have "length (itoa (pr_Offset r)) \<le> 21" using r itoa_length by (auto simp: rec_ok_def)
    moreover have "length (direction_String (pr_Dir r)) \<le> 3" "length (disposition_String (pr_Disp r)) \<le> 4"
      by (simp_all add: direction_String_def disposition_String_def)
    moreover have "record_words r \<noteq> []" by (simp add: record_words_def)
    ultimately show ?thesis using False digits_length [OF n]
      by (subst join_words_less) (simp_all add: record_words_def max_token_def)
  qed
  then show ?thesis using record_words_ok [OF r] by (intro plain_join) (simp_all add: record_words_def)
qed

lemma parse_records_write:
  "list_all rec_ok rs \<Longrightarrow>
     parse_records n p (map (join '' '') (map record_words rs)) = Inr (p\<lparr>pt_Records := pt_Records p @ rs\<rparr>)"
proof (induction rs arbitrary: n p)
  case (Cons r rs)
  then show ?case using record_plain [of r] parseRecord_write [of r] by simp
qed simp

lemma pattern_roundtrip:
  assumes "in64 (rc_seed r)" "list_all rec_ok (rc_records r)"
  shows "pattern_Parse \<lparr>rd_data = recorder_String r, rd_fails = False\<rparr> =
     Inr \<lparr>pt_Version = pat_Version, pt_Seed = rc_seed r, pt_Records = rc_records r\<rparr>"
proof -
  let ?ls = "map (join '' '') (header_words (rc_seed r) # map record_words (rc_records r))"
  have "list_all plain_line ?ls"
    using assms header_plain record_plain by (auto simp: list_all_iff)
  then have "scan_lines (recorder_String r) = (?ls, False)" by (simp only: recorder_String_unlines scan_lines_unlines)
  then show ?thesis
    using parseHeader_write [OF assms(1)] parse_records_write [OF assms(2)]
    by (simp add: pattern_Parse_def pat_Version_def comp_def)
qed

section \<open>Parsed artifacts are stable\<close>

lemma no_space_suffix: "no_space (u @ v) \<Longrightarrow> no_space v"
  by (induction u) (simp_all add: no_space_Cons)

lemma parseDir_dir: "parseDir s = Some d \<Longrightarrow> d \<in> {C2S, S2C}"
  by (auto simp: parseDir_def split: if_splits)

lemma parseDir_String: "parseDir s = Some d \<Longrightarrow> direction_String d = s"
  by (auto simp: parseDir_def direction_String_def C2S_def S2C_def split: if_splits)

lemma parseRecord_ok:
  assumes "parseRecord line = Inr r" "length line < max_token"
  shows "rec_ok r"
proof -
  let ?fs = "Fields line"
  obtain sq sv dv dir where four: "length ?fs = 4" and dv: "parseDir dv = Some dir"
    and sv: "CutPrefix (?fs ! 0) ''seq='' = Some sv" "ParseUint sv = Inr sq" "CutPrefix (?fs ! 1) ''dir='' = Some dv"
    and f: "parseFate \<lparr>pr_Seq = of_nat sq, pr_Dir = dir, pr_Disp = 0, pr_Offset = 0, pr_Reason = []\<rparr> (?fs ! 2) (?fs ! 3) = Inr r"
    using assms(1) by (auto simp: parseRecord_def Let_def split: if_splits option.splits sum.splits)
  note dir = parseDir_dir [OF dv]
  show ?thesis
  proof (cases "?fs ! 2 = ''FWD''")
    case True
    then show ?thesis using f dir
      by (auto simp: parseFate_def rec_ok_def dest: ParseInt_in64 split: option.splits sum.splits if_splits)
  next
    case False
    then obtain rv where rv: "CutPrefix (?fs ! 3) ''reason='' = Some rv" and drop: "?fs ! 2 = ''DROP''"
      and r: "r = \<lparr>pr_Seq = of_nat sq, pr_Dir = dir, pr_Disp = pat_Drop, pr_Offset = 0, pr_Reason = rv\<rparr>"
      using f by (auto simp: parseFate_def split: option.splits if_splits)
    have fs: "?fs = [''seq='' @ sv, ''dir='' @ dv, ''DROP'', ''reason='' @ rv]"
      using four drop CutPrefix_Some [OF sv(1)] CutPrefix_Some [OF sv(3)] CutPrefix_Some [OF rv]
      by (intro nth_equalityI) (auto simp: less_Suc_eq numeral_eq_Suc)
    then have "no_space rv" using Fields_words [of "''reason='' @ rv" line] no_space_suffix [of "''reason=''" rv] by simp
    moreover have "length (join '' '' (record_words r)) < max_token"
      using Fields_total [of line] assms(2) ParseUint_length [OF sv(2)] ParseUint_bound [OF sv(2)] parseDir_String [OF dv]
      by (subst join_words_less) (simp_all add: fs r record_words_def disposition_String_def pat_Forward_def pat_Drop_def unat_of_nat take_bit_nat_eq_self)
    ultimately show ?thesis using dir r by (simp add: rec_ok_def)
  qed
qed

lemma parse_records_ok:
  "parse_records n p ls = Inr q \<Longrightarrow> (\<And>l. l \<in> set ls \<Longrightarrow> length l < max_token) \<Longrightarrow> list_all rec_ok (pt_Records p) \<Longrightarrow>
     list_all rec_ok (pt_Records q) \<and> pt_Version q = pt_Version p \<and> pt_Seed q = pt_Seed p"
proof (induction ls arbitrary: n p)
  case (Cons line ls)
  show ?case
  proof (cases "line = []")
    case True
    then show ?thesis using Cons.prems by (intro Cons.IH [of "Suc n"]) simp_all
  next
    case False
    then obtain r where r: "parseRecord line = Inr r"
      and rest: "parse_records (Suc n) (p\<lparr>pt_Records := pt_Records p @ [r]\<rparr>) ls = Inr q"
      using Cons.prems(1) by (auto split: sum.splits)
    have "rec_ok r" using parseRecord_ok [OF r] Cons.prems(2) [of line] by simp
    then show ?thesis using Cons.IH [OF rest] Cons.prems(2,3) by simp
  qed
qed simp

lemma parsed_ok:
  assumes "pattern_Parse rd = Inr p"
  shows "list_all rec_ok (pt_Records p) \<and> in64 (pt_Seed p)"
proof -
  obtain ls tooLong where s: "scan_lines (rd_data rd) = (ls, tooLong)" by force
  then obtain line rest v seed where ls: "ls = line # rest" and h: "parseHeader line = Inr (v, seed)"
    and rs: "parse_records 2 \<lparr>pt_Version = v, pt_Seed = seed, pt_Records = []\<rparr> rest = Inr p"
    using assms by (auto simp: pattern_Parse_def Let_def split: list.splits sum.splits if_splits prod.splits)
  have short: "length l < max_token" if "l \<in> set rest" for l
    using scan_lines_length [of l "rd_data rd"] that s ls by simp
  have "in64 seed" using h by (auto simp: parseHeader_def Let_def dest: ParseInt_in64 split: if_splits option.splits sum.splits)
  then show ?thesis using parse_records_ok [OF rs short] by simp
qed

section \<open>What Compare sees\<close>

lemma compare_from_None:
  "compare_from la lb is = None \<longleftrightarrow> (\<forall>i \<in> set is. line_at la i = line_at lb i)"
  by (induction "is") auto

lemma Compare_None: "Compare a b = None \<longleftrightarrow> line_at (splitLines a) = line_at (splitLines b)"
proof -
  have "Compare a b = None \<longleftrightarrow> (\<forall>i < max (length (splitLines a)) (length (splitLines b)).
      line_at (splitLines a) i = line_at (splitLines b) i)"
    by (auto simp: Compare_def Let_def compare_from_None max_def)
  also have "\<dots> \<longleftrightarrow> (\<forall>i. line_at (splitLines a) i = line_at (splitLines b) i)"
    by (auto simp: line_at_def)
  finally show ?thesis by (simp add: fun_eq_iff)
qed

text \<open>Lines read as a function that is empty past the end do not see trailing line ends.\<close>

definition strip_newlines :: "string \<Rightarrow> string" where
  "strip_newlines s = rev (dropWhile (\<lambda>c. c = newline) (rev s))"

lemma split_lines_snoc: "split_lines_from cur (s @ [newline]) = split_lines_from cur s @ [[]]"
  by (induction cur s rule: split_lines_from.induct) auto

lemma split_lines_nonempty [simp]: "split_lines_from cur s \<noteq> []"
  by (induction cur s rule: split_lines_from.induct) auto

lemma line_at_snoc_empty: "line_at (ls @ [[]]) = line_at ls"
  by (auto simp: fun_eq_iff line_at_def nth_append)

lemma line_at_splitLines: "line_at (splitLines s) = line_at (SplitNewline s)"
proof (cases "s \<noteq> [] \<and> last s = newline")
  case True
  then have "s = butlast s @ [newline]" by (metis append_butlast_last_id)
  then have "SplitNewline s = SplitNewline (butlast s) @ [[]]"
    using split_lines_snoc by (metis SplitNewline_def)
  then show ?thesis using True
    by (auto simp: splitLines_def TrimSuffixNewline_def Let_def line_at_snoc_empty)
      (simp add: fun_eq_iff line_at_def SplitNewline_def)
next
  case False
  then show ?thesis by (auto simp: splitLines_def TrimSuffixNewline_def SplitNewline_def fun_eq_iff line_at_def)
qed

lemma line_at_strip: "line_at (SplitNewline (strip_newlines s)) = line_at (SplitNewline s)"
proof (induction s rule: rev_induct)
  case (snoc c s)
  then show ?case
    by (cases "c = newline") (simp_all add: strip_newlines_def SplitNewline_def split_lines_snoc line_at_snoc_empty)
qed (simp add: strip_newlines_def)

lemma split_lines_concat:
  "concat (map (\<lambda>l. l @ [newline]) (split_lines_from cur s)) = cur @ s @ [newline]"
  by (induction cur s rule: split_lines_from.induct) auto

lemma split_lines_last:
  "s \<noteq> [] \<Longrightarrow> last s \<noteq> newline \<Longrightarrow> last (split_lines_from cur s) \<noteq> []"
proof (induction cur s rule: split_lines_from.induct)
  case (2 cur c cs)
  show ?case
  proof (cases cs)
    case Nil
    then show ?thesis using 2 by simp
  next
    case (Cons d ds)
    then show ?thesis using 2 by (auto simp del: split_lines_from.simps(1))
  qed
qed simp

lemma strip_newlines_last: "strip_newlines s \<noteq> [] \<Longrightarrow> last (strip_newlines s) \<noteq> newline"
  using hd_dropWhile [of "\<lambda>c. c = newline" "rev s"] by (simp add: strip_newlines_def last_rev del: dropWhile_eq_Nil_conv)

lemma line_at_inj:
  assumes "line_at la = line_at lb" "la \<noteq> []" "lb \<noteq> []"
    and "last la \<noteq> [] \<or> length la = 1" "last lb \<noteq> [] \<or> length lb = 1"
  shows "la = lb"
proof -
  have short: "length lb \<le> length la"
    if "line_at la = line_at lb" "la \<noteq> []" "last lb \<noteq> [] \<or> length lb = 1" for la lb :: "string list"
  proof (rule ccontr)
    assume l: "\<not> length lb \<le> length la"
    then have "\<not> length lb - 1 < length la" by linarith
    then have "line_at la (length lb - 1) = []" by (simp add: line_at_def)
    then have "line_at lb (length lb - 1) = []" using fun_cong [OF that(1), of "length lb - 1"] by simp
    moreover have "line_at lb (length lb - 1) = last lb" using l by (cases lb rule: rev_cases) (auto simp: line_at_def)
    ultimately have "length lb = 1" using that(3) by simp
    then show False using l that(2) by (cases la) auto
  qed
  have l: "length la = length lb" using short [of la lb] short [of lb la] assms by simp
  moreover have "la ! i = lb ! i" if "i < length la" for i
    using fun_cong [OF assms(1), of i] that l by (simp add: line_at_def)
  ultimately show ?thesis by (rule nth_equalityI)
qed

lemma Compare_blind: "Compare a b = None \<longleftrightarrow> strip_newlines a = strip_newlines b"
proof
  assume "strip_newlines a = strip_newlines b"
  then show "Compare a b = None"
    using line_at_strip [of a] line_at_strip [of b] by (simp add: Compare_None line_at_splitLines)
next
  assume "Compare a b = None"
  then have eq: "line_at (SplitNewline (strip_newlines a)) = line_at (SplitNewline (strip_newlines b))"
    by (simp add: Compare_None line_at_splitLines line_at_strip)
  have last: "last (SplitNewline (strip_newlines s)) \<noteq> [] \<or> length (SplitNewline (strip_newlines s)) = 1" for s
    using split_lines_last [of "strip_newlines s" "[]"] strip_newlines_last [of s]
    by (cases "strip_newlines s = []") (auto simp: SplitNewline_def)
  have "SplitNewline (strip_newlines a) = SplitNewline (strip_newlines b)"
    by (rule line_at_inj [OF eq _ _ last last]) (simp_all add: SplitNewline_def)
  from arg_cong [OF this, of "\<lambda>ls. concat (map (\<lambda>l. l @ [newline]) ls)"]
  show "strip_newlines a = strip_newlines b" unfolding SplitNewline_def split_lines_concat by simp
qed

section \<open>The golden diff\<close>

text \<open>A written artifact ends in exactly one line end, so nothing is lost on it.\<close>

lemma unlines_snoc: "unlines (ls @ [l]) = unlines ls @ l @ [newline]"
  by (simp add: unlines_def)

lemma strip_unlines:
  assumes "ls \<noteq> []" "last ls \<noteq> []" "newline \<notin> set (last ls)"
  shows "strip_newlines (unlines ls) @ [newline] = unlines ls"
proof -
  obtain ls' l where l: "ls = ls' @ [l]" using assms(1) by (cases ls rule: rev_cases) auto
  then obtain l' c where c: "l = l' @ [c]" using assms(2) by (cases l rule: rev_cases) auto
  then have "c \<noteq> newline" using assms(3) l by auto
  then show ?thesis by (simp add: l c unlines_snoc strip_newlines_def)
qed

definition recorder_ok :: "recorder \<Rightarrow> bool" where
  "recorder_ok r \<longleftrightarrow> in64 (rc_seed r) \<and> list_all rec_ok (rc_records r)"

definition artifact_lines :: "recorder \<Rightarrow> string list" where
  "artifact_lines r = map (join '' '') (header_words (rc_seed r) # map record_words (rc_records r))"

lemma artifact_lines_plain: "recorder_ok r \<Longrightarrow> list_all (\<lambda>l. plain_line l \<and> l \<noteq> []) (artifact_lines r)"
  using header_plain record_plain by (auto simp: recorder_ok_def artifact_lines_def list_all_iff)

lemma artifact_lines_last:
  assumes "recorder_ok r"
  shows "artifact_lines r \<noteq> []" "last (artifact_lines r) \<noteq> []" "newline \<notin> set (last (artifact_lines r))"
proof -
  show ne: "artifact_lines r \<noteq> []" by (simp add: artifact_lines_def)
  then have "last (artifact_lines r) \<in> set (artifact_lines r)" by simp
  then show "last (artifact_lines r) \<noteq> []" "newline \<notin> set (last (artifact_lines r))"
    using artifact_lines_plain [OF assms] by (auto simp: list_all_iff plain_line_def)
qed

interpretation artifact: text_codec recorder_String "\<lambda>s. pattern_Parse \<lparr>rd_data = s, rd_fails = False\<rparr>"
  recorder_ok "\<lambda>r. \<lparr>pt_Version = pat_Version, pt_Seed = rc_seed r, pt_Records = rc_records r\<rparr>"
  by unfold_locales (simp add: recorder_ok_def pattern_roundtrip)

lemma recorder_String_inj:
  assumes "recorder_ok r" "recorder_ok r'" "recorder_String r = recorder_String r'"
  shows "r = r'"
  using artifact.same_text [OF assms] by simp

lemma Compare_recorded:
  assumes "recorder_ok r" "recorder_ok r'"
  shows "Compare (recorder_String r) (recorder_String r') = None \<longleftrightarrow> r = r'"
proof -
  have "strip_newlines (recorder_String r) @ [newline] = recorder_String r" if "recorder_ok r" for r
    using strip_unlines [OF artifact_lines_last [OF that]] by (simp add: recorder_String_unlines artifact_lines_def)
  then have eq: "strip_newlines (recorder_String r) = strip_newlines (recorder_String r') \<longleftrightarrow>
      recorder_String r = recorder_String r'"
    using assms by metis
  show ?thesis unfolding Compare_blind eq using recorder_String_inj [OF assms] by auto
qed

text \<open>Where the first difference is reported.\<close>

lemma split_lines_plain: "newline \<notin> set l \<Longrightarrow> split_lines_from cur (l @ newline # s) = (cur @ l) # split_lines_from [] s"
  by (induction l arbitrary: cur) auto

lemma split_unlines:
  "list_all plain_line ls \<Longrightarrow> SplitNewline (unlines ls) = ls @ [[]]"
  by (induction ls) (simp_all add: SplitNewline_def unlines_def plain_line_def split_lines_plain)

lemma line_at_artifact:
  assumes "recorder_ok r"
  shows "line_at (splitLines (recorder_String r)) = line_at (artifact_lines r)"
proof -
  have "list_all plain_line (artifact_lines r)" using artifact_lines_plain [OF assms] by (auto simp: list_all_iff)
  then have "SplitNewline (recorder_String r) = artifact_lines r @ [[]]"
    using split_unlines by (simp add: recorder_String_unlines artifact_lines_def)
  then show ?thesis by (simp add: line_at_splitLines line_at_snoc_empty)
qed

lemma compare_from_first:
  assumes "i < n" "line_at la i \<noteq> line_at lb i" "\<forall>j < i. line_at la j = line_at lb j" "m \<le> i"
  shows "compare_from la lb [m..<n] = Some \<lparr>df_Line = int (i + 1), df_A = line_at la i, df_B = line_at lb i\<rparr>"
  using assms(4)
proof (induction "i - m" arbitrary: m)
  case 0
  then show ?case using assms(1,2) by (simp add: upt_conv_Cons)
next
  case (Suc k)
  then have "[m..<n] = m # [Suc m..<n]" "line_at la m = line_at lb m" using assms(1,3) by (simp_all add: upt_conv_Cons)
  then show ?case using Suc by simp
qed

lemma Compare_first:
  assumes "line_at (splitLines a) i \<noteq> line_at (splitLines b) i" "\<forall>j < i. line_at (splitLines a) j = line_at (splitLines b) j"
  shows "Compare a b = Some \<lparr>df_Line = int (i + 1), df_A = line_at (splitLines a) i, df_B = line_at (splitLines b) i\<rparr>"
proof -
  let ?n = "if length (splitLines b) > length (splitLines a) then length (splitLines b) else length (splitLines a)"
  have "i < ?n" using assms(1) by (auto simp: line_at_def split: if_splits)
  then show ?thesis using compare_from_first [of i ?n _ _ 0] assms by (simp add: Compare_def Let_def)
qed

lemma line_at_record:
  "line_at (artifact_lines r) (Suc i) = (if i < length (rc_records r) then join '' '' (record_words (rc_records r ! i)) else [])"
  by (simp add: artifact_lines_def line_at_def)

lemma record_line_inj:
  "rec_ok a \<Longrightarrow> rec_ok b \<Longrightarrow> join '' '' (record_words a) = join '' '' (record_words b) \<Longrightarrow> a = b"
  using parseRecord_write by (metis sum.inject(2))

text \<open>What the recorder writes for an action of an engine.\<close>

lemma drop_rec_ok:
  assumes "d \<in> {C2S, S2C}" "no_space reason" "length reason < 16000000"
  shows "rec_ok \<lparr>pr_Seq = sq, pr_Dir = d, pr_Disp = pat_Drop, pr_Offset = 0, pr_Reason = reason\<rparr>" (is "rec_ok ?r")
proof -
  have n: "unat sq < 10 ^ 20" using unsigned_less [of sq, where ?'a = nat] by simp
  have "length (direction_String d) \<le> 3" by (simp add: direction_String_def)
  then have "length (join '' '' (record_words ?r)) < max_token"
    using digits_length [OF n] assms(3)
    by (subst join_words_less) (simp_all add: record_words_def disposition_String_def pat_Forward_def pat_Drop_def max_token_def)
  then show ?thesis using assms by (simp add: rec_ok_def)
qed

lemma recorder_Add_ok:
  assumes "list_all rec_ok (rc_records r)" "act_dir a \<in> {C2S, S2C}"
    "act_kind a = Drop \<longrightarrow> no_space (act_reason a) \<and> length (act_reason a) < 16000000"
  shows "list_all rec_ok (rc_records (recorder_Add r t a))"
proof (cases "act_kind a")
  case Forward
  have "in64 (i64 (act_deliver_at a - t))" by simp
  then show ?thesis using assms Forward by (simp add: recorder_Add_def rec_ok_def Let_def)
next
  case Drop
  then show ?thesis using assms drop_rec_ok by (auto simp: recorder_Add_def Let_def)
qed

end
