(* ===== verification/ArtifactWriter.thy ===== *)
theory ArtifactWriter
  imports Pattern "HOL-Library.Sublist"
begin

text \<open>
  \<^verbatim>\<open>WriteTo\<close> of \<^verbatim>\<open>internal/pattern/pattern.go\<close>: the artifact written through a buffered, counted
  writer. An \<^verbatim>\<open>io.Writer\<close> is a function on its own state that says how many bytes it took and
  with what error; the buffered writer is that of package \<^verbatim>\<open>bufio\<close>. The lemmas show that what
  reaches the writer is always the beginning of what \<^verbatim>\<open>String\<close> returns, that it is counted, and
  that an error is reported unless all of it has arrived.
\<close>

section \<open>Writers\<close>

datatype write_error = ErrShortWrite | WriterError string

type_synonym 's io_writer = "'s \<Rightarrow> string \<Rightarrow> 's \<times> int64 \<times> write_error option"

text \<open>The contract of \<^verbatim>\<open>io.Writer\<close>: it takes a beginning of what it is given, and all of it unless
  it returns an error. \<open>out\<close> is what a writer has taken so far.\<close>

definition takes_prefix :: "'s io_writer \<Rightarrow> ('s \<Rightarrow> string) \<Rightarrow> bool" where
  "takes_prefix wr out \<longleftrightarrow> (\<forall>s p s' n e. wr s p = (s', n, e) \<longrightarrow>
     0 \<le> n \<and> n \<le> int (length p) \<and> out s' = out s @ take (nat n) p \<and> (e = None \<longrightarrow> n = int (length p)))"

record 's countWriter =
  cw_w :: 's
  cw_n :: int64

definition countWriter_Write :: "'s io_writer \<Rightarrow> 's countWriter io_writer" where
  "countWriter_Write wr c p =
     (case wr (cw_w c) p of (s', n, e) \<Rightarrow> (\<lparr>cw_w = s', cw_n = i64 (cw_n c + n)\<rparr>, n, e))"

section \<open>The buffered writer\<close>

definition bufio_size :: nat where "bufio_size = 4096"

record 's bufio =
  bw_wr :: 's
  bw_buf :: string
  bw_err :: "write_error option"

definition bufio_Flush :: "'s io_writer \<Rightarrow> 's bufio \<Rightarrow> 's bufio" where
  "bufio_Flush wr b =
     (if bw_err b \<noteq> None \<or> bw_buf b = [] then b
      else case wr (bw_wr b) (bw_buf b) of
        (w', n, e) \<Rightarrow>
          let e = (if n < int (length (bw_buf b)) \<and> e = None then Some ErrShortWrite else e)
          in b\<lparr>bw_wr := w', bw_buf := (if e = None then [] else drop (nat n) (bw_buf b)), bw_err := e\<rparr>)"

lemma bufio_Flush_empty: "bw_err (bufio_Flush wr b) = None \<Longrightarrow> bw_buf (bufio_Flush wr b) = []"
  by (auto simp: bufio_Flush_def Let_def split: prod.splits)

function bufio_WriteString :: "'s io_writer \<Rightarrow> 's bufio \<Rightarrow> string \<Rightarrow> 's bufio" where
  "bufio_WriteString wr b s =
     (let available = bufio_size - length (bw_buf b)
      in if available < length s \<and> bw_err b = None
         then bufio_WriteString wr (bufio_Flush wr (b\<lparr>bw_buf := bw_buf b @ take available s\<rparr>)) (drop available s)
         else if bw_err b \<noteq> None then b
         else b\<lparr>bw_buf := bw_buf b @ s\<rparr>)"
  by pat_completeness auto

text \<open>A turn of the loop fills the buffer and empties it, or ends with an error.\<close>

termination
proof (relation "measure (\<lambda>(wr, b, s). if bw_err b = None then Suc (length s + length (bw_buf b)) else 0)", simp, goal_cases)
  case (1 wr b s available)
  then show ?case
    using bufio_Flush_empty [of wr "b\<lparr>bw_buf := bw_buf b @ take available s\<rparr>"]
    by (cases "bw_err (bufio_Flush wr (b\<lparr>bw_buf := bw_buf b @ take available s\<rparr>))"; cases "bw_buf b") (auto simp: bufio_size_def)
qed

declare bufio_WriteString.simps [simp del]

section \<open>The artifact\<close>

definition header_pieces :: "int64 \<Rightarrow> string list" where
  "header_pieces seed = [headerTag, '' v'', itoa pat_Version, '' seed='', itoa seed, [newline]]"

definition record_pieces :: "pat_record \<Rightarrow> string list" where
  "record_pieces r =
     [''seq='', digits (unat (pr_Seq r)), '' dir='', direction_String (pr_Dir r), '' '', disposition_String (pr_Disp r)] @
     (if pr_Disp r = pat_Drop then ['' reason='', pr_Reason r] else ['' off='', itoa (pr_Offset r)]) @ [[newline]]"

definition recorder_WriteTo :: "'s io_writer \<Rightarrow> recorder \<Rightarrow> 's \<Rightarrow> 's \<times> int64 \<times> write_error option" where
  "recorder_WriteTo wr r s =
     (let cw = countWriter_Write wr;
          bw = \<lparr>bw_wr = \<lparr>cw_w = s, cw_n = 0\<rparr>, bw_buf = [], bw_err = None\<rparr>;
          bw = foldl (bufio_WriteString cw) bw (header_pieces (rc_seed r));
          bw = foldl (\<lambda>bw rec. foldl (bufio_WriteString cw) bw (record_pieces rec)) bw (rc_records r);
          bw = bufio_Flush cw bw
      in (cw_w (bw_wr bw), cw_n (bw_wr bw), bw_err bw))"

text \<open>The pieces are those of \<^verbatim>\<open>String\<close>.\<close>

lemma concat_pieces: "concat (header_pieces (rc_seed r) @ concat (map record_pieces (rc_records r))) = recorder_String r"
proof -
  have "concat (record_pieces rec) = writeRecord rec" for rec by (simp add: record_pieces_def writeRecord_def)
  then have "concat (concat (map record_pieces rs)) = concat (map writeRecord rs)" for rs by (induction rs) simp_all
  then show ?thesis by (simp add: recorder_String_def header_pieces_def writeHeader_def)
qed

section \<open>What arrives\<close>

text \<open>Between two calls the bytes given so far have arrived or wait in the buffer, unless an error has
  stopped the writing: then a beginning of them has arrived.\<close>

definition buffered :: "('s \<Rightarrow> string) \<Rightarrow> string \<Rightarrow> string \<Rightarrow> 's countWriter bufio \<Rightarrow> bool" where
  "buffered out o1 given b \<longleftrightarrow> (\<exists>p. out (cw_w (bw_wr b)) = o1 @ p \<and> cw_n (bw_wr b) = i64 (int (length p)) \<and>
     (if bw_err b = None then p @ bw_buf b = given else prefix p given))"

lemma buffered_append: "buffered out o1 given b \<Longrightarrow> bw_err b \<noteq> None \<Longrightarrow> buffered out o1 (given @ s) b"
  by (auto simp: buffered_def)

lemma buffered_fill:
  "buffered out o1 given b \<Longrightarrow> bw_err b = None \<Longrightarrow> buffered out o1 (given @ s) (b\<lparr>bw_buf := bw_buf b @ s\<rparr>)"
  by (auto simp: buffered_def)

lemma buffered_Flush:
  assumes wr: "takes_prefix wr out" and b: "buffered out o1 given b"
  shows "buffered out o1 given (bufio_Flush (countWriter_Write wr) b)"
proof (cases "bw_err b = None \<and> bw_buf b \<noteq> []")
  case True
  obtain p where p: "out (cw_w (bw_wr b)) = o1 @ p" "cw_n (bw_wr b) = i64 (int (length p))" "p @ bw_buf b = given"
    using b True by (auto simp: buffered_def)
  obtain s' n e where w: "wr (cw_w (bw_wr b)) (bw_buf b) = (s', n, e)" by (cases "wr (cw_w (bw_wr b)) (bw_buf b)") auto
  have t: "0 \<le> n" "n \<le> int (length (bw_buf b))" "out s' = o1 @ p @ take (nat n) (bw_buf b)" "e = None \<longrightarrow> n = int (length (bw_buf b))"
    using wr w p(1) unfolding takes_prefix_def by fastforce+
  have n: "i64 (i64 (int (length p)) + n) = i64 (int (length (p @ take (nat n) (bw_buf b))))"
    using t(1,2) by (simp add: i64_add_wrap min.absorb2 nat_le_iff)
  have pre: "prefix (p @ take (nat n) (bw_buf b)) given" unfolding p(3) [symmetric] by (simp add: take_is_prefix)
  have all: "e = None \<Longrightarrow> p @ take (nat n) (bw_buf b) = given" using t(4) p(3) by simp
  show ?thesis
    using True w t(3,4) p(2) n pre all
    by (auto simp: buffered_def bufio_Flush_def countWriter_Write_def intro!: exI [of _ "p @ take (nat n) (bw_buf b)"])
qed (use b in \<open>auto simp: bufio_Flush_def\<close>)

lemma buffered_WriteString:
  assumes wr: "takes_prefix wr out"
  shows "buffered out o1 given b \<Longrightarrow> buffered out o1 (given @ s) (bufio_WriteString (countWriter_Write wr) b s)"
proof (induction "countWriter_Write wr" b s arbitrary: given rule: bufio_WriteString.induct)
  case (1 b s)
  let ?k = "bufio_size - length (bw_buf b)"
  show ?case
  proof (cases "?k < length s \<and> bw_err b = None")
    case True
    have "buffered out o1 (given @ take ?k s) (bufio_Flush (countWriter_Write wr) (b\<lparr>bw_buf := bw_buf b @ take ?k s\<rparr>))"
      using 1(2) True by (intro buffered_Flush [OF wr] buffered_fill) simp_all
    from 1(1) [OF refl True this] True show ?thesis by (subst bufio_WriteString.simps) (simp add: Let_def)
  next
    case False
    then show ?thesis
      using buffered_append [OF 1(2), of s] buffered_fill [OF 1(2), of s]
      by (subst bufio_WriteString.simps) (auto simp: Let_def)
  qed
qed

lemma buffered_pieces:
  assumes "takes_prefix wr out"
  shows "buffered out o1 given b \<Longrightarrow>
    buffered out o1 (given @ concat ps) (foldl (bufio_WriteString (countWriter_Write wr)) b ps)"
proof (induction ps arbitrary: given b)
  case (Cons s ps)
  from Cons.IH [OF buffered_WriteString [OF assms Cons.prems]] show ?case by simp
qed simp

lemma foldl_pieces: "foldl (\<lambda>b x. foldl f b (g x)) b xs = foldl f b (concat (map g xs))"
  by (induction xs arbitrary: b) simp_all

lemma WriteTo_pieces:
  "recorder_WriteTo wr r s =
    (let bw = bufio_Flush (countWriter_Write wr) (foldl (bufio_WriteString (countWriter_Write wr))
       \<lparr>bw_wr = \<lparr>cw_w = s, cw_n = 0\<rparr>, bw_buf = [], bw_err = None\<rparr> (header_pieces (rc_seed r) @ concat (map record_pieces (rc_records r))))
     in (cw_w (bw_wr bw), cw_n (bw_wr bw), bw_err bw))"
  by (simp add: recorder_WriteTo_def Let_def foldl_pieces)

lemma WriteTo_arrives:
  assumes "takes_prefix wr out" "recorder_WriteTo wr r s = (s', n, e)"
  shows "\<exists>p. out s' = out s @ p \<and> n = i64 (int (length p)) \<and> prefix p (recorder_String r) \<and> (e = None \<longrightarrow> p = recorder_String r)"
proof -
  define cw where "cw = countWriter_Write wr"
  define ps where "ps = header_pieces (rc_seed r) @ concat (map record_pieces (rc_records r))"
  define b where "b = bufio_Flush cw (foldl (bufio_WriteString cw) \<lparr>bw_wr = \<lparr>cw_w = s, cw_n = 0\<rparr>, bw_buf = [], bw_err = None\<rparr> ps)"
  have "buffered out (out s) [] \<lparr>bw_wr = \<lparr>cw_w = s, cw_n = 0\<rparr>, bw_buf = [], bw_err = None\<rparr>" by (simp add: buffered_def)
  from buffered_Flush [OF assms(1) buffered_pieces [OF assms(1) this, of ps]]
  have g: "buffered out (out s) (recorder_String r) b"
    unfolding b_def cw_def ps_def append_Nil concat_pieces .
  moreover have "(s', n, e) = (cw_w (bw_wr b), cw_n (bw_wr b), bw_err b)"
    using assms(2) unfolding WriteTo_pieces b_def cw_def ps_def Let_def by simp
  moreover have "bw_err b = None \<Longrightarrow> bw_buf b = []" unfolding b_def by (rule bufio_Flush_empty)
  ultimately show ?thesis by (auto simp: buffered_def split: if_splits)
qed

text \<open>A writer that never fails gets everything.\<close>

definition never_fails :: "'s io_writer \<Rightarrow> bool" where
  "never_fails wr \<longleftrightarrow> (\<forall>s p. \<exists>s'. wr s p = (s', int (length p), None))"

lemma never_fails_counted: "never_fails wr \<Longrightarrow> never_fails (countWriter_Write wr)"
  unfolding never_fails_def countWriter_Write_def by (metis (no_types, lifting) case_prod_conv)

lemma Flush_no_error: "never_fails wr \<Longrightarrow> bw_err b = None \<Longrightarrow> bw_err (bufio_Flush wr b) = None"
  unfolding never_fails_def bufio_Flush_def
  by (elim allE [of _ "bw_wr b"] allE [of _ "bw_buf b"]) (auto simp: Let_def)

lemma WriteString_no_error: "never_fails wr \<Longrightarrow> bw_err b = None \<Longrightarrow> bw_err (bufio_WriteString wr b s) = None"
proof (induction wr b s rule: bufio_WriteString.induct)
  case (1 wr b s)
  then show ?case
    using Flush_no_error [of wr "b\<lparr>bw_buf := bw_buf b @ take (bufio_size - length (bw_buf b)) s\<rparr>"]
    by (subst bufio_WriteString.simps) (auto simp: Let_def)
qed

lemma pieces_no_error:
  "never_fails wr \<Longrightarrow> bw_err b = None \<Longrightarrow> bw_err (foldl (bufio_WriteString wr) b ps) = None"
  by (induction ps arbitrary: b) (simp_all add: WriteString_no_error)

lemma WriteTo_succeeds: "never_fails wr \<Longrightarrow> snd (snd (recorder_WriteTo wr r s)) = None"
  by (simp add: WriteTo_pieces Let_def Flush_no_error pieces_no_error never_fails_counted)

end
