(* ===== verification/Sim.thy ===== *)
theory Sim
  imports Cells Pattern
begin

text \<open>
  \<^verbatim>\<open>internal/sim/sim.go\<close>: the driver that feeds a synthetic trace through an engine in
  virtual time, its dump, its counters, and the recording of a run by a pattern recorder.
  The callback's state is passed explicitly. A negative packet length or count panics in
  Go's \<^verbatim>\<open>make\<close>, as does a direction the engine does not have; both are \<open>None\<close>.
\<close>

section \<open>Traces\<close>

record sim_event =
  ev_At :: int64
  ev_Dir :: direction
  ev_Len :: int64

definition SyntheticTrace :: "int64 \<Rightarrow> int64 \<Rightarrow> sim_event list option" where
  "SyntheticTrace n interval =
     (if n < 0 then None
      else Some (map (\<lambda>i. \<lparr>ev_At = i64 (int i * interval), ev_Dir = (if i mod 4 = 3 then S2C else C2S),
        ev_Len = 1316\<rparr>) [0..<nat n]))"

section \<open>Runs\<close>

definition event_data :: "nat \<Rightarrow> int64 \<Rightarrow> bytes" where
  "event_data i len = map (\<lambda>j. word_of_nat (i + j)) [0..<nat len]"

fun run_actions :: "platform \<Rightarrow> ('s \<Rightarrow> int64 \<Rightarrow> action \<Rightarrow> 's) \<Rightarrow> nat \<Rightarrow> sim_event list \<Rightarrow> cell engine \<Rightarrow> 's
    \<Rightarrow> (cell engine \<times> 's) option" where
  "run_actions pf fn i [] e s = Some (e, s)"
| "run_actions pf fn i (ev # evs) e s =
     (if ev_Len ev < 0 then None
      else case Handle pf e \<lparr>pk_data = event_data i (ev_Len ev), pk_dir = ev_Dir ev\<rparr> (ev_At ev) of
             None \<Rightarrow> None
           | Some (e1, acts) \<Rightarrow> run_actions pf fn (Suc i) evs e1 (foldl (\<lambda>s a. fn s (ev_At ev) a) s acts))"

definition RunActions :: "platform \<Rightarrow> cell engine \<Rightarrow> sim_event list \<Rightarrow> ('s \<Rightarrow> int64 \<Rightarrow> action \<Rightarrow> 's) \<Rightarrow> 's
    \<Rightarrow> (cell engine \<times> 's) option" where
  "RunActions pf eng evs fn s = run_actions pf fn 0 evs eng s"

definition run_line :: "int64 \<Rightarrow> action \<Rightarrow> string" where
  "run_line recvAt a =
     (if act_kind a = Drop then
        sprintf ''t=%d %s DROP seq=%d by=%s'' [Num recvAt, Str (direction_String (act_dir a)),
          Num (uint (act_seq a)), Str (act_reason a)] @ [newline]
      else
        sprintf ''t=%d %s FWD  seq=%d deliver=%d len=%d'' [Num recvAt, Str (direction_String (act_dir a)),
          Num (uint (act_seq a)), Num (act_deliver_at a), Num (int (length (act_data a)))] @ [newline])"

definition sim_Run :: "platform \<Rightarrow> cell engine \<Rightarrow> sim_event list \<Rightarrow> string option" where
  "sim_Run pf eng evs = map_option snd (RunActions pf eng evs (\<lambda>b t a. b @ run_line t a) [])"

text \<open>The two-element arrays of the counters are functions of the direction.\<close>

record sim_stats =
  ss_Ingress :: int64
  ss_Forwarded :: int64
  ss_Dropped :: int64
  ss_Reordered :: int64

record stats_state =
  st_stats :: sim_stats
  st_lastDeliver :: "direction \<Rightarrow> int64"
  st_haveLast :: "direction \<Rightarrow> bool"

definition stats_step :: "stats_state \<Rightarrow> int64 \<Rightarrow> action \<Rightarrow> stats_state" where
  "stats_step s recvAt a =
     (case act_kind a of
        Drop \<Rightarrow> s\<lparr>st_stats := (st_stats s)\<lparr>ss_Dropped := i64 (ss_Dropped (st_stats s) + 1)\<rparr>\<rparr>
      | Forward \<Rightarrow>
          let st = (st_stats s)\<lparr>ss_Forwarded := i64 (ss_Forwarded (st_stats s) + 1)\<rparr>;
              st = (if st_haveLast s (act_dir a) \<and> act_deliver_at a < st_lastDeliver s (act_dir a)
                    then st\<lparr>ss_Reordered := i64 (ss_Reordered st + 1)\<rparr> else st)
          in \<lparr>st_stats = st, st_lastDeliver = (st_lastDeliver s)(act_dir a := act_deliver_at a),
              st_haveLast = (st_haveLast s)(act_dir a := True)\<rparr>)"

definition RunStats :: "platform \<Rightarrow> cell engine \<Rightarrow> sim_event list \<Rightarrow> sim_stats option" where
  "RunStats pf eng evs = map_option (\<lambda>(_, s). st_stats s)
     (RunActions pf eng evs stats_step
       \<lparr>st_stats = \<lparr>ss_Ingress = int (length evs), ss_Forwarded = 0, ss_Dropped = 0, ss_Reordered = 0\<rparr>,
        st_lastDeliver = (\<lambda>_. 0), st_haveLast = (\<lambda>_. False)\<rparr>)"

section \<open>Runs are engine runs\<close>

fun event_packets :: "nat \<Rightarrow> sim_event list \<Rightarrow> (packet \<times> int64) list" where
  "event_packets i [] = []"
| "event_packets i (ev # evs) =
     (\<lparr>pk_data = event_data i (ev_Len ev), pk_dir = ev_Dir ev\<rparr>, ev_At ev) # event_packets (Suc i) evs"

definition timed_actions :: "sim_event list \<Rightarrow> action list list \<Rightarrow> (int64 \<times> action) list" where
  "timed_actions evs actss = concat (map2 (\<lambda>ev. map (Pair (ev_At ev))) evs actss)"

lemma run_actions_engine:
  "run_actions pf fn i evs e s =
     (if list_ex (\<lambda>ev. ev_Len ev < 0) evs then None
      else map_option (\<lambda>(e', actss). (e', foldl (\<lambda>s (t, a). fn s t a) s (timed_actions evs actss)))
        (run_engine pf e (event_packets i evs)))"
proof (induction evs arbitrary: i e s)
  case Nil
  then show ?case by (simp add: timed_actions_def)
next
  case (Cons ev evs)
  let ?p = "\<lparr>pk_data = event_data i (ev_Len ev), pk_dir = ev_Dir ev\<rparr>"
  have f: "foldl (\<lambda>s (t, a). fn s t a) s (map (Pair (ev_At ev)) acts) = foldl (\<lambda>s a. fn s (ev_At ev) a) s acts"
    for s acts
    by (induction acts arbitrary: s) auto
  show ?case
    by (cases "Handle pf e ?p (ev_At ev)"; cases "run_engine pf (fst (the (Handle pf e ?p (ev_At ev)))) (event_packets (Suc i) evs)")
      (auto simp: Cons.IH timed_actions_def f)
qed

text \<open>The counters: every action is counted once.\<close>

definition kind_count :: "action_kind \<Rightarrow> (int64 \<times> action) list \<Rightarrow> int" where
  "kind_count k xs = int (length (filter (\<lambda>(t, a). act_kind a = k) xs))"

lemma stats_step_counts:
  fixes xs :: "(int64 \<times> action) list" and s :: stats_state
  defines "s' \<equiv> foldl (\<lambda>s (t, a). stats_step s t a) s xs"
  shows "i64 (ss_Forwarded (st_stats s')) = i64 (ss_Forwarded (st_stats s) + kind_count Forward xs)"
    and "i64 (ss_Dropped (st_stats s')) = i64 (ss_Dropped (st_stats s) + kind_count Drop xs)"
    and "ss_Ingress (st_stats s') = ss_Ingress (st_stats s)"
  unfolding s'_def
proof (induction xs arbitrary: s)
  case (Cons x xs)
  obtain t a where x: "x = (t, a)" by force
  {
    case 1
    show ?case using Cons.IH(1) [of "stats_step s t a"]
      by (cases "act_kind a") (simp_all add: x kind_count_def stats_step_def Let_def i64_add_wrap algebra_simps)
  next
    case 2
    show ?case using Cons.IH(2) [of "stats_step s t a"]
      by (cases "act_kind a") (simp_all add: x kind_count_def stats_step_def Let_def i64_add_wrap algebra_simps)
  next
    case 3
    show ?case using Cons.IH(3) [of "stats_step s t a"]
      by (cases "act_kind a") (simp_all add: x stats_step_def Let_def)
  }
qed (simp_all add: kind_count_def)

section \<open>Recording a run\<close>

definition record_run :: "platform \<Rightarrow> int64 \<Rightarrow> cell engine \<Rightarrow> sim_event list \<Rightarrow> recorder option" where
  "record_run pf seed eng evs = map_option snd (RunActions pf eng evs recorder_Add (NewRecorder seed))"

end
