(* ===== verification/TraceText.thy ===== *)
theory TraceText
  imports TraceCells GoParse
begin

text \<open>
  The text formats of \<^verbatim>\<open>internal/droplist/droplist.go\<close>: a delivery trace as a commented
  list of millisecond timestamps, with its configuration in a comment, and a drop list as
  separated numbers. The lemmas show the round trips and what the trace parser guarantees of
  the schedules it accepts.
\<close>

section \<open>Delivery traces\<close>

definition Serialize :: "delivery_config \<Rightarrow> string" where
  "Serialize cfg =
     (let mtu = (if dt_MTU cfg \<le> 0 then defaultMTU else dt_MTU cfg);
          lp = (if dt_Loop cfg then 1 else 0);
          sched = sort (dt_Schedule cfg)
      in ''# impair delivery trace v1'' @ [newline] @
         sprintf ''# mtu=%d maxbacklog=%d loop=%d'' [Num mtu, Num (dt_MaxBacklog cfg), Num lp] @ [newline] @
         concat (map (\<lambda>ts. itoa ts @ [newline]) sched))"

text \<open>\<^verbatim>\<open>strings.ToLower\<close> as far as equality with an ASCII word goes: beside the ASCII letters,
  only the Kelvin sign and the dotted capital I have an ASCII lower case.\<close>

definition ascii_lower :: "char \<Rightarrow> char" where
  "ascii_lower c = (if 65 \<le> (of_char c :: nat) \<and> (of_char c :: nat) \<le> 90 then char_of ((of_char c :: nat) + 32) else c)"

fun lower_key :: "string \<Rightarrow> string" where
  "lower_key (a # b # c # s) =
     (if [a, b, c] = [CHR 0xE2, CHR 0x84, CHR 0xAA] then CHR ''k'' # lower_key s
      else if [a, b] = [CHR 0xC4, CHR 0xB0] then CHR ''i'' # lower_key (c # s)
      else ascii_lower a # lower_key (b # c # s))"
| "lower_key [a, b] = (if [a, b] = [CHR 0xC4, CHR 0xB0] then ''i'' else [ascii_lower a, ascii_lower b])"
| "lower_key [a] = [ascii_lower a]"
| "lower_key [] = []"

definition fold_eq_true :: "string \<Rightarrow> bool" where
  "fold_eq_true s \<longleftrightarrow> map ascii_lower s = ''true''"

text \<open>\<^verbatim>\<open>SplitN(tok, "=", 2)\<close> when it gives two parts.\<close>

definition split_eq :: "string \<Rightarrow> (string \<times> string) option" where
  "split_eq tok = (if CHR ''='' \<in> set tok
     then Some (takeWhile (\<lambda>c. c \<noteq> CHR ''='') tok, tl (dropWhile (\<lambda>c. c \<noteq> CHR ''='') tok)) else None)"

definition config_token :: "delivery_config \<Rightarrow> string \<Rightarrow> delivery_config" where
  "config_token cfg tok =
     (case split_eq tok of
        None \<Rightarrow> cfg
      | Some (key, val) \<Rightarrow>
          let key = lower_key key in
          if key = ''mtu'' then
            (case ParseInt val of Inl e \<Rightarrow> cfg | Inr n \<Rightarrow> if n > 0 then cfg\<lparr>dt_MTU := n\<rparr> else cfg)
          else if key = ''maxbacklog'' then
            (case ParseInt val of Inl e \<Rightarrow> cfg | Inr n \<Rightarrow> if n \<ge> 0 then cfg\<lparr>dt_MaxBacklog := n\<rparr> else cfg)
          else if key = ''loop'' then cfg\<lparr>dt_Loop := (val = ''1'' \<or> fold_eq_true val)\<rparr>
          else cfg)"

definition parseConfigComment :: "string \<Rightarrow> delivery_config \<Rightarrow> delivery_config" where
  "parseConfigComment raw cfg = foldl config_token cfg (Fields (TrimSpace (TrimPrefix raw ''#'')))"

datatype trace_error = BadTimestamp nat string num_error | NegativeTimestamp nat int64
  | OutOfOrder nat int64 int64 | ReadingTrace

fun parse_trace_lines :: "nat \<Rightarrow> int64 option \<Rightarrow> delivery_config \<Rightarrow> string list \<Rightarrow> trace_error + delivery_config" where
  "parse_trace_lines n prev cfg [] = Inr cfg"
| "parse_trace_lines n prev cfg (l # ls) =
     (let raw = TrimSpace l in
      if raw = [] then parse_trace_lines (Suc n) prev cfg ls
      else if HasPrefix raw ''#'' then parse_trace_lines (Suc n) prev (parseConfigComment raw cfg) ls
      else case ParseInt raw of
             Inl e \<Rightarrow> Inl (BadTimestamp n raw e)
           | Inr ts \<Rightarrow>
               (if ts < 0 then Inl (NegativeTimestamp n ts)
                else if prev \<noteq> None \<and> ts < the prev then Inl (OutOfOrder n ts (the prev))
                else parse_trace_lines (Suc n) (Some ts) (cfg\<lparr>dt_Schedule := dt_Schedule cfg @ [ts]\<rparr>) ls))"

definition zero_config :: delivery_config where
  "zero_config = \<lparr>dt_Schedule = [], dt_MTU = 0, dt_MaxBacklog = 0, dt_Loop = False\<rparr>"

definition trace_Parse :: "string \<Rightarrow> trace_error + delivery_config" where
  "trace_Parse s =
     (let (ls, tooLong) = scan_lines s in
      case parse_trace_lines 1 None zero_config ls of
        Inl e \<Rightarrow> Inl e
      | Inr cfg \<Rightarrow>
          (if tooLong then Inl ReadingTrace
           else Inr (if dt_MTU cfg = 0 then cfg\<lparr>dt_MTU := defaultMTU\<rparr> else cfg)))"

section \<open>Drop lists\<close>

definition list_separator :: "char \<Rightarrow> bool" where
  "list_separator c \<longleftrightarrow> c = CHR '','' \<or> c = CHR '' '' \<or> c = CHR 0x09 \<or> c = CHR 0x0A \<or> c = CHR 0x0D"

fun parse_seqs :: "uint64 list \<Rightarrow> string list \<Rightarrow> (string \<times> num_error) + uint64 list" where
  "parse_seqs seqs [] = Inr seqs"
| "parse_seqs seqs (raw # raws) =
     (let tok = TrimPrefix (TrimSpace raw) ''#'' in
      if tok = [] then parse_seqs seqs raws
      else case ParseUint tok of
             Inl e \<Rightarrow> Inl (raw, e)
           | Inr n \<Rightarrow> parse_seqs (seqs @ [of_nat n]) raws)"

definition ParseDropList :: "string \<Rightarrow> (string \<times> num_error) + uint64 list" where
  "ParseDropList s = parse_seqs [] (fields_func list_separator [] s)"

section \<open>Trimming written words\<close>

lemma space_end_graphic: "s \<noteq> [] \<Longrightarrow> graphic (last s) \<Longrightarrow> space_end s = 0"
proof -
  assume s: "s \<noteq> []" "graphic (last s)"
  have "\<not> (length w \<le> length s \<and> drop (length s - length w) s = w)" if w: "w \<in> set wide_spaces" for w
  proof
    assume "length w \<le> length s \<and> drop (length s - length w) s = w"
    moreover have "w \<noteq> []" using wide_spaces_hd [OF w] by auto
    ultimately have "last w = last s" by (metis append_take_drop_id last_appendR)
    moreover have "127 \<le> (of_char (last w) :: nat)" using wide_spaces_no_blank [OF w] \<open>w \<noteq> []\<close> by simp
    ultimately show False using s(2) by (simp add: graphic_def)
  qed
  then have "find (\<lambda>w. length w \<le> length s \<and> drop (length s - length w) s = w) wide_spaces = None"
    by (simp add: find_None_iff)
  then show ?thesis using s by (auto simp: space_end_def graphic_def ascii_space_def)
qed

lemma TrimSpace_graphic:
  assumes "s \<noteq> []" "graphic (hd s)" "graphic (last s)"
  shows "TrimSpace s = s" "TrimSpace (CHR '' '' # s) = s"
proof -
  have "space_len s = 0" using assms space_len_graphic by (cases s) auto
  then have l: "trim_left s = s" by (subst trim_left.simps) simp
  have r: "trim_right s = s" using space_end_graphic [OF assms(1,3)] by (subst trim_right.simps) simp
  show "TrimSpace s = s" by (simp add: TrimSpace_def l r)
  have "trim_left (CHR '' '' # s) = s" by (subst trim_left.simps) (simp add: space_len_blank l)
  then show "TrimSpace (CHR '' '' # s) = s" by (simp add: TrimSpace_def r)
qed

lemma graphic_hd_last: "list_all graphic s \<Longrightarrow> s \<noteq> [] \<Longrightarrow> graphic (hd s) \<and> graphic (last s)"
  by (simp add: list_all_iff)

lemma TrimSpace_word: "list_all graphic s \<Longrightarrow> TrimSpace s = s"
proof (cases "s = []")
  case True
  then show ?thesis by (simp add: TrimSpace_def trim_left.simps trim_right.simps)
next
  case False
  assume "list_all graphic s"
  then show ?thesis using TrimSpace_graphic(1) [OF False] graphic_hd_last False by blast
qed

section \<open>Round trip of traces\<close>

definition config_words :: "int64 \<Rightarrow> int64 \<Rightarrow> int64 \<Rightarrow> string list" where
  "config_words mtu backlog lp = [''mtu='' @ itoa mtu, ''maxbacklog='' @ itoa backlog, ''loop='' @ itoa lp]"

lemma config_line:
  "sprintf ''# mtu=%d maxbacklog=%d loop=%d'' [Num mtu, Num backlog, Num lp] =
     ''# '' @ join '' '' (config_words mtu backlog lp)"
  by (simp add: config_words_def)

lemma graphic_words: "list_all graphic w \<Longrightarrow> no_space w"
  using no_space_graphic [of w "[]"] by simp

lemma config_words_ok: "list_all (\<lambda>w. w \<noteq> [] \<and> no_space w) (config_words mtu backlog lp)"
  by (auto simp: config_words_def graphic_itoa intro!: graphic_words) (simp_all add: graphic_def)

lemma split_eq_word: "CHR ''='' \<notin> set k \<Longrightarrow> split_eq (k @ CHR ''='' # v) = Some (k, v)"
  by (simp add: split_eq_def takeWhile_append dropWhile_append)

lemma config_mtu: "in64 n \<Longrightarrow> 0 < n \<Longrightarrow> config_token cfg (''mtu='' @ itoa n) = cfg\<lparr>dt_MTU := n\<rparr>"
  using split_eq_word [of "''mtu''" "itoa n"] by (simp add: config_token_def ascii_lower_def ParseInt_itoa)

lemma config_maxbacklog:
  "in64 n \<Longrightarrow> config_token cfg (''maxbacklog='' @ itoa n) = (if n \<ge> 0 then cfg\<lparr>dt_MaxBacklog := n\<rparr> else cfg)"
  using split_eq_word [of "''maxbacklog''" "itoa n"] by (simp add: config_token_def ascii_lower_def ParseInt_itoa)

lemma itoa_bit: "itoa 0 = ''0''" "itoa 1 = ''1''"
  by code_simp+

lemma config_loop: "config_token cfg (''loop='' @ itoa (if b then 1 else 0)) = cfg\<lparr>dt_Loop := b\<rparr>"
  using split_eq_word [of "''loop''" "itoa (if b then 1 else 0)"]
  by (cases b) (simp_all add: config_token_def ascii_lower_def fold_eq_true_def itoa_bit)

lemma banner_tokens: "parseConfigComment ''# impair delivery trace v1'' cfg = cfg"
proof -
  have t: "TrimPrefix ''# impair delivery trace v1'' ''#'' = CHR '' '' # ''impair delivery trace v1''"
    by (simp add: TrimPrefix_def HasPrefix_def)
  have "TrimSpace (CHR '' '' # ''impair delivery trace v1'') = join '' '' [''impair'', ''delivery'', ''trace'', ''v1'']"
    by (subst TrimSpace_graphic(2)) (simp_all add: graphic_def)
  moreover have "Fields (join '' '' [''impair'', ''delivery'', ''trace'', ''v1'']) = [''impair'', ''delivery'', ''trace'', ''v1'']"
    by (rule Fields_join) (simp add: graphic_words graphic_def)
  ultimately show ?thesis unfolding parseConfigComment_def t
    by (simp del: join.simps add: config_token_def split_eq_def)
qed

lemma config_comment:
  assumes "in64 mtu" "0 < mtu" "in64 backlog"
  shows "parseConfigComment (''# '' @ join '' '' (config_words mtu backlog (if b then 1 else 0))) cfg =
    cfg\<lparr>dt_MTU := mtu, dt_MaxBacklog := (if backlog \<ge> 0 then backlog else dt_MaxBacklog cfg), dt_Loop := b\<rparr>"
proof -
  let ?ws = "config_words mtu backlog (if b then 1 else 0)"
  have t: "TrimPrefix (''# '' @ join '' '' ?ws) ''#'' = CHR '' '' # join '' '' ?ws"
    by (simp add: TrimPrefix_def HasPrefix_def)
  have l: "last (join '' '' ?ws) = last (itoa (if b then 1 else 0))" "join '' '' ?ws \<noteq> []" "hd (join '' '' ?ws) = CHR ''m''"
    by (simp_all add: config_words_def itoa_def)
  have "graphic (last (itoa (if b then 1 else 0)))" by (simp add: itoa_bit graphic_def)
  then have "TrimSpace (CHR '' '' # join '' '' ?ws) = join '' '' ?ws"
    using l by (intro TrimSpace_graphic(2)) (simp_all add: graphic_def)
  then have "parseConfigComment (''# '' @ join '' '' ?ws) cfg = foldl config_token cfg ?ws"
    unfolding parseConfigComment_def t by (simp only: Fields_join [OF config_words_ok])
  then show ?thesis using assms config_loop [of _ b]
    by (simp add: config_words_def config_mtu config_maxbacklog del: append_Cons append_Nil)
qed

lemma parse_timestamps:
  assumes "list_all (\<lambda>t. 0 \<le> t \<and> in64 t) ts" "sorted ts" "\<forall>t \<in> set ts. prev = None \<or> the prev \<le> t"
  shows "parse_trace_lines n prev cfg (map itoa ts) = Inr (cfg\<lparr>dt_Schedule := dt_Schedule cfg @ ts\<rparr>)"
  using assms
proof (induction ts arbitrary: n prev cfg)
  case (Cons t ts)
  have w: "TrimSpace (itoa t) = itoa t" by (rule TrimSpace_word [OF graphic_itoa])
  have h: "itoa t \<noteq> []" "\<not> HasPrefix (itoa t) ''#''"
    using graphic_itoa [of t] digits_all [of "nat t"] Cons.prems(1)
    by (auto simp: HasPrefix_def itoa_def is_digit_def) (cases "digits (nat t)"; auto simp: is_digit_def)
  have p: "ParseInt (itoa t) = Inr t" using Cons.prems(1) by (intro ParseInt_itoa) simp
  have "parse_trace_lines (Suc n) (Some t) (cfg\<lparr>dt_Schedule := dt_Schedule cfg @ [t]\<rparr>) (map itoa ts) =
      Inr (cfg\<lparr>dt_Schedule := dt_Schedule cfg @ t # ts\<rparr>)"
    using Cons.prems by (subst Cons.IH) (auto simp: list_all_iff)
  then show ?case using Cons.prems by (auto simp: w h p Let_def not_less)
qed simp

lemma parse_trace_comment:
  assumes "TrimSpace l = l" "HasPrefix l ''#''"
  shows "parse_trace_lines n prev cfg (l # ls) = parse_trace_lines (Suc n) prev (parseConfigComment l cfg) ls"
  using assms by (auto simp: Let_def HasPrefix_def)

definition normal_config :: "delivery_config \<Rightarrow> delivery_config" where
  "normal_config cfg = \<lparr>dt_Schedule = sort (dt_Schedule cfg),
     dt_MTU = (if dt_MTU cfg \<le> 0 then defaultMTU else dt_MTU cfg),
     dt_MaxBacklog = max 0 (dt_MaxBacklog cfg), dt_Loop = dt_Loop cfg\<rparr>"

lemma plain_graphic: "list_all (\<lambda>c. graphic c \<or> c = CHR '' '') l \<Longrightarrow> length l < max_token \<Longrightarrow> plain_line l"
  by (cases l rule: rev_cases) (auto simp: plain_line_def list_all_iff graphic_def newline_def)

lemma visible_itoa: "list_all (\<lambda>c. graphic c \<or> c = CHR '' '') (itoa n)"
  using graphic_itoa [of n] by (simp add: list_all_iff)

lemma plain_itoa: "in64 n \<Longrightarrow> plain_line (itoa n)"
  using itoa_length [of n] by (intro plain_graphic visible_itoa) (simp_all add: max_token_def)

lemma plain_config:
  assumes "in64 mtu" "in64 backlog"
  shows "plain_line (''# '' @ join '' '' (config_words mtu backlog (if b then 1 else 0)))"
proof (rule plain_graphic)
  show "list_all (\<lambda>c. graphic c \<or> c = CHR '' '') (''# '' @ join '' '' (config_words mtu backlog (if b then 1 else 0)))"
    by (simp add: config_words_def visible_itoa) (simp add: graphic_def)
  show "length (''# '' @ join '' '' (config_words mtu backlog (if b then 1 else 0))) < max_token"
    using itoa_length [OF assms(1)] itoa_length [OF assms(2)] by (simp add: config_words_def max_token_def itoa_bit)
qed

lemma trace_roundtrip:
  assumes "list_all (\<lambda>t. 0 \<le> t \<and> in64 t) (dt_Schedule cfg)" "in64 (dt_MTU cfg)" "in64 (dt_MaxBacklog cfg)"
  shows "trace_Parse (Serialize cfg) = Inr (normal_config cfg)"
proof -
  let ?mtu = "if dt_MTU cfg \<le> 0 then defaultMTU else dt_MTU cfg"
  let ?ts = "sort (dt_Schedule cfg)" and ?banner = "''# impair delivery trace v1''"
  let ?conf = "''# '' @ join '' '' (config_words ?mtu (dt_MaxBacklog cfg) (if dt_Loop cfg then 1 else 0))"
  let ?ls = "?banner # ?conf # map itoa ?ts"
  have mtu: "in64 ?mtu" "0 < ?mtu" using assms(2) by (auto simp: defaultMTU_def in64_def)
  have written: "Serialize cfg = unlines ?ls"
    unfolding Serialize_def Let_def config_line unlines_def by (simp add: comp_def)
  have "plain_line ?banner" by (rule plain_graphic) (simp_all add: graphic_def max_token_def)
  moreover have "plain_line ?conf" by (rule plain_config [OF mtu(1) assms(3)])
  moreover have "plain_line (itoa t)" if "t \<in> set ?ts" for t
    using that assms(1) by (intro plain_itoa) (auto simp: list_all_iff)
  ultimately have "scan_lines (Serialize cfg) = (?ls, False)"
    unfolding written by (intro scan_lines_unlines) (auto simp: list_all_iff)
  moreover have "parse_trace_lines 1 None zero_config ?ls = Inr (normal_config cfg)"
  proof -
    have b: "TrimSpace ?banner = ?banner" "HasPrefix ?banner ''#''"
      by (simp_all add: TrimSpace_graphic(1) graphic_def HasPrefix_def)
    have "?conf \<noteq> []" "graphic (hd ?conf)" "graphic (last ?conf)"
      by (simp_all add: graphic_def config_words_def itoa_bit)
    then have c: "TrimSpace ?conf = ?conf" by (rule TrimSpace_graphic(1))
    have h: "HasPrefix ?conf ''#''" by (simp add: HasPrefix_def)
    have "parse_trace_lines 3 None (normal_config cfg\<lparr>dt_Schedule := []\<rparr>) (map itoa ?ts) =
        Inr (normal_config cfg)"
      using assms(1) by (subst parse_timestamps) (auto simp: list_all_iff normal_config_def)
    moreover have "parseConfigComment ?conf zero_config = normal_config cfg\<lparr>dt_Schedule := []\<rparr>"
      by (simp only: config_comment [OF mtu assms(3)]) (simp add: normal_config_def zero_config_def)
    ultimately show ?thesis
      by (simp only: parse_trace_comment [OF b] parse_trace_comment [OF c h] banner_tokens) (simp add: numeral_3_eq_3)
  qed
  ultimately show ?thesis using mtu by (simp add: trace_Parse_def normal_config_def)
qed

section \<open>What the trace parser accepts\<close>

lemma config_token_ok:
  assumes "0 \<le> dt_MTU cfg" "0 \<le> dt_MaxBacklog cfg"
  shows "dt_Schedule (config_token cfg tok) = dt_Schedule cfg \<and> 0 \<le> dt_MTU (config_token cfg tok) \<and>
    0 \<le> dt_MaxBacklog (config_token cfg tok)"
  using assms by (auto simp: config_token_def Let_def split: option.split sum.split)

lemma parseConfigComment_ok:
  assumes "0 \<le> dt_MTU cfg" "0 \<le> dt_MaxBacklog cfg"
  shows "dt_Schedule (parseConfigComment raw cfg) = dt_Schedule cfg \<and> 0 \<le> dt_MTU (parseConfigComment raw cfg) \<and>
    0 \<le> dt_MaxBacklog (parseConfigComment raw cfg)"
proof -
  have "dt_Schedule (foldl config_token cfg toks) = dt_Schedule cfg \<and> 0 \<le> dt_MTU (foldl config_token cfg toks) \<and>
      0 \<le> dt_MaxBacklog (foldl config_token cfg toks)" for toks
    using assms by (induction toks arbitrary: cfg) (auto simp: config_token_ok)
  then show ?thesis by (simp add: parseConfigComment_def)
qed

definition schedule_ok :: "int64 option \<Rightarrow> delivery_config \<Rightarrow> bool" where
  "schedule_ok prev cfg \<longleftrightarrow> sorted (dt_Schedule cfg) \<and> list_all (\<lambda>t. 0 \<le> t \<and> in64 t) (dt_Schedule cfg) \<and>
     prev = (if dt_Schedule cfg = [] then None else Some (last (dt_Schedule cfg))) \<and>
     0 \<le> dt_MTU cfg \<and> 0 \<le> dt_MaxBacklog cfg"

lemma sorted_snoc_last: "sorted xs \<Longrightarrow> (xs \<noteq> [] \<Longrightarrow> last xs \<le> y) \<Longrightarrow> sorted (xs @ [y :: int])"
  by (cases xs rule: rev_cases) (auto simp: sorted_append)

lemma parse_trace_ok:
  "parse_trace_lines n prev cfg ls = Inr cfg' \<Longrightarrow> schedule_ok prev cfg \<Longrightarrow> \<exists>prev'. schedule_ok prev' cfg'"
proof (induction ls arbitrary: n prev cfg)
  case (Cons l ls)
  let ?raw = "TrimSpace l"
  consider "?raw = []" | "?raw \<noteq> []" "HasPrefix ?raw ''#''" | ts where "?raw \<noteq> []" "\<not> HasPrefix ?raw ''#''"
    "ParseInt ?raw = Inr ts" "0 \<le> ts" "prev = None \<or> the prev \<le> ts"
    "parse_trace_lines (Suc n) (Some ts) (cfg\<lparr>dt_Schedule := dt_Schedule cfg @ [ts]\<rparr>) ls = Inr cfg'"
    using Cons.prems(1) by (auto simp: Let_def not_less split: if_splits sum.splits)
  then show ?case
  proof cases
    case 1
    then show ?thesis using Cons.prems by (intro Cons.IH [of "Suc n" prev cfg]) (simp_all add: Let_def)
  next
    case 2
    have "schedule_ok prev (parseConfigComment ?raw cfg)"
      using Cons.prems(2) parseConfigComment_ok [of cfg ?raw] by (auto simp: schedule_ok_def)
    then show ?thesis using Cons.prems(1) 2 by (intro Cons.IH [of "Suc n" prev "parseConfigComment ?raw cfg"]) (simp_all add: Let_def)
  next
    case 3
    have "schedule_ok (Some ts) (cfg\<lparr>dt_Schedule := dt_Schedule cfg @ [ts]\<rparr>)"
      using Cons.prems(2) 3(4,5) ParseInt_in64 [OF 3(3)]
      by (auto simp: schedule_ok_def intro!: sorted_snoc_last split: if_splits)
    then show ?thesis by (rule Cons.IH [OF 3(6)])
  qed
qed auto

lemma trace_Parse_ok:
  assumes "trace_Parse s = Inr cfg"
  shows "sorted (dt_Schedule cfg) \<and> list_all (\<lambda>t. 0 \<le> t) (dt_Schedule cfg) \<and> 0 < dt_MTU cfg \<and> 0 \<le> dt_MaxBacklog cfg"
proof -
  obtain ls tooLong where "scan_lines s = (ls, tooLong)" by force
  then obtain cfg0 where p: "parse_trace_lines 1 None zero_config ls = Inr cfg0"
    and c: "cfg = (if dt_MTU cfg0 = 0 then cfg0\<lparr>dt_MTU := defaultMTU\<rparr> else cfg0)"
    using assms by (auto simp: trace_Parse_def split: sum.splits if_splits)
  have "schedule_ok None zero_config" by (simp add: schedule_ok_def zero_config_def)
  then obtain prev where "schedule_ok prev cfg0" using parse_trace_ok [OF p] by blast
  then show ?thesis using c by (auto simp: schedule_ok_def defaultMTU_def list_all_iff)
qed

section \<open>Round trip of drop lists\<close>

lemma fields_func_word:
  "list_all (\<lambda>c. \<not> sep c) w \<Longrightarrow> fields_func sep cur (w @ s) = fields_func sep (cur @ w) s"
  by (induction w arbitrary: cur) simp_all

lemma fields_func_join:
  "list_all (\<lambda>w. w \<noteq> [] \<and> list_all (\<lambda>c. \<not> sep c) w) ws \<Longrightarrow> sep c \<Longrightarrow> fields_func sep [] (join [c] ws) = ws"
proof (induction "[c]" ws rule: join.induct)
  case (2 x)
  then show ?case using fields_func_word [of sep x "[]" "[]"] by (simp add: add_field_def)
next
  case (3 x y xs)
  then show ?case using fields_func_word [of sep x "[]" "c # join [c] (y # xs)"] by (simp add: add_field_def)
qed (simp add: add_field_def)

lemma parse_seqs_digits:
  "parse_seqs seqs (map (\<lambda>sq. digits (unat sq)) sqs) = Inr (seqs @ sqs)"
proof (induction sqs arbitrary: seqs)
  case (Cons sq sqs)
  let ?d = "digits (unat sq)"
  have "\<not> HasPrefix ?d ''#''" using digits_all [of "unat sq"] by (cases ?d) (auto simp: HasPrefix_def is_digit_def)
  then have t: "TrimPrefix (TrimSpace ?d) ''#'' = ?d"
    by (simp add: TrimSpace_word [OF graphic_digits] TrimPrefix_def)
  have "ParseUint ?d = Inr (unat sq)"
    using unsigned_less [of sq, where ?'a = nat] by (intro ParseUint_digits) simp
  then show ?case using Cons.IH by (simp add: t)
qed simp

lemma droplist_roundtrip: "ParseDropList (join '','' (map (\<lambda>sq. digits (unat sq)) sqs)) = Inr sqs"
proof -
  have "list_all (\<lambda>w. w \<noteq> [] \<and> list_all (\<lambda>c. \<not> list_separator c) w) (map (\<lambda>sq. digits (unat sq)) sqs)"
    using digits_all by (fastforce simp: list_all_iff list_separator_def is_digit_def)
  then have "fields_func list_separator [] (join '','' (map (\<lambda>sq. digits (unat sq)) sqs)) = map (\<lambda>sq. digits (unat sq)) sqs"
    by (rule fields_func_join) (simp add: list_separator_def)
  then show ?thesis using parse_seqs_digits [of "[]" sqs] by (simp add: ParseDropList_def)
qed

section \<open>The two formats as codecs\<close>

definition trace_writable :: "delivery_config \<Rightarrow> bool" where
  "trace_writable cfg \<longleftrightarrow> list_all (\<lambda>t. 0 \<le> t \<and> in64 t) (dt_Schedule cfg) \<and> in64 (dt_MTU cfg) \<and>
     in64 (dt_MaxBacklog cfg)"

interpretation delivery_text: text_codec Serialize trace_Parse trace_writable normal_config
  by unfold_locales (simp add: trace_writable_def trace_roundtrip)

interpretation drop_text: text_codec "\<lambda>sqs. join '','' (map (\<lambda>sq. digits (unat sq)) sqs)" ParseDropList "\<lambda>_. True" id
  by unfold_locales (simp add: droplist_roundtrip)

end
