(* ===== verification/TextProperties.thy ===== *)
theory TextProperties
  imports ArtifactWriter Sim TraceText
begin

text \<open>
  The properties of the text artifacts: the recorded pattern of a run
  (\<^verbatim>\<open>internal/pattern/pattern.go\<close>, driven by \<^verbatim>\<open>internal/sim/sim.go\<close>), its golden diff, what of it
  reaches a writer that can fail, that parsed artifacts are stable, and
  the delivery-trace and drop-list formats of \<^verbatim>\<open>internal/droplist/droplist.go\<close>.
\<close>

section \<open>Recorded runs\<close>

text \<open>The cells' names survive the trip through a record line.\<close>

lemmas cell_names = bernoulli_Name_def ge_Name_def corrupt_Name_def delay_Name_def ratelimit_Name_def
  reorder_Name_def blackhole_Name_def dropList_Name_def deliveryTrace_Name_def

lemma cell_Name_short: "list_all graphic (cell_Name c) \<and> length (cell_Name c) < 16000000"
  by (cases c) (simp_all add: cell_names graphic_def)

lemma cell_Name_clean: "no_space (cell_Name c) \<and> length (cell_Name c) < 16000000"
  using cell_Name_short [of c] graphic_no_space by blast

lemma recorded_ok:
  assumes "\<forall>(t, a)\<in>set xs. act_dir a \<in> {C2S, S2C} \<and>
      (act_kind a = Drop \<longrightarrow> no_space (act_reason a) \<and> length (act_reason a) < 16000000)"
    and "list_all rec_ok (rc_records r)"
  shows "list_all rec_ok (rc_records (foldl (\<lambda>r (t, a). recorder_Add r t a) r xs)) \<and>
    rc_seed (foldl (\<lambda>r (t, a). recorder_Add r t a) r xs) = rc_seed r"
  using assms
proof (induction xs arbitrary: r)
  case (Cons x xs)
  obtain t a where x: "x = (t, a)" by force
  have "list_all rec_ok (rc_records (recorder_Add r t a))"
    using Cons.prems x by (intro recorder_Add_ok) auto
  moreover have "rc_seed (recorder_Add r t a) = rc_seed r" by (simp add: recorder_Add_def Let_def)
  ultimately show ?case using Cons.IH [of "recorder_Add r t a"] Cons.prems(1) by (simp add: x)
qed simp

lemma run_engine_actions:
  assumes "run_engine pf e ps = Some (e', actss)" "acts \<in> set actss" "a \<in> set acts"
  shows "act_dir a \<in> {C2S, S2C} \<and> (act_kind a = Drop \<longrightarrow> (\<exists>c. act_reason a = cell_Name c))"
  using assms
proof (induction ps arbitrary: e actss)
  case (Cons pt ps)
  obtain p t where pt: "pt = (p, t)" by force
  from Cons.prems(1) obtain e1 as1 rest where h: "Handle pf e p t = Some (e1, as1)"
    and r: "run_engine pf e1 ps = Some (e', rest)" and actss: "actss = as1 # rest"
    by (auto simp: pt split: option.splits)
  show ?case
  proof (cases "acts = as1")
    case True
    have "\<not> numDir \<le> pk_dir p" using h engine_Handle_None [of "cell_Process pf" cell_Name e p t] by auto
    then have "pk_dir p \<in> {C2S, S2C}" using dir_cases [of "pk_dir p"] by (simp add: not_le)
    then show ?thesis using cells.Handle_meta(2,4) [OF h] Cons.prems(3) True by auto
  next
    case False
    then show ?thesis using Cons.IH [OF r] Cons.prems(2,3) actss by simp
  qed
qed simp

lemma record_run_ok:
  assumes "record_run pf seed eng evs = Some r" "in64 seed"
  shows "recorder_ok r \<and> rc_seed r = seed"
proof -
  obtain e' actss where run: "run_engine pf eng (event_packets 0 evs) = Some (e', actss)"
    and r: "r = foldl (\<lambda>r (t, a). recorder_Add r t a) (NewRecorder seed) (timed_actions evs actss)"
    using assms(1) by (auto simp: record_run_def RunActions_def run_actions_engine split: if_splits)
  have "act_dir a \<in> {C2S, S2C} \<and> (act_kind a = Drop \<longrightarrow> no_space (act_reason a) \<and> length (act_reason a) < 16000000)"
    if mem: "(t, a) \<in> set (timed_actions evs actss)" for t a
  proof -
    obtain acts where "acts \<in> set actss" "a \<in> set acts"
      using mem by (auto simp: timed_actions_def dest: set_zip_rightD)
    then show ?thesis using run_engine_actions [OF run] cell_Name_clean by metis
  qed
  then have "list_all rec_ok (rc_records r) \<and> rc_seed r = seed"
    using recorded_ok [of "timed_actions evs actss" "NewRecorder seed"]
    unfolding r by (auto simp: NewRecorder_def)
  then show ?thesis using assms(2) by (simp add: recorder_ok_def)
qed

text \<open>C8. Recording any run of any engine and parsing the artifact gives back the seed and
  every record, in order.\<close>

theorem recorded_run_roundtrip:
  assumes "record_run pf seed eng evs = Some r" "in64 seed"
  shows "pattern_Parse \<lparr>rd_data = recorder_String r, rd_fails = False\<rparr> =
    Inr \<lparr>pt_Version = pat_Version, pt_Seed = seed, pt_Records = rc_records r\<rparr>"
  using record_run_ok [OF assms] pattern_roundtrip [of r] assms(2) by (simp add: recorder_ok_def)

definition short_trace :: "sim_event list" where
  "short_trace = [\<lparr>ev_At = 0, ev_Dir = C2S, ev_Len = 2\<rparr>, \<lparr>ev_At = 9, ev_Dir = S2C, ev_Len = 1\<rparr>]"

definition dropping_engine :: "cell engine" where
  "dropping_engine = engine_New [CDropList (NewDropList [1])] []"

lemma short_run:
  "record_run plain_platform 7 dropping_engine short_trace = Some \<lparr>rc_seed = 7,
     rc_records = [\<lparr>pr_Seq = 1, pr_Dir = C2S, pr_Disp = pat_Drop, pr_Offset = 0, pr_Reason = ''droplist''\<rparr>,
       \<lparr>pr_Seq = 2, pr_Dir = S2C, pr_Disp = pat_Forward, pr_Offset = 0, pr_Reason = []\<rparr>]\<rparr>"
  by code_simp

lemma clean_run:
  "record_run plain_platform 7 (engine_New [] []) short_trace = Some \<lparr>rc_seed = 7,
     rc_records = [\<lparr>pr_Seq = 1, pr_Dir = C2S, pr_Disp = pat_Forward, pr_Offset = 0, pr_Reason = []\<rparr>,
       \<lparr>pr_Seq = 2, pr_Dir = S2C, pr_Disp = pat_Forward, pr_Offset = 0, pr_Reason = []\<rparr>]\<rparr>"
  by code_simp

theorem recorded_run_roundtrip_witness:
  "\<exists>r. record_run plain_platform 7 dropping_engine short_trace = Some r \<and>
    pattern_Parse \<lparr>rd_data = recorder_String r, rd_fails = False\<rparr> =
      Inr \<lparr>pt_Version = 1, pt_Seed = 7, pt_Records = rc_records r\<rparr> \<and> length (rc_records r) = 2"
  using recorded_run_roundtrip [OF short_run] short_run by (simp add: in64_def pat_Version_def)

text \<open>C3. The golden diff of two recorded runs reports no difference exactly when they have the
  same seed and the same records.\<close>

theorem golden_diff_sees_every_change:
  assumes "record_run pf seed eng evs = Some r" "record_run pf' seed' eng' evs' = Some r'" "in64 seed" "in64 seed'"
  shows "Compare (recorder_String r) (recorder_String r') = None \<longleftrightarrow>
    seed = seed' \<and> rc_records r = rc_records r'"
  using record_run_ok [OF assms(1,3)] record_run_ok [OF assms(2,4)] Compare_recorded [of r r'] by (cases r; cases r') auto

theorem golden_diff_sees_every_change_witness:
  "\<exists>r r'. record_run plain_platform 7 dropping_engine short_trace = Some r \<and>
    record_run plain_platform 7 (engine_New [] []) short_trace = Some r' \<and>
    Compare (recorder_String r) (recorder_String r') \<noteq> None"
  using golden_diff_sees_every_change [OF short_run clean_run] short_run clean_run
  by (auto simp: in64_def pat_Drop_def pat_Forward_def)

text \<open>When two recorded runs of one seed agree on the first \<open>i\<close> records and differ in the
  next, the diff names line \<open>i + 2\<close> and shows both records' lines.\<close>

theorem golden_diff_points_at_change:
  assumes "record_run pf seed eng evs = Some r" "record_run pf' seed eng' evs' = Some r'" "in64 seed"
    and "i < length (rc_records r)" "i < length (rc_records r')"
    and "take i (rc_records r) = take i (rc_records r')" "rc_records r ! i \<noteq> rc_records r' ! i"
  shows "Compare (recorder_String r) (recorder_String r') = Some \<lparr>df_Line = int i + 2,
    df_A = join '' '' (record_words (rc_records r ! i)), df_B = join '' '' (record_words (rc_records r' ! i))\<rparr>"
proof -
  note ok = record_run_ok [OF assms(1,3)] record_run_ok [OF assms(2,3)]
  note la = line_at_artifact [of r] line_at_artifact [of r']
  have rec: "rec_ok (rc_records r ! i)" "rec_ok (rc_records r' ! i)"
    using ok assms(4,5) by (auto simp: recorder_ok_def list_all_length)
  have before: "line_at (artifact_lines r) j = line_at (artifact_lines r') j" if "j < Suc i" for j
  proof (cases j)
    case 0
    then show ?thesis using ok by (simp add: artifact_lines_def line_at_def)
  next
    case (Suc k)
    then have "rc_records r ! k = rc_records r' ! k" using that assms(6) by (metis Suc_less_SucD nth_take)
    then show ?thesis using Suc that assms(4,5) by (simp add: line_at_record)
  qed
  have "line_at (artifact_lines r) (Suc i) \<noteq> line_at (artifact_lines r') (Suc i)"
    using record_line_inj [OF rec] assms(4,5,7) by (auto simp: line_at_record)
  then show ?thesis
    using Compare_first [of "recorder_String r" "Suc i" "recorder_String r'"] la ok before assms(4,5)
    by (simp add: line_at_record)
qed

theorem golden_diff_points_at_change_witness:
  "\<exists>r r' d. record_run plain_platform 7 dropping_engine short_trace = Some r \<and>
    record_run plain_platform 7 (engine_New [] []) short_trace = Some r' \<and>
    Compare (recorder_String r) (recorder_String r') = Some d \<and> df_Line d = 2"
  using golden_diff_points_at_change [OF short_run clean_run, of 0] short_run clean_run
  by (simp add: in64_def pat_Drop_def pat_Forward_def)

section \<open>Artifacts at large\<close>

text \<open>C37. Whatever text the pattern parser accepts, from whatever reader, writing the result and
  parsing that again gives the same seed and records, under the current version: what the parser
  lets through, the writer can write and the scanner's buffer can hold.\<close>

theorem parsed_artifact_is_stable:
  assumes "pattern_Parse rd = Inr p"
  shows "pattern_Parse \<lparr>rd_data = recorder_String \<lparr>rc_seed = pt_Seed p, rc_records = pt_Records p\<rparr>, rd_fails = False\<rparr> =
    Inr (p\<lparr>pt_Version := pat_Version\<rparr>)"
  using parsed_ok [OF assms] pattern_roundtrip [of "\<lparr>rc_seed = pt_Seed p, rc_records = pt_Records p\<rparr>"] by simp

definition loose_lines :: "string list" where
  "loose_lines = [''impair-pattern  v7 seed=+12'', [], ''seq=007 dir=s2c DROP reason=ge'']"

lemmas read_words = Fields_def space_len_graphic graphic_def space_len_blank add_field_def HasPrefix_def CutPrefix_def
  ParseInt_def ParseUint_def is_digit_def digit_value_def

lemma loose_header: "parseHeader ''impair-pattern  v7 seed=+12'' = Inr (7, 12)"
  by (simp add: parseHeader_def read_words headerTag_def)

lemma loose_record: "parseRecord ''seq=007 dir=s2c DROP reason=ge'' =
    Inr \<lparr>pr_Seq = 7, pr_Dir = S2C, pr_Disp = pat_Drop, pr_Offset = 0, pr_Reason = ''ge''\<rparr>"
  by (simp add: parseRecord_def parseFate_def parseDir_def read_words)

lemma loose_parse:
  "pattern_Parse \<lparr>rd_data = unlines loose_lines, rd_fails = False\<rparr> = Inr \<lparr>pt_Version = 7, pt_Seed = 12,
     pt_Records = [\<lparr>pr_Seq = 7, pr_Dir = S2C, pr_Disp = pat_Drop, pr_Offset = 0, pr_Reason = ''ge''\<rparr>]\<rparr>"
proof -
  have "scan_lines (unlines loose_lines) = (loose_lines, False)"
    by (rule scan_lines_unlines) (simp add: loose_lines_def plain_line_def newline_def max_token_def)
  then show ?thesis by (simp add: pattern_Parse_def loose_lines_def loose_header loose_record)
qed

theorem parsed_artifact_is_stable_witness:
  "\<exists>p. pattern_Parse \<lparr>rd_data = unlines loose_lines, rd_fails = False\<rparr> = Inr p \<and> pt_Version p = 7 \<and>
    pattern_Parse \<lparr>rd_data = recorder_String \<lparr>rc_seed = pt_Seed p, rc_records = pt_Records p\<rparr>, rd_fails = False\<rparr> =
      Inr (p\<lparr>pt_Version := 1\<rparr>)"
  using parsed_artifact_is_stable [OF loose_parse] loose_parse
  by (simp add: pat_Version_def)

text \<open>On arbitrary texts the golden diff is blind to line ends at the end of the text, and
  to nothing else.\<close>

theorem compare_ignores_only_trailing_newlines:
  "Compare a b = None \<longleftrightarrow> strip_newlines a = strip_newlines b"
  by (rule Compare_blind)

section \<open>Artifacts written to a writer\<close>

text \<open>C25. Writing an artifact: whatever the writer does within the contract of \<^verbatim>\<open>io.Writer\<close>, what has
  arrived in it is the beginning of what \<^verbatim>\<open>String\<close> returns, \<^verbatim>\<open>WriteTo\<close> returns its length, and returns
  no error only if all of it has arrived.\<close>

theorem written_artifact_is_counted:
  assumes "takes_prefix wr out" "recorder_WriteTo wr r s = (s', n, e)"
  shows "\<exists>p. out s' = out s @ p \<and> prefix p (recorder_String r) \<and> n = i64 (int (length p)) \<and> (e \<noteq> None \<or> p = recorder_String r)"
  using WriteTo_arrives [OF assms] by blast

text \<open>A disk with room for \<open>room\<close> bytes.\<close>

definition small_disk :: "nat \<Rightarrow> string io_writer" where
  "small_disk room s p = (let k = min (length p) (room - length s) in
     (s @ take k p, int k, if k < length p then Some (WriterError ''no space left on device'') else None))"

lemma small_disk_takes: "takes_prefix (small_disk room) id"
  by (auto simp: takes_prefix_def small_disk_def Let_def)

theorem written_artifact_is_counted_witness:
  "\<exists>s' n e. recorder_WriteTo (small_disk 10) (NewRecorder 5) [] = (s', n, e) \<and> prefix s' (recorder_String (NewRecorder 5)) \<and>
    n = i64 (int (length s'))"
proof -
  obtain s' n e where w: "recorder_WriteTo (small_disk 10) (NewRecorder 5) [] = (s', n, e)" by (metis prod_cases3)
  show ?thesis using written_artifact_is_counted [OF small_disk_takes w] w by auto
qed

section \<open>Delivery traces and drop lists\<close>

text \<open>Parsing a serialised delivery trace gives back its configuration, the schedule
  sorted, the defaults filled in.\<close>

theorem delivery_trace_roundtrip:
  assumes "list_all (\<lambda>t. 0 \<le> t \<and> in64 t) (dt_Schedule cfg)" "in64 (dt_MTU cfg)" "in64 (dt_MaxBacklog cfg)"
  shows "trace_Parse (Serialize cfg) = Inr \<lparr>dt_Schedule = sort (dt_Schedule cfg),
    dt_MTU = (if dt_MTU cfg \<le> 0 then defaultMTU else dt_MTU cfg),
    dt_MaxBacklog = max 0 (dt_MaxBacklog cfg), dt_Loop = dt_Loop cfg\<rparr>"
  using assms delivery_text.reads [of cfg] by (simp add: trace_writable_def normal_config_def)

theorem delivery_trace_roundtrip_witness:
  "trace_Parse (Serialize \<lparr>dt_Schedule = [5, 0, 5], dt_MTU = 0, dt_MaxBacklog = 9, dt_Loop = True\<rparr>) =
    Inr \<lparr>dt_Schedule = [0, 5, 5], dt_MTU = 1500, dt_MaxBacklog = 9, dt_Loop = True\<rparr>"
  using delivery_trace_roundtrip [of "\<lparr>dt_Schedule = [5, 0, 5], dt_MTU = 0, dt_MaxBacklog = 9, dt_Loop = True\<rparr>"]
  by (simp add: in64_def defaultMTU_def)

text \<open>Every trace the parser accepts has a sorted schedule of non-negative timestamps, a
  positive packet size and a non-negative backlog.\<close>

theorem accepted_traces_are_well_formed:
  assumes "trace_Parse s = Inr cfg"
  shows "sorted (dt_Schedule cfg) \<and> list_all (\<lambda>t. 0 \<le> t) (dt_Schedule cfg) \<and> 0 < dt_MTU cfg \<and> 0 \<le> dt_MaxBacklog cfg"
  using assms by (rule trace_Parse_ok)

lemma small_trace:
  "trace_Parse (unlines ['' 3'', [], ''8'']) =
     Inr \<lparr>dt_Schedule = [3, 8], dt_MTU = 1500, dt_MaxBacklog = 0, dt_Loop = False\<rparr>"
proof -
  have "scan_lines (unlines ['' 3'', [], ''8'']) = (['' 3'', [], ''8''], False)"
    by (rule scan_lines_unlines) (simp add: plain_line_def newline_def max_token_def)
  moreover have "TrimSpace '' 3'' = ''3''" "TrimSpace [] = []" "TrimSpace ''8'' = ''8''"
    by (simp_all add: TrimSpace_graphic TrimSpace_word graphic_def)
  ultimately show ?thesis
    by (simp add: trace_Parse_def read_words zero_config_def defaultMTU_def)
qed

theorem accepted_traces_are_well_formed_witness:
  "\<exists>cfg. trace_Parse (unlines ['' 3'', [], ''8'']) = Inr cfg \<and> sorted (dt_Schedule cfg) \<and> dt_Schedule cfg = [3, 8]"
  using accepted_traces_are_well_formed [OF small_trace] small_trace by simp

text \<open>A drop list written as comma-separated numbers parses back to the same numbers.\<close>

theorem drop_list_roundtrip:
  "ParseDropList (join '','' (map (\<lambda>sq. digits (unat sq)) sqs)) = Inr sqs"
  using drop_text.reads [of sqs] by simp

end
