(* ===== verification/Profile.thy ===== *)
theory Profile
  imports Scenario TraceText "HOL-Library.Product_Lexorder" "HOL-Library.Multiset"
begin

text \<open>
  \<^verbatim>\<open>internal/profile\<close>: named impairment profiles with mandatory provenance, their
  compilation to scenarios (\<^verbatim>\<open>profile.go\<close>), the built-in G.1050 ladder and its importer
  (\<^verbatim>\<open>g1050.go\<close>), and imported Mahimahi traces (\<^verbatim>\<open>mahimahi.go\<close>). The lemmas show that every
  profile compiles to a scenario that builds, that the importer accepts exactly the ladder's
  levels however they are written, and that an imported trace survives emission. JSON is
  theory \<open>JsonFiles\<close>.
\<close>

section \<open>Profiles\<close>

type_synonym loss_model = string
type_synonym profile_source = string

definition LossBernoulli :: loss_model where "LossBernoulli = ''bernoulli''"
definition LossGE :: loss_model where "LossGE = ''ge''"

definition SourceG1050 :: profile_source where "SourceG1050 = ''G.1050''"
definition SourceTIA921 :: profile_source where "SourceTIA921 = ''TIA-921''"
definition SourceNetemDoc :: profile_source where "SourceNetemDoc = ''netem-doc''"
definition SourceMeasured :: profile_source where "SourceMeasured = ''measured''"
definition SourceSynthetic :: profile_source where "SourceSynthetic = ''synthetic''"

definition validSources :: "profile_source set" where
  "validSources = {SourceG1050, SourceTIA921, SourceNetemDoc, SourceMeasured, SourceSynthetic}"

definition ValidSource :: "profile_source \<Rightarrow> bool" where
  "ValidSource s \<longleftrightarrow> s \<in> validSources"

record profile =
  po_Name :: string
  po_Description :: string
  po_Grade :: int64
  po_Cite :: string
  po_Source :: profile_source
  po_License :: string
  po_Notes :: string
  po_LossModel :: loss_model
  po_LossPct :: f64
  po_BurstR :: f64
  po_BaseDelayMs :: f64
  po_JitterMs :: f64
  po_DelayDist :: string
  po_SigmaMs :: f64
  po_DelayCorrelation :: f64
  po_ReorderPct :: f64
  po_ReorderGapMs :: f64

definition geParams :: "f64 \<Rightarrow> f64 \<Rightarrow> f64 \<times> f64" where
  "geParams lossPct r =
     (let l = fdiv lossPct (Fin 100) in
      if fle l (Fin 0) then (Fin 0, r)
      else let l = (if fle (Fin 1) l then fround (999 / 1000) else l);
               r = (if fle r (Fin 0) then Fin (1 / 2) else r)
        in (fdiv (fmul l r) (fsub (Fin 1) l), r))"

definition profile_Compile :: "profile \<Rightarrow> int64 \<Rightarrow> scenario" where
  "profile_Compile p seed =
     (let loss = (if flt (Fin 0) (po_LossPct p) then
            (if po_LossModel p = LossGE then
               let (gp, gr) = geParams (po_LossPct p) (po_BurstR p)
               in [no_stage\<lparr>st_GE := Some \<lparr>gp_P = gp, gp_R = gr, gp_H = Fin 0, gp_K = Fin 0\<rparr>\<rparr>]
             else [no_stage\<lparr>st_Loss := Some (fdiv (po_LossPct p) (Fin 100))\<rparr>])
          else []);
          reorder = (if flt (Fin 0) (po_ReorderPct p) then
            [no_stage\<lparr>st_Reorder := Some \<lparr>rdp_ReorderPct = fdiv (po_ReorderPct p) (Fin 100),
               rdp_GapMs = po_ReorderGapMs p, rdp_Correlation = Fin 0, rdp_DupPct = Fin 0\<rparr>\<rparr>]
          else []);
          dp = \<lparr>dp_BaseMs = po_BaseDelayMs p, dp_JitterMs = Fin 0, dp_SigmaMs = Fin 0, dp_Distribution = [],
            dp_Correlation = po_DelayCorrelation p\<rparr>;
          dp = (if po_DelayDist p = ''normal'' then dp\<lparr>dp_Distribution := ''normal'', dp_SigmaMs := po_SigmaMs p\<rparr>
            else if flt (Fin 0) (po_JitterMs p) then dp\<lparr>dp_Distribution := ''uniform'', dp_JitterMs := po_JitterMs p\<rparr>
            else dp)
      in \<lparr>sc_Name = po_Name p, sc_Seed = seed, sc_Pipeline = loss @ reorder @ [no_stage\<lparr>st_Delay := Some dp\<rparr>],
          sc_C2S = [], sc_S2C = [], sc_Encrypted = False\<rparr>)"

section \<open>Provenance\<close>

record provenance =
  pv_Cite :: string
  pv_Source :: profile_source
  pv_License :: string

definition profile_Provenance :: "profile \<Rightarrow> provenance" where
  "profile_Provenance p = \<lparr>pv_Cite = po_Cite p, pv_Source = po_Source p, pv_License = po_License p\<rparr>"

text \<open>The errors name the profile or trace, as their messages do.\<close>

datatype provenance_error = MissingCite string | MissingSource string | InvalidSource string string
  | MissingLicense string

definition profile_ValidateProvenance :: "profile \<Rightarrow> provenance_error option" where
  "profile_ValidateProvenance p =
     (if po_Cite p = [] then Some (MissingCite (po_Name p))
      else if po_Source p = [] then Some (MissingSource (po_Name p))
      else if \<not> ValidSource (po_Source p) then Some (InvalidSource (po_Name p) (po_Source p))
      else if po_License p = [] then Some (MissingLicense (po_Name p))
      else None)"

section \<open>The G.1050 ladder\<close>

definition g1050Cite :: string where
  "g1050Cite = ''ITU-T G.1050 (2016) / TIA-921 IP network model '' @ dash @
     '' service-level structure (parametric approximation; not transcribed)''"

definition g1050License :: string where
  "g1050License = ''model-parameters only (no standard text or measured data redistributed); see package doc''"

record g1050_level =
  gl_letter :: string
  gl_grade :: int64
  gl_description :: string
  gl_source :: profile_source
  gl_lossModel :: loss_model
  gl_lossPct :: f64
  gl_burstR :: f64
  gl_baseDelayMs :: f64
  gl_jitterMs :: f64
  gl_delayDist :: string
  gl_sigmaMs :: f64
  gl_delayCorr :: f64
  gl_reorderPct :: f64
  gl_reorderGapMs :: f64

definition g1050Ladder :: "g1050_level list" where
  "g1050Ladder =
    [\<lparr>gl_letter = ''A'', gl_grade = 0, gl_description = ''pristine backbone / managed LAN (excellent)'',
      gl_source = SourceG1050, gl_lossModel = LossBernoulli, gl_lossPct = Fin 0, gl_burstR = Fin 0,
      gl_baseDelayMs = Fin 1, gl_jitterMs = Fin 0, gl_delayDist = [], gl_sigmaMs = Fin 0, gl_delayCorr = Fin 0,
      gl_reorderPct = Fin 0, gl_reorderGapMs = Fin 0\<rparr>,
     \<lparr>gl_letter = ''B'', gl_grade = 1, gl_description = ''well-provisioned broadband (good)'',
      gl_source = SourceG1050, gl_lossModel = LossBernoulli, gl_lossPct = fround (1 / 10), gl_burstR = Fin 0,
      gl_baseDelayMs = Fin 20, gl_jitterMs = Fin 3, gl_delayDist = ''uniform'', gl_sigmaMs = Fin 0,
      gl_delayCorr = Fin 0, gl_reorderPct = Fin 0, gl_reorderGapMs = Fin 0\<rparr>,
     \<lparr>gl_letter = ''C'', gl_grade = 2, gl_description = ''mobile / LTE-ish access (fair)'',
      gl_source = SourceTIA921, gl_lossModel = LossGE, gl_lossPct = Fin 1, gl_burstR = Fin (1 / 2),
      gl_baseDelayMs = Fin 45, gl_jitterMs = Fin 0, gl_delayDist = ''normal'', gl_sigmaMs = Fin 12,
      gl_delayCorr = fround (3 / 10), gl_reorderPct = Fin 1, gl_reorderGapMs = Fin 5\<rparr>,
     \<lparr>gl_letter = ''D'', gl_grade = 3, gl_description = ''heavily congested access (poor)'',
      gl_source = SourceTIA921, gl_lossModel = LossGE, gl_lossPct = Fin 3, gl_burstR = fround (35 / 100),
      gl_baseDelayMs = Fin 90, gl_jitterMs = Fin 0, gl_delayDist = ''normal'', gl_sigmaMs = Fin 30,
      gl_delayCorr = fround (4 / 10), gl_reorderPct = Fin 3, gl_reorderGapMs = Fin 10\<rparr>,
     \<lparr>gl_letter = ''E'', gl_grade = 4, gl_description = ''stressed / lossy edge (severe)'',
      gl_source = SourceTIA921, gl_lossModel = LossGE, gl_lossPct = Fin 8, gl_burstR = Fin (1 / 4),
      gl_baseDelayMs = Fin 150, gl_jitterMs = Fin 0, gl_delayDist = ''normal'', gl_sigmaMs = Fin 60,
      gl_delayCorr = Fin (1 / 2), gl_reorderPct = Fin 6, gl_reorderGapMs = Fin 20\<rparr>]"

definition level_profile :: "g1050_level \<Rightarrow> profile" where
  "level_profile l = \<lparr>po_Name = ''g1050-'' @ gl_letter l, po_Description = gl_description l, po_Grade = gl_grade l,
     po_Cite = sprintf (''%s '' @ dash @ '' service level %s'') [Str g1050Cite, Str (gl_letter l)],
     po_Source = gl_source l, po_License = g1050License,
     po_Notes = ''G.1050/TIA-921-inspired parametric preset (structure only)'',
     po_LossModel = gl_lossModel l, po_LossPct = gl_lossPct l, po_BurstR = gl_burstR l,
     po_BaseDelayMs = gl_baseDelayMs l, po_JitterMs = gl_jitterMs l, po_DelayDist = gl_delayDist l,
     po_SigmaMs = gl_sigmaMs l, po_DelayCorrelation = gl_delayCorr l, po_ReorderPct = gl_reorderPct l,
     po_ReorderGapMs = gl_reorderGapMs l\<rparr>"

text \<open>A Go map of profiles; later entries replace earlier ones.\<close>

definition G1050Profiles :: "string \<rightharpoonup> profile" where
  "G1050Profiles = foldl (\<lambda>out l. out(po_Name (level_profile l) \<mapsto> level_profile l)) Map.empty g1050Ladder"

definition G1050Levels :: "string list" where
  "G1050Levels = sort (map gl_letter g1050Ladder)"

definition toUpperByte :: "char \<Rightarrow> char" where
  "toUpperByte c = (if 97 \<le> (of_char c :: nat) \<and> (of_char c :: nat) \<le> 122 then char_of ((of_char c :: nat) - 32) else c)"

definition upperASCII :: "string \<Rightarrow> string" where
  "upperASCII s = map toUpperByte s"

definition equalFoldASCII :: "string \<Rightarrow> string \<Rightarrow> bool" where
  "equalFoldASCII a b \<longleftrightarrow> length a = length b \<and> (\<forall>i \<in> set [0..<length a]. toUpperByte (a ! i) = toUpperByte (b ! i))"

definition normalizeLevel :: "string \<Rightarrow> string" where
  "normalizeLevel level =
     upperASCII (if length level \<ge> 6 \<and> equalFoldASCII (take 6 level) ''g1050-'' then drop 6 level else level)"

definition ImportG1050 :: "string \<Rightarrow> string + profile" where
  "ImportG1050 level = (case find (\<lambda>l. gl_letter l = normalizeLevel level) g1050Ladder of
     None \<Rightarrow> Inl level | Some l \<Rightarrow> Inr (level_profile l))"

definition ScenarioG1050 :: "string \<Rightarrow> int64 \<Rightarrow> string + scenario" where
  "ScenarioG1050 level seed = (case ImportG1050 level of
     Inl e \<Rightarrow> Inl e | Inr p \<Rightarrow> Inr (profile_Compile p seed))"

definition Profiles :: "string \<rightharpoonup> profile" where
  "Profiles = G1050Profiles"

text \<open>The keys of a map in the order the program ranges over it is an argument: sorting makes
  it irrelevant.\<close>

definition Names :: "string list \<Rightarrow> string list" where
  "Names ks = map snd (sort (map (\<lambda>n. (po_Grade (the (Profiles n)), n)) ks))"

definition profile_Get :: "string \<Rightarrow> profile option" where
  "profile_Get n = Profiles n"

definition profile_Scenario :: "string \<Rightarrow> int64 \<Rightarrow> string + scenario" where
  "profile_Scenario n seed = (case profile_Get n of None \<Rightarrow> Inl n | Some p \<Rightarrow> Inr (profile_Compile p seed))"

section \<open>Mahimahi traces\<close>

record trace_profile =
  tp_Name :: string
  tp_Description :: string
  tp_Cite :: string
  tp_Source :: profile_source
  tp_License :: string
  tp_Notes :: string
  tp_Trace :: delivery_config

record trace_meta =
  tm_Name :: string
  tm_Description :: string
  tm_Cite :: string
  tm_Source :: profile_source
  tm_License :: string
  tm_Notes :: string

definition trace_ValidateProvenance :: "trace_profile \<Rightarrow> provenance_error option" where
  "trace_ValidateProvenance t =
     (if tp_Cite t = [] then Some (MissingCite (tp_Name t))
      else if tp_Source t = [] then Some (MissingSource (tp_Name t))
      else if \<not> ValidSource (tp_Source t) then Some (InvalidSource (tp_Name t) (tp_Source t))
      else if tp_License t = [] then Some (MissingLicense (tp_Name t))
      else None)"

definition trace_Provenance :: "trace_profile \<Rightarrow> provenance" where
  "trace_Provenance t = \<lparr>pv_Cite = tp_Cite t, pv_Source = tp_Source t, pv_License = tp_License t\<rparr>"

text \<open>The substream the source derives for the cell is not used by it.\<close>

definition trace_Cell :: "trace_profile \<Rightarrow> int64 \<Rightarrow> cell" where
  "trace_Cell t seed = CDeliveryTrace (NewDeliveryTrace (tp_Trace t))"

definition trace_Schedule :: "trace_profile \<Rightarrow> int64 list" where
  "trace_Schedule t = dt_Schedule (tp_Trace t)"

datatype import_error = ReadTrace | ParseTrace string trace_error | BadProvenance provenance_error

definition trace_profile_of :: "trace_meta \<Rightarrow> delivery_config \<Rightarrow> trace_profile" where
  "trace_profile_of meta cfg = \<lparr>tp_Name = tm_Name meta, tp_Description = tm_Description meta, tp_Cite = tm_Cite meta,
     tp_Source = tm_Source meta, tp_License = tm_License meta, tp_Notes = tm_Notes meta, tp_Trace = cfg\<rparr>"

definition ImportMahimahi :: "reader \<Rightarrow> trace_meta \<Rightarrow> import_error + trace_profile" where
  "ImportMahimahi rd meta =
     (if rd_fails rd then Inl ReadTrace
      else case trace_Parse (rd_data rd) of
             Inl e \<Rightarrow> Inl (ParseTrace (tm_Name meta) e)
           | Inr cfg \<Rightarrow>
               let tp = trace_profile_of meta cfg
               in (case trace_ValidateProvenance tp of Some e \<Rightarrow> Inl (BadProvenance e) | None \<Rightarrow> Inr tp))"

definition trace_Emit :: "trace_profile \<Rightarrow> string" where
  "trace_Emit t = Serialize (tp_Trace t)"

definition meta_of :: "trace_profile \<Rightarrow> trace_meta" where
  "meta_of t = \<lparr>tm_Name = tp_Name t, tm_Description = tp_Description t, tm_Cite = tp_Cite t,
     tm_Source = tp_Source t, tm_License = tp_License t, tm_Notes = tp_Notes t\<rparr>"

section \<open>Compiled profiles build\<close>

lemma compiled_stages:
  "list_all stage_ok (sc_Pipeline (profile_Compile p seed)) \<and>
   map stage_kinds (sc_Pipeline (profile_Compile p seed)) =
     (if flt (Fin 0) (po_LossPct p) then [if po_LossModel p = LossGE then [''ge''] else [''loss'']] else []) @
     (if flt (Fin 0) (po_ReorderPct p) then [[''reorder'']] else []) @ [[''delay'']]"
  by (simp add: profile_Compile_def Let_def stage_ok_def known_distribution_def stage_kinds_def no_stage_def split_beta)

lemma compiled_well_formed: "well_formed (profile_Compile p seed)"
  using compiled_stages [of p seed] by (simp add: profile_Compile_def Let_def well_formed_pipeline)

section \<open>The importer\<close>

lemma toUpperByte_idem [simp]: "toUpperByte (toUpperByte c) = toUpperByte c"
proof (cases "97 \<le> (of_char c :: nat) \<and> (of_char c :: nat) \<le> 122")
  case True
  then have "(of_char c :: nat) - 32 < 256" by linarith
  then have "((of_char c :: nat) - 32) mod 256 = of_char c - 32" by (rule mod_less)
  then have "(of_char (char_of ((of_char c :: nat) - 32)) :: nat) = of_char c - 32" by simp
  moreover have "\<not> 97 \<le> (of_char c :: nat) - 32" using True by linarith
  ultimately show ?thesis using True by (simp add: toUpperByte_def)
next
  case False
  then show ?thesis unfolding toUpperByte_def by (simp only: if_not_P [OF False] False if_False)
qed

lemma upperASCII_idem [simp]: "upperASCII (upperASCII s) = upperASCII s"
  by (simp add: upperASCII_def)

lemma upperASCII_append: "upperASCII (a @ b) = upperASCII a @ upperASCII b"
  by (simp add: upperASCII_def)

lemma equalFold_upper: "equalFoldASCII a b \<longleftrightarrow> upperASCII a = upperASCII b"
  unfolding equalFoldASCII_def upperASCII_def list_eq_iff_nth_eq [of "map toUpperByte a"] by auto

lemma upper_prefix: "upperASCII ''g1050-'' = ''G1050-''"
  by code_simp

lemma normalizeLevel_upper:
  "normalizeLevel level =
     (if take 6 (upperASCII level) = ''G1050-'' then drop 6 (upperASCII level) else upperASCII level)"
proof -
  have l: "length level \<ge> 6" if "take 6 (upperASCII level) = ''G1050-''"
    using arg_cong [OF that, of length] by (simp add: upperASCII_def)
  have "equalFoldASCII (take 6 level) ''g1050-'' \<longleftrightarrow> take 6 (upperASCII level) = ''G1050-''"
    unfolding equalFold_upper upper_prefix by (simp add: upperASCII_def take_map)
  then show ?thesis using l by (auto simp: normalizeLevel_def upperASCII_def drop_map)
qed

lemma normalizeLevel_fold: "upperASCII a = upperASCII b \<Longrightarrow> normalizeLevel a = normalizeLevel b"
  by (simp add: normalizeLevel_upper)

lemma ladder_letters: "map gl_letter g1050Ladder = [''A'', ''B'', ''C'', ''D'', ''E'']"
  by (simp add: g1050Ladder_def)

lemma letter_cases: "l \<in> set g1050Ladder \<Longrightarrow> gl_letter l \<in> {''A'', ''B'', ''C'', ''D'', ''E''}"
  using arg_cong [OF ladder_letters, of set] by auto

lemma inj_letters: "l \<in> set g1050Ladder \<Longrightarrow> k \<in> set g1050Ladder \<Longrightarrow> gl_letter l = gl_letter k \<Longrightarrow> l = k"
proof -
  have "distinct (map gl_letter g1050Ladder)" by (simp add: ladder_letters)
  then have "inj_on gl_letter (set g1050Ladder)" by (simp add: distinct_map)
  then show "l \<in> set g1050Ladder \<Longrightarrow> k \<in> set g1050Ladder \<Longrightarrow> gl_letter l = gl_letter k \<Longrightarrow> l = k"
    by (simp add: inj_onD)
qed

lemma ladder_find:
  assumes "l \<in> set g1050Ladder"
  shows "find (\<lambda>k. gl_letter k = gl_letter l) g1050Ladder = Some l"
proof (cases "find (\<lambda>k. gl_letter k = gl_letter l) g1050Ladder")
  case None
  then show ?thesis using assms by (auto simp: find_None_iff)
next
  case (Some k)
  then have "k \<in> set g1050Ladder" "gl_letter k = gl_letter l" by (auto simp: find_Some_iff)
  then show ?thesis using Some inj_letters assms by auto
qed

lemma Import_level:
  assumes "ImportG1050 level = Inr p"
  obtains l where "l \<in> set g1050Ladder" "p = level_profile l" "gl_letter l = normalizeLevel level"
proof -
  obtain l where f: "find (\<lambda>l. gl_letter l = normalizeLevel level) g1050Ladder = Some l" "p = level_profile l"
    using assms by (auto simp: ImportG1050_def split: option.splits)
  then have "l \<in> set g1050Ladder" "gl_letter l = normalizeLevel level" by (auto simp: find_Some_iff)
  then show thesis using that f(2) by blast
qed

lemma ImportG1050_ok:
  "(\<exists>p. ImportG1050 level = Inr p) \<longleftrightarrow> normalizeLevel level \<in> {''A'', ''B'', ''C'', ''D'', ''E''}"
proof
  assume "\<exists>p. ImportG1050 level = Inr p"
  then obtain p where "ImportG1050 level = Inr p" by blast
  then obtain l where "l \<in> set g1050Ladder" "gl_letter l = normalizeLevel level" by (rule Import_level)
  then show "normalizeLevel level \<in> {''A'', ''B'', ''C'', ''D'', ''E''}" using letter_cases by metis
next
  assume "normalizeLevel level \<in> {''A'', ''B'', ''C'', ''D'', ''E''}"
  then have "normalizeLevel level \<in> set (map gl_letter g1050Ladder)" by (simp only: ladder_letters) auto
  then obtain l where "l \<in> set g1050Ladder" "gl_letter l = normalizeLevel level" by auto
  then show "\<exists>p. ImportG1050 level = Inr p" using ladder_find [of l] by (simp add: ImportG1050_def)
qed

definition level_name :: "g1050_level \<Rightarrow> string" where
  "level_name l = ''g1050-'' @ gl_letter l"

lemma po_Name_level [simp]: "po_Name (level_profile l) = level_name l"
  by (simp add: level_profile_def level_name_def)

lemma normalize_name:
  assumes "l \<in> set g1050Ladder"
  shows "normalizeLevel (level_name l) = gl_letter l"
proof -
  have "upperASCII ''A'' = ''A''" "upperASCII ''B'' = ''B''" "upperASCII ''C'' = ''C''" "upperASCII ''D'' = ''D''"
    "upperASCII ''E'' = ''E''"
    by code_simp+
  then have "upperASCII (gl_letter l) = gl_letter l" using letter_cases [OF assms] by auto
  then show ?thesis unfolding level_name_def normalizeLevel_upper upperASCII_append upper_prefix by simp
qed

lemma foldl_update_map_of:
  "foldl (\<lambda>m x. m(k x \<mapsto> v x)) m0 xs = m0 ++ map_of (rev (map (\<lambda>x. (k x, v x)) xs))"
  by (induction xs arbitrary: m0) simp_all

lemma Profiles_Some: "Profiles n = Some p \<longleftrightarrow> (\<exists>l\<in>set g1050Ladder. n = level_name l \<and> p = level_profile l)"
proof -
  have "distinct (map gl_letter g1050Ladder)" by (simp add: ladder_letters)
  then have "distinct (map level_name g1050Ladder)" by (simp add: distinct_map inj_on_def level_name_def)
  then have "map_of (rev (map (\<lambda>l. (level_name l, level_profile l)) g1050Ladder)) n = Some p \<longleftrightarrow>
      (n, p) \<in> set (map (\<lambda>l. (level_name l, level_profile l)) g1050Ladder)"
    by (subst map_of_eq_Some_iff) (simp_all add: rev_map [symmetric] comp_def)
  then show ?thesis by (auto simp: Profiles_def G1050Profiles_def foldl_update_map_of)
qed

lemma Profiles_ladder: "l \<in> set g1050Ladder \<Longrightarrow> Profiles (level_name l) = Some (level_profile l)"
  by (auto simp: Profiles_Some)

lemma ladder_sources: "list_all (\<lambda>l. gl_source l \<noteq> [] \<and> ValidSource (gl_source l)) g1050Ladder"
  by (simp add: g1050Ladder_def SourceG1050_def SourceTIA921_def ValidSource_def validSources_def)

lemma Import_name:
  assumes "ImportG1050 level = Inr p"
  shows "ImportG1050 (po_Name p) = Inr p \<and> Profiles (po_Name p) = Some p \<and> profile_ValidateProvenance p = None"
proof -
  obtain l where l: "l \<in> set g1050Ladder" "p = level_profile l" by (rule Import_level [OF assms])
  have "gl_source l \<noteq> [] \<and> ValidSource (gl_source l)" using ladder_sources l(1) by (simp add: list_all_iff)
  moreover have "po_Cite p \<noteq> []" "po_License p \<noteq> []" "po_Source p = gl_source l"
    by (simp_all add: l(2) level_profile_def g1050Cite_def g1050License_def)
  ultimately have "profile_ValidateProvenance p = None" by (simp add: profile_ValidateProvenance_def)
  moreover have "ImportG1050 (level_name l) = Inr (level_profile l)"
    using ladder_find [OF l(1)] by (simp add: ImportG1050_def normalize_name [OF l(1)])
  ultimately show ?thesis using l Profiles_ladder by simp
qed

lemma ladder_grades: "map (\<lambda>l. (gl_grade l, level_name l)) g1050Ladder =
    [(0, ''g1050-A''), (1, ''g1050-B''), (2, ''g1050-C''), (3, ''g1050-D''), (4, ''g1050-E'')]"
  by (simp add: g1050Ladder_def level_name_def)

lemma Names_ladder:
  assumes "distinct ks" "set ks = dom Profiles"
  shows "Names ks = [''g1050-A'', ''g1050-B'', ''g1050-C'', ''g1050-D'', ''g1050-E'']"
proof -
  let ?k = "\<lambda>n. (po_Grade (the (Profiles n)), n)" and ?ks = "map level_name g1050Ladder"
  have "distinct (map snd (map (\<lambda>l. (gl_grade l, level_name l)) g1050Ladder))" unfolding ladder_grades by simp
  then have d: "distinct ?ks" by (simp add: comp_def)
  have "set ks = set ?ks" using assms(2) Profiles_Some by (auto simp: dom_def)
  then have m: "mset ks = mset ?ks" using assms(1) d set_eq_iff_mset_eq_distinct by blast
  have "map ?k ?ks = map (\<lambda>l. (gl_grade l, level_name l)) g1050Ladder"
    using Profiles_ladder by (auto simp: level_profile_def)
  then have k: "map ?k ?ks = [(0, ''g1050-A''), (1, ''g1050-B''), (2, ''g1050-C''), (3, ''g1050-D''), (4, ''g1050-E'')]"
    unfolding ladder_grades .
  have "sort (map ?k ks) = map ?k ?ks"
  proof (rule properties_for_sort)
    show "mset (map ?k ?ks) = mset (map ?k ks)" using m by (metis mset_map)
    show "sorted (map ?k ?ks)" unfolding k by simp
  qed
  then show ?thesis unfolding Names_def k by simp
qed

lemma Import_Emit:
  assumes "list_all (\<lambda>t. 0 \<le> t \<and> in64 t) (trace_Schedule t)" "in64 (dt_MTU (tp_Trace t))"
    "in64 (dt_MaxBacklog (tp_Trace t))" "trace_ValidateProvenance t = None"
  shows "ImportMahimahi \<lparr>rd_data = trace_Emit t, rd_fails = False\<rparr> (meta_of t) =
    Inr (t\<lparr>tp_Trace := normal_config (tp_Trace t)\<rparr>)"
proof -
  have "trace_Parse (trace_Emit t) = Inr (normal_config (tp_Trace t))"
    using assms by (simp add: trace_Emit_def trace_roundtrip trace_Schedule_def)
  moreover have "trace_profile_of (meta_of t) (normal_config (tp_Trace t)) = t\<lparr>tp_Trace := normal_config (tp_Trace t)\<rparr>"
    by (simp add: trace_profile_of_def meta_of_def)
  moreover have "trace_ValidateProvenance (t\<lparr>tp_Trace := c\<rparr>) = trace_ValidateProvenance t" for c
    by (simp add: trace_ValidateProvenance_def)
  ultimately show ?thesis using assms(4) by (simp add: ImportMahimahi_def Let_def)
qed

end
