(* ===== verification/Sha256.thy ===== *)
theory Sha256
  imports GoText "HOL-Library.Word"
begin

text \<open>
  \<^verbatim>\<open>crypto/sha256\<close> and \<^verbatim>\<open>encoding/hex\<close> as the trace manifest uses them: the digest of a byte
  string, in lower-case hexadecimal.
\<close>

unbundle bit_operations_syntax

definition sha_constants :: "32 word list" where
  "sha_constants =
    [0x428A2F98, 0x71374491, 0xB5C0FBCF, 0xE9B5DBA5, 0x3956C25B, 0x59F111F1, 0x923F82A4, 0xAB1C5ED5,
     0xD807AA98, 0x12835B01, 0x243185BE, 0x550C7DC3, 0x72BE5D74, 0x80DEB1FE, 0x9BDC06A7, 0xC19BF174,
     0xE49B69C1, 0xEFBE4786, 0x0FC19DC6, 0x240CA1CC, 0x2DE92C6F, 0x4A7484AA, 0x5CB0A9DC, 0x76F988DA,
     0x983E5152, 0xA831C66D, 0xB00327C8, 0xBF597FC7, 0xC6E00BF3, 0xD5A79147, 0x06CA6351, 0x14292967,
     0x27B70A85, 0x2E1B2138, 0x4D2C6DFC, 0x53380D13, 0x650A7354, 0x766A0ABB, 0x81C2C92E, 0x92722C85,
     0xA2BFE8A1, 0xA81A664B, 0xC24B8B70, 0xC76C51A3, 0xD192E819, 0xD6990624, 0xF40E3585, 0x106AA070,
     0x19A4C116, 0x1E376C08, 0x2748774C, 0x34B0BCB5, 0x391C0CB3, 0x4ED8AA4A, 0x5B9CCA4F, 0x682E6FF3,
     0x748F82EE, 0x78A5636F, 0x84C87814, 0x8CC70208, 0x90BEFFFA, 0xA4506CEB, 0xBEF9A3F7, 0xC67178F2]"

definition sha_initial :: "32 word list" where
  "sha_initial =
    [0x6A09E667, 0xBB67AE85, 0x3C6EF372, 0xA54FF53A, 0x510E527F, 0x9B05688C, 0x1F83D9AB, 0x5BE0CD19]"

definition rotr :: "nat \<Rightarrow> 32 word \<Rightarrow> 32 word" where
  "rotr n x = drop_bit n x OR push_bit (32 - n) x"

definition sha_pad :: "string \<Rightarrow> 8 word list" where
  "sha_pad s = map of_char s @ [0x80] @ replicate ((119 - length s mod 64) mod 64) 0 @
     map (\<lambda>i. of_nat ((8 * length s) div 256 ^ (7 - i))) [0..<8]"

fun sha_words :: "8 word list \<Rightarrow> 32 word list" where
  "sha_words (a # b # c # d # rest) =
     (push_bit 24 (ucast a) OR push_bit 16 (ucast b) OR push_bit 8 (ucast c) OR ucast d) # sha_words rest"
| "sha_words _ = []"

text \<open>The message schedule, newest word first.\<close>

fun sha_extend :: "nat \<Rightarrow> 32 word list \<Rightarrow> 32 word list" where
  "sha_extend 0 ws = ws"
| "sha_extend (Suc n) ws =
     (let a = ws ! 14; b = ws ! 1;
          s0 = rotr 7 a XOR rotr 18 a XOR drop_bit 3 a;
          s1 = rotr 17 b XOR rotr 19 b XOR drop_bit 10 b
      in sha_extend n ((s1 + ws ! 6 + s0 + ws ! 15) # ws))"

fun sha_round :: "32 word list \<Rightarrow> 32 word \<times> 32 word \<Rightarrow> 32 word list" where
  "sha_round [a, b, c, d, e, f, g, h] (k, w) =
     (let t1 = h + (rotr 6 e XOR rotr 11 e XOR rotr 25 e) + ((e AND f) XOR (NOT e AND g)) + k + w;
          t2 = (rotr 2 a XOR rotr 13 a XOR rotr 22 a) + ((a AND b) XOR (a AND c) XOR (b AND c))
      in [t1 + t2, a, b, c, d + t1, e, f, g])"
| "sha_round st kw = st"

definition sha_block :: "32 word list \<Rightarrow> 32 word list \<Rightarrow> 32 word list" where
  "sha_block st ws = map2 (+) st (foldl sha_round st (zip sha_constants (rev (sha_extend 48 (rev ws)))))"

fun sha_blocks :: "nat \<Rightarrow> 32 word list \<Rightarrow> 32 word list \<Rightarrow> 32 word list" where
  "sha_blocks 0 st ws = st"
| "sha_blocks (Suc n) st ws = sha_blocks n (sha_block st (take 16 ws)) (drop 16 ws)"

definition Sum256 :: "string \<Rightarrow> 8 word list" where
  "Sum256 s = (let ws = sha_words (sha_pad s)
     in concat (map (\<lambda>w. map (\<lambda>i. ucast (drop_bit (24 - 8 * i) w)) [0..<4]) (sha_blocks (length ws div 16) sha_initial ws)))"

definition hex_digit :: "nat \<Rightarrow> char" where
  "hex_digit n = (if n < 10 then char_of (48 + n) else char_of (87 + n))"

definition EncodeToString :: "8 word list \<Rightarrow> string" where
  "EncodeToString bs = concat (map (\<lambda>b. [hex_digit (unat b div 16), hex_digit (unat b mod 16)]) bs)"

text \<open>\<^verbatim>\<open>hex.DecodeString\<close> fails on an odd length or on a character that is no hex digit.\<close>

definition is_hex :: "char \<Rightarrow> bool" where
  "is_hex c \<longleftrightarrow> is_digit c \<or> (97 \<le> (of_char c :: nat) \<and> (of_char c :: nat) \<le> 102) \<or>
     (65 \<le> (of_char c :: nat) \<and> (of_char c :: nat) \<le> 70)"

definition hex_decodes :: "string \<Rightarrow> bool" where
  "hex_decodes s \<longleftrightarrow> even (length s) \<and> list_all is_hex s"

section \<open>The form of a digest\<close>

lemma sha_round_length: "length (sha_round st kw) = length st"
  by (cases "(st, kw)" rule: sha_round.cases) (simp_all add: Let_def)

lemma sha_block_length: "length (sha_block st ws) = length st"
proof -
  have "length (foldl sha_round st xs) = length st" for xs
    by (induction xs arbitrary: st) (simp_all add: sha_round_length)
  then show ?thesis by (simp add: sha_block_def)
qed

lemma sha_blocks_length: "length (sha_blocks n st ws) = length st"
  by (induction n st ws rule: sha_blocks.induct) (simp_all add: sha_block_length)

lemma Sum256_length: "length (Sum256 s) = 32"
proof -
  have "length (sha_blocks n sha_initial ws) = 8" for n ws by (simp add: sha_blocks_length sha_initial_def)
  then show ?thesis by (simp add: Sum256_def Let_def length_concat comp_def sum_list_triv)
qed

lemma is_hex_digit: "n < 16 \<Longrightarrow> is_hex (hex_digit n)"
proof -
  assume "n < 16"
  then have "(48 + n) mod 256 = 48 + n" "(87 + n) mod 256 = 87 + n" by simp_all
  then have "(of_char (hex_digit n) :: nat) = (if n < 10 then 48 + n else 87 + n)"
    by (simp add: hex_digit_def)
  then show ?thesis using \<open>n < 16\<close> by (auto simp: is_hex_def is_digit_def)
qed

lemma EncodeToString_hex: "list_all is_hex (EncodeToString bs) \<and> length (EncodeToString bs) = 2 * length bs"
proof -
  have "unat b div 16 < 16" for b :: "8 word"
    using unsigned_less [of b, where ?'a = nat] by (intro less_mult_imp_div_less) simp
  then show ?thesis by (induction bs) (simp_all add: EncodeToString_def is_hex_digit)
qed

end
