(* ===== verification/Manifest.thy ===== *)
theory Manifest
  imports Profile Sha256
begin

text \<open>
  \<^verbatim>\<open>internal/profile/manifest.go\<close>: the catalogue that pins every trace by its digest. A file
  system maps a path to what opening and reading it gives, \<open>None\<close> when it cannot be opened;
  an operation that reads a file twice takes the file system of each read. The lemmas
  characterise a verified manifest and what a loaded trace was checked against. The JSON
  decoder is an argument; theory \<open>JsonFiles\<close> defines it.
\<close>

record manifest_entry =
  me_Name :: string
  me_File :: string
  me_Format :: string
  me_SHA256 :: string
  me_Description :: string
  me_Cite :: string
  me_Source :: profile_source
  me_License :: string
  me_Notes :: string

record manifest =
  mf_Version :: int64
  mf_Entries :: "manifest_entry list"
  mf_dir :: string

type_synonym file_system = "string \<Rightarrow> reader option"

section \<open>Paths\<close>

text \<open>\<^verbatim>\<open>path/filepath\<close> on Unix: components, \<^verbatim>\<open>Clean\<close>, \<^verbatim>\<open>Join\<close> of two elements, \<^verbatim>\<open>Dir\<close>.\<close>

fun split_slash :: "string \<Rightarrow> string \<Rightarrow> string list" where
  "split_slash cur [] = [cur]"
| "split_slash cur (c # cs) = (if c = CHR ''/'' then cur # split_slash [] cs else split_slash (cur @ [c]) cs)"

definition clean_step :: "bool \<Rightarrow> string list \<Rightarrow> string \<Rightarrow> string list" where
  "clean_step rooted out part =
     (if part = [] \<or> part = ''.'' then out
      else if part = ''..'' then
        (if out \<noteq> [] \<and> last out \<noteq> ''..'' then butlast out else if rooted then out else out @ [part])
      else out @ [part])"

definition Clean :: "string \<Rightarrow> string" where
  "Clean path =
     (let rooted = (path \<noteq> [] \<and> hd path = CHR ''/'');
          p = (if rooted then ''/'' else []) @ join ''/'' (foldl (clean_step rooted) [] (split_slash [] path))
      in if p = [] then ''.'' else p)"

definition JoinPath :: "string \<Rightarrow> string \<Rightarrow> string" where
  "JoinPath a b = (if a \<noteq> [] then Clean (a @ ''/'' @ b) else if b \<noteq> [] then Clean b else [])"

definition DirPath :: "string \<Rightarrow> string" where
  "DirPath path = Clean (rev (dropWhile (\<lambda>c. c \<noteq> CHR ''/'') (rev path)))"

section \<open>Operations\<close>

definition manifest_resolve :: "manifest \<Rightarrow> manifest_entry \<Rightarrow> string" where
  "manifest_resolve m e = (if mf_dir m = [] then me_File e else JoinPath (mf_dir m) (me_File e))"

definition manifest_Get :: "manifest \<Rightarrow> string \<Rightarrow> manifest_entry option" where
  "manifest_Get m n = find (\<lambda>e. me_Name e = n) (mf_Entries m)"

definition manifest_Names :: "manifest \<Rightarrow> string list" where
  "manifest_Names m = sort (map me_Name (mf_Entries m))"

definition HashBytes :: "string \<Rightarrow> string" where
  "HashBytes b = EncodeToString (Sum256 b)"

definition hashFile :: "file_system \<Rightarrow> string \<Rightarrow> string option" where
  "hashFile fs path = (case fs path of None \<Rightarrow> None
     | Some rd \<Rightarrow> (if rd_fails rd then None else Some (HashBytes (rd_data rd))))"

datatype digest_error = NotSixtyFour string | NotHex string

definition validHexSHA256 :: "string \<Rightarrow> digest_error option" where
  "validHexSHA256 s = (if length s \<noteq> 64 then Some (NotSixtyFour s)
     else if \<not> hex_decodes s then Some (NotHex s) else None)"

datatype manifest_error = OpenManifest | DecodeManifest | EmptyName | DuplicateName string | MissingFile string
  | Provenance provenance_error | BadDigest string digest_error | HashFailed string | Mismatch string string string
  | UnknownTrace string | OpenTrace string | ImportFailed import_error

text \<open>\<^verbatim>\<open>LoadManifest\<close>, over the JSON decoder, and the anchoring of the paths.\<close>

definition LoadManifest :: "(reader \<Rightarrow> manifest option) \<Rightarrow> reader \<Rightarrow> manifest_error + manifest" where
  "LoadManifest decode rd = (case decode rd of None \<Rightarrow> Inl DecodeManifest | Some m \<Rightarrow> Inr (m\<lparr>mf_dir := []\<rparr>))"

definition LoadManifestFile :: "(reader \<Rightarrow> manifest option) \<Rightarrow> file_system \<Rightarrow> string \<Rightarrow> manifest_error + manifest" where
  "LoadManifestFile decode fs path =
     (case fs path of
        None \<Rightarrow> Inl OpenManifest
      | Some f \<Rightarrow> (case LoadManifest decode f of Inl e \<Rightarrow> Inl e | Inr m \<Rightarrow> Inr (m\<lparr>mf_dir := DirPath path\<rparr>)))"

fun validate_entries :: "string set \<Rightarrow> manifest_entry list \<Rightarrow> manifest_error option" where
  "validate_entries seen [] = None"
| "validate_entries seen (e # es) =
     (if me_Name e = [] then Some EmptyName
      else if me_Name e \<in> seen then Some (DuplicateName (me_Name e))
      else if me_File e = [] then Some (MissingFile (me_Name e))
      else if me_Cite e = [] then Some (Provenance (MissingCite (me_Name e)))
      else if me_Source e = [] then Some (Provenance (MissingSource (me_Name e)))
      else if \<not> ValidSource (me_Source e) then Some (Provenance (InvalidSource (me_Name e) (me_Source e)))
      else if me_License e = [] then Some (Provenance (MissingLicense (me_Name e)))
      else case validHexSHA256 (me_SHA256 e) of
             Some err \<Rightarrow> Some (BadDigest (me_Name e) err)
           | None \<Rightarrow> validate_entries (insert (me_Name e) seen) es)"

definition manifest_ValidateProvenance :: "manifest \<Rightarrow> manifest_error option" where
  "manifest_ValidateProvenance m = validate_entries {} (mf_Entries m)"

definition check_entry :: "file_system \<Rightarrow> manifest \<Rightarrow> manifest_entry \<Rightarrow> manifest_error option" where
  "check_entry fs m e =
     (case hashFile fs (manifest_resolve m e) of
        None \<Rightarrow> Some (HashFailed (me_Name e))
      | Some got \<Rightarrow> (if equalFoldASCII got (me_SHA256 e) then None else Some (Mismatch (me_Name e) got (me_SHA256 e))))"

fun verify_entries :: "file_system \<Rightarrow> manifest \<Rightarrow> manifest_entry list \<Rightarrow> manifest_error option" where
  "verify_entries fs m [] = None"
| "verify_entries fs m (e # es) = (case check_entry fs m e of Some err \<Rightarrow> Some err | None \<Rightarrow> verify_entries fs m es)"

definition manifest_Verify :: "file_system \<Rightarrow> manifest \<Rightarrow> manifest_error option" where
  "manifest_Verify fs m = (case manifest_ValidateProvenance m of Some err \<Rightarrow> Some err
     | None \<Rightarrow> verify_entries fs m (mf_Entries m))"

definition entry_meta :: "manifest_entry \<Rightarrow> trace_meta" where
  "entry_meta e = \<lparr>tm_Name = me_Name e, tm_Description = me_Description e, tm_Cite = me_Cite e,
     tm_Source = me_Source e, tm_License = me_License e, tm_Notes = me_Notes e\<rparr>"

text \<open>The file is opened once to hash it and once more to read it.\<close>

definition manifest_TraceProfile :: "file_system \<Rightarrow> file_system \<Rightarrow> manifest \<Rightarrow> string \<Rightarrow> manifest_error + trace_profile" where
  "manifest_TraceProfile fs fs' m n =
     (case manifest_Get m n of
        None \<Rightarrow> Inl (UnknownTrace n)
      | Some e \<Rightarrow>
          (case check_entry fs m e of
             Some err \<Rightarrow> Inl err
           | None \<Rightarrow> (case fs' (manifest_resolve m e) of
               None \<Rightarrow> Inl (OpenTrace n)
             | Some f \<Rightarrow> (case ImportMahimahi f (entry_meta e) of
                 Inl err \<Rightarrow> Inl (ImportFailed err)
               | Inr tp \<Rightarrow> Inr tp))))"

section \<open>A verified manifest\<close>

definition entry_ok :: "manifest_entry \<Rightarrow> bool" where
  "entry_ok e \<longleftrightarrow> me_Name e \<noteq> [] \<and> me_File e \<noteq> [] \<and> me_Cite e \<noteq> [] \<and> me_Source e \<noteq> [] \<and> ValidSource (me_Source e) \<and>
     me_License e \<noteq> [] \<and> length (me_SHA256 e) = 64 \<and> list_all is_hex (me_SHA256 e)"

lemma validHexSHA256_None: "validHexSHA256 s = None \<longleftrightarrow> length s = 64 \<and> list_all is_hex s"
  by (simp add: validHexSHA256_def hex_decodes_def)

lemma validate_entries_None:
  "validate_entries seen es = None \<longleftrightarrow>
     list_all entry_ok es \<and> distinct (map me_Name es) \<and> seen \<inter> me_Name ` set es = {}"
proof (induction es arbitrary: seen)
  case (Cons e es)
  show ?case
  proof (cases "entry_ok e \<and> me_Name e \<notin> seen")
    case True
    then have "validate_entries seen (e # es) = validate_entries (insert (me_Name e) seen) es"
      using validHexSHA256_None [of "me_SHA256 e"] by (simp add: entry_ok_def)
    then show ?thesis using True by (auto simp: Cons.IH)
  next
    case False
    then have "validate_entries seen (e # es) \<noteq> None"
      using validHexSHA256_None [of "me_SHA256 e"] by (auto simp: entry_ok_def split: option.split)
    then show ?thesis using False by auto
  qed
qed simp

definition pinned :: "file_system \<Rightarrow> manifest \<Rightarrow> manifest_entry \<Rightarrow> bool" where
  "pinned fs m e \<longleftrightarrow> (\<exists>data. fs (manifest_resolve m e) = Some \<lparr>rd_data = data, rd_fails = False\<rparr> \<and>
     upperASCII (HashBytes data) = upperASCII (me_SHA256 e))"

lemma check_entry_None: "check_entry fs m e = None \<longleftrightarrow> pinned fs m e"
proof (cases "fs (manifest_resolve m e)")
  case (Some rd)
  obtain d f where rd: "rd = \<lparr>rd_data = d, rd_fails = f\<rparr>" by (cases rd)
  then show ?thesis using Some
    by (auto simp: check_entry_def hashFile_def pinned_def equalFold_upper)
qed (simp add: check_entry_def hashFile_def pinned_def)

lemma verify_entries_None: "verify_entries fs m es = None \<longleftrightarrow> (\<forall>e\<in>set es. pinned fs m e)"
proof (induction es)
  case (Cons e es)
  then show ?case using check_entry_None [of fs m e] by (cases "check_entry fs m e") auto
qed simp

lemma Verify_None:
  "manifest_Verify fs m = None \<longleftrightarrow> list_all entry_ok (mf_Entries m) \<and> distinct (map me_Name (mf_Entries m)) \<and>
     (\<forall>e\<in>set (mf_Entries m). pinned fs m e)"
  using validate_entries_None [of "{}" "mf_Entries m"]
  by (auto simp: manifest_Verify_def manifest_ValidateProvenance_def verify_entries_None split: option.split)

text \<open>Every entry of a manifest with distinct names is found under its name.\<close>

lemma Get_entry: "distinct (map me_Name (mf_Entries m)) \<Longrightarrow> e \<in> set (mf_Entries m) \<Longrightarrow> manifest_Get m (me_Name e) = Some e"
proof -
  have "distinct (map me_Name es) \<Longrightarrow> e \<in> set es \<Longrightarrow> find (\<lambda>d. me_Name d = me_Name e) es = Some e" for es
    by (induction es) auto
  then show "distinct (map me_Name (mf_Entries m)) \<Longrightarrow> e \<in> set (mf_Entries m) \<Longrightarrow> manifest_Get m (me_Name e) = Some e"
    by (simp add: manifest_Get_def)
qed

lemma TraceProfile_pinned:
  assumes "manifest_Get m n = Some e" "pinned fs m e"
  shows "manifest_TraceProfile fs fs' m n =
    (case fs' (manifest_resolve m e) of None \<Rightarrow> Inl (OpenTrace n)
     | Some f \<Rightarrow> map_sum ImportFailed id (ImportMahimahi f (entry_meta e)))"
  using assms check_entry_None [of fs m e]
  by (auto simp: manifest_TraceProfile_def map_sum_def split: option.split sum.split)

lemma TraceProfile_ok:
  assumes "manifest_TraceProfile fs fs' m n = Inr tp"
  shows "\<exists>e. manifest_Get m n = Some e \<and> pinned fs m e"
  using assms check_entry_None by (fastforce simp: manifest_TraceProfile_def split: option.splits)

end
