(* ===== verification/Cli.thy ===== *)
theory Cli
  imports Manifest
begin

text \<open>
  \<^verbatim>\<open>cmd/impair-profiles/main.go\<close>: the command that lists, shows and cites the built-in
  profiles and the traces of a manifest. Its flags are read as package \<^verbatim>\<open>flag\<close> reads them and
  its numbers are written as \<^verbatim>\<open>fmt\<close> writes \<^verbatim>\<open>%.4g\<close>. What it prints is the text it hands to the
  column aligner (\<^verbatim>\<open>text/tabwriter\<close>), to the JSON encoder, or to standard output as it is. The
  lemmas show that the three subcommands agree on which names there are.
\<close>

section \<open>Flags\<close>

record cli_flags =
  fl_manifest :: string
  fl_json :: bool

definition default_flags :: cli_flags where
  "default_flags = \<lparr>fl_manifest = ''traces/MANIFEST.json'', fl_json = False\<rparr>"

datatype cli_error = BadFlagSyntax string | UndefinedFlag string | HelpRequested | BadBool string string
  | NeedsArgument string | MissingCommand | MissingName string | UnknownCommand string
  | UnknownName string "string list"

definition ParseBool :: "string \<Rightarrow> bool option" where
  "ParseBool s = (if s \<in> {''1'', ''t'', ''T'', ''TRUE'', ''true'', ''True''} then Some True
     else if s \<in> {''0'', ''f'', ''F'', ''FALSE'', ''false'', ''False''} then Some False
     else None)"

text \<open>A flag's name and the value behind its first equals sign.\<close>

definition flag_value :: "string \<Rightarrow> string \<times> string option" where
  "flag_value s = (case dropWhile (\<lambda>c. c \<noteq> CHR ''='') s of
     [] \<Rightarrow> (s, None) | _ # v \<Rightarrow> (takeWhile (\<lambda>c. c \<noteq> CHR ''='') s, Some v))"

text \<open>\<^verbatim>\<open>FlagSet.Parse\<close> with the two flags of the command: reading stops at the first argument
  that is no flag, and behind \<^verbatim>\<open>--\<close>.\<close>

fun parse_flags :: "cli_flags \<Rightarrow> string list \<Rightarrow> cli_error + cli_flags \<times> string list" where
  "parse_flags f [] = Inr (f, [])"
| "parse_flags f (s # args) =
     (if length s < 2 \<or> hd s \<noteq> CHR ''-'' then Inr (f, s # args)
      else if s = ''--'' then Inr (f, args)
      else let n = (if s ! 1 = CHR ''-'' then drop 2 s else drop 1 s) in
        if n = [] \<or> hd n = CHR ''-'' \<or> hd n = CHR ''='' then Inl (BadFlagSyntax s)
        else case flag_value n of (nm, v) \<Rightarrow>
          if nm = ''json'' then
            (case v of None \<Rightarrow> parse_flags (f\<lparr>fl_json := True\<rparr>) args
             | Some t \<Rightarrow> (case ParseBool t of None \<Rightarrow> Inl (BadBool t nm)
                 | Some b \<Rightarrow> parse_flags (f\<lparr>fl_json := b\<rparr>) args))
          else if nm = ''manifest'' then
            (case v of Some p \<Rightarrow> parse_flags (f\<lparr>fl_manifest := p\<rparr>) args
             | None \<Rightarrow> (case args of [] \<Rightarrow> Inl (NeedsArgument nm)
                 | p # rest \<Rightarrow> parse_flags (f\<lparr>fl_manifest := p\<rparr>) rest))
          else if nm = ''help'' \<or> nm = ''h'' then Inl HelpRequested
          else Inl (UndefinedFlag nm))"

section \<open>Numbers\<close>

text \<open>The decimal exponent of a positive number, and its four leading digits, rounded to the
  nearest, ties to even.\<close>

definition decimal_exponent :: "rat \<Rightarrow> int" where
  "decimal_exponent x = (if 1 \<le> x then int (floorlog 10 (nat \<lfloor>x\<rfloor>)) - 1
     else - int (floorlog 10 (nat (\<lceil>1 / x\<rceil> - 1))))"

definition four_digits :: "rat \<Rightarrow> nat \<times> int" where
  "four_digits x = (let e = decimal_exponent x; m = nat (rne (x * 10 powi (3 - e)))
     in if m = 10000 then (1000, e + 1) else (m, e))"

definition trim_zeros :: "string \<Rightarrow> string" where
  "trim_zeros s = rev (dropWhile (\<lambda>c. c = CHR ''0'') (rev s))"

definition pad_zeros :: "nat \<Rightarrow> string \<Rightarrow> string" where
  "pad_zeros n s = s @ replicate (n - length s) CHR ''0''"

definition plain_form :: "string \<Rightarrow> int \<Rightarrow> string" where
  "plain_form ds dp =
     (let whole = (if 0 < dp then pad_zeros (nat dp) (take (nat dp) ds) else ''0'');
          frac = (if 0 < dp then drop (nat dp) ds else replicate (nat (- dp)) CHR ''0'' @ ds)
      in if frac = [] then whole else whole @ ''.'' @ frac)"

definition exponent_form :: "string \<Rightarrow> int \<Rightarrow> string" where
  "exponent_form ds e = take 1 ds @ (if length ds > 1 then ''.'' @ drop 1 ds else []) @ ''e'' @
     (if e < 0 then ''-'' else ''+'') @ (if \<bar>e\<bar> < 10 then ''0'' else []) @ digits (nat \<bar>e\<bar>)"

definition g4_positive :: "rat \<Rightarrow> string" where
  "g4_positive x = (let (m, e) = four_digits x; ds = trim_zeros (digits m); n = int (length ds);
      eprec = (if 4 > n \<and> n \<ge> e + 1 then n else 4)
    in if e < -4 \<or> e \<ge> eprec then exponent_form ds e else plain_form ds (e + 1))"

text \<open>\<^verbatim>\<open>%.4g\<close>; the model's zero has no sign.\<close>

fun g4 :: "f64 \<Rightarrow> string" where
  "g4 (Fin x) = (if x = 0 then ''0'' else if x < 0 then ''-'' @ g4_positive (- x) else g4_positive x)"
| "g4 PInf = ''+Inf''"
| "g4 NInf = ''-Inf''"
| "g4 NaN = ''NaN''"

section \<open>Commands\<close>

text \<open>What a command prints: lines handed to the aligner with its padding, text, or a value handed
  to the JSON encoder.\<close>

datatype json_value = JProfile profile | JEntry manifest_entry | JProvenance provenance

datatype cli_out = Aligned nat "string list" | Lines "string list" | Json json_value
  | ManifestUnavailable manifest_error

definition tab :: char where "tab = CHR 0x09"

definition lossModelName :: "loss_model \<Rightarrow> string" where
  "lossModelName m = (if m = LossGE then ''Gilbert-Elliott'' else if m = LossBernoulli then ''Bernoulli''
     else if m = [] then ''Bernoulli'' else m)"

definition field :: "string \<Rightarrow> string \<Rightarrow> string" where
  "field label val = label @ '':'' @ [tab] @ val"

definition showProfile :: "profile \<Rightarrow> cli_out list" where
  "showProfile p = [Aligned 1 (
     [field ''name'' (po_Name p), field ''kind'' ''profile'', field ''description'' (po_Description p),
      field ''grade'' (itoa (po_Grade p)),
      field ''loss'' (g4 (po_LossPct p) @ ''% ('' @ lossModelName (po_LossModel p) @ '')'')] @
     (if po_LossModel p = LossGE then [field ''burstR'' (g4 (po_BurstR p))] else []) @
     [field ''baseDelay'' (g4 (po_BaseDelayMs p) @ '' ms'')] @
     (if po_DelayDist p = ''normal'' then [field ''jitter'' (''sigma='' @ g4 (po_SigmaMs p) @ '' ms (normal)'')]
      else if flt (Fin 0) (po_JitterMs p) then [field ''jitter'' (''+/-'' @ g4 (po_JitterMs p) @ '' ms (uniform)'')]
      else []) @
     (if flt (Fin 0) (po_DelayCorrelation p) then [field ''delayCorrelation'' (g4 (po_DelayCorrelation p))] else []) @
     (if flt (Fin 0) (po_ReorderPct p)
      then [field ''reorder'' (g4 (po_ReorderPct p) @ ''% gap='' @ g4 (po_ReorderGapMs p) @ '' ms'')] else []) @
     [field ''cite'' (po_Cite p), field ''source'' (po_Source p), field ''license'' (po_License p)] @
     (if po_Notes p \<noteq> [] then [field ''notes'' (po_Notes p)] else []))]"

definition showTrace :: "manifest_entry \<Rightarrow> cli_out list" where
  "showTrace e = [Aligned 1 (
     [field ''name'' (me_Name e), field ''kind'' ''trace'', field ''description'' (me_Description e),
      field ''file'' (me_File e), field ''format'' (me_Format e), field ''sha256'' (me_SHA256 e),
      field ''cite'' (me_Cite e), field ''source'' (me_Source e), field ''license'' (me_License e)] @
     (if me_Notes e \<noteq> [] then [field ''notes'' (me_Notes e)] else []))]"

definition writeCite :: "string \<Rightarrow> string \<Rightarrow> profile_source \<Rightarrow> string \<Rightarrow> cli_out list" where
  "writeCite nm c src l = [Lines [nm, ''  cite:    '' @ c, ''  source:  '' @ src, ''  license: '' @ l]]"

definition list_line :: "string \<Rightarrow> string \<Rightarrow> profile_source \<Rightarrow> string \<Rightarrow> string" where
  "list_line nm kind src descr = nm @ [tab] @ kind @ [tab] @ src @ [tab] @ descr"

text \<open>The manifest is what loading it gave, an error included; \<open>ks\<close> are the names of the built-in
  profiles as the map yields them. A name a listing has drawn from a collection is in it, so
  the source ignores the second result of its look-up.\<close>

definition profile_line :: "string \<Rightarrow> string" where
  "profile_line n = (let p = the (profile_Get n) in list_line (po_Name p) ''profile'' (po_Source p) (po_Description p))"

definition trace_line :: "manifest \<Rightarrow> string \<Rightarrow> string" where
  "trace_line m n = (let e = the (manifest_Get m n) in list_line (me_Name e) ''trace'' (me_Source e) (me_Description e))"

definition cmdList :: "string list \<Rightarrow> manifest_error + manifest \<Rightarrow> cli_out list" where
  "cmdList ks man =
     Aligned 2 ((''NAME'' @ [tab] @ ''KIND'' @ [tab] @ ''SOURCE'' @ [tab] @ ''DESCRIPTION'') #
       map profile_line (Names ks) @
       (case man of Inl _ \<Rightarrow> [] | Inr m \<Rightarrow> map (trace_line m) (manifest_Names m))) #
     (case man of Inl err \<Rightarrow> [ManifestUnavailable err] | Inr _ \<Rightarrow> [])"

definition notFound :: "string list \<Rightarrow> string \<Rightarrow> manifest_error + manifest \<Rightarrow> cli_error" where
  "notFound ks n man = UnknownName n (sort (Names ks @ (case man of Inl _ \<Rightarrow> [] | Inr m \<Rightarrow> manifest_Names m)))"

definition cmdShow :: "string list \<Rightarrow> string \<Rightarrow> manifest_error + manifest \<Rightarrow> bool \<Rightarrow> cli_error + cli_out list" where
  "cmdShow ks n man asJSON =
     (case profile_Get n of
        Some p \<Rightarrow> Inr (if asJSON then [Json (JProfile p)] else showProfile p)
      | None \<Rightarrow> (case man of
          Inl _ \<Rightarrow> Inl (notFound ks n man)
        | Inr m \<Rightarrow> (case manifest_Get m n of
            None \<Rightarrow> Inl (notFound ks n man)
          | Some e \<Rightarrow> Inr (if asJSON then [Json (JEntry e)] else showTrace e))))"

definition cmdCite :: "string list \<Rightarrow> string \<Rightarrow> manifest_error + manifest \<Rightarrow> bool \<Rightarrow> cli_error + cli_out list" where
  "cmdCite ks n man asJSON =
     (case profile_Get n of
        Some p \<Rightarrow> Inr (if asJSON then [Json (JProvenance (profile_Provenance p))]
          else writeCite (po_Name p) (po_Cite p) (po_Source p) (po_License p))
      | None \<Rightarrow> (case man of
          Inl _ \<Rightarrow> Inl (notFound ks n man)
        | Inr m \<Rightarrow> (case manifest_Get m n of
            None \<Rightarrow> Inl (notFound ks n man)
          | Some e \<Rightarrow> Inr (if asJSON then [Json (JProvenance \<lparr>pv_Cite = me_Cite e, pv_Source = me_Source e,
                pv_License = me_License e\<rparr>)]
              else writeCite (me_Name e) (me_Cite e) (me_Source e) (me_License e)))))"

record cli_result =
  cr_stdout :: "cli_out list"
  cr_usage :: bool
  cr_error :: "cli_error option"

definition cli_fail :: "bool \<Rightarrow> cli_error \<Rightarrow> cli_result" where
  "cli_fail usage err = \<lparr>cr_stdout = [], cr_usage = usage, cr_error = Some err\<rparr>"

definition cli_done :: "cli_error + cli_out list \<Rightarrow> cli_result" where
  "cli_done r = (case r of Inl err \<Rightarrow> cli_fail False err
     | Inr out \<Rightarrow> \<lparr>cr_stdout = out, cr_usage = False, cr_error = None\<rparr>)"

definition cli_run :: "(reader \<Rightarrow> manifest option) \<Rightarrow> file_system \<Rightarrow> string list \<Rightarrow> string list \<Rightarrow> cli_result" where
  "cli_run decode fs ks args =
     (case parse_flags default_flags args of
        Inl err \<Rightarrow> cli_fail True err
      | Inr (f, []) \<Rightarrow> cli_fail True MissingCommand
      | Inr (f, cmd # rest) \<Rightarrow>
          let man = LoadManifestFile decode fs (fl_manifest f)
          in if cmd = ''list'' then cli_done (Inr (cmdList ks man))
             else if cmd = ''show'' then (case rest of [] \<Rightarrow> cli_fail False (MissingName cmd)
               | n # _ \<Rightarrow> cli_done (cmdShow ks n man (fl_json f)))
             else if cmd = ''cite'' then (case rest of [] \<Rightarrow> cli_fail False (MissingName cmd)
               | n # _ \<Rightarrow> cli_done (cmdCite ks n man (fl_json f)))
             else cli_fail True (UnknownCommand cmd))"

text \<open>\<^verbatim>\<open>main\<close>: the exit status.\<close>

definition cli_exit :: "cli_result \<Rightarrow> nat" where
  "cli_exit r = (if cr_error r = None then 0 else 1)"

section \<open>The subcommands agree\<close>

definition known_names :: "string list \<Rightarrow> manifest_error + manifest \<Rightarrow> string list" where
  "known_names ks man = Names ks @ (case man of Inl _ \<Rightarrow> [] | Inr m \<Rightarrow> manifest_Names m)"

lemma Names_set: "set (Names ks) = set ks"
  by (force simp: Names_def)

lemma Get_None: "manifest_Get m n = None \<longleftrightarrow> n \<notin> set (manifest_Names m)"
  by (auto simp: manifest_Get_def manifest_Names_def find_None_iff)

lemma Get_Some: "manifest_Get m n = Some e \<Longrightarrow> me_Name e = n"
  by (auto simp: manifest_Get_def find_Some_iff)

lemma known_names_iff:
  assumes "set ks = dom Profiles"
  shows "n \<in> set (known_names ks man) \<longleftrightarrow>
    profile_Get n \<noteq> None \<or> (\<exists>m. man = Inr m \<and> manifest_Get m n \<noteq> None)"
  using assms by (cases man) (auto simp: known_names_def Names_set profile_Get_def Get_None)

lemma cmdShow_cases:
  assumes "set ks = dom Profiles"
  shows "case cmdShow ks n man j of Inl err \<Rightarrow> n \<notin> set (known_names ks man) \<and> err = notFound ks n man
    | Inr _ \<Rightarrow> n \<in> set (known_names ks man)"
  unfolding known_names_iff [OF assms] by (auto simp: cmdShow_def split: option.split sum.split)

lemma cmdCite_cases:
  assumes "set ks = dom Profiles"
  shows "case cmdCite ks n man j of Inl err \<Rightarrow> n \<notin> set (known_names ks man) \<and> err = notFound ks n man
    | Inr _ \<Rightarrow> n \<in> set (known_names ks man)"
  unfolding known_names_iff [OF assms] by (auto simp: cmdCite_def split: option.split sum.split)

text \<open>The first column of the listing is the list of the known names.\<close>

lemma first_column: "tab \<notin> set nm \<Longrightarrow> takeWhile (\<lambda>c. c \<noteq> tab) (list_line nm k s d) = nm"
  unfolding list_line_def by (subst takeWhile_append) auto

lemma listed_names:
  assumes "set ks = dom Profiles" "\<forall>n \<in> set (known_names ks man). tab \<notin> set n"
  shows "\<exists>rows. hd (cmdList ks man) = Aligned 2 ((''NAME'' @ [tab] @ ''KIND'' @ [tab] @ ''SOURCE'' @ [tab] @ ''DESCRIPTION'') # rows) \<and>
    map (takeWhile (\<lambda>c. c \<noteq> tab)) rows = known_names ks man"
proof -
  have p: "takeWhile (\<lambda>c. c \<noteq> tab) (profile_line n) = n" if n: "n \<in> set (Names ks)" for n
  proof -
    have "n \<in> dom Profiles" using n assms(1) by (simp add: Names_set)
    then obtain p where "profile_Get n = Some p" "po_Name p = n"
      using Profiles_Some by (fastforce simp: profile_Get_def)
    then show ?thesis using n assms(2) by (simp add: profile_line_def first_column known_names_def)
  qed
  have t: "takeWhile (\<lambda>c. c \<noteq> tab) (trace_line m n) = n" if n: "man = Inr m" "n \<in> set (manifest_Names m)" for m n
  proof -
    obtain e where "manifest_Get m n = Some e" using n(2) Get_None [of m n] by (cases "manifest_Get m n") auto
    then show ?thesis using n assms(2) Get_Some [of m n e] by (simp add: trace_line_def first_column known_names_def)
  qed
  show ?thesis
    using map_idI [of "Names ks" "takeWhile (\<lambda>c. c \<noteq> tab) \<circ> profile_line"] p
      map_idI [of "manifest_Names m" "takeWhile (\<lambda>c. c \<noteq> tab) \<circ> trace_line m" for m] t
    by (cases man) (simp_all add: cmdList_def known_names_def)
qed

text \<open>The three subcommands without flags.\<close>

lemma parse_no_flags [simp]: "parse_flags f (''list'' # rest) = Inr (f, ''list'' # rest)"
  "parse_flags f (''show'' # rest) = Inr (f, ''show'' # rest)"
  "parse_flags f (''cite'' # rest) = Inr (f, ''cite'' # rest)"
  by simp_all

definition default_manifest :: "(reader \<Rightarrow> manifest option) \<Rightarrow> file_system \<Rightarrow> manifest_error + manifest" where
  "default_manifest decode fs = LoadManifestFile decode fs ''traces/MANIFEST.json''"

lemma run_list: "cr_stdout (cli_run decode fs ks [''list'']) = cmdList ks (default_manifest decode fs)"
  by (simp add: cli_run_def default_flags_def cli_done_def default_manifest_def)

lemma run_show:
  assumes "set ks = dom Profiles"
  shows "cr_error (cli_run decode fs ks [''show'', n]) =
    (if n \<in> set (known_names ks (default_manifest decode fs)) then None
     else Some (UnknownName n (sort (known_names ks (default_manifest decode fs)))))"
  using cmdShow_cases [OF assms, of n "default_manifest decode fs" False]
  by (auto simp: cli_run_def default_flags_def cli_done_def cli_fail_def Let_def notFound_def known_names_def
      default_manifest_def [symmetric] split: sum.split)

lemma run_cite:
  assumes "set ks = dom Profiles"
  shows "cr_error (cli_run decode fs ks [''cite'', n]) =
    (if n \<in> set (known_names ks (default_manifest decode fs)) then None
     else Some (UnknownName n (sort (known_names ks (default_manifest decode fs)))))"
  using cmdCite_cases [OF assms, of n "default_manifest decode fs" False]
  by (auto simp: cli_run_def default_flags_def cli_done_def cli_fail_def Let_def notFound_def known_names_def
      default_manifest_def [symmetric] split: sum.split)

section \<open>Four digits\<close>

lemma floorlog_real: "0 < n \<Longrightarrow> 10 ^ (floorlog 10 n - 1) \<le> n \<and> n < 10 ^ floorlog 10 n"
  using floorlog_bounds [of n 10] by simp

lemma floorlog_rat:
  assumes "0 < n" and "k = floorlog 10 n"
  shows "(10 :: rat) ^ (k - 1) \<le> of_nat n" "of_nat n + 1 \<le> (10 :: rat) ^ k" "0 < k"
proof -
  have "10 ^ (k - 1) \<le> n" "n + 1 \<le> 10 ^ k" using floorlog_real [OF assms(1)] assms(2) by auto
  then have "of_nat (10 ^ (k - 1)) \<le> (of_nat n :: rat)" "of_nat (n + 1) \<le> (of_nat (10 ^ k) :: rat)"
    by (simp_all only: of_nat_le_iff)
  then show "(10 :: rat) ^ (k - 1) \<le> of_nat n" "of_nat n + 1 \<le> (10 :: rat) ^ k" by simp_all
  show "0 < k" using assms by (simp add: floorlog_def)
qed

text \<open>The exponent is the place of the leading digit.\<close>

lemma decimal_exponent_bounds:
  assumes "0 < x"
  shows "10 powi decimal_exponent x \<le> x \<and> x < 10 powi (decimal_exponent x + 1)"
proof (cases "1 \<le> x")
  case True
  define n where "n = nat \<lfloor>x\<rfloor>"
  have n: "of_nat n \<le> x" "x < of_nat n + 1" "0 < n" using True by (simp_all add: n_def) linarith+
  define k where "k = floorlog 10 n"
  note k = floorlog_rat [OF n(3) k_def]
  have e: "decimal_exponent x = int (k - 1)" "int (k - 1) + 1 = int k"
    using True k(3) by (simp_all add: decimal_exponent_def n_def k_def)
  show ?thesis unfolding e power_int_of_nat using n k by linarith
next
  case False
  define n where "n = nat (\<lceil>1 / x\<rceil> - 1)"
  have "1 < 1 / x" using False assms by simp
  then have n: "of_nat n < 1 / x" "1 / x \<le> of_nat n + 1" "0 < n" by (simp_all add: n_def) linarith+
  define k where "k = floorlog 10 n"
  note k = floorlog_rat [OF n(3) k_def]
  have e: "decimal_exponent x = - int k" "- int k + 1 = - int (k - 1)"
    using False k(3) by (simp_all add: decimal_exponent_def n_def k_def)
  have "1 / x \<le> 10 ^ k" "10 ^ (k - 1) < 1 / x" using n k by linarith+
  then show ?thesis unfolding e power_int_minus power_int_of_nat using assms
    by (simp add: field_simps)
qed

text \<open>The four digits are a nearest four-digit decimal.\<close>

lemma four_digits_nearest:
  assumes "0 < x" "four_digits x = (m, e)"
  shows "1000 \<le> m \<and> m < 10000 \<and> \<bar>of_nat m * 10 powi (e - 3) - x\<bar> \<le> 10 powi (e - 3) / 2"
proof -
  define d where "d = decimal_exponent x"
  define y where "y = x * 10 powi (3 - d)"
  have u: "10 powi (d - 3) * 10 powi (3 - d) = (1 :: rat)" "(0 :: rat) < 10 powi (3 - d)" "(0 :: rat) < 10 powi (d - 3)"
    by (simp_all add: power_int_add [symmetric])
  have s: "10 powi d * 10 powi (3 - d) = (1000 :: rat)" "10 powi (d + 1) * 10 powi (3 - d) = (10000 :: rat)"
    by (simp_all add: power_int_add [symmetric])
  have "10 powi d \<le> x" "x < 10 powi (d + 1)" using decimal_exponent_bounds [OF assms(1)] by (simp_all add: d_def)
  then have y: "1000 \<le> y" "y < 10000"
    using mult_right_mono [of "10 powi d" x "10 powi (3 - d)"] mult_strict_right_mono [of x "10 powi (d + 1)" "10 powi (3 - d)"] u(2)
    unfolding s by (simp_all add: y_def)
  have r: "\<bar>of_int (rne y) - y\<bar> \<le> 1 / 2" by (rule rne_near)
  have "1000 \<le> rne y" "rne y \<le> 10000"
    using rne_mono [OF y(1)] rne_mono [of y 10000] y(2) rne_of_int [of 1000] rne_of_int [of 10000] by simp_all
  have x: "x = y * 10 powi (d - 3)" using u(1) by (simp add: y_def mult.assoc mult.commute)
  have near: "\<bar>of_int (rne y) * 10 powi (d - 3) - x\<bar> \<le> 10 powi (d - 3) / 2"
    using mult_right_mono [OF r, of "10 powi (d - 3)"] u(3)
    by (simp add: x abs_mult left_diff_distrib [symmetric])
  show ?thesis
  proof (cases "rne y = 10000")
    case True
    then have "m = 1000" "e = d + 1" using assms(2) by (simp_all add: four_digits_def Let_def d_def [symmetric] y_def [symmetric])
    moreover define c where "c = (10 :: rat) powi (d - 3)"
    moreover have "10 powi (d + 1 - 3) = 10 * c"
      using power_int_add [of "10 :: rat" 1 "d - 3"] by (simp add: c_def algebra_simps)
    moreover have "\<bar>10000 * c - x\<bar> \<le> c / 2" "0 < c" using near True u(3) by (simp_all add: c_def)
    then have "\<bar>1000 * (10 * c) - x\<bar> \<le> 10 * c / 2" by linarith
    ultimately show ?thesis by (simp only: of_nat_numeral) simp
  next
    case False
    then have "nat (rne y) \<noteq> 10000" using \<open>1000 \<le> rne y\<close> by simp
    then have "m = nat (rne y)" "e = d"
      using assms(2) by (simp_all add: four_digits_def Let_def d_def [symmetric] y_def [symmetric])
    then show ?thesis using near False \<open>1000 \<le> rne y\<close> \<open>rne y \<le> 10000\<close> by (simp add: nat_less_iff)
  qed
qed

end
