(* ===== verification/Report.thy ===== *)
theory Report
  imports Result GoText
begin

text \<open>
  \<^verbatim>\<open>report/report.go\<close>: the view a result matrix is rendered from, one row per scenario and
  one cell per library. It is rendered in theories \<open>ReportHtml\<close> and \<open>ReportText\<close>. The lemmas
  say what a grid holds and how its cells read.
\<close>

record check_view =
  cw_Name :: string
  cw_Verdict :: string
  cw_Class :: string
  cw_Detail :: string

record metric_view =
  mw_Key :: string
  mw_Value :: f64

record cell_view =
  cv_Present :: bool
  cv_Lib :: string
  cv_Scenario :: string
  cv_Verdict :: string
  cv_Class :: string
  cv_Title :: string
  cv_Checks :: "check_view list"
  cv_Metrics :: "metric_view list"
  cv_Err :: string

record row_view =
  rw_Scenario :: string
  rw_Cells :: "cell_view list"

record legend_item =
  lg_Label :: string
  lg_Class :: string

record matrix_view =
  vw_Title :: string
  vw_Generated :: string
  vw_Libs :: "string list"
  vw_Rows :: "row_view list"
  vw_Legend :: "legend_item list"

fun verdictClass :: "verdict \<Rightarrow> string" where
  "verdictClass Pass = ''v-pass''"
| "verdictClass Warn = ''v-warn''"
| "verdictClass Fail = ''v-fail''"
| "verdictClass Unsupported = ''v-unsupported''"
| "verdictClass Error = ''v-error''"

definition check_line :: "check_view \<Rightarrow> string" where
  "check_line c = CHR 0x0A # ''  '' @ cw_Verdict c @ '' '' @ cw_Name c @
     (if cw_Detail c \<noteq> [] then '' '' @ dash @ '' '' @ cw_Detail c else [])"

definition report_buildCell :: "matrix \<Rightarrow> string \<Rightarrow> string \<Rightarrow> cell_view" where
  "report_buildCell m lib scn =
     (case matrix_Get m lib scn of
        None \<Rightarrow> \<lparr>cv_Present = False, cv_Lib = lib, cv_Scenario = scn, cv_Verdict = dash, cv_Class = ''v-none'',
          cv_Title = lib @ '' / '' @ scn @ '': no run'', cv_Checks = [], cv_Metrics = [], cv_Err = []\<rparr>
      | Some res \<Rightarrow>
          let rollup = result_Verdict res;
              checks = map (\<lambda>c. \<lparr>cw_Name = ck_Name c, cw_Verdict = verdict_String (ck_Verdict c),
                cw_Class = verdictClass (ck_Verdict c), cw_Detail = ck_Detail c\<rparr>) (rs_Checks res);
              keys = sorted_list_of_set (dom (rs_Metrics res));
              title = lib @ '' / '' @ scn @ '': '' @ verdict_String rollup @ concat (map check_line checks) @
                (if rs_Err res \<noteq> [] then CHR 0x0A # ''  error: '' @ rs_Err res else [])
          in \<lparr>cv_Present = True, cv_Lib = lib, cv_Scenario = scn, cv_Verdict = verdict_String rollup,
              cv_Class = verdictClass rollup, cv_Title = title, cv_Checks = checks,
              cv_Metrics = map (\<lambda>k. \<lparr>mw_Key = k, mw_Value = the (rs_Metrics res k)\<rparr>) keys, cv_Err = rs_Err res\<rparr>)"

definition legend :: "legend_item list" where
  "legend = map (\<lambda>v. \<lparr>lg_Label = verdict_String v, lg_Class = verdictClass v\<rparr>) [Pass, Warn, Fail, Unsupported, Error]"

definition buildView :: "matrix \<Rightarrow> matrix_view" where
  "buildView m = \<lparr>vw_Title = mx_Title m, vw_Generated = mx_Generated m, vw_Libs = mx_Libs m,
     vw_Rows = map (\<lambda>scn. \<lparr>rw_Scenario = scn,
       rw_Cells = map (\<lambda>lib. report_buildCell m lib scn) (mx_Libs m)\<rparr>) (mx_Scenarios m),
     vw_Legend = legend\<rparr>"

section \<open>What the grid shows\<close>

lemma verdict_String_inj: "verdict_String a = verdict_String b \<longleftrightarrow> a = b"
  by (cases a; cases b) simp_all

lemma verdictClass_inj: "verdictClass a = verdictClass b \<longleftrightarrow> a = b"
  by (cases a; cases b) simp_all

definition grid :: "matrix_view \<Rightarrow> cell_view list" where
  "grid v = concat (map rw_Cells (vw_Rows v))"

text \<open>Of the runs with the same library and scenario, the grid shows the first.\<close>

lemma matrix_Get_Some:
  "matrix_Get m lib scn = Some r \<Longrightarrow> r \<in> set (mx_Results m) \<and> rs_Lib r = lib \<and> rs_Scenario r = scn"
  by (auto simp: matrix_Get_def find_Some_iff)

lemma matrix_Get_None:
  "matrix_Get m lib scn = None \<longleftrightarrow> (\<forall>r \<in> set (mx_Results m). \<not> (rs_Lib r = lib \<and> rs_Scenario r = scn))"
  by (auto simp: matrix_Get_def find_None_iff)

lemma matrix_Get_unique:
  "distinct (map (\<lambda>r. (rs_Lib r, rs_Scenario r)) (mx_Results m)) \<Longrightarrow> r \<in> set (mx_Results m) \<Longrightarrow>
     matrix_Get m (rs_Lib r) (rs_Scenario r) = Some r"
proof -
  have "distinct (map (\<lambda>r. (rs_Lib r, rs_Scenario r)) rs) \<Longrightarrow> r \<in> set rs \<Longrightarrow>
      find (\<lambda>q. rs_Lib q = rs_Lib r \<and> rs_Scenario q = rs_Scenario r) rs = Some r" for rs
    by (induction rs) auto
  then show "distinct (map (\<lambda>r. (rs_Lib r, rs_Scenario r)) (mx_Results m)) \<Longrightarrow> r \<in> set (mx_Results m) \<Longrightarrow>
      matrix_Get m (rs_Lib r) (rs_Scenario r) = Some r"
    by (simp add: matrix_Get_def)
qed

lemma buildCell_class:
  "cv_Class (report_buildCell m lib scn) = (case matrix_Get m lib scn of None \<Rightarrow> ''v-none'' | Some r \<Rightarrow> verdictClass (result_Verdict r))"
  by (simp add: report_buildCell_def Let_def split: option.split)

text \<open>The report of a set of runs with distinct places shows every run once, by its roll-up.\<close>

lemma grid_NewMatrix:
  "grid (buildView (NewMatrix t g rs)) =
     concat (map (\<lambda>scn. map (\<lambda>lib. report_buildCell (NewMatrix t g rs) lib scn) (sortedKeys (map rs_Lib rs)))
       (sortedKeys (map rs_Scenario rs)))"
  by (simp add: grid_def buildView_def NewMatrix_def comp_def)

lemma present_iff: "cv_Present (report_buildCell m lib scn) \<longleftrightarrow> matrix_Get m lib scn \<noteq> None"
  by (simp add: report_buildCell_def Let_def split: option.split)

lemma cell_place: "cv_Lib (report_buildCell m lib scn) = lib \<and> cv_Scenario (report_buildCell m lib scn) = scn"
  by (simp add: report_buildCell_def Let_def split: option.split)

lemma run_shown:
  assumes "distinct (map (\<lambda>r. (rs_Lib r, rs_Scenario r)) rs)" "r \<in> set rs"
  shows "\<exists>c \<in> set (grid (buildView (NewMatrix t g rs))). cv_Lib c = rs_Lib r \<and> cv_Scenario c = rs_Scenario r \<and>
    cv_Present c \<and> cv_Class c = verdictClass (result_Verdict r)"
proof -
  let ?m = "NewMatrix t g rs"
  have get: "matrix_Get ?m (rs_Lib r) (rs_Scenario r) = Some r"
    using assms by (intro matrix_Get_unique) (simp_all add: NewMatrix_def)
  have "report_buildCell ?m (rs_Lib r) (rs_Scenario r) \<in> set (grid (buildView ?m))"
    using assms(2) by (auto simp: grid_NewMatrix sortedKeys_props(3))
  then show ?thesis by (rule bexI [rotated]) (simp add: get cell_place present_iff buildCell_class)
qed

lemma grid_places:
  "map (\<lambda>c. (cv_Scenario c, cv_Lib c)) (grid (buildView m)) = List.product (mx_Scenarios m) (mx_Libs m)"
  by (simp add: grid_def buildView_def product_concat_map map_concat comp_def cell_place)

end
