(* ===== verification/Stat.thy ===== *)
theory Stat
  imports GoFloat GoInt "HOL-Library.Product_Lexorder"
begin

text \<open>
  \<^verbatim>\<open>stat/stat.go\<close>: the sample mean with a bootstrap confidence interval. The indices
  \<^verbatim>\<open>math/rand\<close> draws under a seed are a parameter (its generator is seeded from a table of
  the standard library): \<open>intn seed n k\<close> is the result of the \<open>k\<close>-th call \<^verbatim>\<open>Intn(n)\<close>. The lemmas
  show that the interval is ordered and that both ends are means of resamples.
\<close>

section \<open>The interval\<close>

record ci =
  ci_Mean :: f64
  ci_Lo :: f64
  ci_Hi :: f64
  ci_N :: int64

type_synonym rand_draws = "int64 \<Rightarrow> int64 \<Rightarrow> nat \<Rightarrow> int64"

definition stat_mean :: "f64 list \<Rightarrow> f64" where
  "stat_mean xs = fdiv (foldl fadd (Fin 0) xs) (fof_int (int (length xs)))"

definition stat_percentile :: "platform \<Rightarrow> f64 list \<Rightarrow> f64 \<Rightarrow> f64" where
  "stat_percentile pf srt q =
     (if srt = [] then Fin 0
      else let idx = to_int64 pf (math_round (fmul q (fof_int (int (length srt) - 1))));
               idx = (if idx < 0 then 0 else idx);
               idx = (if idx \<ge> int (length srt) then int (length srt) - 1 else idx)
        in srt ! nat idx)"

text \<open>\<^verbatim>\<open>sort.Float64s\<close>: NaNs first, then by value.\<close>

fun f64_rank :: "f64 \<Rightarrow> nat \<times> rat" where
  "f64_rank NaN = (0, 0)"
| "f64_rank NInf = (1, 0)"
| "f64_rank (Fin a) = (2, a)"
| "f64_rank PInf = (3, 0)"

definition Float64s :: "f64 list \<Rightarrow> f64 list" where
  "Float64s xs = sort_key f64_rank xs"

definition resample_mean :: "rand_draws \<Rightarrow> int64 \<Rightarrow> f64 list \<Rightarrow> nat \<Rightarrow> f64" where
  "resample_mean intn seed samples i =
     (let n = length samples in
      fdiv (foldl fadd (Fin 0) (map (\<lambda>j. samples ! nat (intn seed (int n) (i * n + j))) [0..<n])) (fof_int (int n)))"

definition BootstrapMeanCI :: "platform \<Rightarrow> rand_draws \<Rightarrow> f64 list \<Rightarrow> f64 \<Rightarrow> int64 \<Rightarrow> int64 \<Rightarrow> ci" where
  "BootstrapMeanCI pf intn samples alpha iters seed =
     (let n = length samples in
      if n = 0 then \<lparr>ci_Mean = Fin 0, ci_Lo = Fin 0, ci_Hi = Fin 0, ci_N = 0\<rparr>
      else let m = stat_mean samples in
        if n < 2 \<or> iters < 2 then \<lparr>ci_Mean = m, ci_Lo = m, ci_Hi = m, ci_N = int n\<rparr>
        else let means = Float64s (map (resample_mean intn seed samples) [0..<nat iters])
          in \<lparr>ci_Mean = m, ci_Lo = stat_percentile pf means alpha,
              ci_Hi = stat_percentile pf means (fsub (Fin 1) alpha), ci_N = int n\<rparr>)"

definition stat_Overlap :: "ci \<Rightarrow> ci \<Rightarrow> bool" where
  "stat_Overlap a b \<longleftrightarrow> fle (ci_Lo a) (ci_Hi b) \<and> fle (ci_Lo b) (ci_Hi a)"

section \<open>Percentiles\<close>

lemma fle_rank: "f64_rank a \<le> f64_rank b \<Longrightarrow> a \<noteq> NaN \<Longrightarrow> fle a b"
  by (cases a; cases b) (auto simp: fle_def)

lemma Float64s_props [simp]: "set (Float64s xs) = set xs" "length (Float64s xs) = length xs"
  "sorted (map f64_rank (Float64s xs))"
  by (simp_all add: Float64s_def)

text \<open>The index of a fraction of a short sample: the exact product, rounded twice.\<close>

lemma percentile_index:
  assumes "length srt = Suc n" "n < 2 ^ 52" "0 \<le> q" "q \<le> 1"
  shows "stat_percentile pf srt (Fin q) = srt ! nat (round_away (rval (q * of_nat n))) \<and>
    0 \<le> round_away (rval (q * of_nat n)) \<and> round_away (rval (q * of_nat n)) \<le> int n"
proof -
  let ?x = "q * of_nat n :: rat"
  have n: "int n < 2 ^ 52" using assms(2) by simp
  then have "\<bar>int n\<bar> < 2 ^ 53" by simp
  then have rep: "representable (of_int (int n))" and "fof_int (int n) = Fin (of_int (int n))"
    by (rule representable_int, rule fof_int_exact)
  then have f: "fof_int (int (length srt) - 1) = Fin (of_nat n)" using assms(1) by simp
  have x: "0 \<le> ?x" "?x \<le> of_int (int n)" using assms(3,4) by (simp_all add: mult_left_le_one_le)
  obtain y where y: "fround ?x = Fin y" "0 \<le> y" "y \<le> of_int (int n)"
    using fround_between [OF representable_0 rep x] by auto
  have v: "y = rval ?x" using y(1) by (simp add: fround_rval split: if_splits)
  have "in64 (int n)" using n by (simp add: in64_def)
  then have i: "to_int64 pf (math_round (Fin y)) = round_away y" "\<bar>round_away y\<bar> \<le> int n"
    using to_int64_round(1) [where x = y and n = "int n" and pf = pf] to_int64_round(2) [where x = y and n = "int n"] y(2,3) by simp_all
  have "0 \<le> round_away y" using y(2) by (rule round_away_nonneg)
  moreover have "srt \<noteq> []" using assms(1) by auto
  ultimately show ?thesis using assms(1) i f y(1) v by (auto simp: stat_percentile_def Let_def)
qed

lemma percentile_mono:
  assumes "length srt = Suc n" "n < 2 ^ 52" "0 \<le> q" "q \<le> q'" "q' \<le> 1" "sorted (map f64_rank srt)"
  shows "f64_rank (stat_percentile pf srt (Fin q)) \<le> f64_rank (stat_percentile pf srt (Fin q'))"
proof -
  let ?i = "\<lambda>q. round_away (rval (q * of_nat n))"
  have q: "q \<le> 1" "0 \<le> q'" using assms by linarith+
  note i = percentile_index [OF assms(1-3) q(1), of pf] percentile_index [OF assms(1,2) q(2) assms(5), of pf]
  have "?i q \<le> ?i q'" using assms(4) by (intro round_away_mono rval_mono mult_right_mono) simp_all
  then have "nat (?i q) \<le> nat (?i q')" by (rule nat_mono)
  moreover have l: "nat (?i q') < length srt" using i(2) assms(1) by linarith
  ultimately have "f64_rank (srt ! nat (?i q)) \<le> f64_rank (srt ! nat (?i q'))"
    using sorted_nth_mono [OF assms(6), of "nat (?i q)" "nat (?i q')"] by simp
  then show ?thesis using i by simp
qed

lemma percentile_mem:
  assumes "srt \<noteq> []"
  shows "stat_percentile pf srt q \<in> set srt"
proof -
  have "0 < length srt" using assms by simp
  then have "nat (int (length srt) - 1) < length srt" by linarith
  then show ?thesis using assms by (auto simp: stat_percentile_def Let_def intro!: nth_mem)
qed

lemma fsub_half:
  assumes "0 \<le> a" "a \<le> 1 / 2"
  shows "\<exists>b. fsub (Fin 1) (Fin a) = Fin b \<and> 1 / 2 \<le> b \<and> b \<le> 1"
proof -
  have "representable (1 / 2)" unfolding representable_def
    by (intro exI [of _ 1] exI [of _ "- 1"]) (simp add: power_int_minus)
  from fround_between [OF this representable_1, of "1 - a"] show ?thesis using assms by (auto simp: fsub_def)
qed

lemma bootstrap_interval:
  assumes "2 \<le> length samples" "2 \<le> iters" "iters < 2 ^ 52" "0 \<le> a" "a \<le> 1 / 2"
    and c: "c = BootstrapMeanCI pf intn samples (Fin a) iters seed"
  shows "ci_Lo c \<in> resample_mean intn seed samples ` {..<nat iters} \<and>
    ci_Hi c \<in> resample_mean intn seed samples ` {..<nat iters} \<and> f64_rank (ci_Lo c) \<le> f64_rank (ci_Hi c)"
proof -
  let ?ms = "Float64s (map (resample_mean intn seed samples) [0..<nat iters])"
  obtain b where b: "fsub (Fin 1) (Fin a) = Fin b" "1 / 2 \<le> b" "b \<le> 1" using fsub_half assms(4,5) by blast
  have "length ?ms \<noteq> 0" using assms(2) by simp
  then have ne: "?ms \<noteq> []" by blast
  have c: "ci_Lo c = stat_percentile pf ?ms (Fin a)" "ci_Hi c = stat_percentile pf ?ms (Fin b)"
    using assms(1,2) b(1) by (auto simp: c BootstrapMeanCI_def Let_def)
  have m: "set ?ms = resample_mean intn seed samples ` {..<nat iters}" by (simp add: atLeast0LessThan)
  obtain n where len: "length ?ms = Suc n" using assms(2) by (cases "nat iters") auto
  then have n: "n < 2 ^ 52" using assms(2,3) by simp
  have "f64_rank (stat_percentile pf ?ms (Fin a)) \<le> f64_rank (stat_percentile pf ?ms (Fin b))"
    using assms(4,5) b by (intro percentile_mono [OF len n]) simp_all
  then show ?thesis using percentile_mem [OF ne] unfolding c m [symmetric] by blast
qed

end
