(* ===== verification/ProfileProperties.thy ===== *)
theory ProfileProperties
  imports Cli Report Stat
begin

text \<open>
  The properties of the profile library (\<^verbatim>\<open>internal/profile\<close>), of the trace manifest and the
  command that reads it (\<^verbatim>\<open>cmd/impair-profiles\<close>), of the report's grid (\<^verbatim>\<open>report/report.go\<close>) and of the bootstrap interval (\<^verbatim>\<open>stat/stat.go\<close>).
\<close>

section \<open>Profiles\<close>

text \<open>Every profile, built in or not and whatever its numbers, compiles under every seed to
  a scenario that builds.\<close>

theorem compiled_profiles_build:
  "\<exists>eng. Build pf (profile_Compile p seed) = Inr eng"
  using compiled_well_formed [of p seed] well_formed_builds [of "profile_Compile p seed" pf "[]"] by (simp add: Build_def)

text \<open>What the importer returns has valid provenance, is the built-in profile of its own name,
  and is returned for that name too.\<close>

theorem import_g1050_closed:
  assumes "ImportG1050 level = Inr p"
  shows "ImportG1050 (po_Name p) = Inr p \<and> profile_Get (po_Name p) = Some p \<and> profile_ValidateProvenance p = None"
  using Import_name [OF assms] by (simp add: profile_Get_def)

lemma import_small_c: "ImportG1050 ''g1050-c'' = Inr (level_profile (g1050Ladder ! 2))"
proof -
  have "normalizeLevel ''g1050-c'' = ''C''" by code_simp
  moreover have "gl_letter (g1050Ladder ! 2) = ''C''"
    using arg_cong [OF ladder_letters, of "\<lambda>ls. ls ! 2"] by (simp add: g1050Ladder_def)
  moreover have "g1050Ladder ! 2 \<in> set g1050Ladder" by (rule nth_mem) (simp add: g1050Ladder_def)
  ultimately show ?thesis using ladder_find [of "g1050Ladder ! 2"] by (simp add: ImportG1050_def)
qed

theorem import_g1050_closed_witness:
  "\<exists>p. ImportG1050 ''g1050-c'' = Inr p \<and> profile_Get (po_Name p) = Some p"
  using import_g1050_closed [OF import_small_c] import_small_c by blast

text \<open>The importer accepts exactly the five letters, in either case, with or without the
  prefix.\<close>

theorem import_g1050_accepts:
  "(\<exists>p. ImportG1050 level = Inr p) \<longleftrightarrow>
     upperASCII level \<in> {''A'', ''B'', ''C'', ''D'', ''E'', ''G1050-A'', ''G1050-B'', ''G1050-C'', ''G1050-D'', ''G1050-E''}"
proof -
  let ?u = "upperASCII level"
  have split: "?u = take 6 ?u @ drop 6 ?u" by simp
  show ?thesis
  proof (cases "take 6 ?u = ''G1050-''")
    case True
    then obtain r where "?u = ''G1050-'' @ r" using split by metis
    then show ?thesis by (simp add: ImportG1050_ok normalizeLevel_upper)
  next
    case False
    then show ?thesis unfolding ImportG1050_ok normalizeLevel_upper by auto
  qed
qed

text \<open>The names of the built-in profiles come out in order of severity, in whatever order
  the map is ranged over.\<close>

theorem profile_names_by_grade:
  assumes "distinct ks" "set ks = dom Profiles"
  shows "Names ks = [''g1050-A'', ''g1050-B'', ''g1050-C'', ''g1050-D'', ''g1050-E'']"
  using assms by (rule Names_ladder)

section \<open>Traces\<close>

text \<open>Importing what a trace profile emits, with its metadata, gives back the profile with
  its schedule sorted and its defaults filled in.\<close>

theorem mahimahi_roundtrip:
  assumes "list_all (\<lambda>t. 0 \<le> t \<and> in64 t) (trace_Schedule t)" "in64 (dt_MTU (tp_Trace t))"
    "in64 (dt_MaxBacklog (tp_Trace t))" "trace_ValidateProvenance t = None"
  shows "ImportMahimahi \<lparr>rd_data = trace_Emit t, rd_fails = False\<rparr> (meta_of t) =
    Inr (t\<lparr>tp_Trace := normal_config (tp_Trace t)\<rparr>)"
  using assms by (rule Import_Emit)

definition small_trace_profile :: trace_profile where
  "small_trace_profile = \<lparr>tp_Name = ''t'', tp_Description = [], tp_Cite = ''c'', tp_Source = SourceMeasured, tp_License = ''l'',
     tp_Notes = [], tp_Trace = \<lparr>dt_Schedule = [5, 0], dt_MTU = 0, dt_MaxBacklog = 9, dt_Loop = True\<rparr>\<rparr>"

theorem mahimahi_roundtrip_witness:
  "\<exists>t. ImportMahimahi \<lparr>rd_data = trace_Emit small_trace_profile, rd_fails = False\<rparr> (meta_of small_trace_profile) = Inr t \<and>
    trace_Schedule t = [0, 5]"
  using mahimahi_roundtrip [of small_trace_profile]
  by (simp add: small_trace_profile_def trace_Schedule_def normal_config_def in64_def trace_ValidateProvenance_def
      ValidSource_def validSources_def SourceMeasured_def)

text \<open>C38. A manifest verifies exactly when its entries are complete and have different names and
  every entry's file can be read and has the digest the entry pins.\<close>

theorem manifest_verifies_iff_pinned:
  "manifest_Verify fs m = None \<longleftrightarrow> list_all entry_ok (mf_Entries m) \<and> distinct (map me_Name (mf_Entries m)) \<and>
     (\<forall>e\<in>set (mf_Entries m). pinned fs m e)"
  by (rule Verify_None)

definition pinned_entry :: manifest_entry where
  "pinned_entry = \<lparr>me_Name = ''t'', me_File = ''t.trace'', me_Format = ''mahimahi'', me_SHA256 = HashBytes (unlines [''3'']),
     me_Description = [], me_Cite = ''c'', me_Source = SourceMeasured, me_License = ''l'', me_Notes = []\<rparr>"

definition pinned_manifest :: manifest where
  "pinned_manifest = \<lparr>mf_Version = 1, mf_Entries = [pinned_entry], mf_dir = []\<rparr>"

definition one_file :: "string \<Rightarrow> file_system" where
  "one_file s = [''t.trace'' \<mapsto> \<lparr>rd_data = s, rd_fails = False\<rparr>]"

lemma pinned_entry_pinned: "pinned (one_file (unlines [''3''])) pinned_manifest pinned_entry"
  by (simp add: pinned_def one_file_def manifest_resolve_def pinned_manifest_def pinned_entry_def)

theorem manifest_verifies_iff_pinned_witness:
  "manifest_Verify (one_file (unlines [''3''])) pinned_manifest = None"
proof -
  have "length (HashBytes s) = 64" "list_all is_hex (HashBytes s)" for s
    using EncodeToString_hex [of "Sum256 s"] by (simp_all add: HashBytes_def Sum256_length)
  then have "entry_ok pinned_entry"
    by (simp add: entry_ok_def pinned_entry_def ValidSource_def validSources_def SourceMeasured_def)
  moreover have "pinned (one_file (unlines [''3''])) pinned_manifest pinned_entry" by (rule pinned_entry_pinned)
  moreover have "mf_Entries pinned_manifest = [pinned_entry]" by (simp add: pinned_manifest_def)
  ultimately show ?thesis using manifest_verifies_iff_pinned [of "one_file (unlines [''3''])" pinned_manifest] by simp
qed

text \<open>The digest is checked on a first reading of the file; the trace that is loaded is the
  content of a second one, whatever that content is.\<close>

theorem trace_loaded_from_second_reading:
  assumes "manifest_Get m n = Some e" "pinned fs m e" "fs' (manifest_resolve m e) = Some f"
  shows "manifest_TraceProfile fs fs' m n = map_sum ImportFailed id (ImportMahimahi f (entry_meta e))"
  using TraceProfile_pinned [OF assms(1,2)] assms(3) by simp

lemma swapped_trace:
  "trace_Parse (unlines [''8'']) = Inr \<lparr>dt_Schedule = [8], dt_MTU = 1500, dt_MaxBacklog = 0, dt_Loop = False\<rparr>"
proof -
  have "scan_lines (unlines [''8'']) = ([''8''], False)"
    by (rule scan_lines_unlines) (simp add: plain_line_def newline_def max_token_def)
  moreover have "TrimSpace ''8'' = ''8''" by (simp add: TrimSpace_word graphic_def)
  ultimately show ?thesis
    by (simp add: trace_Parse_def HasPrefix_def ParseInt_def ParseUint_def is_digit_def digit_value_def
        zero_config_def defaultMTU_def)
qed

theorem trace_loaded_from_second_reading_witness:
  "\<exists>tp. manifest_TraceProfile (one_file (unlines [''3''])) (one_file (unlines [''8''])) pinned_manifest ''t'' = Inr tp \<and>
    trace_Schedule tp = [8]"
proof -
  have g: "manifest_Get pinned_manifest ''t'' = Some pinned_entry"
    by (simp add: manifest_Get_def pinned_manifest_def pinned_entry_def)
  note p = pinned_entry_pinned
  have f: "one_file (unlines [''8'']) (manifest_resolve pinned_manifest pinned_entry) =
      Some \<lparr>rd_data = unlines [''8''], rd_fails = False\<rparr>"
    by (simp add: one_file_def manifest_resolve_def pinned_manifest_def pinned_entry_def)
  show ?thesis
    using trace_loaded_from_second_reading [OF g p, of "one_file (unlines [''8''])", OF f] swapped_trace
    by (simp add: ImportMahimahi_def Let_def trace_ValidateProvenance_def trace_profile_of_def entry_meta_def pinned_entry_def
        ValidSource_def validSources_def SourceMeasured_def trace_Schedule_def)
qed

section \<open>The command\<close>

text \<open>The subcommands agree on the names there are: those in the first column of the listing are
  the ones that can be shown and cited, and the error for any other lists exactly them, sorted.\<close>

theorem cli_commands_agree:
  assumes "set ks = dom Profiles" and "\<forall>n \<in> set (known_names ks (default_manifest decode fs)). tab \<notin> set n"
  shows "\<exists>header rows rest names. cr_stdout (cli_run decode fs ks [''list'']) = Aligned 2 (header # rows) # rest \<and>
      names = map (takeWhile (\<lambda>c. c \<noteq> tab)) rows \<and>
      (\<forall>n. cr_error (cli_run decode fs ks [''show'', n]) =
          (if n \<in> set names then None else Some (UnknownName n (sort names))) \<and>
        cr_error (cli_run decode fs ks [''cite'', n]) = cr_error (cli_run decode fs ks [''show'', n]))"
proof -
  let ?man = "default_manifest decode fs"
  obtain rows where r: "hd (cmdList ks ?man) = Aligned 2 ((''NAME'' @ [tab] @ ''KIND'' @ [tab] @ ''SOURCE'' @ [tab] @ ''DESCRIPTION'') # rows)"
    "map (takeWhile (\<lambda>c. c \<noteq> tab)) rows = known_names ks ?man"
    using listed_names [OF assms] by blast
  obtain rest where "cmdList ks ?man = hd (cmdList ks ?man) # rest" by (simp add: cmdList_def)
  then have "cr_stdout (cli_run decode fs ks [''list'']) =
      Aligned 2 ((''NAME'' @ [tab] @ ''KIND'' @ [tab] @ ''SOURCE'' @ [tab] @ ''DESCRIPTION'') # rows) # rest"
    using r(1) run_list by metis
  then show ?thesis using r(2) run_show [OF assms(1)] run_cite [OF assms(1)] by metis
qed

text \<open>A built-in profile is shown the same whatever the manifest is.\<close>

theorem cli_built_in_shadows_manifest:
  assumes "profile_Get n = Some p"
  shows "cli_run decode fs ks [''show'', n] = \<lparr>cr_stdout = showProfile p, cr_usage = False, cr_error = None\<rparr>"
  using assms by (simp add: cli_run_def cli_done_def cmdShow_def default_flags_def Let_def)

section \<open>The report\<close>

text \<open>The grid built from a set of runs, no two of which share library and scenario, shows
  every run at its place, coloured by its roll-up.\<close>

theorem report_shows_every_run:
  assumes "distinct (map (\<lambda>r. (rs_Lib r, rs_Scenario r)) rs)" "r \<in> set rs"
  shows "\<exists>c \<in> set (grid (buildView (NewMatrix t g rs))). cv_Lib c = rs_Lib r \<and> cv_Scenario c = rs_Scenario r \<and>
    cv_Present c \<and> cv_Class c = verdictClass (result_Verdict r)"
  using assms by (rule run_shown)

theorem report_shows_every_run_witness:
  "\<exists>c \<in> set (grid (buildView (NewMatrix [] [] [\<lparr>rs_Lib = ''a'', rs_Scenario = ''s'', rs_Checks = [],
      rs_Metrics = Map.empty, rs_Err = ''boom''\<rparr>]))). cv_Class c = ''v-error''"
  using report_shows_every_run [of "[\<lparr>rs_Lib = ''a'', rs_Scenario = ''s'', rs_Checks = [], rs_Metrics = Map.empty,
      rs_Err = ''boom''\<rparr>]" "\<lparr>rs_Lib = ''a'', rs_Scenario = ''s'', rs_Checks = [], rs_Metrics = Map.empty,
      rs_Err = ''boom''\<rparr>" "[]" "[]"]
  by (auto simp: result_Verdict_def)

section \<open>Bootstrap intervals\<close>

text \<open>The two ends of a bootstrap interval are means of resamples and in order, however the
  samples are distributed.\<close>

theorem bootstrap_interval_ordered:
  assumes "2 \<le> length samples" "2 \<le> iters" "iters < 2 ^ 52" "0 \<le> a" "a \<le> 1 / 2"
    and "c = BootstrapMeanCI pf intn samples (Fin a) iters seed"
  shows "ci_Lo c \<in> resample_mean intn seed samples ` {..<nat iters} \<and>
    ci_Hi c \<in> resample_mean intn seed samples ` {..<nat iters} \<and> f64_rank (ci_Lo c) \<le> f64_rank (ci_Hi c)"
  using assms by (rule bootstrap_interval)

theorem bootstrap_interval_ordered_witness:
  "\<exists>c. c = BootstrapMeanCI plain_platform (\<lambda>seed n k. int k mod n) [Fin 1, Fin 3] (Fin 0) 4 9 \<and>
    f64_rank (ci_Lo c) \<le> f64_rank (ci_Hi c)"
  using bootstrap_interval_ordered [of "[Fin 1, Fin 3]" 4 0] by simp

end
