(* ===== verification/FloatText.thy ===== *)
theory FloatText
  imports GoFloat GoText
begin

text \<open>
  How \<^verbatim>\<open>strconv\<close> writes a \<^verbatim>\<open>float64\<close> with the shortest digits that read back to it, in the forms
  \<^verbatim>\<open>%e\<close>, \<^verbatim>\<open>%f\<close> and \<^verbatim>\<open>%g\<close>, and reads a numeral. The main lemma is that seventeen digits are
  always enough, so that what is written for a double reads back as that double.
\<close>

section \<open>Digits\<close>

text \<open>The number of digits before the decimal point of a positive number.\<close>

definition dec_point :: "rat \<Rightarrow> int" where
  "dec_point r = (case quotient_of r of (p, q) \<Rightarrow>
     let k = int (floorlog 10 (nat p)) - int (floorlog 10 (nat q))
     in if 10 powi k \<le> r then k + 1 else k)"

text \<open>Of the two numerals of \<open>n\<close> digits around \<open>x\<close>, the one that reads back as \<open>x\<close>; the nearer if
  both do.\<close>

definition unit_at :: "rat \<Rightarrow> nat \<Rightarrow> rat" where
  "unit_at x n = 10 powi (dec_point x - int n)"

definition pick_digits :: "rat \<Rightarrow> nat \<Rightarrow> int option" where
  "pick_digits x n =
     (let u = unit_at x n; d = \<lfloor>x / u\<rfloor>; down = fround (of_int d * u) = Fin x; up = fround (of_int (d + 1) * u) = Fin x in
      if down \<and> up then Some (rne (x / u)) else if down then Some d else if up then Some (d + 1) else None)"

fun strip_zeros :: "nat \<Rightarrow> int \<Rightarrow> nat \<times> int" where
  "strip_zeros m e = (if m \<noteq> 0 \<and> m mod 10 = 0 then strip_zeros (m div 10) (e + 1) else (m, e))"

declare strip_zeros.simps [simp del]

definition shortest :: "rat \<Rightarrow> nat \<times> int" where
  "shortest x =
     (case find (\<lambda>n. pick_digits x n \<noteq> None) [1..<18] of
        Some n \<Rightarrow> strip_zeros (nat (the (pick_digits x n))) (dec_point x - int n)
      | None \<Rightarrow> strip_zeros (nat (rne (x / unit_at x 17))) (dec_point x - 17))"

section \<open>Forms\<close>

definition sign_of :: "rat \<Rightarrow> string" where
  "sign_of x = (if x < 0 then ''-'' else [])"

text \<open>Digits and exponent of the last of them; zero is the numeral 0.\<close>

definition decimal :: "rat \<Rightarrow> nat \<times> int" where
  "decimal x = (if x = 0 then (0, 0) else shortest \<bar>x\<bar>)"

definition two_digits :: "nat \<Rightarrow> string" where
  "two_digits n = (if n < 10 then ''0'' @ digits n else digits n)"

text \<open>One digit before the point; \<open>ed\<close> writes the exponent, which has at least two digits in \<^verbatim>\<open>%e\<close>.\<close>

definition form_exp :: "(nat \<Rightarrow> string) \<Rightarrow> nat \<times> int \<Rightarrow> string" where
  "form_exp ed d = (case d of (m, e) \<Rightarrow>
     let ds = digits m; ex = e + int (length ds) - 1 in
     [hd ds] @ (if tl ds = [] then [] else ''.'' @ tl ds) @ ''e'' @ (if ex < 0 then ''-'' else ''+'') @ ed (nat \<bar>ex\<bar>))"

abbreviation form_e :: "nat \<times> int \<Rightarrow> string" where
  "form_e \<equiv> form_exp two_digits"

definition form_f :: "nat \<times> int \<Rightarrow> string" where
  "form_f d = (case d of (m, e) \<Rightarrow>
     let ds = digits m; dp = e + int (length ds) in
     if 0 \<le> e then ds @ replicate (nat e) CHR ''0''
     else if dp \<le> 0 then ''0.'' @ replicate (nat (- dp)) CHR ''0'' @ ds
     else take (nat dp) ds @ ''.'' @ drop (nat dp) ds)"

text \<open>\<^verbatim>\<open>%g\<close> with the shortest precision.\<close>

definition format_g :: "rat \<Rightarrow> string" where
  "format_g x =
     (let d = decimal x; ex = snd d + int (length (digits (fst d))) - 1 in
      sign_of x @ (if ex < - 4 \<or> 6 \<le> ex then form_e d else form_f d))"

section \<open>Reading a numeral\<close>

definition read_sign :: "string \<Rightarrow> int \<times> string" where
  "read_sign s = (case s of [] \<Rightarrow> (1, s) | c # r \<Rightarrow> if c = CHR ''-'' then (- 1, r) else if c = CHR ''+'' then (1, r) else (1, s))"

definition read_frac :: "string \<Rightarrow> string \<times> string" where
  "read_frac s = (case s of [] \<Rightarrow> ([], s) | c # r \<Rightarrow> if c = CHR ''.'' then (takeWhile is_digit r, dropWhile is_digit r) else ([], s))"

definition read_exp :: "string \<Rightarrow> int" where
  "read_exp s = (case s of [] \<Rightarrow> 0 | c # r \<Rightarrow> if c = CHR ''e'' \<or> c = CHR ''E'' then (case read_sign r of (g, t) \<Rightarrow> g * int (number t)) else 0)"

definition num_value :: "string \<Rightarrow> rat" where
  "num_value s = (case read_sign s of (g, t) \<Rightarrow>
     case read_frac (dropWhile is_digit t) of (fr, r) \<Rightarrow>
       of_int g * of_nat (number (takeWhile is_digit t @ fr)) * 10 powi (read_exp r - int (length fr)))"

section \<open>Seventeen digits are enough\<close>

lemma rne_eqI: "\<bar>x - of_int m\<bar> < 1 / 2 \<Longrightarrow> rne x = m"
proof -
  assume "\<bar>x - of_int m\<bar> < 1 / 2"
  then have "\<bar>of_int (rne x) - of_int m :: rat\<bar> < 1" using rne_near [of x] by linarith
  then have "\<bar>rne x - m\<bar> < 1" by (metis of_int_abs of_int_diff of_int_1 of_int_less_iff)
  then show ?thesis by simp
qed

lemma rval_same:
  assumes "x = of_int K * 2 powi fexp y" "\<bar>y - x\<bar> < 2 powi fexp y / 2"
  shows "rval y = x"
proof -
  have "y / 2 powi fexp y - of_int K = (y - x) / 2 powi fexp y" using assms(1) by (simp add: diff_divide_distrib)
  moreover have "\<bar>(y - x) / 2 powi fexp y\<bar> < 1 / 2" using assms(2) by (simp add: abs_divide field_simps)
  ultimately have "rne (y / 2 powi fexp y) = K" by (intro rne_eqI) simp
  then show ?thesis by (simp add: rval_def assms(1))
qed

lemma rval_near:
  assumes "representable x" "0 < x" "\<bar>y - x\<bar> \<le> x / (2 * 10 ^ 16)"
  shows "rval y = x"
proof -
  let ?e = "ilog2 x"
  define F :: rat where "F = 2 powi fexp x"
  have f: "fexp x = max (?e - 52) (- 1074)" using assms(2) by (simp add: fexp_def)
  obtain M where x: "x = of_int M * F" using rval_representable [OF assms(1)] by (metis rval_def F_def)
  have F: "0 < F" by (simp add: F_def)
  note ex = ilog2_bounds [OF assms(2)]
  have "x / (2 * 10 ^ 16) < x / 2" using assms(2) by simp
  then have ypos: "x / 2 < y" using assms(3) by linarith
  have two: "(2::rat) powi (k + 1) = 2 * 2 powi k" for k by (simp add: power_int_add)
  have small: "\<bar>y - x\<bar> * 10000000000000000 < 2 powi ?e" using assms(3) ex(2) [unfolded two] by (simp add: field_simps)
  have "(2::rat) powi (?e - 52) \<le> F" by (simp add: F_def powi2_mono f)
  then have ef: "2 powi ?e \<le> F * 4503599627370496" by (simp add: power_int_diff field_simps)
  have "a * 10000000000000000 < b \<Longrightarrow> b \<le> c * 4503599627370496 \<Longrightarrow> 0 < c \<Longrightarrow> a < c / 2" for a b c :: rat by linarith
  then have half: "\<bar>y - x\<bar> < F / 2" using small ef F by blast
  have "0 < M" using zero_less_mult_pos2 [of "of_int M" F] F assms(2) by (simp flip: x)
  then have "1 * F \<le> of_int M * F" using F by (intro mult_right_mono) simp_all
  then have "F < (2::rat) powi (?e + 1)" using ex(2) x by linarith
  then have fe: "fexp x \<le> ?e" unfolding F_def powi2_less by simp
  have grid: "(2::rat) powi k = of_int (2 ^ nat (k - fexp x)) * F" if "fexp x \<le> k" for k
    unfolding F_def using that by (rule powi_grid)
  have above: "x + F \<le> of_int K * F" if "x < of_int K * F" for K
  proof -
    have "M < K" using that F by (simp add: x)
    then have "of_int (M + 1) * F \<le> of_int K * F" using F by (intro mult_right_mono) simp_all
    then show ?thesis by (simp add: x algebra_simps)
  qed
  have below: "of_int K * F + F \<le> x" if "of_int K * F < x" for K
  proof -
    have "K < M" using that F by (simp add: x)
    then have "of_int (K + 1) * F \<le> of_int M * F" using F by (intro mult_right_mono) simp_all
    then show ?thesis by (simp add: x algebra_simps)
  qed
  consider "2 powi (?e + 1) \<le> y" | "2 powi ?e \<le> y" "y < 2 powi (?e + 1)" | "y < 2 powi ?e" by linarith
  then show ?thesis
  proof cases
    case 1
    have "fexp x \<le> ?e + 1" using fe by simp
    then have "x + F \<le> 2 powi (?e + 1)" using above [of "2 ^ nat (?e + 1 - fexp x)"] ex(2) grid [of "?e + 1"] by simp
    then show ?thesis using 1 half F by linarith
  next
    case 2
    then have eq: "fexp y = fexp x" using ilog2_eqI [of ?e y] ypos assms(2) f by (simp add: fexp_def)
    show ?thesis by (rule rval_same [of x M y, unfolded eq, folded F_def, OF x half])
  next
    case 3
    have "\<not> 2 powi ?e < x"
    proof
      assume "2 powi ?e < x"
      then have "2 powi ?e + F \<le> x" using below [of "2 ^ nat (?e - fexp x)"] grid [OF fe] by simp
      then show False using 3 half by linarith
    qed
    then have xe: "x = 2 powi ?e" using ex(1) by simp
    have "(2::rat) powi ?e = 2 * 2 powi (?e - 1)" using two [of "?e - 1"] by simp
    then have "2 powi (?e - 1) \<le> y" "y < 2 powi (?e - 1 + 1)" using ypos xe 3 by simp_all
    then have fy: "fexp y = max (?e - 53) (- 1074)" using ilog2_eqI [of "?e - 1" y] ypos assms(2) by (simp add: fexp_def)
    show ?thesis
    proof (cases "?e - 52 \<le> - 1074")
      case True
      then have eq: "fexp y = fexp x" using fy f by simp
      show ?thesis by (rule rval_same [of x M y, unfolded eq, folded F_def, OF x half])
    next
      case False
      then have g: "fexp y = ?e - 53" using fy by simp
      define E :: rat where "E = 2 powi ?e"
      have p: "(2::rat) powi fexp y = E / 2 ^ 53" by (simp add: g E_def power_int_diff)
      have E: "0 < E" by (simp add: E_def)
      have "x = E" using xe by (simp only: E_def)
      with E show ?thesis using assms(3) by (intro rval_same [of x "2 ^ 53"]) (simp_all add: p field_simps)
    qed
  qed
qed


lemma dec_point_bounds:
  assumes "0 < r"
  shows "10 powi (dec_point r - 1) \<le> r" "r < 10 powi dec_point r"
proof -
  obtain p q where pq: "quotient_of r = (p, q)" by (cases "quotient_of r")
  then have r: "r = of_int p / of_int q" "0 < q" using quotient_of_div quotient_of_denom_pos by blast+
  with assms have p: "0 < p" by (simp add: zero_less_divide_iff)
  define a b where "a = floorlog 10 (nat p)" and "b = floorlog 10 (nat q)"
  have ab0: "1 \<le> a" "1 \<le> b" using p r(2) by (auto simp: a_def b_def floorlog_def)
  have "10 ^ (a - 1) \<le> nat p" "nat p < 10 ^ a" "10 ^ (b - 1) \<le> nat q" "nat q < 10 ^ b"
    using floorlog_bounds [of "nat p" 10] floorlog_bounds [of "nat q" 10] p r(2) by (auto simp: a_def b_def)
  then have "(10::int) ^ (a - 1) \<le> p" "p < 10 ^ a" "(10::int) ^ (b - 1) \<le> q" "q < 10 ^ b"
    using p r(2) by (simp_all add: nat_less_iff le_nat_iff)
  then have ab: "(10::rat) ^ (a - 1) \<le> of_int p" "of_int p < (10::rat) ^ a" "(10::rat) ^ (b - 1) \<le> of_int q" "of_int q < (10::rat) ^ b"
    by (metis of_int_le_iff of_int_less_iff of_int_numeral of_int_power)+
  let ?k = "int a - int b"
  have dp: "dec_point r = (if 10 powi ?k \<le> r then ?k + 1 else ?k)" by (simp add: dec_point_def pq a_def b_def Let_def)
  have half: "(10::rat) powi (?k + 1) = 10 ^ a / 10 ^ (b - 1)"
    using ab0 by (simp add: power_int_diff power_int_add power_diff)
  have low: "(10::rat) powi (?k - 1) = 10 ^ (a - 1) / 10 ^ b"
    using ab0 by (simp add: power_int_diff power_diff)
  have up: "r < 10 powi (?k + 1)"
    unfolding half r(1) using ab p r(2) by (intro frac_less) auto
  have dn: "10 powi (?k - 1) \<le> r"
    unfolding low r(1) using ab p r(2) by (intro frac_le) auto
  show "10 powi (dec_point r - 1) \<le> r" using dn by (simp add: dp)
  show "r < 10 powi dec_point r" using up by (auto simp: dp)
qed

lemma unit_at_pos: "0 < unit_at x n"
  by (simp add: unit_at_def)

lemma pick_digits_sound:
  assumes "pick_digits x n = Some m" "0 < x"
  shows "0 \<le> m \<and> fround (of_int m * unit_at x n) = Fin x"
proof -
  let ?q = "x / unit_at x n"
  have q: "0 < ?q" using assms(2) unit_at_pos [of x n] by simp
  have "rne ?q = \<lfloor>?q\<rfloor> \<or> rne ?q = \<lfloor>?q\<rfloor> + 1" by (auto simp: rne_def Let_def)
  then show ?thesis using assms(1) q rne_nonneg [of ?q]
    by (auto simp: pick_digits_def Let_def split: if_splits)
qed

lemma pick_digits_17:
  assumes "representable x" "0 < x"
  shows "pick_digits x 17 \<noteq> None"
proof -
  let ?u = "unit_at x 17" let ?d = "\<lfloor>x / ?u\<rfloor>"
  have u: "0 < ?u" by (rule unit_at_pos)
  have "?u * 10 ^ 16 = 10 powi (dec_point x - 1)" by (simp add: unit_at_def power_int_diff)
  then have ux: "?u * 10 ^ 16 \<le> x" using dec_point_bounds(1) [OF assms(2)] by simp
  have good: "fround y = Fin x" if "\<bar>y - x\<bar> \<le> ?u / 2" for y
  proof -
    have "\<bar>y - x\<bar> \<le> x / (2 * 10 ^ 16)" using that ux by simp
    then have "rval y = x" by (rule rval_near [OF assms])
    then show ?thesis using rval_representable [OF assms(1)] by (auto simp: fround_rval abs_less_iff)
  qed
  have "of_int ?d \<le> x / ?u" "x / ?u < of_int ?d + 1" by linarith+
  then have "of_int ?d * ?u \<le> x / ?u * ?u" "x / ?u * ?u < (of_int ?d + 1) * ?u" using u
    by (simp_all only: mult_right_mono less_imp_le mult_strict_right_mono)
  then have "of_int ?d * ?u \<le> x" "x < (of_int ?d + 1) * ?u" using u by simp_all
  then have "\<bar>of_int ?d * ?u - x\<bar> \<le> ?u / 2 \<or> \<bar>of_int (?d + 1) * ?u - x\<bar> \<le> ?u / 2"
    by (simp add: algebra_simps abs_le_iff) linarith
  then have "fround (of_int ?d * ?u) = Fin x \<or> fround (of_int (?d + 1) * ?u) = Fin x" using good by blast
  then show ?thesis by (auto simp: pick_digits_def Let_def)
qed

lemma strip_zeros_value:
  "strip_zeros m e = (m', e') \<Longrightarrow> of_nat m' * 10 powi e' = (of_nat m * 10 powi e :: rat) \<and> m' \<le> m \<and> (m' = 0 \<longleftrightarrow> m = 0)"
proof (induction m e arbitrary: m' e' rule: strip_zeros.induct)
  case (1 m e)
  show ?case
  proof (cases "m \<noteq> 0 \<and> m mod 10 = 0")
    case True
    then have "strip_zeros (m div 10) (e + 1) = (m', e')" using 1(2) True by (simp add: strip_zeros.simps [of m])
    note ih = 1(1) [OF True this]
    have "(of_nat (m div 10) :: rat) * 10 = of_nat m" using True by (metis mod_0_imp_dvd dvd_div_mult_self of_nat_mult of_nat_numeral)
    then have "(of_nat (m div 10) :: rat) * 10 powi (e + 1) = of_nat m * 10 powi e" by (simp add: power_int_add)
    then have "of_nat m' * 10 powi e' = (of_nat m * 10 powi e :: rat)" using ih [THEN conjunct1] by simp
    moreover have "m' \<le> m" using ih [THEN conjunct2, THEN conjunct1] div_le_dividend [of m 10] by linarith
    moreover have "m div 10 \<noteq> 0" using True div_mult_mod_eq [of m 10] by linarith
    then have "m' \<noteq> 0" unfolding ih [THEN conjunct2, THEN conjunct2] .
    ultimately show ?thesis using True by blast
  next
    case False
    then have "m' = m \<and> e' = e" using 1(2) by (simp add: strip_zeros.simps [of m] split: if_splits)
    then show ?thesis by simp
  qed
qed

lemma shortest_sound:
  assumes "representable x" "0 < x" "shortest x = (m, e)"
  shows "0 < m \<and> fround (of_nat m * 10 powi e) = Fin x"
proof -
  have "find (\<lambda>n. pick_digits x n \<noteq> None) [1..<18] \<noteq> None"
  proof -
    have "17 \<in> set [1..<18::nat]" by simp
    then show ?thesis using pick_digits_17 [OF assms(1,2)] unfolding find_None_iff by blast
  qed
  then obtain n where n: "find (\<lambda>n. pick_digits x n \<noteq> None) [1..<18] = Some n" by blast
  then obtain k where k: "pick_digits x n = Some k" by (auto simp: find_Some_iff)
  have "0 \<le> k" and fk: "fround (of_int k * unit_at x n) = Fin x" using pick_digits_sound [OF k assms(2)] by auto
  have "strip_zeros (nat k) (dec_point x - int n) = (m, e)" using assms(3) n k by (simp add: shortest_def)
  then have v: "of_nat m * 10 powi e = (of_nat (nat k) * 10 powi (dec_point x - int n) :: rat)" by (simp add: strip_zeros_value)
  then have "of_nat m * 10 powi e = of_int k * unit_at x n" using \<open>0 \<le> k\<close> by (simp add: unit_at_def)
  then have "fround (of_nat m * 10 powi e) = Fin x" using fk by simp
  moreover have "m \<noteq> 0"
  proof
    assume "m = 0"
    then show False using calculation assms(2) by (simp add: fround_def)
  qed
  ultimately show ?thesis by simp
qed


section \<open>What is written reads back\<close>

lemma number_append: "number (a @ b) = number a * 10 ^ length b + number b"
proof (induction b rule: rev_induct)
  case (snoc c b)
  then show ?case using number_snoc [of "a @ b" c] by (simp add: number_snoc algebra_simps)
qed (simp add: number_def)

lemma number_zeros: "number (replicate n CHR ''0'') = 0"
proof (induction n)
  case (Suc n)
  then show ?case using number_append [of "[CHR ''0'']" "replicate n CHR ''0''"] by (simp add: number_def digit_value_def)
qed (simp add: number_def)

lemma is_digit_0 [simp]: "is_digit CHR ''0''"
  by (simp add: is_digit_def)

lemma not_digits [simp]: "\<not> is_digit CHR ''.''" "\<not> is_digit CHR ''e''" "\<not> is_digit CHR ''E''" "\<not> is_digit CHR ''-''" "\<not> is_digit CHR ''+''"
  by (simp_all add: is_digit_def)

text \<open>Where the digits at the front of a text end.\<close>

lemma digits_span:
  assumes "list_all is_digit ds" "r = [] \<or> \<not> is_digit (hd r)"
  shows "takeWhile is_digit (ds @ r) = ds" "dropWhile is_digit (ds @ r) = r"
  using assms by (induction ds) (cases r; auto)+

lemma read_sign_digits: "list_all is_digit ds \<Longrightarrow> ds \<noteq> [] \<Longrightarrow> read_sign (ds @ r) = (1, ds @ r)"
  by (cases ds) (auto simp: read_sign_def)

lemma two_digits_props: "list_all is_digit (two_digits n)" "two_digits n \<noteq> []" "number (two_digits n) = n"
  using digits_all [of n] number_append [of "''0''" "digits n"]
  by (simp_all add: two_digits_def number_digits number_def [of "''0''"] digit_value_def)

text \<open>The parts of a numeral: digits, digits behind the point, exponent.\<close>

lemma num_value_parts:
  assumes "list_all is_digit a" "a \<noteq> []" "list_all is_digit b" "r = [] \<or> hd r = CHR ''e''"
  shows "num_value (a @ (if b = [] then [] else CHR ''.'' # b) @ r) = of_nat (number (a @ b)) * 10 powi (read_exp r - int (length b))"
proof -
  have r: "r = [] \<or> \<not> is_digit (hd r)" using assms(4) by auto
  show ?thesis
  proof (cases "b = []")
    case True
    then have "read_frac r = ([], r)" using assms(4) by (cases r) (auto simp: read_frac_def)
    then show ?thesis using True digits_span [OF assms(1) r] read_sign_digits [OF assms(1,2), of r] by (simp add: num_value_def)
  next
    case False
    have "read_frac (CHR ''.'' # b @ r) = (b, r)" using digits_span [OF assms(3) r] by (simp add: read_frac_def)
    then show ?thesis using False digits_span [OF assms(1), of "CHR ''.'' # b @ r"] read_sign_digits [OF assms(1,2), of "CHR ''.'' # b @ r"]
      by (simp add: num_value_def)
  qed
qed

lemma num_value_minus:
  assumes "s \<noteq> []" "is_digit (hd s)"
  shows "num_value (CHR ''-'' # s) = - num_value s"
proof -
  have "read_sign s = (1, s)" using assms by (cases s) (auto simp: read_sign_def)
  then show ?thesis by (simp add: num_value_def read_sign_def split: prod.split)
qed

lemma digits_tl: "list_all is_digit (tl (digits m))" "is_digit (hd (digits m))"
  using digits_all [of m] by (cases "digits m"; simp)+

text \<open>A way to write exponents.\<close>

definition exp_digits :: "(nat \<Rightarrow> string) \<Rightarrow> bool" where
  "exp_digits ed \<longleftrightarrow> (\<forall>n. list_all is_digit (ed n) \<and> ed n \<noteq> [] \<and> number (ed n) = n)"

lemma exp_digits [simp]: "exp_digits two_digits" "exp_digits digits"
  by (simp_all add: exp_digits_def two_digits_props digits_all number_digits)

text \<open>The parts of the two forms.\<close>

definition exp_text :: "(nat \<Rightarrow> string) \<Rightarrow> int \<Rightarrow> string" where
  "exp_text ed ex = ''e'' @ (if ex < 0 then ''-'' else ''+'') @ ed (nat \<bar>ex\<bar>)"

lemma read_exp_text: "exp_digits ed \<Longrightarrow> read_exp (exp_text ed ex) = ex"
  by (simp add: exp_text_def read_exp_def read_sign_def exp_digits_def)

lemma form_exp_parts:
  "form_exp ed (m, e) = [hd (digits m)] @ (if tl (digits m) = [] then [] else CHR ''.'' # tl (digits m)) @
    exp_text ed (e + int (length (digits m)) - 1)"
  by (simp add: form_exp_def exp_text_def Let_def)

lemma num_value_form_e:
  assumes "exp_digits ed"
  shows "num_value (form_exp ed (m, e)) = of_nat m * 10 powi e"
proof -
  let ?ds = "digits m"
  define ex where "ex = e + int (length ?ds) - 1"
  have "exp_text ed ex = [] \<or> hd (exp_text ed ex) = CHR ''e''" by (simp add: exp_text_def)
  then have "num_value (form_exp ed (m, e)) = of_nat (number (hd ?ds # tl ?ds)) * 10 powi (ex - int (length (tl ?ds)))"
    using num_value_parts [of "[hd ?ds]" "tl ?ds" "exp_text ed ex"] digits_tl [of m]
    by (simp add: form_exp_parts read_exp_text [OF assms] flip: ex_def)
  moreover have "ex - int (length (tl ?ds)) = e" using digits_nonempty [of m] by (cases ?ds) (simp_all add: ex_def)
  ultimately show ?thesis by (simp add: number_digits)
qed

text \<open>The first digit of a number is 0 only for zero.\<close>

lemma digits_lead: "0 < m \<Longrightarrow> hd (digits m) \<noteq> CHR ''0''"
proof (induction m rule: digits.induct)
  case (1 m)
  show ?case
  proof (cases "m < 10")
    case True
    then have "digit_value (hd (digits m)) = m" by (simp add: digits.simps [of m] digit_value_digit)
    then show ?thesis using 1(2) by (auto simp: digit_value_def)
  next
    case False
    then show ?thesis using 1(1) by (simp add: digits.simps [of m] hd_append)
  qed
qed

text \<open>Digits before and behind the point of the form without exponent.\<close>

definition point_text :: "string \<Rightarrow> string \<Rightarrow> string" where
  "point_text a b = a @ (if b = [] then [] else CHR ''.'' # b)"

definition point_parts :: "string \<Rightarrow> string \<Rightarrow> bool" where
  "point_parts a b \<longleftrightarrow> list_all is_digit a \<and> a \<noteq> [] \<and> list_all is_digit b \<and> (hd a = CHR ''0'' \<longrightarrow> tl a = [])"

lemma form_f_parts:
  assumes "0 < m \<or> e = 0"
  shows "\<exists>a b. form_f (m, e) = point_text a b \<and> point_parts a b \<and>
    of_nat (number (a @ b)) * 10 powi (- int (length b)) = (of_nat m * 10 powi e :: rat)"
proof -
  let ?ds = "digits m"
  define dp where "dp = e + int (length ?ds)"
  have "tl (digits 0) = []" by (subst digits.simps) simp
  then have d: "list_all is_digit ?ds" "hd ?ds = CHR ''0'' \<longrightarrow> tl ?ds = []"
    using digits_all [of m] digits_lead [of m] by (cases "m = 0"; simp)+
  consider "0 \<le> e" | "e < 0" "dp \<le> 0" | "e < 0" "0 < dp" by linarith
  then show ?thesis
  proof cases
    case 1
    let ?a = "?ds @ replicate (nat e) CHR ''0''"
    have "point_parts ?a []" using d assms digits_lead [of m] by (auto simp: point_parts_def list_all_iff hd_append)
    moreover have "form_f (m, e) = point_text ?a []" using 1 by (simp add: form_f_def point_text_def Let_def)
    ultimately show ?thesis using 1
      by (intro exI [of _ ?a] exI [of _ "[]"]) (simp add: number_append number_zeros number_digits power_int_def)
  next
    case 2
    let ?b = "replicate (nat (- dp)) CHR ''0'' @ ?ds"
    have "point_parts ''0'' ?b" using d by (auto simp: point_parts_def list_all_iff)
    moreover have "form_f (m, e) = point_text ''0'' ?b" using 2 by (simp add: form_f_def point_text_def dp_def Let_def)
    moreover have "number (''0'' @ ?b) = m"
      by (simp only: number_append number_zeros number_digits) (simp add: number_def digit_value_def)
    moreover have "- int (length ?b) = e" using 2 by (simp add: dp_def)
    ultimately show ?thesis by (intro exI [of _ "''0''"] exI [of _ ?b]) simp
  next
    case 3
    let ?a = "take (nat dp) ?ds" and ?b = "drop (nat dp) ?ds"
    have l: "nat dp < length ?ds" using 3 by (simp add: dp_def)
    have ab: "?a \<noteq> []" "?b \<noteq> []" using 3 l by auto
    have "hd ?a = hd ?ds" using 3 by (cases "nat dp"; cases ?ds) auto
    moreover have "list_all is_digit ?a" "list_all is_digit ?b" using d(1) by (simp_all add: list_all_iff) (meson in_set_takeD in_set_dropD)+
    moreover have "m \<noteq> 0" using assms 3 by auto
    ultimately have "point_parts ?a ?b" using digits_lead [of m] ab by (auto simp: point_parts_def)
    moreover have "form_f (m, e) = point_text ?a ?b" using 3 ab by (simp add: form_f_def point_text_def dp_def Let_def)
    moreover have "- int (length ?b) = e" using 3 l by (simp add: dp_def)
    ultimately show ?thesis by (intro exI [of _ ?a] exI [of _ ?b]) (simp add: number_digits)
  qed
qed

lemma num_value_form_f:
  assumes "0 < m \<or> e = 0"
  shows "num_value (form_f (m, e)) = of_nat m * 10 powi e"
proof -
  obtain a b where ab: "form_f (m, e) = point_text a b" "point_parts a b"
    "of_nat (number (a @ b)) * 10 powi (- int (length b)) = (of_nat m * 10 powi e :: rat)"
    using form_f_parts [OF assms] by blast
  then show ?thesis using num_value_parts [of a b "[]"] by (simp add: point_text_def point_parts_def read_exp_def)
qed

text \<open>The forms begin with a digit, so that a sign can be told from them.\<close>

lemma form_head: "form_exp ed d \<noteq> [] \<and> is_digit (hd (form_exp ed d))" "form_f d \<noteq> [] \<and> is_digit (hd (form_f d))"
proof -
  obtain m e where d: "d = (m, e)" by (cases d)
  note h = digits_tl(2) [of m] digits_nonempty [of m]
  show "form_exp ed d \<noteq> [] \<and> is_digit (hd (form_exp ed d))" using h by (simp add: d form_exp_def Let_def)
  show "form_f d \<noteq> [] \<and> is_digit (hd (form_f d))" using h by (simp add: d form_f_def Let_def hd_append)
qed

lemma decimal_positive: "representable x \<Longrightarrow> decimal x = (m, e) \<Longrightarrow> 0 < m \<or> e = 0"
proof -
  assume a: "representable x" "decimal x = (m, e)"
  have "representable \<bar>x\<bar>" using a(1) representable_minus [of x] by (simp add: abs_if)
  then show ?thesis using a(2) shortest_sound [of "\<bar>x\<bar>" m e] by (auto simp: decimal_def split: if_splits)
qed

text \<open>Whichever form is chosen, a double is read back from it.\<close>

theorem float_text_roundtrip:
  assumes "representable x" "exp_digits ed" "s = form_exp ed (decimal x) \<or> s = form_f (decimal x)"
  shows "fround (num_value (sign_of x @ s)) = Fin x"
proof -
  obtain m e where d: "decimal x = (m, e)" by (cases "decimal x")
  have v: "num_value s = of_nat m * 10 powi e"
    using assms(3) d num_value_form_e [OF assms(2)] num_value_form_f [OF decimal_positive [OF assms(1) d]] by auto
  have ra: "representable \<bar>x\<bar>" using assms(1) representable_minus [of x] by (simp add: abs_if)
  have f: "fround (of_nat m * 10 powi e) = Fin \<bar>x\<bar>"
    using d shortest_sound [OF ra, of m e] by (cases "x = 0") (auto simp: decimal_def fround_def)
  show ?thesis
  proof (cases "x < 0")
    case True
    have "s \<noteq> [] \<and> is_digit (hd s)" using assms(3) form_head(1) [of ed "decimal x"] form_head(2) [of "decimal x"] by metis
    then have "num_value (sign_of x @ s) = - num_value s" using True num_value_minus by (simp add: sign_of_def)
    then show ?thesis using f v True by (auto simp: fround_rval rval_minus split: if_splits)
  next
    case pos: False
    then show ?thesis using f v by (simp add: sign_of_def)
  qed
qed

end
