(* ===== verification/GoJson.thy ===== *)
theory GoJson
  imports FloatText
begin

text \<open>
  The part of \<^verbatim>\<open>encoding/json\<close> the program uses: how strings and numbers are written, with the
  characters of HTML escaped, how values are laid out, on one line or indented, and how a
  decoder reads the next value of a stream. The lemmas show that what is written for a value is
  read back as this value, and that what is written holds no character of HTML.
\<close>

section \<open>UTF-8\<close>

definition ord :: "char \<Rightarrow> nat" where
  "ord c = of_char c"

definition byte_at :: "nat \<Rightarrow> nat \<Rightarrow> string \<Rightarrow> nat \<Rightarrow> bool" where
  "byte_at lo hi s k \<longleftrightarrow> k < length s \<and> lo \<le> ord (s ! k) \<and> ord (s ! k) \<le> hi"

text \<open>The rows of a table: the range of the first byte, the length, the range of the second.\<close>

definition utf8_rows :: "(nat \<times> nat \<times> nat \<times> nat \<times> nat) list" where
  "utf8_rows = [(0x00, 0x7F, 1, 0x00, 0x00), (0xC2, 0xDF, 2, 0x80, 0xBF), (0xE0, 0xE0, 3, 0xA0, 0xBF),
     (0xE1, 0xEC, 3, 0x80, 0xBF), (0xED, 0xED, 3, 0x80, 0x9F), (0xEE, 0xEF, 3, 0x80, 0xBF),
     (0xF0, 0xF0, 4, 0x90, 0xBF), (0xF1, 0xF3, 4, 0x80, 0xBF), (0xF4, 0xF4, 4, 0x80, 0x8F)]"

text \<open>The length of the encoded character a string begins with; 0 when it begins with none.\<close>

definition row_fits :: "string \<Rightarrow> nat \<times> nat \<times> nat \<times> nat \<times> nat \<Rightarrow> bool" where
  "row_fits s w = (case w of (_, _, n, lo, hi) \<Rightarrow>
     (n = 1 \<or> byte_at lo hi s 1) \<and> list_all (byte_at 0x80 0xBF s) [2..<n])"

definition utf8_len :: "string \<Rightarrow> nat" where
  "utf8_len s = (case find (\<lambda>(lo, hi, _). byte_at lo hi s 0) utf8_rows of
     None \<Rightarrow> 0
   | Some w \<Rightarrow> if row_fits s w then fst (snd (snd w)) else 0)"

lemma utf8_row_length: "w \<in> set utf8_rows \<Longrightarrow> fst (snd (snd w)) \<in> {1, 2, 3, 4}"
  by (auto simp: utf8_rows_def)

lemma find_row_in: "find P xs = Some x \<Longrightarrow> x \<in> set xs \<and> P x"
  by (auto simp: find_Some_iff)

lemma byte_at_cong: "take n t = take n s \<Longrightarrow> k < n \<Longrightarrow> n \<le> length s \<Longrightarrow> byte_at lo hi t k = byte_at lo hi s k"
  unfolding byte_at_def by (metis (no_types, lifting) length_take min.absorb2 nth_take min_less_iff_conj)

lemma utf8_lenE:
  assumes "utf8_len s = n" "0 < n"
  obtains w where "find (\<lambda>(lo, hi, _). byte_at lo hi s 0) utf8_rows = Some w" "row_fits s w" "fst (snd (snd w)) = n"
    "n \<le> length s"
proof -
  obtain w where w: "find (\<lambda>(lo, hi, _). byte_at lo hi s 0) utf8_rows = Some w" "row_fits s w" "fst (snd (snd w)) = n"
    using assms by (auto simp: utf8_len_def split: option.splits if_splits)
  obtain lo hi l2 h2 where wn: "w = (lo, hi, n, l2, h2)" using w(3) by (cases w) auto
  have n: "n \<in> {1, 2, 3, 4}" and b0: "byte_at lo hi s 0" using find_row_in [OF w(1)] utf8_row_length [of w] wn by auto
  have "n - 1 < length s"
  proof (cases "n \<le> 2")
    case True
    then show ?thesis using n w(2) b0 by (auto simp: wn row_fits_def byte_at_def)
  next
    case False
    then have "n - 1 \<in> set [2..<n]" by auto
    then show ?thesis using w(2) by (simp add: wn row_fits_def list_all_iff byte_at_def)
  qed
  then show thesis using w n by (intro that) auto
qed

lemma utf8_len_le: "utf8_len s \<le> length s"
  by (cases "utf8_len s = 0") (auto elim: utf8_lenE [OF refl])

text \<open>Only the bytes of the character matter.\<close>

lemma utf8_len_prefix:
  assumes "utf8_len s = n" "0 < n" "take n t = take n s" "n \<le> length t"
  shows "utf8_len t = n"
proof -
  obtain w where w: "find (\<lambda>(lo, hi, _). byte_at lo hi s 0) utf8_rows = Some w" "row_fits s w" "fst (snd (snd w)) = n" "n \<le> length s"
    using assms(1,2) by (rule utf8_lenE)
  note same = byte_at_cong [OF assms(3) _ w(4)]
  have n: "n \<in> {1, 2, 3, 4}" using find_row_in [OF w(1)] utf8_row_length [of w] w(3) by auto
  have "find (\<lambda>(lo, hi, _). byte_at lo hi t 0) utf8_rows = Some w" using w(1) same [of 0] assms(2) by simp
  moreover have "row_fits t w" using w(2,3) same n by (cases w) (auto simp: row_fits_def list_all_iff)
  ultimately show ?thesis using w(3) by (simp add: utf8_len_def)
qed

function valid_utf8 :: "string \<Rightarrow> bool" where
  "valid_utf8 s = (if s = [] then True else if utf8_len s = 0 then False else valid_utf8 (drop (utf8_len s) s))"
  by pat_completeness auto
termination by (relation "measure length") auto

declare valid_utf8.simps [simp del]

definition encode_rune :: "nat \<Rightarrow> string" where
  "encode_rune r =
     (if r < 0x80 then [char_of r]
      else if r < 0x800 then [char_of (0xC0 + r div 0x40), char_of (0x80 + r mod 0x40)]
      else if r < 0x10000 then [char_of (0xE0 + r div 0x1000), char_of (0x80 + r div 0x40 mod 0x40), char_of (0x80 + r mod 0x40)]
      else [char_of (0xF0 + r div 0x40000), char_of (0x80 + r div 0x1000 mod 0x40), char_of (0x80 + r div 0x40 mod 0x40),
        char_of (0x80 + r mod 0x40)])"

section \<open>Strings\<close>

definition backslash :: char where
  "backslash = CHR 0x5C"

definition quote :: char where
  "quote = CHR 0x22"

definition hex_digit :: "nat \<Rightarrow> char" where
  "hex_digit n = (if n < 10 then char_of (48 + n) else char_of (87 + n))"

definition escape_ascii :: "char \<Rightarrow> string" where
  "escape_ascii c =
     (if c = quote \<or> c = backslash then [backslash, c]
      else if c = CHR 0x08 then [backslash, CHR ''b'']
      else if c = CHR 0x0C then [backslash, CHR ''f'']
      else if c = CHR 0x0A then [backslash, CHR ''n'']
      else if c = CHR 0x0D then [backslash, CHR ''r'']
      else if c = CHR 0x09 then [backslash, CHR ''t'']
      else if ord c < 0x20 \<or> c = CHR ''<'' \<or> c = CHR ''>'' \<or> c = CHR ''&''
        then [backslash, CHR ''u'', CHR ''0'', CHR ''0'', hex_digit (ord c div 16), hex_digit (ord c mod 16)]
      else [c])"

text \<open>The line and the paragraph separator, U+2028 and U+2029.\<close>

definition separator_at :: "string \<Rightarrow> bool" where
  "separator_at s \<longleftrightarrow> (case s of a # b # c # _ \<Rightarrow> a = CHR 0xE2 \<and> b = CHR 0x80 \<and> (c = CHR 0xA8 \<or> c = CHR 0xA9) | _ \<Rightarrow> False)"

function escape :: "string \<Rightarrow> string" where
  "escape s =
     (if s = [] then []
      else if ord (hd s) < 0x80 then escape_ascii (hd s) @ escape (tl s)
      else if utf8_len s = 0 then backslash # ''ufffd'' @ escape (tl s)
      else if separator_at s then backslash # ''u202'' @ [hex_digit (ord (s ! 2) mod 16)] @ escape (drop 3 s)
      else take (utf8_len s) s @ escape (drop (utf8_len s) s))"
  by pat_completeness auto
termination by (relation "measure length") (auto simp: neq_Nil_conv)

declare escape.simps [simp del]

definition json_string :: "string \<Rightarrow> string" where
  "json_string s = quote # escape s @ [quote]"

text \<open>Reading behind the opening quote: the string and what follows its closing quote.\<close>

definition hex_value :: "char \<Rightarrow> nat option" where
  "hex_value c =
     (if is_digit c then Some (ord c - 48)
      else if 97 \<le> ord c \<and> ord c \<le> 102 then Some (ord c - 87)
      else if 65 \<le> ord c \<and> ord c \<le> 70 then Some (ord c - 55)
      else None)"

definition hex4 :: "string \<Rightarrow> (nat \<times> string) option" where
  "hex4 s = (if length s < 4 then None else
     (case (hex_value (s ! 0), hex_value (s ! 1), hex_value (s ! 2), hex_value (s ! 3)) of
        (Some a, Some b, Some c, Some d) \<Rightarrow> Some (((a * 16 + b) * 16 + c) * 16 + d, drop 4 s)
      | _ \<Rightarrow> None))"

definition replacement :: string where
  "replacement = encode_rune 0xFFFD"

text \<open>The characters of one \<^verbatim>\<open>\u\<close> escape, or of the two of a surrogate pair.\<close>

definition unicode_escape :: "string \<Rightarrow> (string \<times> string) option" where
  "unicode_escape s = (case hex4 s of
     None \<Rightarrow> None
   | Some (r, t) \<Rightarrow>
       if 0xD800 \<le> r \<and> r < 0xE000 then
         (case (if take 2 t = [backslash, CHR ''u''] then hex4 (drop 2 t) else None) of
            Some (r2, t2) \<Rightarrow>
              if r < 0xDC00 \<and> 0xDC00 \<le> r2 \<and> r2 < 0xE000
              then Some (encode_rune (0x10000 + (r - 0xD800) * 0x400 + (r2 - 0xDC00)), t2)
              else Some (replacement, t)
          | None \<Rightarrow> Some (replacement, t))
       else Some (encode_rune r, t))"

definition simple_escape :: "char \<Rightarrow> char option" where
  "simple_escape c =
     (if c = quote \<or> c = backslash \<or> c = CHR ''/'' then Some c
      else if c = CHR ''b'' then Some (CHR 0x08) else if c = CHR ''f'' then Some (CHR 0x0C)
      else if c = CHR ''n'' then Some (CHR 0x0A) else if c = CHR ''r'' then Some (CHR 0x0D)
      else if c = CHR ''t'' then Some (CHR 0x09) else None)"

text \<open>One piece of a string: its bytes, and what follows.\<close>

definition string_piece :: "string \<Rightarrow> (string \<times> string) option" where
  "string_piece s = (case s of
     [] \<Rightarrow> None
   | c # t \<Rightarrow>
       if ord c < 0x20 then None
       else if c = backslash then
         (case t of [] \<Rightarrow> None
          | d # u \<Rightarrow> if d = CHR ''u'' then unicode_escape u else map_option (\<lambda>e. ([e], u)) (simple_escape d))
       else if utf8_len s = 0 then Some (replacement, t)
       else Some (take (utf8_len s) s, drop (utf8_len s) s))"

lemma hex4_length: "hex4 s = Some (r, t) \<Longrightarrow> length t < length s"
  by (auto simp: hex4_def split: if_splits option.splits)

lemma unicode_escape_length: "unicode_escape s = Some (p, t) \<Longrightarrow> length t < length s"
  by (fastforce simp: unicode_escape_def split: if_splits option.splits dest: hex4_length)

lemma string_piece_length: "string_piece s = Some (p, t) \<Longrightarrow> length t < length s"
  by (auto simp: string_piece_def split: list.splits if_splits option.splits dest: unicode_escape_length)

function unquote :: "string \<Rightarrow> (string \<times> string) option" where
  "unquote s =
     (if s \<noteq> [] \<and> hd s = quote then Some ([], tl s)
      else (case string_piece s of
          None \<Rightarrow> None
        | Some (p, t) \<Rightarrow> map_option (apfst (append p)) (unquote t)))"
  by pat_completeness auto
termination by (relation "measure length") (auto dest: string_piece_length)

declare unquote.simps [simp del]


section \<open>Strings read back\<close>

lemma hex_value_digit: "n < 16 \<Longrightarrow> hex_value (hex_digit n) = Some n"
  by (cases "n < 10") (auto simp: hex_value_def hex_digit_def is_digit_def ord_def take_bit_nat_eq_self)

lemma ord_less: "ord c < 256"
  by (simp add: ord_def)

lemma char_of_ord [simp]: "char_of (ord c) = c"
  by (simp add: ord_def)

lemma char_ofI: "ord c = n \<Longrightarrow> char_of n = c"
  by auto

lemma ascii_len:
  assumes "ord c < 0x80"
  shows "utf8_len (c # s) = 1"
  using assms by (simp add: utf8_len_def utf8_rows_def byte_at_def row_fits_def)

lemma unquote_piece:
  assumes "string_piece s = Some (p, t)" "s \<noteq> []" "hd s \<noteq> quote"
  shows "unquote s = map_option (apfst (append p)) (unquote t)"
  using assms by (subst unquote.simps) simp

lemma hex_escape_piece:
  assumes "a < 16" "b < 16" "c < 16" "d < 16" "((a * 16 + b) * 16 + c) * 16 + d < 0xD800"
  shows "string_piece (backslash # CHR ''u'' # hex_digit a # hex_digit b # hex_digit c # hex_digit d # s) =
    Some (encode_rune (((a * 16 + b) * 16 + c) * 16 + d), s)"
  using assms by (simp add: string_piece_def backslash_def ord_def unicode_escape_def hex4_def hex_value_digit)

lemma ascii_piece:
  assumes "ord c < 0x80"
  shows "string_piece (escape_ascii c @ s) = Some ([c], s) \<and> hd (escape_ascii c) \<noteq> quote \<and> escape_ascii c \<noteq> []"
proof -
  define short where "short \<longleftrightarrow> c = CHR 0x08 \<or> c = CHR 0x0C \<or> c = CHR 0x0A \<or> c = CHR 0x0D \<or> c = CHR 0x09"
  define html where "html \<longleftrightarrow> ord c < 0x20 \<or> c = CHR ''<'' \<or> c = CHR ''>'' \<or> c = CHR ''&''"
  consider "c = quote \<or> c = backslash" | "short" | "c \<noteq> quote" "c \<noteq> backslash" "\<not> short" "html"
    | "c \<noteq> quote" "c \<noteq> backslash" "\<not> short" "\<not> html" by blast
  then show ?thesis
  proof cases
    case 1
    then show ?thesis by (auto simp: escape_ascii_def string_piece_def simple_escape_def quote_def backslash_def ord_def)
  next
    case 2
    then show ?thesis
      by (auto simp: short_def escape_ascii_def string_piece_def simple_escape_def quote_def backslash_def ord_def)
  next
    case 3
    then have e: "escape_ascii c = [backslash, CHR ''u'', CHR ''0'', CHR ''0'', hex_digit (ord c div 16), hex_digit (ord c mod 16)]"
      by (simp add: escape_ascii_def short_def html_def)
    have h: "hex_digit 0 = CHR ''0''" by (simp add: hex_digit_def char_ofI ord_def)
    have "((0 * 16 + 0) * 16 + ord c div 16) * 16 + ord c mod 16 = ord c" by simp
    then have "string_piece (escape_ascii c @ s) = Some (encode_rune (ord c), s)"
      using hex_escape_piece [of 0 0 "ord c div 16" "ord c mod 16" s] assms by (simp add: e h)
    then show ?thesis using assms by (simp add: e encode_rune_def quote_def backslash_def)
  next
    case 4
    then have "escape_ascii c = [c]" by (simp add: escape_ascii_def short_def html_def)
    then show ?thesis using 4 ascii_len [OF assms] by (simp add: string_piece_def html_def)
  qed
qed

lemma separator_rune:
  assumes "separator_at s"
  shows "encode_rune (((2 * 16 + 0) * 16 + 2) * 16 + ord (s ! 2) mod 16) = take 3 s" "ord (s ! 2) mod 16 < 16" "utf8_len s = 3"
proof -
  obtain c t where s: "s = CHR 0xE2 # CHR 0x80 # c # t" and c: "c = CHR 0xA8 \<or> c = CHR 0xA9"
    using assms by (auto simp: separator_at_def split: list.splits)
  show "encode_rune (((2 * 16 + 0) * 16 + 2) * 16 + ord (s ! 2) mod 16) = take 3 s"
    using c by (auto simp: s ord_def encode_rune_def char_ofI)
  show "ord (s ! 2) mod 16 < 16" by simp
  show "utf8_len s = 3" using c by (auto simp: s utf8_len_def utf8_rows_def byte_at_def row_fits_def ord_def upt_rec)
qed

lemma char_piece:
  assumes "utf8_len s = n" "0 < n" "0x80 \<le> ord (hd s)"
  shows "string_piece (take n s @ r) = Some (take n s, r)" "hd (take n s @ r) \<noteq> quote" "take n s \<noteq> []"
proof -
  have n: "n \<le> length s" using utf8_len_le [of s] assms(1) by simp
  then obtain c t where s: "s = c # t" using assms(2) by (cases s) auto
  have c: "0x80 \<le> ord c" using assms(3) by (simp add: s)
  then have nc: "c \<noteq> quote" "c \<noteq> backslash" by (auto simp: ord_def quote_def backslash_def)
  have u: "utf8_len (take n s @ r) = n" using utf8_len_prefix [OF assms(1,2), of "take n s @ r"] n by simp
  show "string_piece (take n s @ r) = Some (take n s, r)"
    using u n assms(2) c nc unfolding s string_piece_def by (cases n) auto
  show "hd (take n s @ r) \<noteq> quote" "take n s \<noteq> []" using assms(2) nc by (cases n; simp add: s)+
qed

lemma unquote_escape: "valid_utf8 s \<Longrightarrow> unquote (escape s @ quote # r) = Some (s, r)"
proof (induction s rule: valid_utf8.induct)
  case (1 s)
  show ?case
  proof (cases "s = []")
    case True
    then show ?thesis by (simp add: escape.simps [of "[]"] unquote.simps [of "quote # r"])
  next
    case False
    let ?n = "utf8_len s"
    from False 1(2) have n: "?n \<noteq> 0" and v: "valid_utf8 (drop ?n s)" by (auto simp: valid_utf8.simps [of s] split: if_splits)
    have ih: "unquote (escape (drop ?n s) @ quote # r) = Some (drop ?n s, r)" using 1(1) [OF False n v] .
    have step: ?thesis if "escape s = e @ escape (drop ?n s)" "e \<noteq> []"
      "string_piece (e @ escape (drop ?n s) @ quote # r) = Some (take ?n s, escape (drop ?n s) @ quote # r)"
      "hd (e @ escape (drop ?n s) @ quote # r) \<noteq> quote" for e
      using unquote_piece [OF that(3)] that(1,2,4) ih by simp
    consider "ord (hd s) < 0x80" | "0x80 \<le> ord (hd s)" "separator_at s" | "0x80 \<le> ord (hd s)" "\<not> separator_at s" by linarith
    then show ?thesis
    proof cases
      case 1
      obtain c t where s: "s = c # t" using False by (cases s) auto
      then have n1: "?n = 1" using 1 ascii_len by simp
      show ?thesis by (rule step [of "escape_ascii c"]) (use ascii_piece [of c] 1 s n1 in \<open>simp_all add: escape.simps [of "c # t"]\<close>)
    next
      case 2
      note sep = separator_rune [OF 2(2)]
      have h: "hex_digit 2 = CHR ''2''" "hex_digit 0 = CHR ''0''" by (simp_all add: hex_digit_def char_ofI ord_def)
      show ?thesis
        by (rule step [of "backslash # ''u202'' @ [hex_digit (ord (s ! 2) mod 16)]"])
          (use hex_escape_piece [of 2 0 2 "ord (s ! 2) mod 16"] sep 2 False in
            \<open>simp_all add: escape.simps [of s] h quote_def backslash_def\<close>)
    next
      case 3
      show ?thesis
        by (rule step [of "take ?n s"]) (use char_piece [of s ?n] n 3 False in \<open>simp_all add: escape.simps [of s]\<close>)
    qed
  qed
qed


text \<open>No character of HTML is left in what is written, whatever the bytes.\<close>

definition html_free :: "string \<Rightarrow> bool" where
  "html_free s \<longleftrightarrow> set s \<inter> {CHR ''<'', CHR ''>'', CHR ''&''} = {}"

lemma html_free_simps [simp]:
  "html_free []" "html_free (c # s) \<longleftrightarrow> c \<notin> {CHR ''<'', CHR ''>'', CHR ''&''} \<and> html_free s"
  "html_free (s @ t) \<longleftrightarrow> html_free s \<and> html_free t"
  by (auto simp: html_free_def)

lemma html_free_high: "(\<And>c. c \<in> set s \<Longrightarrow> 0x80 \<le> ord c) \<Longrightarrow> html_free s"
  by (fastforce simp: html_free_def ord_def)

lemma hex_digit_html: "n < 16 \<Longrightarrow> hex_digit n \<notin> {CHR ''<'', CHR ''>'', CHR ''&''}"
proof -
  assume "n < 16"
  then have "ord (hex_digit n) = (if n < 10 then 48 + n else 87 + n)" by (simp add: hex_digit_def ord_def take_bit_nat_eq_self)
  then show ?thesis using \<open>n < 16\<close> by (auto simp: ord_def split: if_splits)
qed

lemma escape_ascii_html: "ord c < 0x80 \<Longrightarrow> html_free (escape_ascii c)"
  using hex_digit_html [of "ord c div 16"] hex_digit_html [of "ord c mod 16"]
  by (auto simp: escape_ascii_def backslash_def quote_def)

text \<open>The bytes of a character longer than one are no ASCII.\<close>

lemma utf8_bytes_high:
  assumes "utf8_len s = n" "0x80 \<le> ord (hd s)" "c \<in> set (take n s)"
  shows "0x80 \<le> ord c"
proof -
  have n: "0 < n" using assms(3) by (cases n) auto
  obtain w where w: "find (\<lambda>(lo, hi, _). byte_at lo hi s 0) utf8_rows = Some w" "row_fits s w" "fst (snd (snd w)) = n" "n \<le> length s"
    using assms(1) n by (rule utf8_lenE)
  obtain lo hi l2 h2 where wn: "w = (lo, hi, n, l2, h2)" using w(3) by (cases w) auto
  obtain k where k: "k < n" "c = s ! k" using assms(3) w(4) by (auto simp: in_set_conv_nth)
  have hd0: "hd s = s ! 0" using k w(4) by (cases s) auto
  have row: "w \<in> set utf8_rows" "byte_at lo hi s 0" using find_row_in [OF w(1)] wn by auto
  then have l2: "n = 1 \<or> 0x80 \<le> l2" by (auto simp: utf8_rows_def wn)
  consider "k = 0" | "k = 1" | "k \<in> set [2..<n]" using k(1) by fastforce
  then show ?thesis
  proof cases
    case 1
    then show ?thesis using assms(2) hd0 k(2) by simp
  next
    case 2
    then show ?thesis using w(2) l2 k by (auto simp: wn row_fits_def byte_at_def)
  next
    case 3
    then show ?thesis using w(2) k(2) by (simp add: wn row_fits_def list_all_iff byte_at_def)
  qed
qed

lemma escape_html_free: "html_free (escape s)"
proof (induction s rule: escape.induct)
  case (1 s)
  show ?case
  proof (cases "s = [] \<or> ord (hd s) < 0x80 \<or> utf8_len s = 0 \<or> separator_at s")
    case True
    then show ?thesis using 1 escape_ascii_html [of "hd s"] hex_digit_html [of "ord (s ! 2) mod 16"]
      by (subst escape.simps) (auto simp: backslash_def)
  next
    case False
    then have "html_free (take (utf8_len s) s)" using utf8_bytes_high [OF refl] by (intro html_free_high) force
    then show ?thesis using False 1(4) by (simp add: escape.simps [of s])
  qed
qed

section \<open>Values\<close>

text \<open>A number is kept as its literal.\<close>

datatype json = JNull | JBool bool | JNum string | JStr string | JArr "json list" | JObj "(string \<times> json) list"

text \<open>How a value is laid out: \<open>pad\<close> separates the elements at a depth, \<open>col\<close> a name and its value.
  Empty lists and objects stay together.\<close>

fun layout :: "(nat \<Rightarrow> string) \<Rightarrow> string \<Rightarrow> nat \<Rightarrow> json \<Rightarrow> string" where
  "layout pad col d (JArr vs) = (if vs = [] then ''[]'' else
     ''['' @ pad (Suc d) @ join ('','' @ pad (Suc d)) (map (layout pad col (Suc d)) vs) @ pad d @ '']'')"
| "layout pad col d (JObj ms) = (if ms = [] then ''{}'' else
     ''{'' @ pad (Suc d) @ join ('','' @ pad (Suc d)) (map (\<lambda>(k, v). json_string k @ col @ layout pad col (Suc d) v) ms) @ pad d @ ''}'')"
| "layout pad col d JNull = ''null''"
| "layout pad col d (JBool b) = (if b then ''true'' else ''false'')"
| "layout pad col d (JNum n) = n"
| "layout pad col d (JStr s) = json_string s"

text \<open>\<^verbatim>\<open>json.Marshal\<close> writes on one line; an encoder with \<^verbatim>\<open>SetIndent("", "  ")\<close> indents by two blanks
  a level and ends with a newline.\<close>

definition render :: "json \<Rightarrow> string" where
  "render = layout (\<lambda>_. []) '':'' 0"

definition newline_indent :: "nat \<Rightarrow> string" where
  "newline_indent d = CHR 0x0A # replicate (2 * d) CHR '' ''"

definition encode_indented :: "json \<Rightarrow> string" where
  "encode_indented v = layout newline_indent '': '' 0 v @ [CHR 0x0A]"

section \<open>Reading\<close>

definition json_space :: "char \<Rightarrow> bool" where
  "json_space c \<longleftrightarrow> c = CHR '' '' \<or> c = CHR 0x09 \<or> c = CHR 0x0A \<or> c = CHR 0x0D"

text \<open>The parts of a number: the whole part has no leading zero, a point and an exponent are
  followed by a digit.\<close>

definition whole_part :: "string \<Rightarrow> (string \<times> string) option" where
  "whole_part s = (case s of [] \<Rightarrow> None
     | c # t \<Rightarrow> if c = CHR ''0'' then Some ([c], t)
         else if is_digit c then Some (takeWhile is_digit s, dropWhile is_digit s) else None)"

definition some_digits :: "string \<Rightarrow> (string \<times> string) option" where
  "some_digits s = (if s = [] \<or> \<not> is_digit (hd s) then None else Some (takeWhile is_digit s, dropWhile is_digit s))"

definition frac_part :: "string \<Rightarrow> (string \<times> string) option" where
  "frac_part s = (case s of c # t \<Rightarrow> if c = CHR ''.'' then map_option (apfst (Cons c)) (some_digits t) else Some ([], s)
     | [] \<Rightarrow> Some ([], s))"

definition exp_part :: "string \<Rightarrow> (string \<times> string) option" where
  "exp_part s = (case s of
     c # t \<Rightarrow> if c = CHR ''e'' \<or> c = CHR ''E'' then
         (case t of d # u \<Rightarrow> if d = CHR ''+'' \<or> d = CHR ''-'' then map_option (apfst (\<lambda>x. c # d # x)) (some_digits u)
            else map_option (apfst (Cons c)) (some_digits t) | [] \<Rightarrow> None)
       else Some ([], s)
   | [] \<Rightarrow> Some ([], s))"

definition lex_number :: "string \<Rightarrow> (string \<times> string) option" where
  "lex_number s =
     (let (g, t) = (if s \<noteq> [] \<and> hd s = CHR ''-'' then ([hd s], tl s) else ([], s)) in
      case whole_part t of
        None \<Rightarrow> None
      | Some (a, u) \<Rightarrow> (case frac_part u of
          None \<Rightarrow> None
        | Some (b, v) \<Rightarrow> (case exp_part v of
            None \<Rightarrow> None
          | Some (e, w) \<Rightarrow> Some (g @ a @ b @ e, w))))"

datatype token = TOpen | TClose | TListOpen | TListClose | TComma | TColon | TValue json

definition keyword :: "string \<Rightarrow> token \<Rightarrow> string \<Rightarrow> (token \<times> string) option" where
  "keyword w k s = (if take (length w) s = w then Some (k, drop (length w) s) else None)"

definition lex_at :: "string \<Rightarrow> (token \<times> string) option" where
  "lex_at s = (case s of
     [] \<Rightarrow> None
   | c # t \<Rightarrow>
       if c = CHR ''{'' then Some (TOpen, t) else if c = CHR ''}'' then Some (TClose, t)
       else if c = CHR ''['' then Some (TListOpen, t) else if c = CHR '']'' then Some (TListClose, t)
       else if c = CHR '','' then Some (TComma, t) else if c = CHR '':'' then Some (TColon, t)
       else if c = quote then map_option (apfst (TValue \<circ> JStr)) (unquote t)
       else if c = CHR ''n'' then keyword ''null'' (TValue JNull) s
       else if c = CHR ''t'' then keyword ''true'' (TValue (JBool True)) s
       else if c = CHR ''f'' then keyword ''false'' (TValue (JBool False)) s
       else map_option (apfst (TValue \<circ> JNum)) (lex_number s))"

definition next_token :: "string \<Rightarrow> (token \<times> string) option" where
  "next_token s = lex_at (dropWhile json_space s)"

text \<open>What the scanner expects next, and the lists and objects that are open, innermost first. The
  member whose value is awaited is the one named last.\<close>

datatype expect = WantValue | WantFirst | WantFirstKey | WantKey | WantColon | WantMore

datatype open_value = OpenList "json list" | OpenObject "(string \<times> json) list" string

datatype scan_result = Finished json | Going expect "open_value list" | Malformed

definition maxNestingDepth :: nat where
  "maxNestingDepth = 10000"

fun put_value :: "json \<Rightarrow> open_value list \<Rightarrow> scan_result" where
  "put_value v [] = Finished v"
| "put_value v (OpenList vs # os) = Going WantMore (OpenList (vs @ [v]) # os)"
| "put_value v (OpenObject ms k # os) = Going WantMore (OpenObject (ms @ [(k, v)]) [] # os)"

definition push_open :: "expect \<Rightarrow> open_value \<Rightarrow> open_value list \<Rightarrow> scan_result" where
  "push_open w o1 os = (if Suc (length os) \<le> maxNestingDepth then Going w (o1 # os) else Malformed)"

fun value_step :: "token \<Rightarrow> open_value list \<Rightarrow> scan_result" where
  "value_step (TValue v) os = put_value v os"
| "value_step TListOpen os = push_open WantFirst (OpenList []) os"
| "value_step TOpen os = push_open WantFirstKey (OpenObject [] []) os"
| "value_step _ os = Malformed"

fun scan_step :: "expect \<Rightarrow> token \<Rightarrow> open_value list \<Rightarrow> scan_result" where
  "scan_step WantValue t os = value_step t os"
| "scan_step WantFirst t os = (case (t, os) of
     (TListClose, OpenList vs # os') \<Rightarrow> put_value (JArr vs) os'
   | _ \<Rightarrow> value_step t os)"
| "scan_step WantFirstKey t os = (case (t, os) of
     (TClose, OpenObject ms k # os') \<Rightarrow> put_value (JObj ms) os'
   | (TValue (JStr s), OpenObject ms k # os') \<Rightarrow> Going WantColon (OpenObject ms s # os')
   | _ \<Rightarrow> Malformed)"
| "scan_step WantKey t os = (case (t, os) of
     (TValue (JStr s), OpenObject ms k # os') \<Rightarrow> Going WantColon (OpenObject ms s # os')
   | _ \<Rightarrow> Malformed)"
| "scan_step WantColon t os = (case t of TColon \<Rightarrow> Going WantValue os | _ \<Rightarrow> Malformed)"
| "scan_step WantMore t os = (case (t, os) of
     (TComma, OpenList vs # os') \<Rightarrow> Going WantValue os
   | (TComma, OpenObject ms k # os') \<Rightarrow> Going WantKey os
   | (TListClose, OpenList vs # os') \<Rightarrow> put_value (JArr vs) os'
   | (TClose, OpenObject ms k # os') \<Rightarrow> put_value (JObj ms) os'
   | _ \<Rightarrow> Malformed)"


lemma some_digits_length: "some_digits s = Some (a, t) \<Longrightarrow> length t \<le> length s"
  by (auto simp: some_digits_def length_dropWhile_le split: if_splits)

lemma lex_number_length: "lex_number s = Some (n, t) \<Longrightarrow> length t < length s"
proof -
  assume n: "lex_number s = Some (n, t)"
  obtain g u where gu: "(if s \<noteq> [] \<and> hd s = CHR ''-'' then ([hd s], tl s) else ([], s)) = (g, u)" by fastforce
  then have u: "length u \<le> length s" by (auto split: if_splits)
  obtain a b v e where p: "whole_part u = Some (a, v)" "\<exists>v2. frac_part v = Some (b, v2) \<and> exp_part v2 = Some (e, t)"
    using n gu by (auto simp: lex_number_def Let_def split: option.splits prod.splits)
  then obtain v2 where v2: "frac_part v = Some (b, v2)" "exp_part v2 = Some (e, t)" by blast
  have "length v < length u" using p(1) le_less_trans [OF length_dropWhile_le]
    by (auto simp: whole_part_def split: list.splits if_splits)
  moreover have "length v2 \<le> length v" using v2(1)
    by (auto simp: frac_part_def split: list.splits if_splits dest: some_digits_length)
  moreover have "length t \<le> length v2" using v2(2)
    by (auto simp: exp_part_def split: list.splits if_splits dest: some_digits_length)
  ultimately show ?thesis using u by simp
qed

lemma unquote_length: "unquote s = Some (p, t) \<Longrightarrow> length t < length s"
proof (induction s arbitrary: p t rule: unquote.induct)
  case (1 s)
  show ?case
  proof (cases "s \<noteq> [] \<and> hd s = quote")
    case True
    then show ?thesis using 1(2) by (auto simp: unquote.simps [of s] neq_Nil_conv)
  next
    case False
    then obtain q u where q: "string_piece s = Some (q, u)" using 1(2) by (auto simp: unquote.simps [of s] split: option.splits)
    then obtain p' where "unquote u = Some (p', t)" using 1(2) False by (auto simp: unquote.simps [of s])
    then show ?thesis using 1(1) [OF False q refl] string_piece_length [OF q] by fastforce
  qed
qed

lemma keyword_length: "w \<noteq> [] \<Longrightarrow> keyword w k s = Some (x, t) \<Longrightarrow> length t < length s"
  by (cases s) (auto simp: keyword_def split: if_splits)

lemma lex_at_length: "lex_at s = Some (k, t) \<Longrightarrow> length t < length s"
  by (auto simp: lex_at_def split: list.splits if_splits dest: unquote_length lex_number_length keyword_length [rotated])

lemma next_token_length: "next_token s = Some (k, t) \<Longrightarrow> length t < length s"
  using lex_at_length length_dropWhile_le less_le_trans unfolding next_token_def by blast

text \<open>\<^verbatim>\<open>Decoder.Decode\<close> reads one value; what follows it is left in the stream.\<close>

function scan_from :: "expect \<Rightarrow> open_value list \<Rightarrow> string \<Rightarrow> (json \<times> string) option" where
  "scan_from w os s = (case next_token s of
     None \<Rightarrow> None
   | Some (t, s') \<Rightarrow> (case scan_step w t os of
       Finished v \<Rightarrow> Some (v, s')
     | Going w' os' \<Rightarrow> scan_from w' os' s'
     | Malformed \<Rightarrow> None))"
  by pat_completeness auto
termination by (relation "measure (\<lambda>(w, os, s). length s)") (auto dest: next_token_length)

declare scan_from.simps [simp del]

definition json_decode :: "string \<Rightarrow> json option" where
  "json_decode s = map_option fst (scan_from WantValue [] s)"


section \<open>What is written is read back\<close>

text \<open>A number literal that is read as such whatever delimiter follows it.\<close>

definition number_end :: "string \<Rightarrow> bool" where
  "number_end r \<longleftrightarrow> r = [] \<or> \<not> is_digit (hd r) \<and> hd r \<notin> {CHR ''.'', CHR ''e'', CHR ''E''}"

definition good_number :: "string \<Rightarrow> bool" where
  "good_number n \<longleftrightarrow> n \<noteq> [] \<and> (is_digit (hd n) \<or> hd n = CHR ''-'') \<and> (\<forall>r. number_end r \<longrightarrow> lex_number (n @ r) = Some (n, r))"

fun json_ok :: "json \<Rightarrow> bool" where
  "json_ok (JArr vs) = list_all json_ok vs"
| "json_ok (JObj ms) = list_all (\<lambda>(k, v). valid_utf8 k \<and> json_ok v) ms"
| "json_ok (JNum n) = good_number n"
| "json_ok (JStr s) = valid_utf8 s"
| "json_ok _ = True"

fun nesting :: "json \<Rightarrow> nat" where
  "nesting (JArr vs) = Suc (fold max (map nesting vs) 0)"
| "nesting (JObj ms) = Suc (fold max (map (nesting \<circ> snd) ms) 0)"
| "nesting _ = 0"

lemma fold_max_le: "fold max xs a \<le> (n::nat) \<longleftrightarrow> a \<le> n \<and> list_all (\<lambda>x. x \<le> n) xs"
  by (induction xs arbitrary: a) auto

definition blank :: "string \<Rightarrow> bool" where
  "blank s \<longleftrightarrow> list_all json_space s"

lemma next_token_blank: "blank p \<Longrightarrow> next_token (p @ s) = next_token s"
  by (induction p) (simp_all add: next_token_def blank_def)

lemma next_token_at: "s \<noteq> [] \<Longrightarrow> \<not> json_space (hd s) \<Longrightarrow> next_token s = lex_at s"
  by (cases s) (simp_all add: next_token_def)

lemma punctuation_token:
  "next_token (CHR ''{'' # s) = Some (TOpen, s)" "next_token (CHR ''}'' # s) = Some (TClose, s)"
  "next_token (CHR ''['' # s) = Some (TListOpen, s)" "next_token (CHR '']'' # s) = Some (TListClose, s)"
  "next_token (CHR '','' # s) = Some (TComma, s)" "next_token (CHR '':'' # s) = Some (TColon, s)"
  by (simp_all add: next_token_at json_space_def lex_at_def)

lemma keyword_token:
  "next_token (CHR ''n'' # CHR ''u'' # CHR ''l'' # CHR ''l'' # s) = Some (TValue JNull, s)"
  "next_token (CHR ''t'' # CHR ''r'' # CHR ''u'' # CHR ''e'' # s) = Some (TValue (JBool True), s)"
  "next_token (CHR ''f'' # CHR ''a'' # CHR ''l'' # CHR ''s'' # CHR ''e'' # s) = Some (TValue (JBool False), s)"
  by (simp_all add: next_token_at json_space_def lex_at_def keyword_def quote_def)

lemma string_token:
  assumes "valid_utf8 k"
  shows "next_token (json_string k @ s) = Some (TValue (JStr k), s)"
  using unquote_escape [OF assms, of s]
  by (simp add: json_string_def next_token_at json_space_def lex_at_def quote_def)

lemma number_token:
  assumes "good_number n" "number_end r"
  shows "next_token (n @ r) = Some (TValue (JNum n), r)"
proof -
  obtain c m where n: "n = c # m" using assms(1) by (cases n) (auto simp: good_number_def)
  have c: "is_digit c \<or> c = CHR ''-''" using assms(1) by (simp add: good_number_def n)
  then have "\<not> json_space c" "c \<notin> {CHR ''{'', CHR ''}'', CHR ''['', CHR '']'', CHR '','', CHR '':'', quote, CHR ''n'', CHR ''t'', CHR ''f''}"
    by (auto simp: json_space_def is_digit_def quote_def)
  then show ?thesis using assms by (simp add: n next_token_at lex_at_def good_number_def)
qed

definition resume :: "scan_result \<Rightarrow> string \<Rightarrow> (json \<times> string) option" where
  "resume res s = (case res of Finished v \<Rightarrow> Some (v, s) | Going w os \<Rightarrow> scan_from w os s | Malformed \<Rightarrow> None)"

lemma resume_simps [simp]:
  "resume (Finished v) s = Some (v, s)" "resume (Going w os) s = scan_from w os s" "resume Malformed s = None"
  by (simp_all add: resume_def)

lemma scan_token: "next_token s = Some (t, s') \<Longrightarrow> scan_from w os s = resume (scan_step w t os) s'"
  by (simp add: scan_from.simps [of w os s] resume_def split: scan_result.split)

lemma join_Cons: "join (c # p) (x # xs) = x @ concat (map (\<lambda>y. c # p @ y) xs)"
  by (induction xs arbitrary: x) simp_all

lemma nesting_room:
  "n + Suc (fold max xs 0) \<le> m \<Longrightarrow> Suc n \<le> m \<and> list_all (\<lambda>x. Suc n + x \<le> (m::nat)) xs"
proof -
  assume a: "n + Suc (fold max xs 0) \<le> m"
  then have "fold max xs 0 \<le> m - Suc n" by simp
  then have "list_all (\<lambda>x. x \<le> m - Suc n) xs" by (simp only: fold_max_le)
  then show ?thesis using a by (auto simp: list_all_iff)
qed

locale layout_style =
  fixes pad :: "nat \<Rightarrow> string" and col :: string
  assumes pad_blank: "blank (pad d)"
    and col_colon: "\<exists>p. col = CHR '':'' # p \<and> blank p"
begin

lemma pad_end: "number_end (pad d @ CHR ''}'' # r)" "number_end (pad d @ CHR '']'' # r)"
  using pad_blank [of d] by (cases "pad d"; auto simp: number_end_def blank_def json_space_def is_digit_def)+

text \<open>The scanner at a value that is laid out: it goes on as if the value had been put in place.\<close>

definition reads :: "json \<Rightarrow> bool" where
  "reads v \<longleftrightarrow> (\<forall>w d os r. w \<in> {WantValue, WantFirst} \<longrightarrow> number_end r \<longrightarrow> length os + nesting v \<le> maxNestingDepth \<longrightarrow>
     scan_from w os (layout pad col d v @ r) = resume (put_value v os) r)"

lemma readsD:
  assumes "reads v" "w \<in> {WantValue, WantFirst}" "number_end r" "length os + nesting v \<le> maxNestingDepth"
  shows "scan_from w os (layout pad col d v @ r) = resume (put_value v os) r"
  using assms unfolding reads_def by blast

lemma scan_blank: "scan_from w os (pad d @ s) = scan_from w os s"
  by (simp add: scan_from.simps [of w os] next_token_blank pad_blank)

lemma scan_more_elements:
  assumes "list_all reads vs" "list_all (\<lambda>v. Suc (length os) + nesting v \<le> maxNestingDepth) vs"
  shows "scan_from WantMore (OpenList us # os) (concat (map (\<lambda>v. CHR '','' # pad e @ layout pad col e v) vs) @ pad d @ CHR '']'' # r) =
    resume (put_value (JArr (us @ vs)) os) r"
  using assms
proof (induction vs arbitrary: us)
  case Nil
  then show ?case by (simp add: scan_blank scan_token [OF punctuation_token(4)])
next
  case (Cons v vs)
  let ?rest = "concat (map (\<lambda>v. CHR '','' # pad e @ layout pad col e v) vs) @ pad d @ CHR '']'' # r"
  have "number_end ?rest" using pad_end(2) by (cases vs) (simp_all add: number_end_def is_digit_def)
  then have "scan_from WantValue (OpenList us # os) (layout pad col e v @ ?rest) = scan_from WantMore (OpenList (us @ [v]) # os) ?rest"
    using readsD [of v WantValue ?rest "OpenList us # os" e] Cons.prems by simp
  then show ?case using Cons.IH [of "us @ [v]"] Cons.prems by (simp add: scan_token [OF punctuation_token(5)] scan_blank)
qed

lemma scan_list:
  assumes "list_all reads vs" "length os + nesting (JArr vs) \<le> maxNestingDepth" "w \<in> {WantValue, WantFirst}"
  shows "scan_from w os (layout pad col d (JArr vs) @ r) = resume (put_value (JArr vs) os) r"
proof -
  have deep: "Suc (length os) \<le> maxNestingDepth" "list_all (\<lambda>v. Suc (length os) + nesting v \<le> maxNestingDepth) vs"
    using nesting_room [of "length os" "map nesting vs" maxNestingDepth] assms(2) by (simp_all add: list_all_iff)
  have open_list: "scan_from w os (CHR ''['' # s) = scan_from WantFirst (OpenList [] # os) s" for s
    using assms(3) deep(1) by (auto simp: scan_token [OF punctuation_token(3)] push_open_def)
  show ?thesis
  proof (cases vs)
    case Nil
    then show ?thesis by (simp add: open_list scan_token [OF punctuation_token(4)])
  next
    case (Cons v us)
    let ?rest = "concat (map (\<lambda>v. CHR '','' # pad (Suc d) @ layout pad col (Suc d) v) us) @ pad d @ CHR '']'' # r"
    have "number_end ?rest" using pad_end(2) by (cases us) (simp_all add: number_end_def is_digit_def)
    then have "scan_from WantFirst (OpenList [] # os) (layout pad col (Suc d) v @ ?rest) = scan_from WantMore (OpenList [v] # os) ?rest"
      using readsD [of v WantFirst ?rest "OpenList [] # os" "Suc d"] Cons assms(1) deep(2) by simp
    then show ?thesis using scan_more_elements [of us os "[v]" "Suc d" d r] Cons assms(1) deep(2)
      by (simp add: open_list scan_blank join_Cons comp_def)
  qed
qed

lemma scan_member:
  assumes "valid_utf8 k" "reads v" "Suc (length os) + nesting v \<le> maxNestingDepth" "number_end r" "w \<in> {WantKey, WantFirstKey}"
  shows "scan_from w (OpenObject ms j # os) (json_string k @ col @ layout pad col e v @ r) =
    scan_from WantMore (OpenObject (ms @ [(k, v)]) [] # os) r"
proof -
  obtain p where p: "col = CHR '':'' # p" "blank p" using col_colon by blast
  have colon: "scan_from WantColon os' (col @ s) = scan_from WantValue os' s" for os' s
    using p by (simp add: scan_token [OF punctuation_token(6)] scan_from.simps [of WantValue] next_token_blank)
  show ?thesis using readsD [OF assms(2), of WantValue r "OpenObject ms k # os" e] assms(3-5)
    by (auto simp: scan_token [OF string_token [OF assms(1)]] colon)
qed

lemma scan_more_members:
  assumes "list_all (\<lambda>(k, v). valid_utf8 k \<and> reads v) ms" "list_all (\<lambda>(k, v). Suc (length os) + nesting v \<le> maxNestingDepth) ms"
  shows "scan_from WantMore (OpenObject ns [] # os)
      (concat (map (\<lambda>(k, v). CHR '','' # pad e @ json_string k @ col @ layout pad col e v) ms) @ pad d @ CHR ''}'' # r) =
    resume (put_value (JObj (ns @ ms)) os) r"
  using assms
proof (induction ms arbitrary: ns)
  case Nil
  then show ?case by (simp add: scan_blank scan_token [OF punctuation_token(2)])
next
  case (Cons m ms)
  obtain k v where m: "m = (k, v)" by (cases m)
  let ?rest = "concat (map (\<lambda>(k, v). CHR '','' # pad e @ json_string k @ col @ layout pad col e v) ms) @ pad d @ CHR ''}'' # r"
  have "number_end ?rest" using pad_end(1) by (cases ms) (auto simp: number_end_def is_digit_def split: prod.split)
  then show ?case using Cons.IH [of "ns @ [(k, v)]"] Cons.prems scan_member [of k v os ?rest WantKey ns "[]" e]
    by (simp add: m scan_token [OF punctuation_token(5)] scan_blank)
qed

lemma scan_object:
  assumes "list_all (\<lambda>(k, v). valid_utf8 k \<and> reads v) ms" "length os + nesting (JObj ms) \<le> maxNestingDepth" "w \<in> {WantValue, WantFirst}"
  shows "scan_from w os (layout pad col d (JObj ms) @ r) = resume (put_value (JObj ms) os) r"
proof -
  have deep: "Suc (length os) \<le> maxNestingDepth" "list_all (\<lambda>(k, v). Suc (length os) + nesting v \<le> maxNestingDepth) ms"
    using nesting_room [of "length os" "map (nesting \<circ> snd) ms" maxNestingDepth] assms(2) by (auto simp: list_all_iff)
  have open_object: "scan_from w os (CHR ''{'' # s) = scan_from WantFirstKey (OpenObject [] [] # os) s" for s
    using assms(3) deep(1) by (auto simp: scan_token [OF punctuation_token(1)] push_open_def)
  show ?thesis
  proof (cases ms)
    case Nil
    then show ?thesis by (simp add: open_object scan_token [OF punctuation_token(2)])
  next
    case (Cons m us)
    obtain k v where m: "m = (k, v)" by (cases m)
    let ?rest = "concat (map (\<lambda>(k, v). CHR '','' # pad (Suc d) @ json_string k @ col @ layout pad col (Suc d) v) us) @ pad d @ CHR ''}'' # r"
    have "number_end ?rest" using pad_end(1) by (cases us) (auto simp: number_end_def is_digit_def split: prod.split)
    then show ?thesis using scan_member [of k v os ?rest WantFirstKey "[]" "[]" "Suc d"] assms(1) deep(2)
      scan_more_members [of us os "[(k, v)]" "Suc d" d r] Cons
      by (simp add: m open_object scan_blank join_Cons comp_def case_prod_unfold)
  qed
qed

lemma all_read: "json_ok v \<Longrightarrow> reads v"
proof (induction v)
  case (JArr vs)
  then show ?case using scan_list [of vs] by (auto simp: reads_def list_all_iff)
next
  case (JObj ms)
  then show ?case using scan_object [of ms] by (fastforce simp: reads_def list_all_iff)
next
  case (JNum n)
  then show ?case by (auto simp: reads_def scan_token [OF number_token])
next
  case (JStr s)
  then show ?case by (auto simp: reads_def scan_token [OF string_token])
qed (auto simp: reads_def scan_token [OF keyword_token(1)] scan_token [OF keyword_token(2)] scan_token [OF keyword_token(3)])

theorem decode_layout:
  assumes "json_ok v" "nesting v \<le> maxNestingDepth" "number_end r"
  shows "scan_from WantValue [] (layout pad col d v @ r) = Some (v, r)"
  using readsD [OF all_read [OF assms(1)], of WantValue r "[]" d] assms(2,3) by simp

end

interpretation compact: layout_style "\<lambda>_. []" "'':''"
  by unfold_locales (simp_all add: blank_def)

interpretation indenting: layout_style newline_indent "'': ''"
  by unfold_locales (auto simp: blank_def newline_indent_def json_space_def list_all_iff)

lemma decode_render: "json_ok v \<Longrightarrow> nesting v \<le> maxNestingDepth \<Longrightarrow> json_decode (render v) = Some v"
  using compact.decode_layout [of v "[]" 0] by (simp add: json_decode_def render_def number_end_def)

lemma decode_indented: "json_ok v \<Longrightarrow> nesting v \<le> maxNestingDepth \<Longrightarrow> json_decode (encode_indented v @ r) = Some v"
  using indenting.decode_layout [of v "CHR 0x0A # r" 0] by (simp add: json_decode_def encode_indented_def number_end_def is_digit_def)


section \<open>Numbers\<close>

text \<open>Floats are written without exponent between \<open>10\<^sup>-\<^sup>6\<close> and \<open>10\<^sup>2\<^sup>1\<close>, otherwise with one that has no
  leading zero; infinities and NaN are an error.\<close>

definition json_float :: "f64 \<Rightarrow> json option" where
  "json_float v = (case v of
     Fin x \<Rightarrow> Some (JNum (sign_of x @
       (if x \<noteq> 0 \<and> (\<bar>x\<bar> < 1 / 10 ^ 6 \<or> 10 ^ 21 \<le> \<bar>x\<bar>) then form_exp digits (decimal x) else form_f (decimal x))))
   | _ \<Rightarrow> None)"

definition json_int :: "int \<Rightarrow> json" where
  "json_int n = JNum (itoa n)"

text \<open>Reading a number into a \<^verbatim>\<open>float64\<close>, an \<^verbatim>\<open>int64\<close> and a \<^verbatim>\<open>uint64\<close>: \<open>None\<close> is an error, as for a
  float out of range, a point, an exponent or an integer out of range.\<close>

definition float_of_literal :: "string \<Rightarrow> f64 option" where
  "float_of_literal n = (case fround (num_value n) of Fin x \<Rightarrow> Some (Fin x) | _ \<Rightarrow> None)"

definition int_literal :: "string \<Rightarrow> int option" where
  "int_literal n = (let (g, t) = read_sign n in
     if t \<noteq> [] \<and> list_all is_digit t then Some (g * int (number t)) else None)"

definition int64_of_literal :: "string \<Rightarrow> int64 option" where
  "int64_of_literal n = (case int_literal n of Some k \<Rightarrow> if in64 k then Some k else None | None \<Rightarrow> None)"

definition uint64_of_literal :: "string \<Rightarrow> uint64 option" where
  "uint64_of_literal n =
     (if n \<noteq> [] \<and> list_all is_digit n \<and> number n < 2 ^ 64 then Some (of_nat (number n)) else None)"

text \<open>The literals that are written are good.\<close>

definition exponent_text :: "string \<Rightarrow> bool" where
  "exponent_text x \<longleftrightarrow> x = [] \<or> (\<exists>g ds. x = CHR ''e'' # g # ds \<and> (g = CHR ''+'' \<or> g = CHR ''-'') \<and> list_all is_digit ds \<and> ds \<noteq> [])"

lemma number_end_stop: "number_end r \<Longrightarrow> r = [] \<or> \<not> is_digit (hd r)"
  by (auto simp: number_end_def)

lemma some_digits_append:
  "list_all is_digit ds \<Longrightarrow> ds \<noteq> [] \<Longrightarrow> r = [] \<or> \<not> is_digit (hd r) \<Longrightarrow> some_digits (ds @ r) = Some (ds, r)"
  using digits_span [of ds r] by (cases ds) (auto simp: some_digits_def)

lemma whole_part_append:
  assumes "list_all is_digit a" "a \<noteq> []" "hd a = CHR ''0'' \<longrightarrow> tl a = []" "r = [] \<or> \<not> is_digit (hd r)"
  shows "whole_part (a @ r) = Some (a, r)"
  using assms digits_span [of a r] by (cases a) (auto simp: whole_part_def)

lemma frac_part_append:
  assumes "list_all is_digit b" "r = [] \<or> \<not> is_digit (hd r) \<and> hd r \<noteq> CHR ''.''"
  shows "frac_part ((if b = [] then [] else CHR ''.'' # b) @ r) = Some (if b = [] then [] else CHR ''.'' # b, r)"
proof (cases "b = []")
  case True
  then show ?thesis using assms(2) by (cases r) (auto simp: frac_part_def)
next
  case False
  have "r = [] \<or> \<not> is_digit (hd r)" using assms(2) by auto
  from some_digits_append [OF assms(1) False this] show ?thesis using False by (simp add: frac_part_def)
qed

lemma exp_part_append:
  assumes "exponent_text x" "number_end r"
  shows "exp_part (x @ r) = Some (x, r)"
proof (cases "x = []")
  case True
  then show ?thesis using assms(2) by (cases r) (auto simp: exp_part_def number_end_def)
next
  case False
  then obtain g ds where "x = CHR ''e'' # g # ds" "g = CHR ''+'' \<or> g = CHR ''-''" "list_all is_digit ds" "ds \<noteq> []"
    using assms(1) by (auto simp: exponent_text_def)
  then show ?thesis using some_digits_append [of ds r] number_end_stop [OF assms(2)] by (auto simp: exp_part_def)
qed

lemma good_number_parts:
  assumes "point_parts a b" "exponent_text x" "g = [] \<or> g = ''-''"
  shows "good_number (g @ point_text a b @ x)"
proof -
  have a: "list_all is_digit a" "a \<noteq> []" "hd a = CHR ''0'' \<longrightarrow> tl a = []" "list_all is_digit b"
    using assms(1) by (simp_all add: point_parts_def)
  then have hd: "is_digit (hd a)" by (cases a) auto
  have "lex_number ((g @ point_text a b @ x) @ r) = Some (g @ point_text a b @ x, r)" if r: "number_end r" for r
  proof -
    let ?b = "if b = [] then [] else CHR ''.'' # b"
    have xr: "x @ r = [] \<or> \<not> is_digit (hd (x @ r)) \<and> hd (x @ r) \<noteq> CHR ''.''"
      using assms(2) r by (auto simp: exponent_text_def number_end_def is_digit_def)
    then have bxr: "?b @ x @ r = [] \<or> \<not> is_digit (hd (?b @ x @ r))" by (auto simp: is_digit_def)
    have sgn: "(if (g @ a @ s) \<noteq> [] \<and> hd (g @ a @ s) = CHR ''-'' then ([hd (g @ a @ s)], tl (g @ a @ s)) else ([], g @ a @ s)) = (g, a @ s)" for s
      using assms(3) a(2) hd by (cases a) auto
    show ?thesis
      using whole_part_append [OF a(1-3) bxr] frac_part_append [OF a(4) xr] exp_part_append [OF assms(2) r] sgn [of "?b @ x @ r"]
      by (simp add: lex_number_def point_text_def)
  qed
  moreover have "is_digit (hd (g @ point_text a b @ x)) \<or> hd (g @ point_text a b @ x) = CHR ''-''"
    using assms(3) a(2) hd by (cases a) (auto simp: point_text_def)
  ultimately show ?thesis using a(2) by (auto simp: good_number_def point_text_def)
qed

lemma good_digits: "point_parts (digits n) []"
proof -
  have "tl (digits 0) = []" by (subst digits.simps) simp
  then show ?thesis using digits_all [of n] digits_lead [of n] by (cases "n = 0"; simp add: point_parts_def)
qed

lemma good_itoa: "good_number (itoa n)"
proof -
  have "good_number (g @ point_text (digits k) [] @ [])" if "g = [] \<or> g = ''-''" for g k
    by (rule good_number_parts [OF good_digits _ that]) (simp add: exponent_text_def)
  from this [of "[]"] this [of "''-''"] show ?thesis by (auto simp: itoa_def point_text_def)
qed

lemma good_float:
  assumes "representable x" "json_float (Fin x) = Some j"
  shows "\<exists>n. j = JNum n \<and> good_number n \<and> float_of_literal n = Some (Fin x)"
proof -
  obtain m e where d: "decimal x = (m, e)" by (cases "decimal x")
  obtain s where s: "j = JNum (sign_of x @ s)" "s = form_exp digits (m, e) \<or> s = form_f (m, e)"
    using assms(2) d by (auto simp: json_float_def)
  have g: "sign_of x = [] \<or> sign_of x = ''-''" by (simp add: sign_of_def)
  have "good_number (sign_of x @ s)"
  proof (cases "s = form_f (m, e)")
    case True
    then show ?thesis using form_f_parts [OF decimal_positive [OF assms(1) d]] good_number_parts [OF _ _ g, of _ _ "[]"]
      by (auto simp: exponent_text_def)
  next
    case False
    have p: "point_parts [hd (digits m)] (tl (digits m))" using digits_tl [of m] by (simp add: point_parts_def)
    have e: "exponent_text (exp_text digits k)" for k using digits_all by (auto simp: exponent_text_def exp_text_def)
    have "s = point_text [hd (digits m)] (tl (digits m)) @ exp_text digits (e + int (length (digits m)) - 1)"
      using False s(2) by (simp add: form_exp_parts point_text_def)
    then show ?thesis using good_number_parts [OF p e g] by simp
  qed
  moreover have "float_of_literal (sign_of x @ s) = Some (Fin x)"
    using float_text_roundtrip [OF assms(1), of digits s] s(2) d by (simp add: float_of_literal_def)
  ultimately show ?thesis using s(1) by blast
qed

lemma int64_itoa: "in64 n \<Longrightarrow> int64_of_literal (itoa n) = Some n"
proof -
  assume n: "in64 n"
  have "read_sign (digits k) = (1, digits k)" for k using read_sign_digits [of "digits k" "[]"] digits_all by simp
  moreover have "read_sign (''-'' @ digits k) = (- 1, digits k)" for k by (simp add: read_sign_def)
  ultimately have "int_literal (itoa n) = Some n"
    using digits_all by (simp add: int_literal_def itoa_def number_digits)
  then show ?thesis using n by (simp add: int64_of_literal_def)
qed

lemma uint64_itoa: "uint64_of_literal (itoa (uint w)) = Some (w :: uint64)"
proof -
  have "unat w < 2 ^ 64" using unsigned_less [of w, where 'a = nat] by simp
  then show ?thesis using digits_all by (simp add: uint64_of_literal_def itoa_def number_digits not_less)
qed

end
