(* ===== verification/JsonStruct.thy ===== *)
theory JsonStruct
  imports GoJson
begin

text \<open>
  How \<^verbatim>\<open>encoding/json\<close> writes and reads a Go struct by its tags. A struct is a table of fields, each
  with its name, what \<^verbatim>\<open>omitempty\<close> leaves out, and how its value is written and read; writing and
  reading go through the table as the library's reflection does. The lemmas show that reading
  undoes writing for a struct whose fields do so.
\<close>

section \<open>Names\<close>

text \<open>A member is matched to the field of its name, else to the one whose name folds to the same
  letters. Besides the ASCII letters, the long s and the Kelvin sign fold to ASCII.\<close>

definition upper :: "char \<Rightarrow> char" where
  "upper c = (if 97 \<le> ord c \<and> ord c \<le> 122 then char_of (ord c - 32) else c)"

fun fold_name :: "string \<Rightarrow> string" where
  "fold_name (c # d # e # s) =
     (if c = CHR 0xC5 \<and> d = CHR 0xBF then CHR ''S'' # fold_name (e # s)
      else if c = CHR 0xE2 \<and> d = CHR 0x84 \<and> e = CHR 0xAA then CHR ''K'' # fold_name s
      else upper c # fold_name (d # e # s))"
| "fold_name [c, d] = (if c = CHR 0xC5 \<and> d = CHR 0xBF then ''S'' else [upper c, upper d])"
| "fold_name [c] = [upper c]"
| "fold_name [] = []"

definition find_field :: "(string \<times> 'b) list \<Rightarrow> string \<Rightarrow> 'b option" where
  "find_field fs k = (case map_of fs k of
     Some f \<Rightarrow> Some f
   | None \<Rightarrow> map_of (map (apfst fold_name) fs) (fold_name k))"

section \<open>Values of the basic types\<close>

text \<open>\<^verbatim>\<open>null\<close> leaves a value as it is; a value of the wrong type is an error, \<open>None\<close>.\<close>

definition read_string :: "json \<Rightarrow> string \<Rightarrow> string option" where
  "read_string v old = (case v of JNull \<Rightarrow> Some old | JStr s \<Rightarrow> Some s | _ \<Rightarrow> None)"

definition read_bool :: "json \<Rightarrow> bool \<Rightarrow> bool option" where
  "read_bool v old = (case v of JNull \<Rightarrow> Some old | JBool b \<Rightarrow> Some b | _ \<Rightarrow> None)"

definition read_float :: "json \<Rightarrow> f64 \<Rightarrow> f64 option" where
  "read_float v old = (case v of JNull \<Rightarrow> Some old | JNum n \<Rightarrow> float_of_literal n | _ \<Rightarrow> None)"

definition read_int :: "json \<Rightarrow> int64 \<Rightarrow> int64 option" where
  "read_int v old = (case v of JNull \<Rightarrow> Some old | JNum n \<Rightarrow> int64_of_literal n | _ \<Rightarrow> None)"

definition read_uint :: "json \<Rightarrow> uint64 \<Rightarrow> uint64 option" where
  "read_uint v old = (case v of JNull \<Rightarrow> Some old | JNum n \<Rightarrow> uint64_of_literal n | _ \<Rightarrow> None)"

text \<open>A list is read element by element over what it held; a pointer is read into what it points to,
  or into a fresh zero value. A list that is read into three times, shrinking and growing again,
  would show stale elements in Go, which the model does not keep.\<close>

fun read_elements :: "(json \<Rightarrow> 'a \<Rightarrow> 'a option) \<Rightarrow> 'a \<Rightarrow> json list \<Rightarrow> 'a list \<Rightarrow> 'a list option" where
  "read_elements rd zero [] olds = Some []"
| "read_elements rd zero (v # vs) olds =
     (case rd v (case olds of [] \<Rightarrow> zero | x # _ \<Rightarrow> x) of
        None \<Rightarrow> None
      | Some x \<Rightarrow> map_option (Cons x) (read_elements rd zero vs (drop 1 olds)))"

definition read_list :: "(json \<Rightarrow> 'a \<Rightarrow> 'a option) \<Rightarrow> 'a \<Rightarrow> json \<Rightarrow> 'a list \<Rightarrow> 'a list option" where
  "read_list rd zero v olds = (case v of JNull \<Rightarrow> Some [] | JArr vs \<Rightarrow> read_elements rd zero vs olds | _ \<Rightarrow> None)"

definition read_pointer :: "(json \<Rightarrow> 'a \<Rightarrow> 'a option) \<Rightarrow> 'a \<Rightarrow> json \<Rightarrow> 'a option \<Rightarrow> 'a option option" where
  "read_pointer rd zero v old = (case v of JNull \<Rightarrow> Some None
     | _ \<Rightarrow> map_option Some (rd v (case old of None \<Rightarrow> zero | Some x \<Rightarrow> x)))"

text \<open>Writing a list: the elements in turn, an error if one has none. An empty list is \<^verbatim>\<open>null\<close> when it is
  the nil slice and \<^verbatim>\<open>[]\<close> when it is not, which \<open>nil\<close> says.\<close>

fun write_elements :: "('a \<Rightarrow> json option) \<Rightarrow> 'a list \<Rightarrow> json list option" where
  "write_elements wr [] = Some []"
| "write_elements wr (x # xs) = (case (wr x, write_elements wr xs) of (Some v, Some vs) \<Rightarrow> Some (v # vs) | _ \<Rightarrow> None)"

definition write_list :: "bool \<Rightarrow> ('a \<Rightarrow> json option) \<Rightarrow> 'a list \<Rightarrow> json option" where
  "write_list nil wr xs = (if nil \<and> xs = [] then Some JNull else map_option JArr (write_elements wr xs))"

section \<open>Structs\<close>

record 'a field =
  fd_empty :: "'a \<Rightarrow> bool"
  fd_write :: "'a \<Rightarrow> json option"
  fd_read :: "json \<Rightarrow> 'a \<Rightarrow> 'a option"

type_synonym 'a fields = "(string \<times> 'a field) list"

fun write_members :: "'a fields \<Rightarrow> 'a \<Rightarrow> (string \<times> json) list option" where
  "write_members [] x = Some []"
| "write_members ((k, f) # fs) x =
     (if fd_empty f x then write_members fs x
      else (case (fd_write f x, write_members fs x) of (Some v, Some ms) \<Rightarrow> Some ((k, v) # ms) | _ \<Rightarrow> None))"

definition write_struct :: "'a fields \<Rightarrow> 'a \<Rightarrow> json option" where
  "write_struct fs x = map_option JObj (write_members fs x)"

text \<open>A member without a field is skipped, or an error for a decoder that disallows unknown fields.\<close>

fun read_members :: "bool \<Rightarrow> 'a fields \<Rightarrow> (string \<times> json) list \<Rightarrow> 'a \<Rightarrow> 'a option" where
  "read_members strict fs [] x = Some x"
| "read_members strict fs ((k, v) # ms) x =
     (case find_field fs k of
        None \<Rightarrow> if strict then None else read_members strict fs ms x
      | Some f \<Rightarrow> (case fd_read f v x of None \<Rightarrow> None | Some x' \<Rightarrow> read_members strict fs ms x'))"

definition read_struct :: "bool \<Rightarrow> 'a fields \<Rightarrow> json \<Rightarrow> 'a \<Rightarrow> 'a option" where
  "read_struct strict fs v x = (case v of JNull \<Rightarrow> Some x | JObj ms \<Rightarrow> read_members strict fs ms x | _ \<Rightarrow> None)"

text \<open>A field of the struct, by how the values of its type are written and read.\<close>

definition mk_field :: "('b \<Rightarrow> bool) \<Rightarrow> ('b \<Rightarrow> json option) \<Rightarrow> (json \<Rightarrow> 'b \<Rightarrow> 'b option) \<Rightarrow> ('a \<Rightarrow> 'b) \<Rightarrow> (('b \<Rightarrow> 'b) \<Rightarrow> 'a \<Rightarrow> 'a) \<Rightarrow> 'a field" where
  "mk_field em wr rd get upd = \<lparr>fd_empty = \<lambda>x. em (get x), fd_write = \<lambda>x. wr (get x),
     fd_read = \<lambda>v x. map_option (\<lambda>b. upd (\<lambda>_. b) x) (rd v (get x))\<rparr>"

text \<open>What \<^verbatim>\<open>omitempty\<close> leaves out: false, 0, the nil pointer, the empty string and list; \<open>keep\<close> is a field
  without it.\<close>

definition keep :: "'b \<Rightarrow> bool" where
  "keep b \<longleftrightarrow> False"

definition string_field :: "(string \<Rightarrow> bool) \<Rightarrow> ('a \<Rightarrow> string) \<Rightarrow> ((string \<Rightarrow> string) \<Rightarrow> 'a \<Rightarrow> 'a) \<Rightarrow> 'a field" where
  "string_field em = mk_field em (\<lambda>s. Some (JStr s)) read_string"

definition bool_field :: "(bool \<Rightarrow> bool) \<Rightarrow> ('a \<Rightarrow> bool) \<Rightarrow> ((bool \<Rightarrow> bool) \<Rightarrow> 'a \<Rightarrow> 'a) \<Rightarrow> 'a field" where
  "bool_field em = mk_field em (\<lambda>b. Some (JBool b)) read_bool"

definition float_field :: "(f64 \<Rightarrow> bool) \<Rightarrow> ('a \<Rightarrow> f64) \<Rightarrow> ((f64 \<Rightarrow> f64) \<Rightarrow> 'a \<Rightarrow> 'a) \<Rightarrow> 'a field" where
  "float_field em = mk_field em json_float read_float"

definition int_field :: "(int64 \<Rightarrow> bool) \<Rightarrow> ('a \<Rightarrow> int64) \<Rightarrow> ((int64 \<Rightarrow> int64) \<Rightarrow> 'a \<Rightarrow> 'a) \<Rightarrow> 'a field" where
  "int_field em = mk_field em (\<lambda>n. Some (json_int n)) read_int"

definition pointer_field :: "('b \<Rightarrow> json option) \<Rightarrow> (json \<Rightarrow> 'b \<Rightarrow> 'b option) \<Rightarrow> 'b \<Rightarrow> ('a \<Rightarrow> 'b option) \<Rightarrow>
    (('b option \<Rightarrow> 'b option) \<Rightarrow> 'a \<Rightarrow> 'a) \<Rightarrow> 'a field" where
  "pointer_field wr rd zero = mk_field (\<lambda>p. p = None) (\<lambda>p. wr (the p)) (read_pointer rd zero)"

definition list_field :: "bool \<Rightarrow> ('b list \<Rightarrow> bool) \<Rightarrow> ('b \<Rightarrow> json option) \<Rightarrow> (json \<Rightarrow> 'b \<Rightarrow> 'b option) \<Rightarrow> 'b \<Rightarrow> ('a \<Rightarrow> 'b list) \<Rightarrow>
    (('b list \<Rightarrow> 'b list) \<Rightarrow> 'a \<Rightarrow> 'a) \<Rightarrow> 'a field" where
  "list_field nil em wr rd zero = mk_field em (write_list nil wr) (read_list rd zero)"

section \<open>Reading undoes writing\<close>

text \<open>\<open>codes n wr rd zero x\<close>: the value \<open>x\<close> is written as a value of depth at most \<open>n\<close> that is not
  \<^verbatim>\<open>null\<close>, and read back from it.\<close>

definition codes :: "nat \<Rightarrow> ('a \<Rightarrow> json option) \<Rightarrow> (json \<Rightarrow> 'a \<Rightarrow> 'a option) \<Rightarrow> 'a \<Rightarrow> 'a \<Rightarrow> bool" where
  "codes n wr rd zero x \<longleftrightarrow> (\<exists>v. wr x = Some v \<and> v \<noteq> JNull \<and> json_ok v \<and> nesting v \<le> n \<and> rd v zero = Some x)"

lemma codes_mono: "codes m wr rd zero x \<Longrightarrow> m \<le> n \<Longrightarrow> codes n wr rd zero x"
  by (fastforce simp: codes_def)

lemma codes_string: "valid_utf8 s \<Longrightarrow> codes 0 (\<lambda>s. Some (JStr s)) read_string zero s"
  by (simp add: codes_def read_string_def)

lemma codes_bool: "codes 0 (\<lambda>b. Some (JBool b)) read_bool zero b"
  by (simp add: codes_def read_bool_def)

lemma codes_float: "representable x \<Longrightarrow> codes 0 json_float read_float zero (Fin x)"
proof -
  assume r: "representable x"
  obtain j where j: "json_float (Fin x) = Some j" by (simp add: json_float_def)
  then show ?thesis using good_float [OF r j] by (auto simp: codes_def read_float_def)
qed

lemma codes_int: "in64 n \<Longrightarrow> codes 0 (\<lambda>n. Some (json_int n)) read_int zero n"
  by (simp add: codes_def json_int_def read_int_def int64_itoa good_itoa)

lemma codes_uint: "codes 0 (\<lambda>w. Some (json_int (uint w))) read_uint zero w"
  by (simp add: codes_def json_int_def read_uint_def uint64_itoa good_itoa)

text \<open>A list may be written as \<^verbatim>\<open>null\<close>, which is read as the empty list.\<close>

definition list_codes :: "nat \<Rightarrow> bool \<Rightarrow> ('a \<Rightarrow> json option) \<Rightarrow> (json \<Rightarrow> 'a \<Rightarrow> 'a option) \<Rightarrow> 'a \<Rightarrow> 'a list \<Rightarrow> bool" where
  "list_codes n nil wr rd zero xs \<longleftrightarrow>
     (\<exists>v. write_list nil wr xs = Some v \<and> json_ok v \<and> nesting v \<le> n \<and> read_list rd zero v [] = Some xs)"

lemma codes_list:
  assumes "list_all (codes n wr rd zero) xs"
  shows "list_codes (Suc n) nil wr rd zero xs"
proof -
  have "\<exists>vs. write_elements wr xs = Some vs \<and> list_all json_ok vs \<and> list_all (\<lambda>v. nesting v \<le> n) vs \<and>
      read_elements rd zero vs [] = Some xs"
    using assms
  proof (induction xs)
    case (Cons x xs)
    then obtain v vs where "wr x = Some v" "json_ok v" "nesting v \<le> n" "rd v zero = Some x"
      "write_elements wr xs = Some vs" "list_all json_ok vs" "list_all (\<lambda>v. nesting v \<le> n) vs" "read_elements rd zero vs [] = Some xs"
      by (auto simp: codes_def)
    then show ?case by (intro exI [of _ "v # vs"]) simp
  qed simp
  then obtain vs where vs: "write_elements wr xs = Some vs" "list_all json_ok vs" "list_all (\<lambda>v. nesting v \<le> n) vs"
    "read_elements rd zero vs [] = Some xs" by blast
  then have "fold max (map nesting vs) 0 \<le> n" by (simp add: fold_max_le list_all_iff)
  then show ?thesis using vs by (auto simp: list_codes_def write_list_def read_list_def)
qed

text \<open>One field: after it has been written and read, or left out, the value has this field.\<close>

definition carries :: "nat \<Rightarrow> 'a field \<Rightarrow> 'a \<Rightarrow> 'a \<Rightarrow> 'a \<Rightarrow> bool" where
  "carries n f x y y' \<longleftrightarrow>
     (if fd_empty f x then y' = y
      else \<exists>v. fd_write f x = Some v \<and> json_ok v \<and> nesting v \<le> n \<and> fd_read f v y = Some y')"

fun carries_all :: "nat \<Rightarrow> 'a fields \<Rightarrow> 'a \<Rightarrow> 'a \<Rightarrow> 'a \<Rightarrow> bool" where
  "carries_all n [] x y y' = (y' = y)"
| "carries_all n ((k, f) # fs) x y y' = (\<exists>z. carries n f x y z \<and> carries_all n fs x z y')"

lemma find_field_member: "distinct (map fst fs) \<Longrightarrow> (k, f) \<in> set fs \<Longrightarrow> find_field fs k = Some f"
  by (simp add: find_field_def)

lemma write_read_members:
  assumes "carries_all n fs x y y'" "set fs \<subseteq> set all" "distinct (map fst all)" "list_all (valid_utf8 \<circ> fst) fs"
  shows "\<exists>ms. write_members fs x = Some ms \<and> list_all (\<lambda>(k, v). valid_utf8 k \<and> json_ok v) ms \<and>
    list_all (\<lambda>(k, v). nesting v \<le> n) ms \<and> read_members strict all ms y = Some y'"
  using assms
proof (induction fs arbitrary: y)
  case (Cons kf fs)
  obtain k f where kf: "kf = (k, f)" by (cases kf)
  obtain z where z: "carries n f x y z" "carries_all n fs x z y'" using Cons.prems(1) kf by auto
  have "set fs \<subseteq> set all" "list_all (valid_utf8 \<circ> fst) fs" "valid_utf8 k" "find_field all k = Some f"
    using Cons.prems kf find_field_member [of all k f] by (auto simp: list_all_iff)
  then obtain ms where "write_members fs x = Some ms" "list_all (\<lambda>(k, v). valid_utf8 k \<and> json_ok v) ms"
    "list_all (\<lambda>(k, v). nesting v \<le> n) ms" "read_members strict all ms z = Some y'" "valid_utf8 k" "find_field all k = Some f"
    using Cons.IH [OF z(2)] Cons.prems(3) by blast
  then show ?case using z(1) by (auto simp: kf carries_def split: if_splits)
qed simp

lemma codes_struct:
  assumes "carries_all n fs x zero x" "distinct (map fst fs)" "list_all (valid_utf8 \<circ> fst) fs"
  shows "codes (Suc n) (write_struct fs) (read_struct strict fs) zero x"
proof -
  obtain ms where ms: "write_members fs x = Some ms" "list_all (\<lambda>(k, v). valid_utf8 k \<and> json_ok v) ms"
    "list_all (\<lambda>(k, v). nesting v \<le> n) ms" "read_members strict fs ms zero = Some x"
    using write_read_members [OF assms(1) subset_refl assms(2,3)] by blast
  have "fold max (map (nesting \<circ> snd) ms) 0 \<le> n" using ms(3) by (auto simp: fold_max_le list_all_iff)
  then show ?thesis using ms by (auto simp: codes_def write_struct_def read_struct_def)
qed


text \<open>The fields by their types. \<open>y\<close> is the value read so far, whose field is still zero.\<close>

lemma carries_mk_field:
  assumes "em (get x) \<Longrightarrow> upd (\<lambda>_. get x) y = y" "\<not> em (get x) \<Longrightarrow> codes n wr rd (get y) (get x)"
  shows "carries n (mk_field em wr rd get upd) x y (upd (\<lambda>_. get x) y)"
  using assms by (fastforce simp: carries_def mk_field_def codes_def)

lemma carries_string:
  assumes "valid_utf8 (get x)" "em (get x) \<Longrightarrow> upd (\<lambda>_. get x) y = y"
  shows "carries n (string_field em get upd) x y (upd (\<lambda>_. get x) y)"
  unfolding string_field_def using assms codes_mono [OF codes_string] by (intro carries_mk_field) simp_all

lemma carries_bool:
  assumes "em (get x) \<Longrightarrow> upd (\<lambda>_. get x) y = y"
  shows "carries n (bool_field em get upd) x y (upd (\<lambda>_. get x) y)"
  unfolding bool_field_def using assms codes_mono [OF codes_bool] by (intro carries_mk_field) simp_all

text \<open>A float that a scenario can hold: a double.\<close>

definition double :: "f64 \<Rightarrow> bool" where
  "double v \<longleftrightarrow> (case v of Fin x \<Rightarrow> representable x | _ \<Rightarrow> False)"

lemma carries_float:
  assumes "double (get x)" "em (get x) \<Longrightarrow> upd (\<lambda>_. get x) y = y"
  shows "carries n (float_field em get upd) x y (upd (\<lambda>_. get x) y)"
proof -
  obtain r where r: "get x = Fin r" "representable r" using assms(1) by (auto simp: double_def split: f64.splits)
  have "codes n json_float read_float (get y) (get x)" using codes_mono [OF codes_float [OF r(2)]] r(1) by simp
  then show ?thesis unfolding float_field_def using assms(2) by (intro carries_mk_field) simp_all
qed

lemma carries_int:
  assumes "in64 (get x)" "em (get x) \<Longrightarrow> upd (\<lambda>_. get x) y = y"
  shows "carries n (int_field em get upd) x y (upd (\<lambda>_. get x) y)"
  unfolding int_field_def using assms codes_mono [OF codes_int] by (intro carries_mk_field) simp_all

lemma carries_pointer:
  assumes "\<And>b. get x = Some b \<Longrightarrow> codes n wr rd zero b" "get y = None" "upd (\<lambda>_. None) y = y"
  shows "carries n (pointer_field wr rd zero get upd) x y (upd (\<lambda>_. get x) y)"
proof (cases "get x")
  case None
  then show ?thesis using assms(3) by (simp add: carries_def pointer_field_def mk_field_def)
next
  case (Some b)
  obtain v where v: "wr b = Some v" "v \<noteq> JNull" "json_ok v" "nesting v \<le> n" "rd v zero = Some b"
    using assms(1) [OF Some] by (auto simp: codes_def)
  then have "read_pointer rd zero v None = Some (Some b)" by (cases v) (simp_all add: read_pointer_def)
  then show ?thesis using v Some assms(2) by (simp add: carries_def pointer_field_def mk_field_def)
qed

lemma carries_list:
  assumes "list_codes n nil wr rd zero (get x)" "em (get x) \<Longrightarrow> get x = []" "get y = []" "upd (\<lambda>_. []) y = y"
  shows "carries n (list_field nil em wr rd zero get upd) x y (upd (\<lambda>_. get x) y)"
  using assms by (auto simp: carries_def list_field_def mk_field_def list_codes_def)

text \<open>A table, field by field.\<close>

lemma carries_all_field: "carries n f x y z \<Longrightarrow> carries_all n fs x z y' \<Longrightarrow> carries_all n ((k, f) # fs) x y y'"
  by auto

lemma carries_all_done: "y' = y \<Longrightarrow> carries_all n [] x y y'"
  by simp

lemmas carries_table =
  carries_all_done carries_all_field [OF carries_string] carries_all_field [OF carries_bool] carries_all_field [OF carries_float]
  carries_all_field [OF carries_int] carries_all_field [OF carries_pointer] carries_all_field [OF carries_list]

section \<open>A value saved and loaded\<close>

text \<open>A type that is written by \<open>wr\<close> and read over \<open>zero\<close>: the contract of \<^verbatim>\<open>Save\<close> and \<^verbatim>\<open>Load\<close>.\<close>

definition save_json :: "('a \<Rightarrow> json option) \<Rightarrow> 'a \<Rightarrow> string option" where
  "save_json wr x = map_option encode_indented (wr x)"

definition load_json :: "(json \<Rightarrow> 'a \<Rightarrow> 'a option) \<Rightarrow> 'a \<Rightarrow> string \<Rightarrow> 'a option" where
  "load_json rd zero s = Option.bind (json_decode s) (\<lambda>v. rd v zero)"

locale json_codec =
  fixes wr :: "'a \<Rightarrow> json option" and rd :: "json \<Rightarrow> 'a \<Rightarrow> 'a option" and zero :: 'a and ok :: "'a \<Rightarrow> bool" and depth :: nat
  assumes codes_ok: "ok x \<Longrightarrow> codes depth wr rd zero x"
    and shallow: "depth \<le> maxNestingDepth"
begin

theorem load_save: "ok x \<Longrightarrow> \<exists>s. save_json wr x = Some s \<and> load_json rd zero (s @ r) = Some x"
proof -
  assume "ok x"
  then obtain v where v: "wr x = Some v" "json_ok v" "nesting v \<le> depth" "rd v zero = Some x"
    using codes_ok by (auto simp: codes_def)
  have "json_decode (encode_indented v @ r) = Some v" using decode_indented v(2,3) shallow by simp
  then show ?thesis using v by (simp add: save_json_def load_json_def)
qed

theorem save_inj: "ok x \<Longrightarrow> ok y \<Longrightarrow> save_json wr x = save_json wr y \<Longrightarrow> x = y"
  using load_save [of x "[]"] load_save [of y "[]"] by auto

end

end
