(* ===== verification/JsonFiles.thy ===== *)
theory JsonFiles
  imports Scenario Cli JsonStruct
begin

text \<open>
  The JSON files of the program: \<^verbatim>\<open>Load\<close> and \<^verbatim>\<open>Save\<close> of scenarios (\<^verbatim>\<open>scenario/scenario.go\<close>) and
  profiles (\<^verbatim>\<open>internal/profile/profile.go\<close>), and the decoding of a trace manifest
  (\<^verbatim>\<open>internal/profile/manifest.go\<close>), each struct as the table of its fields and tags. The lemmas
  show that every scenario and profile whose strings are UTF-8, floats doubles and integers in
  range is saved, and that loading what was saved gives it back.
\<close>

section \<open>Scenarios\<close>

abbreviation (input) empty_float :: "f64 \<Rightarrow> bool" where
  "empty_float v \<equiv> v = Fin 0"

abbreviation (input) empty_list :: "'a list \<Rightarrow> bool" where
  "empty_list xs \<equiv> xs = []"

definition loss_fields :: "f64 fields" where
  "loss_fields = [(''p'', float_field keep (\<lambda>p. p) (\<lambda>f. f))]"

definition ge_fields :: "ge_params fields" where
  "ge_fields =
     [(''p'', float_field keep gp_P gp_P_update), (''r'', float_field keep gp_R gp_R_update),
      (''h'', float_field empty_float gp_H gp_H_update), (''k'', float_field empty_float gp_K gp_K_update)]"

definition delay_fields :: "delay_params fields" where
  "delay_fields =
     [(''baseMs'', float_field keep dp_BaseMs dp_BaseMs_update), (''jitterMs'', float_field empty_float dp_JitterMs dp_JitterMs_update),
      (''sigmaMs'', float_field empty_float dp_SigmaMs dp_SigmaMs_update),
      (''distribution'', string_field empty_list dp_Distribution dp_Distribution_update),
      (''correlation'', float_field empty_float dp_Correlation dp_Correlation_update)]"

definition reorder_fields :: "reorder_params fields" where
  "reorder_fields =
     [(''reorderPct'', float_field keep rdp_ReorderPct rdp_ReorderPct_update), (''gapMs'', float_field empty_float rdp_GapMs rdp_GapMs_update),
      (''correlation'', float_field empty_float rdp_Correlation rdp_Correlation_update),
      (''dupPct'', float_field empty_float rdp_DupPct rdp_DupPct_update)]"

definition corrupt_fields :: "f64 fields" where
  "corrupt_fields = [(''pct'', float_field keep (\<lambda>p. p) (\<lambda>f. f))]"

definition rate_fields :: "rate_params fields" where
  "rate_fields =
     [(''rateMbps'', float_field keep rmp_RateMbps rmp_RateMbps_update),
      (''queueBytes'', int_field (\<lambda>n. n = 0) rmp_QueueBytes rmp_QueueBytes_update)]"

definition droplist_fields :: "bool \<Rightarrow> uint64 list fields" where
  "droplist_fields nil = [(''seqs'', list_field nil keep (\<lambda>w. Some (json_int (uint w))) read_uint 0 (\<lambda>l. l) (\<lambda>f. f))]"

definition blackhole_fields :: "blackhole_params fields" where
  "blackhole_fields =
     [(''startMs'', float_field keep bp_StartMs bp_StartMs_update), (''endMs'', float_field keep bp_EndMs bp_EndMs_update)]"

text \<open>The zero values.\<close>

definition zero_ge :: ge_params where
  "zero_ge = \<lparr>gp_P = Fin 0, gp_R = Fin 0, gp_H = Fin 0, gp_K = Fin 0\<rparr>"

definition zero_delay :: delay_params where
  "zero_delay = \<lparr>dp_BaseMs = Fin 0, dp_JitterMs = Fin 0, dp_SigmaMs = Fin 0, dp_Distribution = [], dp_Correlation = Fin 0\<rparr>"

definition zero_reorder :: reorder_params where
  "zero_reorder = \<lparr>rdp_ReorderPct = Fin 0, rdp_GapMs = Fin 0, rdp_Correlation = Fin 0, rdp_DupPct = Fin 0\<rparr>"

definition zero_rate :: rate_params where
  "zero_rate = \<lparr>rmp_RateMbps = Fin 0, rmp_QueueBytes = 0\<rparr>"

definition zero_blackhole :: blackhole_params where
  "zero_blackhole = \<lparr>bp_StartMs = Fin 0, bp_EndMs = Fin 0\<rparr>"

definition zero_scenario :: scenario where
  "zero_scenario = \<lparr>sc_Name = [], sc_Seed = 0, sc_Pipeline = [], sc_C2S = [], sc_S2C = [], sc_Encrypted = False\<rparr>"

text \<open>A pointer to a struct that is given by its table.\<close>

definition struct_field :: "'b fields \<Rightarrow> 'b \<Rightarrow> ('a \<Rightarrow> 'b option) \<Rightarrow> (('b option \<Rightarrow> 'b option) \<Rightarrow> 'a \<Rightarrow> 'a) \<Rightarrow> 'a field" where
  "struct_field fs = pointer_field (write_struct fs) (read_struct False fs)"

definition stage_fields :: "bool \<Rightarrow> stage fields" where
  "stage_fields nil =
     [(''loss'', struct_field loss_fields (Fin 0) st_Loss st_Loss_update),
      (''ge'', struct_field ge_fields zero_ge st_GE st_GE_update),
      (''delay'', struct_field delay_fields zero_delay st_Delay st_Delay_update),
      (''reorder'', struct_field reorder_fields zero_reorder st_Reorder st_Reorder_update),
      (''corrupt'', struct_field corrupt_fields (Fin 0) st_Corrupt st_Corrupt_update),
      (''ratelimit'', struct_field rate_fields zero_rate st_RateLimit st_RateLimit_update),
      (''droplist'', struct_field (droplist_fields nil) [] st_DropList st_DropList_update),
      (''blackhole'', struct_field blackhole_fields zero_blackhole st_Blackhole st_Blackhole_update)]"

definition stages_field :: "bool \<Rightarrow> (scenario \<Rightarrow> stage list) \<Rightarrow> ((stage list \<Rightarrow> stage list) \<Rightarrow> scenario \<Rightarrow> scenario) \<Rightarrow> scenario field" where
  "stages_field nil = list_field nil empty_list (write_struct (stage_fields nil)) (read_struct False (stage_fields nil)) no_stage"

definition scenario_fields :: "bool \<Rightarrow> scenario fields" where
  "scenario_fields nil =
     [(''name'', string_field empty_list sc_Name sc_Name_update), (''seed'', int_field keep sc_Seed sc_Seed_update),
      (''pipeline'', stages_field nil sc_Pipeline sc_Pipeline_update), (''c2s'', stages_field nil sc_C2S sc_C2S_update),
      (''s2c'', stages_field nil sc_S2C sc_S2C_update), (''encrypted'', bool_field Not sc_Encrypted sc_Encrypted_update)]"

text \<open>\<open>nil\<close> says whether an empty list of sequence numbers is the nil slice.\<close>

definition scenario_Save :: "bool \<Rightarrow> scenario \<Rightarrow> string option" where
  "scenario_Save nil = save_json (write_struct (scenario_fields nil))"

definition scenario_Load :: "string \<Rightarrow> scenario option" where
  "scenario_Load = load_json (read_struct False (scenario_fields False)) zero_scenario"

section \<open>Scenarios read back\<close>

definition ge_ok :: "ge_params \<Rightarrow> bool" where
  "ge_ok g \<longleftrightarrow> list_all double [gp_P g, gp_R g, gp_H g, gp_K g]"

definition delay_ok :: "delay_params \<Rightarrow> bool" where
  "delay_ok d \<longleftrightarrow> list_all double [dp_BaseMs d, dp_JitterMs d, dp_SigmaMs d, dp_Correlation d] \<and> valid_utf8 (dp_Distribution d)"

definition reorder_ok :: "reorder_params \<Rightarrow> bool" where
  "reorder_ok r \<longleftrightarrow> list_all double [rdp_ReorderPct r, rdp_GapMs r, rdp_Correlation r, rdp_DupPct r]"

definition rate_ok :: "rate_params \<Rightarrow> bool" where
  "rate_ok r \<longleftrightarrow> double (rmp_RateMbps r) \<and> in64 (rmp_QueueBytes r)"

definition blackhole_ok :: "blackhole_params \<Rightarrow> bool" where
  "blackhole_ok b \<longleftrightarrow> double (bp_StartMs b) \<and> double (bp_EndMs b)"

definition stage_ok :: "stage \<Rightarrow> bool" where
  "stage_ok s \<longleftrightarrow> pred_option double (st_Loss s) \<and> pred_option ge_ok (st_GE s) \<and> pred_option delay_ok (st_Delay s) \<and>
     pred_option reorder_ok (st_Reorder s) \<and> pred_option double (st_Corrupt s) \<and> pred_option rate_ok (st_RateLimit s) \<and>
     pred_option blackhole_ok (st_Blackhole s)"

definition scenario_ok :: "scenario \<Rightarrow> bool" where
  "scenario_ok s \<longleftrightarrow> valid_utf8 (sc_Name s) \<and> in64 (sc_Seed s) \<and> list_all stage_ok (sc_Pipeline s) \<and>
     list_all stage_ok (sc_C2S s) \<and> list_all stage_ok (sc_S2C s)"

lemma ascii_utf8: "list_all (\<lambda>c. ord c < 0x80) s \<Longrightarrow> valid_utf8 s"
proof (induction s)
  case (Cons c s)
  then show ?case using ascii_len [of c s] by (simp add: valid_utf8.simps [of "c # s"])
qed (simp add: valid_utf8.simps [of "[]"])

lemma codes_loss: "double x \<Longrightarrow> codes 1 (write_struct loss_fields) (read_struct b loss_fields) (Fin 0) x"
  unfolding One_nat_def loss_fields_def
  by (rule codes_struct, rule carries_all_field [OF carries_float [of "\<lambda>p. p" _ _ "\<lambda>f. f"]]) (simp_all add: keep_def ascii_utf8 ord_def)

lemma codes_corrupt: "double x \<Longrightarrow> codes 1 (write_struct corrupt_fields) (read_struct b corrupt_fields) (Fin 0) x"
  unfolding One_nat_def corrupt_fields_def
  by (rule codes_struct, rule carries_all_field [OF carries_float [of "\<lambda>p. p" _ _ "\<lambda>f. f"]]) (simp_all add: keep_def ascii_utf8 ord_def)

lemma codes_ge: "ge_ok g \<Longrightarrow> codes 1 (write_struct ge_fields) (read_struct b ge_fields) zero_ge g"
  unfolding One_nat_def ge_fields_def
  by (rule codes_struct; (cases g; intro carries_table)?; simp add: ge_ok_def zero_ge_def keep_def ascii_utf8 ord_def)

lemma codes_delay: "delay_ok d \<Longrightarrow> codes 1 (write_struct delay_fields) (read_struct b delay_fields) zero_delay d"
  unfolding One_nat_def delay_fields_def
  by (rule codes_struct; (cases d; intro carries_table)?; simp add: delay_ok_def zero_delay_def keep_def ascii_utf8 ord_def)

lemma codes_reorder: "reorder_ok r \<Longrightarrow> codes 1 (write_struct reorder_fields) (read_struct b reorder_fields) zero_reorder r"
  unfolding One_nat_def reorder_fields_def
  by (rule codes_struct; (cases r; intro carries_table)?; simp add: reorder_ok_def zero_reorder_def keep_def ascii_utf8 ord_def)

lemma codes_rate: "rate_ok r \<Longrightarrow> codes 1 (write_struct rate_fields) (read_struct b rate_fields) zero_rate r"
  unfolding One_nat_def rate_fields_def
  by (rule codes_struct; (cases r; intro carries_table)?; simp add: rate_ok_def zero_rate_def keep_def ascii_utf8 ord_def)

lemma codes_blackhole: "blackhole_ok x \<Longrightarrow> codes 1 (write_struct blackhole_fields) (read_struct b blackhole_fields) zero_blackhole x"
  unfolding One_nat_def blackhole_fields_def
  by (rule codes_struct; (cases x; intro carries_table)?; simp add: blackhole_ok_def zero_blackhole_def keep_def ascii_utf8 ord_def)

lemma codes_droplist: "codes 2 (write_struct (droplist_fields nil)) (read_struct b (droplist_fields nil)) [] xs"
proof -
  have "list_all (codes 0 (\<lambda>w. Some (json_int (uint w))) read_uint 0) xs" using codes_uint by (simp add: list_all_iff)
  then have l: "list_codes (Suc 0) nil (\<lambda>w. Some (json_int (uint w))) read_uint 0 xs" by (rule codes_list)
  have "carries_all (Suc 0) (droplist_fields nil) xs [] xs"
    unfolding droplist_fields_def
    by (rule carries_all_field [OF carries_list [of _ _ _ _ _ "\<lambda>l. l" _ _ _ "\<lambda>f. f"]]) (simp_all add: l keep_def)
  then show ?thesis unfolding numeral_2_eq_2 by (rule codes_struct) (simp_all add: droplist_fields_def ascii_utf8 ord_def)
qed

text \<open>The names of the tables are distinct and ASCII.\<close>

lemma stage_names: "distinct (map fst (stage_fields nil)) \<and> list_all (valid_utf8 \<circ> fst) (stage_fields nil)"
  by (simp add: stage_fields_def ascii_utf8 ord_def)

lemma scenario_names: "distinct (map fst (scenario_fields nil)) \<and> list_all (valid_utf8 \<circ> fst) (scenario_fields nil)"
  by (simp add: scenario_fields_def ascii_utf8 ord_def)

lemma codes_stage: "stage_ok s \<Longrightarrow> codes 3 (write_struct (stage_fields nil)) (read_struct False (stage_fields nil)) no_stage s"
proof -
  assume s: "stage_ok s"
  have "carries_all 2 (stage_fields nil) s no_stage s"
    unfolding stage_fields_def struct_field_def
    by (cases s; intro carries_table)
      (use s in \<open>auto simp: stage_ok_def no_stage_def codes_droplist intro: codes_mono [OF codes_loss] codes_mono [OF codes_ge]
        codes_mono [OF codes_delay] codes_mono [OF codes_reorder] codes_mono [OF codes_corrupt] codes_mono [OF codes_rate]
        codes_mono [OF codes_blackhole]\<close>)
  moreover have "(3::nat) = Suc 2" by simp
  ultimately show ?thesis by (metis (lifting) codes_struct stage_names)
qed

lemma codes_scenario:
  "scenario_ok s \<Longrightarrow> codes 5 (write_struct (scenario_fields nil)) (read_struct False (scenario_fields nil)) zero_scenario s"
proof -
  assume s: "scenario_ok s"
  have l: "list_codes 4 nil (write_struct (stage_fields nil)) (read_struct False (stage_fields nil)) no_stage xs" if "list_all stage_ok xs" for xs
  proof -
    have "list_all (codes 3 (write_struct (stage_fields nil)) (read_struct False (stage_fields nil)) no_stage) xs"
      using that codes_stage by (auto simp: list_all_iff)
    from codes_list [OF this] show ?thesis by simp
  qed
  have "carries_all 4 (scenario_fields nil) s zero_scenario s"
    unfolding scenario_fields_def stages_field_def
    by (cases s; intro carries_table) (use s l in \<open>auto simp: scenario_ok_def zero_scenario_def keep_def\<close>)
  moreover have "(5::nat) = Suc 4" by simp
  ultimately show ?thesis by (metis (lifting) codes_struct scenario_names)
qed

text \<open>Reading does not depend on how empty lists were written.\<close>

lemma read_struct_cong:
  assumes "list_all2 (\<lambda>(k, f) (k', f'). k = k' \<and> fd_read f = fd_read f') fs gs"
  shows "read_struct b fs = read_struct b gs"
proof -
  have same: "rel_option (\<lambda>f f'. fd_read f = fd_read f') (map_of (map (apfst g) fs) k) (map_of (map (apfst g) gs) k)" for g k
    using assms by (induction rule: list_all2_induct) auto
  have rel: "rel_option (\<lambda>f f'. fd_read f = fd_read f') (find_field fs k) (find_field gs k)" for k
    using same [of id k] same [of fold_name "fold_name k"] by (auto simp: find_field_def split: option.split)
  have "read_members b fs ms x = read_members b gs ms x" for ms x
  proof (induction ms arbitrary: x)
    case (Cons m ms)
    obtain k v where m: "m = (k, v)" by (cases m)
    show ?case using Cons.IH rel [of k] by (cases "find_field fs k"; cases "find_field gs k") (auto simp: m split: option.split)
  qed simp
  then show ?thesis by (intro ext) (simp add: read_struct_def split: json.split)
qed

lemma read_scenario_nil: "read_struct b (scenario_fields nil) = read_struct b (scenario_fields nil')"
proof -
  have d: "read_struct c (droplist_fields nil) = read_struct c (droplist_fields nil')" for c
    by (rule read_struct_cong) (simp add: droplist_fields_def list_field_def mk_field_def)
  have t: "read_struct c (stage_fields nil) = read_struct c (stage_fields nil')" for c
    by (rule read_struct_cong) (simp add: stage_fields_def struct_field_def pointer_field_def mk_field_def d)
  show ?thesis
    by (rule read_struct_cong) (simp add: scenario_fields_def stages_field_def list_field_def mk_field_def t)
qed

interpretation scenario_codec: json_codec "write_struct (scenario_fields nil)" "read_struct False (scenario_fields False)" zero_scenario scenario_ok 5
  for nil
proof
  show "scenario_ok s \<Longrightarrow> codes 5 (write_struct (scenario_fields nil)) (read_struct False (scenario_fields False)) zero_scenario s" for s
    using codes_scenario [of s nil] read_scenario_nil [of False nil False] by simp
qed (simp add: maxNestingDepth_def)

lemma scenario_Load_Save: "scenario_ok s \<Longrightarrow> \<exists>t. scenario_Save nil s = Some t \<and> scenario_Load (t @ r) = Some s"
  unfolding scenario_Save_def scenario_Load_def by (rule scenario_codec.load_save)

section \<open>Profiles\<close>

definition profile_fields :: "profile fields" where
  "profile_fields =
     [(''name'', string_field keep po_Name po_Name_update),
      (''description'', string_field keep po_Description po_Description_update),
      (''grade'', int_field keep po_Grade po_Grade_update),
      (''cite'', string_field keep po_Cite po_Cite_update),
      (''source'', string_field keep po_Source po_Source_update),
      (''license'', string_field keep po_License po_License_update),
      (''notes'', string_field empty_list po_Notes po_Notes_update),
      (''lossModel'', string_field empty_list po_LossModel po_LossModel_update),
      (''lossPct'', float_field keep po_LossPct po_LossPct_update),
      (''burstR'', float_field empty_float po_BurstR po_BurstR_update),
      (''baseDelayMs'', float_field keep po_BaseDelayMs po_BaseDelayMs_update),
      (''jitterMs'', float_field empty_float po_JitterMs po_JitterMs_update),
      (''delayDist'', string_field empty_list po_DelayDist po_DelayDist_update),
      (''sigmaMs'', float_field empty_float po_SigmaMs po_SigmaMs_update),
      (''delayCorrelation'', float_field empty_float po_DelayCorrelation po_DelayCorrelation_update),
      (''reorderPct'', float_field empty_float po_ReorderPct po_ReorderPct_update),
      (''reorderGapMs'', float_field empty_float po_ReorderGapMs po_ReorderGapMs_update)]"

definition zero_profile :: profile where
  "zero_profile = \<lparr>po_Name = [], po_Description = [], po_Grade = 0, po_Cite = [], po_Source = [], po_License = [], po_Notes = [],
     po_LossModel = [], po_LossPct = Fin 0, po_BurstR = Fin 0, po_BaseDelayMs = Fin 0, po_JitterMs = Fin 0, po_DelayDist = [],
     po_SigmaMs = Fin 0, po_DelayCorrelation = Fin 0, po_ReorderPct = Fin 0, po_ReorderGapMs = Fin 0\<rparr>"

definition profile_Save :: "profile \<Rightarrow> string option" where
  "profile_Save = save_json (write_struct profile_fields)"

definition profile_Load :: "string \<Rightarrow> profile option" where
  "profile_Load = load_json (read_struct False profile_fields) zero_profile"

definition profile_ok :: "profile \<Rightarrow> bool" where
  "profile_ok p \<longleftrightarrow> list_all valid_utf8 [po_Name p, po_Description p, po_Cite p, po_Source p, po_License p, po_Notes p,
       po_LossModel p, po_DelayDist p] \<and> in64 (po_Grade p) \<and>
     list_all double [po_LossPct p, po_BurstR p, po_BaseDelayMs p, po_JitterMs p, po_SigmaMs p, po_DelayCorrelation p,
       po_ReorderPct p, po_ReorderGapMs p]"

interpretation profile_codec: json_codec "write_struct profile_fields" "read_struct False profile_fields" zero_profile profile_ok 1
proof
  show "profile_ok p \<Longrightarrow> codes 1 (write_struct profile_fields) (read_struct False profile_fields) zero_profile p" for p
    unfolding One_nat_def profile_fields_def
    by (rule codes_struct; (cases p; intro carries_table)?; simp add: profile_ok_def zero_profile_def keep_def ascii_utf8 ord_def)
qed (simp add: maxNestingDepth_def)

lemma profile_Load_Save: "profile_ok p \<Longrightarrow> \<exists>t. profile_Save p = Some t \<and> profile_Load (t @ r) = Some p"
  unfolding profile_Save_def profile_Load_def by (rule profile_codec.load_save)

section \<open>Manifests\<close>

definition entry_fields :: "manifest_entry fields" where
  "entry_fields =
     [(''name'', string_field keep me_Name me_Name_update), (''file'', string_field keep me_File me_File_update),
      (''format'', string_field keep me_Format me_Format_update), (''sha256'', string_field keep me_SHA256 me_SHA256_update),
      (''description'', string_field empty_list me_Description me_Description_update),
      (''cite'', string_field keep me_Cite me_Cite_update), (''source'', string_field keep me_Source me_Source_update),
      (''license'', string_field keep me_License me_License_update), (''notes'', string_field empty_list me_Notes me_Notes_update)]"

definition blank_entry :: manifest_entry where
  "blank_entry = \<lparr>me_Name = [], me_File = [], me_Format = [], me_SHA256 = [], me_Description = [], me_Cite = [], me_Source = [],
     me_License = [], me_Notes = []\<rparr>"

text \<open>The directory is not exported, so it is neither written nor read.\<close>

definition manifest_fields :: "bool \<Rightarrow> manifest fields" where
  "manifest_fields strict =
     [(''version'', int_field keep mf_Version mf_Version_update),
      (''traces'', list_field False keep (write_struct entry_fields) (read_struct strict entry_fields) blank_entry mf_Entries mf_Entries_update)]"

definition zero_manifest :: manifest where
  "zero_manifest = \<lparr>mf_Version = 0, mf_Entries = [], mf_dir = []\<rparr>"

text \<open>The decoder of \<^verbatim>\<open>LoadManifest\<close> disallows unknown fields.\<close>

definition manifest_decode :: "reader \<Rightarrow> manifest option" where
  "manifest_decode rd = load_json (read_struct True (manifest_fields True)) zero_manifest (rd_data rd)"

definition entry_ok :: "manifest_entry \<Rightarrow> bool" where
  "entry_ok e \<longleftrightarrow> list_all valid_utf8 [me_Name e, me_File e, me_Format e, me_SHA256 e, me_Description e, me_Cite e, me_Source e,
     me_License e, me_Notes e]"

definition manifest_ok :: "manifest \<Rightarrow> bool" where
  "manifest_ok m \<longleftrightarrow> in64 (mf_Version m) \<and> list_all entry_ok (mf_Entries m) \<and> mf_dir m = []"

lemma codes_entry: "entry_ok e \<Longrightarrow> codes 1 (write_struct entry_fields) (read_struct b entry_fields) blank_entry e"
  unfolding One_nat_def entry_fields_def
  by (rule codes_struct; (cases e; intro carries_table)?; simp add: entry_ok_def blank_entry_def keep_def ascii_utf8 ord_def)

interpretation manifest_codec: json_codec "write_struct (manifest_fields True)" "read_struct True (manifest_fields True)" zero_manifest manifest_ok 3
proof
  fix m
  assume m: "manifest_ok m"
  then have "list_all (codes 1 (write_struct entry_fields) (read_struct True entry_fields) blank_entry) (mf_Entries m)"
    using codes_entry by (auto simp: manifest_ok_def list_all_iff)
  from codes_list [OF this]
  have l: "list_codes 2 False (write_struct entry_fields) (read_struct True entry_fields) blank_entry (mf_Entries m)" by (simp add: numeral_2_eq_2)
  have "carries_all 2 (manifest_fields True) m zero_manifest m"
    unfolding manifest_fields_def
    by (cases m; intro carries_table) (use m l in \<open>auto simp: manifest_ok_def zero_manifest_def keep_def\<close>)
  moreover have "distinct (map fst (manifest_fields True)) \<and> list_all (valid_utf8 \<circ> fst) (manifest_fields True)"
    by (simp add: manifest_fields_def ascii_utf8 ord_def)
  moreover have "(3::nat) = Suc 2" by simp
  ultimately show "codes 3 (write_struct (manifest_fields True)) (read_struct True (manifest_fields True)) zero_manifest m"
    by (metis (lifting) codes_struct)
qed (simp add: maxNestingDepth_def)

text \<open>A file with a member the manifest does not have is rejected.\<close>

lemma unknown_member: "(k, v) \<in> set ms \<Longrightarrow> find_field fs k = None \<Longrightarrow> read_struct True fs (JObj ms) x = None"
  by (simp add: read_struct_def) (induction ms arbitrary: x, auto split: option.split)

section \<open>What the command prints as JSON\<close>

definition provenance_fields :: "provenance fields" where
  "provenance_fields =
     [(''cite'', string_field keep pv_Cite pv_Cite_update), (''source'', string_field keep pv_Source pv_Source_update),
      (''license'', string_field keep pv_License pv_License_update)]"

definition writeJSON :: "json_value \<Rightarrow> string option" where
  "writeJSON v = map_option encode_indented (case v of
     JProfile p \<Rightarrow> write_struct profile_fields p
   | JEntry e \<Rightarrow> write_struct entry_fields e
   | JProvenance p \<Rightarrow> write_struct provenance_fields p)"

end
