(* ===== verification/ReportText.thy ===== *)
theory ReportText
  imports Report JsonFiles
begin

text \<open>
  What \<^verbatim>\<open>report/report.go\<close> and \<^verbatim>\<open>report/dashboard.go\<close> write: a matrix as JSON, and the dashboard page
  with the JSON of all its sections in a script element. The lemmas show that only a metric that is
  no finite number makes the writing fail, and that nothing the data holds can end the script
  element.
\<close>

section \<open>Matrices as JSON\<close>

text \<open>These structs are only written. \<open>nil k\<close> says whether the empty slices of the member \<open>k\<close> are nil.\<close>

definition write_field :: "('b \<Rightarrow> bool) \<Rightarrow> ('b \<Rightarrow> json option) \<Rightarrow> ('a \<Rightarrow> 'b) \<Rightarrow> 'a field" where
  "write_field em wr get = \<lparr>fd_empty = \<lambda>x. em (get x), fd_write = \<lambda>x. wr (get x), fd_read = \<lambda>v x. None\<rparr>"

definition json_text :: "string \<Rightarrow> json option" where
  "json_text s = Some (JStr s)"

definition check_fields :: "check fields" where
  "check_fields =
     [(''name'', write_field keep json_text ck_Name),
      (''verdict'', write_field keep (\<lambda>v. Some (json_int (int (severity v)))) ck_Verdict),
      (''detail'', write_field (\<lambda>s. s = []) json_text ck_Detail)]"

text \<open>A map is written with its keys sorted.\<close>

definition metric_members :: "metrics \<Rightarrow> (string \<times> json option) list" where
  "metric_members m = map (\<lambda>k. (k, json_float (the (m k)))) (sorted_list_of_set (dom m))"

definition write_metrics :: "metrics \<Rightarrow> json option" where
  "write_metrics m = (if list_all (\<lambda>(k, v). v \<noteq> None) (metric_members m)
     then Some (JObj (map (\<lambda>(k, v). (k, the v)) (metric_members m))) else None)"

definition result_fields :: "(string \<Rightarrow> bool) \<Rightarrow> run_result fields" where
  "result_fields nil =
     [(''lib'', write_field keep json_text rs_Lib), (''scenario'', write_field keep json_text rs_Scenario),
      (''checks'', write_field keep (write_list (nil ''checks'') (write_struct check_fields)) rs_Checks),
      (''metrics'', write_field (\<lambda>m. m = Map.empty) write_metrics rs_Metrics),
      (''error'', write_field (\<lambda>s. s = []) json_text rs_Err)]"

definition matrix_fields :: "(string \<Rightarrow> bool) \<Rightarrow> matrix fields" where
  "matrix_fields nil =
     [(''title'', write_field keep json_text mx_Title), (''generated'', write_field keep json_text mx_Generated),
      (''libs'', write_field keep (write_list (nil ''libs'') json_text) mx_Libs),
      (''scenarios'', write_field keep (write_list (nil ''scenarios'') json_text) mx_Scenarios),
      (''results'', write_field keep (write_list (nil ''results'') (write_struct (result_fields nil))) mx_Results)]"

definition WriteJSON :: "(string \<Rightarrow> bool) \<Rightarrow> matrix \<Rightarrow> string option" where
  "WriteJSON nil m = map_option encode_indented (write_struct (matrix_fields nil) m)"

section \<open>The dashboard\<close>

text \<open>A section's frames are a raw message: text that must be JSON by itself and is written without
  its blanks and with the characters of HTML escaped.\<close>

record dashboard_section =
  ds_Title :: string
  ds_Tier :: string
  ds_Blurb :: string
  ds_Matrix :: matrix
  ds_Frames :: string

definition valid_json :: "string \<Rightarrow> bool" where
  "valid_json s \<longleftrightarrow> (case scan_from WantValue [] s of None \<Rightarrow> False | Some (v, r) \<Rightarrow> blank r)"

text \<open>\<open>q\<close> is whether the text stands in a string, \<open>b\<close> whether it stands behind a backslash there.\<close>

definition compact_char :: "char \<Rightarrow> string" where
  "compact_char c = (if c = CHR ''<'' \<or> c = CHR ''>'' \<or> c = CHR ''&''
     then [backslash, CHR ''u'', CHR ''0'', CHR ''0'', hex_digit (ord c div 16), hex_digit (ord c mod 16)] else [c])"

function compact_from :: "bool \<Rightarrow> bool \<Rightarrow> string \<Rightarrow> string" where
  "compact_from q b s =
     (case s of
        [] \<Rightarrow> []
      | c # t \<Rightarrow>
          if separator_at s then backslash # ''u202'' @ [hex_digit (ord (s ! 2) mod 16)] @ compact_from q False (drop 3 s)
          else if q then compact_char c @ compact_from (\<not> (c = quote \<and> \<not> b)) (c = backslash \<and> \<not> b) t
          else if json_space c then compact_from q False t
          else compact_char c @ compact_from (c = quote) False t)"
  by pat_completeness auto
termination by (relation "measure (\<lambda>(q, b, s). length s)") auto

declare compact_from.simps [simp del]

definition raw_message :: "string \<Rightarrow> json option" where
  "raw_message s = (if valid_json s then Some (JNum (compact_from False False s)) else None)"

text \<open>The compacted text is carried as it is, as a number's literal is.\<close>

definition section_fields :: "(string \<Rightarrow> bool) \<Rightarrow> dashboard_section fields" where
  "section_fields nil =
     [(''title'', write_field keep json_text ds_Title), (''tier'', write_field keep json_text ds_Tier),
      (''blurb'', write_field keep json_text ds_Blurb),
      (''matrix'', write_field keep (write_struct (matrix_fields nil)) ds_Matrix),
      (''frames'', write_field (\<lambda>s. s = []) raw_message ds_Frames)]"

record dashboard_data =
  dd_Title :: string
  dd_Generated :: string
  dd_Sections :: "dashboard_section list"

definition data_fields :: "(string \<Rightarrow> bool) \<Rightarrow> dashboard_data fields" where
  "data_fields nil =
     [(''title'', write_field keep json_text dd_Title), (''generated'', write_field keep json_text dd_Generated),
      (''sections'', write_field keep (write_list (nil ''sections'') (write_struct (section_fields nil))) dd_Sections)]"

text \<open>The page around the data. What follows the script element, the style and the browser's code, does
  not depend on the data and is the argument \<open>rest\<close>.\<close>

definition page_start :: string where
  \<open>page_start = ''<!DOCTYPE html>'' @ [CHR 0x0A] @ ''<html lang="en">'' @ [CHR 0x0A] @ ''<head>'' @ [CHR 0x0A] @
     ''<meta charset="utf-8">'' @ [CHR 0x0A] @
     ''<meta name="viewport" content="width=device-width, initial-scale=1">'' @ [CHR 0x0A] @
     ''<title>Transit-WPT '' @ [CHR 0xC2, CHR 0xB7] @ '' Signal Bench</title>'' @ [CHR 0x0A]\<close>

definition island_open :: string where
  \<open>island_open = ''<script type="application/json" id="tw-data">''\<close>

definition WriteDashboard :: "(string \<Rightarrow> bool) \<Rightarrow> string \<Rightarrow> string \<Rightarrow> string \<Rightarrow> dashboard_section list \<Rightarrow> string option" where
  "WriteDashboard nil rest title generated sections =
     map_option (\<lambda>v. page_start @ island_open @ render v @ ''</script>'' @ CHR 0x0A # rest)
       (write_struct (data_fields nil) \<lparr>dd_Title = title, dd_Generated = generated, dd_Sections = sections\<rparr>)"

section \<open>Nothing ends the script element\<close>

text \<open>A value whose numbers, and raw texts, hold no character of HTML is written without any.\<close>

fun numbers_plain :: "json \<Rightarrow> bool" where
  "numbers_plain (JArr vs) = list_all numbers_plain vs"
| "numbers_plain (JObj ms) = list_all (\<lambda>(k, v). numbers_plain v) ms"
| "numbers_plain (JNum n) = html_free n"
| "numbers_plain _ = True"

lemma html_free_join: "html_free sep \<Longrightarrow> list_all html_free xs \<Longrightarrow> html_free (join sep xs)"
  by (induction sep xs rule: join.induct) simp_all

lemma json_string_html_free: "html_free (json_string s)"
  by (simp add: json_string_def escape_html_free quote_def)

lemma layout_html_free:
  assumes "\<And>d. html_free (pad d)" "html_free col"
  shows "numbers_plain v \<Longrightarrow> html_free (layout pad col d v)"
proof (induction v arbitrary: d)
  case (JArr vs)
  then show ?case using assms by (auto simp: list_all_iff intro!: html_free_join)
next
  case (JObj ms)
  then show ?case using assms by (fastforce simp: list_all_iff json_string_html_free intro!: html_free_join)
qed (simp_all add: json_string_html_free)

lemma render_html_free: "numbers_plain v \<Longrightarrow> html_free (render v)"
  unfolding render_def by (rule layout_html_free) simp_all

lemma is_digit_html: "list_all is_digit ds \<Longrightarrow> html_free ds"
  by (induction ds) (auto simp: is_digit_def)

lemma compact_char_html: "html_free (compact_char c)"
  using hex_digit_html [of "ord c div 16"] hex_digit_html [of "ord c mod 16"] ord_less [of c]
  by (auto simp: compact_char_def backslash_def)

lemma compact_html_free: "html_free (compact_from q b s)"
proof (induction q b s rule: compact_from.induct)
  case (1 q b s)
  then show ?case using compact_char_html hex_digit_html [of "ord (s ! 2) mod 16"]
    by (subst compact_from.simps) (auto simp: backslash_def split: list.split)
qed


definition plain_writer :: "('a \<Rightarrow> json option) \<Rightarrow> bool" where
  "plain_writer wr \<longleftrightarrow> (\<forall>x v. wr x = Some v \<longrightarrow> numbers_plain v)"

lemma plain_list: "plain_writer wr \<Longrightarrow> plain_writer (write_list nil wr)"
proof -
  assume p: "plain_writer wr"
  have "write_elements wr xs = Some vs \<Longrightarrow> list_all numbers_plain vs" for xs vs
    using p by (induction xs arbitrary: vs) (auto simp: plain_writer_def split: option.splits)
  then show ?thesis by (auto simp: plain_writer_def write_list_def split: if_splits)
qed

lemma plain_struct:
  assumes "\<And>k f. (k, f) \<in> set fs \<Longrightarrow> plain_writer (fd_write f)"
  shows "plain_writer (write_struct fs)"
proof -
  have "write_members fs x = Some ms \<Longrightarrow> list_all (\<lambda>(k, v). numbers_plain v) ms" for x ms
    using assms
  proof (induction fs arbitrary: ms)
    case (Cons kf fs)
    obtain k f where kf: "kf = (k, f)" by (cases kf)
    have ih: "write_members fs x = Some ns \<Longrightarrow> list_all (\<lambda>(k, v). numbers_plain v) ns" for ns
      by (rule Cons.IH) (auto intro: Cons.prems(2))
    show ?case using ih Cons.prems(1) Cons.prems(2) [of k f]
      by (auto simp: kf plain_writer_def split: if_splits option.splits)
  qed simp
  then show ?thesis by (auto simp: plain_writer_def write_struct_def)
qed

lemma plain_write_field [simp]: "plain_writer (fd_write (write_field em wr get)) \<longleftrightarrow> (\<forall>x v. wr (get x) = Some v \<longrightarrow> numbers_plain v)"
  by (simp add: plain_writer_def write_field_def)

lemma plain_writerD: "plain_writer wr \<Longrightarrow> wr x = Some v \<Longrightarrow> numbers_plain v"
  by (simp add: plain_writer_def)

lemma plain_json_text: "json_text s = Some v \<Longrightarrow> numbers_plain v"
  by (auto simp: json_text_def)

lemma itoa_html: "html_free (itoa n)"
  using is_digit_html [OF digits_all] by (simp add: itoa_def)

lemma form_html: "html_free (form_exp digits d)" "html_free (form_f d)"
proof -
  obtain m e where d: "d = (m, e)" by (cases d)
  have g: "html_free (digits n)" for n by (rule is_digit_html [OF digits_all])
  have z: "html_free (replicate k CHR ''0'')" for k by (induction k) simp_all
  have td: "html_free (take k s) \<and> html_free (drop k s)" if "html_free s" for k s
    using that by (auto simp: html_free_def dest: in_set_takeD in_set_dropD)
  have h: "html_free [hd (digits m)]" "html_free (tl (digits m))"
    using g [of m] digits_nonempty [of m] by (cases "digits m"; auto)+
  show "html_free (form_exp digits d)" using h g by (simp add: d form_exp_def Let_def)
  show "html_free (form_f d)" using g z td [OF g] by (simp add: d form_f_def Let_def)
qed

lemma plain_float: "json_float x = Some v \<Longrightarrow> numbers_plain v"
  by (auto simp: json_float_def sign_of_def form_html split: f64.splits)

lemma plain_metrics: "write_metrics m = Some v \<Longrightarrow> numbers_plain v"
  using plain_float by (auto simp: write_metrics_def metric_members_def list_all_iff split: if_splits)

lemma plain_raw: "raw_message s = Some v \<Longrightarrow> numbers_plain v"
  using compact_html_free by (auto simp: raw_message_def split: if_splits)

lemma plain_matrix: "plain_writer (write_struct (matrix_fields nil))"
proof -
  have check: "plain_writer (write_struct check_fields)"
    by (rule plain_struct) (auto simp: check_fields_def json_int_def itoa_html dest: plain_json_text)
  have result: "plain_writer (write_struct (result_fields nil))"
    by (rule plain_struct)
      (auto simp: result_fields_def dest: plain_json_text plain_metrics plain_writerD [OF plain_list [OF check]])
  have "plain_writer json_text" by (auto simp: plain_writer_def dest: plain_json_text)
  then show ?thesis
    by (intro plain_struct)
      (auto simp: matrix_fields_def dest: plain_json_text plain_writerD [OF plain_list] plain_writerD [OF plain_list [OF result]])
qed

lemma plain_data: "plain_writer (write_struct (data_fields nil))"
proof -
  have section1: "plain_writer (write_struct (section_fields nil))"
    by (rule plain_struct)
      (auto simp: section_fields_def dest: plain_json_text plain_raw plain_writerD [OF plain_matrix])
  show ?thesis
    by (rule plain_struct) (auto simp: data_fields_def dest: plain_json_text plain_writerD [OF plain_list [OF section1]])
qed

section \<open>When writing fails\<close>

lemma write_struct_None:
  "write_struct fs x = None \<longleftrightarrow> (\<exists>(k, f) \<in> set fs. \<not> fd_empty f x \<and> fd_write f x = None)"
proof -
  have "write_members fs x = None \<longleftrightarrow> (\<exists>(k, f) \<in> set fs. \<not> fd_empty f x \<and> fd_write f x = None)"
    by (induction fs x rule: write_members.induct) (auto split: option.split)
  then show ?thesis by (simp add: write_struct_def)
qed

lemma write_list_None: "write_list nil wr xs = None \<longleftrightarrow> (\<exists>x \<in> set xs. wr x = None)"
proof -
  have "write_elements wr xs = None \<longleftrightarrow> (\<exists>x \<in> set xs. wr x = None)"
    by (induction xs) (auto split: option.split)
  then show ?thesis by (auto simp: write_list_def)
qed

definition finite_metrics :: "run_result \<Rightarrow> bool" where
  "finite_metrics r \<longleftrightarrow> (\<forall>v \<in> ran (rs_Metrics r). \<exists>x. v = Fin x)"

lemma json_float_None: "json_float v = None \<longleftrightarrow> (\<nexists>x. v = Fin x)"
  by (cases v) (simp_all add: json_float_def)

lemma write_metrics_None: "finite (dom m) \<Longrightarrow> write_metrics m = None \<longleftrightarrow> (\<exists>v \<in> ran m. \<nexists>x. v = Fin x)"
proof -
  assume "finite (dom m)"
  then have "write_metrics m = None \<longleftrightarrow> (\<exists>k \<in> dom m. json_float (the (m k)) = None)"
    by (simp add: write_metrics_def metric_members_def list_all_iff)
  also have "\<dots> \<longleftrightarrow> (\<exists>v \<in> ran m. \<nexists>x. v = Fin x)" unfolding json_float_None by (force simp: ran_def dom_def)
  finally show ?thesis .
qed

lemma write_result_None:
  assumes "finite (dom (rs_Metrics r))"
  shows "write_struct (result_fields nil) r = None \<longleftrightarrow> \<not> finite_metrics r"
proof -
  have "write_struct check_fields c \<noteq> None" for c
    unfolding write_struct_None by (simp add: check_fields_def write_field_def json_text_def)
  then show ?thesis
    using write_metrics_None [OF assms]
    by (auto simp: write_struct_None result_fields_def write_field_def json_text_def keep_def write_list_None finite_metrics_def ran_def)
qed

lemma WriteJSON_None:
  assumes "\<And>r. r \<in> set (mx_Results m) \<Longrightarrow> finite (dom (rs_Metrics r))"
  shows "WriteJSON nil m = None \<longleftrightarrow> \<not> list_all finite_metrics (mx_Results m)"
proof -
  have "write_struct (matrix_fields nil) m = None \<longleftrightarrow> (\<exists>r \<in> set (mx_Results m). write_struct (result_fields nil) r = None)"
    unfolding write_struct_None [of "matrix_fields nil"]
    by (simp add: matrix_fields_def write_field_def keep_def write_list_None json_text_def)
  then show ?thesis using assms write_result_None by (auto simp: WriteJSON_def list_all_iff)
qed

end
