(* ===== verification/Dashboard.thy ===== *)
theory Dashboard
  imports ReportText "HOL-Library.Monad_Syntax"
begin

text \<open>
  What the script of \<^verbatim>\<open>report/dashboard.go\<close> computes in the browser from the data island: the roll-up
  of a run, the status line, the comparison of protocols and the grids. The script's values are
  those of JSON with \<^verbatim>\<open>undefined\<close>, which is \<open>None\<close>; its numbers are doubles; its strings are their
  UTF-8 bytes; its objects have no members but their own. A function that can throw returns an option, \<open>None\<close> being the exception. The lemmas
  follow the data from the Go side through its JSON into the script, and show that the page reports
  the verdicts that Go computes.
\<close>

section \<open>Values of the script\<close>

type_synonym js_value = "json option"

definition js_prop :: "js_value \<Rightarrow> string \<Rightarrow> js_value" where
  "js_prop v k = (case v of Some (JObj ms) \<Rightarrow> map_of (rev ms) k | _ \<Rightarrow> None)"

definition js_nullish :: "js_value \<Rightarrow> bool" where
  "js_nullish v \<longleftrightarrow> v = None \<or> v = Some JNull"

text \<open>Numbers, by \<^verbatim>\<open>ToNumber\<close>; what the data has no numbers in, strings, arrays and objects, is not
  converted.\<close>

definition js_num :: "js_value \<Rightarrow> f64" where
  "js_num v = (case v of
     Some (JNum n) \<Rightarrow> fround (num_value n) | Some JNull \<Rightarrow> Fin 0 | Some (JBool b) \<Rightarrow> Fin (if b then 1 else 0) | _ \<Rightarrow> NaN)"

definition js_is_number :: "js_value \<Rightarrow> bool" where
  "js_is_number v \<longleftrightarrow> (case v of Some (JNum n) \<Rightarrow> True | _ \<Rightarrow> False)"

definition js_truthy :: "js_value \<Rightarrow> bool" where
  "js_truthy v = (case v of
     None \<Rightarrow> False | Some JNull \<Rightarrow> False | Some (JBool b) \<Rightarrow> b | Some (JStr s) \<Rightarrow> s \<noteq> []
   | Some (JNum n) \<Rightarrow> js_num v \<noteq> Fin 0 | Some (JArr vs) \<Rightarrow> True | Some (JObj ms) \<Rightarrow> True)"

text \<open>Iterating over what is no array throws; \<^verbatim>\<open>x||[]\<close> takes the empty array for what is not there.\<close>

definition js_array :: "js_value \<Rightarrow> json list option" where
  "js_array v = (case v of Some (JArr vs) \<Rightarrow> Some vs | _ \<Rightarrow> None)"

definition js_array_or_empty :: "js_value \<Rightarrow> json list option" where
  "js_array_or_empty v = (if js_truthy v then js_array v else Some [])"

definition js_object_or_empty :: "js_value \<Rightarrow> js_value" where
  "js_object_or_empty v = (if js_truthy v then v else Some (JObj []))"

text \<open>The texts of numbers are those of JSON.\<close>

definition js_number_text :: "f64 \<Rightarrow> string" where
  "js_number_text v = (case v of
     Fin x \<Rightarrow> (case json_float v of Some (JNum t) \<Rightarrow> t | _ \<Rightarrow> [])
   | PInf \<Rightarrow> ''Infinity'' | NInf \<Rightarrow> ''-Infinity'' | NaN \<Rightarrow> ''NaN'')"

fun js_text :: "js_value \<Rightarrow> string" where
  "js_text None = ''undefined''"
| "js_text (Some JNull) = ''null''"
| "js_text (Some (JBool b)) = (if b then ''true'' else ''false'')"
| "js_text (Some (JNum n)) = js_number_text (js_num (Some (JNum n)))"
| "js_text (Some (JStr s)) = s"
| "js_text (Some (JArr vs)) = join '','' (map (\<lambda>v. if v = JNull then [] else js_text (Some v)) vs)"
| "js_text (Some (JObj ms)) = ''[object Object]''"

text \<open>\<^verbatim>\<open>Math.round\<close> rounds halves up.\<close>

fun js_round :: "f64 \<Rightarrow> f64" where
  "js_round (Fin x) = Fin (of_int \<lfloor>x + 1 / 2\<rfloor>)"
| "js_round v = v"

text \<open>\<^verbatim>\<open>JSON.parse\<close> of the text of the data island.\<close>

definition page_data :: "string \<Rightarrow> js_value" where
  "page_data js = (case scan_from WantValue [] js of Some (v, r) \<Rightarrow> if blank r then Some v else None | None \<Rightarrow> None)"

section \<open>Verdicts\<close>

record badge =
  bd_k :: string
  bd_cls :: string
  bd_ab :: "string option"

definition V :: "badge list" where
  "V = [\<lparr>bd_k = ''PASS'', bd_cls = ''c-pass'', bd_ab = None\<rparr>, \<lparr>bd_k = ''WARN'', bd_cls = ''c-warn'', bd_ab = None\<rparr>,
     \<lparr>bd_k = ''FAIL'', bd_cls = ''c-fail'', bd_ab = None\<rparr>,
     \<lparr>bd_k = ''UNSUPPORTED'', bd_cls = ''c-unsup'', bd_ab = Some ''UNSUP''\<rparr>,
     \<lparr>bd_k = ''ERROR'', bd_cls = ''c-error'', bd_ab = Some ''ERR''\<rparr>]"

text \<open>The badge of a verdict; a member of what \<^verbatim>\<open>V\<close> does not have throws.\<close>

definition badge_of :: "f64 \<Rightarrow> badge option" where
  "badge_of v = map_of (zip (map (\<lambda>i. Fin (of_nat i)) [0..<length V]) V) v"

definition rollup :: "js_value \<Rightarrow> f64 option" where
  "rollup res =
     (if js_truthy (js_prop res ''error'') then Some (Fin 4)
      else do {
        checks \<leftarrow> js_array_or_empty (js_prop res ''checks'');
        Some (foldl (\<lambda>w c. let v = js_num (js_prop (Some c) ''verdict'') in if flt w v then v else w) (Fin 0) checks)
      })"

definition cellFor :: "js_value \<Rightarrow> string \<Rightarrow> string \<Rightarrow> js_value option" where
  "cellFor m lib scn = do {
     results \<leftarrow> js_array (js_prop m ''results'');
     Some (find (\<lambda>r. js_prop (Some r) ''lib'' = Some (JStr lib) \<and> js_prop (Some r) ''scenario'' = Some (JStr scn)) results)
   }"

section \<open>The status line\<close>

text \<open>\<^verbatim>\<open>libs\<close> is an object used as a set of names, which cannot hold the name of the prototype.\<close>

record tallies =
  tl_libs :: "string list"
  tl_runs :: nat
  tl_byV :: "f64 \<Rightarrow> nat"
  tl_scn :: nat

definition count_run :: "json \<Rightarrow> tallies \<Rightarrow> tallies option" where
  "count_run r t = do {
     v \<leftarrow> rollup (Some r);
     Some (t\<lparr>tl_runs := tl_runs t + 1, tl_byV := (tl_byV t)(v := tl_byV t v + 1)\<rparr>)
   }"

fun js_each :: "('a \<Rightarrow> 's \<Rightarrow> 's option) \<Rightarrow> 'a list \<Rightarrow> 's \<Rightarrow> 's option" where
  "js_each f [] s = Some s"
| "js_each f (x # xs) s = Option.bind (f x s) (js_each f xs)"

definition count_section :: "json \<Rightarrow> tallies \<Rightarrow> tallies option" where
  "count_section s t = do {
     let m = js_prop (Some s) ''matrix'';
     scenarios \<leftarrow> js_array (js_prop m ''scenarios'');
     libs \<leftarrow> js_array (js_prop m ''libs'');
     results \<leftarrow> js_array (js_prop m ''results'');
     js_each count_run results
       (t\<lparr>tl_scn := tl_scn t + length scenarios, tl_libs := tl_libs t @ map (\<lambda>l. js_text (Some l)) libs\<rparr>)
   }"

definition page_tallies :: "js_value \<Rightarrow> tallies option" where
  "page_tallies data = do {
     sections \<leftarrow> js_array (js_prop data ''sections'');
     js_each count_section sections \<lparr>tl_libs = [], tl_runs = 0, tl_byV = \<lambda>_. 0, tl_scn = 0\<rparr>
   }"

definition nLibs :: "tallies \<Rightarrow> nat" where
  "nLibs t = length (remdups (filter (\<lambda>l. l \<noteq> ''__proto__'') (tl_libs t)))"

definition passPct :: "tallies \<Rightarrow> f64" where
  "passPct t = (if tl_runs t \<noteq> 0
     then fdiv (js_round (fdiv (fmul (Fin 1000) (fof_int (int (tl_byV t (Fin 0))))) (fof_int (int (tl_runs t))))) (Fin 10) else Fin 0)"

text \<open>An element the script makes: its tag, its class, its style, its inner markup and the elements
  appended to it.\<close>

datatype dom = Elem (el_tag: string) (el_class: string) (el_style: "(string \<times> string) list") (el_html: string) (el_children: "dom list")

definition el :: "string \<Rightarrow> string \<Rightarrow> string \<Rightarrow> dom" where
  "el tag cls html = Elem tag cls [] html []"

definition led :: "string \<Rightarrow> string \<Rightarrow> string \<Rightarrow> dom" where
  \<open>led k v c = Elem ''div'' ''led'' [(''--c'', c)] (''<div class="lk">'' @ k @ ''</div><div class="lv">'' @ v @ ''</div>'') []\<close>

definition nat_text :: "nat \<Rightarrow> string" where
  "nat_text n = js_number_text (fof_int (int n))"

definition page_stamp :: "js_value \<Rightarrow> string option" where
  \<open>page_stamp data = do {
     sections \<leftarrow> js_array (js_prop data ''sections'');
     let gen = js_prop data ''generated'';
     Some (''<div class="live">BENCH ONLINE</div><div>'' @ (if js_truthy gen then js_text gen else []) @ ''</div><div>'' @
       nat_text (length sections) @ '' CAPABILITY MATRICES</div>'')
   }\<close>

definition page_status :: "js_value \<Rightarrow> dom list option" where
  \<open>page_status data = do {
     sections \<leftarrow> js_array (js_prop data ''sections'');
     t \<leftarrow> page_tallies data;
     let byV = (\<lambda>v. nat_text (tl_byV t (Fin v)));
     Some [led ''Implementations'' (nat_text (nLibs t)) ''var(--cyan)'',
       led ''Capability matrices'' (nat_text (length sections)) ''var(--cyan)'',
       led ''Graded runs'' (nat_text (tl_runs t)) ''var(--phos)'',
       led ''Pass rate'' (''<span class="pct">'' @ js_number_text (passPct t) @ ''</span><small>%</small>'') ''var(--phos)'',
       led ''Fail / warn'' (''<small style="color:var(--red)">'' @ byV 2 @ ''F</small> / <small style="color:var(--amber)">'' @ byV 1 @ ''W</small>'')
         (if tl_byV t (Fin 2) \<noteq> 0 then ''var(--red)'' else ''var(--amber)'')]
   }\<close>

definition mid_dot :: string where
  "mid_dot = [CHR 0xC2, CHR 0xB7]"

definition page_legend :: "dom list" where
  \<open>page_legend = map (\<lambda>v. el ''span'' (''chip '' @ bd_cls v) (''<span class="sw"></span>'' @ bd_k v)) V @
     [el ''span'' ''note'' (''cell colour = worst-of-checks '' @ mid_dot @ '' WARN is honest, not a failure'')]\<close>

section \<open>Comparing protocols\<close>

definition deliv :: "js_value \<Rightarrow> f64 option" where
  "deliv res =
     (let m = js_object_or_empty (js_prop res ''metrics'') in
      if js_is_number (js_prop m ''deliveredPct'') then Some (js_num (js_prop m ''deliveredPct''))
      else if js_is_number (js_prop m ''deliveryPct'') then Some (js_num (js_prop m ''deliveryPct''))
      else None)"

record bucket =
  bk_k :: string
  bk_axh :: string
  bk_match :: "string \<Rightarrow> bool"

definition BUCKETS :: "bucket list" where
  "BUCKETS =
     [\<lparr>bk_k = ''CLEAN'', bk_axh = ''baseline'', bk_match = (\<lambda>s. s = ''clean'')\<rparr>,
      \<lparr>bk_k = ''STEADY LOSS'', bk_axh = ''~1% / congestion'', bk_match = (\<lambda>s. s = ''lte-congested'' \<or> s = ''downlink-1pct'')\<rparr>,
      \<lparr>bk_k = ''BURST'', bk_axh = ''bursty / GE'', bk_match = (\<lambda>s. s = ''lossy-burst'' \<or> s = ''downlink-burst'')\<rparr>]"

definition bucketScn :: "string list \<Rightarrow> bucket \<Rightarrow> string option" where
  "bucketScn scenarios b = find (bk_match b) scenarios"

definition either_prop :: "js_value \<Rightarrow> string \<Rightarrow> string \<Rightarrow> js_value" where
  "either_prop m k k' = (if js_nullish (js_prop m k) then js_prop m k' else js_prop m k)"

definition ciOf :: "js_value \<Rightarrow> js_value \<times> js_value" where
  "ciOf res = (let m = js_object_or_empty (js_prop res ''metrics'') in
     (either_prop m ''deliveredPctLo'' ''deliveryPctLo'', either_prop m ''deliveredPctHi'' ''deliveryPctHi''))"

definition starts_with :: "string \<Rightarrow> string \<Rightarrow> bool" where
  "starts_with p s \<longleftrightarrow> take (length p) s = p"

definition holds_text :: "string \<Rightarrow> string \<Rightarrow> bool" where
  "holds_text p s \<longleftrightarrow> list_ex (\<lambda>i. starts_with p (drop i s)) [0..<Suc (length s)]"

definition lower_ascii :: "char \<Rightarrow> char" where
  "lower_ascii c = (if 65 \<le> ord c \<and> ord c \<le> 90 then char_of (ord c + 32) else c)"

definition is_tier1 :: "string \<Rightarrow> bool" where
  "is_tier1 tier \<longleftrightarrow> holds_text ''tier-1'' (map lower_ascii tier)"

text \<open>A title up to its first blank, dash, middle dot or slash.\<close>

fun title_token :: "string \<Rightarrow> string" where
  "title_token [] = []"
| "title_token (c # s) =
     (if c = CHR '' '' \<or> c = CHR ''/'' \<or> starts_with dash (c # s) \<or> starts_with mid_dot (c # s) then [] else c # title_token s)"

record compare_cell =
  cc_pct :: "f64 option"
  cc_lo :: js_value
  cc_hi :: js_value
  cc_verdict :: f64
  cc_scn :: string

record compare_row =
  cr_si :: nat
  cr_proto :: string
  cr_lib :: string
  cr_tier :: string
  cr_downlink :: bool
  cr_cells :: "compare_cell option list"

definition strings_of :: "json list \<Rightarrow> string list" where
  "strings_of vs = map (\<lambda>v. js_text (Some v)) vs"

definition compare_cell_of :: "js_value \<Rightarrow> string list \<Rightarrow> string \<Rightarrow> bucket \<Rightarrow> compare_cell option option" where
  "compare_cell_of m scenarios lib b =
     (case bucketScn scenarios b of
        None \<Rightarrow> Some None
      | Some scn \<Rightarrow> do {
          res \<leftarrow> cellFor m lib scn;
          if res = None then Some None
          else do {
            v \<leftarrow> rollup res;
            Some (Some \<lparr>cc_pct = deliv res, cc_lo = fst (ciOf res), cc_hi = snd (ciOf res), cc_verdict = v, cc_scn = scn\<rparr>)
          }
        })"

fun js_map :: "('a \<Rightarrow> 'b option) \<Rightarrow> 'a list \<Rightarrow> 'b list option" where
  "js_map f [] = Some []"
| "js_map f (x # xs) = do { y \<leftarrow> f x; ys \<leftarrow> js_map f xs; Some (y # ys) }"

text \<open>The row of a library, none for a negative control and for a library without a clean run.\<close>

definition lib_row :: "js_value \<Rightarrow> string list \<Rightarrow> (string \<Rightarrow> compare_cell option list \<Rightarrow> compare_row) \<Rightarrow> string \<Rightarrow> compare_row list option" where
  "lib_row m scenarios mk lib =
     (if holds_text ''broken'' lib then Some []
      else do {
        clean \<leftarrow> cellFor m lib ''clean'';
        if clean = None then Some []
        else do {
          cells \<leftarrow> js_map (compare_cell_of m scenarios lib) BUCKETS;
          Some [mk lib cells]
        }
      })"

definition section_rows :: "nat \<Rightarrow> js_value \<Rightarrow> compare_row list option" where
  "section_rows si s = do {
     let m = js_prop s ''matrix'';
     scns \<leftarrow> js_array (js_prop m ''scenarios'');
     let scenarios = strings_of scns;
     if ''clean'' \<notin> set scenarios \<or> list_all (\<lambda>b. bucketScn scenarios b = None) (tl BUCKETS) then Some []
     else do {
       let title = js_text (js_prop s ''title'');
       let proto = (if title_token title \<noteq> [] then title_token title else title);
       let downlink = list_ex (starts_with ''downlink'') scenarios;
       let tier = (if is_tier1 (js_text (js_prop s ''tier'')) then ''T1'' else ''T2'');
       libs \<leftarrow> js_array (js_prop m ''libs'');
       rows \<leftarrow> js_map (lib_row m scenarios (\<lambda>lib cells. \<lparr>cr_si = si, cr_proto = proto, cr_lib = lib, cr_tier = tier,
         cr_downlink = downlink, cr_cells = cells\<rparr>)) (strings_of libs);
       Some (concat rows)
     }
   }"

definition compareRows :: "js_value \<Rightarrow> compare_row list option" where
  "compareRows data = do {
     sections \<leftarrow> js_array (js_prop data ''sections'');
     rows \<leftarrow> js_map (\<lambda>(si, s). section_rows si (Some s)) (enumerate 0 sections);
     Some (concat rows)
   }"

section \<open>The grids\<close>

definition escapeHtml_char :: "char \<Rightarrow> string" where
  "escapeHtml_char c =
     (if c = CHR ''&'' then ''&amp;'' else if c = CHR ''<'' then ''&lt;'' else if c = CHR ''>'' then ''&gt;''
      else if c = CHR 0x22 then ''&quot;'' else [c])"

definition escapeHtml :: "string \<Rightarrow> string" where
  "escapeHtml s = concat (map escapeHtml_char s)"

definition framesFor :: "js_value \<Rightarrow> string \<Rightarrow> string \<Rightarrow> js_value" where
  "framesFor s lib scn =
     (if \<not> js_truthy (js_prop s ''frames'') then None
      else let l = js_prop (js_prop s ''frames'') lib in
        if js_truthy l \<and> js_truthy (js_prop l scn) then js_prop l scn else None)"

definition has_thumbs :: "js_value \<Rightarrow> bool" where
  "has_thumbs fr \<longleftrightarrow> js_truthy fr \<and> js_truthy (js_prop fr ''thumbs'') \<and>
     (case js_prop fr ''thumbs'' of Some (JArr vs) \<Rightarrow> vs \<noteq> [] | Some (JStr s) \<Rightarrow> True | _ \<Rightarrow> False)"

definition badge_label :: "badge \<Rightarrow> string" where
  "badge_label v = (case bd_ab v of None \<Rightarrow> bd_k v | Some a \<Rightarrow> a)"

text \<open>The cell of a library in the row \<open>ri\<close> of a scenario.\<close>

definition grid_cell :: "js_value \<Rightarrow> js_value \<Rightarrow> nat \<Rightarrow> string \<Rightarrow> string \<Rightarrow> dom option" where
  \<open>grid_cell s m ri scn lib = do {
     res \<leftarrow> cellFor m lib scn;
     if res = None
     then Some (el ''td'' ''cell'' (''<div class="v empty c-none"><span class="dot"></span><span class="lab">'' @ dash @ ''</span></div>''))
     else do {
       rv \<leftarrow> rollup res;
       v \<leftarrow> badge_of rv;
       let vd = Elem ''div'' (''v '' @ bd_cls v) [(''animationDelay'', nat_text (ri * 30) @ ''ms'')]
         (''<span class="dot"></span><span class="lab">'' @ badge_label v @ ''</span>'') [];
       Some (Elem ''td'' (''cell'' @ (if rv = Fin 2 then '' is-fail'' else []) @ (if rv = Fin 4 then '' is-error'' else []) @
           (if has_thumbs (framesFor s lib scn) then '' hasfilm'' else [])) [] [] [vd])
     }
   }\<close>

definition grid_row :: "js_value \<Rightarrow> js_value \<Rightarrow> string list \<Rightarrow> nat \<times> string \<Rightarrow> dom option" where
  "grid_row s m libs row = do {
     tds \<leftarrow> js_map (grid_cell s m (fst row) (snd row)) libs;
     Some (Elem ''tr'' [] [] [] (el ''th'' [] (escapeHtml (snd row)) # tds))
   }"

definition pad2 :: "string \<Rightarrow> string" where
  "pad2 s = replicate (2 - length s) CHR ''0'' @ s"

definition grid_head :: "string list \<Rightarrow> string" where
  \<open>grid_head libs = ''<thead><tr><th class="corner">scenario '' @ [CHR 0xE2, CHR 0x95, CHR 0xB2] @ '' impl</th>'' @
     concat (map (\<lambda>l. ''<th>'' @ escapeHtml l @ ''</th>'') libs) @ ''</tr></thead>''\<close>

definition section_head :: "nat \<Rightarrow> js_value \<Rightarrow> string" where
  \<open>section_head si s =
     (let tier = js_text (js_prop s ''tier'') in
      ''<span class="seq">'' @ pad2 (nat_text (si + 1)) @ ''</span><h2>'' @ escapeHtml (js_text (js_prop s ''title'')) @ ''</h2>'' @
      ''<span class="tier '' @ (if is_tier1 tier then ''t1'' else ''t2'') @ ''">'' @ escapeHtml tier @ ''</span>'')\<close>

definition section_dom :: "nat \<times> json \<Rightarrow> dom option" where
  "section_dom si_s = do {
     let s = Some (snd si_s);
     let m = js_prop s ''matrix'';
     let blurb = js_prop s ''blurb'';
     libs \<leftarrow> js_array (js_prop m ''libs'');
     scns \<leftarrow> js_array (js_prop m ''scenarios'');
     rows \<leftarrow> js_map (grid_row s m (strings_of libs)) (enumerate 0 (strings_of scns));
     let tbl = Elem ''table'' ''grid'' [] (grid_head (strings_of libs)) [Elem ''tbody'' [] [] [] rows];
     Some (Elem ''section'' ''cap'' [] []
       ([el ''div'' ''cap-head'' (section_head (fst si_s) s)] @
        (if js_truthy blurb then [el ''div'' ''blurb'' (escapeHtml (js_text blurb))] else []) @
        [Elem ''div'' ''grid-scroll'' [] [] [tbl]]))
   }"

definition page_sections :: "js_value \<Rightarrow> dom list option" where
  "page_sections data = do {
     sections \<leftarrow> js_array (js_prop data ''sections'');
     js_map section_dom (enumerate 0 sections)
   }"

end
