(* ===== verification/DashboardData.thy ===== *)
theory DashboardData
  imports Dashboard
begin

text \<open>
  From the Go side through the JSON of the data island into the script of the dashboard: the data
  the script parses is the data that was written, and on it the script's lookup, roll-up and
  tallies agree with \<^verbatim>\<open>Matrix.Get\<close> and \<^verbatim>\<open>Result.Verdict\<close>.
\<close>

section \<open>Written values are read back\<close>

text \<open>Writing a list or the members of a struct, as relations between what is written and the values.\<close>

lemma write_elements_all2: "write_elements wr xs = Some vs \<Longrightarrow> list_all2 (\<lambda>x v. wr x = Some v) xs vs"
  by (induction xs arbitrary: vs) (auto split: option.splits)

definition kept :: "'a fields \<Rightarrow> 'a \<Rightarrow> 'a fields" where
  "kept fs x = filter (\<lambda>(k, f). \<not> fd_empty f x) fs"

definition written_as :: "'a \<Rightarrow> string \<times> 'a field \<Rightarrow> string \<times> json \<Rightarrow> bool" where
  "written_as x kf kv \<longleftrightarrow> fst kf = fst kv \<and> fd_write (snd kf) x = Some (snd kv)"

lemma write_members_all2: "write_members fs x = Some ms \<Longrightarrow> list_all2 (written_as x) (kept fs x) ms"
  by (induction fs x arbitrary: ms rule: write_members.induct) (auto simp: kept_def written_as_def split: if_splits option.splits)

lemma written_names: "list_all2 (written_as x) fs ms \<Longrightarrow> map fst ms = map fst fs"
  by (induction rule: list_all2_induct) (simp_all add: written_as_def)

lemma written_member: "list_all2 (written_as x) fs ms \<Longrightarrow> (k, f) \<in> set fs \<Longrightarrow> \<exists>v. (k, v) \<in> set ms \<and> fd_write f x = Some v"
  by (induction rule: list_all2_induct) (auto simp: written_as_def)

lemma list_all2_image: "list_all2 P xs ys \<Longrightarrow> y \<in> set ys \<Longrightarrow> \<exists>x \<in> set xs. P x y"
  by (induction rule: list_all2_induct) auto

lemma list_all2_source: "list_all2 P xs ys \<Longrightarrow> x \<in> set xs \<Longrightarrow> \<exists>y \<in> set ys. P x y"
  by (induction rule: list_all2_induct) auto

text \<open>Every value that \<open>x\<close> is written as has depth at most \<open>n\<close> and is given back by the parser.\<close>

definition prints :: "nat \<Rightarrow> ('a \<Rightarrow> json option) \<Rightarrow> 'a \<Rightarrow> bool" where
  "prints n wr x \<longleftrightarrow> (\<forall>v. wr x = Some v \<longrightarrow> json_ok v \<and> nesting v \<le> n)"

lemma prints_mono: "prints m wr x \<Longrightarrow> m \<le> n \<Longrightarrow> prints n wr x"
  by (fastforce simp: prints_def)

lemma prints_text: "valid_utf8 s \<Longrightarrow> prints 0 json_text s"
  by (simp add: prints_def json_text_def)

lemma prints_int: "prints 0 (\<lambda>x. Some (json_int (f x))) x"
  by (simp add: prints_def json_int_def good_itoa)

lemma prints_list:
  assumes "\<And>x. x \<in> set xs \<Longrightarrow> prints n wr x"
  shows "prints (Suc n) (write_list nil wr) xs"
proof -
  have "json_ok v \<and> nesting v \<le> n" if "write_elements wr xs = Some vs" "v \<in> set vs" for v vs
    using list_all2_image [OF write_elements_all2 [OF that(1)] that(2)] assms by (auto simp: prints_def)
  then show ?thesis by (auto simp: prints_def write_list_def fold_max_le list_all_iff split: if_splits)
qed

lemma prints_struct:
  assumes "\<And>k f. (k, f) \<in> set fs \<Longrightarrow> \<not> fd_empty f x \<Longrightarrow> valid_utf8 k \<and> prints n (fd_write f) x"
  shows "prints (Suc n) (write_struct fs) x"
proof -
  have "valid_utf8 k \<and> json_ok v \<and> nesting v \<le> n" if "write_members fs x = Some ms" "(k, v) \<in> set ms" for k v ms
    using list_all2_image [OF write_members_all2 [OF that(1)] that(2)] assms
    by (fastforce simp: prints_def kept_def written_as_def)
  then show ?thesis by (fastforce simp: prints_def write_struct_def fold_max_le list_all_iff)
qed

lemma prints_write_field [simp]: "prints n (fd_write (write_field em wr get)) x \<longleftrightarrow> prints n wr (get x)"
  by (simp add: prints_def write_field_def)

text \<open>A member of a written struct.\<close>

lemma js_prop_struct:
  assumes "write_struct fs x = Some v" "distinct (map fst fs)" "(k, f) \<in> set fs"
  shows "js_prop (Some v) k = (if fd_empty f x then None else fd_write f x)"
proof -
  obtain ms where w: "write_members fs x = Some ms" "v = JObj ms" using assms(1) by (auto simp: write_struct_def)
  note ms = write_members_all2 [OF w(1)] w(2)
  have d: "distinct (map fst ms)" unfolding written_names [OF ms(1)] using assms(2) by (simp add: kept_def distinct_map_filter)
  have "map_of ms k = (if fd_empty f x then None else fd_write f x)"
  proof (cases "fd_empty f x")
    case True
    have "f' = f" if "(k, f') \<in> set fs" for f' using assms(2,3) that eq_key_imp_eq_value by fastforce
    then have "k \<notin> set (map fst (kept fs x))" using True by (auto simp: kept_def)
    then show ?thesis unfolding written_names [OF ms(1), symmetric] using True by (simp add: map_of_eq_None_iff)
  next
    case False
    then have "(k, f) \<in> set (kept fs x)" using assms(3) by (simp add: kept_def)
    then obtain w where "(k, w) \<in> set ms" "fd_write f x = Some w" using written_member [OF ms(1)] by blast
    then show ?thesis using False d by simp
  qed
  moreover have "map_of (rev ms) = map_of ms" using d by (subst map_of_inject_set) (simp_all add: rev_map [symmetric])
  ultimately show ?thesis by (simp add: js_prop_def ms(2))
qed

section \<open>The data of a page\<close>

text \<open>Strings are UTF-8 and metrics are doubles. Frames are left out here: they are JSON of their own.\<close>

definition check_ok :: "check \<Rightarrow> bool" where
  "check_ok c \<longleftrightarrow> valid_utf8 (ck_Name c) \<and> valid_utf8 (ck_Detail c)"

definition result_ok :: "run_result \<Rightarrow> bool" where
  "result_ok r \<longleftrightarrow> valid_utf8 (rs_Lib r) \<and> valid_utf8 (rs_Scenario r) \<and> list_all check_ok (rs_Checks r) \<and>
     (\<forall>k v. rs_Metrics r k = Some v \<longrightarrow> valid_utf8 k \<and> double v) \<and> finite (dom (rs_Metrics r)) \<and> valid_utf8 (rs_Err r)"

definition matrix_ok :: "matrix \<Rightarrow> bool" where
  "matrix_ok m \<longleftrightarrow> valid_utf8 (mx_Title m) \<and> valid_utf8 (mx_Generated m) \<and> list_all valid_utf8 (mx_Libs m) \<and>
     list_all valid_utf8 (mx_Scenarios m) \<and> list_all result_ok (mx_Results m)"

definition section_ok :: "dashboard_section \<Rightarrow> bool" where
  "section_ok s \<longleftrightarrow> valid_utf8 (ds_Title s) \<and> valid_utf8 (ds_Tier s) \<and> valid_utf8 (ds_Blurb s) \<and> matrix_ok (ds_Matrix s) \<and> ds_Frames s = []"

definition data_ok :: "dashboard_data \<Rightarrow> bool" where
  "data_ok d \<longleftrightarrow> valid_utf8 (dd_Title d) \<and> valid_utf8 (dd_Generated d) \<and> list_all section_ok (dd_Sections d)"

lemmas prints_leaf = prints_mono [OF prints_text le0] prints_mono [OF prints_int le0]

lemma prints_check: "check_ok c \<Longrightarrow> prints 1 (write_struct check_fields) c"
  unfolding One_nat_def by (rule prints_struct) (auto simp: check_fields_def check_ok_def ascii_utf8 ord_def intro: prints_leaf)

lemma prints_metrics:
  assumes "\<And>k v. m k = Some v \<Longrightarrow> valid_utf8 k \<and> double v" "finite (dom m)"
  shows "prints 1 write_metrics m"
proof -
  have "valid_utf8 k \<and> json_ok v \<and> nesting v = 0" if "(k, Some v) \<in> set (metric_members m)" for k v
  proof -
    have "k \<in> dom m" "json_float (the (m k)) = Some v" using that assms(2) by (auto simp: metric_members_def)
    then obtain x where x: "m k = Some x" "json_float x = Some v" by auto
    then obtain y where y: "x = Fin y" "representable y" using assms(1) [OF x(1)] by (auto simp: double_def split: f64.splits)
    obtain n where "v = JNum n" "good_number n" using good_float [OF y(2)] x(2) y(1) by blast
    then show ?thesis using assms(1) [OF x(1)] by simp
  qed
  note each = this
  show ?thesis unfolding prints_def
  proof (intro allI impI)
    fix u assume u: "write_metrics m = Some u"
    then have some: "\<forall>(k, v) \<in> set (metric_members m). v \<noteq> None" and
      obj: "u = JObj (map (\<lambda>(k, v). (k, the v)) (metric_members m))"
      by (auto simp: write_metrics_def list_all_iff split: if_splits)
    have "valid_utf8 k \<and> json_ok (the v) \<and> nesting (the v) = 0" if "(k, v) \<in> set (metric_members m)" for k v
      using each [of k "the v"] some that by fastforce
    note sound = this
    have "fold max (map (nesting \<circ> snd) (map (\<lambda>(k, v). (k, the v)) (metric_members m))) 0 \<le> 0"
      unfolding fold_max_le using sound by (auto simp: list_all_iff)
    then show "json_ok u \<and> nesting u \<le> 1" using sound by (auto simp: obj list_all_iff)
  qed
qed

lemma prints_result:
  assumes "result_ok r"
  shows "prints 3 (write_struct (result_fields nil)) r"
proof -
  have "prints 2 (write_list b (write_struct check_fields)) (rs_Checks r)" for b
    unfolding numeral_2_eq_2 by (rule prints_list) (use assms prints_check in \<open>auto simp: result_ok_def list_all_iff\<close>)
  moreover have "prints 2 write_metrics (rs_Metrics r)"
    by (rule prints_mono [OF prints_metrics]) (use assms in \<open>auto simp: result_ok_def\<close>)
  ultimately show ?thesis
    unfolding numeral_3_eq_3 numeral_2_eq_2 using assms
    by (intro prints_struct) (auto simp: result_fields_def result_ok_def ascii_utf8 ord_def intro: prints_leaf)
qed

lemma prints_matrix:
  assumes "matrix_ok m"
  shows "prints 5 (write_struct (matrix_fields nil)) m"
proof -
  have texts: "prints 4 (write_list b json_text) xs" if "list_all valid_utf8 xs" for xs b
    by (rule prints_mono [OF prints_list [of xs 0]]) (use that in \<open>auto simp: list_all_iff intro: prints_text\<close>)
  have "prints (Suc 3) (write_list b (write_struct (result_fields nil))) (mx_Results m)" for b
    by (rule prints_list) (use assms prints_result in \<open>auto simp: matrix_ok_def list_all_iff\<close>)
  then have "prints 4 (write_list b (write_struct (result_fields nil))) (mx_Results m)" for b by simp
  with texts have "prints (Suc 4) (write_struct (matrix_fields nil)) m"
    using assms by (intro prints_struct) (auto simp: matrix_fields_def matrix_ok_def ascii_utf8 ord_def intro: prints_leaf)
  then show ?thesis by simp
qed

lemma prints_section: "section_ok s \<Longrightarrow> prints 6 (write_struct (section_fields nil)) s"
proof -
  assume s: "section_ok s"
  then have "prints 5 (write_struct (matrix_fields nil)) (ds_Matrix s)" by (intro prints_matrix) (simp add: section_ok_def)
  then have "prints (Suc 5) (write_struct (section_fields nil)) s"
    using s by (intro prints_struct) (auto simp: section_fields_def section_ok_def write_field_def prints_def json_text_def ascii_utf8 ord_def)
  then show ?thesis by simp
qed

lemma prints_data: "data_ok d \<Longrightarrow> prints 8 (write_struct (data_fields nil)) d"
proof -
  assume d: "data_ok d"
  then have "prints (Suc 6) (write_list b (write_struct (section_fields nil))) (dd_Sections d)" for b
    using prints_section by (intro prints_list) (auto simp: data_ok_def list_all_iff)
  then have "prints (Suc 7) (write_struct (data_fields nil)) d"
    using d by (intro prints_struct) (auto simp: data_fields_def data_ok_def ascii_utf8 ord_def intro: prints_leaf)
  then show ?thesis by simp
qed

text \<open>What the script parses is what was written.\<close>

lemma page_data_render:
  assumes "data_ok d" "write_struct (data_fields nil) d = Some v"
  shows "page_data (render v) = Some v"
proof -
  have v: "json_ok v" "nesting v \<le> maxNestingDepth"
    using prints_data [OF assms(1), of nil] assms(2) by (auto simp: prints_def maxNestingDepth_def)
  have "scan_from WantValue [] (render v) = Some (v, [])"
    using compact.decode_layout [OF v, of "[]" 0] by (simp add: render_def number_end_def)
  then show ?thesis by (simp add: page_data_def blank_def)
qed

section \<open>The script agrees with Go\<close>

lemma fin_of_nat_num: "n < 2 ^ 53 \<Longrightarrow> js_num (Some (json_int (int n))) = Fin (of_nat n)"
proof -
  assume n: "n < 2 ^ 53"
  have "num_value (digits n) = of_nat n"
    using num_value_parts [of "digits n" "[]" "[]"] digits_all [of n] digits_nonempty [of n] by (simp add: read_exp_def number_digits)
  moreover have "fround (of_nat n) = Fin (of_nat n)"
    using fround_representable [OF representable_int [of "int n"]] n by simp
  ultimately show ?thesis by (simp add: js_num_def json_int_def itoa_def)
qed

lemma severity_num: "js_num (Some (json_int (int (severity v)))) = Fin (of_nat (severity v))"
  by (rule fin_of_nat_num) (cases v; simp)

lemma field_names:
  "distinct (map fst check_fields)" "distinct (map fst (result_fields nil))" "distinct (map fst (matrix_fields nil))"
  "distinct (map fst (section_fields nil))" "distinct (map fst (data_fields nil))"
  by (simp_all add: check_fields_def result_fields_def matrix_fields_def section_fields_def data_fields_def)

lemma check_members:
  assumes "write_struct check_fields c = Some v"
  shows "js_prop (Some v) ''verdict'' = Some (json_int (int (severity (ck_Verdict c))))"
  using js_prop_struct [OF assms field_names(1), of "''verdict''"] by (simp add: check_fields_def write_field_def keep_def)

lemma result_members:
  assumes "write_struct (result_fields nil) r = Some v"
  shows "js_prop (Some v) ''lib'' = Some (JStr (rs_Lib r))" "js_prop (Some v) ''scenario'' = Some (JStr (rs_Scenario r))"
    "js_prop (Some v) ''error'' = (if rs_Err r = [] then None else Some (JStr (rs_Err r)))"
    "\<exists>cs. js_array_or_empty (js_prop (Some v) ''checks'') = Some cs \<and>
      list_all2 (\<lambda>c cv. write_struct check_fields c = Some cv) (rs_Checks r) cs"
proof -
  note member_at = js_prop_struct [OF assms field_names(2)]
  show "js_prop (Some v) ''lib'' = Some (JStr (rs_Lib r))"
    using member_at [of "''lib''"] by (simp add: result_fields_def write_field_def keep_def json_text_def)
  show "js_prop (Some v) ''scenario'' = Some (JStr (rs_Scenario r))"
    using member_at [of "''scenario''"] by (simp add: result_fields_def write_field_def keep_def json_text_def)
  show "js_prop (Some v) ''error'' = (if rs_Err r = [] then None else Some (JStr (rs_Err r)))"
    using member_at [of "''error''"] by (simp add: result_fields_def write_field_def json_text_def)
  have "write_list (nil ''checks'') (write_struct check_fields) (rs_Checks r) \<noteq> None"
    using assms write_struct_None [of "result_fields nil" r] by (auto simp: result_fields_def write_field_def keep_def)
  then show "\<exists>cs. js_array_or_empty (js_prop (Some v) ''checks'') = Some cs \<and>
      list_all2 (\<lambda>c cv. write_struct check_fields c = Some cv) (rs_Checks r) cs"
    using member_at [of "''checks''"] write_elements_all2 [of "write_struct check_fields" "rs_Checks r"]
    by (auto simp: result_fields_def write_field_def keep_def write_list_def js_array_or_empty_def js_truthy_def js_array_def split: if_splits)
qed

lemma rollup_verdict:
  assumes "write_struct (result_fields nil) r = Some v"
  shows "rollup (Some v) = Some (Fin (of_nat (severity (result_Verdict r))))"
proof -
  note mem = result_members [OF assms]
  obtain cs where cs: "js_array_or_empty (js_prop (Some v) ''checks'') = Some cs"
    "list_all2 (\<lambda>c cv. write_struct check_fields c = Some cv) (rs_Checks r) cs" using mem(4) by blast
  let ?f = "\<lambda>w c. let v = js_num (js_prop (Some c) ''verdict'') in if flt w v then v else w"
  have "foldl ?f (Fin (of_nat (severity w))) cs = Fin (of_nat (severity (worst_of w (rs_Checks r))))" for w
    using cs(2)
  proof (induction arbitrary: w rule: list_all2_induct)
    case (Cons c cks cv cvs)
    then show ?case
      using check_members [of c cv] Cons.IH [of "if ck_Verdict c > w then ck_Verdict c else w"]
      by (auto simp: worst_of_def severity_num less_verdict_def)
  qed (simp add: worst_of_def)
  from this [of Pass] show ?thesis
    by (simp add: rollup_def mem(3) js_truthy_def cs(1) result_Verdict_def)
qed

text \<open>A matrix and its lookup.\<close>

text \<open>No array the script iterates over is written as \<^verbatim>\<open>null\<close>; the checks of a run may be.\<close>

definition no_null :: "(string \<Rightarrow> bool) \<Rightarrow> bool" where
  "no_null nil \<longleftrightarrow> \<not> nil ''sections'' \<and> \<not> nil ''libs'' \<and> \<not> nil ''scenarios'' \<and> \<not> nil ''results''"

definition written_results :: "(string \<Rightarrow> bool) \<Rightarrow> run_result list \<Rightarrow> json list \<Rightarrow> bool" where
  "written_results nil = list_all2 (\<lambda>r v. write_struct (result_fields nil) r = Some v)"

lemma matrix_members:
  assumes "no_null nil" "write_struct (matrix_fields nil) m = Some v"
  shows "js_prop (Some v) ''libs'' = Some (JArr (map JStr (mx_Libs m)))"
    "js_prop (Some v) ''scenarios'' = Some (JArr (map JStr (mx_Scenarios m)))"
    "\<exists>rs. js_prop (Some v) ''results'' = Some (JArr rs) \<and> written_results nil (mx_Results m) rs"
proof -
  note member_at = js_prop_struct [OF assms(2) field_names(3)]
  have texts: "write_list False json_text xs = Some (JArr (map JStr xs))" for xs
    by (induction xs) (auto simp: write_list_def json_text_def split: option.splits)
  note nil = assms(1) [unfolded no_null_def]
  show "js_prop (Some v) ''libs'' = Some (JArr (map JStr (mx_Libs m)))"
    using member_at [of "''libs''"] nil by (simp add: matrix_fields_def write_field_def keep_def texts)
  show "js_prop (Some v) ''scenarios'' = Some (JArr (map JStr (mx_Scenarios m)))"
    using member_at [of "''scenarios''"] nil by (simp add: matrix_fields_def write_field_def keep_def texts)
  have "write_list (nil ''results'') (write_struct (result_fields nil)) (mx_Results m) \<noteq> None"
    using assms(2) write_struct_None [of "matrix_fields nil" m] by (auto simp: matrix_fields_def write_field_def keep_def)
  then show "\<exists>rs. js_prop (Some v) ''results'' = Some (JArr rs) \<and> written_results nil (mx_Results m) rs"
    using member_at [of "''results''"] write_elements_all2 [of "write_struct (result_fields nil)" "mx_Results m"] nil
    by (auto simp: matrix_fields_def write_field_def keep_def write_list_def written_results_def)
qed

lemma find_written:
  assumes "written_results nil rs vs"
  shows "rel_option (\<lambda>r v. write_struct (result_fields nil) r = Some v)
    (find (\<lambda>r. rs_Lib r = lib \<and> rs_Scenario r = scn) rs)
    (find (\<lambda>r. js_prop (Some r) ''lib'' = Some (JStr lib) \<and> js_prop (Some r) ''scenario'' = Some (JStr scn)) vs)"
  using assms unfolding written_results_def
proof (induction rule: list_all2_induct)
  case (Cons r rs v vs)
  then show ?case using result_members(1,2) [of nil r v] by auto
qed simp

text \<open>The run the script finds for a cell, and its roll-up.\<close>

lemma cellFor_Get:
  assumes "no_null nil" "write_struct (matrix_fields nil) m = Some v"
  shows "\<exists>res. cellFor (Some v) lib scn = Some res \<and>
    rel_option (\<lambda>r v. write_struct (result_fields nil) r = Some v) (matrix_Get m lib scn) res"
proof -
  obtain rs where "js_prop (Some v) ''results'' = Some (JArr rs)" "written_results nil (mx_Results m) rs"
    using matrix_members(3) [OF assms] by blast
  then show ?thesis using find_written [of nil "mx_Results m" rs lib scn] by (simp add: cellFor_def js_array_def matrix_Get_def)
qed

lemma badge_verdict: "badge_of (Fin (of_nat (severity v))) = Some (V ! severity v)" "bd_k (V ! severity v) = verdict_String v"
  by (cases v; simp add: badge_of_def V_def upt_rec)+

lemma section_members:
  assumes "write_struct (section_fields nil) s = Some v"
  shows "\<exists>m. js_prop (Some v) ''matrix'' = Some m \<and> write_struct (matrix_fields nil) (ds_Matrix s) = Some m"
    "js_prop (Some v) ''title'' = Some (JStr (ds_Title s))" "js_prop (Some v) ''tier'' = Some (JStr (ds_Tier s))"
    "js_prop (Some v) ''blurb'' = Some (JStr (ds_Blurb s))" "ds_Frames s = [] \<Longrightarrow> js_prop (Some v) ''frames'' = None"
proof -
  note member_at = js_prop_struct [OF assms field_names(4)]
  have "write_struct (matrix_fields nil) (ds_Matrix s) \<noteq> None"
    using assms write_struct_None [of "section_fields nil" s] by (auto simp: section_fields_def write_field_def keep_def)
  then show "\<exists>m. js_prop (Some v) ''matrix'' = Some m \<and> write_struct (matrix_fields nil) (ds_Matrix s) = Some m"
    using member_at [of "''matrix''"] by (auto simp: section_fields_def write_field_def keep_def)
  show "js_prop (Some v) ''title'' = Some (JStr (ds_Title s))"
    using member_at [of "''title''"] by (simp add: section_fields_def write_field_def keep_def json_text_def)
  show "js_prop (Some v) ''tier'' = Some (JStr (ds_Tier s))"
    using member_at [of "''tier''"] by (simp add: section_fields_def write_field_def keep_def json_text_def)
  show "js_prop (Some v) ''blurb'' = Some (JStr (ds_Blurb s))"
    using member_at [of "''blurb''"] by (simp add: section_fields_def write_field_def keep_def json_text_def)
  show "ds_Frames s = [] \<Longrightarrow> js_prop (Some v) ''frames'' = None"
    using member_at [of "''frames''"] by (simp add: section_fields_def write_field_def)
qed

lemma data_members:
  assumes "no_null nil" "write_struct (data_fields nil) d = Some v"
  shows "\<exists>ss. js_prop (Some v) ''sections'' = Some (JArr ss) \<and>
    list_all2 (\<lambda>s v. write_struct (section_fields nil) s = Some v) (dd_Sections d) ss"
proof -
  have "write_list (nil ''sections'') (write_struct (section_fields nil)) (dd_Sections d) \<noteq> None"
    using assms(2) write_struct_None [of "data_fields nil" d] by (auto simp: data_fields_def write_field_def keep_def)
  then show ?thesis
    using js_prop_struct [OF assms(2) field_names(5), of "''sections''"]
      write_elements_all2 [of "write_struct (section_fields nil)" "dd_Sections d"] assms(1)
    by (auto simp: no_null_def data_fields_def write_field_def keep_def write_list_def)
qed

section \<open>What the page shows\<close>

text \<open>The cell of the grid that Go's verdict asks for.\<close>

definition verdict_cell :: "nat \<Rightarrow> verdict option \<Rightarrow> dom" where
  \<open>verdict_cell ri vo = (case vo of
     None \<Rightarrow> el ''td'' ''cell'' (''<div class="v empty c-none"><span class="dot"></span><span class="lab">'' @ dash @ ''</span></div>'')
   | Some vd \<Rightarrow> Elem ''td'' (''cell'' @ (if vd = Fail then '' is-fail'' else if vd = Error then '' is-error'' else [])) [] []
       [Elem ''div'' (''v '' @ bd_cls (V ! severity vd)) [(''animationDelay'', nat_text (ri * 30) @ ''ms'')]
         (''<span class="dot"></span><span class="lab">'' @ badge_label (V ! severity vd) @ ''</span>'') []])\<close>

lemma grid_cell_verdict:
  assumes "no_null nil" "write_struct (matrix_fields nil) m = Some v" "js_prop s ''frames'' = None"
  shows "grid_cell s (Some v) ri scn lib = Some (verdict_cell ri (map_option result_Verdict (matrix_Get m lib scn)))"
proof -
  obtain res where res: "cellFor (Some v) lib scn = Some res"
    "rel_option (\<lambda>r v. write_struct (result_fields nil) r = Some v) (matrix_Get m lib scn) res"
    using cellFor_Get [OF assms(1,2)] by blast
  have f: "\<not> has_thumbs (framesFor s lib scn)" by (simp add: framesFor_def has_thumbs_def assms(3) js_truthy_def)
  show ?thesis
  proof (cases "matrix_Get m lib scn")
    case None
    then show ?thesis using res by (simp add: grid_cell_def verdict_cell_def)
  next
    case (Some r)
    then obtain w where w: "res = Some w" "write_struct (result_fields nil) r = Some w" using res(2) by (cases res) auto
    have "(Fin (of_nat (severity vd)) = Fin 2) = (vd = Fail)" "(Fin (of_nat (severity vd)) = Fin 4) = (vd = Error)" for vd
      by (cases vd; simp)+
    then show ?thesis
      using res(1) Some w rollup_verdict [OF w(2)] f
      by (auto simp: grid_cell_def verdict_cell_def badge_verdict(1) Let_def)
  qed
qed

lemma js_map_Some: "(\<And>x. x \<in> set xs \<Longrightarrow> f x = Some (g x)) \<Longrightarrow> js_map f xs = Some (map g xs)"
  by (induction xs) simp_all

lemma js_map_all2: "list_all2 (\<lambda>x y. f y = Some (g x)) xs ys \<Longrightarrow> js_map f ys = Some (map g xs)"
  by (induction rule: list_all2_induct) simp_all

lemma strings_of_JStr [simp]: "strings_of (map JStr xs) = xs"
  by (induction xs) (simp_all add: strings_of_def)

definition verdict_row :: "matrix \<Rightarrow> nat \<times> string \<Rightarrow> dom" where
  "verdict_row m row = Elem ''tr'' [] [] [] (el ''th'' [] (escapeHtml (snd row)) #
     map (\<lambda>lib. verdict_cell (fst row) (map_option result_Verdict (matrix_Get m lib (snd row)))) (mx_Libs m))"

definition verdict_section :: "nat \<times> dashboard_section \<Rightarrow> dom" where
  \<open>verdict_section is = (case is of (i, s) \<Rightarrow> Elem ''section'' ''cap'' [] []
     ([el ''div'' ''cap-head'' (''<span class="seq">'' @ pad2 (nat_text (i + 1)) @ ''</span><h2>'' @ escapeHtml (ds_Title s) @ ''</h2>'' @
         ''<span class="tier '' @ (if is_tier1 (ds_Tier s) then ''t1'' else ''t2'') @ ''">'' @ escapeHtml (ds_Tier s) @ ''</span>'')] @
      (if ds_Blurb s \<noteq> [] then [el ''div'' ''blurb'' (escapeHtml (ds_Blurb s))] else []) @
      [Elem ''div'' ''grid-scroll'' [] []
        [Elem ''table'' ''grid'' [] (grid_head (mx_Libs (ds_Matrix s)))
          [Elem ''tbody'' [] [] [] (map (verdict_row (ds_Matrix s)) (enumerate 0 (mx_Scenarios (ds_Matrix s))))]]]))\<close>

lemma section_dom_verdicts:
  assumes "no_null nil" "write_struct (section_fields nil) s = Some v" "ds_Frames s = []"
  shows "section_dom (i, v) = Some (verdict_section (i, s))"
proof -
  note mem = section_members [OF assms(2)]
  obtain m where m: "js_prop (Some v) ''matrix'' = Some m" "write_struct (matrix_fields nil) (ds_Matrix s) = Some m"
    using mem(1) by blast
  note mm = matrix_members [OF assms(1) m(2)]
  have "grid_row (Some v) (Some m) (mx_Libs (ds_Matrix s)) row = Some (verdict_row (ds_Matrix s) row)" for row
    using js_map_Some [of "mx_Libs (ds_Matrix s)" "grid_cell (Some v) (Some m) (fst row) (snd row)"]
      grid_cell_verdict [OF assms(1) m(2) mem(5) [OF assms(3)]]
    by (simp add: grid_row_def verdict_row_def)
  then show ?thesis
    using js_map_Some [of "enumerate 0 (mx_Scenarios (ds_Matrix s))" "grid_row (Some v) (Some m) (mx_Libs (ds_Matrix s))" "verdict_row (ds_Matrix s)"]
    by (simp add: section_dom_def verdict_section_def section_head_def Let_def m(1) mm(1,2) mem js_array_def js_truthy_def)
qed

lemma list_all2_enumerate: "list_all2 P xs ys \<Longrightarrow> list_all2 (\<lambda>(i, x) (j, y). i = j \<and> P x y) (enumerate n xs) (enumerate n ys)"
  by (induction arbitrary: n rule: list_all2_induct) auto

lemma page_sections_verdicts:
  assumes "no_null nil" "write_struct (data_fields nil) d = Some v" "\<forall>s \<in> set (dd_Sections d). ds_Frames s = []"
  shows "page_sections (Some v) = Some (map verdict_section (enumerate 0 (dd_Sections d)))"
proof -
  obtain ss where ss: "js_prop (Some v) ''sections'' = Some (JArr ss)"
    "list_all2 (\<lambda>s v. write_struct (section_fields nil) s = Some v) (dd_Sections d) ss"
    using data_members [OF assms(1) assms(2)] by blast
  have "list_all2 (\<lambda>s v. section_dom (i, v) = Some (verdict_section (i, s))) (dd_Sections d) ss" for i
    using ss(2) by (rule list.rel_mono_strong) (use assms(3) section_dom_verdicts [OF assms(1)] in blast)
  then have "list_all2 (\<lambda>s v. \<forall>i. section_dom (i, v) = Some (verdict_section (i, s))) (dd_Sections d) ss"
    by (simp add: list_all2_conv_all_nth)
  then have "list_all2 (\<lambda>is iv. section_dom iv = Some (verdict_section is)) (enumerate 0 (dd_Sections d)) (enumerate 0 ss)"
    by (rule list.rel_mono_strong [OF list_all2_enumerate]) auto
  then show ?thesis by (simp add: page_sections_def ss(1) js_array_def js_map_all2)
qed

section \<open>What the status line counts\<close>

definition count_of :: "run_result list \<Rightarrow> verdict \<Rightarrow> nat" where
  "count_of rs v = length (filter (\<lambda>r. result_Verdict r = v) rs)"

definition dashboard_runs :: "dashboard_section list \<Rightarrow> run_result list" where
  "dashboard_runs ss = concat (map (\<lambda>s. mx_Results (ds_Matrix s)) ss)"

text \<open>The counters after the sections \<open>ss\<close>.\<close>

definition tallies_of :: "dashboard_section list \<Rightarrow> run_result list \<Rightarrow> tallies \<Rightarrow> tallies \<Rightarrow> bool" where
  "tallies_of ss rs t t' \<longleftrightarrow>
     tl_runs t' = tl_runs t + length rs \<and> (\<forall>v. tl_byV t' (Fin (of_nat (severity v))) = tl_byV t (Fin (of_nat (severity v))) + count_of rs v) \<and>
     tl_libs t' = tl_libs t @ concat (map (\<lambda>s. mx_Libs (ds_Matrix s)) ss) \<and>
     tl_scn t' = tl_scn t + sum_list (map (\<lambda>s. length (mx_Scenarios (ds_Matrix s))) ss)"

lemma count_runs:
  assumes "written_results nil rs vs"
  shows "\<exists>t'. js_each count_run vs t = Some t' \<and> tallies_of [] rs t t'"
  using assms unfolding written_results_def
proof (induction arbitrary: t rule: list_all2_induct)
  case (Cons r rs v vs)
  let ?t = "t\<lparr>tl_runs := tl_runs t + 1, tl_byV := (tl_byV t)(Fin (of_nat (severity (result_Verdict r))) :=
    tl_byV t (Fin (of_nat (severity (result_Verdict r)))) + 1)\<rparr>"
  have "count_run v t = Some ?t" using rollup_verdict [OF Cons.hyps(1)] by (simp add: count_run_def)
  moreover obtain t' where "js_each count_run vs ?t = Some t'" "tallies_of [] rs ?t t'" using Cons.IH by blast
  ultimately show ?case by (auto simp: tallies_of_def count_of_def severity_inj)
qed (simp add: tallies_of_def count_of_def)

lemma count_sections:
  assumes "no_null nil" "list_all2 (\<lambda>s v. write_struct (section_fields nil) s = Some v) ss vs"
  shows "\<exists>t'. js_each count_section vs t = Some t' \<and> tallies_of ss (dashboard_runs ss) t t'"
  using assms(2)
proof (induction arbitrary: t rule: list_all2_induct)
  case (Cons s ss v vs)
  obtain m where m: "js_prop (Some v) ''matrix'' = Some m" "write_struct (matrix_fields nil) (ds_Matrix s) = Some m"
    using section_members(1) [OF Cons.hyps(1)] by blast
  note mm = matrix_members [OF assms(1) m(2)]
  obtain rs where rs: "js_prop (Some m) ''results'' = Some (JArr rs)" "written_results nil (mx_Results (ds_Matrix s)) rs" using mm(3) by blast
  let ?t = "t\<lparr>tl_scn := tl_scn t + length (mx_Scenarios (ds_Matrix s)), tl_libs := tl_libs t @ mx_Libs (ds_Matrix s)\<rparr>"
  obtain t1 where t1: "js_each count_run rs ?t = Some t1" "tallies_of [] (mx_Results (ds_Matrix s)) ?t t1" using count_runs [OF rs(2)] by blast
  have "count_section v t = Some t1"
    using t1(1) by (simp add: count_section_def m(1) mm(1,2) rs(1) js_array_def Let_def comp_def)
  moreover obtain t' where "js_each count_section vs t1 = Some t'" "tallies_of ss (dashboard_runs ss) t1 t'" using Cons.IH by blast
  ultimately show ?case using t1(2) by (auto simp: tallies_of_def dashboard_runs_def count_of_def)
qed (simp add: tallies_of_def dashboard_runs_def count_of_def)

lemma page_tallies_counts:
  assumes "no_null nil" "write_struct (data_fields nil) d = Some v"
  shows "\<exists>t. page_tallies (Some v) = Some t \<and> tl_runs t = length (dashboard_runs (dd_Sections d)) \<and>
    (\<forall>vd. tl_byV t (Fin (of_nat (severity vd))) = count_of (dashboard_runs (dd_Sections d)) vd) \<and>
    tl_libs t = concat (map (\<lambda>s. mx_Libs (ds_Matrix s)) (dd_Sections d))"
proof -
  obtain ss where "js_prop (Some v) ''sections'' = Some (JArr ss)"
    "list_all2 (\<lambda>s v. write_struct (section_fields nil) s = Some v) (dd_Sections d) ss"
    using data_members [OF assms] by blast
  then show ?thesis
    using count_sections [OF assms(1), of "dd_Sections d" ss "\<lparr>tl_libs = [], tl_runs = 0, tl_byV = \<lambda>_. 0, tl_scn = 0\<rparr>"]
    by (auto simp: page_tallies_def js_array_def tallies_of_def)
qed

text \<open>The page around its data.\<close>

lemma WriteDashboard_data:
  assumes "WriteDashboard nil rest title generated sections = Some page"
    "data_ok \<lparr>dd_Title = title, dd_Generated = generated, dd_Sections = sections\<rparr>"
  shows "\<exists>js v. page = page_start @ island_open @ js @ ''</script>'' @ CHR 0x0A # rest \<and> page_data js = Some v \<and>
    write_struct (data_fields nil) \<lparr>dd_Title = title, dd_Generated = generated, dd_Sections = sections\<rparr> = Some v"
  using assms page_data_render by (auto simp: WriteDashboard_def)

text \<open>An empty matrix whose results are the nil slice stops the script at the status line, and with it
  everything the page would show of the other sections.\<close>

lemma js_each_stops: "x \<in> set xs \<Longrightarrow> (\<And>s. f x s = None) \<Longrightarrow> js_each f xs s = None"
  by (induction xs arbitrary: s) (auto split: Option.bind_splits)

lemma nil_results_stop_script:
  assumes "nil ''results''" "\<not> nil ''sections''" "s \<in> set (dd_Sections d)" "mx_Results (ds_Matrix s) = []"
    "write_struct (data_fields nil) d = Some v"
  shows "page_tallies (Some v) = None \<and> page_status (Some v) = None"
proof -
  have w: "write_list False (write_struct (section_fields nil)) (dd_Sections d) \<noteq> None"
    using assms(2,5) write_struct_None [of "data_fields nil" d] by (auto simp: data_fields_def write_field_def keep_def)
  then obtain ss where ss: "js_prop (Some v) ''sections'' = Some (JArr ss)"
    "list_all2 (\<lambda>s v. write_struct (section_fields nil) s = Some v) (dd_Sections d) ss"
    using js_prop_struct [OF assms(5) field_names(5), of "''sections''"] assms(2)
      write_elements_all2 [of "write_struct (section_fields nil)" "dd_Sections d"]
    by (auto simp: data_fields_def write_field_def keep_def write_list_def)
  obtain sv where sv: "sv \<in> set ss" "write_struct (section_fields nil) s = Some sv"
    using list_all2_source [OF ss(2) assms(3)] by blast
  obtain m where m: "js_prop (Some sv) ''matrix'' = Some m" "write_struct (matrix_fields nil) (ds_Matrix s) = Some m"
    using section_members(1) [OF sv(2)] by blast
  have "js_prop (Some m) ''results'' = Some JNull"
    using js_prop_struct [OF m(2) field_names(3), of "''results''"] assms(1,4)
    by (simp add: matrix_fields_def write_field_def keep_def write_list_def)
  then have "count_section sv t = None" for t by (simp add: count_section_def m(1) js_array_def Let_def split: Option.bind_split)
  then have "page_tallies (Some v) = None" using js_each_stops [OF sv(1), of count_section] by (simp add: page_tallies_def ss(1) js_array_def)
  then show ?thesis by (simp add: page_status_def ss(1) js_array_def)
qed

end
