(* ===== verification/DashboardPage.thy ===== *)
theory DashboardPage
  imports Dashboard
begin

text \<open>
  The part of the page of \<^verbatim>\<open>report/dashboard.go\<close> that does not depend on the data: the style sheet
  and the elements the script fills. Between them and the end of the page stands the text of the
  script, an argument here; what it does is theories \<^verbatim>\<open>Dashboard\<close>, \<^verbatim>\<open>DashboardView\<close> and
  \<^verbatim>\<open>DashboardEvents\<close>. The lemmas say that the page has each element the script looks up, once.
\<close>

section \<open>The style sheet\<close>

definition lines_text :: "string list \<Rightarrow> string" where
  "lines_text ls = concat (map (\<lambda>l. l @ [CHR 0x0A]) ls)"

definition hrule :: "nat \<Rightarrow> string" where
  "hrule n = concat (replicate n [CHR 0xE2, CHR 0x94, CHR 0x80])"

definition record_dot :: string where
  "record_dot = [CHR 0xE2, CHR 0x97, CHR 0x8F]"

definition play_sign :: string where
  "play_sign = [CHR 0xE2, CHR 0x96, CHR 0xB6]"

definition style_base :: string where
  \<open>style_base = lines_text [''<style>'',
     ''  /* International-Typographic light theme: paper ground, hairline rules, ink +'',
     ''     a lone red accent. Colour appears ONLY as signal (verdicts, curves). */'',
     ''  :root {'',
     ''    --bg:#fcfcfa; --bg2:#f4f4f0; --panel:#ffffff; --panel2:#f7f7f3; --line:#e6e6e0; --line2:#cdccc4;'',
     ''    --ink:#17191e; --ink2:#000000; --muted:#646a72; --faint:#9aa0a6;'',
     ''    --accent:#e5341e; /* Swiss red '' @ dash @ '' the lone chrome accent */'',
     ''    --phos:#1f8a4e; --phos-dim:#4a8f68; --amber:#a8700a; --red:#d72a1e; --blue:#1f61c9; --mag:#b3208a; --cyan:#1f61c9;'',
     ''    --pass:var(--phos); --warn:var(--amber); --fail:var(--red); --unsup:var(--blue); --error:var(--mag);'',
     ''    --mono:ui-monospace,"SF Mono","JetBrains Mono","Cascadia Code",Menlo,Consolas,monospace;'',
     ''    --sans:"Helvetica Neue",Helvetica,Arial,system-ui,-apple-system,sans-serif;'',
     ''  }'',
     ''  * { box-sizing:border-box; }'',
     ''  html,body { margin:0; }'',
     ''  body {'',
     ''    background:var(--bg);'',
     ''    color:var(--ink); font-family:var(--sans); font-size:13px; line-height:1.55;'',
     ''    -webkit-font-smoothing:antialiased; text-rendering:optimizeLegibility; letter-spacing:0;'',
     ''    padding-bottom:5rem;'',
     ''  }'',
     ''  .wrap { max-width:1320px; margin:0 auto; padding:2.6rem 1.9rem 0; }'',
     []]\<close>

definition style_masthead :: string where
  \<open>style_masthead = lines_text [''  /* '' @ hrule 2 @ '' masthead '' @ hrule 45 @ '' */'',
     ''  .mast { display:flex; align-items:flex-end; justify-content:space-between; gap:1.5rem; flex-wrap:wrap;'',
     ''          border-bottom:1px solid var(--ink2); padding-bottom:1.05rem; }'',
     ''  .brand { display:flex; flex-direction:column; gap:.4rem; }'',
     ''  .kicker { font-size:.62rem; letter-spacing:.34em; color:var(--accent); text-transform:uppercase; font-weight:600; }'',
     ''  .title { font-size:2.5rem; font-weight:800; letter-spacing:-.025em; line-height:.92; color:var(--ink2); }'',
     ''  .title b { color:var(--accent); font-weight:800; }'',
     ''  .subtitle { font-size:.7rem; color:var(--muted); letter-spacing:.13em; text-transform:uppercase; }'',
     ''  .stamp { text-align:right; font-size:.62rem; color:var(--muted); letter-spacing:.08em; line-height:1.85; font-family:var(--mono); }'',
     ''  .stamp .live { color:var(--phos); }'',
     ''  .stamp .live::before { content:"'' @ record_dot @ ''"; margin-right:.4em; }'',
     ''  @keyframes blink { 0%,70%{opacity:1} 71%,100%{opacity:.25} }'',
     []]\<close>

definition style_status :: string where
  \<open>style_status = lines_text [''  /* '' @ hrule 2 @ '' status bar (measurement readouts) '' @ hrule 20 @ '' */'',
     ''  .status { display:grid; grid-template-columns:repeat(auto-fit,minmax(150px,1fr)); gap:1px;'',
     ''            background:var(--line); border:1px solid var(--line); margin:1.9rem 0 .4rem; }'',
     ''  .led { background:var(--panel); padding:.95rem 1.1rem; position:relative; }'',
     ''  .led::after { content:""; position:absolute; left:0; top:0; bottom:0; width:2px; background:var(--c,var(--phos)); }'',
     ''  .led .lk { font-size:.56rem; letter-spacing:.18em; color:var(--muted); text-transform:uppercase; }'',
     ''  .led .lv { font-size:1.95rem; font-weight:700; color:var(--ink2); font-family:var(--mono); font-variant-numeric:tabular-nums; line-height:1.2; letter-spacing:-.02em; }'',
     ''  .led .lv small { font-size:.82rem; color:var(--muted); font-weight:400; }'',
     ''  .led .lv .pct { color:var(--c,var(--phos)); }'',
     []]\<close>

definition style_legend :: string where
  \<open>style_legend = lines_text [''  /* '' @ hrule 2 @ '' legend '' @ hrule 47 @ '' */'',
     ''  .legend { display:flex; gap:1.6rem; flex-wrap:wrap; align-items:center; padding:1.15rem 0 .2rem; font-size:.64rem; color:var(--muted); letter-spacing:.05em; }'',
     ''  .legend .chip { display:inline-flex; align-items:center; gap:.5rem; text-transform:uppercase; }'',
     ''  .legend .sw { width:10px; height:10px; border-radius:0; box-shadow:none; background:var(--c); }'',
     ''  .legend .note { margin-left:auto; color:var(--faint); font-style:italic; letter-spacing:.01em; text-transform:none; }'',
     []]\<close>

definition style_launcher :: string where
  \<open>style_launcher = lines_text [''  /* '' @ hrule 2 @ '' run-launcher (cockpit only) '' @ hrule 25 @ '' */'',
     ''  .launcher { border:1px solid var(--line); background:var(--panel); margin:1.6rem 0 .2rem; }'',
     ''  .launcher .lh { display:flex; align-items:center; gap:.7rem; padding:.7rem 1.1rem; border-bottom:1px solid var(--line); background:var(--panel2); }'',
     ''  .launcher .lh .t { font-size:.6rem; letter-spacing:.22em; text-transform:uppercase; color:var(--ink2); font-weight:600; }'',
     ''  .launcher .lh .live { font-size:.56rem; color:var(--muted); letter-spacing:.08em; margin-left:auto; text-transform:uppercase; }'',
     ''  .launcher .lh .live::before { content:"'' @ record_dot @ ''"; color:var(--phos); margin-right:.4em; }'',
     ''  .launcher .lbody { padding:.85rem 1.1rem; }'',
     ''  .runbtns { display:flex; flex-wrap:wrap; gap:.5rem; }'',
     ''  .runbtns button { font-family:var(--mono); font-size:.62rem; letter-spacing:.04em; text-transform:uppercase; color:var(--ink);'',
     ''    background:var(--panel); border:1px solid var(--line2); padding:.42rem .75rem; cursor:pointer; transition:.12s; border-radius:0; }'',
     ''  .runbtns button:hover:not(:disabled){ border-color:var(--ink2); color:var(--ink2); }'',
     ''  .runbtns button:disabled{ opacity:.4; cursor:default; }'',
     ''  .runbtns button .nd{ color:var(--faint); } .runbtns button.has .nd{ color:var(--phos); }'',
     ''  .runconsole { margin-top:.8rem; background:var(--panel2); border:1px solid var(--line); color:var(--ink); font-family:var(--mono); font-size:.66rem; line-height:1.55;'',
     ''    padding:.65rem .75rem; max-height:200px; overflow:auto; white-space:pre-wrap; display:none; }'',
     ''  .runconsole.show{ display:block; }'',
     ''  .runconsole .rdone{ color:var(--phos); } .runconsole .rrun{ color:var(--amber); }'',
     []]\<close>

definition style_compare :: string where
  \<open>style_compare = lines_text [''  /* '' @ hrule 2 @ '' cross-protocol resilience comparison '' @ hrule 16 @ '' */'',
     ''  .compare { border:1px solid var(--line); background:var(--panel); margin:1.6rem 0 .2rem; }'',
     ''  .compare .cmp-head { display:flex; align-items:baseline; gap:.8rem; flex-wrap:wrap; padding:.95rem 1.1rem .7rem; border-bottom:1px solid var(--line); }'',
     ''  .compare .cmp-head h2 { margin:0; font-size:1rem; font-weight:700; letter-spacing:-.01em; color:var(--ink2); }'',
     ''  .compare .cmp-head .seq { font-size:.6rem; color:var(--accent); letter-spacing:.2em; }'',
     ''  .compare .cmp-head .sub { font-size:.6rem; color:var(--muted); letter-spacing:.1em; text-transform:uppercase; margin-left:auto; }'',
     ''  .cmp-caveat { padding:.7rem 1.1rem; color:var(--muted); font-size:.7rem; line-height:1.6; border-bottom:1px solid var(--line); }'',
     ''  .cmp-caveat b { color:var(--ink2); font-weight:700; }'',
     ''  .cmp-scroll { overflow-x:auto; }'',
     ''  table.cmp { border-collapse:separate; border-spacing:0; width:100%; }'',
     ''  table.cmp th, table.cmp td { border-right:1px solid var(--line); border-bottom:1px solid var(--line); }'',
     ''  table.cmp thead th { background:var(--panel2); color:var(--muted); font-weight:600; font-size:.6rem; letter-spacing:.12em;'',
     ''                       text-transform:uppercase; padding:.55rem .7rem; text-align:center; white-space:nowrap; }'',
     ''  table.cmp thead th.lcol { text-align:left; }'',
     ''  table.cmp thead th .axh { color:var(--faint); font-size:.52rem; display:block; letter-spacing:.08em; margin-top:.15rem; }'',
     ''  table.cmp tbody th { background:var(--panel); text-align:left; padding:.5rem .9rem; white-space:nowrap; font-weight:600; font-size:.76rem; }'',
     ''  table.cmp tbody th .proto { color:var(--muted); font-size:.54rem; letter-spacing:.2em; text-transform:uppercase; display:block; }'',
     ''  table.cmp tbody th .lib { color:var(--ink2); }'',
     ''  table.cmp tbody th .meta { color:var(--faint); font-size:.56rem; letter-spacing:.04em; margin-left:.5em; font-family:var(--mono); }'',
     ''  table.cmp tbody tr.grp-top th, table.cmp tbody tr.grp-top td { border-top:1px solid var(--ink2); }'',
     ''  td.cnum { text-align:center; position:relative; padding:.5rem .6rem; min-width:92px; }'',
     ''  td.cnum .pct { font-size:1.15rem; font-weight:700; font-family:var(--mono); font-variant-numeric:tabular-nums; color:var(--c); line-height:1; letter-spacing:-.03em; }'',
     ''  td.cnum .bar { height:2px; margin-top:.45rem; background:var(--line); position:relative; overflow:hidden; }'',
     ''  td.cnum .bar i { position:absolute; left:0; top:0; bottom:0; background:var(--c); }'',
     ''  td.cnum .sc { font-size:.5rem; color:var(--faint); letter-spacing:.06em; margin-top:.35rem; font-family:var(--mono); }'',
     ''  td.cnum.na { color:var(--faint); } td.cnum.na .pct { color:var(--faint); font-size:.68rem; font-weight:400; }'',
     ''  td.cnum.sel-able { cursor:pointer; transition:background .12s; }'',
     ''  td.cnum.sel-able:hover { background:var(--panel2); }'',
     ''  td.cnum.sel { box-shadow:inset 0 0 0 2px var(--c); background:var(--panel2); }'',
     ''  .cmp-foot { padding:.65rem 1.1rem; color:var(--faint); font-size:.6rem; line-height:1.6; letter-spacing:.02em; }'',
     ''  .cmp-foot .sch { color:var(--amber); } .cmp-foot .bid { color:var(--phos); }'',
     []]\<close>

definition style_deck :: string where
  \<open>style_deck = lines_text [''  /* '' @ hrule 2 @ '' deck: grids + readout '' @ hrule 32 @ '' */'',
     ''  .deck { display:grid; grid-template-columns:minmax(0,1fr) 340px; gap:1.6rem; align-items:start; margin-top:1.2rem; }'',
     ''  @media (max-width:960px){ .deck{ grid-template-columns:1fr; } }'',
     [],
     ''  section.cap { border:1px solid var(--line); background:var(--panel); margin-bottom:1.5rem; }'',
     ''  .cap-head { display:flex; align-items:baseline; gap:.8rem; flex-wrap:wrap; padding:.95rem 1.1rem .7rem; border-bottom:1px solid var(--line); }'',
     ''  .cap-head h2 { margin:0; font-size:1rem; font-weight:700; letter-spacing:-.01em; color:var(--ink2); }'',
     ''  .cap-head .seq { font-size:.62rem; color:var(--accent); letter-spacing:.18em; font-family:var(--mono); }'',
     ''  .tier { font-size:.55rem; letter-spacing:.14em; text-transform:uppercase; padding:.22rem .5rem; border:1px solid var(--line2); border-radius:0; white-space:nowrap; color:var(--muted); }'',
     ''  .tier.t1 { color:var(--ink2); border-color:var(--ink2); }'',
     ''  .tier.t2 { color:var(--muted); border-color:var(--line2); }'',
     ''  .blurb { padding:.7rem 1.1rem; color:var(--muted); font-size:.74rem; line-height:1.65; border-bottom:1px solid var(--line); }'',
     [],
     ''  .grid-scroll { overflow-x:auto; }'',
     ''  table.grid { border-collapse:separate; border-spacing:0; width:100%; }'',
     ''  table.grid th, table.grid td { padding:0; border-right:1px solid var(--line); border-bottom:1px solid var(--line); }'',
     ''  table.grid thead th { background:var(--panel2); color:var(--muted); font-weight:600; font-size:.64rem; letter-spacing:.12em;'',
     ''                        text-transform:uppercase; padding:.6rem .7rem; text-align:center; white-space:nowrap; position:sticky; top:0; }'',
     ''  table.grid thead th.corner { text-align:left; color:var(--faint); }'',
     ''  table.grid tbody th { background:var(--panel); color:var(--ink); font-weight:600; text-align:left; padding:.55rem .9rem;'',
     ''                        white-space:nowrap; font-size:.78rem; letter-spacing:0; }'',
     ''  td.cell { text-align:center; position:relative; }'',
     ''  .v { display:flex; flex-direction:column; align-items:center; justify-content:center; gap:.22rem; width:100%; min-width:96px;'',
     ''       padding:.62rem .5rem; cursor:pointer; transition:background .12s; border:1px solid transparent; }'',
     ''  .v:hover { background:var(--panel2); }'',
     ''  .v .dot { width:8px; height:8px; border-radius:50%; background:var(--c); }'',
     ''  .v .lab { font-size:.58rem; letter-spacing:.12em; color:var(--c); font-weight:600; }'',
     ''  .v.sel { background:var(--panel2); border-color:var(--c); box-shadow:inset 0 0 0 1px var(--c); }'',
     ''  .v.empty { color:var(--faint); cursor:default; }'',
     ''  .v.empty .dot { background:transparent; box-shadow:none; border:1px dashed var(--faint); }'',
     ''  td.cell.is-fail .v .dot, td.cell.is-error .v .dot { animation:pulse 1.8s ease-in-out infinite; }'',
     ''  @keyframes pulse { 0%,100%{ opacity:1; } 50%{ opacity:.35; } }'',
     [],
     ''  .c-pass{ --c:var(--pass);} .c-warn{ --c:var(--warn);}'',
     ''  .c-fail{ --c:var(--fail);} .c-unsup{ --c:var(--unsup);}'',
     ''  .c-error{ --c:var(--error);} .c-none{ --c:var(--faint);}'',
     []]\<close>

definition style_readout :: string where
  \<open>style_readout = lines_text [''  /* '' @ hrule 2 @ '' readout panel '' @ hrule 40 @ '' */'',
     ''  .readout { position:sticky; top:1.2rem; border:1px solid var(--line); background:var(--panel); min-height:280px; }'',
     ''  .ro-head { padding:.7rem .9rem; border-bottom:1px solid var(--line); display:flex; align-items:center; gap:.6rem; background:var(--panel2); }'',
     ''  .ro-head .t { font-size:.6rem; letter-spacing:.24em; color:var(--muted); text-transform:uppercase; }'',
     ''  .ro-head .v-pill { margin-left:auto; font-size:.6rem; letter-spacing:.1em; padding:.18rem .5rem; border-radius:0; color:var(--c); border:1px solid var(--c); }'',
     ''  .ro-body { padding:.95rem; }'',
     ''  .ro-empty { color:var(--faint); font-size:.74rem; line-height:1.7; padding:1.4rem .3rem; text-align:center; }'',
     ''  .ro-coord { font-size:.74rem; color:var(--ink2); letter-spacing:0; margin-bottom:.2rem; font-family:var(--mono); }'',
     ''  .ro-coord .lib { color:var(--ink2); font-weight:600; } .ro-coord .x { color:var(--faint); margin:0 .35em; } .ro-coord .scn { color:var(--accent); }'',
     ''  .ro-sub { font-size:.62rem; color:var(--muted); letter-spacing:.04em; margin-bottom:.85rem; }'',
     ''  .check { display:grid; grid-template-columns:auto 1fr; gap:.55rem; padding:.5rem 0; border-top:1px solid var(--line); }'',
     ''  .check:first-child { border-top:none; }'',
     ''  .check .cv { width:.5rem; align-self:start; margin-top:.35rem; height:.5rem; border-radius:50%; background:var(--c); }'',
     ''  .check .cname { font-size:.72rem; color:var(--ink2); letter-spacing:0; }'',
     ''  .check .cverd { font-size:.54rem; letter-spacing:.1em; color:var(--c); font-weight:600; }'',
     ''  .check .cdet { grid-column:2; font-size:.7rem; color:var(--muted); line-height:1.55; margin-top:.15rem; }'',
     ''  /* QoE band (delivered-% CI + A/V skew) in the readout */'',
     ''  .qoe { margin-top:.7rem; padding:.55rem .65rem; border:1px solid var(--line); background:var(--panel2); }'',
     ''  .qoe .qh { font-size:.54rem; letter-spacing:.14em; text-transform:uppercase; color:var(--muted); margin-bottom:.4rem; }'',
     ''  .qbar { position:relative; height:8px; background:var(--panel); border:1px solid var(--line2); }'',
     ''  .qbar .qci { position:absolute; top:0; bottom:0; background:var(--phos); opacity:.45; }'',
     ''  .qbar .qmean { position:absolute; top:-2px; bottom:-2px; width:2px; background:var(--ink2); }'',
     ''  .qsc { display:flex; justify-content:space-between; font-size:.54rem; color:var(--muted); margin-top:.25rem; font-variant-numeric:tabular-nums; font-family:var(--mono); }'',
     ''  .qskew { font-size:.78rem; color:var(--c,var(--ink2)); font-variant-numeric:tabular-nums; font-family:var(--mono); }'',
     ''  .qskew .qval { font-weight:700; font-size:.9rem; }'',
     ''  .qoe.c-pass{ --c:var(--phos); } .qoe.c-warn{ --c:var(--amber); } .qoe.c-fail{ --c:var(--red); }'',
     ''  .metrics { margin-top:.9rem; border-top:1px solid var(--line); padding-top:.7rem; }'',
     ''  .metrics .mh { font-size:.56rem; letter-spacing:.18em; color:var(--faint); text-transform:uppercase; margin-bottom:.4rem; }'',
     ''  .metrics .m { display:flex; justify-content:space-between; gap:1rem; font-size:.7rem; padding:.14rem 0; font-family:var(--mono); }'',
     ''  .metrics .m .mk { color:var(--muted); } .metrics .m .mv { color:var(--ink2); font-variant-numeric:tabular-nums; }'',
     ''  .ro-err { margin-top:.8rem; color:var(--red); font-size:.7rem; border-left:2px solid var(--red); padding-left:.6rem; }'',
     []]\<close>

definition style_method :: string where
  \<open>style_method = lines_text [''  /* '' @ hrule 2 @ '' methodology footer '' @ hrule 35 @ '' */'',
     ''  .method { margin-top:2.6rem; border-top:1px solid var(--ink2); padding-top:1.3rem; }'',
     ''  .method h3 { font-size:.62rem; letter-spacing:.24em; color:var(--accent); text-transform:uppercase; margin:0 0 .9rem; }'',
     ''  .method .grid2 { display:grid; grid-template-columns:repeat(auto-fit,minmax(240px,1fr)); gap:1px; background:var(--line); border:1px solid var(--line); }'',
     ''  .method .m { background:var(--panel); padding:.95rem 1.05rem; }'',
     ''  .method .m b { color:var(--ink2); font-weight:700; font-size:.74rem; letter-spacing:0; }'',
     ''  .method .m p { margin:.4rem 0 0; color:var(--muted); font-size:.72rem; line-height:1.65; }'',
     ''  .method .m b .tag { color:var(--c,var(--accent)); }'',
     ''  .colophon { margin-top:1.5rem; color:var(--faint); font-size:.62rem; letter-spacing:.04em; text-align:center; }'',
     ''  .colophon b { color:var(--muted); }'']\<close>

definition style_theater :: string where
  \<open>style_theater = lines_text [''  /* '' @ hrule 2 @ '' Resilience Theater (cross-protocol curves) '' @ hrule 2 @ '' */'',
     ''  .thhead { display:flex; align-items:baseline; gap:.7rem; margin-bottom:.7rem; }'',
     ''  .thhead .seq { color:var(--accent); font-size:.9rem; }'',
     ''  .thhead h2 { margin:0; font-size:1.05rem; letter-spacing:-.01em; color:var(--ink2); font-weight:700; }'',
     ''  .thhead .sub { color:var(--muted); font-size:.64rem; letter-spacing:.02em; }'',
     ''  .thlegend { display:flex; flex-wrap:wrap; gap:1.1rem; margin-bottom:.5rem; }'',
     ''  .thlg { display:inline-flex; align-items:center; gap:.45em; font-size:.62rem; letter-spacing:.08em; text-transform:uppercase; color:var(--muted); }'',
     ''  .thlg i { width:18px; height:2px; border-radius:0; display:inline-block; }'',
     ''  .thsvg { width:100%; height:auto; display:block; background:var(--panel); border:1px solid var(--line2); border-radius:0; }'',
     ''  .thsvg .thgrid { stroke:var(--line); stroke-width:1; }'',
     ''  .thsvg .thax { stroke:var(--line2); stroke-width:1; stroke-dasharray:2 4; }'',
     ''  .thsvg .thylab { fill:var(--muted); font:600 9px var(--mono); text-anchor:end; }'',
     ''  .thsvg .thxlab { fill:var(--ink2); font:600 9.5px var(--mono); text-anchor:middle; letter-spacing:.1em; }'',
     ''  .thsvg .thband { opacity:.12; stroke:none; transition:opacity .12s; }'',
     ''  .thsvg .thline { fill:none; stroke-width:2; opacity:.95; transition:opacity .12s,stroke-width .12s; }'',
     ''  .thsvg .thdot { stroke:var(--panel); stroke-width:1.4; transition:opacity .12s; }'',
     ''  .thsvg .thend { font:600 9.5px var(--mono); transition:opacity .12s; }'',
     ''  .thsvg .dim { opacity:.16 !important; }'',
     ''  .thsvg .thline.hot { stroke-width:3.2; opacity:1; }'',
     ''  .thsvg .thband.hot { opacity:.28 !important; }'',
     ''  .thsvg .thend.hot { font-weight:800; }'',
     ''  .thnarr { margin-top:.9rem; padding:.75rem .95rem; border-left:2px solid var(--accent); background:var(--panel2);'',
     ''            font-size:.78rem; line-height:1.7; color:var(--ink); letter-spacing:0; }'',
     ''  .thnarr b { font-weight:700; } .thnarr .c-pass { color:var(--phos); } .thnarr .c-fail { color:var(--red); }'',
     ''  .thfoot { margin-top:.7rem; color:var(--faint); font-size:.62rem; line-height:1.6; }'',
     ''  .thempty { color:var(--muted); font-style:italic; padding:3rem 1rem; text-align:center; }'']\<close>

definition style_film :: string where
  \<open>style_film = lines_text [''  /* '' @ hrule 2 @ '' "what survived" glass-to-glass filmstrip (per-cell baked frames) '' @ hrule 2 @ '' */'',
     ''  .gtape { margin:.3rem 0 .9rem; border:1px solid var(--line); border-radius:0; overflow:hidden; background:var(--panel); }'',
     ''  .gtape .gth { display:flex; align-items:center; gap:.5rem; padding:.5rem .7rem; border-bottom:1px solid var(--line); background:var(--panel2);'',
     ''                font-size:.54rem; letter-spacing:.2em; text-transform:uppercase; color:var(--muted); }'',
     ''  .gtape .gth .gdp { margin-left:auto; color:var(--ink2); letter-spacing:.04em; text-transform:none; font-size:.62rem; font-family:var(--mono); }'',
     ''  .gmon { position:relative; aspect-ratio:16/9; max-width:540px; margin:0 auto; background:#000; overflow:hidden;'',
     ''          border-bottom:1px solid var(--line); }'',
     ''  .gmon img { width:100%; height:100%; object-fit:cover; display:block; transition:opacity .12s; }'',
     ''  .gmon .glost { position:absolute; inset:0; display:none; flex-direction:column; align-items:center; justify-content:center; gap:.3rem;'',
     ''                 background:repeating-linear-gradient(0deg,#0c0c0c,#0c0c0c 2px,#050505 2px,#050505 4px); color:var(--red);'',
     ''                 font-size:.66rem; letter-spacing:.22em; text-shadow:0 0 12px rgba(255,79,79,.5); }'',
     ''  .gmon .glost small { color:var(--muted); font-size:.5rem; letter-spacing:.12em; }'',
     ''  .gmon.lost .glost { display:flex; } .gmon.lost img { opacity:.12; filter:grayscale(1); }'',
     ''  .gmon .gtc { position:absolute; left:.5rem; bottom:.45rem; font-size:.52rem; letter-spacing:.12em; color:var(--ink2);'',
     ''               background:rgba(0,0,0,.6); padding:.12rem .45rem; border-radius:2px; }'',
     ''  .gstrip { display:flex; gap:2px; padding:.4rem; background:var(--panel2); }'',
     ''  .gslot { position:relative; flex:1; aspect-ratio:16/9; background:#000; cursor:crosshair; overflow:hidden;'',
     ''           outline:1px solid transparent; outline-offset:-1px; }'',
     ''  .gslot img { width:100%; height:100%; object-fit:cover; display:block; }'',
     ''  .gslot.lost { background:repeating-linear-gradient(0deg,#140707,#140707 1px,#050505 1px,#050505 3px); }'',
     ''  .gslot.lost::after { content:""; position:absolute; inset:0; box-shadow:inset 0 0 0 1px rgba(215,42,30,.3); }'',
     ''  .gslot.cur { outline-color:var(--accent); z-index:2; }'',
     ''  .gribbon { padding:.5rem .55rem .6rem; }'',
     ''  .gribbon .grow { position:relative; height:8px; border-radius:0; background:var(--line); overflow:hidden; border:1px solid var(--line2); }'',
     ''  .gribbon .grow i { position:absolute; left:0; top:0; bottom:0; background:var(--phos); }'',
     ''  .gribbon .glab { display:flex; justify-content:space-between; margin-top:.32rem; font-size:.56rem; letter-spacing:.04em; color:var(--muted); font-family:var(--mono); }'',
     ''  .gribbon .glab .av { color:var(--phos); }'',
     ''  /* grid cells with a baked filmstrip carry a marker + a hover preview that PLAYS the degradation */'',
     ''  .grid td.hasfilm { position:relative; }'',
     ''  .grid td.hasfilm::after { content:"'' @ play_sign @ ''"; position:absolute; top:3px; right:5px; font-size:.46rem; color:var(--accent); opacity:.7; }'',
     ''  .gpop { position:fixed; display:none; z-index:60; width:248px; background:var(--panel); border:1px solid var(--line2); border-radius:0;'',
     ''          box-shadow:0 16px 40px -18px rgba(0,0,0,.4); overflow:hidden; pointer-events:none; }'',
     ''  .gpop .gpmon { position:relative; aspect-ratio:16/9; background:#000; }'',
     ''  .gpop .gpmon img { width:100%; height:100%; object-fit:cover; display:block; }'',
     ''  .gpop .gplost { position:absolute; inset:0; display:none; align-items:center; justify-content:center; color:var(--red);'',
     ''                  font-size:.6rem; letter-spacing:.2em;'',
     ''                  background:repeating-linear-gradient(0deg,#0c0c0c,#0c0c0c 2px,#050505 2px,#050505 4px); }'',
     ''  .gpop .gpmon.lost .gplost { display:flex; } .gpop .gpmon.lost img { opacity:.1; filter:grayscale(1); }'',
     ''  .gpop .gpbar { position:relative; height:6px; background:var(--line); } .gpop .gpbar i { position:absolute; left:0; top:0; bottom:0; background:var(--phos); }'',
     ''  .gpop .gplab { padding:.34rem .55rem; font-size:.56rem; letter-spacing:.03em; color:var(--muted); display:flex; justify-content:space-between; font-family:var(--mono); }'',
     ''  .gpop .gplab b { color:var(--ink2); } .gpop .gplab .av { color:var(--phos); }'']\<close>

definition page_style :: string where
  "page_style = style_base @
     style_masthead @
     style_status @
     style_legend @
     style_launcher @
     style_compare @
     style_deck @
     style_readout @
     style_method @
     style_theater @
     style_film"

section \<open>The elements of the page\<close>

definition page_body :: "string list" where
  \<open>page_body = [''</style>'',
     ''</head>'',
     ''<body>'',
     ''<div class="wrap">'',
     ''  <header class="mast">'',
     ''    <div class="brand">'',
     ''      <span class="kicker">Impair '' @ mid_dot @ '' Transit-WPT</span>'',
     ''      <h1 class="title">SIGNAL'' @ mid_dot @ ''<b>BENCH</b></h1>'',
     ''      <span class="subtitle">media-transport conformance '' @ mid_dot @ '' oracle verdict matrix</span>'',
     ''    </div>'',
     ''    <div class="stamp" id="stamp"></div>'',
     ''  </header>'',
     [],
     ''  <div class="status" id="status"></div>'',
     ''  <div class="legend" id="legend"></div>'',
     [],
     ''  <section class="launcher" id="launcher" style="display:none"></section>'',
     ''  <section class="compare" id="compare"></section>'',
     ''  <section class="theater" id="theater" style="display:none"></section>'',
     [],
     ''  <div class="deck">'',
     ''    <main id="sections"></main>'',
     ''    <aside>'',
     ''      <div class="readout" id="readout">'',
     ''        <div class="ro-head"><span class="t">Readout</span></div>'',
     ''        <div class="ro-body"><div class="ro-empty">Select a cell to inspect the<br>oracle's per-check verdict,<br>reasoning, and metrics.</div></div>'',
     ''      </div>'',
     ''    </aside>'',
     ''  </div>'',
     [],
     ''  <footer class="method" id="method"></footer>'',
     ''  <div class="colophon">Impair / Transit-WPT '' @ mid_dot @ '' deterministic, protocol-aware impairment '' @ mid_dot @ '' graded from wire ground truth, never the implementation's self-report '' @ mid_dot @ '' <b>regenerate with the orchestrator</b></div>'',
     ''</div>'',
     []]\<close>

definition page_rest :: "string \<Rightarrow> string" where
  \<open>page_rest script = page_style @ lines_text (page_body @ [''<script>'']) @ script @ lines_text [''</script>'', ''</body>'', ''</html>'']\<close>

text \<open>The whole page, with the text of the script.\<close>

definition dashboard_page :: "(string \<Rightarrow> bool) \<Rightarrow> string \<Rightarrow> string \<Rightarrow> string \<Rightarrow> dashboard_section list \<Rightarrow> string option" where
  "dashboard_page nil script = WriteDashboard nil (page_rest script)"

text \<open>The values of the attribute \<^verbatim>\<open>id\<close> in a line of markup.\<close>

fun after :: "string \<Rightarrow> string \<Rightarrow> string option" where
  "after [] s = Some s"
| "after (c # p) [] = None"
| "after (c # p) (d # s) = (if c = d then after p s else None)"

fun ids_of :: "string \<Rightarrow> string list" where
  "ids_of [] = []"
| "ids_of (c # s) =
     (case after ('' id='' @ [CHR 0x22]) (c # s) of None \<Rightarrow> ids_of s | Some r \<Rightarrow> takeWhile (\<lambda>d. d \<noteq> CHR 0x22) r # ids_of s)"

text \<open>What the script gives to \<^verbatim>\<open>getElementById\<close> before it has made any element of its own, but for the
  data island.\<close>

definition script_hosts :: "string list" where
  "script_hosts = [''stamp'', ''status'', ''legend'', ''compare'', ''theater'', ''launcher'', ''readout'', ''sections'', ''method'']"

lemma page_ids: "concat (map ids_of page_body) =
    [''stamp'', ''status'', ''legend'', ''launcher'', ''compare'', ''theater'', ''sections'', ''readout'', ''method'']"
  by code_simp

lemma page_has_hosts: "distinct (concat (map ids_of page_body)) \<and> set (concat (map ids_of page_body)) = set script_hosts"
  unfolding page_ids by (auto simp: script_hosts_def)

end
