(* ===== verification/DashboardView.thy ===== *)
theory DashboardView
  imports Dashboard "HOL-Library.Sublist"
begin

text \<open>
  The markup the script of \<^verbatim>\<open>report/dashboard.go\<close> makes from the data: the readout of a run, its
  quality band and filmstrip, the table that compares protocols, and the curves. The lemmas say
  which frames a filmstrip shows and which strings reach the markup unescaped.
\<close>

section \<open>Numbers\<close>

definition js_max :: "f64 \<Rightarrow> f64 \<Rightarrow> f64" where
  "js_max a b = (if a = NaN \<or> b = NaN then NaN else if flt a b then b else a)"

definition js_min :: "f64 \<Rightarrow> f64 \<Rightarrow> f64" where
  "js_min a b = (if a = NaN \<or> b = NaN then NaN else if flt b a then b else a)"

fun js_floor :: "f64 \<Rightarrow> f64" where
  "js_floor (Fin x) = Fin (of_int \<lfloor>x\<rfloor>)"
| "js_floor v = v"

fun js_abs :: "f64 \<Rightarrow> f64" where
  "js_abs (Fin x) = Fin \<bar>x\<bar>"
| "js_abs NInf = PInf"
| "js_abs v = v"

definition js_clamp :: "f64 \<Rightarrow> f64" where
  "js_clamp x = js_max (Fin 0) (js_min (Fin 100) x)"

definition fmt :: "f64 \<Rightarrow> string" where
  "fmt n = (if feq n (js_round n) then js_number_text n
     else js_number_text (fdiv (js_round (fmul n (Fin 1000))) (Fin 1000)))"

definition num_text :: "f64 \<Rightarrow> string" where
  "num_text = js_number_text"

section \<open>The quality band\<close>

definition ci_band :: "js_value \<Rightarrow> f64 \<Rightarrow> f64 \<Rightarrow> f64 \<Rightarrow> string" where
  \<open>ci_band m l hh mn =
     ''<div class="qoe"><div class="qh">delivered % '' @ mid_dot @ '' bootstrap CI'' @
     (if js_truthy (js_prop m ''reps'') then '' ('' @ fmt (js_num (js_prop m ''reps'')) @ '' reps)'' else []) @ ''</div>'' @
     ''<div class="qbar"><span class="qci" style="left:'' @ num_text l @ ''%;width:'' @ num_text (js_max (Fin 1) (fsub hh l)) @ ''%"></span>'' @
     ''<span class="qmean" style="left:'' @ num_text mn @ ''%"></span></div>'' @
     ''<div class="qsc"><span>'' @ fmt (js_round l) @ ''%</span><span>'' @ fmt (js_round mn) @ ''% mean</span><span>'' @
     fmt (js_round hh) @ ''%</span></div></div>''\<close>

definition point_band :: "f64 \<Rightarrow> string" where
  \<open>point_band pc =
     ''<div class="qoe"><div class="qh">delivered %</div><div class="qbar"><span class="qci" style="left:0;width:'' @ num_text pc @
     ''%;opacity:.5"></span><span class="qmean" style="left:'' @ num_text pc @ ''%"></span></div></div>''\<close>

definition skew_strip :: "f64 \<Rightarrow> string" where
  \<open>skew_strip skew =
     (let sk = js_abs skew;
          cls = (if fle sk (Fin 400) then ''c-pass'' else if fle sk (Fin 1500) then ''c-warn'' else ''c-fail'');
          sg = (if flt skew (Fin 0) then ''-'' else ''+'');
          val = (if fle (Fin 1000) sk then sg @ fmt (fdiv (js_round (fdiv sk (Fin 100))) (Fin 10)) @ '' s''
            else sg @ fmt (js_round sk) @ '' ms'')
      in ''<div class="qoe '' @ cls @ ''"><div class="qh">A/V sync skew</div><div class="qskew"><span class="qval">'' @ val @ ''</span> '' @
         mid_dot @ '' '' @
         (if fle sk (Fin 400) then ''in sync'' else if fle sk (Fin 1500) then ''drifting'' else ''DESYNCED '' @ dash @ '' picture vs sound'') @
         ''</div></div>'')\<close>

definition qoeBand :: "js_value \<Rightarrow> string" where
  "qoeBand m =
     (let mean = either_prop m ''deliveredPctMean'' ''deliveryPctMean'';
          lo = either_prop m ''deliveredPctLo'' ''deliveryPctLo'';
          hi = either_prop m ''deliveredPctHi'' ''deliveryPctHi'';
          pt = either_prop m ''deliveredPct'' ''deliveryPct''
      in (if \<not> js_nullish lo \<and> \<not> js_nullish hi
          then ci_band m (js_clamp (js_num lo)) (js_clamp (js_num hi)) (js_clamp (js_num (if js_nullish mean then pt else mean)))
          else if \<not> js_nullish pt then point_band (js_clamp (js_num pt)) else []) @
         (if js_is_number (js_prop m ''avSkewMs'') then skew_strip (js_num (js_prop m ''avSkewMs'')) else []))"

section \<open>The filmstrip\<close>

text \<open>Of eight slots, those within the delivered fraction show a thumbnail.\<close>

definition js_items :: "js_value \<Rightarrow> json list" where
  "js_items v = (case v of Some (JArr vs) \<Rightarrow> vs | Some (JStr s) \<Rightarrow> map (\<lambda>c. JStr [c]) s | _ \<Rightarrow> [])"

definition percent_or_all :: "js_value \<Rightarrow> f64" where
  "percent_or_all v = js_max (Fin 0) (js_min (Fin 100) (if js_nullish v then Fin 100 else js_num v))"

definition live_slots :: "f64 \<Rightarrow> f64" where
  "live_slots dp = js_max (Fin 1) (js_min (Fin 8) (js_round (fdiv (fmul (Fin 8) dp) (Fin 100))))"

definition thumb_index :: "nat \<Rightarrow> f64 \<Rightarrow> nat \<Rightarrow> f64" where
  "thumb_index n live i = js_min (fof_int (int n - 1)) (js_floor (fdiv (fmul (fof_int (int i)) (fof_int (int n))) live))"

definition js_item :: "json list \<Rightarrow> f64 \<Rightarrow> js_value" where
  "js_item vs i = map_of (zip (map (\<lambda>k. Fin (of_nat k)) [0..<length vs]) vs) i"

text \<open>A slot is what \<^verbatim>\<open>src\<close> its frame has, or lost.\<close>

datatype slot = Frame js_value | Lost

definition film_slots :: "json list \<Rightarrow> f64 \<Rightarrow> slot list" where
  "film_slots thumbs live =
     map (\<lambda>i. if flt (fof_int (int i)) live then Frame (js_item thumbs (thumb_index (length thumbs) live i)) else Lost) [0..<8]"

definition gpop_seq :: "js_value \<Rightarrow> js_value list" where
  "gpop_seq fr = map (\<lambda>s. case s of Frame v \<Rightarrow> v | Lost \<Rightarrow> Some JNull)
     (film_slots (js_items (js_prop fr ''thumbs'')) (live_slots (percent_or_all (js_prop fr ''deliveredPct''))))"

definition last_src :: "slot list \<Rightarrow> f64 \<Rightarrow> js_value" where
  "last_src slots live = (case map_of (zip (map (\<lambda>k. Fin (of_nat k)) [0..<length slots]) slots) (fsub live (Fin 1)) of
     Some (Frame v) \<Rightarrow> v | _ \<Rightarrow> None)"

definition slot_html :: "f64 \<Rightarrow> nat \<times> slot \<Rightarrow> string" where
  \<open>slot_html live is = (case is of (i, s) \<Rightarrow> (case s of
     Lost \<Rightarrow> ''<div class="gslot lost" data-i="'' @ nat_text i @ ''"></div>''
   | Frame v \<Rightarrow> ''<div class="gslot'' @ (if feq (fof_int (int i)) (fsub live (Fin 1)) then '' cur'' else []) @ ''" data-i="'' @ nat_text i @
       ''" data-src="'' @ js_text v @ ''"><img src="'' @ js_text v @ ''" alt=""></div>''))\<close>

definition lost_sign :: string where
  "lost_sign = [CHR 0xE2, CHR 0x96, CHR 0xA3]"

definition whatSurvived :: "js_value \<Rightarrow> string" where
  \<open>whatSurvived fr =
     (let thumbs = js_items (js_prop fr ''thumbs'') in
      if thumbs = [] then []
      else
        let dp = percent_or_all (js_prop fr ''deliveredPct''); ap = percent_or_all (js_prop fr ''audioPct'');
            live = live_slots dp; slots = film_slots thumbs live; lastSrc = last_src slots live;
            kf = js_prop fr ''keyframes''
        in ''<div class="gtape">'' @
           ''<div class="gth">What survived '' @ mid_dot @ '' glass-to-glass<span class="gdp">'' @ fmt (js_round dp) @ ''% picture'' @
           (if js_nullish kf then [] else '' '' @ mid_dot @ '' '' @ fmt (js_num kf) @ '' keyframes'') @ ''</span></div>'' @
           ''<div class="gmon'' @ (if js_truthy lastSrc then [] else '' lost'') @ ''"><img src="'' @
           (if js_truthy lastSrc then js_text lastSrc else []) @ ''" alt=""><div class="glost">'' @ lost_sign @
           '' SIGNAL LOST<small>picture gone '' @ mid_dot @ '' audio continues</small></div><div class="gtc">last good frame</div></div>'' @
           ''<div class="gstrip">'' @ concat (map (slot_html live) (enumerate 0 slots)) @ ''</div>'' @
           ''<div class="gribbon"><div class="grow"><i style="width:'' @ num_text ap @ ''%"></i></div>'' @
           ''<div class="glab"><span>video '' @ fmt (js_round dp) @ ''%</span><span class="av">audio '' @ fmt (js_round ap) @ ''% '' @ dash @
           '' survives past the last frame</span></div></div>'' @
           ''</div>'')\<close>

section \<open>The readout of a run\<close>

text \<open>The keys of an object: array indices in ascending order, then the others as they were added.\<close>

definition index_key :: "string \<Rightarrow> bool" where
  "index_key k \<longleftrightarrow> digits (number k) = k \<and> number k < 2 ^ 32 - 1"

definition key_order :: "string list \<Rightarrow> string list" where
  "key_order ks = (let ds = rev (remdups (rev ks)) in sort_key number (filter index_key ds) @ filter (\<lambda>k. \<not> index_key k) ds)"

definition js_keys :: "js_value \<Rightarrow> string list" where
  "js_keys v = (case v of Some (JObj ms) \<Rightarrow> key_order (map fst ms) | _ \<Rightarrow> [])"

definition check_html :: "json \<Rightarrow> string option" where
  \<open>check_html c = do {
     cv \<leftarrow> badge_of (js_num (js_prop (Some c) ''verdict''));
     let detail = js_prop (Some c) ''detail'';
     Some (''<div class="check '' @ bd_cls cv @ ''"><span class="cv"></span><div><span class="cname">'' @ js_text (js_prop (Some c) ''name'') @
       ''</span> <span class="cverd">'' @ badge_label cv @ ''</span>'' @
       (if js_truthy detail then ''<div class="cdet">'' @ escapeHtml (js_text detail) @ ''</div>'' else []) @ ''</div></div>'')
   }\<close>

definition metrics_html :: "js_value \<Rightarrow> string" where
  \<open>metrics_html m =
     (if js_keys m = [] then []
      else ''<div class="metrics"><div class="mh">Metrics</div>'' @
        concat (map (\<lambda>k. ''<div class="m"><span class="mk">'' @ k @ ''</span><span class="mv">'' @ fmt (js_num (js_prop m k)) @ ''</span></div>'')
          (js_keys m)) @ ''</div>'')\<close>

definition arrow :: string where
  "arrow = [CHR 0xE2, CHR 0x96, CHR 0xB8]"

text \<open>The markup \<^verbatim>\<open>showReadout\<close> puts into the readout; \<open>s\<close> is the section the cell is of.\<close>

definition showReadout :: "js_value \<Rightarrow> string \<Rightarrow> string \<Rightarrow> js_value \<Rightarrow> string option" where
  \<open>showReadout s lib scn res = do {
     rv \<leftarrow> rollup res;
     v \<leftarrow> badge_of rv;
     checks \<leftarrow> js_array_or_empty (js_prop res ''checks'');
     details \<leftarrow> js_map check_html checks;
     let n = length checks;
     let m = js_object_or_empty (js_prop res ''metrics'');
     let fr = framesFor s lib scn;
     let err = js_prop res ''error'';
     Some (''<div class="ro-head"><span class="t">Readout</span><span class="v-pill '' @ bd_cls v @ ''">'' @ bd_k v @
       ''</span></div><div class="ro-body">'' @
       ''<div class="ro-coord"><span class="lib">'' @ lib @ ''</span><span class="x">'' @ arrow @ ''</span><span class="scn">'' @ scn @
       ''</span></div>'' @
       ''<div class="ro-sub">'' @ nat_text n @ '' invariant'' @ (if n = 1 then [] else ''s'') @ '' '' @ mid_dot @ '' rollup = '' @ bd_k v @ ''</div>'' @
       qoeBand m @ (if js_truthy fr then whatSurvived fr else []) @ concat details @ metrics_html m @
       (if js_truthy err then ''<div class="ro-err">ERROR '' @ mid_dot @ '' '' @ escapeHtml (js_text err) @ ''</div>'' else []) @ ''</div>'')
   }\<close>

section \<open>The comparison table\<close>

definition compare_head :: "compare_row list \<Rightarrow> string" where
  \<open>compare_head rows =
     ''<div class="cmp-head"><span class="seq">'' @ [CHR 0xE2, CHR 0x88, CHR 0x91] @ ''</span><h2>Cross-Protocol Resilience</h2>'' @
     ''<span class="sub">'' @ nat_text (length rows) @ '' impls '' @ mid_dot @ '' '' @ nat_text (length (remdups (filter (\<lambda>p. p \<noteq> ''__proto__'') (map cr_proto rows)))) @
     '' protocols '' @ mid_dot @ '' normalized</span></div>''\<close>

definition apostrophe :: string where
  "apostrophe = [CHR 0xE2, CHR 0x80, CHR 0x99]"

definition compare_caveat :: string where
  \<open>compare_caveat =
     ''<div class="cmp-caveat"><b>Protocol-relative normalization (RFC 6349-style):</b> every cell is delivered-% vs that implementation'' @ apostrophe @
     ''s OWN clean baseline '' @ dash @ '' '' @
     ''absolute throughput is NEVER compared across protocols, only the <i>shape</i> of each resilience curve. '' @
     ''<span class="bid">SRT/RIST share a bidirectional schedule</span> (directly comparable); '' @
     ''<span class="sch">MoQ is downlink-only</span> (impairing the QUIC ACK path starves recovery) and each MoQ row runs at its own bitrate '' @ dash @
     '' read MoQ against its own baseline, not against SRT/RIST or the other MoQ row.</div>''\<close>

definition compare_cell_html :: "compare_row \<Rightarrow> compare_cell option \<Rightarrow> string option" where
  \<open>compare_cell_html r co = (case co of
     None \<Rightarrow> Some (''<td class="cnum na"><span class="pct">'' @ dash @ ''</span></td>'')
   | Some c \<Rightarrow> do {
       v \<leftarrow> badge_of (cc_verdict c);
       let dattr = '' data-si="'' @ nat_text (cr_si r) @ ''" data-lib="'' @ escapeHtml (cr_lib r) @ ''" data-scn="'' @ escapeHtml (cc_scn c) @ ''"'';
       Some (case cc_pct c of
         None \<Rightarrow> ''<td class="cnum na sel-able '' @ bd_cls v @ ''"'' @ dattr @ ''><span class="pct">wire</span><div class="sc">'' @
           escapeHtml (cc_scn c) @ ''</div></td>''
       | Some pct \<Rightarrow> ''<td class="cnum sel-able '' @ bd_cls v @ ''"'' @ dattr @ ''><span class="pct">'' @
           fmt (fdiv (js_round (fmul pct (Fin 10))) (Fin 10)) @ ''<small style="font-size:.6rem;opacity:.6">%</small></span>'' @
           ''<div class="bar"><i style="width:'' @ num_text (js_clamp pct) @ ''%"></i></div><div class="sc">'' @ escapeHtml (cc_scn c) @ ''</div></td>'')
     })\<close>

text \<open>A protocol is named in the first of its rows.\<close>

definition compare_row_html :: "string option \<Rightarrow> compare_row \<Rightarrow> string option" where
  \<open>compare_row_html lastProto r = do {
     let top = (lastProto \<noteq> Some (cr_proto r));
     cells \<leftarrow> js_map (compare_cell_html r) (cr_cells r);
     Some (''<tr'' @ (if top then '' class="grp-top"'' else []) @ ''><th>'' @
       (if top then ''<span class="proto">'' @ escapeHtml (cr_proto r) @ ''</span>'' else []) @
       ''<span class="lib">'' @ escapeHtml (cr_lib r) @ ''</span>'' @
       ''<span class="meta">'' @ cr_tier r @ '' '' @ mid_dot @ '' '' @ (if cr_downlink r then ''S2C'' else ''bi'') @ ''</span></th>'' @
       concat cells @ ''</tr>'')
   }\<close>

fun compare_rows_html :: "string option \<Rightarrow> compare_row list \<Rightarrow> string option" where
  "compare_rows_html p [] = Some []"
| "compare_rows_html p (r # rs) = do {
     h \<leftarrow> compare_row_html p r;
     t \<leftarrow> compare_rows_html (Some (cr_proto r)) rs;
     Some (h @ t)
   }"

definition compare_foot :: string where
  \<open>compare_foot =
     ''<div class="cmp-foot">Specialized capability matrices (bonding, FEC, Tier-1 GE) are not loss-gradient comparisons and are shown only as their own sections below. '' @
     ''<span class="bid">bi</span> = bidirectional schedule '' @ mid_dot @ '' <span class="sch">S2C</span> = downlink-only '' @ mid_dot @
     '' <b>wire</b> = graded from the wire with no self-reported delivery %.</div>''\<close>

text \<open>The inner result is the markup, or \<open>None\<close> when the table is hidden.\<close>

definition buildCompare :: "js_value \<Rightarrow> string option option" where
  \<open>buildCompare data = do {
     rows \<leftarrow> compareRows data;
     if rows = [] then Some None
     else do {
       body \<leftarrow> compare_rows_html None rows;
       Some (Some (compare_head rows @ compare_caveat @
         ''<div class="cmp-scroll"><table class="cmp"><thead><tr><th class="lcol">protocol '' @ [CHR 0xE2, CHR 0x95, CHR 0xB2] @ '' severity</th>'' @
         concat (map (\<lambda>b. ''<th>'' @ bk_k b @ ''<span class="axh">'' @ bk_axh b @ ''</span></th>'') BUCKETS) @ ''</tr></thead><tbody>'' @
         body @ ''</tbody></table></div>'' @ compare_foot))
     }
   }\<close>

section \<open>The curves\<close>

definition THEFAM :: "(string \<times> string) list" where
  "THEFAM = [(''SRT'', ''#1f8a4e''), (''RIST'', ''#0d8a7a''), (''MoQ'', ''#1f61c9''), (''2022-7'', ''#a8700a''), (''2022-1'', ''#a8700a'')]"

definition theFam :: "string \<Rightarrow> string" where
  "theFam p = (case map_of THEFAM p of None \<Rightarrow> ''#9bb0a6'' | Some c \<Rightarrow> c)"

text \<open>The drawing is 980 by 460 with margins of 52, 196, 26 and 58.\<close>

definition plot_xs :: "f64 list" where
  "plot_xs = [Fin 52, Fin 418, Fin 784]"

definition yOf :: "f64 \<Rightarrow> f64" where
  "yOf p = fadd (Fin 26) (fmul (Fin 376) (fsub (Fin 1) (fdiv (js_clamp p) (Fin 100))))"

text \<open>The rows drawn: those with a percentage in each of three cells.\<close>

record curve =
  cu_row :: compare_row
  cu_cells :: "compare_cell list"

definition curves_of :: "compare_row list \<Rightarrow> curve list" where
  "curves_of rows = map (\<lambda>r. \<lparr>cu_row = r, cu_cells = map the (cr_cells r)\<rparr>)
     (filter (\<lambda>r. length (cr_cells r) = 3 \<and> list_all (\<lambda>c. c \<noteq> None \<and> cc_pct (the c) \<noteq> None) (cr_cells r)) rows)"

definition pct_of :: "compare_cell \<Rightarrow> f64" where
  "pct_of c = (case cc_pct c of None \<Rightarrow> NaN | Some p \<Rightarrow> p)"

definition grid_lines :: string where
  \<open>grid_lines = concat (map (\<lambda>g. let y = yOf (Fin g) in
       ''<line class="thgrid" x1="52" y1="'' @ num_text y @ ''" x2="784" y2="'' @ num_text y @ ''"/>'' @
       ''<text class="thylab" x="43" y="'' @ num_text (fadd y (Fin 3)) @ ''">'' @ num_text (Fin g) @ ''</text>'') [0, 25, 50, 75, 100]) @
     concat (map (\<lambda>(x, lab).
       ''<line class="thax" x1="'' @ num_text x @ ''" y1="26" x2="'' @ num_text x @ ''" y2="402"/>'' @
       ''<text class="thxlab" x="'' @ num_text x @ ''" y="426">'' @ lab @ ''</text>'') (zip plot_xs [''CLEAN'', ''STEADY LOSS'', ''BURST'']))\<close>

definition point_at :: "f64 \<Rightarrow> f64 \<Rightarrow> string" where
  "point_at x p = num_text x @ '','' @ num_text (yOf p)"

definition bound_or_pct :: "js_value \<Rightarrow> compare_cell \<Rightarrow> f64" where
  "bound_or_pct v c = (if js_nullish v then pct_of c else js_num v)"

definition ci_ribbon :: "nat \<times> curve \<Rightarrow> string" where
  \<open>ci_ribbon rc = (case rc of (ri, r) \<Rightarrow>
     if list_all (\<lambda>c. js_nullish (cc_lo c) \<or> js_nullish (cc_hi c)) (cu_cells r) then []
     else ''<polygon class="thband" data-row="'' @ nat_text ri @ ''" points="'' @
       concat (map (\<lambda>(x, c). point_at x (bound_or_pct (cc_hi c) c) @ '' '') (zip plot_xs (cu_cells r))) @
       concat (map (\<lambda>(x, c). point_at x (bound_or_pct (cc_lo c) c) @ '' '') (rev (zip plot_xs (cu_cells r)))) @
       ''" style="fill:'' @ theFam (cr_proto (cu_row r)) @ ''"/>'')\<close>

definition curve_line :: "nat \<times> curve \<Rightarrow> string" where
  \<open>curve_line rc = (case rc of (ri, r) \<Rightarrow>
     let col = theFam (cr_proto (cu_row r)) in
     ''<polyline class="thline" data-row="'' @ nat_text ri @ ''" points="'' @
     join '' '' (map (\<lambda>(x, c). point_at x (pct_of c)) (zip plot_xs (cu_cells r))) @ ''" style="stroke:'' @ col @ ''"/>'' @
     concat (map (\<lambda>(x, c). ''<circle class="thdot" data-row="'' @ nat_text ri @ ''" cx="'' @ num_text x @ ''" cy="'' @ num_text (yOf (pct_of c)) @
       ''" r="3.4" style="fill:'' @ col @ ''"><title>'' @ escapeHtml (cr_lib (cu_row r)) @ '' '' @ mid_dot @ '' '' @ escapeHtml (cc_scn c) @ '' '' @ mid_dot @
       '' '' @ fmt (fdiv (js_round (fmul (pct_of c) (Fin 10))) (Fin 10)) @ ''%</title></circle>'') (zip plot_xs (cu_cells r))))\<close>

text \<open>The labels at the right end, from top to bottom, each pushed down until it is 13 below the one
  above.\<close>

record end_label =
  en_y :: f64
  en_col :: string
  en_lib :: string
  en_pct :: f64
  en_ri :: nat

definition end_of :: "nat \<times> curve \<Rightarrow> end_label" where
  "end_of rc = (case rc of (ri, r) \<Rightarrow>
     let p = pct_of (cu_cells r ! 2) in
     \<lparr>en_y = yOf p, en_col = theFam (cr_proto (cu_row r)), en_lib = cr_lib (cu_row r), en_pct = p, en_ri = ri\<rparr>)"

fun insert_end :: "end_label \<Rightarrow> end_label list \<Rightarrow> end_label list" where
  "insert_end e [] = [e]"
| "insert_end e (x # xs) = (if flt (en_y e) (en_y x) then e # x # xs else x # insert_end e xs)"

definition sort_ends :: "end_label list \<Rightarrow> end_label list" where
  "sort_ends es = fold insert_end es []"

fun push_down :: "end_label list \<Rightarrow> end_label list" where
  "push_down (e # f # es) =
     e # push_down ((if flt (fsub (en_y f) (en_y e)) (Fin 13) then f\<lparr>en_y := fadd (en_y e) (Fin 13)\<rparr> else f) # es)"
| "push_down es = es"

definition end_html :: "end_label \<Rightarrow> string" where
  \<open>end_html e = ''<text class="thend" data-row="'' @ nat_text (en_ri e) @ ''" x="794" y="'' @ num_text (fadd (en_y e) (Fin 3)) @
     ''" style="fill:'' @ en_col e @ ''">'' @ escapeHtml (en_lib e) @ '' '' @ fmt (js_round (en_pct e)) @ ''%</text>''\<close>

definition avg :: "f64 list \<Rightarrow> f64" where
  "avg a = fdiv (foldl fadd (hd a) (tl a)) (fof_int (int (length a)))"

definition burst_of :: "(string \<Rightarrow> bool) \<Rightarrow> curve list \<Rightarrow> f64 list" where
  "burst_of P rows = map (\<lambda>r. pct_of (cu_cells r ! 2)) (filter (\<lambda>r. P (cr_proto (cu_row r))) rows)"

definition story :: "curve list \<Rightarrow> string" where
  \<open>story rows =
     (let arq = burst_of (\<lambda>p. p = ''SRT'' \<or> p = ''RIST'') rows; moq = burst_of (\<lambda>p. p = ''MoQ'') rows in
      if arq = [] \<or> moq = [] then []
      else ''<div class="thnarr">'' @ ''Under <b>BURST</b> loss, ARQ (SRT/RIST) holds <b class="c-pass">~'' @ num_text (js_round (avg arq)) @
        ''%</b> of its own baseline '' @ dash @ '' the retransmit rides out the loss runs '' @ dash @
        '' while MoQ-over-QUIC collapses to <b class="c-fail">~'' @ num_text (js_round (avg moq)) @
        ''%</b> (head-of-line blocking, no recovery in the live window). Steady loss both recover; the burst is the knee.'' @ ''</div>'')\<close>

definition theater_legend :: "curve list \<Rightarrow> string" where
  \<open>theater_legend rows = concat (map (\<lambda>p. ''<span class="thlg"><i style="background:'' @ theFam p @ ''"></i>'' @ escapeHtml p @ ''</span>'')
     (key_order (filter (\<lambda>p. p \<noteq> ''__proto__'') (map (cr_proto \<circ> cu_row) rows))))\<close>

definition theater_svg :: "curve list \<Rightarrow> string" where
  \<open>theater_svg rows =
     (let rs = enumerate 0 rows in
      ''<svg viewBox="0 0 980 460" class="thsvg" preserveAspectRatio="xMidYMid meet">'' @ grid_lines @
      concat (map ci_ribbon rs) @ concat (map curve_line rs) @
      concat (map end_html (push_down (sort_ends (map end_of rs)))) @ ''</svg>'')\<close>

definition buildTheater :: "js_value \<Rightarrow> string option" where
  \<open>buildTheater data = do {
     all \<leftarrow> compareRows data;
     let rows = curves_of all;
     Some (if rows = []
       then ''<div class="thempty">No loss-gradient matrices loaded '' @ dash @
         '' run the SRT / RIST / MoQ matrices to populate the resilience curves.</div>''
       else ''<div class="thhead"><span class="seq">'' @ [CHR 0xE2, CHR 0x88, CHR 0x91] @ ''</span><h2>Resilience Theater</h2>'' @
         ''<span class="sub">'' @ nat_text (length rows) @ '' impls '' @ mid_dot @ '' delivered % vs severity '' @ mid_dot @
         '' each normalized to its own clean baseline</span></div>'' @
         ''<div class="thlegend">'' @ theater_legend rows @ ''</div>'' @ theater_svg rows @ story rows @
         ''<div class="thfoot">Y axis is each implementation'' @ apostrophe @
         ''s delivered-% against its OWN clean baseline (RFC-6349-style) '' @ dash @
         '' the <i>shape</i> of resilience, never absolute throughput across protocols. CI ribbons are bootstrap bands where reps exist.</div>'')
   }\<close>

section \<open>Which frames are shown\<close>

text \<open>A number clamped and rounded is an integer between the bounds.\<close>

lemma clamp_round:
  assumes "f \<noteq> NaN"
  shows "\<exists>n. 1 \<le> n \<and> n \<le> 8 \<and> js_max (Fin 1) (js_min (Fin 8) (js_round f)) = Fin (of_nat n)"
proof (cases f)
  case (Fin x)
  define k where "k = \<lfloor>x + 1 / 2\<rfloor>"
  have "js_max (Fin 1) (js_min (Fin 8) (js_round f)) = Fin (of_int (max 1 (min 8 k)))"
    by (auto simp: Fin js_max_def js_min_def k_def [symmetric] max_def min_def)
  then show ?thesis by (intro exI [of _ "nat (max 1 (min 8 k))"]) (auto simp: max_def min_def)
qed (use assms in \<open>auto simp: js_max_def js_min_def intro: exI [of _ 1] exI [of _ 8]\<close>)

lemma fround_not_NaN: "fround x \<noteq> NaN"
  by (simp add: fround_def Let_def)

lemma percent_Fin: "js_nullish v \<or> (\<exists>x. js_num v = Fin x) \<Longrightarrow> \<exists>x. percent_or_all v = Fin x"
  by (auto simp: percent_or_all_def js_max_def js_min_def)

lemma live_slots_count: "\<exists>n. 1 \<le> n \<and> n \<le> 8 \<and> live_slots (Fin x) = Fin (of_nat n)"
proof -
  have "fdiv (fround y) (Fin 100) \<noteq> NaN" for y
    using fround_not_NaN [of y] by (cases "fround y") (auto simp: fround_not_NaN inf_of_sign_def)
  then show ?thesis using clamp_round [of "fdiv (fmul (Fin 8) (Fin x)) (Fin 100)"] by (simp add: live_slots_def)
qed

text \<open>The quotient of two small integers rounds without crossing the next integer.\<close>

lemma floor_quotient:
  assumes "0 < n" "n \<le> 8" "a < 2 ^ 48"
  shows "js_floor (fdiv (Fin (of_nat a)) (Fin (of_nat n))) = Fin (of_nat (a div n))"
proof -
  define k where "k = int (a div n)"
  define q where "q = (of_nat a / of_nat n :: rat)"
  have n: "(0::rat) < of_nat n" "(of_nat n :: rat) \<le> 8" using assms(1,2) by simp_all
  have "a mod n + 1 \<le> n" using assms(1) by (simp add: Suc_le_eq)
  then have m: "(of_nat (a mod n) :: rat) \<le> of_nat n - 1" by (metis le_diff_eq of_nat_1 of_nat_add of_nat_le_iff)
  have a: "(of_nat a :: rat) = of_nat n * of_int k + of_nat (a mod n)"
    unfolding k_def by (metis mult_div_mod_eq of_int_of_nat_eq of_nat_add of_nat_mult)
  have q: "of_int k \<le> q" "q \<le> of_int k + 7 / 8"
    unfolding q_def pos_le_divide_eq [OF n(1)] pos_divide_le_eq [OF n(1)] using n m by (simp_all add: a algebra_simps)
  have k: "0 \<le> k" "k < 2 ^ 48"
    using le_less_trans [OF div_le_dividend assms(3), of n] by (simp_all only: k_def of_nat_0_le_iff of_nat_less_numeral_power_cancel_iff)
  have "representable (of_int k)" using k by (intro representable_int) simp
  moreover have "representable (of_int k + 7 / 8)"
    unfolding representable_def using k by (intro exI [of _ "8 * k + 7"] exI [of _ "- 3"]) (simp add: power_int_minus field_simps)
  ultimately obtain y where y: "fround q = Fin y" "of_int k \<le> y" "y \<le> of_int k + 7 / 8"
    using fround_between [of "of_int k" "of_int k + 7 / 8" q] q by blast
  have "\<lfloor>y\<rfloor> = k" by (rule floor_unique) (use y in linarith)+
  moreover have "fdiv (Fin (of_nat a)) (Fin (of_nat n)) = fround q" using n(1) by (simp add: q_def)
  ultimately show ?thesis by (simp add: y(1)) (simp add: k_def)
qed

text \<open>As many slots as the percentage is worth show the thumbnails, spread evenly, and no slot asks for a
  thumbnail that is not there.\<close>

lemma js_item_nth: "i < length vs \<Longrightarrow> js_item vs (Fin (of_nat i)) = Some (vs ! i)"
proof -
  assume i: "i < length vs"
  let ?ks = "map (\<lambda>k. Fin (of_nat k) :: f64) [0..<length vs]"
  have "distinct ?ks" by (simp add: distinct_map inj_on_def)
  then have "map_of (zip ?ks vs) (?ks ! i) = Some (vs ! i)" using i by (intro map_of_zip_nth) simp_all
  then show ?thesis using i by (simp add: js_item_def)
qed

lemma thumb_index_value:
  assumes "0 < n" "n \<le> 8" "i < n" "0 < len" "len < 2 ^ 44"
  shows "thumb_index len (Fin (of_nat n)) i = Fin (of_nat (i * len div n))" "i * len div n < len"
proof -
  have lt: "i * len < n * len" using assms(3,4) by simp
  then show less: "i * len div n < len" by (simp add: less_mult_imp_div_less mult.commute)
  have small: "i * len < 2 ^ 48"
  proof -
    have "i * len \<le> 8 * len" using assms(2,3) by (intro mult_le_mono1) simp
    also have "8 * len < 2 ^ 48" using assms(5) by simp
    finally show ?thesis .
  qed
  have "fmul (fof_int (int i)) (fof_int (int len)) = Fin (of_nat (i * len))"
  proof -
    have "fof_int (int i) = Fin (of_nat i)" "fof_int (int len) = Fin (of_nat len)"
      using fof_int_exact [of "int i"] fof_int_exact [of "int len"] assms(2,3,5) by simp_all
    moreover have "fround (of_nat (i * len)) = Fin (of_nat (i * len))"
    proof -
      have "int (i * len) < 2 ^ 48" using small by (simp only: of_nat_less_numeral_power_cancel_iff)
      then have "\<bar>int (i * len)\<bar> < 2 ^ 53" by (simp del: of_nat_mult)
      then have "representable (of_nat (i * len))" using representable_int [of "int (i * len)"] by (simp del: of_nat_mult)
      then show ?thesis by (rule fround_representable)
    qed
    ultimately show ?thesis by simp
  qed
  then have "js_floor (fdiv (fmul (fof_int (int i)) (fof_int (int len))) (Fin (of_nat n))) = Fin (of_nat (i * len div n))"
    using floor_quotient [OF assms(1,2) small] by simp
  moreover have "fof_int (int len - 1) = Fin (of_int (int len - 1))" using assms(4,5) by (intro fof_int_exact) simp
  moreover have "\<not> (of_int (int len - 1) :: rat) < of_nat (i * len div n) \<and> of_int (int len - 1) = (of_nat (len - 1) :: rat)"
    using less assms(4) by (simp add: of_nat_diff)
  ultimately show "thumb_index len (Fin (of_nat n)) i = Fin (of_nat (i * len div n))"
    using less by (auto simp: thumb_index_def js_min_def not_less)
qed

lemma film_slots_shown:
  assumes "1 \<le> n" "n \<le> 8" "thumbs \<noteq> []" "length thumbs < 2 ^ 44"
  shows "film_slots thumbs (Fin (of_nat n)) =
    map (\<lambda>i. Frame (Some (thumbs ! (i * length thumbs div n)))) [0..<n] @ replicate (8 - n) Lost"
proof -
  have int: "fof_int (int i) = Fin (of_nat i)" if "i < 8" for i using fof_int_exact [of "int i"] that by simp
  have split: "[0..<8] = [0..<n] @ [n..<8]" using assms(2) upt_add_eq_append [of 0 n "8 - n"] by simp
  have live: "js_item thumbs (thumb_index (length thumbs) (Fin (of_nat n)) i) = Some (thumbs ! (i * length thumbs div n))" if "i < n" for i
    using thumb_index_value [of n i "length thumbs"] js_item_nth assms that by simp
  have lost: "map (\<lambda>i. Lost) [n..<8] = replicate (8 - n) Lost" by (simp add: map_replicate_const)
  show ?thesis unfolding film_slots_def split map_append lost [symmetric]
    using live int assms(2) by (intro arg_cong2 [of _ _ _ _ append] map_cong) (auto simp del: upt_rec)
qed

lemma film_of_run:
  assumes "js_nullish p \<or> (\<exists>x. js_num p = Fin x)" "thumbs \<noteq> []" "length thumbs < 2 ^ 44"
  shows "\<exists>n. 1 \<le> n \<and> n \<le> 8 \<and> film_slots thumbs (live_slots (percent_or_all p)) =
    map (\<lambda>i. Frame (Some (thumbs ! (i * length thumbs div n)))) [0..<n] @ replicate (8 - n) Lost"
  using percent_Fin [OF assms(1)] live_slots_count film_slots_shown assms(2,3) by metis

section \<open>What is escaped\<close>

lemma escapeHtml_plain: "set (escapeHtml s) \<inter> {CHR ''<'', CHR ''>'', CHR 0x22} = {}"
  by (auto simp: escapeHtml_def escapeHtml_char_def split: if_splits)

lemma js_map_in: "js_map f xs = Some ys \<Longrightarrow> x \<in> set xs \<Longrightarrow> \<exists>y. f x = Some y \<and> y \<in> set ys"
  by (induction xs arbitrary: ys) (auto split: Option.bind_splits)

text \<open>The readout puts the names of the library, the scenario and the checks into its markup as they
  are.\<close>

lemma sublist_part: "sublist p y \<Longrightarrow> sublist p (x @ y)" "sublist p x \<Longrightarrow> sublist p (x @ y)"
  by (simp_all add: sublist_append)

lemma sublist_concat: "sublist p x \<Longrightarrow> x \<in> set xs \<Longrightarrow> sublist p (concat xs)"
  by (induction xs) (auto intro: sublist_part)

lemma check_html_name: "check_html c = Some h \<Longrightarrow> sublist (js_text (js_prop (Some c) ''name'')) h"
proof -
  assume h: "check_html c = Some h"
  obtain cv where cv: "badge_of (js_num (js_prop (Some c) ''verdict'')) = Some cv"
    using h by (cases "badge_of (js_num (js_prop (Some c) ''verdict''))") (simp_all add: check_html_def)
  show ?thesis
    using h unfolding check_html_def cv bind.bind_lunit Let_def option.inject
    by (rule subst) (rule sublist_part(1), rule sublist_part(1), rule sublist_part(1), rule sublist_part(2), rule sublist_order.order_refl)
qed

lemma showReadout_names:
  assumes "showReadout s lib scn res = Some h" "js_array_or_empty (js_prop res ''checks'') = Some cs"
  shows "sublist lib h" "c \<in> set cs \<Longrightarrow> sublist (js_text (js_prop (Some c) ''name'')) h"
proof -
  obtain rv where rv: "rollup res = Some rv" using assms(1) by (cases "rollup res") (simp_all add: showReadout_def)
  obtain v where v: "badge_of rv = Some v" using assms(1) by (cases "badge_of rv") (simp_all add: showReadout_def rv)
  obtain ds where ds: "js_map check_html cs = Some ds"
    using assms by (cases "js_map check_html cs") (simp_all add: showReadout_def rv v)
  note h = assms(1) [unfolded showReadout_def rv v assms(2) ds bind.bind_lunit Let_def option.inject]
  show "sublist lib h"
    unfolding h [symmetric]
    by ((rule sublist_part(2), rule sublist_order.order_refl) | rule sublist_part(1))+
  assume "c \<in> set cs"
  then obtain d where d: "check_html c = Some d" "d \<in> set ds" using js_map_in [OF ds] by blast
  have part: "sublist (js_text (js_prop (Some c) ''name'')) (concat ds)"
    by (rule sublist_concat [OF check_html_name [OF d(1)] d(2)])
  show "sublist (js_text (js_prop (Some c) ''name'')) h"
    unfolding h [symmetric] by ((rule sublist_part(2), rule part) | rule sublist_part(1))+
qed

end
