(* ===== verification/DashboardEvents.thy ===== *)
theory DashboardEvents
  imports DashboardPage DashboardView
begin

text \<open>
  What the script of \<^verbatim>\<open>report/dashboard.go\<close> does after the page stands: the clicks that open a run in
  the readout, the filmstrip under the pointer, the preview that plays it, and the launcher that
  starts runs and polls for their end. An element is the state it is in; the browser's events,
  timers and answers are the inputs. The lemmas say that a cell of the comparison opens the run it was
  computed from, that one element is selected and one timer runs at a time, and that the launcher
  has one request or timer outstanding until the page reloads or the buttons are free again.
\<close>

section \<open>Clicks\<close>

text \<open>An attribute's text is unescaped by the browser.\<close>

fun attr_value :: "string \<Rightarrow> string" where
  "attr_value [] = []"
| "attr_value (c # s) =
     (if take 5 (c # s) = ''&amp;'' then CHR ''&'' # attr_value (drop 4 s)
      else if take 4 (c # s) = ''&lt;'' then CHR ''<'' # attr_value (drop 3 s)
      else if take 4 (c # s) = ''&gt;'' then CHR ''>'' # attr_value (drop 3 s)
      else if take 6 (c # s) = ''&quot;'' then CHR 0x22 # attr_value (drop 5 s)
      else c # attr_value s)"

text \<open>A cell of the comparison holds the section, library and scenario in its attributes. The inner result is the
  new readout, or \<open>None\<close> when it stays.\<close>

definition compare_click :: "js_value \<Rightarrow> compare_row \<Rightarrow> compare_cell \<Rightarrow> string option option" where
  "compare_click data r c = do {
     let lib = attr_value (escapeHtml (cr_lib r));
     let scn = attr_value (escapeHtml (cc_scn c));
     sections \<leftarrow> js_array (js_prop data ''sections'');
     s \<leftarrow> (if cr_si r < length sections then Some (sections ! cr_si r) else None);
     res \<leftarrow> cellFor (js_prop (Some s) ''matrix'') lib scn;
     if res = None then Some None else map_option Some (showReadout (Some s) lib scn res)
   }"

text \<open>The element marked as selected: the badge inside the cell of a grid, or the cell itself.\<close>

record 'e selection =
  sl_marked :: "'e set"
  sl_selected :: "'e option"

definition select_cell :: "'e option \<Rightarrow> 'e \<Rightarrow> 'e selection \<Rightarrow> 'e selection" where
  "select_cell inner td s =
     (let marked = (case sl_selected s of None \<Rightarrow> sl_marked s | Some e \<Rightarrow> sl_marked s - {e});
          e = (case inner of None \<Rightarrow> td | Some v \<Rightarrow> v)
      in \<lparr>sl_marked = insert e marked, sl_selected = Some e\<rparr>)"

text \<open>The classes a curve's parts get while the pointer is on row \<open>ri\<close>, or on none.\<close>

definition spot :: "nat option \<Rightarrow> nat \<Rightarrow> string list" where
  "spot ri row = (case ri of None \<Rightarrow> [] | Some i \<Rightarrow> if row = i then [''hot''] else [''dim''])"

section \<open>The filmstrip under the pointer\<close>

record film =
  fi_cur :: "nat set"
  fi_lost :: bool
  fi_src :: string
  fi_tc :: string

definition film_start :: "js_value \<Rightarrow> film" where
  "film_start fr =
     (let live = live_slots (percent_or_all (js_prop fr ''deliveredPct''));
          lastSrc = last_src (film_slots (js_items (js_prop fr ''thumbs'')) live) live
      in \<lparr>fi_cur = set (filter (\<lambda>i. feq (fof_int (int i)) (fsub live (Fin 1))) [0..<8]), fi_lost = (\<not> js_truthy lastSrc),
          fi_src = (if js_truthy lastSrc then js_text lastSrc else []), fi_tc = ''last good frame''\<rparr>)"

definition scrub :: "nat \<Rightarrow> nat \<times> slot \<Rightarrow> film \<Rightarrow> film" where
  "scrub n is f = (case is of (i, s) \<Rightarrow>
     let pos = nat_text (i + 1) @ ''/'' @ nat_text n; f' = f\<lparr>fi_cur := {i}\<rparr> in
     (case s of
        Lost \<Rightarrow> f'\<lparr>fi_lost := True, fi_tc := ''signal lost '' @ mid_dot @ '' '' @ pos\<rparr>
      | Frame v \<Rightarrow> f'\<lparr>fi_lost := False, fi_src := js_text v, fi_tc := ''frame '' @ pos\<rparr>))"

section \<open>The preview\<close>

text \<open>The floating card plays the slots, one every 300 ms, from the first. \<open>po_live\<close> are the interval timers
  that run; the script keeps the name of the last in \<^verbatim>\<open>gpopTimer\<close>.\<close>

record preview =
  po_seq :: "js_value list"
  po_k :: nat
  po_lost :: bool
  po_src :: string
  po_bar :: string
  po_vd :: string
  po_av :: string
  po_shown :: bool
  po_timer :: "nat option"
  po_live :: "nat set"

definition gpop_new :: preview where
  "gpop_new = \<lparr>po_seq = [], po_k = 0, po_lost = False, po_src = [], po_bar = [], po_vd = [], po_av = [], po_shown = False,
     po_timer = None, po_live = {}\<rparr>"

definition gpop_step :: "preview \<Rightarrow> preview" where
  "gpop_step p =
     (let s = po_seq p ! (po_k p mod length (po_seq p));
          p' = (if js_truthy s then p\<lparr>po_lost := False, po_src := js_text s\<rparr> else p\<lparr>po_lost := True\<rparr>)
      in p'\<lparr>po_k := po_k p + 1\<rparr>)"

definition clear_timer :: "preview \<Rightarrow> preview" where
  "clear_timer p = p\<lparr>po_live := po_live p - set_option (po_timer p)\<rparr>"

text \<open>\<open>t\<close> is the name the browser gives the new timer.\<close>

definition gpopShow :: "nat \<Rightarrow> js_value \<Rightarrow> preview \<Rightarrow> preview" where
  \<open>gpopShow t fr p =
     (if js_items (js_prop fr ''thumbs'') = [] then p
      else let dp = percent_or_all (js_prop fr ''deliveredPct''); ap = percent_or_all (js_prop fr ''audioPct'');
               p1 = gpop_step (p\<lparr>po_seq := gpop_seq fr, po_k := 0, po_bar := num_text ap @ ''%'',
                 po_vd := ''<b>'' @ fmt (js_round dp) @ ''%</b> picture'', po_av := ''audio '' @ fmt (js_round ap) @ ''%''\<rparr>)
           in (clear_timer p1)\<lparr>po_timer := Some t, po_live := insert t (po_live (clear_timer p1)), po_shown := True\<rparr>)\<close>

definition gpopHide :: "preview \<Rightarrow> preview" where
  "gpopHide p = (clear_timer p)\<lparr>po_timer := None, po_shown := False\<rparr>"

text \<open>A timer that has been cleared ticks no more.\<close>

definition gpop_tick :: "nat \<Rightarrow> preview \<Rightarrow> preview" where
  "gpop_tick t p = (if t \<in> po_live p then gpop_step p else p)"

text \<open>The card's place, from the width of the window, the edges of the cell and its own height, 168 when unknown.\<close>

definition gpop_left :: "f64 \<Rightarrow> f64 \<Rightarrow> f64" where
  "gpop_left width left = js_min (fsub (fsub width (Fin 248)) (Fin 8)) (js_max (Fin 8) (fsub left (Fin 20)))"

definition gpop_top :: "f64 \<Rightarrow> f64 \<Rightarrow> f64 \<Rightarrow> f64" where
  "gpop_top height up down =
     (let ph = (if height = Fin 0 then Fin 168 else height); y = fsub (fsub up ph) (Fin 10)
      in if flt y (Fin 8) then fadd down (Fin 10) else y)"

section \<open>The launcher\<close>

record run_button =
  rb_class :: string
  rb_html :: string
  rb_key :: js_value
  rb_disabled :: bool

text \<open>What is outstanding: the answer to the start of a run, the answer to a question for its status, a timer
  until the next question, or one until the page reloads.\<close>

datatype outstanding = Starting | Asking | AskIn nat | ReloadIn nat

record launcher =
  la_shown :: bool
  la_html :: string
  la_buttons :: "run_button list"
  la_class :: string
  la_text :: string
  la_out :: "outstanding list"

definition launcher_new :: launcher where
  "launcher_new = \<lparr>la_shown = False, la_html = [], la_buttons = [], la_class = [], la_text = [], la_out = []\<rparr>"

definition run_button_of :: "json \<Rightarrow> run_button" where
  \<open>run_button_of t =
     (let has = js_truthy (js_prop (Some t) ''hasData'') in
      \<lparr>rb_class = (if has then ''has'' else []),
        rb_html = play_sign @ '' '' @ escapeHtml (js_text (js_prop (Some t) ''label'')) @ '' <span class="nd">'' @
          (if has then record_dot else [CHR 0xE2, CHR 0x97, CHR 0x8B]) @ ''</span>'',
        rb_key = js_prop (Some t) ''key'', rb_disabled = False\<rparr>)\<close>

text \<open>\<open>answer\<close> is the list of targets, \<open>None\<close> when the page is a file and no cockpit answers. A target that is null
  ends the building of the buttons.\<close>

definition buildLauncher :: "js_value \<Rightarrow> launcher \<Rightarrow> launcher" where
  \<open>buildLauncher answer l = (case answer of
     None \<Rightarrow> l
   | Some v \<Rightarrow> l\<lparr>la_shown := True,
       la_html := ''<div class="lh"><span class="t">Run launcher</span><span class="live">cockpit</span></div>'' @
         ''<div class="lbody"><div class="runbtns" id="runbtns"></div><div class="runconsole" id="runconsole"></div></div>'',
       la_buttons := map run_button_of (case js_array (Some v) of None \<Rightarrow> [] | Some ts \<Rightarrow> takeWhile (\<lambda>t. t \<noteq> JNull) ts)\<rparr>)\<close>

definition set_disabled :: "bool \<Rightarrow> launcher \<Rightarrow> launcher" where
  "set_disabled d l = l\<lparr>la_buttons := map (\<lambda>b. b\<lparr>rb_disabled := d\<rparr>) (la_buttons l)\<rparr>"

definition ellipsis :: string where
  "ellipsis = [CHR 0xE2, CHR 0x80, CHR 0xA6]"

definition startRun :: "js_value \<Rightarrow> launcher \<Rightarrow> launcher" where
  "startRun key l = (set_disabled True l)\<lparr>la_class := ''runconsole show'', la_text := ''starting '' @ js_text key @ '' '' @ ellipsis,
     la_out := Starting # la_out l\<rparr>"

text \<open>\<open>err\<close> is the text of a refusal or of a failure, \<open>None\<close> when the run is accepted.\<close>

definition started :: "string option \<Rightarrow> launcher \<Rightarrow> launcher" where
  "started err l = (case err of
     None \<Rightarrow> l\<lparr>la_out := Asking # la_out l\<rparr>
   | Some e \<Rightarrow> set_disabled False (l\<lparr>la_text := ''error: '' @ e\<rparr>))"

text \<open>\<open>answer\<close> is the status, \<open>None\<close> when the question failed; a status that is null fails as well.\<close>

definition pollRun :: "js_value \<Rightarrow> launcher \<Rightarrow> launcher" where
  "pollRun answer l =
     (if js_nullish answer then l\<lparr>la_out := AskIn 1500 # la_out l\<rparr>
      else let lg = js_prop answer ''log''; running = js_truthy (js_prop answer ''running'');
               shown = (if js_truthy lg then js_text lg else []) @
                 (if running then CHR 0x0A # ''[ running '' @ js_text (js_prop answer ''elapsed'') @ ''s ]'' else [])
           in if js_truthy (js_prop answer ''done'') \<and> \<not> running
              then l\<lparr>la_text := shown @ CHR 0x0A # dash @ '' reloading dashboard with fresh results '' @ dash,
                la_out := ReloadIn 900 # la_out l\<rparr>
              else l\<lparr>la_text := shown, la_out := AskIn 700 # la_out l\<rparr>)"

definition settle :: "outstanding \<Rightarrow> launcher \<Rightarrow> launcher" where
  "settle p l = l\<lparr>la_out := remove1 p (la_out l)\<rparr>"

text \<open>A step: a click on a button that is not disabled, an answer to what is outstanding, or a timer.\<close>

inductive launcher_step :: "launcher \<Rightarrow> launcher \<Rightarrow> bool" where
  click: "b \<in> set (la_buttons l) \<Longrightarrow> \<not> rb_disabled b \<Longrightarrow> launcher_step l (startRun (rb_key b) l)"
| start_answer: "Starting \<in> set (la_out l) \<Longrightarrow> launcher_step l (started err (settle Starting l))"
| status_answer: "Asking \<in> set (la_out l) \<Longrightarrow> launcher_step l (pollRun answer (settle Asking l))"
| ask_again: "AskIn ms \<in> set (la_out l) \<Longrightarrow> launcher_step l ((settle (AskIn ms) l)\<lparr>la_out := Asking # la_out (settle (AskIn ms) l)\<rparr>)"

inductive_cases launcher_stepE: "launcher_step l l'"

inductive launcher_reach :: "js_value \<Rightarrow> launcher \<Rightarrow> bool" where
  launcher_built: "launcher_reach targets (buildLauncher targets launcher_new)"
| launcher_next: "launcher_reach targets l \<Longrightarrow> launcher_step l l' \<Longrightarrow> launcher_reach targets l'"

section \<open>The footer\<close>

definition method_cards :: "(string \<times> string \<times> string) list" where
  "method_cards =
     [(''Worst-of-checks'', ''c-fail'', ''A run is graded PASS only if every invariant passes; the cell takes the colour of its worst check. This is the AND-gated KPI tuple of ITU-T Y.1564.''),
      (''WARN is honest'', ''c-warn'', ''WARN marks a legal-but-odd outcome the wire can't fully attribute '' @ dash @
         '' e.g. a bonded double-loss with no exact per-link ledger. It is permitted, not a failure.''),
      (''Wire ground truth'', ''c-pass'', ''Verdicts come from a passive protocol observer at the relay, never the implementation's self-reported stats. Opaque (black-box) SUTs are graded from the wire alone.''),
      (''Tier-1 vs Tier-2'', ''c-unsup'', ''Tier-1 is bit-deterministic (virtual clock, no sockets) '' @ dash @
         '' byte-identical run to run. Tier-2 drives real binaries on real sockets; the impairment schedule is deterministic, the outcomes distribution-reproducible.'')]"

definition page_method :: string where
  \<open>page_method = ''<h3>How a verdict is computed</h3><div class="grid2">'' @
     concat (map (\<lambda>(name, cls, what). ''<div class="m '' @ cls @ ''"><b><span class="tag">'' @ [CHR 0xE2, CHR 0x96, CHR 0xAA] @ ''</span> '' @ name @
       ''</b><p>'' @ what @ ''</p></div>'') method_cards) @ ''</div>''\<close>

section \<open>A cell opens its run\<close>

lemma attr_value_escape: "attr_value (escapeHtml s) = s"
proof (induction s)
  case (Cons c s)
  show ?case
  proof (cases "c \<in> set [CHR ''&'', CHR ''<'', CHR ''>'', CHR 0x22]")
    case True
    then show ?thesis using Cons.IH by (auto simp: escapeHtml_def escapeHtml_char_def)
  next
    case False
    then have "escapeHtml (c # s) = c # escapeHtml s" by (simp add: escapeHtml_def escapeHtml_char_def)
    moreover have "attr_value (c # t) = c # attr_value t" for t using False by simp
    ultimately show ?thesis using Cons.IH by simp
  qed
qed (simp add: escapeHtml_def)

lemma js_map_from: "js_map f xs = Some ys \<Longrightarrow> \<forall>y \<in> set ys. \<exists>x \<in> set xs. f x = Some y"
  by (induction xs arbitrary: ys) (auto split: Option.bind_splits)

lemma compare_cell_run:
  assumes "compare_cell_of m scenarios lib b = Some (Some c)"
  shows "\<exists>res. cellFor m lib (cc_scn c) = Some res \<and> res \<noteq> None \<and> rollup res = Some (cc_verdict c) \<and> deliv res = cc_pct c"
  using assms by (auto simp: compare_cell_of_def split: option.splits Option.bind_splits if_splits)

lemma lib_row_cells:
  assumes "lib_row m scenarios mk lib = Some rs" "r \<in> set rs"
  shows "\<exists>cells. r = mk lib cells \<and> js_map (compare_cell_of m scenarios lib) BUCKETS = Some cells"
  using assms by (auto simp: lib_row_def split: Option.bind_splits if_splits)

lemma section_row_cells:
  assumes "section_rows si s = Some rows" "r \<in> set rows"
  shows "cr_si r = si \<and> (\<forall>co \<in> set (cr_cells r). \<exists>scenarios b. compare_cell_of (js_prop s ''matrix'') scenarios (cr_lib r) b = Some co)"
proof -
  obtain scenarios mk libs rss where r: "js_map (lib_row (js_prop s ''matrix'') scenarios mk) libs = Some rss" "rows = concat rss"
    "\<And>lib cells. cr_si (mk lib cells) = si \<and> cr_lib (mk lib cells) = lib \<and> cr_cells (mk lib cells) = cells"
    using assms by (auto simp: section_rows_def Let_def simp del: js_map.simps split: Option.bind_splits if_splits) 
  obtain rs where "rs \<in> set rss" "r \<in> set rs" using assms(2) r(2) by auto
  then obtain lib where "lib_row (js_prop s ''matrix'') scenarios mk lib = Some rs" using js_map_from [OF r(1)] by blast
  then obtain cells where c: "r = mk lib cells" "js_map (compare_cell_of (js_prop s ''matrix'') scenarios lib) BUCKETS = Some cells"
    using lib_row_cells \<open>r \<in> set rs\<close> by blast
  have "cr_si r = si" "cr_lib r = lib" "cr_cells r = cells" using r(3) by (simp_all add: c(1))
  then show ?thesis using js_map_from [OF c(2)] by metis
qed

lemma compare_rows_source:
  assumes "compareRows data = Some rows" "r \<in> set rows"
  shows "\<exists>sections. js_array (js_prop data ''sections'') = Some sections \<and> cr_si r < length sections \<and>
    (\<exists>rs. section_rows (cr_si r) (Some (sections ! cr_si r)) = Some rs \<and> r \<in> set rs)"
proof -
  obtain sections rss where s: "js_array (js_prop data ''sections'') = Some sections"
    "js_map (\<lambda>(si, s). section_rows si (Some s)) (enumerate 0 sections) = Some rss" "rows = concat rss"
    using assms(1) by (auto simp: compareRows_def split: Option.bind_splits)
  obtain rs where rs: "rs \<in> set rss" "r \<in> set rs" using assms(2) s(3) by auto
  obtain i where i: "i < length sections" "section_rows i (Some (sections ! i)) = Some rs"
    using js_map_from [OF s(2)] rs(1) by (fastforce simp: in_set_enumerate_eq)
  then have "cr_si r = i" using section_row_cells [OF i(2) rs(2)] by simp
  then show ?thesis using s(1) i rs(2) by blast
qed

lemma compare_click_run:
  assumes "compareRows data = Some rows" "r \<in> set rows" "Some c \<in> set (cr_cells r)"
  shows "\<exists>s res. compare_click data r c = map_option Some (showReadout s (cr_lib r) (cc_scn c) res) \<and>
    cellFor (js_prop s ''matrix'') (cr_lib r) (cc_scn c) = Some res \<and> rollup res = Some (cc_verdict c) \<and> deliv res = cc_pct c"
proof -
  obtain sections rs where s: "js_array (js_prop data ''sections'') = Some sections" "cr_si r < length sections"
    "section_rows (cr_si r) (Some (sections ! cr_si r)) = Some rs" "r \<in> set rs"
    using compare_rows_source [OF assms(1,2)] by blast
  let ?s = "Some (sections ! cr_si r)"
  obtain scenarios b where "compare_cell_of (js_prop ?s ''matrix'') scenarios (cr_lib r) b = Some (Some c)"
    using section_row_cells [OF s(3,4)] assms(3) by blast
  then obtain res where res: "cellFor (js_prop ?s ''matrix'') (cr_lib r) (cc_scn c) = Some res" "res \<noteq> None"
    "rollup res = Some (cc_verdict c)" "deliv res = cc_pct c"
    using compare_cell_run by blast
  have "compare_click data r c = map_option Some (showReadout ?s (cr_lib r) (cc_scn c) res)"
    using s(1,2) res(1,2) by (simp add: compare_click_def attr_value_escape del: not_None_eq)
  then show ?thesis using res by blast
qed

section \<open>One selection, one timer\<close>

lemma select_cell_marks: "sl_marked s = set_option (sl_selected s) \<Longrightarrow>
    sl_marked (select_cell inner td s) = set_option (sl_selected (select_cell inner td s))"
  by (auto simp: select_cell_def Let_def split: option.splits)

lemma gpop_step_timer [simp]: "po_timer (gpop_step p) = po_timer p" "po_live (gpop_step p) = po_live p"
    "po_seq (gpop_step p) = po_seq p" "po_k (gpop_step p) = Suc (po_k p)"
  by (simp_all add: gpop_step_def Let_def)

definition one_timer :: "preview \<Rightarrow> bool" where
  "one_timer p \<longleftrightarrow> po_live p = set_option (po_timer p) \<and> (po_shown p \<longleftrightarrow> po_timer p \<noteq> None)"

lemma one_timer_kept:
  "one_timer gpop_new" "one_timer p \<Longrightarrow> one_timer (gpopShow t fr p)" "one_timer p \<Longrightarrow> one_timer (gpopHide p)"
  "one_timer p \<Longrightarrow> one_timer (gpop_tick t p)"
proof -
  have shown: "po_shown (gpop_step p) = po_shown p" for p by (simp add: gpop_step_def Let_def)
  show "one_timer p \<Longrightarrow> one_timer (gpop_tick t p)" by (simp add: one_timer_def gpop_tick_def shown)
qed (auto simp: one_timer_def gpop_new_def gpopShow_def gpopHide_def clear_timer_def Let_def)

text \<open>The n-th picture of the preview is that of slot n modulo 8, or the loss of the signal.\<close>

lemma gpop_steps: "po_seq ((gpop_step ^^ n) p) = po_seq p" "po_k ((gpop_step ^^ n) p) = po_k p + n"
  by (induction n) simp_all

lemma gpop_plays:
  assumes "po_k p = 0" "po_seq p = gpop_seq fr"
  shows "po_lost ((gpop_step ^^ Suc n) p) \<longleftrightarrow> \<not> js_truthy (gpop_seq fr ! (n mod 8))"
    "js_truthy (gpop_seq fr ! (n mod 8)) \<Longrightarrow> po_src ((gpop_step ^^ Suc n) p) = js_text (gpop_seq fr ! (n mod 8))"
proof -
  have l: "length (gpop_seq fr) = 8" by (simp add: gpop_seq_def film_slots_def)
  have q: "po_seq ((gpop_step ^^ n) p) ! (po_k ((gpop_step ^^ n) p) mod length (po_seq ((gpop_step ^^ n) p))) = gpop_seq fr ! (n mod 8)"
    using assms by (simp add: gpop_steps l)
  show "po_lost ((gpop_step ^^ Suc n) p) \<longleftrightarrow> \<not> js_truthy (gpop_seq fr ! (n mod 8))"
    "js_truthy (gpop_seq fr ! (n mod 8)) \<Longrightarrow> po_src ((gpop_step ^^ Suc n) p) = js_text (gpop_seq fr ! (n mod 8))"
    unfolding funpow.simps comp_apply gpop_step_def [of "(gpop_step ^^ n) p"] q by (simp_all add: Let_def)
qed

section \<open>The launcher runs one thing at a time\<close>

text \<open>Either nothing is outstanding and the buttons can be used, or one thing is and none can.\<close>

definition launcher_inv :: "launcher \<Rightarrow> bool" where
  "launcher_inv l \<longleftrightarrow> (la_out l = [] \<and> (\<forall>b \<in> set (la_buttons l). \<not> rb_disabled b)) \<or>
     (\<exists>p. la_out l = [p] \<and> (\<forall>b \<in> set (la_buttons l). rb_disabled b))"

lemma launcher_step_inv: "launcher_step l l' \<Longrightarrow> launcher_inv l \<Longrightarrow> launcher_inv l'"
proof (induction rule: launcher_step.induct)
  case (click b l)
  then show ?case by (auto simp: launcher_inv_def startRun_def set_disabled_def)
next
  case (start_answer l err)
  then show ?case by (cases err) (auto simp: launcher_inv_def started_def settle_def set_disabled_def)
next
  case (status_answer l answer)
  then show ?case by (auto simp: launcher_inv_def pollRun_def settle_def Let_def)
next
  case (ask_again ms l)
  then show ?case by (auto simp: launcher_inv_def settle_def)
qed

lemma launcher_reach_inv: "launcher_reach targets l \<Longrightarrow> launcher_inv l"
proof (induction rule: launcher_reach.induct)
  case (launcher_built targets)
  then show ?case by (auto simp: launcher_inv_def buildLauncher_def launcher_new_def run_button_of_def Let_def split: option.split)
qed (rule launcher_step_inv)

text \<open>Once a run is accepted, the launcher asks until a status says that the run is over.\<close>

lemma asking_goes_on:
  assumes "launcher_inv l" "la_out l = [p]" "p \<noteq> Starting" "\<And>ms. p \<noteq> ReloadIn ms"
  shows "\<exists>l'. launcher_step\<^sup>*\<^sup>* l l' \<and> la_out l' = [Asking] \<and> la_text l' = la_text l"
proof (cases p)
  case (AskIn ms)
  have "launcher_step l ((settle (AskIn ms) l)\<lparr>la_out := Asking # la_out (settle (AskIn ms) l)\<rparr>)"
    by (rule launcher_step.ask_again) (simp add: assms(2) AskIn)
  then show ?thesis by (intro exI conjI, rule r_into_rtranclp) (simp_all add: assms(2) AskIn settle_def)
qed (use assms in auto)

end
