(* ===== verification/DashboardRun.thy ===== *)
theory DashboardRun
  imports DashboardData DashboardEvents
begin

text \<open>
  The script of \<^verbatim>\<open>report/dashboard.go\<close> from its first statement to its last: each part fills its place
  in the page, and an exception ends the script and leaves the rest of the page empty. The lemmas show
  that no part throws on data that Go has written without null slices.
\<close>

section \<open>The parts in their order\<close>

record page =
  pg_stamp :: string
  pg_status :: "dom list"
  pg_legend :: "dom list"
  pg_compare :: "string option"
  pg_theater :: string
  pg_sections :: "dom list"
  pg_method :: string

definition page_new :: page where
  "page_new = \<lparr>pg_stamp = [], pg_status = [], pg_legend = [], pg_compare = Some [], pg_theater = [], pg_sections = [], pg_method = []\<rparr>"

definition page_steps :: "js_value \<Rightarrow> (page \<Rightarrow> page option) list" where
  "page_steps data =
     [\<lambda>p. map_option (\<lambda>h. p\<lparr>pg_stamp := h\<rparr>) (page_stamp data),
      \<lambda>p. map_option (\<lambda>ds. p\<lparr>pg_status := ds\<rparr>) (page_status data),
      \<lambda>p. Some (p\<lparr>pg_legend := page_legend\<rparr>),
      \<lambda>p. map_option (\<lambda>h. p\<lparr>pg_compare := h\<rparr>) (buildCompare data),
      \<lambda>p. map_option (\<lambda>h. p\<lparr>pg_theater := h\<rparr>) (buildTheater data)] @
     map (\<lambda>is p. map_option (\<lambda>d. p\<lparr>pg_sections := pg_sections p @ [d]\<rparr>) (section_dom is))
       (enumerate 0 (case js_array (js_prop data ''sections'') of None \<Rightarrow> [] | Some ss \<Rightarrow> ss)) @
     [\<lambda>p. Some (p\<lparr>pg_method := page_method\<rparr>)]"

text \<open>The page when the script ends, and whether it ended without an exception.\<close>

fun run_steps :: "('p \<Rightarrow> 'p option) list \<Rightarrow> 'p \<Rightarrow> 'p \<times> bool" where
  "run_steps [] p = (p, True)"
| "run_steps (f # fs) p = (case f p of None \<Rightarrow> (p, False) | Some p' \<Rightarrow> run_steps fs p')"

definition run_page :: "js_value \<Rightarrow> page \<times> bool" where
  "run_page data = run_steps (page_steps data) page_new"

lemma run_steps_append: "run_steps fs p = (p', True) \<Longrightarrow> run_steps (fs @ gs) p = run_steps gs p'"
  by (induction fs arbitrary: p) (auto split: option.splits)

section \<open>No part throws\<close>

lemma js_map_total: "(\<And>x. x \<in> set xs \<Longrightarrow> f x \<noteq> None) \<Longrightarrow> js_map f xs \<noteq> None"
proof (induction xs)
  case (Cons x xs)
  then obtain y ys where "f x = Some y" "js_map f xs = Some ys" by (metis list.set_intros option.exhaust)
  then show ?case by simp
qed simp

text \<open>A run of the matrix rolls up to a verdict that has a badge.\<close>

lemma found_run_badge:
  assumes "no_null nil" "write_struct (matrix_fields nil) m = Some v" "cellFor (Some v) lib scn = Some res" "res \<noteq> None"
  shows "\<exists>w b. rollup res = Some w \<and> badge_of w = Some b"
proof -
  have "rel_option (\<lambda>r v. write_struct (result_fields nil) r = Some v) (matrix_Get m lib scn) res"
    using cellFor_Get [OF assms(1,2), of lib scn] assms(3) by auto
  then obtain r w where "res = Some w" "write_struct (result_fields nil) r = Some w" using assms(4) by (auto elim: option.rel_cases)
  then show ?thesis using rollup_verdict [of nil r w] badge_verdict(1) by blast
qed

lemma cellFor_total: "no_null nil \<Longrightarrow> write_struct (matrix_fields nil) m = Some v \<Longrightarrow> cellFor (Some v) lib scn \<noteq> None"
  using cellFor_Get by blast

lemma compare_cell_total:
  assumes "no_null nil" "write_struct (matrix_fields nil) m = Some v"
  shows "compare_cell_of (Some v) scenarios lib b \<noteq> None"
    "compare_cell_of (Some v) scenarios lib b = Some (Some c) \<Longrightarrow> badge_of (cc_verdict c) \<noteq> None"
proof -
  show "compare_cell_of (Some v) scenarios lib b \<noteq> None"
  proof (cases "bucketScn scenarios b")
    case (Some scn)
    obtain res where res: "cellFor (Some v) lib scn = Some res" using cellFor_total [OF assms] by blast
    show ?thesis
    proof (cases res)
      case (Some y)
      then obtain w where "rollup (Some y) = Some w" using found_run_badge [OF assms res] by blast
      then show ?thesis by (simp add: compare_cell_of_def \<open>bucketScn scenarios b = Some scn\<close> res Some)
    qed (simp add: compare_cell_of_def Some res)
  qed (simp add: compare_cell_of_def)
  assume "compare_cell_of (Some v) scenarios lib b = Some (Some c)"
  then obtain res where "cellFor (Some v) lib (cc_scn c) = Some res" "res \<noteq> None" "rollup res = Some (cc_verdict c)"
    using compare_cell_run by blast
  then show "badge_of (cc_verdict c) \<noteq> None" using found_run_badge [OF assms] by fastforce
qed

lemma lib_row_total:
  assumes "no_null nil" "write_struct (matrix_fields nil) m = Some v"
  shows "lib_row (Some v) scenarios mk lib \<noteq> None"
proof -
  obtain clean where c: "cellFor (Some v) lib ''clean'' = Some clean" using cellFor_total [OF assms] by blast
  obtain cells where "js_map (compare_cell_of (Some v) scenarios lib) BUCKETS = Some cells"
    using js_map_total [of BUCKETS "compare_cell_of (Some v) scenarios lib"] compare_cell_total(1) [OF assms] by blast
  then show ?thesis by (simp add: lib_row_def c)
qed

lemma section_rows_total:
  assumes "no_null nil" "write_struct (section_fields nil) s = Some v"
  shows "section_rows si (Some v) \<noteq> None"
proof -
  obtain m where m: "js_prop (Some v) ''matrix'' = Some m" "write_struct (matrix_fields nil) (ds_Matrix s) = Some m"
    using section_members(1) [OF assms(2)] by blast
  note mm = matrix_members [OF assms(1) m(2)]
  have "js_map (lib_row (Some m) scenarios mk) libs \<noteq> None" for scenarios mk libs
    by (rule js_map_total) (rule lib_row_total [OF assms(1) m(2)])
  then show ?thesis 
    by (simp add: section_rows_def m(1) mm(1,2) js_array_def Let_def bind_eq_None_conv del: not_None_eq)
qed

lemma compareRows_total:
  assumes "no_null nil" "write_struct (data_fields nil) d = Some v"
  shows "\<exists>rows. compareRows (Some v) = Some rows \<and>
    (\<forall>r \<in> set rows. \<forall>c. Some c \<in> set (cr_cells r) \<longrightarrow> badge_of (cc_verdict c) \<noteq> None)"
proof -
  obtain ss where ss: "js_prop (Some v) ''sections'' = Some (JArr ss)"
    "list_all2 (\<lambda>s v. write_struct (section_fields nil) s = Some v) (dd_Sections d) ss"
    using data_members [OF assms] by blast
  have written: "\<exists>s. write_struct (section_fields nil) s = Some sv" if "sv \<in> set ss" for sv
    using ss(2) that by (induction rule: list_all2_induct) auto
  have "section_rows (fst x) (Some (snd x)) \<noteq> None" if "x \<in> set (enumerate 0 ss)" for x
  proof -
    have "snd x \<in> set ss" using that by (metis imageI list.set_map map_snd_enumerate)
    then show ?thesis using written section_rows_total [OF assms(1)] by blast
  qed
  then have "js_map (\<lambda>(si, s). section_rows si (Some s)) (enumerate 0 ss) \<noteq> None"
    by (intro js_map_total) (simp add: case_prod_beta del: not_None_eq)
  then obtain rows where rows: "compareRows (Some v) = Some rows" by (auto simp: compareRows_def ss(1) js_array_def)
  moreover have "badge_of (cc_verdict c) \<noteq> None" if r: "r \<in> set rows" "Some c \<in> set (cr_cells r)" for r c
  proof -
    obtain rs where rs: "cr_si r < length ss" "section_rows (cr_si r) (Some (ss ! cr_si r)) = Some rs" "r \<in> set rs"
      using compare_rows_source [OF rows r(1)] by (auto simp: ss(1) js_array_def)
    obtain s where s: "write_struct (section_fields nil) s = Some (ss ! cr_si r)" using written rs(1) by (meson nth_mem)
    obtain m where m: "js_prop (Some (ss ! cr_si r)) ''matrix'' = Some m" "write_struct (matrix_fields nil) (ds_Matrix s) = Some m"
      using section_members(1) [OF s] by blast
    show ?thesis using section_row_cells [OF rs(2,3)] r(2) compare_cell_total(2) [OF assms(1) m(2)] unfolding m(1) by blast
  qed
  ultimately show ?thesis by blast
qed

lemma compare_rows_html_total:
  assumes "\<forall>r \<in> set rows. \<forall>c. Some c \<in> set (cr_cells r) \<longrightarrow> badge_of (cc_verdict c) \<noteq> None"
  shows "compare_rows_html p rows \<noteq> None"
  using assms
proof (induction rows arbitrary: p)
  case (Cons r rows)
  have "compare_cell_html r co \<noteq> None" if co: "co \<in> set (cr_cells r)" for co
  proof (cases co)
    case (Some c)
    then obtain b where "badge_of (cc_verdict c) = Some b" using Cons.prems co by auto
    then show ?thesis by (simp add: compare_cell_html_def Some Let_def)
  qed (simp add: compare_cell_html_def)
  then obtain cells where cells: "js_map (compare_cell_html r) (cr_cells r) = Some cells" using js_map_total by blast
  have row: "compare_row_html p r \<noteq> None" by (simp add: compare_row_html_def cells Let_def)
  have "compare_rows_html (Some (cr_proto r)) rows \<noteq> None" by (rule Cons.IH) (use Cons.prems in simp)
  then show ?case using row unfolding compare_rows_html.simps by (metis bind.bind_lunit option.exhaust option.distinct(1))
qed simp

lemma page_parts_total:
  assumes "no_null nil" "write_struct (data_fields nil) d = Some v"
  shows "page_stamp (Some v) \<noteq> None" "page_status (Some v) \<noteq> None" "buildCompare (Some v) \<noteq> None" "buildTheater (Some v) \<noteq> None"
proof -
  obtain ss where ss: "js_prop (Some v) ''sections'' = Some (JArr ss)" using data_members [OF assms] by blast
  obtain rows where rows: "compareRows (Some v) = Some rows"
    "\<forall>r \<in> set rows. \<forall>c. Some c \<in> set (cr_cells r) \<longrightarrow> badge_of (cc_verdict c) \<noteq> None"
    using compareRows_total [OF assms] by blast
  show "page_stamp (Some v) \<noteq> None" by (simp add: page_stamp_def ss js_array_def Let_def)
  show "page_status (Some v) \<noteq> None" 
  proof -
    obtain t where "page_tallies (Some v) = Some t" using page_tallies_counts [OF assms] by blast
    then show ?thesis by (simp add: page_status_def ss js_array_def Let_def)
  qed
  show "buildCompare (Some v) \<noteq> None" 
  proof -
    obtain body where "compare_rows_html None rows = Some body" using compare_rows_html_total [OF rows(2)] by blast
    then show ?thesis by (simp add: buildCompare_def rows(1))
  qed
  show "buildTheater (Some v) \<noteq> None" by (simp add: buildTheater_def rows(1) Let_def)
qed

text \<open>Sections are shown one after the other.\<close>

lemma run_sections:
  "js_map section_dom xs = Some ds \<Longrightarrow>
    run_steps (map (\<lambda>is p. map_option (\<lambda>d. p\<lparr>pg_sections := pg_sections p @ [d]\<rparr>) (section_dom is)) xs) p =
      (p\<lparr>pg_sections := pg_sections p @ ds\<rparr>, True)"
  by (induction xs arbitrary: p ds) (auto split: Option.bind_splits)

lemma run_page_completes:
  assumes "no_null nil" "write_struct (data_fields nil) d = Some v" "page_sections (Some v) = Some ds"
  shows "\<exists>p. run_page (Some v) = (p, True) \<and> pg_sections p = ds \<and> Some (pg_stamp p) = page_stamp (Some v) \<and>
    Some (pg_status p) = page_status (Some v) \<and> pg_legend p = page_legend \<and> Some (pg_compare p) = buildCompare (Some v) \<and>
    Some (pg_theater p) = buildTheater (Some v) \<and> pg_method p = page_method"
proof -
  obtain ss where ss: "js_array (js_prop (Some v) ''sections'') = Some ss" "js_map section_dom (enumerate 0 ss) = Some ds"
    using assms(3) by (auto simp: page_sections_def split: Option.bind_splits)
  obtain stamp status cmp th where parts: "page_stamp (Some v) = Some stamp" "page_status (Some v) = Some status"
    "buildCompare (Some v) = Some cmp" "buildTheater (Some v) = Some th"
    using page_parts_total [OF assms(1,2)] by blast
  show ?thesis by (simp add: run_page_def page_steps_def parts ss(1) run_steps_append [OF run_sections [OF ss(2)]] page_new_def)
qed

lemma run_page_stops:
  assumes "page_stamp data = Some h" "page_status data = None"
  shows "run_page data = (page_new\<lparr>pg_stamp := h\<rparr>, False)"
  by (simp add: run_page_def page_steps_def assms)

end
