(* ===== verification/ReportHtml.thy ===== *)
theory ReportHtml
  imports Report FloatText
begin

text \<open>
  The HTML page of \<^verbatim>\<open>report/report.go\<close>: the literal text of its template, the values put between
  it, and the escaping of \<^verbatim>\<open>html/template\<close>, which is the same for the element contents and the
  quoted attributes the template puts values into. The lemmas show that a value is read back from
  its escaped form and that no value adds to the markup of the page.
\<close>

section \<open>Escaping\<close>

definition html_escape_char :: "char \<Rightarrow> string" where
  "html_escape_char c =
     (if c = CHR 0x00 then [CHR 0xEF, CHR 0xBF, CHR 0xBD]
      else if c = CHR 0x22 then ''&#34;''
      else if c = CHR ''&'' then ''&amp;''
      else if c = CHR 0x27 then ''&#39;''
      else if c = CHR ''+'' then ''&#43;''
      else if c = CHR ''<'' then ''&lt;''
      else if c = CHR ''>'' then ''&gt;''
      else [c])"

definition html_escape :: "string \<Rightarrow> string" where
  "html_escape s = concat (map html_escape_char s)"

text \<open>\<^verbatim>\<open>printf "%g"\<close> of a metric.\<close>

fun show_g :: "f64 \<Rightarrow> string" where
  "show_g (Fin x) = format_g x"
| "show_g PInf = ''+Inf''"
| "show_g NInf = ''-Inf''"
| "show_g NaN = ''NaN''"

section \<open>The template\<close>

text \<open>The text between the actions of \<^verbatim>\<open>htmlSource\<close>, in its order.\<close>

definition html_start :: string where
  \<open>html_start = join [CHR 0x0A] [''<!DOCTYPE html>'',
       ''<html lang="en">'',
       ''<head>'',
       ''<meta charset="utf-8">'',
       ''<meta name="viewport" content="width=device-width, initial-scale=1">'',
       ''<title>'']\<close>

definition html_style :: string where
  \<open>html_style = join [CHR 0x0A] [''</title>'',
       ''<style>'',
       ''  :root {'',
       ''    --pass: #1b873f; --warn: #b8860b; --fail: #c1121f;'',
       ''    --unsupported: #6b7280; --error: #7a0d12; --none: #d1d5db;'',
       ''    --bg: #0f1115; --panel: #181b22; --ink: #e7e9ee; --muted: #9aa3b2;'',
       ''    --grid: #2a2f3a;'',
       ''  }'',
       ''  * { box-sizing: border-box; }'',
       ''  body {'',
       ''    margin: 0; padding: 2rem;'',
       ''    background: var(--bg); color: var(--ink);'',
       ''    font: 14px/1.45 -apple-system, BlinkMacSystemFont, "Segoe UI", Roboto, Helvetica, Arial, sans-serif;'',
       ''  }'',
       ''  h1 { margin: 0 0 .25rem; font-size: 1.5rem; }'',
       ''  .generated { color: var(--muted); margin: 0 0 1.5rem; font-size: .85rem; }'',
       ''  .legend { display: flex; gap: .75rem; flex-wrap: wrap; margin: 0 0 1.5rem; }'',
       ''  .legend .chip { display: inline-flex; align-items: center; gap: .4rem; font-size: .8rem; color: var(--muted); }'',
       ''  .legend .swatch { width: 14px; height: 14px; border-radius: 3px; display: inline-block; }'',
       ''  table { border-collapse: separate; border-spacing: 0; width: 100%; max-width: 100%; }'',
       ''  th, td { border: 1px solid var(--grid); padding: 0; text-align: center; }'',
       ''  thead th {'',
       ''    background: var(--panel); color: var(--ink); padding: .6rem .8rem;'',
       ''    font-weight: 600; position: sticky; top: 0; z-index: 2;'',
       ''  }'',
       ''  thead th.corner { text-align: left; }'',
       ''  tbody th.scenario {'',
       ''    background: var(--panel); text-align: left; padding: .6rem .8rem;'',
       ''    font-weight: 600; white-space: nowrap; position: sticky; left: 0; z-index: 1;'',
       ''  }'',
       ''  td.cell { min-width: 120px; }'',
       ''  details { margin: 0; }'',
       ''  summary {'',
       ''    list-style: none; cursor: pointer; padding: .7rem .8rem;'',
       ''    font-weight: 700; letter-spacing: .02em; color: #fff;'',
       ''    display: block;'',
       ''  }'',
       ''  summary::-webkit-details-marker { display: none; }'',
       ''  details[open] summary { box-shadow: inset 0 -2px 0 rgba(0,0,0,.25); }'',
       ''  .v-pass        > summary, .swatch.v-pass        { background: var(--pass); }'',
       ''  .v-warn        > summary, .swatch.v-warn        { background: var(--warn); }'',
       ''  .v-fail        > summary, .swatch.v-fail        { background: var(--fail); }'',
       ''  .v-unsupported > summary, .swatch.v-unsupported { background: var(--unsupported); }'',
       ''  .v-error       > summary, .swatch.v-error       { background: var(--error); }'',
       ''  td.v-none { background: repeating-linear-gradient(45deg, transparent, transparent 6px, rgba(255,255,255,.04) 6px, rgba(255,255,255,.04) 12px); color: var(--muted); padding: .7rem .8rem; }'',
       ''  .detail { padding: .6rem .8rem; background: var(--panel); text-align: left; color: var(--ink); }'',
       ''  .detail ul { margin: 0; padding: 0; list-style: none; }'',
       ''  .detail li { padding: .15rem 0; display: flex; gap: .5rem; align-items: baseline; }'',
       ''  .badge { font-size: .65rem; font-weight: 700; padding: .1rem .35rem; border-radius: 3px; color: #fff; white-space: nowrap; }'',
       ''  .badge.v-pass { background: var(--pass); }'',
       ''  .badge.v-warn { background: var(--warn); }'',
       ''  .badge.v-fail { background: var(--fail); }'',
       ''  .badge.v-unsupported { background: var(--unsupported); }'',
       ''  .badge.v-error { background: var(--error); }'',
       ''  .cname { font-weight: 600; }'',
       ''  .cdetail { color: var(--muted); }'',
       ''  .metrics { margin-top: .5rem; border-top: 1px solid var(--grid); padding-top: .4rem; }'',
       ''  .metrics .m { display: flex; justify-content: space-between; gap: 1rem; color: var(--muted); font-variant-numeric: tabular-nums; }'',
       ''  .metrics .m .mk { color: var(--ink); }'',
       ''  .err { margin-top: .5rem; color: #ff9aa0; font-family: ui-monospace, SFMono-Regular, Menlo, monospace; font-size: .8rem; }'',
       ''</style>'',
       ''</head>'',
       ''<body>'',
       ''  <h1>'']\<close>

definition html_generated :: string where
  \<open>html_generated = join [CHR 0x0A] [''</h1>'',
       ''  <p class="generated">Generated: '']\<close>

definition html_legend :: string where
  \<open>html_legend = join [CHR 0x0A] [''</p>'',
       [],
       ''  <div class="legend">'',
       ''    '']\<close>

definition chip_start :: string where
  \<open>chip_start = ''<span class="chip"><span class="swatch ''\<close>

definition chip_label :: string where
  \<open>chip_label = ''"></span>''\<close>

definition chip_end :: string where
  \<open>chip_end = ''</span>''\<close>

definition html_table :: string where
  \<open>html_table = join [CHR 0x0A] [[],
       ''  </div>'',
       [],
       ''  <table>'',
       ''    <thead>'',
       ''      <tr>'',
       ''        <th class="corner">Scenario '' @ [CHR 0x5C] @ '' Library</th>'',
       ''        '']\<close>

definition lib_start :: string where
  \<open>lib_start = ''<th>''\<close>

definition lib_end :: string where
  \<open>lib_end = ''</th>''\<close>

definition html_body :: string where
  \<open>html_body = join [CHR 0x0A] [[],
       ''      </tr>'',
       ''    </thead>'',
       ''    <tbody>'',
       ''      '']\<close>

definition row_start :: string where
  \<open>row_start = join [CHR 0x0A] [[],
       ''      <tr>'',
       ''        <th class="scenario">'']\<close>

definition row_cells :: string where
  \<open>row_cells = join [CHR 0x0A] [''</th>'',
       ''        '']\<close>

definition cell_gap :: string where
  \<open>cell_gap = join [CHR 0x0A] [[],
       ''        '']\<close>

definition details_start :: string where
  \<open>details_start = join [CHR 0x0A] [[],
       ''        <td class="cell">'',
       ''          <details title="'']\<close>

definition summary_start :: string where
  \<open>summary_start = join [CHR 0x0A] [''">'',
       ''            <summary class="'']\<close>

definition attr_end :: string where
  \<open>attr_end = ''">''\<close>

definition checks_start :: string where
  \<open>checks_start = join [CHR 0x0A] [''</summary>'',
       ''            <div class="detail">'',
       ''              <ul>'',
       ''                '']\<close>

definition check_start :: string where
  \<open>check_start = join [CHR 0x0A] [[],
       ''                <li>'',
       ''                  <span class="badge '']\<close>

definition check_name :: string where
  \<open>check_name = join [CHR 0x0A] [''</span>'',
       ''                  <span class="cname">'']\<close>

definition check_gap :: string where
  \<open>check_gap = join [CHR 0x0A] [''</span>'',
       ''                  '']\<close>

definition detail_start :: string where
  \<open>detail_start = ''<span class="cdetail">'' @ dash @ '' ''\<close>

definition span_end :: string where
  \<open>span_end = ''</span>''\<close>

definition check_end :: string where
  \<open>check_end = join [CHR 0x0A] [[],
       ''                </li>'',
       ''                '']\<close>

definition no_checks :: string where
  \<open>no_checks = join [CHR 0x0A] [[],
       ''                <li class="cdetail">no checks recorded</li>'',
       ''                '']\<close>

definition checks_end :: string where
  \<open>checks_end = join [CHR 0x0A] [[],
       ''              </ul>'',
       ''              '']\<close>

definition metrics_start :: string where
  \<open>metrics_start = join [CHR 0x0A] [[],
       ''              <div class="metrics">'',
       ''                '']\<close>

definition metric_start :: string where
  \<open>metric_start = ''<div class="m"><span class="mk">''\<close>

definition metric_value :: string where
  \<open>metric_value = ''</span><span>''\<close>

definition metric_end :: string where
  \<open>metric_end = ''</span></div>''\<close>

definition metrics_end :: string where
  \<open>metrics_end = join [CHR 0x0A] [[],
       ''              </div>'',
       ''              '']\<close>

definition err_gap :: string where
  \<open>err_gap = join [CHR 0x0A] [[],
       ''              '']\<close>

definition err_start :: string where
  \<open>err_start = ''<div class="err">error: ''\<close>

definition div_end :: string where
  \<open>div_end = ''</div>''\<close>

definition details_end :: string where
  \<open>details_end = join [CHR 0x0A] [[],
       ''            </div>'',
       ''          </details>'',
       ''        </td>'',
       ''        '']\<close>

definition none_start :: string where
  \<open>none_start = join [CHR 0x0A] [[],
       ''        <td class="cell v-none" title="'']\<close>

definition none_end :: string where
  \<open>none_end = join [CHR 0x0A] [''</td>'',
       ''        '']\<close>

definition row_end :: string where
  \<open>row_end = join [CHR 0x0A] [[],
       ''      </tr>'',
       ''      '']\<close>

definition html_end :: string where
  \<open>html_end = join [CHR 0x0A] [[],
       ''    </tbody>'',
       ''  </table>'',
       ''</body>'',
       ''</html>'',
       []]\<close>

text \<open>A page is a list of pieces: text of the template, and values.\<close>

datatype piece = Lit string | Val string

fun piece_text :: "piece \<Rightarrow> string" where
  "piece_text (Lit s) = s"
| "piece_text (Val s) = html_escape s"

definition page_text :: "piece list \<Rightarrow> string" where
  "page_text ps = concat (map piece_text ps)"

definition legend_pieces :: "legend_item \<Rightarrow> piece list" where
  "legend_pieces l = [Lit chip_start, Val (lg_Class l), Lit chip_label, Val (lg_Label l), Lit chip_end]"

definition lib_pieces :: "string \<Rightarrow> piece list" where
  "lib_pieces lib = [Lit lib_start, Val lib, Lit lib_end]"

definition check_pieces :: "check_view \<Rightarrow> piece list" where
  "check_pieces c =
     [Lit check_start, Val (cw_Class c), Lit attr_end, Val (cw_Verdict c), Lit check_name, Val (cw_Name c), Lit check_gap] @
     (if cw_Detail c \<noteq> [] then [Lit detail_start, Val (cw_Detail c), Lit span_end] else []) @ [Lit check_end]"

definition metric_pieces :: "metric_view \<Rightarrow> piece list" where
  "metric_pieces m = [Lit metric_start, Val (mw_Key m), Lit metric_value, Val (show_g (mw_Value m)), Lit metric_end]"

definition run_pieces :: "cell_view \<Rightarrow> piece list" where
  "run_pieces c =
     [Lit details_start, Val (cv_Title c), Lit summary_start, Val (cv_Class c), Lit attr_end, Val (cv_Verdict c), Lit checks_start] @
     (if cv_Checks c = [] then [Lit no_checks] else concat (map check_pieces (cv_Checks c))) @ [Lit checks_end] @
     (if cv_Metrics c \<noteq> [] then Lit metrics_start # concat (map metric_pieces (cv_Metrics c)) @ [Lit metrics_end] else []) @ [Lit err_gap] @
     (if cv_Err c \<noteq> [] then [Lit err_start, Val (cv_Err c), Lit div_end] else []) @ [Lit details_end]"

definition cell_pieces :: "cell_view \<Rightarrow> piece list" where
  "cell_pieces c = [Lit cell_gap] @
     (if cv_Present c then run_pieces c
      else [Lit none_start, Val (cv_Title c), Lit attr_end, Val (cv_Verdict c), Lit none_end]) @ [Lit cell_gap]"

definition row_pieces :: "row_view \<Rightarrow> piece list" where
  "row_pieces r = [Lit row_start, Val (rw_Scenario r), Lit row_cells] @ concat (map cell_pieces (rw_Cells r)) @ [Lit row_end]"

definition view_pieces :: "matrix_view \<Rightarrow> piece list" where
  "view_pieces v =
     [Lit html_start, Val (vw_Title v), Lit html_style, Val (vw_Title v), Lit html_generated, Val (vw_Generated v), Lit html_legend] @
     concat (map legend_pieces (vw_Legend v)) @ [Lit html_table] @ concat (map lib_pieces (vw_Libs v)) @ [Lit html_body] @
     concat (map row_pieces (vw_Rows v)) @ [Lit html_end]"

definition WriteHTML :: "matrix \<Rightarrow> string" where
  "WriteHTML m = page_text (view_pieces (buildView m))"

section \<open>Values read back\<close>

text \<open>What a browser makes of the character references that are written.\<close>

fun html_unescape :: "string \<Rightarrow> string" where
  "html_unescape [] = []"
| "html_unescape (c # s) =
     (if take 5 (c # s) = ''&#34;'' then CHR 0x22 # html_unescape (drop 4 s)
      else if take 5 (c # s) = ''&amp;'' then CHR ''&'' # html_unescape (drop 4 s)
      else if take 5 (c # s) = ''&#39;'' then CHR 0x27 # html_unescape (drop 4 s)
      else if take 5 (c # s) = ''&#43;'' then CHR ''+'' # html_unescape (drop 4 s)
      else if take 4 (c # s) = ''&lt;'' then CHR ''<'' # html_unescape (drop 3 s)
      else if take 4 (c # s) = ''&gt;'' then CHR ''>'' # html_unescape (drop 3 s)
      else c # html_unescape s)"

lemma html_unescape_escape: "CHR 0x00 \<notin> set s \<Longrightarrow> html_unescape (html_escape s) = s"
  by (induction s) (auto simp: html_escape_def html_escape_char_def)

section \<open>Markup\<close>

text \<open>Where a browser's tokenizer stands: in text, in a tag, or in a quoted attribute value; and the
  markup of a page, the characters of its tags without their attribute values.\<close>

datatype html_state = InText | InTag | InValue

fun html_next :: "html_state \<Rightarrow> char \<Rightarrow> html_state" where
  "html_next InText c = (if c = CHR ''<'' then InTag else InText)"
| "html_next InTag c = (if c = CHR ''>'' then InText else if c = CHR 0x22 then InValue else InTag)"
| "html_next InValue c = (if c = CHR 0x22 then InTag else InValue)"

definition html_walk :: "html_state \<Rightarrow> string \<Rightarrow> html_state" where
  "html_walk = foldl html_next"

fun markup_from :: "html_state \<Rightarrow> string \<Rightarrow> string" where
  "markup_from st [] = []"
| "markup_from st (c # s) = (if st = InTag \<or> html_next st c = InTag then [c] else []) @ markup_from (html_next st c) s"

definition markup :: "string \<Rightarrow> string" where
  "markup = markup_from InText"

text \<open>Values are put into text and attribute values only, where they add no markup.\<close>

fun placed :: "html_state \<Rightarrow> piece list \<Rightarrow> html_state option" where
  "placed st [] = Some st"
| "placed st (Lit s # ps) = placed (html_walk st s) ps"
| "placed st (Val s # ps) = (if st = InTag then None else placed st ps)"

lemma markup_from_append: "markup_from st (a @ b) = markup_from st a @ markup_from (html_walk st a) b"
  by (induction a arbitrary: st) (simp_all add: html_walk_def)

lemma value_no_markup: "st \<noteq> InTag \<Longrightarrow> html_walk st (html_escape s) = st \<and> markup_from st (html_escape s) = []"
proof -
  assume st: "st \<noteq> InTag"
  have "html_walk st t = st \<and> markup_from st t = []" if "set t \<inter> {CHR ''<'', CHR 0x22} = {}" for t
    using that st by (induction t) (cases st; auto simp: html_walk_def)+
  moreover have "set (html_escape s) \<inter> {CHR ''<'', CHR 0x22} = {}"
    by (auto simp: html_escape_def html_escape_char_def split: if_splits)
  ultimately show ?thesis by blast
qed

definition is_lit :: "piece \<Rightarrow> bool" where
  "is_lit p \<longleftrightarrow> (case p of Lit _ \<Rightarrow> True | Val _ \<Rightarrow> False)"

lemma placed_markup:
  "placed st ps \<noteq> None \<Longrightarrow> markup_from st (page_text ps) = markup_from st (page_text (filter is_lit ps))"
proof (induction st ps rule: placed.induct)
  case (3 st s ps)
  then show ?case using value_no_markup [of st s] by (auto simp: page_text_def is_lit_def markup_from_append split: if_splits)
qed (simp_all add: page_text_def is_lit_def markup_from_append)

lemma placed_append: "placed st (ps @ qs) = Option.bind (placed st ps) (\<lambda>st'. placed st' qs)"
  by (induction st ps rule: placed.induct) simp_all

lemma placed_concat: "(\<And>x. x \<in> set xs \<Longrightarrow> placed st (f x) = Some st) \<Longrightarrow> placed st (concat (map f xs)) = Some st"
  by (induction xs) (simp_all add: placed_append)


text \<open>How each text of the template moves the tokenizer.\<close>

lemma template_walks:
  "html_walk InText html_start = InText"
  "html_walk InText html_style = InText"
  "html_walk InText html_generated = InText"
  "html_walk InText html_legend = InText"
  "html_walk InText chip_start = InValue"
  "html_walk InValue chip_label = InText"
  "html_walk InText chip_end = InText"
  "html_walk InText html_table = InText"
  "html_walk InText lib_start = InText"
  "html_walk InText lib_end = InText"
  "html_walk InText html_body = InText"
  "html_walk InText row_start = InText"
  "html_walk InText row_cells = InText"
  "html_walk InText cell_gap = InText"
  "html_walk InText details_start = InValue"
  "html_walk InValue summary_start = InValue"
  "html_walk InValue attr_end = InText"
  "html_walk InText checks_start = InText"
  "html_walk InText check_start = InValue"
  "html_walk InText check_name = InText"
  "html_walk InText check_gap = InText"
  "html_walk InText detail_start = InText"
  "html_walk InText span_end = InText"
  "html_walk InText check_end = InText"
  "html_walk InText no_checks = InText"
  "html_walk InText checks_end = InText"
  "html_walk InText metrics_start = InText"
  "html_walk InText metric_start = InText"
  "html_walk InText metric_value = InText"
  "html_walk InText metric_end = InText"
  "html_walk InText metrics_end = InText"
  "html_walk InText err_gap = InText"
  "html_walk InText err_start = InText"
  "html_walk InText div_end = InText"
  "html_walk InText details_end = InText"
  "html_walk InText none_start = InValue"
  "html_walk InText none_end = InText"
  "html_walk InText row_end = InText"
  "html_walk InText html_end = InText"
  by code_simp+

lemma legend_placed: "placed InText (legend_pieces l) = Some InText"
  by (simp add: legend_pieces_def template_walks)

lemma lib_placed: "placed InText (lib_pieces l) = Some InText"
  by (simp add: lib_pieces_def template_walks)

lemma check_placed: "placed InText (check_pieces c) = Some InText"
  by (simp add: check_pieces_def template_walks placed_append)

lemma metric_placed: "placed InText (metric_pieces m) = Some InText"
  by (simp add: metric_pieces_def template_walks)

lemma run_placed: "placed InText (run_pieces c) = Some InText"
  by (simp add: run_pieces_def template_walks placed_append placed_concat check_placed metric_placed)

lemma cell_placed: "placed InText (cell_pieces c) = Some InText"
  by (simp add: cell_pieces_def template_walks placed_append run_placed)

lemma row_placed: "placed InText (row_pieces r) = Some InText"
  by (simp add: row_pieces_def template_walks placed_append placed_concat cell_placed)

lemma view_placed: "placed InText (view_pieces v) = Some InText"
  by (simp add: view_pieces_def template_walks placed_append placed_concat legend_placed lib_placed row_placed)

lemma WriteHTML_markup: "markup (WriteHTML m) = markup (page_text (filter is_lit (view_pieces (buildView m))))"
  using placed_markup [of InText "view_pieces (buildView m)"] view_placed by (simp add: markup_def WriteHTML_def)

end
