(* ===== verification/FileProperties.thy ===== *)
theory FileProperties
  imports DashboardRun ReportHtml
begin

text \<open>
  The properties of what the program writes to files and pages: scenarios and profiles survive
  \<^verbatim>\<open>Save\<close> and \<^verbatim>\<open>Load\<close>, a matrix is refused as JSON exactly when a metric is no finite number, and
  neither the dashboard's data island nor a value of the HTML report can break out of its place.
  In the browser the dashboard shows the verdicts of Go's grading in its grids and its counts in the
  status line, as long as no array of its data is null, a filmstrip asks for no
  thumbnail that is not there, and two faults of the script are shown on concrete data.
\<close>

section \<open>Saved and loaded\<close>

text \<open>C21. Round trip: every scenario and every profile whose strings are UTF-8, numbers doubles and
  integers in range is saved, and loading the saved text, whatever follows it in the file, gives
  it back.\<close>

theorem saved_files_load:
  assumes "scenario_ok s" "profile_ok p"
  shows "(\<exists>t. scenario_Save nil s = Some t \<and> scenario_Load (t @ rest) = Some s) \<and>
    (\<exists>t. profile_Save p = Some t \<and> profile_Load (t @ rest) = Some p)"
  using scenario_Load_Save [OF assms(1)] profile_Load_Save [OF assms(2)] by blast

definition saved_scenario :: scenario where
  "saved_scenario = zero_scenario\<lparr>sc_Name := ''a<b'', sc_Seed := - 5, sc_Encrypted := True,
     sc_C2S := [no_stage\<lparr>st_Loss := Some (Fin (1 / 4)), st_DropList := Some [3, 1]\<rparr>]\<rparr>"

definition saved_profile :: profile where
  "saved_profile = zero_profile\<lparr>po_Name := ''lan'', po_Grade := 2, po_LossPct := Fin (1 / 4)\<rparr>"

lemma saved_ok: "scenario_ok saved_scenario" "profile_ok saved_profile"
proof -
  have "representable (1 / 4)" unfolding representable_def
    by (intro exI [of _ 1] exI [of _ "- 2"]) (simp add: power_int_minus)
  then have "double (Fin (1 / 4))" "double (Fin 0)" by (simp_all add: double_def)
  then show "scenario_ok saved_scenario" "profile_ok saved_profile"
    by (simp_all add: saved_scenario_def saved_profile_def scenario_ok_def profile_ok_def zero_scenario_def zero_profile_def
        no_stage_def stage_ok_def in64_def ascii_utf8 ord_def)
qed

theorem saved_files_load_witness:
  "(\<exists>t. scenario_Save True saved_scenario = Some t \<and> scenario_Load (t @ '' rest'') = Some saved_scenario) \<and>
    (\<exists>t. profile_Save saved_profile = Some t \<and> profile_Load (t @ '' rest'') = Some saved_profile)"
  by (rule saved_files_load [OF saved_ok])

section \<open>Reports\<close>

text \<open>Errors: writing a matrix as JSON fails exactly when some run has a metric that is an infinity
  or not a number.\<close>

theorem matrix_json_fails_on_bad_metric:
  assumes "\<forall>r \<in> set (mx_Results m). finite (dom (rs_Metrics r))"
  shows "WriteJSON nil m = None \<longleftrightarrow>
    (\<exists>r \<in> set (mx_Results m). \<exists>k v. rs_Metrics r k = Some v \<and> v \<in> {PInf, NInf, NaN})"
proof -
  have "\<not> finite_metrics r \<longleftrightarrow> (\<exists>k v. rs_Metrics r k = Some v \<and> v \<in> {PInf, NInf, NaN})" for r
    unfolding finite_metrics_def ran_def by (auto, metis f64.exhaust)
  then show ?thesis using WriteJSON_None [of m nil] assms by (auto simp: list_all_iff)
qed

definition bad_matrix :: matrix where
  "bad_matrix = NewMatrix ''t'' ''g'' [\<lparr>rs_Lib = ''a'', rs_Scenario = ''s'', rs_Checks = [], rs_Metrics = [''x'' \<mapsto> NaN], rs_Err = []\<rparr>]"

theorem matrix_json_fails_on_bad_metric_witness: "WriteJSON (\<lambda>_. True) bad_matrix = None"
  using matrix_json_fails_on_bad_metric [of bad_matrix "\<lambda>_. True"] by (simp add: bad_matrix_def NewMatrix_def)

text \<open>C27. The data island: whatever the titles, details and frames of the sections hold, the page is the
  template's text around a JSON text without any character of HTML, so that the script element
  ends where the template ends it.\<close>

theorem dashboard_island_closed:
  assumes "WriteDashboard nil rest title generated sections = Some page"
  shows "\<exists>js. page = page_start @ island_open @ js @ ''</script>'' @ CHR 0x0A # rest \<and>
    set js \<inter> {CHR ''<'', CHR ''>'', CHR ''&''} = {}"
proof -
  obtain v where v: "write_struct (data_fields nil) \<lparr>dd_Title = title, dd_Generated = generated, dd_Sections = sections\<rparr> = Some v"
    "page = page_start @ island_open @ render v @ ''</script>'' @ CHR 0x0A # rest"
    using assms by (auto simp: WriteDashboard_def)
  have "html_free (render v)" by (rule render_html_free [OF plain_writerD [OF plain_data v(1)]])
  then show ?thesis using v(2) by (auto simp: html_free_def)
qed

definition hostile_section :: dashboard_section where
  "hostile_section = \<lparr>ds_Title = ''</script>'', ds_Tier = [], ds_Blurb = ''&'', ds_Matrix = NewMatrix [] [] [],
     ds_Frames = quote # ''<b>'' @ [quote]\<rparr>"

lemma hostile_page: "\<exists>page. WriteDashboard (\<lambda>_. False) [] ''t'' ''g'' [hostile_section] = Some page"
proof -
  have "valid_json (quote # ''<b>'' @ [quote])" by code_simp
  then show ?thesis
    by (simp add: WriteDashboard_def hostile_section_def write_struct_def data_fields_def section_fields_def matrix_fields_def
        write_field_def json_text_def keep_def write_list_def raw_message_def NewMatrix_def sortedKeys_def)
qed

theorem dashboard_island_closed_witness:
  "\<exists>js. WriteDashboard (\<lambda>_. False) [] ''t'' ''g'' [hostile_section] =
      Some (page_start @ island_open @ js @ ''</script>'' @ [CHR 0x0A]) \<and> CHR ''<'' \<notin> set js"
proof -
  obtain page where p: "WriteDashboard (\<lambda>_. False) [] ''t'' ''g'' [hostile_section] = Some page" using hostile_page by blast
  show ?thesis using dashboard_island_closed [OF p] p by auto
qed

section \<open>The dashboard in the browser\<close>

text \<open>C22. The dashboard shows Go's verdicts: for data with UTF-8 strings and doubles and without frames,
  whose arrays are not null, the script runs on the page's data island without an exception and builds,
  section by section, the grid in which every cell carries the badge of \<^verbatim>\<open>Result.Verdict\<close> of the run that
  \<^verbatim>\<open>Matrix.Get\<close> finds, and is empty where there is none.\<close>

theorem dashboard_shows_go_verdicts:
  assumes "no_null nil" "data_ok \<lparr>dd_Title = title, dd_Generated = generated, dd_Sections = sections\<rparr>"
    "WriteDashboard nil rest title generated sections = Some page"
  shows "\<exists>js p. page = page_start @ island_open @ js @ ''</script>'' @ CHR 0x0A # rest \<and>
    run_page (page_data js) = (p, True) \<and> pg_sections p = map verdict_section (enumerate 0 sections)"
proof -
  obtain js v where js: "page = page_start @ island_open @ js @ ''</script>'' @ CHR 0x0A # rest" "page_data js = Some v"
    "write_struct (data_fields nil) \<lparr>dd_Title = title, dd_Generated = generated, dd_Sections = sections\<rparr> = Some v"
    using WriteDashboard_data [OF assms(3,2)] by blast
  have "\<forall>s \<in> set sections. ds_Frames s = []" using assms(2) by (simp add: data_ok_def section_ok_def list_all_iff)
  then show ?thesis using js run_page_completes [OF assms(1) js(3) page_sections_verdicts [OF assms(1) js(3)]] by auto
qed

text \<open>The status line that Go's own grading gives: the libraries of all the sections (but for the one
  name the script's object cannot hold), the sections, the runs, the share of them whose verdict is
  Pass in per cent with one decimal, and how many fail and how many warn.\<close>

definition graded :: "dashboard_section list \<Rightarrow> verdict \<Rightarrow> nat" where
  "graded sections v = length (filter (\<lambda>r. result_Verdict r = v) (dashboard_runs sections))"

definition go_pass_rate :: "dashboard_section list \<Rightarrow> f64" where
  "go_pass_rate sections = (let n = length (dashboard_runs sections) in
     if n = 0 then Fin 0
     else fdiv (js_round (fdiv (fmul (Fin 1000) (fof_int (int (graded sections Pass)))) (fof_int (int n)))) (Fin 10))"

definition go_status :: "dashboard_section list \<Rightarrow> dom list" where
  \<open>go_status sections =
     [led ''Implementations'' (nat_text (card ((\<Union>s \<in> set sections. set (mx_Libs (ds_Matrix s))) - {''__proto__''}))) ''var(--cyan)'',
      led ''Capability matrices'' (nat_text (length sections)) ''var(--cyan)'',
      led ''Graded runs'' (nat_text (length (dashboard_runs sections))) ''var(--phos)'',
      led ''Pass rate'' (''<span class="pct">'' @ js_number_text (go_pass_rate sections) @ ''</span><small>%</small>'') ''var(--phos)'',
      led ''Fail / warn'' (''<small style="color:var(--red)">'' @ nat_text (graded sections Fail) @
          ''F</small> / <small style="color:var(--amber)">'' @ nat_text (graded sections Warn) @ ''W</small>'')
        (if graded sections Fail \<noteq> 0 then ''var(--red)'' else ''var(--amber)'')]\<close>

lemma page_status_go:
  assumes "no_null nil" "write_struct (data_fields nil) d = Some v"
  shows "page_status (Some v) = Some (go_status (dd_Sections d))"
proof -
  obtain t where t: "page_tallies (Some v) = Some t" "tl_runs t = length (dashboard_runs (dd_Sections d))"
    "\<forall>vd. tl_byV t (Fin (of_nat (severity vd))) = graded (dd_Sections d) vd"
    "tl_libs t = concat (map (\<lambda>s. mx_Libs (ds_Matrix s)) (dd_Sections d))"
    using page_tallies_counts [OF assms] by (auto simp: count_of_def graded_def)
  have counts: "tl_byV t (Fin 0) = graded (dd_Sections d) Pass" "tl_byV t (Fin 1) = graded (dd_Sections d) Warn"
    "tl_byV t (Fin 2) = graded (dd_Sections d) Fail"
    using t(3) [rule_format, of Pass] t(3) [rule_format, of Warn] t(3) [rule_format, of Fail] by simp_all
  have "set (tl_libs t) = (\<Union>s \<in> set (dd_Sections d). set (mx_Libs (ds_Matrix s)))" by (auto simp: t(4))
  then have libs: "nLibs t = card ((\<Union>s \<in> set (dd_Sections d). set (mx_Libs (ds_Matrix s))) - {''__proto__''})"
    by (auto simp: nLibs_def length_remdups_card_conv intro!: arg_cong [where f = card])
  obtain ss where ss: "js_prop (Some v) ''sections'' = Some (JArr ss)" "length ss = length (dd_Sections d)"
    using data_members [OF assms] by (auto dest: list_all2_lengthD)
  have "passPct t = go_pass_rate (dd_Sections d)" by (simp add: passPct_def go_pass_rate_def t(2) counts(1) Let_def)
  then show ?thesis by (simp add: page_status_def go_status_def ss js_array_def t(1,2) counts(2,3) libs Let_def)
qed

text \<open>C24. The status line shows Go's counts: for data with UTF-8 strings and doubles and without frames,
  whose arrays are not null, the script runs to its end on the page's data island and the five fields of
  the status line it displays are those of \<open>go_status\<close>, from the verdicts of \<^verbatim>\<open>Result.Verdict\<close>: the number
  of libraries, of matrices and of graded runs, the pass rate, and how many runs fail and how many warn,
  in red as soon as one fails.\<close>

theorem dashboard_counts_runs:
  assumes "no_null nil" "data_ok \<lparr>dd_Title = title, dd_Generated = generated, dd_Sections = sections\<rparr>"
    "WriteDashboard nil rest title generated sections = Some page"
  shows "\<exists>js p. page = page_start @ island_open @ js @ ''</script>'' @ CHR 0x0A # rest \<and>
    run_page (page_data js) = (p, True) \<and> pg_status p = go_status sections"
proof -
  obtain js v where js: "page = page_start @ island_open @ js @ ''</script>'' @ CHR 0x0A # rest" "page_data js = Some v"
    "write_struct (data_fields nil) \<lparr>dd_Title = title, dd_Generated = generated, dd_Sections = sections\<rparr> = Some v"
    using WriteDashboard_data [OF assms(3,2)] by blast
  have frames: "\<forall>s \<in> set sections. ds_Frames s = []" using assms(2) by (simp add: data_ok_def section_ok_def list_all_iff)
  have "page_sections (Some v) = Some (map verdict_section (enumerate 0 sections))"
    using page_sections_verdicts [OF assms(1) js(3)] frames by simp
  from run_page_completes [OF assms(1) js(3) this] obtain p where
    "run_page (Some v) = (p, True)" "Some (pg_status p) = page_status (Some v)" by blast
  then show ?thesis using js(1,2) page_status_go [OF assms(1) js(3)] by auto
qed

definition shown_section :: dashboard_section where
  "shown_section = \<lparr>ds_Title = ''SRT <1>'', ds_Tier = ''Tier-1'', ds_Blurb = [], ds_Matrix = NewMatrix [] []
     [\<lparr>rs_Lib = ''a'', rs_Scenario = ''s'', rs_Checks = [\<lparr>ck_Name = ''c'', ck_Verdict = Fail, ck_Detail = []\<rparr>], rs_Metrics = Map.empty,
       rs_Err = []\<rparr>], ds_Frames = []\<rparr>"

lemma shown_ok: "no_null (\<lambda>_. False)" "data_ok \<lparr>dd_Title = ''t'', dd_Generated = ''g'', dd_Sections = [shown_section]\<rparr>"
  by (simp_all add: no_null_def data_ok_def section_ok_def shown_section_def matrix_ok_def NewMatrix_def sortedKeys_def result_ok_def
      check_ok_def ascii_utf8 ord_def)

lemma shown_page: "\<exists>page. WriteDashboard (\<lambda>_. False) [] ''t'' ''g'' [shown_section] = Some page"
  by (simp add: WriteDashboard_def shown_section_def write_struct_def data_fields_def section_fields_def matrix_fields_def result_fields_def
      check_fields_def write_field_def json_text_def keep_def write_list_def NewMatrix_def sortedKeys_def)

lemma shown_runs: "dashboard_runs [shown_section] = mx_Results (ds_Matrix shown_section)"
  "result_Verdict (hd (mx_Results (ds_Matrix shown_section))) = Fail" "length (mx_Results (ds_Matrix shown_section)) = 1"
  by (simp_all add: dashboard_runs_def shown_section_def NewMatrix_def result_Verdict_def worst_of_def less_verdict_def)

theorem dashboard_shows_go_verdicts_witness:
  "\<exists>page js p. WriteDashboard (\<lambda>_. False) [] ''t'' ''g'' [shown_section] = Some page \<and>
    page = page_start @ island_open @ js @ ''</script>'' @ [CHR 0x0A] \<and> run_page (page_data js) = (p, True) \<and>
    pg_sections p = [verdict_section (0, shown_section)]"
proof -
  obtain page where p: "WriteDashboard (\<lambda>_. False) [] ''t'' ''g'' [shown_section] = Some page" using shown_page by blast
  show ?thesis using dashboard_shows_go_verdicts [OF shown_ok p] p by simp
qed

theorem dashboard_counts_runs_witness:
  \<open>\<exists>page js p. WriteDashboard (\<lambda>_. False) [] ''t'' ''g'' [shown_section] = Some page \<and>
    page = page_start @ island_open @ js @ ''</script>'' @ [CHR 0x0A] \<and> run_page (page_data js) = (p, True) \<and>
    last (pg_status p) = led ''Fail / warn'' (''<small style="color:var(--red)">'' @ nat_text 1 @
      ''F</small> / <small style="color:var(--amber)">'' @ nat_text 0 @ ''W</small>'') ''var(--red)''\<close>
proof -
  obtain page where p: "WriteDashboard (\<lambda>_. False) [] ''t'' ''g'' [shown_section] = Some page" using shown_page by blast
  have "graded [shown_section] Fail = 1" "graded [shown_section] Warn = 0"
    using shown_runs by (cases "mx_Results (ds_Matrix shown_section)"; simp add: graded_def)+
  then show ?thesis using dashboard_counts_runs [OF shown_ok p] p by (auto simp: go_status_def)
qed

text \<open>C26. The filmstrip: for a delivered percentage that is a number or missing, the first one to eight
  slots show the thumbnails spread evenly, and the others are lost; no slot asks for a thumbnail
  that is not there.\<close>

theorem filmstrip_shows_thumbs:
  assumes "js_nullish p \<or> (\<exists>x. js_num p = Fin x)" "thumbs \<noteq> []" "length thumbs < 2 ^ 44"
  shows "\<exists>n. 1 \<le> n \<and> n \<le> 8 \<and> film_slots thumbs (live_slots (percent_or_all p)) =
      map (\<lambda>i. Frame (Some (thumbs ! (i * length thumbs div n)))) [0..<n] @ replicate (8 - n) Lost \<and>
    list_all (\<lambda>i. i * length thumbs div n < length thumbs) [0..<n]"
proof -
  obtain n where n: "1 \<le> n" "n \<le> 8" "film_slots thumbs (live_slots (percent_or_all p)) =
      map (\<lambda>i. Frame (Some (thumbs ! (i * length thumbs div n)))) [0..<n] @ replicate (8 - n) Lost"
    using film_of_run [OF assms] by blast
  have "i * length thumbs div n < length thumbs" if "i < n" for i
    using thumb_index_value(2) [of n i "length thumbs"] n(1,2) that assms(2,3) by simp
  then show ?thesis using n by (auto simp: list_all_iff)
qed

theorem filmstrip_shows_thumbs_witness:
  "\<exists>n. 1 \<le> n \<and> n \<le> 8 \<and> film_slots [JStr ''a'', JStr ''b''] (live_slots (percent_or_all None)) =
      map (\<lambda>i. Frame (Some ([JStr ''a'', JStr ''b''] ! (i * 2 div n)))) [0..<n] @ replicate (8 - n) Lost"
proof -
  have len: "length [JStr ''a'', JStr ''b''] = 2" by simp
  have "js_nullish None \<or> (\<exists>x. js_num None = Fin x)" "[JStr ''a'', JStr ''b''] \<noteq> []" "length [JStr ''a'', JStr ''b''] < 2 ^ 44"
    by (simp_all add: js_nullish_def)
  from filmstrip_shows_thumbs [OF this] show ?thesis unfolding len by blast
qed

text \<open>A matrix without runs, built from nil results, stops the script after its first statement: nothing but
  the stamp is shown.\<close>

theorem empty_matrix_blanks_dashboard:
  "\<exists>v h. write_struct (data_fields (\<lambda>k. k = ''results'')) \<lparr>dd_Title = ''t'', dd_Generated = ''g'',
      dd_Sections = [shown_section, shown_section\<lparr>ds_Matrix := NewMatrix [] [] []\<rparr>]\<rparr> = Some v \<and>
    run_page (Some v) = (page_new\<lparr>pg_stamp := h\<rparr>, False)"
proof -
  let ?d = "\<lparr>dd_Title = ''t'', dd_Generated = ''g'', dd_Sections = [shown_section, shown_section\<lparr>ds_Matrix := NewMatrix [] [] []\<rparr>]\<rparr>"
  obtain v where v: "write_struct (data_fields (\<lambda>k. k = ''results'')) ?d = Some v"
    by (simp add: shown_section_def write_struct_def data_fields_def section_fields_def matrix_fields_def result_fields_def
        check_fields_def write_field_def json_text_def keep_def write_list_def NewMatrix_def sortedKeys_def)
  have "page_status (Some v) = None"
    by (rule conjunct2 [OF nil_results_stop_script [OF _ _ _ _ v, of "shown_section\<lparr>ds_Matrix := NewMatrix [] [] []\<rparr>"]]) (simp_all add: NewMatrix_def)
  moreover obtain h where "page_stamp (Some v) = Some h"
  proof -
    have "js_array (js_prop (Some v) ''sections'') \<noteq> None"
      using v js_prop_struct [OF v field_names(5), of "''sections''"]
      by (auto simp: write_struct_def data_fields_def write_field_def keep_def write_list_def js_array_def split: option.splits)
    then show ?thesis using that by (auto simp: page_stamp_def Let_def)
  qed
  ultimately show ?thesis using v run_page_stops by blast
qed

text \<open>A check's name reaches the readout's markup as it is, whatever markup it holds; in the grid names are
  escaped.\<close>

theorem readout_names_are_markup:
  assumes "showReadout s lib scn res = Some h" "js_array_or_empty (js_prop res ''checks'') = Some cs"
  shows "sublist lib h \<and> (\<forall>c \<in> set cs. sublist (js_text (js_prop (Some c) ''name'')) h) \<and>
    set (escapeHtml lib) \<inter> {CHR ''<'', CHR ''>'', CHR 0x22} = {}"
  using showReadout_names [OF assms] escapeHtml_plain by blast

section \<open>The HTML report\<close>

text \<open>C28. The HTML report: the markup of the page, the characters of its tags without their quoted
  values, is that of the template's own texts; no name, detail, title or error of a run adds to it.\<close>

theorem html_markup_from_template:
  "markup (WriteHTML m) = markup (page_text (filter is_lit (view_pieces (buildView m))))"
  by (rule WriteHTML_markup)

text \<open>A manifest's JSON text is what \<^verbatim>\<open>LoadManifest\<close> reads back.\<close>

theorem manifest_text_loads:
  assumes "manifest_ok m"
  shows "\<exists>t. save_json (write_struct (manifest_fields True)) m = Some t \<and>
    LoadManifest manifest_decode \<lparr>rd_data = t @ rest, rd_fails = b\<rparr> = Inr m"
proof -
  obtain t where "save_json (write_struct (manifest_fields True)) m = Some t"
    "load_json (read_struct True (manifest_fields True)) zero_manifest (t @ rest) = Some m"
    using manifest_codec.load_save [OF assms] by blast
  moreover have "m\<lparr>mf_dir := []\<rparr> = m" using assms by (cases m) (simp add: manifest_ok_def)
  ultimately show ?thesis by (simp add: LoadManifest_def manifest_decode_def)
qed

end
