(* ===== verification/Spec2Isabelle.thy ===== *)
theory Spec2Isabelle
  imports RelayProperties RelayRunProperties WireProperties LinkProperties TextProperties ProfileProperties
    FileProperties
begin

text \<open>
  A model of \<^bold>\<open>impair\<close>, a deterministic network-impairment toolkit written in Go, and the
  theorems that make it correct. An engine (\<^verbatim>\<open>engine\<close>) pushes every datagram of two
  directions through a pipeline of impairment cells (\<^verbatim>\<open>internal/cells\<close>,
  \<^verbatim>\<open>internal/droplist\<close>), each drawing from its own substream of one seed
  (\<^verbatim>\<open>internal/rng\<close>). A scenario (\<^verbatim>\<open>scenario\<close>, \<^verbatim>\<open>internal/profile\<close>) builds the engine; a relay
  (\<^verbatim>\<open>relaycore\<close>, \<^verbatim>\<open>relay\<close>, \<^verbatim>\<open>ristrelay\<close>) or a simulation (\<^verbatim>\<open>internal/sim\<close>) drives it, and
  \<^verbatim>\<open>bond\<close> drives one engine per link. What passes is watched by passive decoders
  (\<^verbatim>\<open>wire\<close>, \<^verbatim>\<open>ristwire\<close>, \<^verbatim>\<open>quicwire\<close>), recorded (\<^verbatim>\<open>internal/pattern\<close>), and judged by
  oracles (\<^verbatim>\<open>grade\<close>, \<^verbatim>\<open>oracle\<close>, \<^verbatim>\<open>ristoracle\<close>, \<^verbatim>\<open>fec\<close>, \<^verbatim>\<open>bond\<close>) whose verdicts become a matrix
  (\<^verbatim>\<open>result\<close>, \<^verbatim>\<open>report\<close>, \<^verbatim>\<open>stat\<close>).

  \<^bold>\<open>The language.\<close> \<open>GoInt\<close>: \<^verbatim>\<open>int\<close> and \<^verbatim>\<open>int64\<close> are integers wrapped to 64 bits by
  \<open>i64\<close> after every operation; unsigned types and bytes are words. \<open>GoFloat\<close>: a finite
  \<^verbatim>\<open>float64\<close> is the rational it denotes, every operation rounds to the nearest, ties to even;
  zero has no sign. \<open>GoText\<close>, \<open>GoParse\<close>: strings are byte lists, with the parts of \<^verbatim>\<open>fmt\<close>,
  \<^verbatim>\<open>strings\<close>, \<^verbatim>\<open>strconv\<close> and \<^verbatim>\<open>bufio\<close> the program uses. \<open>GoBytes\<close>: big-endian fields.
  \<open>FloatText\<close>: the shortest decimal of a float. \<open>GoJson\<close>, \<open>JsonStruct\<close>: what \<^verbatim>\<open>encoding/json\<close> writes
  and reads, and structs as tables of their tagged fields; \<open>layout_style\<close> is the contract under
  which a layout reads back, interpreted on the compact and the indented one, \<open>json_codec\<close> that
  of a value that survives its JSON, interpreted on scenarios, profiles and manifests.
  \<open>Sha256\<close>: the digest. \<open>Prelude\<close>: the shared rule collections and list lemmas. A panic is
  \<open>None\<close>; an error is the left side of a sum, its constructors named after the messages; a Go
  map whose order of iteration matters is an argument, as is what the platform leaves open.

  \<^bold>\<open>The theories\<close>, each with the code it models under \<^verbatim>\<open>src/\<close>:
  \<^item> \<open>Rng\<close> (\<^verbatim>\<open>internal/rng\<close>): \<open>source\<close>, its draws, keyed substreams. Lemmas: the output mix is
    a bijection, uniform draws lie in the unit interval.
  \<^item> \<open>Engine\<close> (\<^verbatim>\<open>engine\<close>): packets, actions, \<open>engine_Handle\<close>; \<open>cell_stage\<close> and
    \<open>timed_cell\<close> are the contracts of the \<^verbatim>\<open>Cell\<close> interface and prove accounting and
    never-early once for every pipeline.
  \<^item> \<open>LossCell\<close>, \<open>CorruptCell\<close>, \<open>ReorderCell\<close>, \<open>DelayCell\<close>, \<open>RateCell\<close> (\<^verbatim>\<open>internal/cells/*\<close>) and
    \<open>TraceCells\<close> (\<^verbatim>\<open>blackhole\<close>, \<^verbatim>\<open>internal/droplist\<close>): state, constructor and
    \<^verbatim>\<open>Process\<close> of every cell. \<open>Cells\<close>: their sum type, which interprets the two contracts.
  \<^item> \<open>EgressHeap\<close>, \<open>Ledger\<close>, \<open>RelayCore\<close> (\<^verbatim>\<open>relaycore\<close>): the binary heap (as
    \<^verbatim>\<open>container/heap\<close> moves elements), the delay ledger, and the core, with the
    interleavings of enqueuers, egress goroutine, clock and shutdown as the step relation
    \<open>core_step\<close>. \<open>priority_queue\<close> is the heap's contract, interpreted on it. \<open>Relay\<close>
    (\<^verbatim>\<open>relay\<close>, \<^verbatim>\<open>ristrelay\<close>): one datagram of each driver; \<open>ReadLoops\<close>: their read loops over
    what the sockets deliver, and the two loops of the RIST relay interleaved. The core is generic in what a queued
    item carries: \<open>BufferPool\<close> runs it over addresses of pooled buffers in an explicit store
    (\<^verbatim>\<open>getBuf\<close>, \<^verbatim>\<open>putBuf\<close>) and proves a simulation by the core over bytes. \<open>Lifecycle\<close>: how the
    drivers open sockets, the turns of their read loops against the clock, and \<^verbatim>\<open>Close\<close>, as the
    step relation \<open>life_step\<close>.
  \<^item> \<open>WireObs\<close> (\<^verbatim>\<open>wireobs\<close>, \<^verbatim>\<open>quicwire\<close>), \<open>SrtWire\<close> (\<^verbatim>\<open>wire\<close>), \<open>RistWire\<close> (\<^verbatim>\<open>ristwire\<close>):
    decoders and observers. \<open>wire_observer\<close> is the contract of a passive observer, interpreted
    on both; the tallies of the two say what each has counted after any history.
  \<^item> \<open>Result\<close>, \<open>Grade\<close>, \<open>SrtOracle\<close>, \<open>RistOracle\<close>, \<open>Fec\<close>, \<open>Bond\<close>, \<open>Report\<close>, \<open>Stat\<close>: verdicts (a
    linear order), graders and oracles with their messages, the erasure decoder of ST 2022-1,
    the merge of ST 2022-7, the grid of a report, and the bootstrap interval.
  \<^item> \<open>Scenario\<close> (\<^verbatim>\<open>scenario\<close>): stages, substream keys, the builder and its errors. \<open>Pattern\<close>,
    \<open>Sim\<close> (\<^verbatim>\<open>internal/pattern\<close>, \<^verbatim>\<open>internal/sim\<close>), \<open>TraceText\<close> (\<^verbatim>\<open>internal/droplist\<close>):
    artifacts, traces and drop lists written, parsed and compared; \<open>ArtifactWriter\<close>: an artifact
    through the buffered and the counting writer; \<open>text_codec\<close> of
    \<open>GoParse\<close> is the contract of such a format, interpreted on all three.
  \<^item> \<open>Profile\<close>, \<open>Manifest\<close> (\<^verbatim>\<open>internal/profile\<close>), \<open>Cli\<close> (\<^verbatim>\<open>cmd/impair-profiles\<close>): profiles
    and their provenance, the G.1050 ladder, traces pinned by digest, and the command.
  \<^item> \<open>JsonFiles\<close> (\<^verbatim>\<open>Load\<close> and \<^verbatim>\<open>Save\<close> of \<^verbatim>\<open>scenario\<close> and \<^verbatim>\<open>internal/profile\<close>, the decoder of
    \<^verbatim>\<open>LoadManifest\<close>, the JSON of \<^verbatim>\<open>cmd/impair-profiles\<close>), \<open>ReportText\<close>, \<open>ReportHtml\<close>
    (\<^verbatim>\<open>report\<close>): the matrix and the dashboard's data as JSON, the HTML page with its template's text
    and the escaping of \<^verbatim>\<open>html/template\<close>.
  \<^item> The dashboard in the browser (\<^verbatim>\<open>report/dashboard.go\<close>, the template's script): \<open>Dashboard\<close>, what it
    computes from the data island; \<open>DashboardView\<close>, the markup of the readout, the comparison and the
    curves; \<open>DashboardPage\<close>, style sheet and elements; \<open>DashboardEvents\<close>, clicks, filmstrip, preview and
    the launcher as the step relation \<open>launcher_step\<close>; \<open>DashboardRun\<close>, the script's parts in their order up
    to an exception. \<open>DashboardData\<close> follows a matrix from Go
    through its JSON into the script.

  \<^bold>\<open>The properties.\<close> This theory: the engine and its cells (accounting, never
  early, independence of the directions, payloads, amplification, loss, rate, trace and jitter
  bounds). \<open>RelayProperties\<close>: conservation of admitted forwards, never early and no
  lost wake-up under every interleaving, the order in which forwards leave while the goroutines
  interleave, accounting, what a datagram's \<open>core_Process\<close> is as a run of their steps,
  the ledger as a refinement of a log and what swapping it breaks, and where datagrams are routed.
  \<open>RelayRunProperties\<close>: buffers are exclusive, and what is written are the payloads the
  callers passed; a close is final, and able to return without a datagram or a failing socket, at
  once or within a read deadline; the two loops of the RIST relay do not disturb each other.
  \<open>WireProperties\<close>: round trips of the wire formats, what observers count, when oracles
  pass, FEC recovery against its fixpoint characterisation. \<open>LinkProperties\<close>: builds,
  errors, substreams, the merge of bonded links that do not duplicate packets, and its termination.
  \<open>TextProperties\<close>: round trips of artifacts and traces, the golden diff, and what of
  an artifact a failing writer has taken. \<open>ProfileProperties\<close>: profiles, manifest,
  command, report and bootstrap. \<open>FileProperties\<close>: saved files load, which matrices
  cannot be written, and no data breaks out of its place in a page; the dashboard shows Go's
  verdicts in its grids and its counts in the status line, when no array of its data is null. Each
  is stated once, follows from its component's lemmas, and is applied at a concrete input where it
  has hypotheses.

  \<^bold>\<open>Bounds.\<close> Where the code's 64-bit sums can wrap, a property says so in a
  hypothesis (\<open>in64\<close>, \<open>cell_fits\<close>, \<open>ratelimit_fits\<close>,
  \<open>trace_fits\<close>) or states the wrapped value. Lines longer than the
  \<^verbatim>\<open>bufio.Scanner\<close>'s buffer are errors of the parsers, so round trips of
  what the program writes bound the lengths of names; of what a parser has accepted they need no
  bound. Every loop is a total function by its measure, but the merge of
  \<^verbatim>\<open>bond\<close>, which is a \<^verbatim>\<open>partial_function\<close>: it is
  proved to return for every total except -1. No model runs on fuel.

  \<^bold>\<open>Parameters.\<close> \<open>platform\<close>: the functions of package \<^verbatim>\<open>math\<close>, the
  conversion of an out-of-range float, and whether a product and sum are fused;
  the properties hold for every platform. The draws of \<^verbatim>\<open>math/rand\<close> (\<open>Stat\<close>), the file
  system, and the JSON decoder of \<open>Manifest\<close> and \<open>Cli\<close>, of which \<open>manifest_decode\<close> is the instance
  the program uses. Whether an empty slice is nil, which only its JSON shows, is the flag \<open>nil\<close>
  of the writers, one for each member name. The script of a dashboard as text is the argument \<open>rest\<close> of
  \<open>WriteDashboard\<close>, or \<open>script\<close> of \<open>dashboard_page\<close>; what it does is modelled.

  \<^bold>\<open>Not modelled.\<close> How the browser lays out and draws the dashboard's elements, and the filmstrip
  frames in the read-back of a page (its theorems are for sections without them); the value that accompanies a decoding
  error, which no caller uses; the stale elements of a list member given three times in one
  object; what the operating system answers on a socket (a choice of the step relations); errors
  of writers other than an artifact's; the column alignment of the command's tables.
\<close>

section \<open>Concrete inputs\<close>

text \<open>An engine to evaluate the properties on: the first packet of the
  client direction is on the drop list, an outage lasts from 10 to 20.\<close>

definition demo_engine :: "cell engine" where
  "demo_engine = engine_New [CDropList (NewDropList [1]), CBlackhole (blackhole_New 10 20)]
     [CBlackhole (blackhole_New 10 20)]"

definition demo_arrivals :: "(packet \<times> int64) list" where
  "demo_arrivals = [(\<lparr>pk_data = [7], pk_dir = C2S\<rparr>, 0), (\<lparr>pk_data = [8, 9], pk_dir = S2C\<rparr>, 5),
     (\<lparr>pk_data = [7], pk_dir = C2S\<rparr>, 12)]"

lemma dir_simps [simp]: "\<not> numDir \<le> C2S" "\<not> numDir \<le> S2C" "C2S \<noteq> S2C" "S2C \<noteq> C2S"
  "C2S < numDir" "S2C < numDir"
  by (simp_all add: not_le dir_cases) (simp_all add: C2S_def S2C_def)

lemma demo_run:
  "run_engine plain_platform demo_engine demo_arrivals =
    Some (demo_engine\<lparr>eng_seq := 3\<rparr>,
      [[\<lparr>act_kind = Drop, act_dir = C2S, act_seq = 1, act_data = [], act_deliver_at = 0,
         act_reason = ''droplist''\<rparr>],
       [\<lparr>act_kind = Forward, act_dir = S2C, act_seq = 2, act_data = [8, 9], act_deliver_at = 5,
         act_reason = []\<rparr>],
       [\<lparr>act_kind = Drop, act_dir = C2S, act_seq = 3, act_data = [], act_deliver_at = 0,
         act_reason = ''blackhole''\<rparr>]])"
  by (simp add: demo_engine_def demo_arrivals_def engine_New_def engine_Handle_def pipeline_def
      set_pipeline_def ingress_def lift_cell_def dropList_Process_def NewDropList_def
      blackhole_Process_def blackhole_New_def drop_action_def forward_action_def Let_def
      dropList_Name_def blackhole_Name_def)

section \<open>The engine\<close>

text \<open>C1. Accounting: in any run of the engine over any cells, every packet yields at least
  one action, and all its actions carry the packet's direction and its ingress number,
  which counts the packets of both directions from the engine's counter on.\<close>

theorem engine_accounts_for_every_packet:
  assumes "run_engine pf e ps = Some (e', as)"
  shows "eng_seq e' = eng_seq e + of_nat (length ps) \<and> length as = length ps \<and>
    (\<forall>i < length ps. as ! i \<noteq> [] \<and>
      (\<forall>a \<in> set (as ! i). act_seq a = eng_seq e + of_nat (i + 1) \<and> act_dir a = pk_dir (fst (ps ! i))))"
  using engine_run_seq [OF assms] engine_run_length [OF assms] by auto

theorem engine_accounts_for_every_packet_witness:
  "\<exists>e' as. run_engine plain_platform demo_engine demo_arrivals = Some (e', as) \<and>
    eng_seq e' = 3 \<and> length as = 3 \<and> (\<forall>a \<in> set (as ! 2). act_seq a = 3 \<and> act_dir a = C2S)"
  using engine_accounts_for_every_packet [OF demo_run] demo_run
  by (auto simp: demo_arrivals_def demo_engine_def engine_New_def)

text \<open>The engine panics on no input but a direction outside the two it has; on every
  other sequence of arrivals it returns.\<close>

theorem engine_panics_only_on_bad_direction:
  "run_engine pf e ps = None \<longleftrightarrow> list_ex (\<lambda>pt. numDir \<le> pk_dir (fst pt)) ps"
  unfolding engine_run_total list_ex_iff by force

text \<open>C6. Never early: as long as no cell's 64-bit sum wraps, no packet leaves the pipeline
  with a delivery time before its ingress time, whatever the cells are.\<close>

theorem engine_never_delivers_before_ingress:
  assumes "Handle pf e p t = Some (e', acts)"
    and "run_pipeline_fits (cell_Process pf) cell_Name cell_fits (pipeline e (pk_dir p))
      [ingress (eng_seq e + 1) p t]"
    and "a \<in> set acts" "act_kind a = Forward"
  shows "t \<le> act_deliver_at a"
  by (rule timed.Handle_floor [OF assms])

definition demo_shaper :: "cell engine" where
  "demo_shaper = engine_New [CRateLimit (ratelimit_New 1000 0)] []"

definition demo_shaped :: packet where
  "demo_shaped = \<lparr>pk_data = [7, 7], pk_dir = C2S\<rparr>"

lemma demo_shaper_Handle:
  "\<exists>e'. Handle plain_platform demo_shaper demo_shaped 100 = Some (e', [\<lparr>act_kind = Forward, act_dir = C2S, act_seq = 1,
     act_data = [7, 7], act_deliver_at = 2000100, act_reason = []\<rparr>])"
  by (simp add: demo_shaper_def demo_shaped_def engine_New_def engine_Handle_def pipeline_def set_pipeline_def
      ingress_def lift_cell_def ratelimit_Process_def ratelimit_New_def rl_serialize_def rl_backlog_def
      nsPerSec_def i64_def go_div_def sdiv_nonneg forward_action_def Let_def)

lemma demo_shaper_fits:
  "run_pipeline_fits (cell_Process pf) cell_Name cell_fits (pipeline demo_shaper C2S) [ingress 1 demo_shaped 100]"
  by (simp add: demo_shaper_def demo_shaped_def engine_New_def pipeline_def ingress_def ratelimit_fits_def
      ratelimit_New_def nsPerSec_def in64_def Let_def)

theorem engine_never_delivers_before_ingress_witness:
  "\<exists>e' a. Handle plain_platform demo_shaper demo_shaped 100 = Some (e', [a]) \<and> 100 \<le> act_deliver_at a"
proof -
  obtain e' a where h: "Handle plain_platform demo_shaper demo_shaped 100 = Some (e', [a])" "act_kind a = Forward"
    using demo_shaper_Handle by auto
  have "100 \<le> act_deliver_at a"
    by (rule engine_never_delivers_before_ingress [OF h(1)])
      (use h(2) demo_shaper_fits in \<open>simp_all add: demo_shaped_def demo_shaper_def engine_New_def\<close>)
  then show ?thesis using h by blast
qed

text \<open>C7. The directions are independent: with no drop list in a direction's pipeline, the
  actions of that direction's packets are, ingress numbers apart, those of a run in which
  only they arrive, and the pipeline ends in the same state.\<close>

theorem engine_directions_independent:
  assumes "run_engine pf e ps = Some (e', as)" "d < numDir" "\<forall>c\<in>set (pipeline e d). \<not> reads_seq c"
  shows "\<exists>e1 as1. run_engine pf e (of_dir d ps) = Some (e1, as1) \<and> pipeline e1 d = pipeline e' d \<and>
    map (map unnumbered) as1 = map (map unnumbered) (acts_of_dir d ps as)"
  using engine_run_direction [OF assms refl] by blast

theorem engine_directions_independent_witness:
  "\<exists>e1 as1. run_engine plain_platform demo_engine (of_dir S2C demo_arrivals) = Some (e1, as1) \<and>
    map (map act_deliver_at) as1 = [[5]]"
proof -
  have nr: "\<forall>c\<in>set (pipeline demo_engine S2C). \<not> reads_seq c"
    by (simp add: demo_engine_def engine_New_def pipeline_def)
  obtain e1 as1 where r: "run_engine plain_platform demo_engine (of_dir S2C demo_arrivals) = Some (e1, as1)"
    "map (map unnumbered) as1 = [[unnumbered \<lparr>act_kind = Forward, act_dir = S2C, act_seq = 2,
       act_data = [8, 9], act_deliver_at = 5, act_reason = []\<rparr>]]"
    using engine_directions_independent [OF demo_run dir_simps(6) nr]
    by (auto simp: acts_of_dir_def demo_arrivals_def)
  have "map (map act_deliver_at) as1 = map (map act_deliver_at) (map (map unnumbered) as1)"
    by (simp add: unnumbered_def comp_def)
  then show ?thesis using r by (auto simp: unnumbered_def)
qed

text \<open>Bounded amplification: one packet yields at most two actions per reorderer in its
  pipeline, multiplied up, and exactly one action where there is none.\<close>

theorem engine_duplication_bound:
  assumes "Handle pf e p t = Some (e', acts)"
  shows "1 \<le> length acts \<and> length acts \<le> 2 ^ length (filter is_reorder (pipeline e (pk_dir p)))"
proof -
  obtain cs out drops where
    r: "run_pipeline (cell_Process pf) cell_Name (pipeline e (pk_dir p)) [ingress (eng_seq e + 1) p t] = (cs, out, drops)"
    and acts: "acts = drops @ map forward_action out"
    using assms by (rule engine_Handle_Some)
  show ?thesis
    using run_pipeline_outputs [OF r] run_pipeline_progress [OF r] by (simp add: acts pipeline_fanout_def)
qed

theorem engine_duplication_bound_witness:
  "\<exists>e' acts. Handle plain_platform demo_shaper demo_shaped 100 = Some (e', acts) \<and> length acts = 1"
proof -
  obtain e' a where h: "Handle plain_platform demo_shaper demo_shaped 100 = Some (e', [a])"
    using demo_shaper_Handle by blast
  show ?thesis using h engine_duplication_bound [OF h]
    by (auto simp: demo_shaper_def demo_shaped_def engine_New_def pipeline_def)
qed

text \<open>C20. Payload integrity: without a corrupter in its pipeline a packet is forwarded byte
  for byte, however often it is duplicated.\<close>

theorem engine_preserves_payload:
  assumes "Handle pf e p t = Some (e', acts)" "\<forall>c\<in>set (pipeline e (pk_dir p)). \<not> is_corrupt c"
    and "a \<in> set acts" "act_kind a = Forward"
  shows "act_data a = pk_data p"
proof -
  obtain cs out drops where
    r: "run_pipeline (cell_Process pf) cell_Name (pipeline e (pk_dir p)) [ingress (eng_seq e + 1) p t] = (cs, out, drops)"
    and acts: "acts = drops @ map forward_action out"
    using assms(1) by (rule engine_Handle_Some)
  have "\<forall>g\<in>set out. if_data g = pk_data p"
    by (rule run_pipeline_data [OF r assms(2)]) (simp add: ingress_def)
  then show ?thesis using assms(3,4) run_pipeline_drops [OF r] by (auto simp: acts)
qed

theorem engine_preserves_payload_witness:
  "\<exists>e' a. Handle plain_platform demo_shaper demo_shaped 100 = Some (e', [a]) \<and> act_data a = pk_data demo_shaped"
proof -
  obtain e' a where h: "Handle plain_platform demo_shaper demo_shaped 100 = Some (e', [a])" "act_kind a = Forward"
    using demo_shaper_Handle by auto
  have "act_data a = pk_data demo_shaped"
    by (rule engine_preserves_payload [OF h(1)])
      (use h(2) in \<open>simp_all add: demo_shaped_def demo_shaper_def engine_New_def pipeline_def\<close>)
  then show ?thesis using h by blast
qed

section \<open>Random streams and the cells\<close>

text \<open>Full period: the first \<open>2 ^ 64\<close> values a source yields are pairwise different,
  whatever its seed.\<close>

theorem rng_stream_full_period:
  assumes "i < 2 ^ 64" "j < 2 ^ 64" "i \<noteq> j"
  shows "rng_nth s i \<noteq> rng_nth s j"
  using rng_nth_inj assms by blast

theorem rng_stream_full_period_witness: "rng_nth (rng_sub (new_root 42) ''loss/c2s/0'') 0 \<noteq>
    rng_nth (rng_sub (new_root 42) ''loss/c2s/0'') 18446744073709551615"
  by (rule rng_stream_full_period) simp_all

text \<open>Bernoulli loss with a probability strictly between 0 and 1 drops packet \<open>i\<close>
  exactly when draw \<open>i\<close> of its own stream is below the probability, one draw per packet
  whatever the packets hold.\<close>

theorem bernoulli_drops_by_draw:
  assumes "proper_prob (bern_p b)"
  shows "feed bernoulli_Process b fs =
    map (\<lambda>i. if flt (fst (rng_float64 (rng_after (bern_src b) i))) (bern_p b) then [] else [fs ! i])
      [0..<length fs]"
  by (rule bernoulli_feed [OF assms])

definition demo_packet :: "int64 \<Rightarrow> bytes \<Rightarrow> inflight" where
  "demo_packet t d = \<lparr>if_seq = 1, if_dir = C2S, if_data = d, recv_at = t, deliver_at = t\<rparr>"

lemma demo_packet_simps [simp]:
  "if_data (demo_packet t d) = d" "recv_at (demo_packet t d) = t" "deliver_at (demo_packet t d) = t"
  by (simp_all add: demo_packet_def)

theorem bernoulli_drops_by_draw_witness:
  "\<exists>b. proper_prob (bern_p b) \<and>
    feed bernoulli_Process b [demo_packet 1 []] =
      [if flt (fst (rng_float64 (bern_src b))) (bern_p b) then [] else [demo_packet 1 []]]"
proof -
  let ?b = "bernoulli_New (Fin (1 / 2)) (rng_sub (new_root 42) ''loss/c2s/0'')"
  have "proper_prob (bern_p ?b)" by (simp add: bernoulli_New_def proper_prob_Fin)
  then show ?thesis using bernoulli_drops_by_draw [of ?b "[demo_packet 1 []]"]
    by (intro exI [of _ ?b]) (simp del: feed.simps)
qed

text \<open>C19. Gilbert-Elliott loss with netem's defaults loses exactly the packets that find the
  chain in its bad state, and each packet moves the chain by one step after it.\<close>

theorem ge_drops_in_bad_state:
  assumes "netem_defaults g"
  shows "feed ge_Process g fs =
    map (\<lambda>i. if ge_st ((ge_advance ^^ i) g) = GeBad then [] else [fs ! i]) [0..<length fs]"
  by (rule ge_feed_defaults [OF assms])

theorem ge_drops_in_bad_state_witness:
  "feed ge_Process (NewGE \<lparr>geP = Fin 1, geR = Fin 1, geH = Fin 0, geK = Fin 0, hSet = False, kSet = False\<rparr> (rng_sub (new_root 42) ''ge/c2s/0''))
     [demo_packet 1 [], demo_packet 2 [], demo_packet 3 []] = [[demo_packet 1 []], [], [demo_packet 3 []]]"
proof -
  let ?g = "NewGE \<lparr>geP = Fin 1, geR = Fin 1, geH = Fin 0, geK = Fin 0, hSet = False, kSet = False\<rparr> (rng_sub (new_root 42) ''ge/c2s/0'')"
  have d: "netem_defaults ?g" by (simp add: netem_defaults_def NewGE_def)
  show ?thesis unfolding ge_drops_in_bad_state [OF d]
    by (simp add: NewGE_def ge_advance_def fle_def numeral_2_eq_2 upt_rec)
qed

text \<open>Corruption flips exactly one bit of the payload of a packet it hits, and leaves
  every other packet alone.\<close>

theorem corrupt_flips_one_bit:
  assumes "8 * length (if_data f) < 2 ^ 63"
  shows "if \<not> fle (cor_pct c) (Fin 0) \<and> if_data f \<noteq> [] \<and> \<not> fle (cor_pct c) (fst (rng_float64 (cor_src c)))
    then (\<exists>b d. b < 8 * length (if_data f) \<and> snd (corrupt_Process c f) = [f\<lparr>if_data := d\<rparr>] \<and>
      length d = length (if_data f) \<and>
      (\<forall>n < 8 * length (if_data f). payload_bit d n = (payload_bit (if_data f) n \<noteq> (n = b))))
    else snd (corrupt_Process c f) = [f]"
proof (cases "\<not> fle (cor_pct c) (Fin 0) \<and> if_data f \<noteq> [] \<and> \<not> fle (cor_pct c) (fst (rng_float64 (cor_src c)))")
  case True
  then obtain b where b: "b < 8 * length (if_data f)" "in64 (int b)"
    "snd (corrupt_Process c f) = [f\<lparr>if_data := flip_bit_at (if_data f) (int b)\<rparr>]"
    using assms by (elim conjE corrupt_Process_flip)
  show ?thesis unfolding if_P [OF True]
    by (intro exI [of _ b] exI [of _ "flip_bit_at (if_data f) (int b)"])
      (use b payload_bit_flip [OF b(1) _ b(2)] in simp)
next
  case False
  then show ?thesis by (auto simp: corrupt_Process_def split_beta)
qed

theorem corrupt_flips_one_bit_witness:
  "\<exists>b d. b < 16 \<and> snd (corrupt_Process (corrupt_New (Fin 1) (rng_sub (new_root 42) ''corrupt/c2s/0''))
      (demo_packet 5 [0, 0])) = [(demo_packet 5 [0, 0])\<lparr>if_data := d\<rparr>] \<and>
    (\<forall>n < 16. payload_bit d n = (n = b))"
proof -
  let ?c = "corrupt_New (Fin 1) (rng_sub (new_root 42) ''corrupt/c2s/0'')"
  let ?f = "demo_packet 5 [0, 0]"
  have z: "payload_bit [0, 0] n = False" if "n < 16" for n
    using that by (auto simp: payload_bit_def less_mult_imp_div_less nth_Cons split: nat.splits)
  obtain r where "fst (rng_float64 (cor_src ?c)) = Fin r" "r < 1" by (rule rng_float64_unit)
  then have "\<not> fle (cor_pct ?c) (Fin 0) \<and> if_data ?f \<noteq> [] \<and> \<not> fle (cor_pct ?c) (fst (rng_float64 (cor_src ?c)))"
    by (simp add: corrupt_New_def demo_packet_def fle_def)
  then show ?thesis
    using corrupt_flips_one_bit [of ?f ?c] z unfolding demo_packet_def by fastforce
qed

text \<open>C18. The rate limiter is a first-in first-out link of its configured rate: departures
  never decrease, and between the time the link stands at and the last departure there is
  room for every byte that left.\<close>

theorem ratelimit_line_rate:
  assumes "0 < rl_RateBps c" "run_cell_fits ratelimit_Process ratelimit_fits c fs"
  shows "sorted (rl_deliveries c fs) \<and>
    (rl_deliveries c fs = [] \<or>
     rl_airtime (rl_RateBps c) (concat (feed ratelimit_Process c fs))
       \<le> last (rl_deliveries c fs) - rl_queueFreeAt c)"
  using rl_deliveries_sorted [OF assms] rl_line_rate [OF assms] by blast

lemma demo_rate_fits:
  "run_cell_fits ratelimit_Process ratelimit_fits (ratelimit_New 1000 0)
    [demo_packet 100 [7, 7], demo_packet 200 [7]]"
  by (simp add: ratelimit_fits_def ratelimit_New_def demo_packet_def ratelimit_Process_def rl_serialize_def
      rl_backlog_def nsPerSec_def i64_def in64_def go_div_def sdiv_nonneg Let_def)

theorem ratelimit_line_rate_witness:
  "rl_deliveries (ratelimit_New 1000 0) [demo_packet 100 [7, 7], demo_packet 200 [7]] = [2000100, 3000100] \<and>
   sorted (rl_deliveries (ratelimit_New 1000 0) [demo_packet 100 [7, 7], demo_packet 200 [7]])"
proof -
  have "rl_deliveries (ratelimit_New 1000 0) [demo_packet 100 [7, 7], demo_packet 200 [7]] = [2000100, 3000100]"
    by (simp add: rl_deliveries_def ratelimit_New_def demo_packet_def ratelimit_Process_def rl_serialize_def
        rl_backlog_def nsPerSec_def i64_def go_div_def sdiv_nonneg Let_def)
  moreover have "0 < rl_RateBps (ratelimit_New 1000 0)" by (simp add: ratelimit_New_def)
  ultimately show ?thesis using ratelimit_line_rate [OF _ demo_rate_fits] by blast
qed

text \<open>The rate limiter's queue is bounded: a packet that is accepted has at most the
  configured number of bytes waiting before it, measured at the line rate.\<close>

theorem ratelimit_queue_bound:
  assumes "0 < rl_RateBps c" "0 < rl_QueueBytes c" "ratelimit_fits c f"
    and "snd (ratelimit_Process c f) \<noteq> []"
  shows "(max (rl_queueFreeAt c) (deliver_at f) - deliver_at f) * rl_RateBps c
    < (rl_QueueBytes c + 1) * nsPerSec"
proof -
  obtain g gs where "snd (ratelimit_Process c f) = g # gs"
    using assms(4) by (cases "snd (ratelimit_Process c f)") auto
  then show ?thesis using ratelimit_accept(4) [OF assms(1,3)] assms(2) by blast
qed

theorem ratelimit_queue_bound_witness:
  "(max (rl_queueFreeAt ((ratelimit_New 1000 1)\<lparr>rl_queueFreeAt := 1000000\<rparr>)) 200 - 200) * 1000
    < 2 * nsPerSec"
  using ratelimit_queue_bound [of "(ratelimit_New 1000 1)\<lparr>rl_queueFreeAt := 1000000\<rparr>" "demo_packet 200 [7]"]
  by (simp add: ratelimit_fits_def ratelimit_New_def demo_packet_def ratelimit_Process_def rl_serialize_def
      rl_backlog_def nsPerSec_def i64_def in64_def go_div_def sdiv_nonneg Let_def)

text \<open>C17. Capacity in time: by any time \<open>T\<close> a delivery trace has delivered no more bytes than one MTU
  for each opportunity that its schedule, counted from the ingress of the first packet, puts at or
  before \<open>T\<close>, and of these only the ones its cursor has passed count; and packets that come in order
  of time leave in order of time. The schedule is non-empty, sorted and non-negative and the MTU
  positive, as the constructor leaves them, and the times computed for the packets fit 64 bits.\<close>

theorem trace_capacity_and_order:
  assumes "trace_wf t" "t_sched t \<noteq> []" "trace_packets_fit t fs"
  shows "(\<Sum>g\<leftarrow>filter (\<lambda>g. deliver_at g \<le> T) (concat (feed deliveryTrace_Process t fs)). int (length (if_data g)))
      \<le> t_mtu t * int (card {i. t_nextOpp t \<le> i \<and> i < t_nextOpp (feed_state deliveryTrace_Process t fs) \<and>
          t_baseNs (start_trace t (hd fs)) + opp_time t i * 1000000 \<le> T}) \<and>
    (sorted (map recv_at fs) \<longrightarrow> sorted (map deliver_at (concat (feed deliveryTrace_Process t fs))))"
  using trace_capacity [OF assms, of T] trace_fifo_from [OF assms]
  by (simp add: delivered_by_def opps_by_def)

definition demo_trace :: deliveryTrace where
  "demo_trace = NewDeliveryTrace \<lparr>dt_Schedule = [20, 10], dt_MTU = 2, dt_MaxBacklog = 0, dt_Loop = False\<rparr>"

lemma demo_trace_eq:
  "demo_trace = \<lparr>t_sched = [10, 20], t_periodMs = 20, t_mtu = 2, t_maxBacklog = 0, t_loop = False,
     t_started = False, t_baseNs = 0, t_nextOpp = 0\<rparr>"
  by (simp add: demo_trace_def NewDeliveryTrace_def)

lemmas trace_eval = demo_trace_eq demo_packet_def deliveryTrace_Process_alt trace_fits_def trace_arr_def
  trace_last_def firstOppAtOrAfter_def sort_Search_def search_between.simps nsToMsFloor_def opps_needed_def
  start_trace_def oppTimeMs_def opp_time_def i64_def in64_def go_div_def go_mod_def sdiv_nonneg smod_nonneg Let_def

lemma demo_trace_run:
  "deliveryTrace_Process demo_trace (demo_packet 0 [7]) =
    (demo_trace\<lparr>t_started := True, t_nextOpp := 1\<rparr>, [(demo_packet 0 [7])\<lparr>deliver_at := 10000000\<rparr>])"
  "trace_fits demo_trace (demo_packet 0 [7])"
  by (simp_all add: trace_eval)

text \<open>Nothing leaves before the first opportunity, ten milliseconds after the first packet.\<close>

theorem trace_capacity_and_order_witness:
  "filter (\<lambda>g. deliver_at g \<le> 9999999) (concat (feed deliveryTrace_Process demo_trace [demo_packet 0 [7]])) = [] \<and>
   (\<Sum>g\<leftarrow>filter (\<lambda>g. deliver_at g \<le> 9999999) (concat (feed deliveryTrace_Process demo_trace [demo_packet 0 [7]])).
     int (length (if_data g))) \<le> 2 * int (card ({} :: int set))"
proof -
  have wf: "trace_wf demo_trace" "t_sched demo_trace \<noteq> []" by (simp_all add: trace_wf_def demo_trace_eq in64_def)
  have "{i. t_nextOpp demo_trace \<le> i \<and> i < 1 \<and>
      t_baseNs (start_trace demo_trace (demo_packet 0 [7])) + opp_time demo_trace i * 1000000 \<le> 9999999} = {}"
  proof -
    have "i = 0" if "t_nextOpp demo_trace \<le> i" "i < 1" for i using that by (simp add: demo_trace_eq)
    then show ?thesis by (auto simp: demo_trace_eq opp_time_def start_trace_def demo_packet_def)
  qed
  then show ?thesis
    using trace_capacity_and_order [of demo_trace "[demo_packet 0 [7]]" 9999999] wf demo_trace_run
    by (simp add: demo_trace_eq)
qed

text \<open>The reorderer takes a fixed number of draws per packet, so that what one packet
  meets does not shift the draws of the next: two, and a third where duplication is on.\<close>

theorem reorder_draws_per_packet:
  "ro_src (fst (reorder_Process r f)) =
    rng_after (ro_src r) (if flt (Fin 0) (ro_DupPct (ro_cfg r)) then 3 else 2)"
  by (rule reorder_draws)

text \<open>Uniform jitter stays within its bound: an uncorrelated uniform delay moves the
  delivery by the base delay and at most the configured jitter either way, floored at the
  packet's ingress.\<close>

theorem delay_uniform_bounded:
  assumes "de_Distribution (de_cfg c) = DistUniform" "\<not> flt (Fin 0) (de_Correlation (de_cfg c))"
    and "0 \<le> de_Jitter (de_cfg c)" "de_Jitter (de_cfg c) < 2 ^ 53"
    and "\<bar>de_Base (de_cfg c)\<bar> < 2 ^ 61" "\<bar>deliver_at f\<bar> < 2 ^ 61"
  shows "\<exists>j. \<bar>j\<bar> \<le> de_Jitter (de_cfg c) \<and>
    snd (delay_Process pf c f) = [f\<lparr>deliver_at := max (recv_at f) (deliver_at f + de_Base (de_cfg c) + j)\<rparr>]"
proof -
  obtain x where x: "fst (drawJitter pf c) = Fin x" "\<bar>x\<bar> \<le> of_int (de_Jitter (de_cfg c))"
    using drawJitter_uniform_bound [OF assms(1,3,4)] by blast
  have j: "\<bar>delay_jitter pf c\<bar> \<le> de_Jitter (de_cfg c)"
    using delay_jitter_bounded(2) [OF assms(2) x] assms(3,4) by (simp add: in64_def)
  have "in64 (de_Base (de_cfg c) + delay_jitter pf c)"
    "in64 (deliver_at f + (de_Base (de_cfg c) + delay_jitter pf c))"
    using j assms(4-6) by (auto simp: in64_def)
  then show ?thesis using delay_Process_time j by blast
qed

theorem delay_uniform_bounded_witness:
  "\<exists>c. \<exists>j. \<bar>j\<bar> \<le> 1000000 \<and> snd (delay_Process plain_platform c (demo_packet 5 [])) =
    [(demo_packet 5 [])\<lparr>deliver_at := max 5 (5 + 20000000 + j)\<rparr>]"
proof -
  let ?c = "delay_New \<lparr>de_Base = 20000000, de_Jitter = 1000000, de_Sigma = 0,
    de_Distribution = DistUniform, de_Correlation = Fin 0\<rparr> (rng_sub (new_root 42) ''delay/c2s/0'')"
  show ?thesis
    using delay_uniform_bounded [of ?c "demo_packet 5 []" plain_platform]
    by (intro exI [of _ ?c]) (simp add: delay_New_def demo_packet_def fle_def Let_def)
qed

end
